(* ===== verification/Prelude.thy ===== *)
theory Prelude
  imports Main "HOL-Library.Word" "HOL-Library.Monad_Syntax" "HOL-Library.Sublist" "HOL-Library.Char_ord"
begin

text \<open>
  Shared vocabulary of the development: the C integer types the sources use, the
  reading of C memory (an array a pointer refers to is a list of bytes, and an access
  outside of it has no result), C strings inside such an array, and the functions of
  the C library (\<^verbatim>\<open>strstr\<close>, \<^verbatim>\<open>strcmp\<close>, \<^verbatim>\<open>isalpha\<close>, \<^verbatim>\<open>sprintf\<close> of numbers) that the
  protocol code calls. The generic lemmas on lists, options and words that the
  component theories share are declared here.
\<close>

unbundle bit_operations_syntax

section \<open>Collections of facts\<close>

named_theorems mem_simps "reading and writing C memory"
named_theorems buf_simps "operations of the byte buffer"
named_theorems bundle_simps "operations of the field bundle"
named_theorems queue_simps "operations of the intrusive queue"

section \<open>Machine types\<close>

type_synonym u8 = "8 word"
type_synonym u16 = "16 word"
type_synonym u32 = "32 word"
type_synonym u64 = "64 word"

text \<open>
  A byte of a C array is a \<^typ>\<open>char\<close> (both have 256 values), so that C string literals
  are HOL string literals.
\<close>

type_synonym memory = "char list"

abbreviation NUL :: char where "NUL \<equiv> CHR 0x00"
abbreviation CR :: char where "CR \<equiv> CHR 0x0D"
abbreviation LF :: char where "LF \<equiv> CHR 0x0A"

section \<open>C memory\<close>

text \<open>
  The result type of code that touches memory is an \<open>option\<close>: \<open>None\<close> is the undefined
  behaviour of an access outside of the array (or through a null pointer).
\<close>

definition mem_get :: "memory \<Rightarrow> nat \<Rightarrow> char option" where
  "mem_get m i = (if i < length m then Some (m ! i) else None)"

definition mem_set :: "memory \<Rightarrow> nat \<Rightarrow> char \<Rightarrow> memory option" where
  "mem_set m i c = (if i < length m then Some (m[i := c]) else None)"

definition mem_read :: "memory \<Rightarrow> nat \<Rightarrow> nat \<Rightarrow> char list option" where
  "mem_read m i n = (if i + n \<le> length m then Some (take n (drop i m)) else None)"

definition memcpy :: "memory \<Rightarrow> nat \<Rightarrow> char list \<Rightarrow> memory option" where
  "memcpy m i xs =
     (if i + length xs \<le> length m then Some (take i m @ xs @ drop (i + length xs) m) else None)"

definition memset :: "memory \<Rightarrow> nat \<Rightarrow> char \<Rightarrow> nat \<Rightarrow> memory option" where
  "memset m i c n = memcpy m i (replicate n c)"

definition memmove :: "memory \<Rightarrow> nat \<Rightarrow> nat \<Rightarrow> nat \<Rightarrow> memory option" where
  "memmove m dst src n = do { xs \<leftarrow> mem_read m src n; memcpy m dst xs }"

lemma mem_set_length [mem_simps]: "mem_set m i c = Some m' \<Longrightarrow> length m' = length m"
  by (auto simp: mem_set_def split: if_splits)

lemma memcpy_length [mem_simps]: "memcpy m i xs = Some m' \<Longrightarrow> length m' = length m"
  by (auto simp: memcpy_def split: if_splits)

lemma memset_length [mem_simps]: "memset m i c n = Some m' \<Longrightarrow> length m' = length m"
  by (auto simp: memset_def memcpy_length)

section \<open>C strings\<close>

text \<open>
  The C string that starts at index \<open>i\<close>: the bytes before the first NUL. Without a NUL
  the library functions run off the array, which has no result.
\<close>

definition c_str :: "memory \<Rightarrow> nat \<Rightarrow> string option" where
  "c_str m i = (if NUL \<in> set (drop i m) then Some (takeWhile (\<lambda>c. c \<noteq> NUL) (drop i m)) else None)"

fun strstr :: "string \<Rightarrow> string \<Rightarrow> nat option" where
  "strstr [] pat = (if pat = [] then Some 0 else None)"
| "strstr (c # s) pat = (if prefix pat (c # s) then Some 0 else map_option Suc (strstr s pat))"

text \<open>\<open>strstr_at m i pat\<close> is \<^verbatim>\<open>strstr(m + i, pat)\<close>: an index into \<open>m\<close>, or the null pointer.\<close>

definition strstr_at :: "memory \<Rightarrow> nat \<Rightarrow> string \<Rightarrow> nat option option" where
  "strstr_at m i pat = do { s \<leftarrow> c_str m i; Some (map_option (\<lambda>k. i + k) (strstr s pat)) }"

lemma strstr_Some_prefix: "strstr s pat = Some k \<Longrightarrow> prefix pat (drop k s)"
  by (induction s arbitrary: k) (auto split: if_splits)

lemma strstr_Some_le: "strstr s pat = Some k \<Longrightarrow> k + length pat \<le> length s"
  by (induction s arbitrary: k) (auto split: if_splits dest: prefix_length_le)

lemma strstr_Some_first: "strstr s pat = Some k \<Longrightarrow> j < k \<Longrightarrow> \<not> prefix pat (drop j s)"
proof (induction s arbitrary: k j)
  case Nil
  then show ?case by (auto split: if_splits)
next
  case (Cons c s)
  then show ?case by (cases j) (auto split: if_splits)
qed

lemma strstr_None: "strstr s pat = None \<Longrightarrow> \<not> prefix pat (drop j s)"
proof (induction s arbitrary: j)
  case Nil
  then show ?case by (auto split: if_splits)
next
  case (Cons c s)
  then show ?case by (cases j) (auto split: if_splits)
qed

text \<open>The first occurrence is found where nothing before it matches.\<close>

lemma strstr_eqI:
  assumes "k + length pat \<le> length s" "prefix pat (drop k s)" "\<And>j. j < k \<Longrightarrow> \<not> prefix pat (drop j s)"
  shows "strstr s pat = Some k"
proof (cases "strstr s pat")
  case None
  then show ?thesis using assms(2) strstr_None by blast
next
  case (Some k')
  then show ?thesis
    using assms(2,3) strstr_Some_prefix strstr_Some_first by (metis linorder_neqE_nat)
qed

lemma strstr_split:
  "strstr s pat = Some k \<Longrightarrow> s = take k s @ pat @ drop (k + length pat) s"
  by (metis add.commute append_take_drop_id drop_drop prefix_def strstr_Some_prefix append_eq_conv_conj)

lemma strstr_append: "strstr a pat = Some k \<Longrightarrow> strstr (a @ b) pat = Some k"
proof (induction a arbitrary: k)
  case Nil
  then show ?case by (cases b) (auto split: if_splits)
next
  case (Cons c a)
  show ?case
  proof (cases "prefix pat (c # a)")
    case True
    then have "prefix pat ((c # a) @ b)" by (rule prefix_prefix)
    then show ?thesis using Cons.prems True by simp
  next
    case False
    then obtain k' where "strstr a pat = Some k'" "k = Suc k'" using Cons.prems by auto
    moreover have "\<not> prefix pat (c # a @ b)"
      using False strstr_Some_le [OF \<open>strstr a pat = Some k'\<close>]
      by (metis append_Cons prefix_append length_append le_add1 length_Cons not_less_eq_eq prefix_def prefix_length_le
          le_trans le_SucI add_leD2 append_eq_append_conv_if append_take_drop_id)
    ultimately show ?thesis using Cons.IH by simp
  qed
qed

section \<open>Lists\<close>

lemma take_take_append: "take n (take n xs @ ys) = take n (xs @ ys)"
  by (cases "length xs \<le> n") auto

section \<open>Words\<close>

lemma unat_u16_less: "unat (w :: u16) < 65536"
proof -
  have "unat w < 2 ^ LENGTH(16)" by (rule unsigned_less)
  then show ?thesis by simp
qed

lemma uint_u16_less: "uint (w :: u16) < 65536"
proof -
  have "uint w < 2 ^ LENGTH(16)" by (rule unsigned_less)
  then show ?thesis by simp
qed

lemma uint_u16_unat: "uint (w :: u16) = int (unat w)"
  by simp

lemma unat_u16_plus: "unat a + unat b < 65536 \<Longrightarrow> unat (a + b :: u16) = unat a + unat b"
  by (simp add: unat_word_ariths)

lemma unat_u16_minus: "b \<le> a \<Longrightarrow> unat (a - b :: u16) = unat a - unat b"
  by (simp add: unat_sub word_le_nat_alt)

lemma unat_u16_of_nat: "n < 65536 \<Longrightarrow> unat (of_nat n :: u16) = n"
  by (simp add: unat_of_nat)

lemma unat_inc_less:
  fixes a b :: "'a::len word"
  assumes "a < b"
  shows "unat (a + 1) = Suc (unat a)"
proof -
  have "unat a < unat b" using assms by (simp add: word_less_nat_alt)
  moreover have "unat b < 2 ^ LENGTH('a)" by (rule unsigned_less)
  ultimately have "Suc (unat a) < 2 ^ LENGTH('a)" by linarith
  moreover have "unat (a + 1) = Suc (unat a) mod 2 ^ LENGTH('a)"
    by (subst unat_word_ariths) (simp add: mod_simps)
  ultimately show ?thesis by simp
qed

lemma xor_word_left_cancel [simp]: "a XOR b = a XOR c \<longleftrightarrow> b = (c :: 'a::len word)"
  by (metis xor.assoc xor.left_neutral xor_self_eq)

lemma xor_word_right_cancel [simp]: "b XOR a = c XOR a \<longleftrightarrow> b = (c :: 'a::len word)"
  by (metis xor.commute xor_word_left_cancel)

end
