(* ===== verification/CByteBuffer.thy ===== *)
theory CByteBuffer
  imports Prelude
begin

text \<open>
  The byte buffer of the SCTP stack (\<^verbatim>\<open>src/src/core/protocol/sctp/cbytebuffer.c\<close>): a
  window \<open>[mOffset, mOffset + mBytes)\<close> of a caller-supplied array, kept NUL-terminated.
  The theory holds the structure and its operations, the invariant \<open>bb_ok\<close>, the
  abstraction \<open>bb_data\<close> (the bytes of the window), and the contract \<open>byte_fifo\<close> that the
  operations implement: a byte queue of bounded capacity in which no access leaves the
  array.
\<close>

section \<open>The structure\<close>

text \<open>\<open>mBuf\<close> is the array the pointer refers to, \<open>None\<close> for the null pointer.\<close>

record tagByteBuffer =
  mBuf :: "memory option"
  mOffset :: u16
  mBytes :: u16
  mTotalBytes :: u16

definition ByteBuffer_Create :: tagByteBuffer where
  "ByteBuffer_Create = \<lparr>mBuf = None, mOffset = 0, mBytes = 0, mTotalBytes = 0\<rparr>"

definition ByteBuffer_Init :: "tagByteBuffer \<Rightarrow> memory \<Rightarrow> u16 \<Rightarrow> tagByteBuffer option" where
  "ByteBuffer_Init obj buf totalBytes = do {
     buf' \<leftarrow> (if totalBytes \<noteq> 0 then memset buf 0 NUL (unat totalBytes) else Some buf);
     Some (obj\<lparr>mBuf := Some buf', mOffset := 0, mBytes := 0, mTotalBytes := totalBytes\<rparr>)
   }"

text \<open>The comparison and the subtractions are done in \<^verbatim>\<open>int\<close>, where they cannot wrap.\<close>

definition ByteBuffer_GetFreeBytes :: "tagByteBuffer \<Rightarrow> u16" where
  "ByteBuffer_GetFreeBytes obj =
     (if uint (mBytes obj) \<ge> uint (mTotalBytes obj) - 1 then 0
      else word_of_int (uint (mTotalBytes obj) - uint (mBytes obj) - 1))"

definition ByteBuffer_MoveToHead :: "tagByteBuffer \<Rightarrow> tagByteBuffer option" where
  "ByteBuffer_MoveToHead obj = do {
     obj \<leftarrow> (if mOffset obj \<noteq> 0 \<and> mBytes obj \<noteq> 0
            then do {
              m \<leftarrow> mBuf obj;
              m \<leftarrow> memmove m 0 (unat (mOffset obj)) (unat (mBytes obj));
              m \<leftarrow> mem_set m (unat (mBytes obj)) NUL;
              Some (obj\<lparr>mBuf := Some m, mOffset := 0\<rparr>)
            }
            else Some obj);
     Some (obj\<lparr>mOffset := 0\<rparr>)
   }"

text \<open>The caller's text and its length \<^verbatim>\<open>bytes\<close> are one list, of fewer than 65536 bytes.\<close>

definition ByteBuffer_Input :: "tagByteBuffer \<Rightarrow> char list \<Rightarrow> (int \<times> tagByteBuffer) option" where
  "ByteBuffer_Input obj text =
     (let freeBytes = ByteBuffer_GetFreeBytes obj in
      if freeBytes = 0 then Some (0, obj)
      else do {
        obj \<leftarrow> ByteBuffer_MoveToHead obj;
        let obj = obj\<lparr>mOffset := 0\<rparr>;
        let eatBytes = (if length text < unat freeBytes then of_nat (length text) else freeBytes);
        m \<leftarrow> mBuf obj;
        m \<leftarrow> memcpy m (unat (mBytes obj)) (take (unat eatBytes) text);
        let obj = obj\<lparr>mBytes := mBytes obj + eatBytes\<rparr>;
        m \<leftarrow> (if mBytes obj < mTotalBytes obj
              then memset m (unat (mBytes obj)) NUL (unat (mTotalBytes obj) - unat (mBytes obj))
              else Some m);
        Some (uint eatBytes, obj\<lparr>mBuf := Some m\<rparr>)
      })"

definition ByteBuffer_Write :: "tagByteBuffer \<Rightarrow> char list \<Rightarrow> (int \<times> tagByteBuffer) option" where
  "ByteBuffer_Write obj text = ByteBuffer_Input obj text"

definition ByteBuffer_WriteByte :: "tagByteBuffer \<Rightarrow> char \<Rightarrow> (int \<times> tagByteBuffer) option" where
  "ByteBuffer_WriteByte obj c = ByteBuffer_Input obj [c]"

text \<open>
  The length of a C string is cut to 16 bits before the copy; a null pointer writes
  nothing.
\<close>

definition ByteBuffer_WriteString ::
    "tagByteBuffer \<Rightarrow> string option \<Rightarrow> (int \<times> tagByteBuffer) option" where
  "ByteBuffer_WriteString obj text =
     (case text of
        Some s \<Rightarrow>
          (if s \<noteq> [] then ByteBuffer_Input obj (take (length s mod 65536) s) else Some (0, obj))
      | None \<Rightarrow> Some (0, obj))"

definition ByteBuffer_GetBytes :: "tagByteBuffer \<Rightarrow> u16" where
  "ByteBuffer_GetBytes obj = mBytes obj"

text \<open>The pointer into the array is its index; \<open>None\<close> is the null pointer.\<close>

definition ByteBuffer_GetData :: "tagByteBuffer \<Rightarrow> nat option" where
  "ByteBuffer_GetData obj = (if mBytes obj = 0 then None else Some (unat (mOffset obj)))"

definition ByteBuffer_ReverseEat :: "tagByteBuffer \<Rightarrow> u16 \<Rightarrow> (u16 \<times> tagByteBuffer) option" where
  "ByteBuffer_ReverseEat obj bytes =
     (if mBytes obj < bytes then Some (0, obj)
      else do {
        let obj = obj\<lparr>mBytes := mBytes obj - bytes\<rparr>;
        let obj = (if mBytes obj = 0 then obj\<lparr>mOffset := 0\<rparr> else obj);
        m \<leftarrow> mBuf obj;
        m \<leftarrow> mem_set m (unat (mOffset obj) + unat (mBytes obj)) NUL;
        Some (bytes, obj\<lparr>mBuf := Some m\<rparr>)
      })"

definition ByteBuffer_Eat :: "tagByteBuffer \<Rightarrow> u16 \<Rightarrow> (u16 \<times> tagByteBuffer) option" where
  "ByteBuffer_Eat obj bytes =
     (if mBytes obj < bytes then Some (0, obj)
      else do {
        let obj = obj\<lparr>mOffset := mOffset obj + bytes, mBytes := mBytes obj - bytes\<rparr>;
        obj \<leftarrow> (if mBytes obj = 0
               then do {
                 m \<leftarrow> mBuf obj;
                 m \<leftarrow> mem_set m 0 NUL;
                 Some (obj\<lparr>mBuf := Some m, mOffset := 0\<rparr>)
               }
               else Some obj);
        Some (bytes, obj)
      })"

definition ByteBuffer_clear :: "tagByteBuffer \<Rightarrow> tagByteBuffer option" where
  "ByteBuffer_clear obj =
     (let obj = obj\<lparr>mOffset := 0, mBytes := 0\<rparr> in
      case mBuf obj of
        None \<Rightarrow> Some obj
      | Some m \<Rightarrow> do { m \<leftarrow> mem_set m 0 NUL; Some (obj\<lparr>mBuf := Some m\<rparr>) })"

definition ByteBuffer_empty :: "tagByteBuffer \<Rightarrow> bool" where
  "ByteBuffer_empty obj \<longleftrightarrow> mBytes obj = 0"

definition ByteBuffer_IsTailNull :: "tagByteBuffer \<Rightarrow> bool option" where
  "ByteBuffer_IsTailNull obj = do {
     m \<leftarrow> mBuf obj;
     c \<leftarrow> mem_get m (unat (mOffset obj) + unat (mBytes obj));
     Some (c = NUL)
   }"

section \<open>Invariant and abstraction\<close>

definition bb_data :: "tagByteBuffer \<Rightarrow> char list" where
  "bb_data b = (case mBuf b of None \<Rightarrow> [] | Some m \<Rightarrow> take (unat (mBytes b)) (drop (unat (mOffset b)) m))"

definition bb_cap :: "tagByteBuffer \<Rightarrow> nat" where
  "bb_cap b = unat (mTotalBytes b) - 1"

text \<open>
  The array has the size that was announced, the window leaves room for one more byte,
  that byte is NUL, and an empty window starts at the array's head.
\<close>

definition bb_ok :: "tagByteBuffer \<Rightarrow> bool" where
  "bb_ok b \<longleftrightarrow> (\<exists>m. mBuf b = Some m \<and> unat (mTotalBytes b) \<le> length m
       \<and> unat (mOffset b) + unat (mBytes b) < unat (mTotalBytes b)
       \<and> (mBytes b = 0 \<longrightarrow> mOffset b = 0)
       \<and> m ! (unat (mOffset b) + unat (mBytes b)) = NUL)"


lemma bb_okE:
  assumes "bb_ok b"
  obtains m where "mBuf b = Some m" "unat (mTotalBytes b) \<le> length m"
    "unat (mOffset b) + unat (mBytes b) < unat (mTotalBytes b)"
    "mBytes b = 0 \<longrightarrow> mOffset b = 0"
    "m ! (unat (mOffset b) + unat (mBytes b)) = NUL"
  using assms by (auto simp: bb_ok_def)

lemma unat_GetFreeBytes [buf_simps]:
  "unat (ByteBuffer_GetFreeBytes b) = unat (mTotalBytes b) - 1 - unat (mBytes b)"
proof (cases "uint (mBytes b) \<ge> uint (mTotalBytes b) - 1")
  case True
  then have "unat (ByteBuffer_GetFreeBytes b) = 0" by (simp add: ByteBuffer_GetFreeBytes_def)
  then show ?thesis
    using True uint_u16_unat [of "mBytes b"] uint_u16_unat [of "mTotalBytes b"] by linarith
next
  case False
  let ?d = "uint (mTotalBytes b) - uint (mBytes b) - 1"
  have "0 \<le> ?d" "?d < 65536"
    using False uint_u16_less [of "mTotalBytes b"] uint_nonnegative [of "mBytes b"] by linarith+
  then have "uint (word_of_int ?d :: u16) = ?d"
    by (subst uint_word_of_int_eq) (simp add: take_bit_int_eq_self)
  moreover have "ByteBuffer_GetFreeBytes b = word_of_int ?d"
    using False by (simp only: ByteBuffer_GetFreeBytes_def if_False)
  ultimately have "int (unat (ByteBuffer_GetFreeBytes b)) = ?d"
    by (simp only: uint_u16_unat)
  then show ?thesis
    using uint_u16_unat [of "mBytes b"] uint_u16_unat [of "mTotalBytes b"] by linarith
qed

lemma bb_data_length: "bb_ok b \<Longrightarrow> length (bb_data b) = unat (mBytes b)"
  by (auto simp: bb_data_def bb_ok_def)

lemma bb_data_le_cap: "bb_ok b \<Longrightarrow> length (bb_data b) \<le> bb_cap b"
  by (auto simp: bb_data_length bb_cap_def bb_ok_def)

lemma bb_cap_bound: "bb_cap b < 65535"
  using unat_u16_less [of "mTotalBytes b"] by (simp add: bb_cap_def)

text \<open>The string a library function sees at the start of the window is the window's data.\<close>

lemma bb_c_str:
  assumes "bb_ok b" "NUL \<notin> set (bb_data b)" "mBuf b = Some m"
  shows "c_str m (unat (mOffset b)) = Some (bb_data b)"
proof -
  from assms have n: "unat (mOffset b) + unat (mBytes b) < length m"
    "m ! (unat (mOffset b) + unat (mBytes b)) = NUL" by (auto simp: bb_ok_def)
  have "drop (unat (mOffset b)) m = bb_data b @ drop (unat (mOffset b) + unat (mBytes b)) m"
    using assms(3) by (simp add: bb_data_def add.commute flip: drop_drop)
  also have "drop (unat (mOffset b) + unat (mBytes b)) m
      = NUL # drop (Suc (unat (mOffset b) + unat (mBytes b))) m"
    using n by (metis Cons_nth_drop_Suc)
  finally have "drop (unat (mOffset b)) m
      = bb_data b @ NUL # drop (Suc (unat (mOffset b) + unat (mBytes b))) m" .
  moreover have "takeWhile (\<lambda>c. c \<noteq> NUL) (bb_data b @ NUL # r) = bb_data b" for r
    using assms(2) by (subst takeWhile_append2) auto
  ultimately show ?thesis by (simp add: c_str_def)
qed

section \<open>The operations on the abstraction\<close>

lemma MoveToHead_ok:
  assumes "bb_ok b"
  obtains m where "ByteBuffer_MoveToHead b = Some (b\<lparr>mBuf := Some m, mOffset := 0\<rparr>)"
    "unat (mTotalBytes b) \<le> length m" "take (unat (mBytes b)) m = bb_data b"
    "m ! unat (mBytes b) = NUL"
proof -
  from assms obtain m where m: "mBuf b = Some m" "unat (mTotalBytes b) \<le> length m"
    "unat (mOffset b) + unat (mBytes b) < unat (mTotalBytes b)"
    "mBytes b = 0 \<longrightarrow> mOffset b = 0" "m ! (unat (mOffset b) + unat (mBytes b)) = NUL"
    by (rule bb_okE)
  show thesis
  proof (cases "mOffset b = 0")
    case True
    then show thesis using m by (intro that [of m]) (auto simp: ByteBuffer_MoveToHead_def bb_data_def)
  next
    case False
    let ?d = "bb_data b" and ?n = "unat (mBytes b)"
    have d: "length ?d = ?n" by (rule bb_data_length [OF assms])
    have "memmove m 0 (unat (mOffset b)) ?n = Some (?d @ drop ?n m)"
      using m d by (simp add: memmove_def mem_read_def memcpy_def bb_data_def)
    then show thesis
      using m False d
      by (intro that [of "(?d @ drop ?n m)[?n := NUL]"])
        (auto simp: ByteBuffer_MoveToHead_def mem_set_def take_append)
  qed
qed

lemma ByteBuffer_Input_spec:
  assumes ok: "bb_ok b" and len: "length text < 65536"
  defines "n \<equiv> min (length text) (bb_cap b - length (bb_data b))"
  shows "\<exists>b'. ByteBuffer_Input b text = Some (int n, b') \<and> bb_ok b'
    \<and> bb_data b' = bb_data b @ take n text \<and> mTotalBytes b' = mTotalBytes b"
proof (cases "ByteBuffer_GetFreeBytes b = 0")
  case True
  then have "bb_cap b - length (bb_data b) = 0"
    using unat_GetFreeBytes [of b] by (simp add: bb_data_length [OF ok] bb_cap_def)
  then show ?thesis using True ok by (simp add: ByteBuffer_Input_def n_def)
next
  case False
  obtain m where m: "ByteBuffer_MoveToHead b = Some (b\<lparr>mBuf := Some m, mOffset := 0\<rparr>)"
    "unat (mTotalBytes b) \<le> length m" "take (unat (mBytes b)) m = bb_data b"
    by (rule MoveToHead_ok [OF ok])
  let ?free = "ByteBuffer_GetFreeBytes b" and ?k = "unat (mBytes b)" and ?t = "unat (mTotalBytes b)"
  define e where "e = (if length text < unat ?free then of_nat (length text) else ?free)"
  have free: "unat ?free = bb_cap b - length (bb_data b)"
    by (simp add: buf_simps bb_data_length [OF ok] bb_cap_def)
  have e: "unat e = n" using len by (auto simp: e_def n_def free unat_of_nat)
  have kt: "?k + n < ?t"
    using False free ok bb_data_length [OF ok]
    by (auto simp: n_def bb_cap_def bb_ok_def unat_eq_zero)
  have ke: "unat (mBytes b + e) = ?k + n"
    using kt unat_u16_less [of "mTotalBytes b"] by (simp add: e unat_u16_plus)
  define m1 where "m1 = take ?k m @ take n text @ drop (?k + n) m"
  have cp: "memcpy m ?k (take n text) = Some m1"
    using kt m(2) by (simp add: memcpy_def m1_def n_def)
  define m2 where "m2 = take (?k + n) m1 @ replicate (?t - (?k + n)) NUL @ drop ?t m1"
  have l1: "length m1 = length m" using cp by (rule memcpy_length)
  have st: "memset m1 (?k + n) NUL (?t - (?k + n)) = Some m2"
    using kt m(2) l1 by (simp add: memset_def memcpy_def m2_def)
  have lt: "mBytes b + e < mTotalBytes b" using kt ke by (simp add: word_less_nat_alt)
  let ?b' = "b\<lparr>mBuf := Some m2, mOffset := 0, mBytes := mBytes b + e\<rparr>"
  have run: "ByteBuffer_Input b text = Some (int n, ?b')"
    using False m(1) cp st lt
    by (simp add: ByteBuffer_Input_def Let_def e_def [symmetric] e ke uint_u16_unat del: of_nat_unat)
  have tk: "take (?k + n) m1 = bb_data b @ take n text"
    using m(2,3) bb_data_length [OF ok] by (simp add: m1_def n_def)
  have "bb_data ?b' = take (?k + n) m2" by (simp add: bb_data_def ke)
  also have "\<dots> = take (?k + n) m1" using kt m(2) l1 by (simp add: m2_def)
  finally have "bb_data ?b' = bb_data b @ take n text" using tk by simp
  moreover have "bb_ok ?b'"
    using kt m(2) l1 False e free unat_eq_zero
    by (auto simp: bb_ok_def ke m2_def nth_append)
  ultimately show ?thesis using run by auto
qed

lemma ByteBuffer_Eat_spec:
  assumes ok: "bb_ok b" and le: "unat n \<le> length (bb_data b)"
  shows "\<exists>b'. ByteBuffer_Eat b n = Some (n, b') \<and> bb_ok b'
    \<and> bb_data b' = drop (unat n) (bb_data b) \<and> mTotalBytes b' = mTotalBytes b"
proof -
  from ok obtain m where m: "mBuf b = Some m" "unat (mTotalBytes b) \<le> length m"
    "unat (mOffset b) + unat (mBytes b) < unat (mTotalBytes b)"
    "m ! (unat (mOffset b) + unat (mBytes b)) = NUL"
    by (rule bb_okE)
  let ?b = "b\<lparr>mOffset := mOffset b + n, mBytes := mBytes b - n\<rparr>"
  have nb: "unat n \<le> unat (mBytes b)" using le bb_data_length [OF ok] by simp
  have off: "unat (mOffset b + n) = unat (mOffset b) + unat n"
    using nb m(3) unat_u16_less [of "mTotalBytes b"] by (intro unat_u16_plus) linarith
  have byt: "unat (mBytes b - n) = unat (mBytes b) - unat n"
    using nb by (simp add: unat_u16_minus word_le_nat_alt)
  have dat: "bb_data ?b = drop (unat n) (bb_data b)"
    using m(1) by (simp add: bb_data_def off byt drop_take) (simp add: add.commute)
  have nlt: "\<not> mBytes b < n" using nb by (simp add: word_less_nat_alt)
  show ?thesis
  proof (cases "mBytes b - n = 0")
    case True
    let ?b0 = "b\<lparr>mBuf := Some (m[0 := NUL]), mOffset := 0, mBytes := 0\<rparr>"
    have "drop (unat n) (bb_data b) = []" using True byt bb_data_length [OF ok] by simp
    moreover have "bb_data ?b0 = []" by (simp add: bb_data_def)
    moreover have "0 < length m" using m(2,3) by linarith
    then have "bb_ok ?b0" using m(2,3) by (auto simp: bb_ok_def)
    moreover have "ByteBuffer_Eat b n = Some (n, ?b0)"
      using True nlt m by (auto simp: ByteBuffer_Eat_def mem_set_def Let_def)
    ultimately show ?thesis by simp
  next
    case False
    then have "bb_ok ?b" using m nb by (auto simp: bb_ok_def off byt)
    then show ?thesis
      using False nlt dat by (simp add: ByteBuffer_Eat_def Let_def)
  qed
qed

lemma ByteBuffer_Eat_too_many:
  "bb_ok b \<Longrightarrow> length (bb_data b) < unat n \<Longrightarrow> ByteBuffer_Eat b n = Some (0, b)"
  by (simp add: ByteBuffer_Eat_def word_less_nat_alt bb_data_length)

lemma ByteBuffer_ReverseEat_spec:
  assumes ok: "bb_ok b" and le: "unat n \<le> length (bb_data b)"
  shows "\<exists>b'. ByteBuffer_ReverseEat b n = Some (n, b') \<and> bb_ok b'
    \<and> bb_data b' = take (length (bb_data b) - unat n) (bb_data b) \<and> mTotalBytes b' = mTotalBytes b"
proof -
  from ok obtain m where m: "mBuf b = Some m" "unat (mTotalBytes b) \<le> length m"
    "unat (mOffset b) + unat (mBytes b) < unat (mTotalBytes b)"
    by (rule bb_okE)
  have nb: "unat n \<le> unat (mBytes b)" using le bb_data_length [OF ok] by simp
  define k where "k = unat (mBytes b) - unat n"
  have byt: "unat (mBytes b - n) = k"
    using nb by (simp add: k_def unat_u16_minus word_le_nat_alt)
  define off where "off = (if mBytes b - n = 0 then 0 else mOffset b)"
  have z: "mBytes b - n = 0 \<longleftrightarrow> k = 0" using byt by (metis unat_eq_0)
  let ?m = "m[unat off + k := NUL]"
  let ?b = "b\<lparr>mBuf := Some ?m, mOffset := off, mBytes := mBytes b - n\<rparr>"
  have room: "unat off + k < unat (mTotalBytes b)" using m(3) by (auto simp: off_def k_def)
  have nlt: "\<not> mBytes b < n" using nb by (simp add: word_less_nat_alt)
  have run: "ByteBuffer_ReverseEat b n = Some (n, ?b)"
  proof (cases "mBytes b - n = 0")
    case True
    then show ?thesis
      using nlt m(1,2) room z by (auto simp: ByteBuffer_ReverseEat_def mem_set_def off_def Let_def)
  next
    case False
    then show ?thesis
      using nlt m(1,2) room by (simp add: ByteBuffer_ReverseEat_def mem_set_def off_def byt Let_def)
  qed
  have "take k (drop (unat off) ?m) = take k (drop (unat off) m)"
    by (simp add: drop_update_swap)
  then have "bb_data ?b = take k (bb_data b)"
    using m(1) z by (cases "k = 0") (simp_all add: bb_data_def byt off_def k_def)
  moreover have "bb_ok ?b" using m(2) room by (auto simp: bb_ok_def byt off_def)
  ultimately show ?thesis using run bb_data_length [OF ok] by (auto simp: k_def)
qed

lemma ByteBuffer_ReverseEat_too_many:
  "bb_ok b \<Longrightarrow> length (bb_data b) < unat n \<Longrightarrow> ByteBuffer_ReverseEat b n = Some (0, b)"
  by (simp add: ByteBuffer_ReverseEat_def word_less_nat_alt bb_data_length)

lemma ByteBuffer_clear_spec:
  assumes "bb_ok b"
  shows "\<exists>b'. ByteBuffer_clear b = Some b' \<and> bb_ok b' \<and> bb_data b' = [] \<and> mTotalBytes b' = mTotalBytes b"
  using assms by (auto simp: ByteBuffer_clear_def bb_ok_def mem_set_def bb_data_def elim!: bb_okE)

lemma ByteBuffer_Init_spec:
  assumes "0 < unat n" "unat n \<le> length buf"
  shows "\<exists>b'. ByteBuffer_Init b buf n = Some b' \<and> bb_ok b' \<and> bb_data b' = [] \<and> bb_cap b' = unat n - 1"
  using assms
  by (auto simp: ByteBuffer_Init_def memset_def memcpy_def bb_ok_def bb_data_def bb_cap_def nth_append
      unat_gt_0)

lemma ByteBuffer_empty_iff: "bb_ok b \<Longrightarrow> ByteBuffer_empty b \<longleftrightarrow> bb_data b = []"
  using bb_data_length [of b] by (simp add: ByteBuffer_empty_def unat_eq_zero flip: length_0_conv)

lemma ByteBuffer_IsTailNull_ok: "bb_ok b \<Longrightarrow> ByteBuffer_IsTailNull b = Some True"
  by (auto simp: ByteBuffer_IsTailNull_def bb_ok_def mem_get_def)

section \<open>The contract: a bounded byte queue\<close>

text \<open>Successive writes whose return values are ignored, as the callers in the stack do.\<close>

fun run_puts :: "('b \<Rightarrow> 'a \<Rightarrow> (int \<times> 'b) option) \<Rightarrow> 'b \<Rightarrow> 'a list \<Rightarrow> 'b option" where
  "run_puts put b [] = Some b"
| "run_puts put b (x # xs) = do { (_, b) \<leftarrow> put b x; run_puts put b xs }"

lemma run_puts_append:
  "run_puts put b (xs @ ys) = do { b \<leftarrow> run_puts put b xs; run_puts put b ys }"
  by (induction xs arbitrary: b) (auto simp: split_beta bind_eq_None_conv intro!: Option.bind_cong)

locale byte_fifo =
  fixes inv :: "'b \<Rightarrow> bool"
    and data :: "'b \<Rightarrow> char list"
    and cap :: "'b \<Rightarrow> nat"
    and put :: "'b \<Rightarrow> char list \<Rightarrow> (int \<times> 'b) option"
    and eat :: "'b \<Rightarrow> u16 \<Rightarrow> (u16 \<times> 'b) option"
  assumes cap_bound: "cap b < 65536"
    and data_le_cap: "inv b \<Longrightarrow> length (data b) \<le> cap b"
    and put_law: "inv b \<Longrightarrow> length xs < 65536 \<Longrightarrow>
      \<exists>b'. put b xs = Some (int (min (length xs) (cap b - length (data b))), b') \<and> inv b'
        \<and> data b' = data b @ take (cap b - length (data b)) xs \<and> cap b' = cap b"
    and eat_law: "inv b \<Longrightarrow> unat n \<le> length (data b) \<Longrightarrow>
      \<exists>b'. eat b n = Some (n, b') \<and> inv b' \<and> data b' = drop (unat n) (data b) \<and> cap b' = cap b"
begin

text \<open>A write that fits stores everything and reports its length.\<close>

lemma put_fits:
  assumes "inv b" "length (data b) + length xs \<le> cap b"
  obtains b' where "put b xs = Some (int (length xs), b')" "inv b'" "data b' = data b @ xs" "cap b' = cap b"
proof -
  have "length xs < 65536" using assms(2) cap_bound [of b] by linarith
  with assms(1) obtain b' where "put b xs = Some (int (min (length xs) (cap b - length (data b))), b')"
    "inv b'" "data b' = data b @ take (cap b - length (data b)) xs" "cap b' = cap b"
    using put_law by blast
  moreover have "min (length xs) (cap b - length (data b)) = length xs" using assms(2) by simp
  ultimately show thesis using assms(2) by (intro that [of b']) simp_all
qed

text \<open>A write that does not fit is reported by a result smaller than the request.\<close>

lemma put_overflow:
  assumes "inv b" "length xs < 65536" "cap b < length (data b) + length xs"
  obtains n b' where "put b xs = Some (n, b')" "n < int (length xs)" "inv b'" "cap b' = cap b"
proof -
  obtain b' where "put b xs = Some (int (min (length xs) (cap b - length (data b))), b')"
    "inv b'" "cap b' = cap b"
    using put_law assms(1,2) by blast
  then show thesis using assms data_le_cap [of b] by (intro that [of _ b']) auto
qed

text \<open>Writes that together exceed the capacity are cut off at it, without a fault.\<close>

lemma run_puts_truncates:
  assumes "inv b" "\<And>xs. xs \<in> set xss \<Longrightarrow> length xs < 65536"
  shows "\<exists>b'. run_puts put b xss = Some b' \<and> inv b' \<and> cap b' = cap b
    \<and> data b' = take (cap b) (data b @ concat xss)"
  using assms
proof (induction xss arbitrary: b)
  case Nil
  then show ?case using data_le_cap by simp
next
  case (Cons xs xss)
  from Cons.prems obtain b1 where b1: "put b xs = Some (int (min (length xs) (cap b - length (data b))), b1)"
    "inv b1" "data b1 = data b @ take (cap b - length (data b)) xs" "cap b1 = cap b"
    using put_law [of b xs] by auto
  from Cons.IH [OF b1(2)] Cons.prems(2) obtain b2 where b2: "run_puts put b1 xss = Some b2" "inv b2"
    "cap b2 = cap b" "data b2 = take (cap b) (data b1 @ concat xss)"
    using b1(4) by auto
  have le: "length (data b) \<le> cap b" by (rule data_le_cap [OF Cons.prems(1)])
  have "take (cap b) (data b1 @ concat xss) = take (cap b) (data b @ xs @ concat xss)"
    using le by (cases "length xs \<le> cap b - length (data b)") (auto simp: b1(3) take_append)
  then show ?case using b1(1) b2 by simp
qed

lemma run_puts_fits:
  assumes "inv b" "length (data b) + length (concat xss) \<le> cap b"
  obtains b' where "run_puts put b xss = Some b'" "inv b'" "cap b' = cap b" "data b' = data b @ concat xss"
proof -
  have "length xs < 65536" if "xs \<in> set xss" for xs
  proof -
    have "length xs \<le> length (concat xss)" using that by (auto simp: length_concat member_le_sum_list)
    then show ?thesis using assms(2) cap_bound [of b] by linarith
  qed
  then obtain b' where "run_puts put b xss = Some b'" "inv b'" "cap b' = cap b"
    "data b' = take (cap b) (data b @ concat xss)"
    using run_puts_truncates [OF assms(1)] by blast
  then show thesis using assms(2) by (intro that [of b']) simp_all
qed

end

interpretation bbq: byte_fifo bb_ok bb_data bb_cap ByteBuffer_Input ByteBuffer_Eat
proof unfold_locales
  fix b
  show "bb_cap b < 65536" using bb_cap_bound [of b] by simp
  show "bb_ok b \<Longrightarrow> length (bb_data b) \<le> bb_cap b" by (rule bb_data_le_cap)
next
  fix b and xs :: "char list"
  assume "bb_ok b" "length xs < 65536"
  then obtain b' where "ByteBuffer_Input b xs = Some (int (min (length xs) (bb_cap b - length (bb_data b))), b')"
    "bb_ok b'" "bb_data b' = bb_data b @ take (min (length xs) (bb_cap b - length (bb_data b))) xs"
    "mTotalBytes b' = mTotalBytes b"
    using ByteBuffer_Input_spec by blast
  then show "\<exists>b'. ByteBuffer_Input b xs = Some (int (min (length xs) (bb_cap b - length (bb_data b))), b') \<and> bb_ok b'
      \<and> bb_data b' = bb_data b @ take (bb_cap b - length (bb_data b)) xs \<and> bb_cap b' = bb_cap b"
    by (intro exI [of _ b']) (auto simp: bb_cap_def min_def)
next
  fix b and n :: u16
  assume "bb_ok b" "unat n \<le> length (bb_data b)"
  then show "\<exists>b'. ByteBuffer_Eat b n = Some (n, b') \<and> bb_ok b' \<and> bb_data b' = drop (unat n) (bb_data b)
      \<and> bb_cap b' = bb_cap b"
    using ByteBuffer_Eat_spec by (metis bb_cap_def)
qed

end
