(* ===== verification/CBundle.thy ===== *)
theory CBundle
  imports CByteBuffer
begin

text \<open>
  The field bundle of the SCTP stack (\<^verbatim>\<open>src/src/core/protocol/sctp/cbundle.c\<close>): an array
  of name/value pointers with a fill count. The theory holds the structure, its
  operations, the invariant \<open>bundle_ok\<close> and the abstraction \<open>bundle_fields\<close> to the list of
  stored pairs, and shows that the operations are the association-list operations with
  a bound on the length.
\<close>

section \<open>The structure\<close>

text \<open>
  A pointer to a C string is the string it points to, \<open>None\<close> for the null pointer; the
  bundle does not copy the strings and the code never changes one while it is stored.
\<close>

record tagKeyValue =
  kname :: "string option"
  kvalue :: "string option"

record tagBundle =
  mItems :: "tagKeyValue list"
  mCount :: u8
  mTotalCount :: u8

text \<open>The library comparison through two pointers: without a result on a null pointer.\<close>

definition strcmp_eq :: "string option \<Rightarrow> string \<Rightarrow> bool option" where
  "strcmp_eq p s = map_option (\<lambda>q. q = s) p"

definition item_at :: "tagBundle \<Rightarrow> nat \<Rightarrow> tagKeyValue option" where
  "item_at obj i = (if i < length (mItems obj) then Some (mItems obj ! i) else None)"

definition Bundle_Create :: "tagKeyValue list \<Rightarrow> u8 \<Rightarrow> tagBundle option" where
  "Bundle_Create items totalCount =
     (if unat totalCount \<le> length items
      then Some \<lparr>mItems = replicate (unat totalCount) \<lparr>kname = None, kvalue = None\<rparr> @ drop (unat totalCount) items,
                 mCount = 0, mTotalCount = totalCount\<rparr>
      else None)"

text \<open>The index of the first item with the name, as the three lookup loops compute it.\<close>

function find_item :: "tagBundle \<Rightarrow> string \<Rightarrow> nat \<Rightarrow> nat option option" where
  "find_item obj n i =
     (if i < unat (mCount obj)
      then do {
        it \<leftarrow> item_at obj i;
        eq \<leftarrow> strcmp_eq (kname it) n;
        (if eq then Some (Some i) else find_item obj n (Suc i))
      }
      else Some None)"
  by pat_completeness auto
termination by (relation "measure (\<lambda>(obj, n, i). unat (mCount obj) - i)") auto

declare find_item.simps [simp del]

definition Bundle_GetString :: "tagBundle \<Rightarrow> string \<Rightarrow> string option" where
  "Bundle_GetString obj n = do {
     r \<leftarrow> find_item obj n 0;
     (case r of
        Some i \<Rightarrow> do {
          it \<leftarrow> item_at obj i;
          Some (case kvalue it of Some v \<Rightarrow> v | None \<Rightarrow> [])
        }
      | None \<Rightarrow> Some [])
   }"

definition Bundle_Exists :: "tagBundle \<Rightarrow> string \<Rightarrow> bool option" where
  "Bundle_Exists obj n = map_option (\<lambda>r. r \<noteq> None) (find_item obj n 0)"

definition Bundle_clear :: "tagBundle \<Rightarrow> tagBundle" where
  "Bundle_clear obj = obj\<lparr>mCount := 0\<rparr>"

definition Bundle_Push :: "tagBundle \<Rightarrow> string option \<Rightarrow> string option \<Rightarrow> (int \<times> tagBundle) option" where
  "Bundle_Push obj n v =
     (if mCount obj \<ge> mTotalCount obj then Some (-1, obj)
      else if unat (mCount obj) < length (mItems obj)
      then Some (0, obj\<lparr>mItems := (mItems obj)[unat (mCount obj) := \<lparr>kname = n, kvalue = v\<rparr>],
                        mCount := mCount obj + 1\<rparr>)
      else None)"

definition Bundle_SetString :: "tagBundle \<Rightarrow> string \<Rightarrow> string option \<Rightarrow> (int \<times> tagBundle) option" where
  "Bundle_SetString obj n v = do {
     r \<leftarrow> find_item obj n 0;
     (case r of
        Some i \<Rightarrow> do {
          it \<leftarrow> item_at obj i;
          Some (0, obj\<lparr>mItems := (mItems obj)[i := it\<lparr>kvalue := v\<rparr>]\<rparr>)
        }
      | None \<Rightarrow> Bundle_Push obj (Some n) v)
   }"

section \<open>Numbers\<close>

text \<open>
  \<^verbatim>\<open>atoi\<close>: white space, an optional sign, digits. The value of a text whose number does
  not fit an \<^verbatim>\<open>int\<close> is undefined in C; the model has no result there.
\<close>

definition is_space :: "char \<Rightarrow> bool" where
  "is_space c \<longleftrightarrow> c \<in> {CHR 0x20, CHR 0x09, CHR 0x0A, CHR 0x0B, CHR 0x0C, CHR 0x0D}"

definition is_digit :: "char \<Rightarrow> bool" where
  "is_digit c \<longleftrightarrow> CHR ''0'' \<le> c \<and> c \<le> CHR ''9''"

definition digit_val :: "char \<Rightarrow> int" where
  "digit_val c = of_char c - 48"

fun digits_val :: "int \<Rightarrow> string \<Rightarrow> int" where
  "digits_val acc [] = acc"
| "digits_val acc (c # s) = (if is_digit c then digits_val (10 * acc + digit_val c) s else acc)"

definition atoi :: "string \<Rightarrow> int option" where
  "atoi s =
     (let s = dropWhile is_space s;
          v = (case s of
                 [] \<Rightarrow> 0
               | c # r \<Rightarrow> (if c = CHR ''-'' then - digits_val 0 r
                          else if c = CHR ''+'' then digits_val 0 r
                          else digits_val 0 s))
      in if - (2 ^ 31) \<le> v \<and> v < 2 ^ 31 then Some v else None)"

definition Bundle_GetInt :: "tagBundle \<Rightarrow> string \<Rightarrow> int option" where
  "Bundle_GetInt obj n = do { v \<leftarrow> Bundle_GetString obj n; (if v \<noteq> [] then atoi v else Some 0) }"

definition Bundle_GetUInt :: "tagBundle \<Rightarrow> string \<Rightarrow> u32 option" where
  "Bundle_GetUInt obj n = do {
     v \<leftarrow> Bundle_GetString obj n;
     (if v \<noteq> [] then map_option word_of_int (atoi v) else Some 0)
   }"

definition Bundle_GetByte :: "tagBundle \<Rightarrow> string \<Rightarrow> u8 option" where
  "Bundle_GetByte obj n = map_option word_of_int (Bundle_GetInt obj n)"

section \<open>Invariant and abstraction\<close>

definition item_pair :: "tagKeyValue \<Rightarrow> string \<times> string option" where
  "item_pair it = (the (kname it), kvalue it)"

definition bundle_fields :: "tagBundle \<Rightarrow> (string \<times> string option) list" where
  "bundle_fields b = map item_pair (take (unat (mCount b)) (mItems b))"

definition field_limit :: "tagBundle \<Rightarrow> nat" where
  "field_limit b = unat (mTotalCount b)"

definition bundle_ok :: "tagBundle \<Rightarrow> bool" where
  "bundle_ok b \<longleftrightarrow> unat (mTotalCount b) \<le> length (mItems b) \<and> mCount b \<le> mTotalCount b
     \<and> (\<forall>i < unat (mCount b). kname (mItems b ! i) \<noteq> None)"

lemma length_bundle_fields: "bundle_ok b \<Longrightarrow> length (bundle_fields b) = unat (mCount b)"
  by (auto simp: bundle_fields_def bundle_ok_def word_le_nat_alt)

lemma bundle_fields_nth:
  "bundle_ok b \<Longrightarrow> i < unat (mCount b) \<Longrightarrow> bundle_fields b ! i = item_pair (mItems b ! i)"
  by (auto simp: bundle_fields_def bundle_ok_def word_le_nat_alt)

lemma bundle_item:
  assumes "bundle_ok b" "i < unat (mCount b)"
  shows "item_at b i = Some (mItems b ! i)" "kname (mItems b ! i) = Some (fst (bundle_fields b ! i))"
    "kvalue (mItems b ! i) = snd (bundle_fields b ! i)"
  using assms by (auto simp: item_at_def bundle_fields_nth item_pair_def bundle_ok_def word_le_nat_alt)

text \<open>The position of a key in an association list, the reference of the lookup loops.\<close>

fun key_index :: "('k \<times> 'v) list \<Rightarrow> 'k \<Rightarrow> nat option" where
  "key_index [] k = None"
| "key_index (p # ps) k = (if fst p = k then Some 0 else map_option Suc (key_index ps k))"

lemma key_index_None: "key_index ps k = None \<longleftrightarrow> map_of ps k = None"
  by (induction ps) auto

lemma key_index_Some: "key_index ps k = Some i \<Longrightarrow> i < length ps \<and> map_of ps k = Some (snd (ps ! i))"
  by (induction ps arbitrary: i) (auto split: if_splits)

lemma find_item_spec:
  assumes "bundle_ok b" "i \<le> unat (mCount b)"
  shows "find_item b n i = Some (map_option (\<lambda>k. i + k) (key_index (drop i (bundle_fields b)) n))"
  using assms
proof (induction b n i rule: find_item.induct)
  case (1 b n i)
  show ?case
  proof (cases "i < unat (mCount b)")
    case True
    then have d: "drop i (bundle_fields b) = bundle_fields b ! i # drop (Suc i) (bundle_fields b)"
      using "1.prems" length_bundle_fields by (metis Cons_nth_drop_Suc)
    have IH: "find_item b n (Suc i) = Some (map_option (\<lambda>k. Suc i + k) (key_index (drop (Suc i) (bundle_fields b)) n))"
      if "fst (bundle_fields b ! i) \<noteq> n"
      using "1.IH" [OF True, of "mItems b ! i" False] that "1.prems"(1) True bundle_item [OF "1.prems"(1) True]
      by (simp add: strcmp_eq_def)
    show ?thesis
      using True bundle_item [OF "1.prems"(1) True] IH
      by (cases "fst (bundle_fields b ! i) = n")
        (auto simp: find_item.simps [of b n i] strcmp_eq_def d option.map_comp o_def)
  next
    case False
    then have "drop i (bundle_fields b) = []" using "1.prems" length_bundle_fields [of b] by simp
    then show ?thesis using False by (simp add: find_item.simps [of b n i])
  qed
qed

lemma find_item_key_index: "bundle_ok b \<Longrightarrow> find_item b n 0 = Some (key_index (bundle_fields b) n)"
  by (simp add: find_item_spec option.map_ident)

text \<open>Lookup of the first field with the name; a missing field and a null value read as empty.\<close>

definition field_text :: "(string \<times> string option) list \<Rightarrow> string \<Rightarrow> string" where
  "field_text fs n = (case map_of fs n of Some (Some v) \<Rightarrow> v | _ \<Rightarrow> [])"

lemma Bundle_GetString_spec:
  assumes "bundle_ok b"
  shows "Bundle_GetString b n = Some (field_text (bundle_fields b) n)"
proof (cases "key_index (bundle_fields b) n")
  case None
  then show ?thesis
    using assms key_index_None [of "bundle_fields b" n]
    by (simp add: Bundle_GetString_def find_item_key_index field_text_def)
next
  case (Some i)
  then have i: "i < unat (mCount b)" "map_of (bundle_fields b) n = Some (snd (bundle_fields b ! i))"
    using key_index_Some [OF Some] length_bundle_fields [OF assms] by auto
  then show ?thesis
    using assms Some bundle_item [OF assms i(1)]
    by (auto simp: Bundle_GetString_def find_item_key_index field_text_def split: option.splits)
qed

lemma Bundle_Exists_spec:
  "bundle_ok b \<Longrightarrow> Bundle_Exists b n = Some (n \<in> fst ` set (bundle_fields b))"
  using key_index_None [of "bundle_fields b" n]
  by (auto simp: Bundle_Exists_def find_item_key_index map_of_eq_None_iff)

lemma Bundle_clear_spec: "bundle_ok b \<Longrightarrow> bundle_ok (Bundle_clear b) \<and> bundle_fields (Bundle_clear b) = []
    \<and> field_limit (Bundle_clear b) = field_limit b"
  by (auto simp: bundle_ok_def Bundle_clear_def bundle_fields_def field_limit_def)

lemma Bundle_Push_spec:
  assumes ok: "bundle_ok b"
  shows "\<exists>b'. Bundle_Push b (Some n) v = Some (if length (bundle_fields b) < field_limit b then 0 else -1, b')
    \<and> bundle_ok b' \<and> field_limit b' = field_limit b
    \<and> bundle_fields b' = take (field_limit b) (bundle_fields b @ [(n, v)])"
proof (cases "mCount b < mTotalCount b")
  case False
  then show ?thesis
    using ok length_bundle_fields [OF ok]
    by (auto simp: Bundle_Push_def field_limit_def word_less_nat_alt bundle_ok_def word_le_nat_alt)
next
  case True
  let ?c = "unat (mCount b)" and ?it = "\<lparr>kname = Some n, kvalue = v\<rparr>"
  let ?b = "b\<lparr>mItems := (mItems b)[?c := ?it], mCount := mCount b + 1\<rparr>"
  have lt: "?c < unat (mTotalCount b)" using True by (simp add: word_less_nat_alt)
  have len: "?c < length (mItems b)" using lt ok by (auto simp: bundle_ok_def)
  have c1: "unat (mCount b + 1) = Suc ?c"
    by (rule unat_inc_less [OF True])
  have "bundle_fields ?b = bundle_fields b @ [(n, v)]"
    using len by (simp add: bundle_fields_def c1 take_Suc_conv_app_nth item_pair_def)
  moreover have "bundle_ok ?b"
    using ok lt c1 len by (auto simp: bundle_ok_def word_le_nat_alt nth_list_update less_Suc_eq)
  ultimately show ?thesis
    using True lt len length_bundle_fields [OF ok]
    by (auto simp: Bundle_Push_def field_limit_def)
qed

text \<open>Overwriting the value of the first field with the name, or appending the field.\<close>

fun set_field :: "string \<Rightarrow> 'v \<Rightarrow> (string \<times> 'v) list \<Rightarrow> (string \<times> 'v) list" where
  "set_field n v [] = [(n, v)]"
| "set_field n v (p # ps) = (if fst p = n then (n, v) # ps else p # set_field n v ps)"

lemma set_field_key_index:
  "set_field n v ps = (case key_index ps n of Some i \<Rightarrow> ps[i := (n, v)] | None \<Rightarrow> ps @ [(n, v)])"
  by (induction ps) (auto split: option.splits)

lemma map_of_set_field: "map_of (set_field n v ps) = (map_of ps)(n \<mapsto> v)"
  by (induction ps) auto

lemma key_index_fst: "key_index ps n = Some i \<Longrightarrow> fst (ps ! i) = n"
  by (induction ps arbitrary: i) (auto split: if_splits)

lemma Bundle_SetString_spec:
  assumes ok: "bundle_ok b"
  shows "\<exists>r b'. Bundle_SetString b n v = Some (r, b') \<and> bundle_ok b' \<and> field_limit b' = field_limit b
    \<and> bundle_fields b' = take (field_limit b) (set_field n v (bundle_fields b))"
proof (cases "key_index (bundle_fields b) n")
  case None
  then show ?thesis
    using Bundle_Push_spec [OF ok, of n v]
    by (auto simp: Bundle_SetString_def find_item_key_index [OF ok] set_field_key_index)
next
  case (Some i)
  then have i: "i < unat (mCount b)" and ki: "fst (bundle_fields b ! i) = n"
    using key_index_Some [OF Some] key_index_fst [OF Some] length_bundle_fields [OF ok] by auto
  have len: "i < length (mItems b)" "unat (mCount b) \<le> unat (mTotalCount b)"
    using i ok by (auto simp: bundle_ok_def word_le_nat_alt)
  let ?b = "b\<lparr>mItems := (mItems b)[i := (mItems b ! i)\<lparr>kvalue := v\<rparr>]\<rparr>"
  have "item_pair ((mItems b ! i)\<lparr>kvalue := v\<rparr>) = (n, v)"
    using bundle_item [OF ok i] ki by (simp add: item_pair_def)
  then have f: "bundle_fields ?b = (bundle_fields b)[i := (n, v)]"
    using i by (simp add: bundle_fields_def take_update_swap map_update)
  have "kname (mItems ?b ! j) = kname (mItems b ! j)" for j
    using len(1) by (cases "j = i") simp_all
  then have "bundle_ok ?b" using ok by (simp add: bundle_ok_def)
  moreover have "Bundle_SetString b n v = Some (0, ?b)"
    using Some bundle_item [OF ok i] by (simp add: Bundle_SetString_def find_item_key_index [OF ok])
  moreover have "take (field_limit b) (set_field n v (bundle_fields b)) = (bundle_fields b)[i := (n, v)]"
    using Some len length_bundle_fields [OF ok] by (simp add: set_field_key_index field_limit_def)
  ultimately show ?thesis using f by (auto simp: field_limit_def)
qed

section \<open>The contract: a bounded field store\<close>

locale field_store =
  fixes ok :: "'b \<Rightarrow> bool"
    and flds :: "'b \<Rightarrow> (string \<times> string option) list"
    and limit :: "'b \<Rightarrow> nat"
    and push :: "'b \<Rightarrow> string option \<Rightarrow> string option \<Rightarrow> (int \<times> 'b) option"
    and get :: "'b \<Rightarrow> string \<Rightarrow> string option"
    and clear :: "'b \<Rightarrow> 'b"
  assumes get_law: "ok b \<Longrightarrow> get b n = Some (field_text (flds b) n)"
    and clear_law: "ok b \<Longrightarrow> ok (clear b) \<and> flds (clear b) = [] \<and> limit (clear b) = limit b"
    and flds_limit: "ok b \<Longrightarrow> length (flds b) \<le> limit b"
    and push_law: "ok b \<Longrightarrow>
      \<exists>b'. push b (Some n) v = Some (if length (flds b) < limit b then 0 else -1, b')
        \<and> ok b' \<and> limit b' = limit b \<and> flds b' = take (limit b) (flds b @ [(n, v)])"
begin

text \<open>Pushing a list of fields and ignoring the results stores what fits and drops the rest.\<close>

lemma run_pushes:
  assumes "ok b"
  shows "\<exists>b'. run_puts (\<lambda>b (n, v). push b (Some n) v) b kvs = Some b' \<and> ok b' \<and> limit b' = limit b
    \<and> flds b' = take (limit b) (flds b @ kvs)"
  using assms
proof (induction kvs arbitrary: b)
  case Nil
  then show ?case using flds_limit by simp
next
  case (Cons kv kvs)
  obtain n v where kv: "kv = (n, v)" by fastforce
  from Cons.prems obtain r b1 where b1: "push b (Some n) v = Some (r, b1)" "ok b1" "limit b1 = limit b"
    "flds b1 = take (limit b) (flds b @ [(n, v)])"
    using push_law by blast
  from Cons.IH [OF b1(2)] obtain b2 where b2: "run_puts (\<lambda>b (n, v). push b (Some n) v) b1 kvs = Some b2"
    "ok b2" "limit b2 = limit b" "flds b2 = take (limit b) (flds b1 @ kvs)"
    using b1(3) by auto
  have "take (limit b) (flds b1 @ kvs) = take (limit b) (flds b @ kv # kvs)"
    using flds_limit [OF Cons.prems]
    by (cases "limit b - length (flds b)") (auto simp: b1(4) kv take_append)
  then show ?case using b1(1) b2 kv by simp
qed

end

interpretation bnd: field_store bundle_ok bundle_fields field_limit Bundle_Push Bundle_GetString Bundle_clear
proof unfold_locales
  show "length (bundle_fields b) \<le> field_limit b" if "bundle_ok b" for b
    using that length_bundle_fields [OF that] by (auto simp: field_limit_def bundle_ok_def word_le_nat_alt)
qed (use Bundle_GetString_spec Bundle_clear_spec Bundle_Push_spec in auto)

lemma Bundle_Create_spec:
  assumes "unat n \<le> length items"
  shows "\<exists>b. Bundle_Create items n = Some b \<and> bundle_ok b \<and> bundle_fields b = [] \<and> field_limit b = unat n"
  using assms by (auto simp: Bundle_Create_def bundle_ok_def bundle_fields_def field_limit_def)

end
