(* ===== verification/SctpTool.thy ===== *)
theory SctpTool
  imports Prelude
begin

text \<open>
  The leaf functions of the SCTP stack: the checksum (\<^verbatim>\<open>ccrc.c\<close>), the hexadecimal
  conversions (\<^verbatim>\<open>tool.c\<close>) and the number formats of \<^verbatim>\<open>sprintf\<close> that \<^verbatim>\<open>csctp.c\<close> uses. The
  checksum step is shown to be a bijection of the 16-bit states, from which every
  single-byte corruption changes the checksum; the hexadecimal conversions are shown to
  be inverse to each other.
\<close>

section \<open>The checksum\<close>

definition crc_bit :: "u16 \<Rightarrow> u16" where
  "crc_bit crc = (if crc AND 1 \<noteq> 0 then drop_bit 1 crc XOR 0xA001 else drop_bit 1 crc)"

definition crc_byte :: "u16 \<Rightarrow> char \<Rightarrow> u16" where
  "crc_byte crc c = (crc_bit ^^ 8) (crc XOR of_char c)"

fun Crc16Ex :: "char list \<Rightarrow> u16 \<Rightarrow> u16" where
  "Crc16Ex [] crc = crc"
| "Crc16Ex (c # cs) crc = Crc16Ex cs (crc_byte crc c)"

lemma Crc16Ex_append: "Crc16Ex (xs @ ys) crc = Crc16Ex ys (Crc16Ex xs crc)"
  by (induction xs arbitrary: crc) auto

text \<open>
  The polynomial has its top bit set and a shift clears that bit, so the result of a step
  tells which branch produced it, and no two states have the same successor.
\<close>

lemma crc_bit_top: "bit (crc_bit w) 15 \<longleftrightarrow> bit w 0"
  using bit_imp_le_length [of w 16]
  by (auto simp: crc_bit_def bit_simps and_one_eq mod_2_eq_odd bit_numeral_rec bit_0 split: if_splits)

lemma inj_crc_bit: "inj crc_bit"
proof (rule injI)
  fix v w assume eq: "crc_bit v = crc_bit w"
  then have low: "bit v 0 \<longleftrightarrow> bit w 0" by (metis crc_bit_top)
  then have sh: "drop_bit 1 v = drop_bit 1 w"
    using eq by (auto simp: crc_bit_def and_one_eq mod_2_eq_odd bit_0 split: if_splits)
  show "v = w"
  proof (rule bit_word_eqI)
    fix n assume "n < LENGTH(16)"
    show "bit v n \<longleftrightarrow> bit w n"
    proof (cases n)
      case 0
      with low show ?thesis by simp
    next
      case (Suc k)
      with sh have "bit (drop_bit 1 v) k \<longleftrightarrow> bit (drop_bit 1 w) k" by simp
      with Suc show ?thesis by (simp add: bit_drop_bit_eq)
    qed
  qed
qed

lemma inj_crc_bits: "inj (crc_bit ^^ n)"
  by (induction n) (simp_all only: funpow.simps inj_on_id inj_compose inj_crc_bit)

lemma crc_byte_eq_iff: "crc_byte v c = crc_byte w d \<longleftrightarrow> v XOR of_char c = w XOR of_char d"
  by (auto simp: crc_byte_def dest: injD [OF inj_crc_bits])

lemma of_char_u16_inj: "of_char c = (of_char d :: u16) \<longleftrightarrow> c = d"
proof
  assume eq: "of_char c = (of_char d :: u16)"
  have "unat (of_char x :: u16) = of_char x" for x
    using of_char_of [where ?'a = nat] by (cases x) (simp add: unat_of_nat)
  then have "(of_char c :: nat) = of_char d" using eq by metis
  then show "c = d" by simp
qed simp

lemma Crc16Ex_state_inj: "Crc16Ex xs v = Crc16Ex xs w \<longleftrightarrow> v = w"
  by (induction xs arbitrary: v w) (auto simp: crc_byte_eq_iff)

lemma crc_byte_char_inj: "crc_byte v c = crc_byte v d \<longleftrightarrow> c = d"
  by (simp add: crc_byte_eq_iff of_char_u16_inj)

lemma Crc16Ex_single_byte:
  "c \<noteq> d \<Longrightarrow> Crc16Ex (xs @ c # ys) crc \<noteq> Crc16Ex (xs @ d # ys) crc"
  by (simp add: Crc16Ex_append Crc16Ex_state_inj crc_byte_char_inj)

section \<open>Number formats\<close>

definition hex_digit :: "nat \<Rightarrow> char" where
  "hex_digit n = (if n < 10 then char_of (48 + n) else char_of (55 + n))"

text \<open>\<open>hex_fixed k n\<close> is \<^verbatim>\<open>sprintf("%0kX", n)\<close> for \<open>n < 16 ^ k\<close>.\<close>

fun hex_fixed :: "nat \<Rightarrow> nat \<Rightarrow> string" where
  "hex_fixed 0 n = []"
| "hex_fixed (Suc k) n = hex_fixed k (n div 16) @ [hex_digit (n mod 16)]"

text \<open>\<^verbatim>\<open>sprintf("%d", n)\<close> for a value that is not negative.\<close>

fun dec :: "nat \<Rightarrow> string" where
  "dec n = (if n < 10 then [char_of (48 + n)] else dec (n div 10) @ [char_of (48 + n mod 10)])"

declare dec.simps [simp del]

lemma hex_fixed_length [simp]: "length (hex_fixed k n) = k"
  by (induction k arbitrary: n) auto

lemma dec_length_le: "length (dec n) \<le> Suc (n div 2)"
proof (induction n rule: dec.induct)
  case (1 n)
  show ?case
  proof (cases "n < 10")
    case True
    then show ?thesis by (simp add: dec.simps [of n])
  next
    case False
    then have "Suc (length (dec (n div 10))) \<le> Suc (n div 2)" using "1.IH" by linarith
    with False show ?thesis by (simp add: dec.simps [of n])
  qed
qed

lemma dec_u16_length: "length (dec (unat (w :: u16))) < 65536"
  using dec_length_le [of "unat w"] unat_u16_less [of w] by linarith

text \<open>
  The character functions of the "C" locale. Their argument is a \<^verbatim>\<open>char\<close>, which is signed on
  the platforms the code is built for: a byte above 127 is passed as a negative number,
  for which the functions are undefined, except for \<^verbatim>\<open>EOF\<close> (-1, the byte 255).
\<close>

definition ctype_defined :: "char \<Rightarrow> bool" where
  "ctype_defined c \<longleftrightarrow> of_char c < (128 :: nat) \<or> of_char c = (255 :: nat)"

definition isprint :: "char \<Rightarrow> bool option" where
  "isprint c = (if ctype_defined c then Some (32 \<le> (of_char c :: nat) \<and> of_char c < (127 :: nat)) else None)"

definition to_lower :: "char \<Rightarrow> char" where
  "to_lower c = (if CHR ''A'' \<le> c \<and> c \<le> CHR ''Z'' then char_of (of_char c + (32 :: nat)) else c)"

definition tolower :: "char \<Rightarrow> char option" where
  "tolower c = (if ctype_defined c then Some (to_lower c) else None)"

definition isalpha :: "char \<Rightarrow> bool" where
  "isalpha c \<longleftrightarrow> CHR ''A'' \<le> c \<and> c \<le> CHR ''Z'' \<or> CHR ''a'' \<le> c \<and> c \<le> CHR ''z''"

definition strcasecmp_eq :: "string \<Rightarrow> string \<Rightarrow> bool" where
  "strcasecmp_eq s t \<longleftrightarrow> map to_lower s = map to_lower t"

section \<open>Hexadecimal conversions\<close>

fun IsPrintableString :: "char list \<Rightarrow> bool option" where
  "IsPrintableString [] = Some True"
| "IsPrintableString (ch # pData) = do {
     p \<leftarrow> isprint ch;
     (if \<not> p \<and> ch \<noteq> CR \<and> ch \<noteq> LF then Some False else IsPrintableString pData)
   }"

definition hex_value :: "char \<Rightarrow> nat" where
  "hex_value ch =
     (if CHR ''0'' \<le> ch \<and> ch \<le> CHR ''9'' then of_char ch - 48
      else if CHR ''a'' \<le> ch \<and> ch \<le> CHR ''f'' then of_char ch - 97 + 10
      else 0)"

text \<open>The loop over \<open>pDst[i]\<close>: it stops early when fewer than two characters are left.\<close>

function hex_loop :: "string \<Rightarrow> memory \<Rightarrow> nat \<Rightarrow> nat \<Rightarrow> memory option" where
  "hex_loop pSrc pDst i cbDst =
     (if i < cbDst then
        (case pSrc of
           c0 # c1 # rest \<Rightarrow> do {
             ch0 \<leftarrow> tolower c0;
             ch1 \<leftarrow> tolower c1;
             pDst \<leftarrow> mem_set pDst i (char_of (hex_value ch0 * 16 + hex_value ch1));
             hex_loop rest pDst (Suc i) cbDst
           }
         | _ \<Rightarrow> Some pDst)
      else Some pDst)"
  by pat_completeness auto
termination by (relation "measure (\<lambda>(s, d, i, n). n - i)") auto

declare hex_loop.simps [simp del]

text \<open>A negative \<open>cbDst\<close> becomes a huge size in the call of \<^verbatim>\<open>memset\<close>.\<close>

definition HexCharToByte ::
    "string option \<Rightarrow> memory option \<Rightarrow> int \<Rightarrow> (int \<times> memory option) option" where
  "HexCharToByte pSrc pDst cbDst =
     (case (pSrc, pDst) of
        (Some s, Some d) \<Rightarrow>
          (if cbDst < 0 then None
           else do {
             d \<leftarrow> memset d 0 NUL (nat cbDst);
             d \<leftarrow> hex_loop s d 0 (nat cbDst);
             Some (0, Some d)
           })
      | _ \<Rightarrow> Some (-1, pDst))"

fun put_hex :: "char list \<Rightarrow> memory \<Rightarrow> nat \<Rightarrow> memory option" where
  "put_hex [] dest d = mem_set dest d NUL"
| "put_hex (b # pByte) dest d = do {
     let buf = hex_fixed 2 (of_char b);
     dest \<leftarrow> mem_set dest d (buf ! 0);
     dest \<leftarrow> mem_set dest (d + 1) (buf ! 1);
     put_hex pByte dest (d + 2)
   }"

definition ByteToHexChar :: "char list \<Rightarrow> memory \<Rightarrow> int \<Rightarrow> (int \<times> memory) option" where
  "ByteToHexChar pByte dest destBytes = do {
     dest \<leftarrow> mem_set dest 0 NUL;
     (if int (length pByte) * 2 \<ge> destBytes then Some (0, dest)
      else do {
        dest \<leftarrow> put_hex pByte dest 0;
        Some (int (length pByte) * 2, dest)
      })
   }"

text \<open>The two digits of a byte, and their values.\<close>

definition hex2 :: "char \<Rightarrow> string" where
  "hex2 b = [hex_digit (of_char b div 16), hex_digit (of_char b mod 16)]"

lemma of_char_less: "of_char c < (256 :: nat)"
  by (metis of_char_mod_256 mod_less_divisor zero_less_numeral)

lemma of_char_div_less: "of_char c div 16 < (16 :: nat)"
  using of_char_less [of c] by (simp add: less_mult_imp_div_less)

lemma hex_fixed_2: "hex_fixed 2 (of_char b) = hex2 b"
  using of_char_div_less [of b] by (simp add: hex2_def numeral_2_eq_2)

lemma hex_digit_facts:
  assumes "n < 16"
  shows "hex_value (to_lower (hex_digit n)) = n" "ctype_defined (hex_digit n)" "hex_digit n \<noteq> NUL"
proof -
  have "\<forall>n \<in> set [0..<16]. hex_value (to_lower (hex_digit n)) = n \<and> ctype_defined (hex_digit n)
      \<and> hex_digit n \<noteq> NUL"
    by code_simp
  then show "hex_value (to_lower (hex_digit n)) = n" "ctype_defined (hex_digit n)" "hex_digit n \<noteq> NUL"
    using assms by auto
qed

lemma put_hex_spec:
  "d + 2 * length xs < length dest \<Longrightarrow>
   put_hex xs dest d = Some (take d dest @ concat (map hex2 xs) @ NUL # drop (Suc (d + 2 * length xs)) dest)"
proof (induction xs arbitrary: dest d)
  case Nil
  then show ?case by (simp add: mem_set_def upd_conv_take_nth_drop)
next
  case (Cons x xs)
  let ?dest = "dest[d := hex2 x ! 0, Suc d := hex2 x ! 1]"
  have "put_hex (x # xs) dest d = put_hex xs ?dest (d + 2)"
    using Cons.prems by (simp add: mem_set_def hex_fixed_2 Let_def del: hex_fixed.simps)
  also have "\<dots> = Some (take (d + 2) ?dest @ concat (map hex2 xs) @ NUL # drop (Suc (d + 2 + 2 * length xs)) ?dest)"
    using Cons.prems by (intro Cons.IH) simp
  also have "take (d + 2) ?dest = take d dest @ hex2 x"
    using Cons.prems by (simp add: take_Suc_conv_app_nth hex2_def)
  finally show ?case by simp
qed

lemma hex_loop_spec:
  "i + length xs \<le> length dst \<Longrightarrow>
   hex_loop (concat (map hex2 xs)) dst i (i + length xs) = Some (take i dst @ xs @ drop (i + length xs) dst)"
proof (induction xs arbitrary: dst i)
  case Nil
  then show ?case by (simp add: hex_loop.simps)
next
  case (Cons x xs)
  let ?h = "(of_char x :: nat) div 16" and ?l = "(of_char x :: nat) mod 16"
  have h: "?h < 16" "?l < 16" using of_char_div_less [of x] by simp_all
  have v: "char_of (?h * 16 + ?l) = x" by (simp add: div_mult_mod_eq)
  have len: "i < length dst" using Cons.prems by simp
  have "hex_loop (concat (map hex2 (x # xs))) dst i (i + length (x # xs))
      = hex_loop (concat (map hex2 xs)) (dst[i := x]) (Suc i) (Suc i + length xs)"
    using len hex_digit_facts [OF h(1)] hex_digit_facts [OF h(2)] v
    by (subst hex_loop.simps) (simp add: hex2_def tolower_def mem_set_def)
  also have "\<dots> = Some (take (Suc i) (dst[i := x]) @ xs @ drop (Suc i + length xs) (dst[i := x]))"
    using Cons.prems by (intro Cons.IH) simp
  finally show ?case using len by (simp add: take_Suc_conv_app_nth)
qed

lemma hex2_no_nul: "NUL \<notin> set (concat (map hex2 xs))"
proof -
  have "NUL \<notin> set (hex2 x)" for x
    using of_char_div_less [of x] hex_digit_facts(3) [of "of_char x div 16"]
      hex_digit_facts(3) [of "of_char x mod 16"] by (auto simp: hex2_def)
  then show ?thesis by simp
qed

lemma takeWhile_nul: "NUL \<notin> set s \<Longrightarrow> takeWhile (\<lambda>c. c \<noteq> NUL) (s @ NUL # r) = s"
  by (subst takeWhile_append2) auto

section \<open>Properties\<close>

text \<open>
  Any corruption of one byte of a message changes its checksum, whatever the start
  value, so a receiver that recomputes the checksum detects it.
\<close>

theorem crc_detects_single_byte:
  "Crc16Ex (xs @ c # ys) crc = Crc16Ex (xs @ d # ys) crc \<longleftrightarrow> c = d"
  using Crc16Ex_single_byte by blast

text \<open>
  The text that \<open>ByteToHexChar\<close> writes for a byte array is NUL-terminated inside the
  destination, and \<open>HexCharToByte\<close> reads the same bytes back from it.
\<close>

theorem hex_roundtrip:
  assumes "2 * length xs < destBytes" "destBytes \<le> length dest" "length xs \<le> length dst"
  shows "\<exists>dest' s. ByteToHexChar xs dest (int destBytes) = Some (2 * int (length xs), dest')
    \<and> length dest' = length dest \<and> c_str dest' 0 = Some s \<and> length s = 2 * length xs
    \<and> HexCharToByte (Some s) (Some dst) (int (length xs)) = Some (0, Some (xs @ drop (length xs) dst))"
proof -
  let ?s = "concat (map hex2 xs)"
  let ?dest = "?s @ NUL # drop (Suc (2 * length xs)) dest"
  have "put_hex xs (dest[0 := NUL]) 0 = Some ?dest"
    using assms by (subst put_hex_spec) auto
  then have w: "ByteToHexChar xs dest (int destBytes) = Some (2 * int (length xs), ?dest)"
    using assms by (auto simp: ByteToHexChar_def mem_set_def)
  have len: "length ?s = 2 * length xs" by (induction xs) (auto simp: hex2_def)
  have c: "c_str ?dest 0 = Some ?s" using hex2_no_nul [of xs] by (simp add: c_str_def takeWhile_nul)
  let ?z = "replicate (length xs) NUL @ drop (length xs) dst"
  have "memset dst 0 NUL (length xs) = Some ?z" using assms by (simp add: memset_def memcpy_def)
  moreover have "hex_loop ?s ?z 0 (length xs) = Some (xs @ drop (length xs) dst)"
    using hex_loop_spec [of 0 xs ?z] assms by simp
  ultimately show ?thesis using w c len assms by (auto simp: HexCharToByte_def)
qed

theorem hex_roundtrip_witness:
  "\<exists>dest' s. ByteToHexChar ''Hi'' ''........'' 8 = Some (4, dest')
    \<and> length dest' = length ''........'' \<and> c_str dest' 0 = Some s \<and> length s = 4
    \<and> HexCharToByte (Some s) (Some ''xyz'') 2 = Some (0, Some ''Hiz'')"
  using hex_roundtrip [of "''Hi''" 8 "''........''" "''xyz''"] by simp

end
