(* ===== verification/Sctp.thy ===== *)
theory Sctp
  imports CBundle SctpTool
begin

text \<open>
  The SCTP protocol object (\<^verbatim>\<open>src/src/core/protocol/sctp/csctp.c\<close>): a text protocol for
  unreliable serial lines. A frame is a sequence of lines \<open>name=value\<close>, closed by an
  empty line, with a checksum field. This theory translates the whole file: the sender
  \<open>SCTP_CreateOutboxData\<close>, the receiver \<open>SCTP_InputData\<close> and everything they call,
  working on the inbox's array in place as the code does. The properties are in
  \<open>SctpSender\<close> and \<open>SctpReceiver\<close>.
\<close>

section \<open>The protocol object\<close>

text \<open>
  The callbacks belong to the application; of a callback pointer the model keeps whether it
  is set, and a call is an event of the run, with the arguments of the call; of the bundle
  argument it keeps the stored fields. A callback is taken not to change the object it is
  called for.
\<close>

record tagSCTP =
  mInbox :: tagByteBuffer
  mOutbox :: tagByteBuffer
  mInboxBundle :: tagBundle
  mOutboxBundle :: tagBundle
  mSeq :: u16
  mDisableSeq :: bool
  m485Verbose :: bool
  mOnRecvCommandCB :: bool
  mOnErrorCB :: bool
  mDumpFrameCB :: bool

datatype sctp_event =
    OnRecvCommand string "(string \<times> string option) list"
  | OnError string
  | DumpFrame string

definition SCTP_SetError :: "tagSCTP \<Rightarrow> string \<Rightarrow> sctp_event list" where
  "SCTP_SetError obj desc = (if mOnErrorCB obj then [OnError desc] else [])"

definition SCTP_Create :: tagSCTP where
  "SCTP_Create =
     \<lparr>mInbox = ByteBuffer_Create, mOutbox = ByteBuffer_Create,
      mInboxBundle = \<lparr>mItems = [], mCount = 0, mTotalCount = 0\<rparr>,
      mOutboxBundle = \<lparr>mItems = [], mCount = 0, mTotalCount = 0\<rparr>,
      mSeq = 0, mDisableSeq = False, m485Verbose = False,
      mOnRecvCommandCB = False, mOnErrorCB = False, mDumpFrameCB = False\<rparr>"

definition SCTP_Enable485Verbose :: "tagSCTP \<Rightarrow> tagSCTP" where
  "SCTP_Enable485Verbose obj = obj\<lparr>m485Verbose := True\<rparr>"

definition SCTP_clear :: "tagSCTP \<Rightarrow> tagSCTP option" where
  "SCTP_clear obj = do {
     let obj = obj\<lparr>mSeq := 0\<rparr>;
     inbox \<leftarrow> ByteBuffer_clear (mInbox obj);
     outbox \<leftarrow> ByteBuffer_clear (mOutbox obj);
     Some (obj\<lparr>mInbox := inbox, mOutbox := outbox,
               mInboxBundle := Bundle_clear (mInboxBundle obj),
               mOutboxBundle := Bundle_clear (mOutboxBundle obj)\<rparr>)
   }"

section \<open>The checksum of a bundle\<close>

definition bundle_items :: "tagBundle \<Rightarrow> tagKeyValue list option" where
  "bundle_items b =
     (if unat (mCount b) \<le> length (mItems b) then Some (take (unat (mCount b)) (mItems b)) else None)"

text \<open>
  The loop shared by the sender and the receiver: unnamed fields and the checksum field
  are left out, the others add their name and their value.
\<close>

fun crc_items :: "tagKeyValue list \<Rightarrow> u16 \<Rightarrow> u16 option" where
  "crc_items [] crc = Some crc"
| "crc_items (it # its) crc = do {
     n \<leftarrow> kname it;
     (if n = [] \<or> n = ''crc'' then crc_items its crc
      else do {
        let crc = Crc16Ex n crc;
        v \<leftarrow> kvalue it;
        crc_items its (if v \<noteq> [] then Crc16Ex v crc else crc)
      })
   }"

definition SCTP_CheckCrc :: "tagBundle \<Rightarrow> (int \<times> u16) option" where
  "SCTP_CheckCrc bundle = do {
     items \<leftarrow> bundle_items bundle;
     crc \<leftarrow> crc_items items 0xFFFF;
     crcCheck \<leftarrow> Bundle_GetString bundle ''crc'';
     Some (if crcCheck \<noteq> [] \<and> strcasecmp_eq (hex_fixed 4 (unat crc)) crcCheck then 0 else -1, crc)
   }"

section \<open>The receiver\<close>

abbreviation CRLF :: string where "CRLF \<equiv> [CR, LF]"
abbreviation TAIL :: string where "TAIL \<equiv> [CR, LF, CR, LF]"

text \<open>The test \<^verbatim>\<open>d[0] != 'c' || d[1] != 'm' || d[2] != 'd' || d[3] != '='\<close>, left to right.\<close>

definition not_cmd :: "memory \<Rightarrow> nat \<Rightarrow> bool option" where
  "not_cmd m d = do {
     c0 \<leftarrow> mem_get m d;
     (if c0 \<noteq> CHR ''c'' then Some True else do {
        c1 \<leftarrow> mem_get m (d + 1);
        (if c1 \<noteq> CHR ''m'' then Some True else do {
           c2 \<leftarrow> mem_get m (d + 2);
           (if c2 \<noteq> CHR ''d'' then Some True else do {
              c3 \<leftarrow> mem_get m (d + 3);
              Some (c3 \<noteq> CHR ''='')
           })
        })
     })
   }"

function skip_noise :: "bool \<Rightarrow> memory \<Rightarrow> nat \<Rightarrow> nat \<Rightarrow> nat option" where
  "skip_noise verbose m body tend = do {
     c \<leftarrow> mem_get m body;
     (if c \<noteq> NUL \<and> body < tend then do {
        noise \<leftarrow> (if \<not> isalpha c then Some True else if verbose then not_cmd m body else Some False);
        (if noise then skip_noise verbose m (Suc body) tend else Some body)
      }
      else Some body)
   }"
  by pat_completeness auto
termination by (relation "measure (\<lambda>(v, m, body, e). e - body)") auto

declare skip_noise.simps [simp del]

text \<open>One line, already cut off by a NUL: it is split at its first equals sign, if it has one.\<close>

definition store_line :: "memory \<Rightarrow> nat \<Rightarrow> tagBundle \<Rightarrow> (memory \<times> tagBundle) option" where
  "store_line m body bundle = do {
     equalSign \<leftarrow> strstr_at m body ''='';
     (case equalSign of
        None \<Rightarrow> Some (m, bundle)
      | Some eq \<Rightarrow> do {
          m \<leftarrow> mem_set m eq NUL;
          n \<leftarrow> c_str m body;
          v \<leftarrow> c_str m (eq + 1);
          (_, bundle) \<leftarrow> Bundle_Push bundle (Some n) (Some v);
          Some (m, bundle)
        })
   }"

lemma store_line_length: "store_line m body b = Some (m', b') \<Longrightarrow> length m' = length m"
  by (auto simp: store_line_def bind_eq_Some_conv mem_simps split: option.splits)

function extract_fields :: "memory \<Rightarrow> nat \<Rightarrow> tagBundle \<Rightarrow> (memory \<times> tagBundle) option" where
  "extract_fields m body bundle = do {
     c \<leftarrow> mem_get m body;
     (if c = NUL then Some (m, bundle)
      else do {
        le \<leftarrow> strstr_at m body CRLF;
        (case le of
           None \<Rightarrow> Some (m, bundle)
         | Some lineEnd \<Rightarrow> do {
             m1 \<leftarrow> mem_set m lineEnd NUL;
             (m2, bundle') \<leftarrow> store_line m1 body bundle;
             extract_fields m2 (lineEnd + 2) bundle'
           })
      })
   }"
  by pat_completeness auto
termination
  by (relation "measure (\<lambda>(m, body, b). length m - body)")
    (auto simp: mem_get_def strstr_at_def bind_eq_Some_conv mem_simps store_line_length split: if_splits)

declare extract_fields.simps [simp del]

text \<open>
  One complete frame: the bytes from \<open>body\<close> up to the terminator that starts at \<open>tend\<close>.
  The fields are taken out of the array in place, the checksum is compared and the
  command is handed to the application.
\<close>

definition parse_frame :: "tagSCTP \<Rightarrow> nat \<Rightarrow> nat \<Rightarrow> (tagSCTP \<times> sctp_event list) option" where
  "parse_frame obj body tend = do {
     m \<leftarrow> mBuf (mInbox obj);
     m \<leftarrow> mem_set m (tend + 2) NUL;
     let bundle = Bundle_clear (mInboxBundle obj);
     body \<leftarrow> skip_noise (m485Verbose obj) m body tend;
     frame \<leftarrow> c_str m body;
     let dump = (if mDumpFrameCB obj then [DumpFrame frame] else []);
     (m, bundle) \<leftarrow> extract_fields m body bundle;
     (ok, crcAck) \<leftarrow> SCTP_CheckCrc bundle;
     let err = (if ok \<noteq> 0 then SCTP_SetError obj (''crc error,crcLocalCalc=0x'' @ hex_fixed 4 (unat crcAck))
                else []);
     recv \<leftarrow> (if ok = 0 \<and> mOnRecvCommandCB obj
             then do { cmd \<leftarrow> Bundle_GetString bundle ''cmd''; Some [OnRecvCommand cmd (bundle_fields bundle)] }
             else Some []);
     Some (obj\<lparr>mInbox := (mInbox obj)\<lparr>mBuf := Some m\<rparr>, mInboxBundle := Bundle_clear bundle\<rparr>,
           dump @ err @ recv)
   }"

text \<open>The loop over the complete frames of the inbox; \<open>None\<close> also stands for not returning.\<close>

partial_function (option) SCTP_Parse :: "tagSCTP \<Rightarrow> (tagSCTP \<times> sctp_event list) option" where
  "SCTP_Parse obj =
     (if ByteBuffer_empty (mInbox obj) then Some (obj, [])
      else do {
        body \<leftarrow> ByteBuffer_GetData (mInbox obj);
        m \<leftarrow> mBuf (mInbox obj);
        r \<leftarrow> strstr_at m body TAIL;
        (case r of
           None \<Rightarrow> Some (obj, [])
         | Some tend \<Rightarrow> do {
             (obj1, ev) \<leftarrow> parse_frame obj body tend;
             (_, inbox) \<leftarrow> ByteBuffer_Eat (mInbox obj1) (of_nat (tend - body + 4));
             (obj2, ev') \<leftarrow> SCTP_Parse (obj1\<lparr>mInbox := inbox\<rparr>);
             Some (obj2, ev @ ev')
           })
      })"

declare SCTP_Parse.simps [code]

text \<open>NUL bytes of the input are overwritten in the caller's array before anything else.\<close>

definition mask_nul :: "char list \<Rightarrow> char list" where
  "mask_nul = map (\<lambda>c. if c = NUL then CHR ''$'' else c)"

definition SCTP_InputDataImpl :: "tagSCTP \<Rightarrow> char list \<Rightarrow> (int \<times> tagSCTP \<times> sctp_event list) option" where
  "SCTP_InputDataImpl obj inp = do {
     (bytes, inbox) \<leftarrow> ByteBuffer_Write (mInbox obj) (mask_nul inp);
     let obj = obj\<lparr>mInbox := inbox\<rparr>;
     (if bytes \<noteq> int (length inp)
      then do {
        let err = SCTP_SetError obj ''data/protocol error'';
        obj \<leftarrow> SCTP_clear obj;
        Some (-1, obj, err)
      }
      else do { (obj, ev) \<leftarrow> SCTP_Parse obj; Some (0, obj, ev) })
   }"

text \<open>
  The input is submitted in pieces of at most 1024 bytes; the result of a piece is
  ignored. The second component is the caller's array as the call leaves it.
\<close>

function SCTP_InputData :: "tagSCTP \<Rightarrow> char list \<Rightarrow> (tagSCTP \<times> char list \<times> sctp_event list) option" where
  "SCTP_InputData obj d =
     (if d = [] then Some (obj, [], [])
      else do {
        (_, obj, ev) \<leftarrow> SCTP_InputDataImpl obj (take 1024 d);
        (obj, d', ev') \<leftarrow> SCTP_InputData obj (drop 1024 d);
        Some (obj, mask_nul (take 1024 d) @ d', ev @ ev')
      })"
  by pat_completeness auto
termination by (relation "measure (\<lambda>(obj, d). length d)") auto

declare SCTP_InputData.simps [simp del]

definition SCTP_InputString :: "tagSCTP \<Rightarrow> string \<Rightarrow> (tagSCTP \<times> char list \<times> sctp_event list) option" where
  "SCTP_InputString obj inp = do {
     (obj, d, ev) \<leftarrow> SCTP_InputData obj (take (length inp mod 65536) inp);
     Some (obj, d @ drop (length inp mod 65536) inp, ev)
   }"

section \<open>The sender\<close>

text \<open>The writes of one item, in order; an item with an empty name writes nothing.\<close>

definition item_texts :: "tagKeyValue \<Rightarrow> string option list option" where
  "item_texts it = do {
     n \<leftarrow> kname it;
     Some (if n \<noteq> [] then [Some n, Some ''='', kvalue it, Some CRLF] else [])
   }"

fun write_items :: "tagByteBuffer \<Rightarrow> tagKeyValue list \<Rightarrow> tagByteBuffer option" where
  "write_items buf [] = Some buf"
| "write_items buf (it # its) = do {
     ts \<leftarrow> item_texts it;
     buf \<leftarrow> run_puts ByteBuffer_WriteString buf ts;
     write_items buf its
   }"

definition add_seq :: "tagSCTP \<Rightarrow> tagSCTP option" where
  "add_seq obj =
     (if mDisableSeq obj then Some obj
      else do {
        ex \<leftarrow> Bundle_Exists (mOutboxBundle obj) ''seq'';
        (if ex then Some obj
         else do {
           let seq = mSeq obj + 1;
           (_, bundle) \<leftarrow> Bundle_Push (mOutboxBundle obj) (Some ''seq'') (Some (dec (unat seq)));
           Some (obj\<lparr>mSeq := seq, mOutboxBundle := bundle\<rparr>)
         })
      })"

definition SCTP_CreateOutboxData :: "tagSCTP \<Rightarrow> (int \<times> tagSCTP) option" where
  "SCTP_CreateOutboxData obj = do {
     _ \<leftarrow> Bundle_GetString (mOutboxBundle obj) ''cmd'';
     obj \<leftarrow> add_seq obj;
     buffer \<leftarrow> ByteBuffer_clear (mOutbox obj);
     items \<leftarrow> bundle_items (mOutboxBundle obj);
     crc \<leftarrow> crc_items items 0xFFFF;
     (_, bundle) \<leftarrow> Bundle_Push (mOutboxBundle obj) (Some ''crc'') (Some (hex_fixed 4 (unat crc)));
     items \<leftarrow> bundle_items bundle;
     buffer \<leftarrow> write_items buffer items;
     (_, buffer) \<leftarrow> ByteBuffer_WriteString buffer (Some CRLF);
     Some (0, obj\<lparr>mOutbox := buffer, mOutboxBundle := Bundle_clear bundle\<rparr>)
   }"

fun is_reserved :: "string list \<Rightarrow> string \<Rightarrow> bool" where
  "is_reserved [] n = False"
| "is_reserved (r # rs) n = (if n = r then True else is_reserved rs n)"

definition SCTP_IsReservedKey :: "string \<Rightarrow> bool" where
  "SCTP_IsReservedKey n = is_reserved [''cmd'', ''crc'', ''seq''] n"

end
