(* ===== verification/SctpSender.thy ===== *)
theory SctpSender
  imports Sctp
begin

text \<open>
  The sending half of the protocol: the invariant of the protocol object, the text of a
  frame as a function of its fields, and the proof that \<open>SCTP_CreateOutboxData\<close> leaves
  exactly that text, with the sequence number and the checksum added, in the outbox;
  and what happens when the bundle or the outbox is too small for it.
\<close>

section \<open>Frames as text\<close>

type_synonym field_list = "(string \<times> string) list"

definition some_fields :: "field_list \<Rightarrow> (string \<times> string option) list" where
  "some_fields kvs = map (\<lambda>(n, v). (n, Some v)) kvs"

definition line_texts :: "string \<times> string \<Rightarrow> string list" where
  "line_texts kv = (if fst kv \<noteq> [] then [fst kv, ''='', snd kv, CRLF] else [])"

definition lines_text :: "field_list \<Rightarrow> string" where
  "lines_text kvs = concat (concat (map line_texts kvs))"

definition frame_text :: "field_list \<Rightarrow> string" where
  "frame_text kvs = lines_text kvs @ CRLF"

text \<open>The checksum of a field list: over the names and values of all fields but \<open>crc\<close>.\<close>

definition crc_text :: "field_list \<Rightarrow> string" where
  "crc_text kvs = concat (map (\<lambda>(n, v). n @ v) (filter (\<lambda>(n, v). n \<noteq> [] \<and> n \<noteq> ''crc'') kvs))"

definition fields_crc :: "field_list \<Rightarrow> u16" where
  "fields_crc kvs = Crc16Ex (crc_text kvs) 0xFFFF"

definition crc_field :: "field_list \<Rightarrow> string \<times> string" where
  "crc_field kvs = (''crc'', hex_fixed 4 (unat (fields_crc kvs)))"

section \<open>The invariant of the protocol object\<close>

definition sctp_ok :: "tagSCTP \<Rightarrow> bool" where
  "sctp_ok obj \<longleftrightarrow> bb_ok (mInbox obj) \<and> bb_ok (mOutbox obj) \<and> bundle_ok (mInboxBundle obj)
     \<and> bundle_ok (mOutboxBundle obj) \<and> NUL \<notin> set (bb_data (mInbox obj))"

lemma SCTP_clear_spec:
  assumes "sctp_ok obj"
  shows "\<exists>obj'. SCTP_clear obj = Some obj' \<and> sctp_ok obj' \<and> bb_data (mInbox obj') = []
    \<and> bb_data (mOutbox obj') = [] \<and> bundle_fields (mOutboxBundle obj') = [] \<and> mSeq obj' = 0
    \<and> bb_cap (mInbox obj') = bb_cap (mInbox obj)"
proof -
  obtain i where "ByteBuffer_clear (mInbox obj) = Some i" "bb_ok i" "bb_data i = []"
    "mTotalBytes i = mTotalBytes (mInbox obj)"
    using ByteBuffer_clear_spec assms by (metis sctp_ok_def)
  moreover obtain u where "ByteBuffer_clear (mOutbox obj) = Some u" "bb_ok u" "bb_data u = []"
    using ByteBuffer_clear_spec assms by (metis sctp_ok_def)
  ultimately show ?thesis
    using assms Bundle_clear_spec by (auto simp: SCTP_clear_def sctp_ok_def bb_cap_def Let_def)
qed

section \<open>The loops over the items\<close>

lemma bundle_items_ok: "bundle_ok b \<Longrightarrow> bundle_items b = Some (take (unat (mCount b)) (mItems b))"
  by (auto simp: bundle_items_def bundle_ok_def word_le_nat_alt)

text \<open>Items that hold the given names and values.\<close>

definition items_are :: "tagKeyValue list \<Rightarrow> field_list \<Rightarrow> bool" where
  "items_are its kvs \<longleftrightarrow> its = map (\<lambda>(n, v). \<lparr>kname = Some n, kvalue = Some v\<rparr>) kvs"

lemma items_are_Cons: "items_are its (kv # kvs) \<longleftrightarrow>
    (\<exists>its'. its = \<lparr>kname = Some (fst kv), kvalue = Some (snd kv)\<rparr> # its' \<and> items_are its' kvs)"
  by (auto simp: items_are_def split_beta)

lemma items_are_bundle:
  assumes ok: "bundle_ok b" and f: "bundle_fields b = some_fields kvs"
  shows "items_are (take (unat (mCount b)) (mItems b)) kvs"
  unfolding items_are_def
proof (rule nth_equalityI)
  have len: "length (bundle_fields b) = length kvs" using f by (simp add: some_fields_def)
  have cnt: "unat (mCount b) \<le> length (mItems b)" using ok by (auto simp: bundle_ok_def word_le_nat_alt)
  then show "length (take (unat (mCount b)) (mItems b))
      = length (map (\<lambda>(n, v). \<lparr>kname = Some n, kvalue = Some v\<rparr>) kvs)"
    using len length_bundle_fields [OF ok] by simp
  fix i assume i: "i < length (take (unat (mCount b)) (mItems b))"
  then have i': "i < unat (mCount b)" by simp
  then have "i < length kvs" using len length_bundle_fields [OF ok] by simp
  then show "take (unat (mCount b)) (mItems b) ! i
      = map (\<lambda>(n, v). \<lparr>kname = Some n, kvalue = Some v\<rparr>) kvs ! i"
    using bundle_item [OF ok i'] i' f by (simp add: some_fields_def split_beta)
qed

lemma crc_items_spec: "items_are its kvs \<Longrightarrow> crc_items its crc = Some (Crc16Ex (crc_text kvs) crc)"
proof (induction kvs arbitrary: its crc)
  case Nil
  then show ?case by (simp add: items_are_def crc_text_def)
next
  case (Cons kv kvs)
  then show ?case by (auto simp: items_are_Cons crc_text_def Crc16Ex_append split_beta Let_def)
qed

text \<open>Writing strings is a bounded queue too: the empty string and the byte copy agree on the data.\<close>

interpretation wsq: byte_fifo bb_ok bb_data bb_cap "\<lambda>b s. ByteBuffer_WriteString b (Some s)" ByteBuffer_Eat
proof unfold_locales
  fix b and xs :: "char list"
  assume "bb_ok b" "length xs < 65536"
  then show "\<exists>b'. ByteBuffer_WriteString b (Some xs)
        = Some (int (min (length xs) (bb_cap b - length (bb_data b))), b') \<and> bb_ok b'
      \<and> bb_data b' = bb_data b @ take (bb_cap b - length (bb_data b)) xs \<and> bb_cap b' = bb_cap b"
    using bbq.put_law [of b xs] by (cases "xs = []") (simp_all add: ByteBuffer_WriteString_def)
qed (auto intro: bbq.cap_bound bbq.data_le_cap bbq.eat_law)

lemma run_puts_map:
  "run_puts put b (map f xs) = run_puts (\<lambda>b x. put b (f x)) b xs"
  by (induction xs arbitrary: b) auto

lemma write_items_puts:
  "items_are its kvs \<Longrightarrow> write_items buf its
    = run_puts (\<lambda>b s. ByteBuffer_WriteString b (Some s)) buf (concat (map line_texts kvs))"
proof (induction kvs arbitrary: its buf)
  case Nil
  then show ?case by (simp add: items_are_def)
next
  case (Cons kv kvs)
  then obtain its' where its': "its = \<lparr>kname = Some (fst kv), kvalue = Some (snd kv)\<rparr> # its'"
    "items_are its' kvs" by (auto simp: items_are_Cons)
  have "item_texts \<lparr>kname = Some (fst kv), kvalue = Some (snd kv)\<rparr> = Some (map Some (line_texts kv))"
    by (simp add: item_texts_def line_texts_def)
  then show ?case
    using Cons.IH [OF its'(2)] by (simp add: its'(1) run_puts_append run_puts_map)
qed

section \<open>The sender\<close>

lemma some_fields_simps [simp]:
  "some_fields [] = []" "some_fields (kvs @ kvs') = some_fields kvs @ some_fields kvs'"
  "some_fields (kv # kvs) = (fst kv, Some (snd kv)) # some_fields kvs"
  "length (some_fields kvs) = length kvs" "take n (some_fields kvs) = some_fields (take n kvs)"
  "fst ` set (some_fields kvs) = fst ` set kvs"
  by (auto simp: some_fields_def split_beta take_map image_image)

text \<open>The fields a frame carries: the application's, and a sequence number unless it is there or disabled.\<close>

definition seq_fields :: "tagSCTP \<Rightarrow> field_list \<Rightarrow> field_list" where
  "seq_fields obj kvs =
     (if mDisableSeq obj \<or> ''seq'' \<in> fst ` set kvs then kvs
      else kvs @ [(''seq'', dec (unat (mSeq obj + 1)))])"

lemma Push_some_fields:
  assumes "bundle_ok b" "bundle_fields b = some_fields kvs"
  obtains r b' where "Bundle_Push b (Some n) (Some v) = Some (r, b')" "bundle_ok b'"
    "field_limit b' = field_limit b" "bundle_fields b' = some_fields (take (field_limit b) (kvs @ [(n, v)]))"
proof -
  obtain r b' where "Bundle_Push b (Some n) (Some v) = Some (r, b')" "bundle_ok b'"
    "field_limit b' = field_limit b" "bundle_fields b' = take (field_limit b) (bundle_fields b @ [(n, Some v)])"
    using bnd.push_law [OF assms(1)] by blast
  moreover have "bundle_fields b @ [(n, Some v)] = some_fields (kvs @ [(n, v)])"
    using assms(2) by simp
  ultimately show thesis by (metis that some_fields_simps(5))
qed

lemma add_seq_spec:
  assumes ok: "bundle_ok (mOutboxBundle obj)" and f: "bundle_fields (mOutboxBundle obj) = some_fields kvs"
    and lim: "length kvs \<le> field_limit (mOutboxBundle obj)"
  obtains b sq where "add_seq obj = Some (obj\<lparr>mSeq := sq, mOutboxBundle := b\<rparr>)" "bundle_ok b"
    "field_limit b = field_limit (mOutboxBundle obj)"
    "bundle_fields b = some_fields (take (field_limit b) (seq_fields obj kvs))"
    "sq = mSeq obj + (if mDisableSeq obj \<or> ''seq'' \<in> fst ` set kvs then 0 else 1)"
proof (cases "mDisableSeq obj \<or> ''seq'' \<in> fst ` set kvs")
  case True
  have "add_seq obj = Some obj"
    using True Bundle_Exists_spec [OF ok] f by (auto simp: add_seq_def)
  then show thesis
    using True ok f lim by (intro that [of "mOutboxBundle obj" "mSeq obj"]) (auto simp: seq_fields_def)
next
  case False
  obtain r b where b: "Bundle_Push (mOutboxBundle obj) (Some ''seq'') (Some (dec (unat (mSeq obj + 1)))) = Some (r, b)"
    "bundle_ok b" "field_limit b = field_limit (mOutboxBundle obj)"
    "bundle_fields b = some_fields (take (field_limit (mOutboxBundle obj))
       (kvs @ [(''seq'', dec (unat (mSeq obj + 1)))]))"
    by (rule Push_some_fields [OF ok f])
  have "add_seq obj = Some (obj\<lparr>mSeq := mSeq obj + 1, mOutboxBundle := b\<rparr>)"
    using False Bundle_Exists_spec [OF ok] f b(1) by (auto simp: add_seq_def Let_def)
  then show thesis
    using False b(2-) by (intro that [of b "mSeq obj + 1"]) (auto simp: seq_fields_def)
qed

text \<open>
  What the sender puts on the wire, in every case: the fields that fit into the bundle,
  with the checksum of those, cut off at the outbox's capacity.
\<close>

definition wire_fields :: "nat \<Rightarrow> field_list \<Rightarrow> field_list" where
  "wire_fields lim kvs = take lim (take lim kvs @ [crc_field (take lim kvs)])"

lemma SCTP_CreateOutboxData_spec:
  assumes ok: "sctp_ok obj" and f: "bundle_fields (mOutboxBundle obj) = some_fields kvs"
    and len: "\<And>n v. (n, v) \<in> set kvs \<Longrightarrow> length n < 65536 \<and> length v < 65536"
  defines "lim \<equiv> field_limit (mOutboxBundle obj)"
  shows "\<exists>obj'. SCTP_CreateOutboxData obj = Some (0, obj') \<and> sctp_ok obj'
    \<and> bb_data (mOutbox obj') = take (bb_cap (mOutbox obj)) (frame_text (wire_fields lim (seq_fields obj kvs)))
    \<and> bb_cap (mOutbox obj') = bb_cap (mOutbox obj)
    \<and> bundle_fields (mOutboxBundle obj') = [] \<and> mInbox obj' = mInbox obj
    \<and> mSeq obj' = mSeq obj + (if mDisableSeq obj \<or> ''seq'' \<in> fst ` set kvs then 0 else 1)"
proof -
  have oko: "bundle_ok (mOutboxBundle obj)" "bb_ok (mOutbox obj)" using ok by (auto simp: sctp_ok_def)
  have lk: "length kvs \<le> field_limit (mOutboxBundle obj)" using bnd.flds_limit [OF oko(1)] f by simp
  obtain b sq where b: "add_seq obj = Some (obj\<lparr>mSeq := sq, mOutboxBundle := b\<rparr>)" "bundle_ok b"
    "field_limit b = lim" "bundle_fields b = some_fields (take lim (seq_fields obj kvs))"
    "sq = mSeq obj + (if mDisableSeq obj \<or> ''seq'' \<in> fst ` set kvs then 0 else 1)"
    using add_seq_spec [OF oko(1) f lk] by (metis lim_def)
  define ks where "ks = take lim (seq_fields obj kvs)"
  obtain u where u: "ByteBuffer_clear (mOutbox obj) = Some u" "bb_ok u" "bb_data u = []"
    "bb_cap u = bb_cap (mOutbox obj)"
    using ByteBuffer_clear_spec [OF oko(2)] by (metis bb_cap_def)
  have crc: "crc_items (take (unat (mCount b)) (mItems b)) 0xFFFF = Some (fields_crc ks)"
    using crc_items_spec [OF items_are_bundle [OF b(2,4)]] by (simp add: fields_crc_def ks_def)
  obtain r b2 where b2: "Bundle_Push b (Some ''crc'') (Some (hex_fixed 4 (unat (fields_crc ks)))) = Some (r, b2)"
    "bundle_ok b2" "bundle_fields b2 = some_fields (wire_fields lim (seq_fields obj kvs))"
    using Push_some_fields [OF b(2,4)] b(3) by (metis wire_fields_def crc_field_def ks_def)
  define texts where "texts = concat (map line_texts (wire_fields lim (seq_fields obj kvs))) @ [CRLF]"
  have small: "length t < 65536" if "t \<in> set texts" for t
    using that len dec_u16_length [of "mSeq obj + 1"] by (auto simp: texts_def line_texts_def wire_fields_def seq_fields_def crc_field_def
        dest!: in_set_takeD split: if_splits)
  obtain w where w: "run_puts (\<lambda>b s. ByteBuffer_WriteString b (Some s)) u texts = Some w" "bb_ok w"
    "bb_cap w = bb_cap u" "bb_data w = take (bb_cap u) (bb_data u @ concat texts)"
    using wsq.run_puts_truncates [OF u(2) small] by blast
  have wr: "do { buffer \<leftarrow> write_items u (take (unat (mCount b2)) (mItems b2));
      (_, buffer) \<leftarrow> ByteBuffer_WriteString buffer (Some CRLF); Some buffer } = Some w"
    using w(1) write_items_puts [OF items_are_bundle [OF b2(2,3)], of u]
    by (auto simp: texts_def run_puts_append split_beta bind_eq_Some_conv)
  let ?obj = "obj\<lparr>mSeq := sq, mOutboxBundle := Bundle_clear b2, mOutbox := w\<rparr>"
  have "SCTP_CreateOutboxData obj = Some (0, ?obj)"
    using b(1) u(1) crc b2(1) wr
    by (auto simp: SCTP_CreateOutboxData_def Bundle_GetString_spec [OF oko(1)] bundle_items_ok b(2) b2(2)
        bind_eq_Some_conv)
  moreover have "concat texts = frame_text (wire_fields lim (seq_fields obj kvs))"
    by (simp add: texts_def frame_text_def lines_text_def)
  ultimately show ?thesis
    using ok u w b(5) Bundle_clear_spec [OF b2(2)] by (auto simp: sctp_ok_def)
qed

end
