(* ===== verification/SctpReceiver.thy ===== *)
theory SctpReceiver
  imports SctpSender
begin

text \<open>
  The receiving half of the protocol. The reference is a parser on strings: \<open>split_frames\<close>
  cuts the input at the frame terminators, \<open>denoise\<close> drops the bytes in front of a
  command, \<open>parse_lines\<close> reads the fields and \<open>frame_events\<close> says what the application is
  told. The code's in-place parser is shown to compute exactly this, without a fault and
  without running on, and independently of how the input is cut into pieces.
\<close>

section \<open>The reference parser\<close>

function split_frames :: "string \<Rightarrow> string list \<times> string" where
  "split_frames s =
     (case strstr s TAIL of
        None \<Rightarrow> ([], s)
      | Some k \<Rightarrow> (let (fs, r) = split_frames (drop (k + 4) s) in (take k s # fs, r)))"
  by pat_completeness auto
termination
  by (relation "measure length") (auto dest!: strstr_Some_le)

declare split_frames.simps [simp del]

definition noise_at :: "bool \<Rightarrow> string \<Rightarrow> bool" where
  "noise_at verbose s \<longleftrightarrow> \<not> isalpha (hd s) \<or> verbose \<and> \<not> prefix ''cmd='' s"

text \<open>\<open>denoise v s n\<close> drops noise from the front of \<open>s\<close>, at most \<open>n\<close> bytes.\<close>

fun denoise :: "bool \<Rightarrow> string \<Rightarrow> nat \<Rightarrow> string" where
  "denoise v s 0 = s"
| "denoise v [] (Suc n) = []"
| "denoise v (c # s) (Suc n) = (if noise_at v (c # s) then denoise v s n else c # s)"

definition parse_line :: "string \<Rightarrow> field_list" where
  "parse_line l = (case strstr l ''='' of None \<Rightarrow> [] | Some e \<Rightarrow> [(take e l, drop (Suc e) l)])"

function parse_lines :: "string \<Rightarrow> field_list" where
  "parse_lines s =
     (case strstr s CRLF of
        None \<Rightarrow> []
      | Some k \<Rightarrow> parse_line (take k s) @ parse_lines (drop (k + 2) s))"
  by pat_completeness auto
termination
  by (relation "measure length") (auto dest!: strstr_Some_le)

declare parse_lines.simps [simp del]

text \<open>The verdict on a field list: the first \<open>crc\<close> field carries the checksum, in either case.\<close>

definition crc_verdict :: "field_list \<Rightarrow> bool" where
  "crc_verdict kvs \<longleftrightarrow> (let c = field_text (some_fields kvs) ''crc''
     in c \<noteq> [] \<and> strcasecmp_eq (hex_fixed 4 (unat (fields_crc kvs))) c)"

definition frame_events :: "tagSCTP \<Rightarrow> string \<Rightarrow> sctp_event list" where
  "frame_events obj f =
     (let t = denoise (m485Verbose obj) (f @ CRLF) (length f);
          kvs = take (field_limit (mInboxBundle obj)) (parse_lines t)
      in (if mDumpFrameCB obj then [DumpFrame t] else [])
       @ (if crc_verdict kvs
          then (if mOnRecvCommandCB obj
                then [OnRecvCommand (field_text (some_fields kvs) ''cmd'') (some_fields kvs)] else [])
          else SCTP_SetError obj (''crc error,crcLocalCalc=0x'' @ hex_fixed 4 (unat (fields_crc kvs)))))"

section \<open>C strings in the array\<close>

text \<open>A C string of the array as a decomposition of the array.\<close>

lemma c_str_decomp:
  "c_str m i = Some s \<longleftrightarrow> (\<exists>pre post. m = pre @ s @ NUL # post \<and> length pre = i \<and> NUL \<notin> set s)"
proof
  assume "c_str m i = Some s"
  then have nul: "NUL \<in> set (drop i m)" and s: "s = takeWhile (\<lambda>c. c \<noteq> NUL) (drop i m)"
    by (auto simp: c_str_def split: if_splits)
  have "i < length m" using nul by (metis drop_all empty_iff empty_set not_le)
  moreover from nul obtain ys zs where d: "drop i m = ys @ NUL # zs" "NUL \<notin> set ys"
    by (metis split_list_first)
  moreover have "s = ys" using d by (simp add: s takeWhile_nul)
  ultimately show "\<exists>pre post. m = pre @ s @ NUL # post \<and> length pre = i \<and> NUL \<notin> set s"
    by (intro exI [of _ "take i m"] exI [of _ zs]) (auto simp flip: d(1))
next
  assume "\<exists>pre post. m = pre @ s @ NUL # post \<and> length pre = i \<and> NUL \<notin> set s"
  then show "c_str m i = Some s" by (auto simp: c_str_def takeWhile_nul)
qed

lemma c_strI: "NUL \<notin> set s \<Longrightarrow> length pre = i \<Longrightarrow> c_str (pre @ s @ NUL # post) i = Some s"
  by (auto simp: c_str_decomp)

lemma mem_set_mid: "length pre = i \<Longrightarrow> mem_set (pre @ c # post) i d = Some (pre @ d # post)"
  by (auto simp: mem_set_def)

lemma mem_get_mid: "length pre = i \<Longrightarrow> mem_get (pre @ c # post) i = Some c"
  by (auto simp: mem_get_def)

lemma strstr_at_mid:
  "NUL \<notin> set s \<Longrightarrow> length pre = i \<Longrightarrow>
   strstr_at (pre @ s @ NUL # post) i pat = Some (map_option (\<lambda>k. i + k) (strstr s pat))"
  by (simp add: strstr_at_def c_strI)

section \<open>Taking the fields out of the array\<close>

lemma extract_line:
  assumes "NUL \<notin> set l" "length pre = body" "bundle_ok b"
  shows "\<exists>l' b'. length l' = length l \<and> bundle_ok b' \<and> field_limit b' = field_limit b
    \<and> bundle_fields b' = take (field_limit b) (bundle_fields b @ some_fields (parse_line l))
    \<and> store_line (pre @ l @ NUL # post) body b = Some (pre @ l' @ NUL # post, b')"
proof (cases "strstr l ''=''")
  case None
  then show ?thesis
    using assms bnd.flds_limit [OF assms(3)]
    by (intro exI [of _ l] exI [of _ b]) (auto simp: strstr_at_mid parse_line_def store_line_def)
next
  case (Some e)
  define n v where "n = take e l" and "v = drop (Suc e) l"
  have l: "l = n @ CHR ''='' # v" and len: "length n = e"
    using strstr_split [OF Some] strstr_Some_le [OF Some] by (auto simp: n_def v_def)
  have nn: "NUL \<notin> set n" "NUL \<notin> set v" using assms(1) l by auto
  let ?m2 = "pre @ n @ NUL # v @ NUL # post"
  have s: "mem_set (pre @ l @ NUL # post) (body + e) NUL = Some ?m2"
    using mem_set_mid [of "pre @ n" "body + e" "CHR ''=''" "v @ NUL # post" NUL] assms(2) len l by simp
  have cn: "c_str ?m2 body = Some n" using nn assms(2) by (intro c_strI) auto
  have cv: "c_str ?m2 (Suc (body + e)) = Some v"
    using c_strI [OF nn(2), of "pre @ n @ [NUL]" "Suc (body + e)" post] assms(2) len by simp
  obtain r b' where b': "Bundle_Push b (Some n) (Some v) = Some (r, b')" "bundle_ok b'"
    "field_limit b' = field_limit b" "bundle_fields b' = take (field_limit b) (bundle_fields b @ [(n, Some v)])"
    using bnd.push_law [OF assms(3)] by blast
  have "parse_line l = [(n, v)]" using Some by (simp add: parse_line_def n_def v_def)
  moreover have "length (n @ NUL # v) = length l" by (simp add: l)
  moreover have "strstr_at (pre @ l @ NUL # post) body ''='' = Some (Some (body + e))"
    using Some by (simp add: strstr_at_mid assms(1,2))
  ultimately show ?thesis
    using b' s cn cv by (intro exI [of _ "n @ NUL # v"] exI [of _ b']) (simp add: store_line_def)
qed

lemma extract_fields_spec:
  assumes "NUL \<notin> set s" "length pre = body" "bundle_ok b"
  shows "\<exists>s' b'. extract_fields (pre @ s @ NUL # post) body b = Some (pre @ s' @ NUL # post, b')
    \<and> length s' = length s \<and> bundle_ok b' \<and> field_limit b' = field_limit b
    \<and> bundle_fields b' = take (field_limit b) (bundle_fields b @ some_fields (parse_lines s))"
  using assms
proof (induction s arbitrary: pre body b rule: parse_lines.induct)
  case (1 s)
  show ?case
  proof (cases "strstr s CRLF")
    case None
    then have "parse_lines s = []" by (simp add: parse_lines.simps [of s])
    moreover have "mem_get (pre @ s @ NUL # post) body = Some (hd (s @ [NUL]))"
      using "1.prems"(2) mem_get_mid [of pre body] by (cases s) simp_all
    moreover have "strstr_at (pre @ s @ NUL # post) body CRLF = Some None"
      using None by (simp add: strstr_at_mid "1.prems")
    ultimately show ?thesis
      using "1.prems" bnd.flds_limit [OF "1.prems"(3)]
      by (intro exI [of _ s] exI [of _ b]) (simp add: extract_fields.simps [of _ body])
  next
    case (Some k)
    define l r where "l = take k s" and "r = drop (k + 2) s"
    have s: "s = l @ CR # LF # r" and len: "length l = k"
      using strstr_split [OF Some] strstr_Some_le [OF Some] by (auto simp: l_def r_def)
    have nn: "NUL \<notin> set l" "NUL \<notin> set r" using "1.prems"(1) s by auto
    obtain l' b1 where l': "length l' = length l" "bundle_ok b1" "field_limit b1 = field_limit b"
      "bundle_fields b1 = take (field_limit b) (bundle_fields b @ some_fields (parse_line l))"
      and run: "store_line (pre @ l @ NUL # LF # r @ NUL # post) body b
          = Some (pre @ l' @ NUL # LF # r @ NUL # post, b1)"
      using extract_line [OF nn(1) "1.prems"(2,3), of "LF # r @ NUL # post"] by blast
    obtain r' b2 where r': "extract_fields ((pre @ l' @ [NUL, LF]) @ r @ NUL # post) (body + k + 2) b1
        = Some ((pre @ l' @ [NUL, LF]) @ r' @ NUL # post, b2)" "length r' = length r" "bundle_ok b2"
      "field_limit b2 = field_limit b1"
      "bundle_fields b2 = take (field_limit b1) (bundle_fields b1 @ some_fields (parse_lines r))"
      using "1.IH" [OF Some, of "pre @ l' @ [NUL, LF]" "body + k + 2" b1] nn l'(1,2) len "1.prems"(2)
      by (auto simp: r_def)
    obtain x t where xt: "s = x # t" using strstr_Some_le [OF Some] by (cases s) auto
    then have "mem_get (pre @ s @ NUL # post) body = Some x" "x \<noteq> NUL"
      using "1.prems"(1) mem_get_mid [OF "1.prems"(2)] by auto
    moreover have "strstr_at (pre @ s @ NUL # post) body CRLF = Some (Some (body + k))"
      using strstr_at_mid [OF "1.prems"(1,2)] Some by simp
    moreover have "mem_set (pre @ s @ NUL # post) (body + k) NUL = Some (pre @ l @ NUL # LF # r @ NUL # post)"
      using mem_set_mid [of "pre @ l" "body + k" CR "LF # r @ NUL # post" NUL] len "1.prems"(2) by (simp add: s)
    ultimately have "extract_fields (pre @ s @ NUL # post) body b
        = extract_fields (pre @ l' @ NUL # LF # r @ NUL # post) (body + k + 2) b1"
      using run by (subst extract_fields.simps) (auto simp: bind_eq_Some_conv split: option.splits)
    moreover have "take (field_limit b) (bundle_fields b1 @ some_fields (parse_lines r))
        = take (field_limit b) (bundle_fields b @ some_fields (parse_lines s))"
    proof -
      have "some_fields (parse_lines s) = some_fields (parse_line l) @ some_fields (parse_lines r)"
        using Some by (simp add: parse_lines.simps [of s] l_def r_def)
      then show ?thesis by (simp only: l'(4) take_take_append append_assoc)
    qed
    ultimately show ?thesis
      using r' l' len by (intro exI [of _ "l' @ NUL # LF # r'"] exI [of _ b2]) (auto simp: s)
  qed
qed

section \<open>Skipping the noise in front of a command\<close>

lemma list4_cases:
  obtains "xs = []" | a where "xs = [a]" | a b where "xs = [a, b]" | a b c where "xs = [a, b, c]"
  | a b c d r where "xs = a # b # c # d # r"
  by (metis list.exhaust)

lemma not_cmd_spec:
  assumes "NUL \<notin> set s" "length pre = i"
  shows "not_cmd (pre @ s @ NUL # post) i = Some (\<not> prefix ''cmd='' s)"
  using assms(1)
  by (cases s rule: list4_cases) (auto simp: not_cmd_def mem_get_def nth_append assms(2) [symmetric])

lemma skip_noise_spec:
  assumes "NUL \<notin> set (t @ u)" "length pre = body"
  shows "\<exists>j s. skip_noise v (pre @ t @ u @ NUL # post) body (body + length t) = Some (body + j)
    \<and> j \<le> length t \<and> s = drop j (t @ u) \<and> denoise v (t @ u) (length t) = s"
  using assms
proof (induction t arbitrary: pre body)
  case Nil
  have "mem_get (pre @ u @ NUL # post) body = Some (hd (u @ [NUL]))"
    using Nil.prems(2) mem_get_mid [of pre body] by (cases u) simp_all
  then show ?case by (simp add: skip_noise.simps [of _ _ body])
next
  case (Cons c t)
  let ?m = "pre @ (c # t) @ u @ NUL # post"
  have c: "c \<noteq> NUL" using Cons.prems(1) by auto
  have get: "mem_get ?m body = Some c" using mem_get_mid [OF Cons.prems(2)] by simp
  have nc: "not_cmd ?m body = Some (\<not> prefix ''cmd='' (c # t @ u))"
    using not_cmd_spec [of "c # t @ u" pre body post] Cons.prems by simp
  show ?case
  proof (cases "noise_at v (c # t @ u)")
    case True
    obtain j where j: "skip_noise v ((pre @ [c]) @ t @ u @ NUL # post) (Suc body) (Suc body + length t)
        = Some (Suc body + j)" "j \<le> length t" "denoise v (t @ u) (length t) = drop j (t @ u)"
      using Cons.IH [of "pre @ [c]" "Suc body"] Cons.prems by auto
    have "skip_noise v ?m body (body + length (c # t)) = skip_noise v ?m (Suc body) (Suc body + length t)"
      using True c get nc by (subst skip_noise.simps) (auto simp: noise_at_def)
    then show ?thesis using j True by (intro exI [of _ "Suc j"]) auto
  next
    case False
    then have "skip_noise v ?m body (body + length (c # t)) = Some body"
      using c get nc by (subst skip_noise.simps) (auto simp: noise_at_def)
    then show ?thesis using False by (intro exI [of _ 0]) auto
  qed
qed

section \<open>One frame\<close>

lemma SCTP_CheckCrc_spec:
  assumes "bundle_ok b" "bundle_fields b = some_fields kvs"
  shows "SCTP_CheckCrc b = Some (if crc_verdict kvs then 0 else -1, fields_crc kvs)"
  using crc_items_spec [OF items_are_bundle [OF assms]] assms
  by (simp add: SCTP_CheckCrc_def bundle_items_ok Bundle_GetString_spec fields_crc_def crc_verdict_def Let_def)

text \<open>
  A frame at the front of the inbox: the events are those of the reference, and what the
  parser leaves behind is the same buffer with only bytes of the frame changed.
\<close>

lemma parse_frame_spec:
  assumes ok: "sctp_ok obj" and d: "bb_data (mInbox obj) = f @ TAIL @ rest"
  shows "\<exists>obj'. parse_frame obj (unat (mOffset (mInbox obj))) (unat (mOffset (mInbox obj)) + length f)
        = Some (obj', frame_events obj f)
    \<and> bb_ok (mInbox obj') \<and> (\<exists>g. length g = length f + 4 \<and> bb_data (mInbox obj') = g @ rest)
    \<and> mTotalBytes (mInbox obj') = mTotalBytes (mInbox obj)
    \<and> bundle_ok (mInboxBundle obj') \<and> field_limit (mInboxBundle obj') = field_limit (mInboxBundle obj)
    \<and> (\<exists>i b. obj' = obj\<lparr>mInbox := i, mInboxBundle := b\<rparr>)"
proof -
  let ?i = "mInbox obj" and ?off = "unat (mOffset (mInbox obj))" and ?n = "unat (mBytes (mInbox obj))"
  have oki: "bb_ok ?i" and okb: "bundle_ok (mInboxBundle obj)" and nz: "NUL \<notin> set (bb_data ?i)"
    using ok by (auto simp: sctp_ok_def)
  obtain m where m: "mBuf ?i = Some m" using oki by (auto simp: bb_ok_def)
  obtain pre post where dec: "m = pre @ bb_data ?i @ NUL # post" "length pre = ?off"
    using bb_c_str [OF oki nz m] by (auto simp: c_str_decomp)
  have n: "?n = length f + 4 + length rest" using bb_data_length [OF oki] d by simp
  define m1 where "m1 = pre @ f @ CRLF @ NUL # LF # rest @ NUL # post"
  have set1: "mem_set m (?off + length f + 2) NUL = Some m1"
    using mem_set_mid [of "pre @ f @ CRLF" "?off + length f + 2" CR "LF # rest @ NUL # post" NUL] dec d
    by (simp add: m1_def)
  have nf: "NUL \<notin> set (f @ CRLF)" using nz d by auto
  obtain j where j: "skip_noise (m485Verbose obj) m1 ?off (?off + length f) = Some (?off + j)" "j \<le> length f"
    "denoise (m485Verbose obj) (f @ CRLF) (length f) = drop j (f @ CRLF)"
    using skip_noise_spec [OF nf dec(2)] unfolding m1_def by fastforce
  define t where "t = drop j (f @ CRLF)"
  define pre1 where "pre1 = pre @ take j (f @ CRLF)"
  have m1: "m1 = pre1 @ t @ NUL # LF # rest @ NUL # post"
  proof -
    have "pre1 @ t = pre @ f @ CRLF" by (simp only: pre1_def t_def append_assoc append_take_drop_id)
    moreover have "m1 = (pre @ f @ CRLF) @ NUL # LF # rest @ NUL # post" by (simp add: m1_def)
    ultimately show ?thesis by (metis append_assoc)
  qed
  have len1: "length pre1 = ?off + j" using dec(2) j(2) by (simp add: pre1_def)
  have nt: "NUL \<notin> set t" using nf by (auto simp: t_def dest: in_set_dropD)
  let ?b0 = "Bundle_clear (mInboxBundle obj)" and ?lim = "field_limit (mInboxBundle obj)"
  have b0: "bundle_ok ?b0" "bundle_fields ?b0 = []" "field_limit ?b0 = ?lim"
    using Bundle_clear_spec [OF okb] by auto
  obtain t' b where t': "extract_fields m1 (?off + j) ?b0 = Some (pre1 @ t' @ NUL # LF # rest @ NUL # post, b)"
    "length t' = length t" "bundle_ok b" "field_limit b = ?lim"
    and bf: "bundle_fields b = some_fields (take ?lim (parse_lines t))"
    using extract_fields_spec [OF nt len1 b0(1), of "LF # rest @ NUL # post"] b0(2,3) m1 by auto
  define g where "g = take j (f @ CRLF) @ t' @ [NUL, LF]"
  let ?m2 = "pre @ g @ rest @ NUL # post"
  let ?i2 = "?i\<lparr>mBuf := Some ?m2\<rparr>"
  have lg: "length g = length f + 4" using j(2) t'(2) by (simp add: g_def t_def)
  have c: "c_str m1 (?off + j) = Some t" unfolding m1 by (rule c_strI [OF nt len1])
  have e: "extract_fields m1 (?off + j) ?b0 = Some (?m2, b)" using t'(1) by (simp add: pre1_def g_def)
  define kvs where "kvs = take ?lim (parse_lines t)"
  have fe: "frame_events obj f = (if mDumpFrameCB obj then [DumpFrame t] else [])
      @ (if crc_verdict kvs
         then (if mOnRecvCommandCB obj
               then [OnRecvCommand (field_text (some_fields kvs) ''cmd'') (some_fields kvs)] else [])
         else SCTP_SetError obj (''crc error,crcLocalCalc=0x'' @ hex_fixed 4 (unat (fields_crc kvs))))"
    unfolding frame_events_def j(3) t_def [symmetric] kvs_def Let_def ..
  have run: "parse_frame obj ?off (?off + length f)
      = Some (obj\<lparr>mInbox := ?i2, mInboxBundle := Bundle_clear b\<rparr>, frame_events obj f)"
    by (simp add: parse_frame_def m set1 [simplified] j(1) c e SCTP_CheckCrc_spec [OF t'(3) bf]
        Bundle_GetString_spec [OF t'(3)] bf fe flip: kvs_def)
  have "bb_data ?i2 = g @ rest" using n lg dec(2) by (simp add: bb_data_def)
  moreover have "bb_ok ?i2"
    using oki m dec d n lg by (auto simp: bb_ok_def nth_append)
  ultimately show ?thesis
    using run lg Bundle_clear_spec [OF t'(3)] t'(4) by auto
qed

section \<open>All frames of the inbox\<close>

text \<open>The parser changes nothing but the inbox and its bundle, and keeps their sizes.\<close>

definition same_setup :: "tagSCTP \<Rightarrow> tagSCTP \<Rightarrow> bool" where
  "same_setup obj obj' \<longleftrightarrow> mOutbox obj' = mOutbox obj \<and> mOutboxBundle obj' = mOutboxBundle obj
     \<and> mSeq obj' = mSeq obj \<and> mDisableSeq obj' = mDisableSeq obj \<and> m485Verbose obj' = m485Verbose obj
     \<and> mOnRecvCommandCB obj' = mOnRecvCommandCB obj \<and> mOnErrorCB obj' = mOnErrorCB obj
     \<and> mDumpFrameCB obj' = mDumpFrameCB obj
     \<and> bb_cap (mInbox obj') = bb_cap (mInbox obj)
     \<and> field_limit (mInboxBundle obj') = field_limit (mInboxBundle obj)"

lemma same_setup_refl [simp]: "same_setup obj obj"
  by (simp add: same_setup_def)

lemma same_setup_trans: "same_setup a b \<Longrightarrow> same_setup b c \<Longrightarrow> same_setup a c"
  by (simp add: same_setup_def)

lemma frame_events_setup: "same_setup obj obj' \<Longrightarrow> frame_events obj' f = frame_events obj f"
  by (simp add: frame_events_def same_setup_def SCTP_SetError_def cong: if_cong)

definition run_events :: "tagSCTP \<Rightarrow> string list \<Rightarrow> sctp_event list" where
  "run_events obj fs = concat (map (frame_events obj) fs)"

lemma SCTP_Parse_spec:
  assumes "sctp_ok obj"
  shows "\<exists>obj'. SCTP_Parse obj = Some (obj', run_events obj (fst (split_frames (bb_data (mInbox obj)))))
    \<and> sctp_ok obj' \<and> bb_data (mInbox obj') = snd (split_frames (bb_data (mInbox obj))) \<and> same_setup obj obj'"
  using assms
proof (induction "length (bb_data (mInbox obj))" arbitrary: obj rule: less_induct)
  case less
  let ?i = "mInbox obj" and ?d = "bb_data (mInbox obj)"
  have oki: "bb_ok ?i" and nz: "NUL \<notin> set ?d" using less.prems by (auto simp: sctp_ok_def)
  obtain m where m: "mBuf ?i = Some m" using oki by (auto simp: bb_ok_def)
  have at: "strstr_at m (unat (mOffset ?i)) TAIL = Some (map_option (\<lambda>k. unat (mOffset ?i) + k) (strstr ?d TAIL))"
    by (simp add: strstr_at_def bb_c_str [OF oki nz m])
  show ?case
  proof (cases "strstr ?d TAIL")
    case None
    then have "split_frames ?d = ([], ?d)" by (simp add: split_frames.simps [of ?d])
    moreover have "SCTP_Parse obj = Some (obj, [])"
      using None at m ByteBuffer_empty_iff [OF oki]
      by (simp add: SCTP_Parse.simps [of obj] ByteBuffer_GetData_def ByteBuffer_empty_def)
    ultimately show ?thesis using less.prems by (simp add: run_events_def)
  next
    case (Some k)
    define f rest where "f = take k ?d" and "rest = drop (k + 4) ?d"
    have "k + length TAIL = k + 4" by simp
    then have d: "?d = f @ TAIL @ rest" and lf: "length f = k"
      using strstr_split [OF Some] strstr_Some_le [OF Some] by (simp_all only: f_def rest_def length_take)
    obtain obj1 g where obj1: "parse_frame obj (unat (mOffset ?i)) (unat (mOffset ?i) + length f)
          = Some (obj1, frame_events obj f)" "bb_ok (mInbox obj1)" "length g = length f + 4"
        "bb_data (mInbox obj1) = g @ rest" "mTotalBytes (mInbox obj1) = mTotalBytes ?i"
        "bundle_ok (mInboxBundle obj1)" "field_limit (mInboxBundle obj1) = field_limit (mInboxBundle obj)"
        "\<exists>i b. obj1 = obj\<lparr>mInbox := i, mInboxBundle := b\<rparr>"
      using parse_frame_spec [OF less.prems d] by blast
    have small: "k + 4 < 65536" using strstr_Some_le [OF Some] bb_data_le_cap [OF oki] bb_cap_bound [of ?i] by simp
    obtain i2 where i2: "ByteBuffer_Eat (mInbox obj1) (of_nat (k + 4)) = Some (of_nat (k + 4), i2)" "bb_ok i2"
      "bb_data i2 = rest" "bb_cap i2 = bb_cap ?i"
      using bbq.eat_law [OF obj1(2), of "of_nat (k + 4)"] obj1(3-5) lf unat_u16_of_nat [OF small]
      by (auto simp: bb_cap_def simp del: of_nat_add)
    let ?obj2 = "obj1\<lparr>mInbox := i2\<rparr>"
    have ok2: "sctp_ok ?obj2" and s2: "same_setup obj ?obj2"
      using less.prems obj1(6-8) i2(2-4) nz d by (auto simp: sctp_ok_def same_setup_def)
    have "length rest < length ?d" using d by simp
    then obtain obj' where obj': "SCTP_Parse ?obj2 = Some (obj', run_events ?obj2 (fst (split_frames rest)))"
      "sctp_ok obj'" "bb_data (mInbox obj') = snd (split_frames rest)" "same_setup ?obj2 obj'"
      using less.hyps [of ?obj2] ok2 i2(3) by auto
    have "SCTP_Parse obj = Some (obj', frame_events obj f @ run_events ?obj2 (fst (split_frames rest)))"
      using Some at m obj1(1) i2(1) obj'(1) lf d ByteBuffer_empty_iff [OF oki]
      by (subst SCTP_Parse.simps) (simp add: ByteBuffer_GetData_def ByteBuffer_empty_def del: of_nat_add)
    moreover have "split_frames ?d = (f # fst (split_frames rest), snd (split_frames rest))"
      using Some by (simp add: split_frames.simps [of ?d] f_def rest_def split_beta)
    moreover have "run_events ?obj2 fs = run_events obj fs" for fs
      by (simp add: run_events_def frame_events_setup [OF s2] cong: map_cong)
    ultimately show ?thesis
      using obj'(2-4) same_setup_trans [OF s2] by (auto simp: run_events_def)
  qed
qed

section \<open>Pieces of input\<close>

lemma mask_nul_simps [simp]: "length (mask_nul xs) = length xs" "NUL \<notin> set (mask_nul xs)"
  "mask_nul (xs @ ys) = mask_nul xs @ mask_nul ys" "mask_nul [] = []"
  by (auto simp: mask_nul_def)

lemma SCTP_InputDataImpl_fits:
  assumes ok: "sctp_ok obj" and fits: "length (bb_data (mInbox obj)) + length inp \<le> bb_cap (mInbox obj)"
  defines "sf \<equiv> split_frames (bb_data (mInbox obj) @ mask_nul inp)"
  shows "\<exists>obj'. SCTP_InputDataImpl obj inp = Some (0, obj', run_events obj (fst sf))
    \<and> sctp_ok obj' \<and> bb_data (mInbox obj') = snd sf \<and> same_setup obj obj'"
proof -
  obtain i where i: "ByteBuffer_Input (mInbox obj) (mask_nul inp) = Some (int (length inp), i)" "bb_ok i"
    "bb_data i = bb_data (mInbox obj) @ mask_nul inp" "bb_cap i = bb_cap (mInbox obj)"
    using bbq.put_fits [of "mInbox obj" "mask_nul inp"] ok fits by (metis sctp_ok_def mask_nul_simps(1))
  let ?obj = "obj\<lparr>mInbox := i\<rparr>"
  have ok1: "sctp_ok ?obj" and s1: "same_setup obj ?obj"
    using ok i by (auto simp: sctp_ok_def same_setup_def)
  obtain obj' where "SCTP_Parse ?obj = Some (obj', run_events ?obj (fst sf))" "sctp_ok obj'"
    "bb_data (mInbox obj') = snd sf" "same_setup ?obj obj'"
    using SCTP_Parse_spec [OF ok1] i(3) by (auto simp: sf_def)
  moreover have "run_events ?obj fs = run_events obj fs" for fs
    by (simp add: run_events_def frame_events_setup [OF s1] cong: map_cong)
  ultimately show ?thesis
    using i(1) same_setup_trans [OF s1] by (auto simp: SCTP_InputDataImpl_def ByteBuffer_Write_def)
qed

text \<open>A piece that does not fit loses the whole inbox: it is reported, and the object is reset.\<close>

lemma SCTP_InputDataImpl_overflow:
  assumes ok: "sctp_ok obj" and len: "length inp < 65536"
    and big: "bb_cap (mInbox obj) < length (bb_data (mInbox obj)) + length inp"
  shows "\<exists>obj'. SCTP_InputDataImpl obj inp = Some (-1, obj', SCTP_SetError obj ''data/protocol error'')
    \<and> sctp_ok obj' \<and> bb_data (mInbox obj') = [] \<and> mSeq obj' = 0"
proof -
  obtain n i where i: "ByteBuffer_Input (mInbox obj) (mask_nul inp) = Some (n, i)" "n < int (length inp)" "bb_ok i"
    using bbq.put_overflow [of "mInbox obj" "mask_nul inp"] ok len big by (metis sctp_ok_def mask_nul_simps(1))
  obtain i' where i': "ByteBuffer_clear i = Some i'" "bb_ok i'" "bb_data i' = []"
    using ByteBuffer_clear_spec [OF i(3)] by blast
  obtain u where u: "ByteBuffer_clear (mOutbox obj) = Some u" "bb_ok u"
    using ByteBuffer_clear_spec ok by (metis sctp_ok_def)
  show ?thesis
    using i(1,2) i' u ok Bundle_clear_spec
    by (auto simp: SCTP_InputDataImpl_def ByteBuffer_Write_def SCTP_clear_def SCTP_SetError_def sctp_ok_def Let_def)
qed

section \<open>Cutting the input into pieces\<close>

lemma split_frames_append:
  "split_frames (a @ b)
    = (let (fs, r) = split_frames a; (gs, r') = split_frames (r @ b) in (fs @ gs, r'))"
proof (induction a rule: split_frames.induct)
  case (1 a)
  show ?case
  proof (cases "strstr a TAIL")
    case None
    then show ?thesis by (simp add: split_frames.simps [of a] split_beta)
  next
    case (Some k)
    have k: "k + 4 \<le> length a" using strstr_Some_le [OF Some] by simp
    show ?thesis
      using Some strstr_append [OF Some, of b] k "1.IH" [OF Some]
      by (simp add: split_frames.simps [of a] split_frames.simps [of "a @ b"] split_beta Let_def)
  qed
qed

lemma split_frames_rest: "strstr (snd (split_frames s)) TAIL = None"
proof (induction s rule: split_frames.induct)
  case (1 s)
  then show ?case
    by (cases "strstr s TAIL") (simp_all add: split_frames.simps [of s] split_beta)
qed

lemma split_frames_rest_le: "length (snd (split_frames s)) \<le> length s"
proof (induction s rule: split_frames.induct)
  case (1 s)
  show ?case
  proof (cases "strstr s TAIL")
    case None
    then show ?thesis by (simp add: split_frames.simps [of s])
  next
    case (Some k)
    then show ?thesis using "1.IH" [OF Some] by (simp add: split_frames.simps [of s] split_beta)
  qed
qed

text \<open>
  What is pending after a part of a stream is the start of a frame of the stream, or of its
  unfinished end, so a bound on those bounds what is pending.
\<close>

lemma pending_bound:
  assumes fs: "\<And>f. f \<in> set (fst (split_frames (p @ q))) \<Longrightarrow> length f + 4 \<le> M"
    and rest: "length (snd (split_frames (p @ q))) \<le> M"
  shows "length (snd (split_frames p)) \<le> M"
proof -
  let ?r = "snd (split_frames p)"
  have app: "split_frames (p @ q) = (fst (split_frames p) @ fst (split_frames (?r @ q)), snd (split_frames (?r @ q)))"
    by (subst split_frames_append) (simp add: split_beta)
  show ?thesis
  proof (cases "strstr (?r @ q) TAIL")
    case None
    then show ?thesis using rest app by (simp add: split_frames.simps [of "?r @ q"])
  next
    case (Some k)
    then have "take k (?r @ q) \<in> set (fst (split_frames (?r @ q)))"
      by (simp add: split_frames.simps [of "?r @ q"] split_beta)
    then have "take k (?r @ q) \<in> set (fst (split_frames (p @ q)))" unfolding app by simp
    then have "length (take k (?r @ q)) + 4 \<le> M" by (rule fs)
    moreover have "k \<le> length (?r @ q)" using strstr_Some_le [OF Some] by simp
    moreover have "length ?r < k + 4"
    proof (rule ccontr)
      assume "\<not> length ?r < k + 4"
      then have "prefix TAIL (drop k ?r)"
        using strstr_Some_prefix [OF Some] prefix_length_prefix [of TAIL "drop k ?r @ q" "drop k ?r"]
        by (simp add: prefix_def)
      then show False using strstr_None [OF split_frames_rest] by blast
    qed
    ultimately show ?thesis by simp
  qed
qed

text \<open>The pieces of one call fit: each of them, together with what is pending before it.\<close>

function pieces_fit :: "nat \<Rightarrow> string \<Rightarrow> string \<Rightarrow> bool" where
  "pieces_fit cap d inp =
     (if inp = [] then True
      else length d + length (take 1024 inp) \<le> cap
        \<and> pieces_fit cap (snd (split_frames (d @ mask_nul (take 1024 inp)))) (drop 1024 inp))"
  by pat_completeness auto
termination by (relation "measure (\<lambda>(c, d, t). length t)") auto

declare pieces_fit.simps [simp del]

lemma SCTP_InputData_spec:
  assumes "sctp_ok obj" "pieces_fit (bb_cap (mInbox obj)) (bb_data (mInbox obj)) inp"
    "strstr (bb_data (mInbox obj)) TAIL = None"
  shows "\<exists>obj'. SCTP_InputData obj inp
        = Some (obj', mask_nul inp, run_events obj (fst (split_frames (bb_data (mInbox obj) @ mask_nul inp))))
    \<and> sctp_ok obj' \<and> bb_data (mInbox obj') = snd (split_frames (bb_data (mInbox obj) @ mask_nul inp))
    \<and> same_setup obj obj'"
  using assms
proof (induction "length inp" arbitrary: obj inp rule: less_induct)
  case less
  let ?d = "bb_data (mInbox obj)"
  show ?case
  proof (cases "inp = []")
    case True
    then show ?thesis
      using less.prems by (simp add: SCTP_InputData.simps [of obj] split_frames.simps [of ?d] run_events_def)
  next
    case False
    define a b where "a = take 1024 inp" and "b = drop 1024 inp"
    have ab: "mask_nul inp = mask_nul a @ mask_nul b" "inp = a @ b" "length b < length inp"
      using False by (auto simp: a_def b_def simp flip: mask_nul_simps(3))
    have fit: "length ?d + length a \<le> bb_cap (mInbox obj)"
      "pieces_fit (bb_cap (mInbox obj)) (snd (split_frames (?d @ mask_nul a))) b"
      using less.prems(2) False by (subst (asm) pieces_fit.simps; simp add: a_def b_def)+
    obtain obj1 where obj1: "SCTP_InputDataImpl obj a = Some (0, obj1, run_events obj (fst (split_frames (?d @ mask_nul a))))"
      "sctp_ok obj1" "bb_data (mInbox obj1) = snd (split_frames (?d @ mask_nul a))" "same_setup obj obj1"
      using SCTP_InputDataImpl_fits [OF less.prems(1) fit(1)] by blast
    have cap: "bb_cap (mInbox obj1) = bb_cap (mInbox obj)" using obj1(4) by (simp add: same_setup_def)
    obtain obj2 where obj2: "SCTP_InputData obj1 b = Some (obj2, mask_nul b,
        run_events obj1 (fst (split_frames (bb_data (mInbox obj1) @ mask_nul b))))" "sctp_ok obj2"
      "bb_data (mInbox obj2) = snd (split_frames (bb_data (mInbox obj1) @ mask_nul b))" "same_setup obj1 obj2"
      using less.hyps [OF ab(3) obj1(2)] fit(2) cap split_frames_rest obj1(3) by metis
    have ev: "run_events obj1 fs = run_events obj fs" for fs
      by (simp add: run_events_def frame_events_setup [OF obj1(4)] cong: map_cong)
    have "split_frames (?d @ mask_nul inp)
        = (fst (split_frames (?d @ mask_nul a)) @ fst (split_frames (bb_data (mInbox obj1) @ mask_nul b)),
           snd (split_frames (bb_data (mInbox obj1) @ mask_nul b)))"
      using split_frames_append [of "?d @ mask_nul a" "mask_nul b"] obj1(3) by (simp add: ab(1) split_beta)
    moreover have "SCTP_InputData obj inp = Some (obj2, mask_nul inp,
        run_events obj (fst (split_frames (?d @ mask_nul a)))
          @ run_events obj (fst (split_frames (bb_data (mInbox obj1) @ mask_nul b))))"
      using False obj1(1) obj2(1) ab(1) by (simp add: SCTP_InputData.simps [of obj inp] ev flip: a_def b_def)
    ultimately show ?thesis
      using obj2(2-4) same_setup_trans [OF obj1(4)] by (simp add: run_events_def)
  qed
qed

lemma pieces_fit_total: "length d + length inp \<le> cap \<Longrightarrow> pieces_fit cap d inp"
proof (induction cap d inp rule: pieces_fit.induct)
  case (1 cap d inp)
  show ?case
  proof (cases "inp = []")
    case True
    then show ?thesis by (simp add: pieces_fit.simps)
  next
    case False
    let ?a = "take 1024 inp"
    have "length (snd (split_frames (d @ mask_nul ?a))) + length (drop 1024 inp) \<le> cap"
      using split_frames_rest_le [of "d @ mask_nul ?a"] "1.prems" by simp
    then have "pieces_fit cap (snd (split_frames (d @ mask_nul ?a))) (drop 1024 inp)"
      using "1.IH" [OF False] "1.prems" by simp
    then show ?thesis using False "1.prems" by (subst pieces_fit.simps) simp
  qed
qed

lemma pieces_fit_frames:
  assumes "\<And>f. f \<in> set (fst (split_frames (d @ mask_nul inp))) \<Longrightarrow> length f + 4 \<le> M"
    and "length (snd (split_frames (d @ mask_nul inp))) \<le> M" and "M + 1024 \<le> cap"
    and "strstr d TAIL = None"
  shows "pieces_fit cap d inp"
  using assms
proof (induction cap d inp rule: pieces_fit.induct)
  case (1 cap d inp)
  show ?case
  proof (cases "inp = []")
    case True
    then show ?thesis by (simp add: pieces_fit.simps)
  next
    case False
    let ?a = "take 1024 inp" and ?b = "drop 1024 inp"
    let ?r = "snd (split_frames (d @ mask_nul ?a))"
    have dM: "length d \<le> M"
      using pending_bound [OF "1.prems"(1,2)] "1.prems"(4) by (simp add: split_frames.simps [of d])
    have ab: "mask_nul inp = mask_nul ?a @ mask_nul ?b" by (simp flip: mask_nul_simps(3))
    have app: "split_frames (d @ mask_nul inp)
        = (fst (split_frames (d @ mask_nul ?a)) @ fst (split_frames (?r @ mask_nul ?b)), snd (split_frames (?r @ mask_nul ?b)))"
      using split_frames_append [of "d @ mask_nul ?a" "mask_nul ?b"] by (simp add: ab split_beta)
    have len: "length d + length ?a \<le> cap" using dM "1.prems"(3) by simp
    have "pieces_fit cap ?r ?b"
    proof (rule "1.IH" [OF False])
      show "length f + 4 \<le> M" if "f \<in> set (fst (split_frames (?r @ mask_nul ?b)))" for f
        using that "1.prems"(1) [of f] unfolding app by simp
      show "length (snd (split_frames (?r @ mask_nul ?b))) \<le> M" using "1.prems"(2) unfolding app by simp
    qed (use "1.prems"(3) split_frames_rest in simp_all)
    then show ?thesis using False len by (subst pieces_fit.simps) simp
  qed
qed

end
