(* ===== verification/SctpObject.thy ===== *)
theory SctpObject
  imports SctpReceiver
begin

text \<open>
  The C++ class \<open>Sctp\<close> (\<^verbatim>\<open>src/src/core/protocol/sctp/sctp.cpp\<close>) that applications use: it owns the
  boxes and the items of one protocol object, with fixed sizes, and fills the outbox bundle.
\<close>

section \<open>The class\<close>

record Sctp =
  mObject :: tagSCTP
  mEnableSeq :: bool
  mDumpCrcError :: bool

text \<open>The constructor; the arrays are members without an initialiser, so their contents are arguments.\<close>

definition Sctp_new :: Sctp where
  "Sctp_new = \<lparr>mObject = SCTP_Create, mEnableSeq = True, mDumpCrcError = True\<rparr>"

definition Sctp_Create :: "memory \<Rightarrow> memory \<Rightarrow> tagKeyValue list \<Rightarrow> tagKeyValue list \<Rightarrow> Sctp \<Rightarrow> Sctp option" where
  "Sctp_Create inArr outArr inItems outItems this = do {
     let obj = SCTP_Create;
     inbox \<leftarrow> ByteBuffer_Init ByteBuffer_Create inArr 3000;
     outbox \<leftarrow> ByteBuffer_Init ByteBuffer_Create outArr 3000;
     inb \<leftarrow> Bundle_Create inItems 16;
     outb \<leftarrow> Bundle_Create outItems 16;
     Some (this\<lparr>mObject := obj\<lparr>mInbox := inbox, mOutbox := outbox, mInboxBundle := inb, mOutboxBundle := outb,
                            mOnRecvCommandCB := True, mOnErrorCB := True\<rparr>\<rparr>)
   }"

definition Sctp_Enable485VerboseMode :: "Sctp \<Rightarrow> Sctp" where
  "Sctp_Enable485VerboseMode this = this\<lparr>mObject := SCTP_Enable485Verbose (mObject this)\<rparr>"

definition Sctp_clear :: "Sctp \<Rightarrow> Sctp option" where
  "Sctp_clear this = do { obj \<leftarrow> SCTP_clear (mObject this); Some (this\<lparr>mObject := obj\<rparr>) }"

definition Sctp_InputData :: "Sctp \<Rightarrow> char list \<Rightarrow> (Sctp \<times> char list \<times> sctp_event list) option" where
  "Sctp_InputData this inp = do {
     (obj, arr, ev) \<leftarrow> SCTP_InputData (mObject this) inp;
     Some (this\<lparr>mObject := obj\<rparr>, arr, ev)
   }"

definition Sctp_CheckCrc :: "Sctp \<Rightarrow> int option" where
  "Sctp_CheckCrc this = do { (r, _) \<leftarrow> SCTP_CheckCrc (mInboxBundle (mObject this)); Some r }"

definition Sctp_AddField :: "Sctp \<Rightarrow> string option \<Rightarrow> string option \<Rightarrow> (int \<times> Sctp) option" where
  "Sctp_AddField this n v = do {
     (ret, b) \<leftarrow> Bundle_Push (mOutboxBundle (mObject this)) n v;
     Some (ret, this\<lparr>mObject := (mObject this)\<lparr>mOutboxBundle := b\<rparr>\<rparr>)
   }"

definition Sctp_PrepareCreateOutboxData :: "Sctp \<Rightarrow> Sctp option" where
  "Sctp_PrepareCreateOutboxData this = do {
     outbox \<leftarrow> ByteBuffer_clear (mOutbox (mObject this));
     let obj = (mObject this)\<lparr>mOutbox := outbox\<rparr>;
     Some (this\<lparr>mObject := obj\<lparr>mOutboxBundle := Bundle_clear (mOutboxBundle obj)\<rparr>\<rparr>)
   }"

text \<open>The result is the outbox, with the sequence number that is stored through \<open>ackSeq\<close>.\<close>

definition Sctp_CreateOutboxData :: "Sctp \<Rightarrow> (tagByteBuffer \<times> int \<times> Sctp) option" where
  "Sctp_CreateOutboxData this = do {
     let obj = (mObject this)\<lparr>mDisableSeq := \<not> mEnableSeq this\<rparr>;
     (_, obj) \<leftarrow> SCTP_CreateOutboxData obj;
     Some (mOutbox obj, uint (mSeq obj), this\<lparr>mObject := obj\<rparr>)
   }"

text \<open>
  The result of \<^verbatim>\<open>strcmp\<close> is compared with \<open>-1\<close>. Of a negative result the C standard says no
  more than that it is negative, so the function is an argument here.
\<close>

definition Sctp_CreateAckOutboxData ::
    "(string \<Rightarrow> string \<Rightarrow> int) \<Rightarrow> Sctp \<Rightarrow> tagBundle \<Rightarrow> (tagByteBuffer \<times> int \<times> Sctp) option" where
  "Sctp_CreateAckOutboxData strcmp this activeBundle = do {
     let bundle = mOutboxBundle (mObject this);
     cmd \<leftarrow> Bundle_GetString bundle ''cmd'';
     this \<leftarrow> (if strcmp cmd ''.Ack'' \<noteq> -1 \<and> mEnableSeq this
              then do {
                sq \<leftarrow> Bundle_GetString activeBundle ''seq'';
                (_, bundle) \<leftarrow> Bundle_Push bundle (Some ''seq'') (Some sq);
                Some (this\<lparr>mObject := (mObject this)\<lparr>mOutboxBundle := bundle\<rparr>\<rparr>)
              }
              else Some this);
     Sctp_CreateOutboxData this
   }"

section \<open>What the constructor sets up\<close>

lemma Sctp_Create_spec:
  assumes "length inArr = 3000" "length outArr = 3000" "length inItems = 16" "length outItems = 16"
  obtains this' where "Sctp_Create inArr outArr inItems outItems this = Some this'"
    "sctp_ok (mObject this')" "bb_data (mInbox (mObject this')) = []"
    "bb_cap (mInbox (mObject this')) = 2999" "bb_cap (mOutbox (mObject this')) = 2999"
    "bundle_fields (mOutboxBundle (mObject this')) = []"
    "field_limit (mInboxBundle (mObject this')) = 16" "field_limit (mOutboxBundle (mObject this')) = 16"
    "mSeq (mObject this') = 0" "\<not> m485Verbose (mObject this')" "\<not> mDumpFrameCB (mObject this')"
    "mOnRecvCommandCB (mObject this')" "mOnErrorCB (mObject this')" "\<not> mDisableSeq (mObject this')"
proof -
  obtain i where i: "ByteBuffer_Init ByteBuffer_Create inArr 3000 = Some i" "bb_ok i" "bb_data i = []" "bb_cap i = 2999"
    using ByteBuffer_Init_spec [of 3000 inArr ByteBuffer_Create] assms(1) by auto
  obtain u where u: "ByteBuffer_Init ByteBuffer_Create outArr 3000 = Some u" "bb_ok u" "bb_data u = []" "bb_cap u = 2999"
    using ByteBuffer_Init_spec [of 3000 outArr ByteBuffer_Create] assms(2) by auto
  obtain ib where ib: "Bundle_Create inItems 16 = Some ib" "bundle_ok ib" "field_limit ib = 16"
    using Bundle_Create_spec [of 16 inItems] assms(3) by auto
  obtain ub where ub: "Bundle_Create outItems 16 = Some ub" "bundle_ok ub" "bundle_fields ub = []" "field_limit ub = 16"
    using Bundle_Create_spec [of 16 outItems] assms(4) by auto
  show thesis
    using i u ib ub by (intro that) (simp_all add: Sctp_Create_def Let_def sctp_ok_def, simp_all add: SCTP_Create_def)
qed

end
