(* ===== verification/SctpLink.thy ===== *)
theory SctpLink
  imports SctpObject
begin

text \<open>
  Sender and receiver together: a field list that the protocol can carry is written by
  \<open>SCTP_CreateOutboxData\<close> and read back by \<open>SCTP_InputData\<close> unchanged, frames that
  follow each other on the line are delivered in order, and a frame with a damaged value is
  reported as a checksum error and not delivered.
\<close>

section \<open>Field lists the line can carry\<close>

definition clean_field :: "string \<times> string \<Rightarrow> bool" where
  "clean_field kv \<longleftrightarrow> fst kv \<noteq> [] \<and> CR \<notin> set (fst kv) \<and> CHR ''='' \<notin> set (fst kv) \<and> NUL \<notin> set (fst kv)
     \<and> CR \<notin> set (snd kv) \<and> NUL \<notin> set (snd kv)"

definition clean :: "field_list \<Rightarrow> bool" where
  "clean kvs \<longleftrightarrow> list_all clean_field kvs"

text \<open>The receiver starts reading at a letter, or at \<^verbatim>\<open>cmd=\<close> on a noisy line.\<close>

definition starts_well :: "bool \<Rightarrow> field_list \<Rightarrow> bool" where
  "starts_well verbose kvs \<longleftrightarrow> kvs \<noteq> [] \<and> isalpha (hd (fst (hd kvs))) \<and> (verbose \<longrightarrow> fst (hd kvs) = ''cmd'')"

lemma clean_simps [simp]:
  "clean []" "clean (kv # kvs) \<longleftrightarrow> clean_field kv \<and> clean kvs" "clean (kvs @ kvs') \<longleftrightarrow> clean kvs \<and> clean kvs'"
  by (simp_all add: clean_def)

lemma lines_text_Nil [simp]: "lines_text [] = []"
  by (simp add: lines_text_def)

lemma lines_text_Cons:
  "clean_field kv \<Longrightarrow> lines_text (kv # kvs) = fst kv @ ''='' @ snd kv @ CRLF @ lines_text kvs"
  by (simp add: lines_text_def line_texts_def clean_field_def)

lemma strstr_skip:
  "c \<notin> set x \<Longrightarrow> strstr (x @ y) (c # pat) = map_option ((+) (length x)) (strstr y (c # pat))"
proof (induction x)
  case Nil
  show ?case by (simp add: option.map_ident)
next
  case (Cons a x)
  then show ?case by (simp add: option.map_comp o_def)
qed

lemma strstr_skip_Some: "c \<notin> set x \<Longrightarrow> strstr (x @ c # pat @ y) (c # pat) = Some (length x)"
  by (simp add: strstr_skip)

lemma clean_line_no_CR: "clean_field kv \<Longrightarrow> CR \<notin> set (fst kv @ ''='' @ snd kv)"
  by (auto simp: clean_field_def)

lemma parse_line_clean: "clean_field kv \<Longrightarrow> parse_line (fst kv @ ''='' @ snd kv) = [kv]"
  using strstr_skip_Some [of "CHR ''=''" "fst kv" "[]" "snd kv"]
  by (simp add: parse_line_def clean_field_def)

lemma parse_lines_clean: "clean kvs \<Longrightarrow> parse_lines (lines_text kvs) = kvs"
proof (induction kvs)
  case Nil
  then show ?case by (simp add: parse_lines.simps)
next
  case (Cons kv kvs)
  let ?l = "fst kv @ ''='' @ snd kv"
  have t: "lines_text (kv # kvs) = ?l @ CRLF @ lines_text kvs" using Cons.prems by (simp add: lines_text_Cons)
  have "strstr (?l @ CRLF @ lines_text kvs) CRLF = Some (length ?l)"
    using strstr_skip_Some [OF clean_line_no_CR, of kv "[LF]" "lines_text kvs"] Cons.prems by simp
  moreover have "take (length ?l) (?l @ CRLF @ lines_text kvs) = ?l" by simp
  moreover have "drop (length ?l + 2) (?l @ CRLF @ lines_text kvs) = lines_text kvs"
    by (simp only: drop_append) simp
  ultimately have "parse_lines (lines_text (kv # kvs)) = parse_line ?l @ parse_lines (lines_text kvs)"
    unfolding t by (subst parse_lines.simps) (simp only: option.case)
  then show ?case using Cons parse_line_clean by simp
qed

lemma lines_text_head: "clean kvs \<Longrightarrow> kvs \<noteq> [] \<Longrightarrow> \<exists>c s. lines_text kvs = c # s \<and> c \<noteq> CR \<and> c = hd (fst (hd kvs))"
  by (cases kvs; cases "fst (hd kvs)") (auto simp: lines_text_Cons clean_field_def)

lemma lines_text_ends: "clean kvs \<Longrightarrow> kvs \<noteq> [] \<Longrightarrow> \<exists>f. lines_text kvs = f @ CRLF"
proof (induction kvs)
  case (Cons kv kvs)
  then show ?case by (cases "kvs = []") (auto simp: lines_text_Cons)
qed simp

lemma lines_text_TAIL:
  assumes "clean kvs" "kvs \<noteq> []"
  shows "strstr (lines_text kvs @ CRLF @ r) TAIL = Some (length (lines_text kvs) - 2)"
  using assms
proof (induction kvs)
  case (Cons kv kvs)
  let ?l = "fst kv @ ''='' @ snd kv"
  have nocr: "CR \<notin> set ?l" using Cons.prems(1) clean_line_no_CR by simp
  show ?case
  proof (cases "kvs = []")
    case True
    then show ?thesis
      using strstr_skip_Some [OF nocr, of "[LF, CR, LF]" r] Cons.prems(1) by (simp add: lines_text_Cons)
  next
    case False
    obtain c s where c: "lines_text kvs = c # s" "c \<noteq> CR"
      using lines_text_head [OF _ False] Cons.prems(1) by auto
    have "strstr (?l @ CRLF @ c # s @ CRLF @ r) TAIL
        = map_option ((+) (length ?l)) (strstr (CRLF @ c # s @ CRLF @ r) TAIL)"
      by (rule strstr_skip [OF nocr])
    moreover have "strstr (CRLF @ c # s @ CRLF @ r) TAIL = Some (length (lines_text kvs))"
      using Cons.IH Cons.prems(1) False c lines_text_ends [OF _ False]
      by auto
    ultimately show ?thesis using Cons.prems(1) c(1) by (simp add: lines_text_Cons)
  qed
qed simp

text \<open>The text of a frame without its terminator.\<close>

definition frame_body :: "field_list \<Rightarrow> string" where
  "frame_body kvs = take (length (lines_text kvs) - 2) (lines_text kvs)"

lemma frame_body_CRLF: "clean kvs \<Longrightarrow> kvs \<noteq> [] \<Longrightarrow> frame_body kvs @ CRLF = lines_text kvs"
  using lines_text_ends [of kvs] by (auto simp: frame_body_def)

lemma split_frame_text:
  assumes "clean kvs" "kvs \<noteq> []"
  shows "split_frames (frame_text kvs @ r) = (frame_body kvs # fst (split_frames r), snd (split_frames r))"
proof -
  obtain f where f: "lines_text kvs = f @ CRLF" using lines_text_ends [OF assms] by blast
  then have "strstr (f @ CRLF @ CRLF @ r) TAIL = Some (length f)"
    using lines_text_TAIL [OF assms, of r] by simp
  moreover have "drop (length f + 4) (f @ CRLF @ CRLF @ r) = r" by simp
  ultimately show ?thesis
    using f by (subst split_frames.simps) (simp add: frame_text_def frame_body_def split_beta)
qed

lemma split_frames_concat:
  "list_all (\<lambda>kvs. clean kvs \<and> kvs \<noteq> []) fss \<Longrightarrow>
   split_frames (concat (map frame_text fss)) = (map frame_body fss, [])"
proof (induction fss)
  case Nil
  then show ?case by (simp add: split_frames.simps)
next
  case (Cons kvs fss)
  then show ?case by (simp add: split_frame_text)
qed

lemma denoise_clean:
  assumes "clean kvs" "starts_well v kvs"
  shows "denoise v (lines_text kvs) n = lines_text kvs"
proof -
  obtain kv ks where kvs: "kvs = kv # ks" using assms(2) by (cases kvs) (auto simp: starts_well_def)
  then have "\<not> noise_at v (lines_text kvs)"
    using assms by (cases "fst kv") (auto simp: starts_well_def noise_at_def lines_text_Cons clean_field_def)
  then show ?thesis by (cases n; cases "lines_text kvs") auto
qed

section \<open>Checksums of frames\<close>

lemma no_control_digits: "set (dec n) \<subseteq> {CHR ''0''..CHR ''9''}"
proof (induction n rule: dec.induct)
  case (1 n)
  have d: "char_of (48 + k) \<in> {CHR ''0''..CHR ''9''}" if "k < 10" for k :: nat
  proof -
    have "list_all (\<lambda>k. CHR ''0'' \<le> char_of (48 + k) \<and> char_of (48 + k) \<le> CHR ''9'') [0..<10]" by code_simp
    then show ?thesis using that by (simp add: list_all_iff)
  qed
  show ?case using 1 d [of n] d [of "n mod 10"] by (subst dec.simps) auto
qed

lemma hex_fixed_clean: "CR \<notin> set (hex_fixed k n)" "NUL \<notin> set (hex_fixed k n)"
proof -
  have "list_all (\<lambda>d. hex_digit d \<noteq> CR \<and> hex_digit d \<noteq> NUL) [0..<16]" by code_simp
  then have d: "hex_digit (n mod 16) \<noteq> CR \<and> hex_digit (n mod 16) \<noteq> NUL" for n
    by (simp add: list_all_iff)
  show "CR \<notin> set (hex_fixed k n)"
    by (induction k arbitrary: n) (use d in \<open>simp_all add: not_sym [OF d [THEN conjunct1]]\<close>)
  show "NUL \<notin> set (hex_fixed k n)"
    by (induction k arbitrary: n) (use d in \<open>simp_all add: not_sym [OF d [THEN conjunct2]]\<close>)
qed

lemma clean_crc_field: "clean_field (crc_field kvs)"
  by (auto simp: clean_field_def crc_field_def hex_fixed_clean)

lemma clean_seq_fields: "clean kvs \<Longrightarrow> clean (seq_fields obj kvs)"
proof -
  have "CR \<notin> set (dec n)" "NUL \<notin> set (dec n)" for n
    using no_control_digits [of n] by (auto simp: less_eq_char_def)
  then show "clean kvs \<Longrightarrow> clean (seq_fields obj kvs)"
    by (auto simp: seq_fields_def clean_field_def)
qed

lemma fields_crc_snoc: "fields_crc (kvs @ [(''crc'', v)]) = fields_crc kvs"
  by (simp add: fields_crc_def crc_text_def)

lemma field_text_snoc: "n \<notin> fst ` set kvs \<Longrightarrow> field_text (some_fields (kvs @ [(n, v)])) n = v"
  by (induction kvs) (auto simp: field_text_def)

lemma crc_verdict_own: "''crc'' \<notin> fst ` set kvs \<Longrightarrow> crc_verdict (kvs @ [crc_field kvs])"
  using field_text_snoc [of "''crc''" kvs] hex_fixed_length [of 4 "unat (fields_crc kvs)"]
  by (auto simp: crc_verdict_def Let_def fields_crc_snoc strcasecmp_eq_def crc_field_def simp del: hex_fixed_length)




section \<open>Properties of the link\<close>

definition link_fields :: "tagSCTP \<Rightarrow> field_list \<Rightarrow> field_list" where
  "link_fields obj kvs = seq_fields obj kvs @ [crc_field (seq_fields obj kvs)]"

lemma link_fields_facts:
  assumes "clean kvs" "starts_well v kvs" "''crc'' \<notin> fst ` set kvs"
  shows "clean (link_fields obj kvs)" "starts_well v (link_fields obj kvs)" "link_fields obj kvs \<noteq> []"
    "crc_verdict (link_fields obj kvs)"
proof -
  have "''crc'' \<notin> fst ` set (seq_fields obj kvs)" using assms(3) by (auto simp: seq_fields_def)
  then show "crc_verdict (link_fields obj kvs)" unfolding link_fields_def by (rule crc_verdict_own)
  show "clean (link_fields obj kvs)" using clean_seq_fields [OF assms(1)] clean_crc_field by (simp add: link_fields_def)
  show "link_fields obj kvs \<noteq> []" by (simp add: link_fields_def)
  have "hd (seq_fields obj kvs @ r) = hd kvs" for r
    using assms(2) by (cases kvs) (auto simp: seq_fields_def starts_well_def)
  then show "starts_well v (link_fields obj kvs)" using assms(2) by (simp add: starts_well_def link_fields_def)
qed

lemma frame_events_clean:
  assumes "clean kvs" "starts_well (m485Verbose obj) kvs" "length kvs \<le> field_limit (mInboxBundle obj)"
  shows "frame_events obj (frame_body kvs) = (if mDumpFrameCB obj then [DumpFrame (lines_text kvs)] else [])
    @ (if crc_verdict kvs
       then (if mOnRecvCommandCB obj
             then [OnRecvCommand (field_text (some_fields kvs) ''cmd'') (some_fields kvs)] else [])
       else SCTP_SetError obj (''crc error,crcLocalCalc=0x'' @ hex_fixed 4 (unat (fields_crc kvs))))"
proof -
  have "kvs \<noteq> []" using assms(2) by (simp add: starts_well_def)
  then show ?thesis
    using assms frame_body_CRLF [OF assms(1)] denoise_clean [OF assms(1,2)]
    by (simp add: frame_events_def parse_lines_clean Let_def)
qed

lemma mask_nul_id: "NUL \<notin> set s \<Longrightarrow> mask_nul s = s"
  by (auto simp: mask_nul_def intro: map_idI)

lemma frame_text_no_nul: "clean kvs \<Longrightarrow> NUL \<notin> set (frame_text kvs)"
  by (auto simp: frame_text_def lines_text_def line_texts_def clean_def list_all_iff clean_field_def)

lemma frames_no_nul: "list_all clean fss \<Longrightarrow> NUL \<notin> set (concat (map frame_text fss))"
  using frame_text_no_nul by (auto simp: list_all_iff)

lemma clean_wire:
  assumes "length (seq_fields obj kvs) < lim"
  shows "wire_fields lim (seq_fields obj kvs) = link_fields obj kvs"
  using assms by (simp add: wire_fields_def link_fields_def)

lemma input_frame:
  assumes "sctp_ok obj" "bb_data (mInbox obj) = []" "clean kvs" "kvs \<noteq> []"
    and "length (frame_text kvs) \<le> bb_cap (mInbox obj)"
  shows "\<exists>obj'. SCTP_InputData obj (frame_text kvs) = Some (obj', frame_text kvs, frame_events obj (frame_body kvs))
    \<and> sctp_ok obj' \<and> bb_data (mInbox obj') = []"
proof -
  have "pieces_fit (bb_cap (mInbox obj)) (bb_data (mInbox obj)) (frame_text kvs)"
    using assms by (intro pieces_fit_total) simp
  moreover have "split_frames (frame_text kvs) = ([frame_body kvs], [])"
    using split_frame_text [OF assms(3,4), of "[]"] by (simp add: split_frames.simps [of "[]"])
  ultimately show ?thesis
    using SCTP_InputData_spec [OF assms(1), of "frame_text kvs"] assms(2)
      mask_nul_id [OF frame_text_no_nul [OF assms(3)]]
    by (auto simp: run_events_def)
qed

lemma fields_small:
  assumes "clean kvs" "length (frame_text kvs) \<le> bb_cap b" "(n, v) \<in> set kvs"
  shows "length n < 65536 \<and> length v < 65536"
proof -
  obtain x y where "kvs = x @ (n, v) # y" using split_list [OF assms(3)] by blast
  moreover have "n \<noteq> []" using assms(1,3) by (auto simp: clean_def list_all_iff clean_field_def)
  ultimately have "length n + length v \<le> length (frame_text kvs)"
    by (auto simp: frame_text_def lines_text_def line_texts_def)
  then show ?thesis using assms(2) bb_cap_bound [of b] by linarith
qed

lemma link_fields_super: "set kvs \<subseteq> set (link_fields obj kvs)"
  by (auto simp: link_fields_def seq_fields_def)

text \<open>
  C4: what an application puts into the outbox bundle of one object arrives at the
  application of another: the sender succeeds and the receiver, given the outbox, reports one
  command, with the fields in order, followed by the sequence number and the checksum.
\<close>

theorem send_receive_roundtrip:
  assumes tx: "sctp_ok tx" "bundle_fields (mOutboxBundle tx) = some_fields kvs"
      "length kvs + 2 \<le> field_limit (mOutboxBundle tx)" "length (frame_text (link_fields tx kvs)) \<le> bb_cap (mOutbox tx)"
    and rx: "sctp_ok rx" "bb_data (mInbox rx) = []" "mOnRecvCommandCB rx" "\<not> mDumpFrameCB rx"
      "length kvs + 2 \<le> field_limit (mInboxBundle rx)" "length (frame_text (link_fields tx kvs)) \<le> bb_cap (mInbox rx)"
    and kvs: "clean kvs" "starts_well (m485Verbose rx) kvs" "''crc'' \<notin> fst ` set kvs"
  shows "\<exists>tx' rx' arr. SCTP_CreateOutboxData tx = Some (0, tx') \<and> sctp_ok tx'
    \<and> SCTP_InputData rx (bb_data (mOutbox tx')) = Some (rx', arr,
        [OnRecvCommand (field_text (some_fields (seq_fields tx kvs)) ''cmd'') (some_fields (link_fields tx kvs))])
    \<and> sctp_ok rx' \<and> bb_data (mInbox rx') = []"
proof -
  note lf = link_fields_facts [OF kvs, of tx]
  let ?w = "link_fields tx kvs"
  have len: "length (seq_fields tx kvs) < field_limit (mOutboxBundle tx)" using tx(3) by (simp add: seq_fields_def)
  obtain tx' where tx': "SCTP_CreateOutboxData tx = Some (0, tx')" "sctp_ok tx'" "bb_data (mOutbox tx') = frame_text ?w"
    using SCTP_CreateOutboxData_spec [OF tx(1,2) fields_small [OF lf(1) tx(4) subsetD [OF link_fields_super]]] tx(4) clean_wire [OF len] by auto
  have "length ?w \<le> field_limit (mInboxBundle rx)" using rx(5) by (simp add: link_fields_def seq_fields_def)
  then have "frame_events rx (frame_body ?w)
      = [OnRecvCommand (field_text (some_fields ?w) ''cmd'') (some_fields ?w)]"
    using frame_events_clean [OF lf(1,2)] lf(4) rx(3,4) by simp
  moreover have "field_text (some_fields ?w) ''cmd'' = field_text (some_fields (seq_fields tx kvs)) ''cmd''"
    by (simp add: link_fields_def crc_field_def field_text_def map_add_def split: option.splits)
  ultimately show ?thesis using input_frame [OF rx(1,2) lf(1,3) rx(6)] tx' by auto
qed

text \<open>Two objects as the class sets them up, one of them with fields to send.\<close>

lemma demo_objects:
  obtains tx rx where "sctp_ok tx" "bundle_fields (mOutboxBundle tx) = some_fields [(''cmd'', ''Ping''), (''id'', ''7'')]"
    "field_limit (mOutboxBundle tx) = 16" "bb_cap (mOutbox tx) = 2999" "mSeq tx = 0" "\<not> mDisableSeq tx"
    "sctp_ok rx" "bb_data (mInbox rx) = []" "mOnRecvCommandCB rx" "mOnErrorCB rx" "\<not> mDumpFrameCB rx" "\<not> m485Verbose rx"
    "field_limit (mInboxBundle rx) = 16" "bb_cap (mInbox rx) = 2999"
proof -
  let ?arr = "replicate 3000 NUL" and ?its = "replicate 16 \<lparr>kname = None, kvalue = None\<rparr>"
  obtain t :: Sctp where t: "sctp_ok (mObject t)" "bb_data (mInbox (mObject t)) = []"
    "bb_cap (mInbox (mObject t)) = 2999" "bb_cap (mOutbox (mObject t)) = 2999"
    "bundle_fields (mOutboxBundle (mObject t)) = []"
    "field_limit (mInboxBundle (mObject t)) = 16" "field_limit (mOutboxBundle (mObject t)) = 16"
    "mSeq (mObject t) = 0" "\<not> m485Verbose (mObject t)" "\<not> mDumpFrameCB (mObject t)"
    "mOnRecvCommandCB (mObject t)" "mOnErrorCB (mObject t)" "\<not> mDisableSeq (mObject t)"
    by (rule Sctp_Create_spec [of ?arr ?arr ?its ?its Sctp_new], simp_all only: length_replicate) blast
  have ok: "bundle_ok (mOutboxBundle (mObject t))" using t(1) by (simp add: sctp_ok_def)
  obtain r b1 where b1: "bundle_ok b1" "field_limit b1 = 16" "bundle_fields b1 = some_fields [(''cmd'', ''Ping'')]"
    using Push_some_fields [OF ok, of "[]" "''cmd''" "''Ping''"] t(5,7) by auto
  obtain r b2 where b2: "bundle_ok b2" "field_limit b2 = 16"
    "bundle_fields b2 = some_fields [(''cmd'', ''Ping''), (''id'', ''7'')]"
    using Push_some_fields [OF b1(1,3), of "''id''" "''7''"] b1(2) by auto
  show thesis
    using t b2 by (intro that [of "(mObject t)\<lparr>mOutboxBundle := b2\<rparr>" "mObject t"]) (auto simp: sctp_ok_def)
qed

lemma dec_1: "dec 1 = ''1''" by code_simp

theorem send_receive_roundtrip_witness:
  "\<exists>tx tx' rx rx' arr crc. SCTP_CreateOutboxData tx = Some (0, tx') \<and> sctp_ok tx'
    \<and> SCTP_InputData rx (bb_data (mOutbox tx')) = Some (rx', arr, [OnRecvCommand ''Ping''
        [(''cmd'', Some ''Ping''), (''id'', Some ''7''), (''seq'', Some ''1''), (''crc'', Some crc)]])"
proof (rule demo_objects)
  fix tx rx
  let ?kvs = "[(''cmd'', ''Ping''), (''id'', ''7'')]"
  assume tx: "sctp_ok tx" "bundle_fields (mOutboxBundle tx) = some_fields ?kvs"
    "field_limit (mOutboxBundle tx) = 16" "bb_cap (mOutbox tx) = 2999" "mSeq tx = 0" "\<not> mDisableSeq tx"
    and rx: "sctp_ok rx" "bb_data (mInbox rx) = []" "mOnRecvCommandCB rx" "\<not> mDumpFrameCB rx" "\<not> m485Verbose rx"
    "field_limit (mInboxBundle rx) = 16" "bb_cap (mInbox rx) = 2999"
  have lf: "link_fields tx ?kvs = ?kvs @ [(''seq'', ''1''), crc_field (seq_fields tx ?kvs)]"
    using tx(5,6) dec_1 by (simp add: link_fields_def seq_fields_def)
  have "length (frame_text (link_fields tx ?kvs)) \<le> 2999"
    unfolding lf by (simp add: frame_text_def lines_text_def line_texts_def crc_field_def)
  moreover have "clean ?kvs" "starts_well False ?kvs" by code_simp+
  ultimately show ?thesis
    using send_receive_roundtrip [OF tx(1,2) _ _ rx(1-4)] tx rx
    by (fastforce simp: lf seq_fields_def field_text_def crc_field_def)
qed

text \<open>
  C13: input whose frames, including their terminators, are at most \<open>M\<close> bytes long is
  never lost by an inbox that holds \<open>M + 1024\<close> bytes, however long the input is: the call
  returns, reports exactly the events of the complete frames in order, and keeps the
  unfinished end.
\<close>

theorem input_streams_all_frames:
  assumes "sctp_ok obj" "strstr (bb_data (mInbox obj)) TAIL = None"
    and "\<And>f. f \<in> set (fst (split_frames (bb_data (mInbox obj) @ mask_nul inp))) \<Longrightarrow> length f + 4 \<le> M"
    and "length (snd (split_frames (bb_data (mInbox obj) @ mask_nul inp))) \<le> M"
    and "M + 1024 \<le> bb_cap (mInbox obj)"
  shows "\<exists>obj'. SCTP_InputData obj inp
        = Some (obj', mask_nul inp, run_events obj (fst (split_frames (bb_data (mInbox obj) @ mask_nul inp))))
    \<and> sctp_ok obj' \<and> bb_data (mInbox obj') = snd (split_frames (bb_data (mInbox obj) @ mask_nul inp))"
  using SCTP_InputData_spec [OF assms(1) pieces_fit_frames [OF assms(3-5,2)] assms(2)] by blast

theorem input_streams_all_frames_witness:
  "\<exists>obj obj'. SCTP_InputData obj ''x'' = Some (obj', ''x'', []) \<and> bb_data (mInbox obj') = ''x''"
proof (rule demo_objects)
  fix obj
  assume obj: "sctp_ok obj" "bb_data (mInbox obj) = []" "bb_cap (mInbox obj) = 2999"
  have "mask_nul ''x'' = ''x''" "split_frames ''x'' = ([], ''x'')" by code_simp+
  then show ?thesis
    using input_streams_all_frames [OF obj(1), of "''x''" 100] obj(2,3) by (auto simp: run_events_def)
qed



text \<open>
  Frames that follow each other on the line, in one input of any length, are delivered
  one by one and in order, provided each of them leaves room for one piece of input.
\<close>

theorem frames_in_order:
  assumes rx: "sctp_ok rx" "bb_data (mInbox rx) = []" "mOnRecvCommandCB rx" "\<not> mDumpFrameCB rx"
    and fr: "\<And>kvs. kvs \<in> set fss \<Longrightarrow> clean kvs \<and> starts_well (m485Verbose rx) kvs \<and> crc_verdict kvs
      \<and> length kvs \<le> field_limit (mInboxBundle rx) \<and> length (frame_text kvs) + 1024 \<le> bb_cap (mInbox rx)"
    and cap: "1024 \<le> bb_cap (mInbox rx)"
  shows "\<exists>rx' arr. SCTP_InputData rx (concat (map frame_text fss)) = Some (rx', arr,
      map (\<lambda>kvs. OnRecvCommand (field_text (some_fields kvs) ''cmd'') (some_fields kvs)) fss)
    \<and> sctp_ok rx' \<and> bb_data (mInbox rx') = []"
proof -
  let ?inp = "concat (map frame_text fss)" and ?M = "bb_cap (mInbox rx) - 1024"
  have wf: "list_all clean fss" "list_all (\<lambda>kvs. clean kvs \<and> kvs \<noteq> []) fss"
    using fr by (auto simp: list_all_iff starts_well_def)
  have sp: "split_frames (bb_data (mInbox rx) @ mask_nul ?inp) = (map frame_body fss, [])"
    using split_frames_concat [OF wf(2)] mask_nul_id [OF frames_no_nul [OF wf(1)]] rx(2) by simp
  have "length f + 4 \<le> ?M" if f: "f \<in> set (map frame_body fss)" for f
  proof -
    obtain kvs where kvs: "kvs \<in> set fss" "f = frame_body kvs" using f by auto
    then have "lines_text kvs = f @ CRLF" using fr [OF kvs(1)] frame_body_CRLF by (simp add: starts_well_def)
    then show ?thesis using fr [OF kvs(1)] by (auto simp: frame_text_def le_diff_conv2 [OF cap])
  qed
  then have fit: "pieces_fit (bb_cap (mInbox rx)) (bb_data (mInbox rx)) ?inp"
    using rx(2) sp cap by (intro pieces_fit_frames [where M = ?M]) auto
  have "run_events rx (map frame_body fss)
      = map (\<lambda>kvs. OnRecvCommand (field_text (some_fields kvs) ''cmd'') (some_fields kvs)) fss"
    using fr
  proof (induction fss)
    case Nil
    then show ?case by (simp add: run_events_def)
  next
    case (Cons kvs fss)
    then show ?case using frame_events_clean [of kvs rx] rx(3,4) by (simp add: run_events_def)
  qed
  then show ?thesis using SCTP_InputData_spec [OF rx(1) fit] rx(2) sp by auto
qed

theorem frames_in_order_witness:
  "\<exists>rx rx' arr crc. SCTP_InputData rx (frame_text [(''cmd'', ''Ping''), (''crc'', crc)] @ frame_text [(''cmd'', ''Ping''), (''crc'', crc)])
    = Some (rx', arr, [OnRecvCommand ''Ping'' [(''cmd'', Some ''Ping''), (''crc'', Some crc)],
                       OnRecvCommand ''Ping'' [(''cmd'', Some ''Ping''), (''crc'', Some crc)]])"
proof (rule demo_objects)
  fix rx
  assume rx: "sctp_ok rx" "bb_data (mInbox rx) = []" "mOnRecvCommandCB rx" "\<not> mDumpFrameCB rx" "\<not> m485Verbose rx"
    "field_limit (mInboxBundle rx) = 16" "bb_cap (mInbox rx) = 2999"
  obtain crc where crc: "crc_field [(''cmd'', ''Ping'')] = (''crc'', crc)" "length crc = 4"
    by (simp add: crc_field_def)
  let ?k = "[(''cmd'', ''Ping''), (''crc'', crc)]"
  have "crc_verdict ?k" using crc_verdict_own [of "[(''cmd'', ''Ping'')]"] crc(1) by simp
  moreover have "clean [(''cmd'', ''Ping'')]" "starts_well False [(''cmd'', ''Ping'')]" by code_simp+
  then have "clean ?k" "starts_well False ?k"
    using clean_crc_field [of "[(''cmd'', ''Ping'')]"] crc(1) by (simp_all add: starts_well_def)
  ultimately show ?thesis
    using frames_in_order [OF rx(1-4), of "[?k, ?k]"] rx(5-) crc(2)
    by (fastforce simp: field_text_def frame_text_def lines_text_def line_texts_def)
qed



text \<open>
  C29: when the application's fields fill the outbox bundle, the checksum is dropped and the call
  still succeeds; the frame it produces is rejected by every receiver.
\<close>

theorem full_bundle_frame_rejected:
  assumes tx: "sctp_ok tx" "bundle_fields (mOutboxBundle tx) = some_fields kvs"
      "length kvs = field_limit (mOutboxBundle tx)" "length (frame_text kvs) \<le> bb_cap (mOutbox tx)"
    and rx: "sctp_ok rx" "bb_data (mInbox rx) = []" "mOnErrorCB rx" "\<not> mDumpFrameCB rx"
      "length kvs \<le> field_limit (mInboxBundle rx)" "length (frame_text kvs) \<le> bb_cap (mInbox rx)"
    and kvs: "clean kvs" "starts_well (m485Verbose rx) kvs" "''crc'' \<notin> fst ` set kvs"
  shows "\<exists>tx' rx' arr. SCTP_CreateOutboxData tx = Some (0, tx')
    \<and> SCTP_InputData rx (bb_data (mOutbox tx')) = Some (rx', arr,
        [OnError (''crc error,crcLocalCalc=0x'' @ hex_fixed 4 (unat (fields_crc kvs)))])"
proof -
  have ne: "kvs \<noteq> []" using kvs(2) by (simp add: starts_well_def)
  have "take (length kvs) (seq_fields tx kvs @ r) = kvs" for r by (simp add: seq_fields_def)
  then have "wire_fields (field_limit (mOutboxBundle tx)) (seq_fields tx kvs) = kvs"
    using tx(3) by (metis append_Nil2 append_eq_conv_conj take_append wire_fields_def)
  then obtain tx' where tx': "SCTP_CreateOutboxData tx = Some (0, tx')" "bb_data (mOutbox tx') = frame_text kvs"
    using SCTP_CreateOutboxData_spec [OF tx(1,2) fields_small [OF kvs(1) tx(4)]] tx(4) by auto
  have "\<not> crc_verdict kvs"
    using kvs(3) map_of_eq_None_iff [of "some_fields kvs" "''crc''"] by (simp add: crc_verdict_def field_text_def)
  then have "frame_events rx (frame_body kvs)
      = [OnError (''crc error,crcLocalCalc=0x'' @ hex_fixed 4 (unat (fields_crc kvs)))]"
    using frame_events_clean [OF kvs(1,2) rx(5)] rx(3,4) by (simp add: SCTP_SetError_def)
  then show ?thesis using input_frame [OF rx(1,2) kvs(1) ne rx(6)] tx' by auto
qed

theorem full_bundle_frame_rejected_witness:
  "\<exists>tx rx tx' rx' arr. SCTP_CreateOutboxData tx = Some (0, tx')
    \<and> SCTP_InputData rx (bb_data (mOutbox tx')) = Some (rx', arr,
        [OnError (''crc error,crcLocalCalc=0x'' @ hex_fixed 4 (unat (fields_crc [(''cmd'', ''Ping'')])))])"
proof (rule demo_objects)
  fix tx rx
  let ?kvs = "[(''cmd'', ''Ping'')]"
  let ?b = "\<lparr>mItems = [\<lparr>kname = Some ''cmd'', kvalue = Some ''Ping''\<rparr>], mCount = 1, mTotalCount = 1\<rparr>"
  assume tx: "sctp_ok tx" "bb_cap (mOutbox tx) = 2999"
    and rx: "sctp_ok rx" "bb_data (mInbox rx) = []" "mOnErrorCB rx" "\<not> mDumpFrameCB rx" "\<not> m485Verbose rx"
    "field_limit (mInboxBundle rx) = 16" "bb_cap (mInbox rx) = 2999"
  have b: "bundle_ok ?b" "bundle_fields ?b = some_fields ?kvs" "field_limit ?b = 1"
    by (simp_all add: bundle_ok_def bundle_fields_def field_limit_def item_pair_def)
  then have ok: "sctp_ok (tx\<lparr>mOutboxBundle := ?b\<rparr>)" using tx(1) by (simp add: sctp_ok_def)
  have kvs: "clean ?kvs" "starts_well (m485Verbose rx) ?kvs" "''crc'' \<notin> fst ` set ?kvs"
    using rx(5) by (simp_all add: clean_field_def starts_well_def isalpha_def)
  have "length (frame_text ?kvs) \<le> 2999" by (simp add: frame_text_def lines_text_def line_texts_def)
  then have "\<exists>tx' rx' arr. SCTP_CreateOutboxData (tx\<lparr>mOutboxBundle := ?b\<rparr>) = Some (0, tx')
    \<and> SCTP_InputData rx (bb_data (mOutbox tx')) = Some (rx', arr,
        [OnError (''crc error,crcLocalCalc=0x'' @ hex_fixed 4 (unat (fields_crc ?kvs)))])"
    using b tx(2) rx(6,7) by (intro full_bundle_frame_rejected [OF ok _ _ _ rx(1-4) _ _ kvs]) simp_all
  then show ?thesis by blast
qed

end
