(* ===== verification/WepollQueue.thy ===== *)
theory WepollQueue
  imports Prelude
begin

text \<open>
  The intrusive, circular, doubly linked queues of \<^verbatim>\<open>src/src/arch/windows/wepoll/wepoll.c\<close>,
  on an explicit heap of queue nodes. A queue is named by the address of its head node, an
  element by the address of the node that is embedded in it. The functions are translated
  assignment by assignment, in the order of the source, because they update nodes that may
  coincide (a queue with one element, a detached node). The specification of a queue is the list
  of its elements.
\<close>

section \<open>Nodes and operations\<close>

record 'a queue_node =
  prev :: 'a
  "next" :: 'a

type_synonym 'a qheap = "'a \<Rightarrow> 'a queue_node option"

definition set_prev :: "'a qheap \<Rightarrow> 'a \<Rightarrow> 'a \<Rightarrow> 'a qheap option" where
  "set_prev h p v = do { n \<leftarrow> h p; Some (h(p \<mapsto> n\<lparr>prev := v\<rparr>)) }"

definition set_next :: "'a qheap \<Rightarrow> 'a \<Rightarrow> 'a \<Rightarrow> 'a qheap option" where
  "set_next h p v = do { n \<leftarrow> h p; Some (h(p \<mapsto> n\<lparr>next := v\<rparr>)) }"

definition queue_node_init :: "'a qheap \<Rightarrow> 'a \<Rightarrow> 'a qheap option" where
  "queue_node_init h node = do { h \<leftarrow> set_prev h node node; set_next h node node }"

definition queue_init :: "'a qheap \<Rightarrow> 'a \<Rightarrow> 'a qheap option" where
  "queue_init h queue = queue_node_init h queue"

definition queue__detach_node :: "'a qheap \<Rightarrow> 'a \<Rightarrow> 'a qheap option" where
  "queue__detach_node h node = do {
     n \<leftarrow> h node;
     h \<leftarrow> set_next h (prev n) (next n);
     n \<leftarrow> h node;
     set_prev h (next n) (prev n)
   }"

definition queue_is_enqueued :: "'a qheap \<Rightarrow> 'a \<Rightarrow> bool option" where
  "queue_is_enqueued h node = do { n \<leftarrow> h node; Some (prev n \<noteq> node) }"

definition queue_is_empty :: "'a qheap \<Rightarrow> 'a \<Rightarrow> bool option" where
  "queue_is_empty h queue = do { e \<leftarrow> queue_is_enqueued h queue; Some (\<not> e) }"

definition queue_first :: "'a qheap \<Rightarrow> 'a \<Rightarrow> 'a option option" where
  "queue_first h queue = do {
     e \<leftarrow> queue_is_empty h queue;
     (if \<not> e then do { n \<leftarrow> h queue; Some (Some (next n)) } else Some None)
   }"

definition queue_last :: "'a qheap \<Rightarrow> 'a \<Rightarrow> 'a option option" where
  "queue_last h queue = do {
     e \<leftarrow> queue_is_empty h queue;
     (if \<not> e then do { n \<leftarrow> h queue; Some (Some (prev n)) } else Some None)
   }"

definition queue_prepend :: "'a qheap \<Rightarrow> 'a \<Rightarrow> 'a \<Rightarrow> 'a qheap option" where
  "queue_prepend h queue node = do {
     hd \<leftarrow> h queue;
     h \<leftarrow> set_next h node (next hd);
     h \<leftarrow> set_prev h node queue;
     n \<leftarrow> h node;
     h \<leftarrow> set_prev h (next n) node;
     set_next h queue node
   }"

definition queue_append :: "'a qheap \<Rightarrow> 'a \<Rightarrow> 'a \<Rightarrow> 'a qheap option" where
  "queue_append h queue node = do {
     h \<leftarrow> set_next h node queue;
     hd \<leftarrow> h queue;
     h \<leftarrow> set_prev h node (prev hd);
     n \<leftarrow> h node;
     h \<leftarrow> set_next h (prev n) node;
     set_prev h queue node
   }"

definition queue_move_to_start :: "'a qheap \<Rightarrow> 'a \<Rightarrow> 'a \<Rightarrow> 'a qheap option" where
  "queue_move_to_start h queue node = do { h \<leftarrow> queue__detach_node h node; queue_prepend h queue node }"

definition queue_move_to_end :: "'a qheap \<Rightarrow> 'a \<Rightarrow> 'a \<Rightarrow> 'a qheap option" where
  "queue_move_to_end h queue node = do { h \<leftarrow> queue__detach_node h node; queue_append h queue node }"

definition queue_remove :: "'a qheap \<Rightarrow> 'a \<Rightarrow> 'a qheap option" where
  "queue_remove h node = do { h \<leftarrow> queue__detach_node h node; queue_node_init h node }"

section \<open>Queues as lists\<close>

definition nxt :: "'a qheap \<Rightarrow> 'a \<Rightarrow> 'a option" where
  "nxt h p = map_option next (h p)"

definition prv :: "'a qheap \<Rightarrow> 'a \<Rightarrow> 'a option" where
  "prv h p = map_option prev (h p)"

text \<open>Neighbours in the list point to each other.\<close>

fun links :: "'a qheap \<Rightarrow> 'a list \<Rightarrow> bool" where
  "links h (a # b # r) \<longleftrightarrow> nxt h a = Some b \<and> prv h b = Some a \<and> links h (b # r)"
| "links h _ \<longleftrightarrow> True"

definition is_queue :: "'a qheap \<Rightarrow> 'a \<Rightarrow> 'a list \<Rightarrow> bool" where
  "is_queue h q xs \<longleftrightarrow> distinct (q # xs) \<and> links h (q # xs @ [q])"

definition detached :: "'a qheap \<Rightarrow> 'a \<Rightarrow> bool" where
  "detached h x \<longleftrightarrow> h x = Some \<lparr>prev = x, next = x\<rparr>"

lemma links_append: "links h (xs @ a # ys) \<longleftrightarrow> links h (xs @ [a]) \<and> links h (a # ys)"
proof (induction xs)
  case Nil
  then show ?case by (cases ys) auto
next
  case (Cons x xs)
  then show ?case by (cases xs) auto
qed

lemma links_last: "links h (q # xs @ [y]) \<Longrightarrow> prv h y = Some (last (q # xs))"
  by (induction xs arbitrary: q) auto

lemma links_hd: "links h (x # xs @ [y]) \<Longrightarrow> nxt h x = Some (hd (xs @ [y]))"
  by (cases xs) auto

lemma links_cong:
  assumes "\<And>x. x \<in> set (butlast l) \<Longrightarrow> nxt h x = nxt h' x" "\<And>x. x \<in> set (tl l) \<Longrightarrow> prv h x = prv h' x"
  shows "links h l \<longleftrightarrow> links h' l"
  using assms by (induction h l rule: links.induct) auto

lemma nxt_upd [queue_simps]: "nxt (h(p \<mapsto> n)) x = (if x = p then Some (next n) else nxt h x)"
  by (simp add: nxt_def)

lemma prv_upd [queue_simps]: "prv (h(p \<mapsto> n)) x = (if x = p then Some (prev n) else prv h x)"
  by (simp add: prv_def)

lemma nxt_SomeE: "nxt h x = Some y \<Longrightarrow> \<exists>n. h x = Some n \<and> next n = y"
  by (auto simp: nxt_def)

lemma prv_SomeE: "prv h x = Some y \<Longrightarrow> \<exists>n. h x = Some n \<and> prev n = y"
  by (auto simp: prv_def)

text \<open>The head of a queue points to the first and the last element, or to itself.\<close>

lemma is_queue_head:
  assumes "is_queue h q xs"
  shows "h q = Some \<lparr>prev = last (q # xs), next = hd (xs @ [q])\<rparr>"
proof -
  have l: "links h (q # xs @ [q])" using assms by (simp add: is_queue_def)
  show ?thesis using links_hd [OF l] links_last [OF l] by (auto dest!: nxt_SomeE prv_SomeE)
qed

text \<open>An element between its neighbours.\<close>

lemma is_queue_elem:
  assumes "is_queue h q (xs @ x # ys)"
  shows "h x = Some \<lparr>prev = last (q # xs), next = hd (ys @ [q])\<rparr>"
proof -
  have "links h ((q # xs) @ x # ys @ [q])" using assms by (simp add: is_queue_def)
  then have l: "links h (x # ys @ [q])" "links h (q # xs @ [x])"
    using links_append [of h "q # xs" x "ys @ [q]"] by simp_all
  show ?thesis using links_hd [OF l(1)] links_last [OF l(2)] by (auto dest!: nxt_SomeE prv_SomeE)
qed

lemma is_queue_allocated: "is_queue h q xs \<Longrightarrow> x \<in> set (q # xs) \<Longrightarrow> h x \<noteq> None"
  using is_queue_head is_queue_elem by (metis option.simps(3) set_ConsD split_list)

text \<open>A queue depends on its own nodes only.\<close>

lemma is_queue_frame:
  assumes "is_queue h q xs" "\<And>x. x \<in> set (q # xs) \<Longrightarrow> h' x = h x"
  shows "is_queue h' q xs"
proof -
  have "links h' (q # xs @ [q]) = links h (q # xs @ [q])"
    by (rule links_cong) (use assms(2) in \<open>auto simp: nxt_def prv_def dest!: in_set_butlastD\<close>)
  then show ?thesis using assms(1) by (simp add: is_queue_def)
qed

section \<open>What the operations do to the list\<close>

lemma queue_init_spec:
  assumes "h q \<noteq> None"
  shows "\<exists>h'. queue_init h q = Some h' \<and> is_queue h' q [] \<and> (\<forall>y. y \<noteq> q \<longrightarrow> h' y = h y)"
  using assms by (auto simp: queue_init_def queue_node_init_def set_prev_def set_next_def is_queue_def queue_simps)

lemma queue_node_init_spec:
  assumes "h x \<noteq> None"
  shows "queue_node_init h x = Some (h(x \<mapsto> \<lparr>prev = x, next = x\<rparr>))"
proof -
  obtain n where "h x = Some n" using assms by blast
  then show ?thesis by (cases n) (simp add: queue_node_init_def set_prev_def set_next_def)
qed

text \<open>Linking a new node between two neighbours, and taking one out.\<close>

lemma links_insert:
  assumes "links h (ys @ [a])" "links h (b # zs)" "nxt h' a = Some x" "prv h' x = Some a" "nxt h' x = Some b" "prv h' b = Some x"
    and "\<And>y. y \<in> set ys \<union> set (butlast (b # zs)) \<Longrightarrow> nxt h' y = nxt h y"
    and "\<And>y. y \<in> set (tl (ys @ [a])) \<union> set zs \<Longrightarrow> prv h' y = prv h y"
  shows "links h' (ys @ a # x # b # zs)"
proof -
  have "links h' (ys @ [a])" using assms(1) by (subst links_cong [of _ h' h]) (use assms(7,8) in auto)
  moreover have "links h' (b # zs)" using assms(2) by (subst links_cong [of _ h' h]) (use assms(7,8) in auto)
  ultimately show ?thesis using assms(3-6) by (subst links_append) simp
qed

lemma links_bypass:
  assumes "links h (ys @ [a])" "links h (b # zs)" "nxt h' a = Some b" "prv h' b = Some a"
    and "\<And>y. y \<in> set ys \<union> set (butlast (b # zs)) \<Longrightarrow> nxt h' y = nxt h y"
    and "\<And>y. y \<in> set (tl (ys @ [a])) \<union> set zs \<Longrightarrow> prv h' y = prv h y"
  shows "links h' (ys @ a # b # zs)"
proof -
  have "links h' (ys @ [a])" using assms(1) by (subst links_cong [of _ h' h]) (use assms(5,6) in auto)
  moreover have "links h' (b # zs)" using assms(2) by (subst links_cong [of _ h' h]) (use assms(5,6) in auto)
  ultimately show ?thesis using assms(3,4) by (subst links_append) simp
qed

text \<open>A node that is in no queue is put between two neighbours of the queue.\<close>

lemma is_queue_insert:
  assumes q: "is_queue h q (xs @ ys)" and x: "x \<notin> set (q # xs @ ys)"
    and h': "nxt h' (last (q # xs)) = Some x" "prv h' x = Some (last (q # xs))" "nxt h' x = Some (hd (ys @ [q]))"
      "prv h' (hd (ys @ [q])) = Some x"
      "\<And>y. y \<noteq> last (q # xs) \<Longrightarrow> y \<noteq> x \<Longrightarrow> nxt h' y = nxt h y"
      "\<And>y. y \<noteq> hd (ys @ [q]) \<Longrightarrow> y \<noteq> x \<Longrightarrow> prv h' y = prv h y"
  shows "is_queue h' q (xs @ x # ys)"
proof -
  define as a where "as = butlast (q # xs)" and "a = last (q # xs)"
  have qa: "q # xs = as @ [a]" by (simp add: as_def a_def)
  obtain b zs where qb: "ys @ [q] = b # zs" by (cases ys) auto
  have "links h (as @ a # ys @ [q])" using q qa by (metis is_queue_def append_Cons append_assoc append_Nil)
  then have l: "links h (as @ [a])" "links h (b # zs)"
    using links_append [of h as a "b # zs"] qb by simp_all
  have d: "distinct (as @ [a] @ ys)" using q qa by (metis is_queue_def append_Cons append_assoc)
  have "links h' (as @ a # x # b # zs)"
  proof (rule links_insert [OF l])
    show "nxt h' y = nxt h y" if "y \<in> set as \<union> set (butlast (b # zs))" for y
    proof -
      have "butlast (b # zs) = ys" using qb by (metis butlast_snoc)
      then have "y \<noteq> a" using that d by auto
      moreover have "y \<noteq> x" using that x qa \<open>butlast (b # zs) = ys\<close>
        by (metis UnE Un_iff append_Cons in_set_conv_decomp set_append)
      ultimately show ?thesis using h'(5) by (simp add: a_def)
    qed
    show "prv h' y = prv h y" if "y \<in> set (tl (as @ [a])) \<union> set zs" for y
    proof -
      have t: "tl (as @ [a]) = xs" using qa by (metis list.sel(3))
      have "set zs \<subseteq> set (q # ys)" using qb by (cases ys) auto
      then have yx: "y \<noteq> x" using that x t by auto
      have dq: "distinct (xs @ ys @ [q])" using q by (auto simp: is_queue_def)
      have "b \<notin> set xs" using dq qb by (cases ys) auto
      moreover have "b \<notin> set zs" using dq unfolding qb by simp
      ultimately have "y \<noteq> b" using that t by auto
      then show ?thesis using yx h'(6) qb by simp
    qed
  qed (use h' qb in \<open>simp_all add: a_def\<close>)
  then have "links h' (q # xs @ x # ys @ [q])" using qa qb by (metis append.assoc append_Cons append_Nil)
  moreover have "distinct (q # xs @ x # ys)" using q x by (auto simp: is_queue_def)
  ultimately show ?thesis by (simp add: is_queue_def)
qed

lemma is_queue_delete:
  assumes q: "is_queue h q (xs @ x # ys)"
    and h': "nxt h' (last (q # xs)) = Some (hd (ys @ [q]))" "prv h' (hd (ys @ [q])) = Some (last (q # xs))"
      "\<And>y. y \<noteq> last (q # xs) \<Longrightarrow> nxt h' y = nxt h y" "\<And>y. y \<noteq> hd (ys @ [q]) \<Longrightarrow> prv h' y = prv h y"
  shows "is_queue h' q (xs @ ys)"
proof -
  define as a where "as = butlast (q # xs)" and "a = last (q # xs)"
  have qa: "q # xs = as @ [a]" by (simp add: as_def a_def)
  obtain b zs where qb: "ys @ [q] = b # zs" by (cases ys) auto
  have "links h (as @ a # x # ys @ [q])" using q qa by (metis is_queue_def append_Cons append_assoc append_Nil)
  then have l: "links h (as @ [a])" "links h (b # zs)"
    using links_append [of h as a "x # b # zs"] qb by simp_all
  have d: "distinct (as @ [a] @ x # ys)" using q qa by (metis is_queue_def append_Cons append_assoc)
  have "links h' (as @ a # b # zs)"
  proof (rule links_bypass [OF l])
    show "nxt h' y = nxt h y" if "y \<in> set as \<union> set (butlast (b # zs))" for y
    proof -
      have "butlast (b # zs) = ys" using qb by (metis butlast_snoc)
      then have "y \<noteq> a" using that d by auto
      then show ?thesis using h'(3) by (simp add: a_def)
    qed
    show "prv h' y = prv h y" if "y \<in> set (tl (as @ [a])) \<union> set zs" for y
    proof -
      have t: "tl (as @ [a]) = xs" using qa by (metis list.sel(3))
      have dq: "distinct (xs @ ys @ [q])" using q by (auto simp: is_queue_def)
      have "b \<notin> set xs" using dq qb by (cases ys) auto
      moreover have "b \<notin> set zs" using dq unfolding qb by simp
      ultimately have "y \<noteq> b" using that t by auto
      then show ?thesis using h'(4) qb by simp
    qed
  qed (use h' qb in \<open>simp_all add: a_def\<close>)
  then have "links h' (q # xs @ ys @ [q])" using qa qb by (metis append.assoc append_Cons append_Nil)
  moreover have "distinct (q # xs @ ys)" using q by (auto simp: is_queue_def)
  ultimately show ?thesis by (simp add: is_queue_def)
qed

lemma queue_prepend_spec:
  assumes q: "is_queue h q xs" and x: "x \<notin> set (q # xs)" "h x \<noteq> None"
  shows "\<exists>h'. queue_prepend h q x = Some h' \<and> is_queue h' q (x # xs) \<and> (\<forall>y. y \<notin> set (q # x # xs) \<longrightarrow> h' y = h y)"
proof -
  obtain n where n: "h x = Some n" using x(2) by blast
  define a b where "a = last (q # xs)" and "b = hd (xs @ [q])"
  have hq: "h q = Some \<lparr>prev = a, next = b\<rparr>" using is_queue_head [OF q] by (simp only: a_def b_def)
  have bq: "b \<in> set (q # xs)" by (cases xs) (auto simp: b_def)
  obtain nb where nb: "h b = Some nb" using is_queue_allocated [OF q bq] by blast
  have xb: "x \<noteq> b" "x \<noteq> q" using x(1) bq by auto
  let ?h1 = "h(x \<mapsto> \<lparr>prev = q, next = b\<rparr>)"
  let ?h2 = "?h1(b \<mapsto> nb\<lparr>prev := x\<rparr>)"
  let ?h' = "?h2(q \<mapsto> the (?h2 q)\<lparr>next := x\<rparr>)"
  have run: "queue_prepend h q x = Some ?h'"
    using n nb hq xb by (cases n) (auto simp: queue_prepend_def set_prev_def set_next_def)
  have "is_queue ?h' q ([] @ x # xs)"
    by (rule is_queue_insert [of h q "[]" xs x ?h', folded b_def])
      (use q x xb hq nb n in \<open>auto simp: queue_simps nxt_def prv_def\<close>)
  moreover have "?h' y = h y" if "y \<notin> set (q # x # xs)" for y using that bq by auto
  ultimately show ?thesis using run by auto
qed

lemma queue_append_spec:
  assumes q: "is_queue h q xs" and x: "x \<notin> set (q # xs)" "h x \<noteq> None"
  shows "\<exists>h'. queue_append h q x = Some h' \<and> is_queue h' q (xs @ [x]) \<and> (\<forall>y. y \<notin> set (q # x # xs) \<longrightarrow> h' y = h y)"
proof -
  obtain n where n: "h x = Some n" using x(2) by blast
  define a b where "a = last (q # xs)" and "b = hd (xs @ [q])"
  have hq: "h q = Some \<lparr>prev = a, next = b\<rparr>" using is_queue_head [OF q] by (simp only: a_def b_def)
  have aq: "a \<in> set (q # xs)" unfolding a_def by (rule last_in_set) simp
  obtain na where na: "h a = Some na" using is_queue_allocated [OF q aq] by blast
  have xa: "x \<noteq> a" "x \<noteq> q" using x(1) aq by auto
  let ?h1 = "h(x \<mapsto> \<lparr>prev = a, next = q\<rparr>)"
  let ?h2 = "?h1(a \<mapsto> na\<lparr>next := x\<rparr>)"
  let ?h' = "?h2(q \<mapsto> the (?h2 q)\<lparr>prev := x\<rparr>)"
  have run: "queue_append h q x = Some ?h'"
    using n na hq xa by (cases n) (auto simp: queue_append_def set_prev_def set_next_def)
  have "is_queue ?h' q (xs @ x # [])"
    by (rule is_queue_insert [of h q xs "[]" x ?h', folded a_def])
      (use q x xa hq na n in \<open>auto simp: queue_simps nxt_def prv_def\<close>)
  moreover have "?h' y = h y" if "y \<notin> set (q # x # xs)" for y using that aq by auto
  ultimately show ?thesis using run by auto
qed

lemma queue__detach_node_spec:
  assumes q: "is_queue h q (xs @ x # ys)"
  shows "\<exists>h'. queue__detach_node h x = Some h' \<and> is_queue h' q (xs @ ys) \<and> h' x = h x
    \<and> (\<forall>y. y \<notin> set (q # xs @ ys) \<longrightarrow> h' y = h y)"
proof -
  define a b where "a = last (q # xs)" and "b = hd (ys @ [q])"
  have hx: "h x = Some \<lparr>prev = a, next = b\<rparr>" using is_queue_elem [OF q] by (simp only: a_def b_def)
  have ab: "a \<in> set (q # xs)" "b \<in> set (q # ys)"
    unfolding a_def b_def by (rule last_in_set, simp) (cases ys; simp)
  have d: "distinct (q # xs @ x # ys)" using q by (simp add: is_queue_def)
  have xab: "x \<noteq> a" "x \<noteq> b" using ab d by auto
  obtain na nb where n: "h a = Some na" "h b = Some nb"
    using is_queue_allocated [OF q, of a] is_queue_allocated [OF q, of b] ab by auto
  let ?h1 = "h(a \<mapsto> na\<lparr>next := b\<rparr>)"
  let ?h' = "?h1(b \<mapsto> the (?h1 b)\<lparr>prev := a\<rparr>)"
  have run: "queue__detach_node h x = Some ?h'"
    using hx n xab by (auto simp: queue__detach_node_def set_prev_def set_next_def)
  have "is_queue ?h' q (xs @ ys)"
    by (rule is_queue_delete [OF q, of ?h', folded a_def b_def]) (use n in \<open>auto simp: queue_simps nxt_def prv_def\<close>)
  moreover have "?h' y = h y" if "y \<notin> set (q # xs @ ys)" for y using that ab by auto
  ultimately show ?thesis using run xab by auto
qed

lemma queue_remove_spec:
  assumes q: "is_queue h q xs" and x: "x \<in> set xs"
  shows "\<exists>h'. queue_remove h x = Some h' \<and> is_queue h' q (remove1 x xs) \<and> detached h' x
    \<and> (\<forall>y. y \<notin> set (q # xs) \<longrightarrow> h' y = h y)"
proof -
  obtain ys zs where xs: "xs = ys @ x # zs" using split_list [OF x] by blast
  have d: "x \<notin> set (q # ys @ zs)" using q xs by (auto simp: is_queue_def)
  obtain h1 where h1: "queue__detach_node h x = Some h1" "is_queue h1 q (ys @ zs)" "h1 x = h x"
    "\<forall>y. y \<notin> set (q # ys @ zs) \<longrightarrow> h1 y = h y"
    using queue__detach_node_spec q xs by metis
  have "h1 x \<noteq> None" using is_queue_allocated [OF q, of x] x h1(3) by simp
  then have run: "queue_remove h x = Some (h1(x \<mapsto> \<lparr>prev = x, next = x\<rparr>))"
    using h1(1) by (simp add: queue_remove_def queue_node_init_spec)
  moreover have "is_queue (h1(x \<mapsto> \<lparr>prev = x, next = x\<rparr>)) q (ys @ zs)"
    by (rule is_queue_frame [OF h1(2)]) (use d in auto)
  moreover have "remove1 x xs = ys @ zs" using d xs by (simp add: remove1_append)
  ultimately show ?thesis using h1(4) xs by (auto simp: detached_def)
qed

lemma detach_again:
  assumes q: "is_queue h q xs" and x: "x \<in> set xs"
  obtains h1 where "queue__detach_node h x = Some h1" "is_queue h1 q (remove1 x xs)" "h1 x \<noteq> None"
    "x \<notin> set (q # remove1 x xs)" "\<And>y. y \<notin> set (q # xs) \<Longrightarrow> h1 y = h y"
proof -
  obtain ys zs where xs: "xs = ys @ x # zs" using split_list [OF x] by blast
  have d: "x \<notin> set (q # ys @ zs)" using q xs by (auto simp: is_queue_def)
  then have "remove1 x xs = ys @ zs" using xs by (simp add: remove1_append)
  then show thesis
    using queue__detach_node_spec [of h q ys x zs] q xs d is_queue_allocated [OF q, of x]
    by (auto intro!: that)
qed

lemma queue_move_to_start_spec:
  assumes "is_queue h q xs" "x \<in> set xs"
  shows "\<exists>h'. queue_move_to_start h q x = Some h' \<and> is_queue h' q (x # remove1 x xs)
    \<and> (\<forall>y. y \<notin> set (q # xs) \<longrightarrow> h' y = h y)"
proof -
  obtain h1 where h1: "queue__detach_node h x = Some h1" "is_queue h1 q (remove1 x xs)" "h1 x \<noteq> None"
    "x \<notin> set (q # remove1 x xs)" "\<And>y. y \<notin> set (q # xs) \<Longrightarrow> h1 y = h y"
    using detach_again [OF assms] by blast
  then show ?thesis
    using queue_prepend_spec [OF h1(2,4,3)] assms(2) notin_set_remove1 [of _ xs x]
    by (fastforce simp: queue_move_to_start_def)
qed

lemma queue_move_to_end_spec:
  assumes "is_queue h q xs" "x \<in> set xs"
  shows "\<exists>h'. queue_move_to_end h q x = Some h' \<and> is_queue h' q (remove1 x xs @ [x])
    \<and> (\<forall>y. y \<notin> set (q # xs) \<longrightarrow> h' y = h y)"
proof -
  obtain h1 where h1: "queue__detach_node h x = Some h1" "is_queue h1 q (remove1 x xs)" "h1 x \<noteq> None"
    "x \<notin> set (q # remove1 x xs)" "\<And>y. y \<notin> set (q # xs) \<Longrightarrow> h1 y = h y"
    using detach_again [OF assms] by blast
  then show ?thesis
    using queue_append_spec [OF h1(2,4,3)] assms(2) notin_set_remove1 [of _ xs x]
    by (fastforce simp: queue_move_to_end_def)
qed

lemma queue_is_empty_spec: "is_queue h q xs \<Longrightarrow> queue_is_empty h q = Some (xs = [])"
proof -
  assume q: "is_queue h q xs"
  have "last (q # xs) = q \<longleftrightarrow> xs = []" using q last_in_set [of xs] by (auto simp: is_queue_def)
  then show ?thesis using is_queue_head [OF q] by (simp add: queue_is_empty_def queue_is_enqueued_def)
qed

lemma queue_first_spec: "is_queue h q xs \<Longrightarrow> queue_first h q = Some (if xs = [] then None else Some (hd xs))"
  using queue_is_empty_spec [of h q xs] is_queue_head [of h q xs] by (simp add: queue_first_def)

lemma queue_last_spec: "is_queue h q xs \<Longrightarrow> queue_last h q = Some (if xs = [] then None else Some (last xs))"
  using queue_is_empty_spec [of h q xs] is_queue_head [of h q xs] by (simp add: queue_last_def)

lemma queue_is_enqueued_elem: "is_queue h q xs \<Longrightarrow> x \<in> set xs \<Longrightarrow> queue_is_enqueued h x = Some True"
proof -
  assume q: "is_queue h q xs" and "x \<in> set xs"
  then obtain ys zs where xs: "xs = ys @ x # zs" using split_list by metis
  have "x \<notin> set (q # ys)" using q xs by (auto simp: is_queue_def)
  then have "last (q # ys) \<noteq> x" using last_in_set [of "q # ys"] by auto
  then show ?thesis using is_queue_elem [of h q ys x zs] q xs by (simp add: queue_is_enqueued_def)
qed

lemma queue_is_enqueued_detached: "detached h x \<Longrightarrow> queue_is_enqueued h x = Some False"
  by (simp add: detached_def queue_is_enqueued_def)

section \<open>The interface\<close>

text \<open>Taking elements off the front until the queue is empty, as the port does with its queues.\<close>

fun drain :: "('h \<Rightarrow> 'a \<Rightarrow> 'a option option) \<Rightarrow> ('h \<Rightarrow> 'a \<Rightarrow> 'h option) \<Rightarrow> nat \<Rightarrow> 'h \<Rightarrow> 'a \<Rightarrow> ('a list \<times> 'h) option" where
  "drain first remove 0 h q = None"
| "drain first remove (Suc n) h q = do {
     x \<leftarrow> first h q;
     (case x of
        None \<Rightarrow> Some ([], h)
      | Some x \<Rightarrow> do { h \<leftarrow> remove h x; (xs, h) \<leftarrow> drain first remove n h q; Some (x # xs, h) })
   }"

fun enqueue_all :: "('h \<Rightarrow> 'a \<Rightarrow> 'a \<Rightarrow> 'h option) \<Rightarrow> 'h \<Rightarrow> 'a \<Rightarrow> 'a list \<Rightarrow> 'h option" where
  "enqueue_all app h q [] = Some h"
| "enqueue_all app h q (x # xs) = do { h \<leftarrow> app h q x; enqueue_all app h q xs }"

locale intrusive_queue =
  fixes isq :: "'h \<Rightarrow> 'a \<Rightarrow> 'a list \<Rightarrow> bool"
    and alone :: "'h \<Rightarrow> 'a \<Rightarrow> bool"
    and first :: "'h \<Rightarrow> 'a \<Rightarrow> 'a option option"
    and app :: "'h \<Rightarrow> 'a \<Rightarrow> 'a \<Rightarrow> 'h option"
    and remove :: "'h \<Rightarrow> 'a \<Rightarrow> 'h option"
  assumes distinct_law: "isq h q xs \<Longrightarrow> distinct (q # xs)"
    and alone_law: "isq h q xs \<Longrightarrow> alone h x \<Longrightarrow> x \<notin> set xs"
    and first_law: "isq h q xs \<Longrightarrow> first h q = Some (if xs = [] then None else Some (hd xs))"
    and append_law: "isq h q xs \<Longrightarrow> alone h x \<Longrightarrow> x \<noteq> q \<Longrightarrow>
      \<exists>h'. app h q x = Some h' \<and> isq h' q (xs @ [x])
        \<and> (\<forall>y. alone h y \<and> y \<noteq> q \<and> y \<noteq> x \<longrightarrow> alone h' y)
        \<and> (\<forall>p ys. isq h p ys \<and> p \<noteq> x \<and> set (p # ys) \<inter> set (q # xs) = {} \<longrightarrow> isq h' p ys)"
    and remove_law: "isq h q xs \<Longrightarrow> x \<in> set xs \<Longrightarrow>
      \<exists>h'. remove h x = Some h' \<and> isq h' q (remove1 x xs) \<and> alone h' x
        \<and> (\<forall>y. alone h y \<and> y \<noteq> q \<longrightarrow> alone h' y)
        \<and> (\<forall>p ys. isq h p ys \<and> set (p # ys) \<inter> set (q # xs) = {} \<longrightarrow> isq h' p ys)"
begin

lemma enqueue_all_spec:
  assumes "isq h q ys" "\<And>x. x \<in> set xs \<Longrightarrow> alone h x \<and> x \<noteq> q" "distinct xs"
  shows "\<exists>h'. enqueue_all app h q xs = Some h' \<and> isq h' q (ys @ xs)"
  using assms
proof (induction xs arbitrary: h ys)
  case Nil
  then show ?case by simp
next
  case (Cons x xs)
  obtain h1 where h1: "app h q x = Some h1" "isq h1 q (ys @ [x])"
    "\<And>y. alone h y \<Longrightarrow> y \<noteq> q \<Longrightarrow> y \<noteq> x \<Longrightarrow> alone h1 y"
    using append_law [OF Cons.prems(1), of x] Cons.prems(2) by auto
  have "\<And>y. y \<in> set xs \<Longrightarrow> alone h1 y \<and> y \<noteq> q" using Cons.prems(2,3) h1(3) by auto
  then show ?case using Cons.IH [OF h1(2)] Cons.prems(3) h1(1) by auto
qed

lemma drain_keeps:
  assumes "isq h q xs" "drain first remove n h q = Some (ys, h')" "length xs < n" "alone h x" "x \<noteq> q"
  shows "alone h' x"
  using assms
proof (induction xs arbitrary: h n ys)
  case Nil
  then show ?case using first_law [OF Nil.prems(1)] by (cases n) auto
next
  case (Cons z xs)
  obtain m where n: "n = Suc m" "length xs < m" using Cons.prems(3) by (cases n) auto
  obtain h1 where h1: "remove h z = Some h1" "isq h1 q xs" "alone h1 x"
    using remove_law [OF Cons.prems(1), of z] Cons.prems(4,5) by auto
  then show ?case
    using Cons.IH [OF h1(2) _ n(2) h1(3) Cons.prems(5)] Cons.prems(2) first_law [OF Cons.prems(1)] n(1)
    by (auto simp: bind_eq_Some_conv)
qed

lemma drain_spec:
  assumes "isq h q xs" "length xs < n"
  shows "\<exists>h'. drain first remove n h q = Some (xs, h') \<and> isq h' q [] \<and> (\<forall>x \<in> set xs. alone h' x)"
  using assms
proof (induction xs arbitrary: h n)
  case Nil
  then show ?case using first_law [OF Nil.prems(1)] by (cases n) auto
next
  case (Cons x xs)
  obtain m where n: "n = Suc m" "length xs < m" using Cons.prems(2) by (cases n) auto
  obtain h1 where h1: "remove h x = Some h1" "isq h1 q xs" "alone h1 x"
    using remove_law [OF Cons.prems(1), of x] by auto
  obtain h2 where h2: "drain first remove m h1 q = Some (xs, h2)" "isq h2 q []" "\<forall>x \<in> set xs. alone h2 x"
    using Cons.IH [OF h1(2) n(2)] by blast
  have xq: "x \<noteq> q" "x \<notin> set xs" using distinct_law [OF Cons.prems(1)] by auto
  have "alone h2 x" using drain_keeps [OF h1(2) h2(1) n(2) h1(3) xq(1)] .
  then show ?case using first_law [OF Cons.prems(1)] n(1) h1(1) h2 by auto
qed

end

lemma detached_not_elem: "is_queue h q xs \<Longrightarrow> detached h x \<Longrightarrow> x \<notin> set xs"
  using queue_is_enqueued_elem queue_is_enqueued_detached by fastforce

interpretation ciq: intrusive_queue is_queue detached queue_first queue_append queue_remove
proof unfold_locales
  fix h :: "'a qheap" and q xs x
  assume q: "is_queue h q xs"
  show "distinct (q # xs)" using q by (simp add: is_queue_def)
  show "queue_first h q = Some (if xs = [] then None else Some (hd xs))" using q by (rule queue_first_spec)
  show "x \<notin> set xs" if "detached h x" using detached_not_elem [OF q that] .
  show "\<exists>h'. queue_append h q x = Some h' \<and> is_queue h' q (xs @ [x])
      \<and> (\<forall>y. detached h y \<and> y \<noteq> q \<and> y \<noteq> x \<longrightarrow> detached h' y)
      \<and> (\<forall>p ys. is_queue h p ys \<and> p \<noteq> x \<and> set (p # ys) \<inter> set (q # xs) = {} \<longrightarrow> is_queue h' p ys)"
    if x: "detached h x" "x \<noteq> q"
  proof -
    have nx: "x \<notin> set (q # xs)" "h x \<noteq> None" using detached_not_elem [OF q x(1)] x by (auto simp: detached_def)
    obtain h' where h': "queue_append h q x = Some h'" "is_queue h' q (xs @ [x])"
      "\<And>y. y \<notin> set (q # x # xs) \<Longrightarrow> h' y = h y"
      using queue_append_spec [OF q nx] by blast
    have "detached h' y" if "detached h y" "y \<noteq> q" "y \<noteq> x" for y
      using that h'(3) [of y] detached_not_elem [OF q that(1)] by (simp add: detached_def)
    moreover have "is_queue h' p ys" if "is_queue h p ys" "p \<noteq> x" "set (p # ys) \<inter> set (q # xs) = {}" for p ys
    proof (rule is_queue_frame [OF that(1)])
      fix y assume "y \<in> set (p # ys)"
      then have "y \<notin> set (q # x # xs)" using that(2,3) detached_not_elem [OF that(1) x(1)] by auto
      then show "h' y = h y" by (rule h'(3))
    qed
    ultimately show ?thesis using h'(1,2) by blast
  qed
  show "\<exists>h'. queue_remove h x = Some h' \<and> is_queue h' q (remove1 x xs) \<and> detached h' x
      \<and> (\<forall>y. detached h y \<and> y \<noteq> q \<longrightarrow> detached h' y)
      \<and> (\<forall>p ys. is_queue h p ys \<and> set (p # ys) \<inter> set (q # xs) = {} \<longrightarrow> is_queue h' p ys)"
    if x: "x \<in> set xs"
  proof -
    obtain h' where h': "queue_remove h x = Some h'" "is_queue h' q (remove1 x xs)" "detached h' x"
      "\<And>y. y \<notin> set (q # xs) \<Longrightarrow> h' y = h y"
      using queue_remove_spec [OF q x] by blast
    have "detached h' y" if "detached h y" "y \<noteq> q" for y
      using that h'(4) [of y] detached_not_elem [OF q that(1)] by (simp add: detached_def)
    moreover have "is_queue h' p ys" if "is_queue h p ys" "set (p # ys) \<inter> set (q # xs) = {}" for p ys
    proof (rule is_queue_frame [OF that(1)])
      fix y assume "y \<in> set (p # ys)"
      then have "y \<notin> set (q # xs)" using that(2) by blast
      then show "h' y = h y" by (rule h'(4))
    qed
    ultimately show ?thesis using h'(1-3) by blast
  qed
qed

section \<open>Properties\<close>

text \<open>
  First in, first out: elements appended to an empty queue come out at the front in the
  same order, and afterwards the queue is empty and every element is detached.
\<close>

theorem queue_fifo:
  assumes "h q \<noteq> None" "distinct xs" "\<And>x. x \<in> set xs \<Longrightarrow> detached h x \<and> x \<noteq> q"
  shows "\<exists>h0 h1 h2. queue_init h q = Some h0 \<and> enqueue_all queue_append h0 q xs = Some h1
    \<and> drain queue_first queue_remove (Suc (length xs)) h1 q = Some (xs, h2)
    \<and> queue_is_empty h2 q = Some True \<and> (\<forall>x \<in> set xs. queue_is_enqueued h2 x = Some False)"
proof -
  obtain h0 where h0: "queue_init h q = Some h0" "is_queue h0 q []" "\<And>y. y \<noteq> q \<Longrightarrow> h0 y = h y"
    using queue_init_spec [of h q, OF assms(1)] by blast
  have "detached h0 x \<and> x \<noteq> q" if "x \<in> set xs" for x using assms(3) [OF that] h0(3) by (simp add: detached_def)
  then obtain h1 where h1: "enqueue_all queue_append h0 q xs = Some h1" "is_queue h1 q xs"
    using ciq.enqueue_all_spec [OF h0(2) _ assms(2)] by auto
  then obtain h2 where "drain queue_first queue_remove (Suc (length xs)) h1 q = Some (xs, h2)" "is_queue h2 q []"
    "\<forall>x \<in> set xs. detached h2 x"
    using ciq.drain_spec [OF h1(2), of "Suc (length xs)"] by auto
  then show ?thesis using h0(1) h1(1) queue_is_empty_spec queue_is_enqueued_detached by fastforce
qed

theorem queue_fifo_witness:
  "\<exists>h0 h1 h2. queue_init (\<lambda>x. Some \<lparr>prev = x, next = x\<rparr>) (0 :: nat) = Some h0
    \<and> enqueue_all queue_append h0 0 [3, 1, 2] = Some h1
    \<and> drain queue_first queue_remove 4 h1 0 = Some ([3, 1, 2], h2)"
  using queue_fifo [of "\<lambda>x. Some \<lparr>prev = x, next = x\<rparr>" "0 :: nat" "[3, 1, 2]"]
  by (auto simp: detached_def eval_nat_numeral)

text \<open>
  An element of a queue is moved to its front or to its end in place, the order of the
  others is kept, and nodes outside the queue are not touched.
\<close>

theorem queue_move:
  assumes "is_queue h q xs" "x \<in> set xs"
  shows "(\<exists>h'. queue_move_to_start h q x = Some h' \<and> is_queue h' q (x # remove1 x xs)
      \<and> queue_first h' q = Some (Some x) \<and> (\<forall>y. y \<notin> set (q # xs) \<longrightarrow> h' y = h y))
    \<and> (\<exists>h'. queue_move_to_end h q x = Some h' \<and> is_queue h' q (remove1 x xs @ [x])
      \<and> queue_last h' q = Some (Some x) \<and> (\<forall>y. y \<notin> set (q # xs) \<longrightarrow> h' y = h y))"
  using queue_move_to_start_spec [OF assms] queue_move_to_end_spec [OF assms] queue_first_spec queue_last_spec
  by fastforce

theorem queue_move_witness:
  "\<exists>h h'. is_queue h (0 :: nat) [1, 2] \<and> queue_move_to_start h 0 2 = Some h' \<and> is_queue h' 0 [2, 1]"
proof -
  let ?h = "\<lambda>x :: nat. if x = 0 then Some \<lparr>prev = 2, next = 1\<rparr>
    else if x = 1 then Some \<lparr>prev = 0, next = 2\<rparr> else if x = 2 then Some \<lparr>prev = 1, next = 0\<rparr> else None"
  have "is_queue ?h 0 [1, 2]" by (simp add: is_queue_def nxt_def prv_def)
  then show ?thesis using queue_move [of ?h 0 "[1, 2]" 2] by auto
qed

end
