(* ===== verification/WepollTree.thy ===== *)
theory WepollTree
  imports Prelude
begin

text \<open>
  The red-black trees of \<^verbatim>\<open>src/src/arch/windows/wepoll/wepoll.c\<close>, on an explicit heap of tree
  nodes with parent pointers. The macros that are instantiated once with \<open>left, right\<close> and
  once with \<open>right, left\<close> take a side here. The loops are written as they are in the code; on a
  heap that is not a tree they may run on, which is the value \<open>None\<close>, like a null dereference.
  Here are the data and the operations; the proofs are in \<open>WepollTreeAdd\<close> and \<open>WepollTreeDel\<close>.
\<close>

section \<open>Nodes\<close>

record 'a tree_node =
  left :: "'a option"
  right :: "'a option"
  parent :: "'a option"
  key :: u64
  red :: bool

type_synonym 'a theap = "'a \<Rightarrow> 'a tree_node option"

text \<open>A tree is its root pointer and the heap its nodes are in.\<close>

type_synonym 'a tree = "'a option \<times> 'a theap"

datatype side = LeftS | RightS

fun opp :: "side \<Rightarrow> side" where
  "opp LeftS = RightS"
| "opp RightS = LeftS"

definition child :: "side \<Rightarrow> 'a tree_node \<Rightarrow> 'a option" where
  "child s n = (case s of LeftS \<Rightarrow> left n | RightS \<Rightarrow> right n)"

definition set_child :: "side \<Rightarrow> 'a option \<Rightarrow> 'a tree_node \<Rightarrow> 'a tree_node" where
  "set_child s v n = (case s of LeftS \<Rightarrow> n\<lparr>left := v\<rparr> | RightS \<Rightarrow> n\<lparr>right := v\<rparr>)"

definition set_parent :: "'a option \<Rightarrow> 'a tree_node \<Rightarrow> 'a tree_node" where
  "set_parent v n = n\<lparr>parent := v\<rparr>"

definition set_red :: "bool \<Rightarrow> 'a tree_node \<Rightarrow> 'a tree_node" where
  "set_red c n = n\<lparr>red := c\<rparr>"

text \<open>An assignment to a field of the node at \<open>p\<close>.\<close>

definition upd :: "('a tree_node \<Rightarrow> 'a tree_node) \<Rightarrow> 'a theap \<Rightarrow> 'a \<Rightarrow> 'a theap option" where
  "upd f h p = do { n \<leftarrow> h p; Some (h(p \<mapsto> f n)) }"

text \<open>The test \<^verbatim>\<open>p && p->red\<close>.\<close>

definition is_red :: "'a theap \<Rightarrow> 'a option \<Rightarrow> bool option" where
  "is_red h p = (case p of None \<Rightarrow> Some False | Some a \<Rightarrow> do { n \<leftarrow> h a; Some (red n) })"

definition null_tree_node :: "'a tree_node" where
  "null_tree_node = \<lparr>left = None, right = None, parent = None, key = 0, red = False\<rparr>"

definition tree_init :: "'a theap \<Rightarrow> 'a tree" where
  "tree_init h = (None, h)"

definition tree_node_init :: "'a theap \<Rightarrow> 'a \<Rightarrow> 'a theap option" where
  "tree_node_init h node = upd (\<lambda>_. null_tree_node) h node"

section \<open>Rotation\<close>

text \<open>The link that leads to \<open>p\<close>, in its parent or in the root, is made to lead to \<open>v\<close>.\<close>

definition relink :: "'a tree \<Rightarrow> 'a option \<Rightarrow> 'a \<Rightarrow> 'a option \<Rightarrow> 'a tree option" where
  "relink t par p v =
     (let (root, h) = t in
      case par of
        Some pa \<Rightarrow> do {
          pn \<leftarrow> h pa;
          h \<leftarrow> upd (set_child (if left pn = Some p then LeftS else RightS) v) h pa;
          Some (root, h)
        }
      | None \<Rightarrow> Some (v, h))"

definition tree__rotate :: "side \<Rightarrow> 'a tree \<Rightarrow> 'a \<Rightarrow> 'a tree option" where
  "tree__rotate cis t p = do {
     pn \<leftarrow> snd t p;
     q \<leftarrow> child (opp cis) pn;
     let par = parent pn;
     (root, h) \<leftarrow> relink t par p (Some q);
     h \<leftarrow> upd (set_parent par) h q;
     h \<leftarrow> upd (set_parent (Some q)) h p;
     qn \<leftarrow> h q;
     h \<leftarrow> upd (set_child (opp cis) (child cis qn)) h p;
     pn \<leftarrow> h p;
     h \<leftarrow> (case child (opp cis) pn of None \<Rightarrow> Some h | Some c \<Rightarrow> upd (set_parent (Some p)) h c);
     h \<leftarrow> upd (set_child cis (Some p)) h q;
     Some (root, h)
   }"

section \<open>Insertion\<close>

text \<open>The place for a key: the node that gets a new child, or \<open>None\<close> when the key is there.\<close>

partial_function (option) tree__descend :: "'a theap \<Rightarrow> u64 \<Rightarrow> 'a \<Rightarrow> ('a \<times> side) option option" where
  "tree__descend h k p = do {
     n \<leftarrow> h p;
     (if k < key n then
        (case left n of Some c \<Rightarrow> tree__descend h k c | None \<Rightarrow> Some (Some (p, LeftS)))
      else if k > key n then
        (case right n of Some c \<Rightarrow> tree__descend h k c | None \<Rightarrow> Some (Some (p, RightS)))
      else Some None)
   }"

declare tree__descend.simps [code]

definition tree__rebalance_after_insert :: "side \<Rightarrow> 'a tree \<Rightarrow> 'a \<Rightarrow> 'a \<Rightarrow> ('a tree \<times> 'a) option" where
  "tree__rebalance_after_insert cis t node par = do {
     let (root, h) = t;
     pn \<leftarrow> h par;
     grandparent \<leftarrow> parent pn;
     gn \<leftarrow> h grandparent;
     let uncle = child (opp cis) gn;
     ured \<leftarrow> is_red h uncle;
     (if ured then do {
        u \<leftarrow> uncle;
        h \<leftarrow> upd (set_red False) h u;
        h \<leftarrow> upd (set_red False) h par;
        h \<leftarrow> upd (set_red True) h grandparent;
        Some ((root, h), grandparent)
      }
      else do {
        ((root, h), node, par) \<leftarrow>
          (if child (opp cis) pn = Some node then do {
             (root, h) \<leftarrow> tree__rotate cis (root, h) par;
             nn \<leftarrow> h par;
             par' \<leftarrow> parent nn;
             Some ((root, h), par, par')
           }
           else Some ((root, h), node, par));
        h \<leftarrow> upd (set_red False) h par;
        h \<leftarrow> upd (set_red True) h grandparent;
        t \<leftarrow> tree__rotate (opp cis) (root, h) grandparent;
        Some (t, node)
      })
   }"

partial_function (option) tree__fix_insert :: "'a tree \<Rightarrow> 'a \<Rightarrow> 'a option \<Rightarrow> 'a tree option" where
  "tree__fix_insert t node par =
     (case par of
        None \<Rightarrow> Some t
      | Some p \<Rightarrow> do {
          pn \<leftarrow> snd t p;
          (if red pn then do {
             g \<leftarrow> parent pn;
             gn \<leftarrow> snd t g;
             (t, node) \<leftarrow> tree__rebalance_after_insert (if left gn = Some p then LeftS else RightS) t node p;
             nn \<leftarrow> snd t node;
             tree__fix_insert t node (parent nn)
           }
           else Some t)
        })"

declare tree__fix_insert.simps [code]

definition tree_add :: "'a tree \<Rightarrow> 'a \<Rightarrow> u64 \<Rightarrow> (int \<times> 'a tree) option" where
  "tree_add t node k = do {
     let (root, h) = t;
     place \<leftarrow>
       (case root of
          None \<Rightarrow> Some (Some (None, Some node, h))
        | Some r \<Rightarrow> do {
            d \<leftarrow> tree__descend h k r;
            (case d of
               None \<Rightarrow> Some None
             | Some (p, s) \<Rightarrow> do { h \<leftarrow> upd (set_child s (Some node)) h p; Some (Some (Some p, root, h)) })
          });
     (case place of
        None \<Rightarrow> Some (-1, t)
      | Some (par, root, h) \<Rightarrow> do {
          h \<leftarrow> upd (\<lambda>n. n\<lparr>key := k, left := None, right := None, parent := par, red := True\<rparr>) h node;
          (root, h) \<leftarrow> tree__fix_insert (root, h) node par;
          r \<leftarrow> root;
          h \<leftarrow> upd (set_red False) h r;
          Some (0, (root, h))
        })
   }"

section \<open>Removal\<close>

partial_function (option) tree__leftmost :: "'a theap \<Rightarrow> 'a \<Rightarrow> 'a option" where
  "tree__leftmost h p = do {
     n \<leftarrow> h p;
     (case left n of None \<Rightarrow> Some p | Some c \<Rightarrow> tree__leftmost h c)
   }"

declare tree__leftmost.simps [code]

text \<open>
  One pass of the loop body, in two parts: a red sibling is rotated away, then the black sibling
  and its children decide. The result says whether the loop is left by \<^verbatim>\<open>break\<close>.
\<close>

definition tree__rotate_red_sibling :: "side \<Rightarrow> 'a tree \<Rightarrow> 'a \<Rightarrow> ('a tree \<times> 'a) option" where
  "tree__rotate_red_sibling cis t par = do {
     let (root, h) = t;
     pn \<leftarrow> h par;
     sibling \<leftarrow> child (opp cis) pn;
     sn \<leftarrow> h sibling;
     (if red sn then do {
        h \<leftarrow> upd (set_red False) h sibling;
        h \<leftarrow> upd (set_red True) h par;
        (root, h) \<leftarrow> tree__rotate cis (root, h) par;
        pn \<leftarrow> h par;
        sibling \<leftarrow> child (opp cis) pn;
        Some ((root, h), sibling)
      }
      else Some ((root, h), sibling))
   }"

definition tree__rebalance_sibling :: "side \<Rightarrow> 'a tree \<Rightarrow> 'a \<Rightarrow> 'a \<Rightarrow> ('a tree \<times> bool) option" where
  "tree__rebalance_sibling cis t par sibling = do {
     let (root, h) = t;
     sn \<leftarrow> h sibling;
     lred \<leftarrow> is_red h (left sn);
     anyred \<leftarrow> (if lred then Some True else is_red h (right sn));
     (if anyred then do {
        tred \<leftarrow> is_red h (child (opp cis) sn);
        ((root, h), sibling) \<leftarrow>
          (if \<not> tred then do {
             c \<leftarrow> child cis sn;
             h \<leftarrow> upd (set_red False) h c;
             h \<leftarrow> upd (set_red True) h sibling;
             (root, h) \<leftarrow> tree__rotate (opp cis) (root, h) sibling;
             pn \<leftarrow> h par;
             sibling \<leftarrow> child (opp cis) pn;
             Some ((root, h), sibling)
           }
           else Some ((root, h), sibling));
        pn \<leftarrow> h par;
        h \<leftarrow> upd (set_red (red pn)) h sibling;
        sn \<leftarrow> h sibling;
        c \<leftarrow> child (opp cis) sn;
        h \<leftarrow> upd (set_red False) h c;
        h \<leftarrow> upd (set_red False) h par;
        t \<leftarrow> tree__rotate cis (root, h) par;
        Some (t, True)
      }
      else do {
        h \<leftarrow> upd (set_red True) h sibling;
        Some ((root, h), False)
      })
   }"

definition tree__rebalance_after_remove :: "side \<Rightarrow> 'a tree \<Rightarrow> 'a \<Rightarrow> ('a tree \<times> bool) option" where
  "tree__rebalance_after_remove cis t par = do {
     (t, sibling) \<leftarrow> tree__rotate_red_sibling cis t par;
     tree__rebalance_sibling cis t par sibling
   }"

text \<open>The loop and the assignment after it.\<close>

partial_function (option) tree__fix_remove :: "'a tree \<Rightarrow> 'a option \<Rightarrow> 'a option \<Rightarrow> 'a tree option" where
  "tree__fix_remove t node par =
     (let blacken = (\<lambda>t node. case node of None \<Rightarrow> Some t
                       | Some a \<Rightarrow> do { h \<leftarrow> upd (set_red False) (snd t) a; Some (fst t, h) })
      in if node = fst t then blacken t node
         else do {
           p \<leftarrow> par;
           pn \<leftarrow> snd t p;
           (t, brk) \<leftarrow> tree__rebalance_after_remove (if node = left pn then LeftS else RightS) t p;
           (if brk then blacken t (fst t)
            else do {
              pn \<leftarrow> snd t p;
              (if red pn then blacken t (Some p) else tree__fix_remove t (Some p) (parent pn))
            })
         })"

declare tree__fix_remove.simps [code]

text \<open>
  The first part of the removal: the node is taken out, or its successor is put in its place;
  the result is the tree, the colour that is missing, and the child and the parent at the place
  where it is missing.
\<close>

definition tree__unlink :: "'a tree \<Rightarrow> 'a \<Rightarrow> ('a tree \<times> bool \<times> 'a option \<times> 'a option) option" where
  "tree__unlink t node = do {
     nn \<leftarrow> snd t node;
     let par = parent nn;
     let lft = left nn;
     let rgt = right nn;
     nxt \<leftarrow> (case lft of
               None \<Rightarrow> Some rgt
             | Some l \<Rightarrow> (case rgt of None \<Rightarrow> Some lft
                          | Some r \<Rightarrow> do { m \<leftarrow> tree__leftmost (snd t) r; Some (Some m) }));
     (root, h) \<leftarrow> relink t par node nxt;
     (case (lft, rgt) of
        (Some l, Some r) \<Rightarrow> do {
          m \<leftarrow> nxt;
          mn \<leftarrow> h m;
          let rd = red mn;
          nn \<leftarrow> h node;
          h \<leftarrow> upd (set_red (red nn)) h m;
          h \<leftarrow> upd (set_child LeftS lft) h m;
          h \<leftarrow> upd (set_parent nxt) h l;
          (if nxt \<noteq> rgt then do {
             mn \<leftarrow> h m;
             mp \<leftarrow> parent mn;
             nn \<leftarrow> h node;
             h \<leftarrow> upd (set_parent (parent nn)) h m;
             mn \<leftarrow> h m;
             let x = right mn;
             h \<leftarrow> upd (set_child LeftS x) h mp;
             h \<leftarrow> upd (set_child RightS rgt) h m;
             h \<leftarrow> upd (set_parent nxt) h r;
             Some ((root, h), rd, x, Some mp)
           }
           else do {
             h \<leftarrow> upd (set_parent par) h m;
             mn \<leftarrow> h m;
             Some ((root, h), rd, right mn, nxt)
           })
        }
      | _ \<Rightarrow> do { nn \<leftarrow> h node; Some ((root, h), red nn, nxt, par) })
   }"

definition tree_del :: "'a tree \<Rightarrow> 'a \<Rightarrow> 'a tree option" where
  "tree_del t node = do {
     ((root, h), rd, x, par) \<leftarrow> tree__unlink t node;
     h \<leftarrow> (case x of None \<Rightarrow> Some h | Some a \<Rightarrow> upd (set_parent par) h a);
     (if rd then Some (root, h)
      else do {
        xr \<leftarrow> is_red h x;
        (if xr then do { a \<leftarrow> x; h \<leftarrow> upd (set_red False) h a; Some (root, h) }
         else tree__fix_remove (root, h) x par)
      })
   }"

section \<open>Lookup\<close>

partial_function (option) tree__find_from :: "'a theap \<Rightarrow> u64 \<Rightarrow> 'a option \<Rightarrow> 'a option option" where
  "tree__find_from h k node =
     (case node of
        None \<Rightarrow> Some None
      | Some p \<Rightarrow> do {
          n \<leftarrow> h p;
          (if k < key n then tree__find_from h k (left n)
           else if k > key n then tree__find_from h k (right n)
           else Some (Some p))
        })"

declare tree__find_from.simps [code]

definition tree_find :: "'a tree \<Rightarrow> u64 \<Rightarrow> 'a option option" where
  "tree_find t k = tree__find_from (snd t) k (fst t)"

definition tree_root :: "'a tree \<Rightarrow> 'a option" where
  "tree_root t = fst t"

end
