(* ===== verification/WepollErr.thy ===== *)
theory WepollErr
  imports Prelude
begin

text \<open>
  Error codes of \<^verbatim>\<open>src/src/arch/windows/wepoll/wepoll.c\<close>: the table from Windows error codes to
  \<open>errno\<close> values, the two error variables of a thread and the macros that set them. The numeric
  values of the codes are not in the source; the codes are their names here.
\<close>

section \<open>The table\<close>

type_synonym win_error = string
type_synonym errno = string

definition ERR__ERRNO_MAPPINGS :: "(win_error \<times> errno) list" where
  "ERR__ERRNO_MAPPINGS =
     [(''ERROR_ACCESS_DENIED'', ''EACCES''), (''ERROR_ALREADY_EXISTS'', ''EEXIST''),
      (''ERROR_BAD_COMMAND'', ''EACCES''), (''ERROR_BAD_EXE_FORMAT'', ''ENOEXEC''),
      (''ERROR_BAD_LENGTH'', ''EACCES''), (''ERROR_BAD_NETPATH'', ''ENOENT''),
      (''ERROR_BAD_NET_NAME'', ''ENOENT''), (''ERROR_BAD_NET_RESP'', ''ENETDOWN''),
      (''ERROR_BAD_PATHNAME'', ''ENOENT''), (''ERROR_BROKEN_PIPE'', ''EPIPE''),
      (''ERROR_CANNOT_MAKE'', ''EACCES''), (''ERROR_COMMITMENT_LIMIT'', ''ENOMEM''),
      (''ERROR_CONNECTION_ABORTED'', ''ECONNABORTED''), (''ERROR_CONNECTION_ACTIVE'', ''EISCONN''),
      (''ERROR_CONNECTION_REFUSED'', ''ECONNREFUSED''), (''ERROR_CRC'', ''EACCES''),
      (''ERROR_DIR_NOT_EMPTY'', ''ENOTEMPTY''), (''ERROR_DISK_FULL'', ''ENOSPC''),
      (''ERROR_DUP_NAME'', ''EADDRINUSE''), (''ERROR_FILENAME_EXCED_RANGE'', ''ENOENT''),
      (''ERROR_FILE_NOT_FOUND'', ''ENOENT''), (''ERROR_GEN_FAILURE'', ''EACCES''),
      (''ERROR_GRACEFUL_DISCONNECT'', ''EPIPE''), (''ERROR_HOST_DOWN'', ''EHOSTUNREACH''),
      (''ERROR_HOST_UNREACHABLE'', ''EHOSTUNREACH''), (''ERROR_INSUFFICIENT_BUFFER'', ''EFAULT''),
      (''ERROR_INVALID_ADDRESS'', ''EADDRNOTAVAIL''), (''ERROR_INVALID_FUNCTION'', ''EINVAL''),
      (''ERROR_INVALID_HANDLE'', ''EBADF''), (''ERROR_INVALID_NETNAME'', ''EADDRNOTAVAIL''),
      (''ERROR_INVALID_PARAMETER'', ''EINVAL''), (''ERROR_INVALID_USER_BUFFER'', ''EMSGSIZE''),
      (''ERROR_IO_PENDING'', ''EINPROGRESS''), (''ERROR_LOCK_VIOLATION'', ''EACCES''),
      (''ERROR_MORE_DATA'', ''EMSGSIZE''), (''ERROR_NETNAME_DELETED'', ''ECONNABORTED''),
      (''ERROR_NETWORK_ACCESS_DENIED'', ''EACCES''), (''ERROR_NETWORK_BUSY'', ''ENETDOWN''),
      (''ERROR_NETWORK_UNREACHABLE'', ''ENETUNREACH''), (''ERROR_NOACCESS'', ''EFAULT''),
      (''ERROR_NONPAGED_SYSTEM_RESOURCES'', ''ENOMEM''), (''ERROR_NOT_ENOUGH_MEMORY'', ''ENOMEM''),
      (''ERROR_NOT_ENOUGH_QUOTA'', ''ENOMEM''), (''ERROR_NOT_FOUND'', ''ENOENT''),
      (''ERROR_NOT_LOCKED'', ''EACCES''), (''ERROR_NOT_READY'', ''EACCES''),
      (''ERROR_NOT_SAME_DEVICE'', ''EXDEV''), (''ERROR_NOT_SUPPORTED'', ''ENOTSUP''),
      (''ERROR_NO_MORE_FILES'', ''ENOENT''), (''ERROR_NO_SYSTEM_RESOURCES'', ''ENOMEM''),
      (''ERROR_OPERATION_ABORTED'', ''EINTR''), (''ERROR_OUT_OF_PAPER'', ''EACCES''),
      (''ERROR_PAGED_SYSTEM_RESOURCES'', ''ENOMEM''), (''ERROR_PAGEFILE_QUOTA'', ''ENOMEM''),
      (''ERROR_PATH_NOT_FOUND'', ''ENOENT''), (''ERROR_PIPE_NOT_CONNECTED'', ''EPIPE''),
      (''ERROR_PORT_UNREACHABLE'', ''ECONNRESET''), (''ERROR_PROTOCOL_UNREACHABLE'', ''ENETUNREACH''),
      (''ERROR_REM_NOT_LIST'', ''ECONNREFUSED''), (''ERROR_REQUEST_ABORTED'', ''EINTR''),
      (''ERROR_REQ_NOT_ACCEP'', ''EWOULDBLOCK''), (''ERROR_SECTOR_NOT_FOUND'', ''EACCES''),
      (''ERROR_SEM_TIMEOUT'', ''ETIMEDOUT''), (''ERROR_SHARING_VIOLATION'', ''EACCES''),
      (''ERROR_TOO_MANY_NAMES'', ''ENOMEM''), (''ERROR_TOO_MANY_OPEN_FILES'', ''EMFILE''),
      (''ERROR_UNEXP_NET_ERR'', ''ECONNABORTED''), (''ERROR_WAIT_NO_CHILDREN'', ''ECHILD''),
      (''ERROR_WORKING_SET_QUOTA'', ''ENOMEM''), (''ERROR_WRITE_PROTECT'', ''EACCES''),
      (''ERROR_WRONG_DISK'', ''EACCES''), (''WSAEACCES'', ''EACCES''),
      (''WSAEADDRINUSE'', ''EADDRINUSE''), (''WSAEADDRNOTAVAIL'', ''EADDRNOTAVAIL''),
      (''WSAEAFNOSUPPORT'', ''EAFNOSUPPORT''), (''WSAECONNABORTED'', ''ECONNABORTED''),
      (''WSAECONNREFUSED'', ''ECONNREFUSED''), (''WSAECONNRESET'', ''ECONNRESET''),
      (''WSAEDISCON'', ''EPIPE''), (''WSAEFAULT'', ''EFAULT''),
      (''WSAEHOSTDOWN'', ''EHOSTUNREACH''), (''WSAEHOSTUNREACH'', ''EHOSTUNREACH''),
      (''WSAEINPROGRESS'', ''EBUSY''), (''WSAEINTR'', ''EINTR''),
      (''WSAEINVAL'', ''EINVAL''), (''WSAEISCONN'', ''EISCONN''),
      (''WSAEMSGSIZE'', ''EMSGSIZE''), (''WSAENETDOWN'', ''ENETDOWN''),
      (''WSAENETRESET'', ''EHOSTUNREACH''), (''WSAENETUNREACH'', ''ENETUNREACH''),
      (''WSAENOBUFS'', ''ENOMEM''), (''WSAENOTCONN'', ''ENOTCONN''),
      (''WSAENOTSOCK'', ''ENOTSOCK''), (''WSAEOPNOTSUPP'', ''EOPNOTSUPP''),
      (''WSAEPROCLIM'', ''ENOMEM''), (''WSAESHUTDOWN'', ''EPIPE''),
      (''WSAETIMEDOUT'', ''ETIMEDOUT''), (''WSAEWOULDBLOCK'', ''EWOULDBLOCK''),
      (''WSANOTINITIALISED'', ''ENETDOWN''), (''WSASYSNOTREADY'', ''ENETDOWN''),
      (''WSAVERNOTSUPPORTED'', ''ENOSYS'')]"

definition err__map_win_error_to_errno :: "win_error \<Rightarrow> errno" where
  "err__map_win_error_to_errno e = (case map_of ERR__ERRNO_MAPPINGS e of Some n \<Rightarrow> n | None \<Rightarrow> ''EINVAL'')"

section \<open>The error variables\<close>

record err_state =
  last_error :: win_error
  errno_var :: errno

definition err_map_win_error :: "err_state \<Rightarrow> err_state" where
  "err_map_win_error st = st\<lparr>errno_var := err__map_win_error_to_errno (last_error st)\<rparr>"

definition err_set_win_error :: "win_error \<Rightarrow> err_state \<Rightarrow> err_state" where
  "err_set_win_error e st = st\<lparr>last_error := e, errno_var := err__map_win_error_to_errno e\<rparr>"

text \<open>A call of the operating system that fails stores its error code.\<close>

definition SetLastError :: "win_error \<Rightarrow> err_state \<Rightarrow> err_state" where
  "SetLastError e st = st\<lparr>last_error := e\<rparr>"

section \<open>Handles\<close>

definition INVALID_HANDLE_VALUE :: u64 where
  "INVALID_HANDLE_VALUE = - 1"

text \<open>\<open>info\<close> is \<^verbatim>\<open>GetHandleInformation\<close>: \<open>None\<close> for success, or the error it stores.\<close>

definition err_check_handle :: "(u64 \<Rightarrow> win_error option) \<Rightarrow> u64 \<Rightarrow> err_state \<Rightarrow> int \<times> err_state" where
  "err_check_handle info handle st =
     (if handle = INVALID_HANDLE_VALUE then (-1, err_set_win_error ''ERROR_INVALID_HANDLE'' st)
      else case info handle of
        Some e \<Rightarrow> (-1, err_map_win_error (SetLastError e st))
      | None \<Rightarrow> (0, st))"

section \<open>Consistency\<close>

definition errors_agree :: "err_state \<Rightarrow> bool" where
  "errors_agree st \<longleftrightarrow> errno_var st = err__map_win_error_to_errno (last_error st)"

lemma errors_agree_set [simp]: "errors_agree (err_set_win_error e st)"
  by (simp add: errors_agree_def err_set_win_error_def)

lemma errors_agree_map [simp]: "errors_agree (err_map_win_error st)"
  by (simp add: errors_agree_def err_map_win_error_def)

end
