(* ===== verification/WepollEvents.thy ===== *)
theory WepollEvents
  imports Prelude
begin

text \<open>
  Event masks of \<^verbatim>\<open>src/src/arch/windows/wepoll/wepoll.c\<close>: the epoll flags, the flags of the AFD
  driver, and the two translations between them.
\<close>

section \<open>Flags\<close>

definition EPOLLIN :: u32 where "EPOLLIN = push_bit 0 1"
definition EPOLLPRI :: u32 where "EPOLLPRI = push_bit 1 1"
definition EPOLLOUT :: u32 where "EPOLLOUT = push_bit 2 1"
definition EPOLLERR :: u32 where "EPOLLERR = push_bit 3 1"
definition EPOLLHUP :: u32 where "EPOLLHUP = push_bit 4 1"
definition EPOLLRDNORM :: u32 where "EPOLLRDNORM = push_bit 6 1"
definition EPOLLRDBAND :: u32 where "EPOLLRDBAND = push_bit 7 1"
definition EPOLLWRNORM :: u32 where "EPOLLWRNORM = push_bit 8 1"
definition EPOLLWRBAND :: u32 where "EPOLLWRBAND = push_bit 9 1"
definition EPOLLMSG :: u32 where "EPOLLMSG = push_bit 10 1"
definition EPOLLRDHUP :: u32 where "EPOLLRDHUP = push_bit 13 1"
definition EPOLLONESHOT :: u32 where "EPOLLONESHOT = push_bit 31 1"

definition AFD_POLL_RECEIVE :: u32 where "AFD_POLL_RECEIVE = 0x0001"
definition AFD_POLL_RECEIVE_EXPEDITED :: u32 where "AFD_POLL_RECEIVE_EXPEDITED = 0x0002"
definition AFD_POLL_SEND :: u32 where "AFD_POLL_SEND = 0x0004"
definition AFD_POLL_DISCONNECT :: u32 where "AFD_POLL_DISCONNECT = 0x0008"
definition AFD_POLL_ABORT :: u32 where "AFD_POLL_ABORT = 0x0010"
definition AFD_POLL_LOCAL_CLOSE :: u32 where "AFD_POLL_LOCAL_CLOSE = 0x0020"
definition AFD_POLL_ACCEPT :: u32 where "AFD_POLL_ACCEPT = 0x0080"
definition AFD_POLL_CONNECT_FAIL :: u32 where "AFD_POLL_CONNECT_FAIL = 0x0100"

lemmas epoll_flags = EPOLLIN_def EPOLLPRI_def EPOLLOUT_def EPOLLERR_def EPOLLHUP_def EPOLLRDNORM_def
  EPOLLRDBAND_def EPOLLWRNORM_def EPOLLWRBAND_def EPOLLMSG_def EPOLLRDHUP_def EPOLLONESHOT_def

lemmas afd_flags = AFD_POLL_RECEIVE_def AFD_POLL_RECEIVE_EXPEDITED_def AFD_POLL_SEND_def AFD_POLL_DISCONNECT_def
  AFD_POLL_ABORT_def AFD_POLL_LOCAL_CLOSE_def AFD_POLL_ACCEPT_def AFD_POLL_CONNECT_FAIL_def

definition SOCK__KNOWN_EPOLL_EVENTS :: u32 where
  "SOCK__KNOWN_EPOLL_EVENTS = EPOLLIN OR EPOLLPRI OR EPOLLOUT OR EPOLLERR OR EPOLLHUP OR EPOLLRDNORM
     OR EPOLLRDBAND OR EPOLLWRNORM OR EPOLLWRBAND OR EPOLLMSG OR EPOLLRDHUP"

section \<open>Translations\<close>

text \<open>\<open>add_if e m f a\<close> is \<^verbatim>\<open>if (e & m) a |= f;\<close>.\<close>

definition add_if :: "u32 \<Rightarrow> u32 \<Rightarrow> u32 \<Rightarrow> u32 \<Rightarrow> u32" where
  "add_if e m f a = (if e AND m \<noteq> 0 then a OR f else a)"

definition sock__epoll_events_to_afd_events :: "u32 \<Rightarrow> u32" where
  "sock__epoll_events_to_afd_events epoll_events = (
     let afd_events = AFD_POLL_LOCAL_CLOSE;
         afd_events = add_if epoll_events (EPOLLIN OR EPOLLRDNORM) (AFD_POLL_RECEIVE OR AFD_POLL_ACCEPT) afd_events;
         afd_events = add_if epoll_events (EPOLLPRI OR EPOLLRDBAND) AFD_POLL_RECEIVE_EXPEDITED afd_events;
         afd_events = add_if epoll_events (EPOLLOUT OR EPOLLWRNORM OR EPOLLWRBAND) AFD_POLL_SEND afd_events;
         afd_events = add_if epoll_events (EPOLLIN OR EPOLLRDNORM OR EPOLLRDHUP) AFD_POLL_DISCONNECT afd_events;
         afd_events = add_if epoll_events EPOLLHUP AFD_POLL_ABORT afd_events;
         afd_events = add_if epoll_events EPOLLERR AFD_POLL_CONNECT_FAIL afd_events
     in afd_events)"

definition sock__afd_events_to_epoll_events :: "u32 \<Rightarrow> u32" where
  "sock__afd_events_to_epoll_events afd_events = (
     let epoll_events = 0;
         epoll_events = add_if afd_events (AFD_POLL_RECEIVE OR AFD_POLL_ACCEPT) (EPOLLIN OR EPOLLRDNORM) epoll_events;
         epoll_events = add_if afd_events AFD_POLL_RECEIVE_EXPEDITED (EPOLLPRI OR EPOLLRDBAND) epoll_events;
         epoll_events = add_if afd_events AFD_POLL_SEND (EPOLLOUT OR EPOLLWRNORM OR EPOLLWRBAND) epoll_events;
         epoll_events = add_if afd_events AFD_POLL_DISCONNECT (EPOLLIN OR EPOLLRDNORM OR EPOLLRDHUP) epoll_events;
         epoll_events = add_if afd_events AFD_POLL_ABORT EPOLLHUP epoll_events;
         epoll_events = add_if afd_events AFD_POLL_CONNECT_FAIL
           (EPOLLIN OR EPOLLOUT OR EPOLLERR OR EPOLLRDNORM OR EPOLLWRNORM OR EPOLLRDHUP) epoll_events
     in epoll_events)"

section \<open>Masks bit by bit\<close>

lemma mask_bit: "e AND push_bit n (1 :: u32) \<noteq> 0 \<longleftrightarrow> bit e n \<and> n < 32"
proof -
  have "e AND push_bit n 1 = (if bit e n then push_bit n 1 else 0)"
    by (rule bit_word_eqI) (auto simp: bit_simps)
  then show ?thesis by (auto simp: push_bit_eq_0_iff dest: bit_imp_le_length)
qed

lemma mask_or: "e AND (a OR b) \<noteq> (0 :: u32) \<longleftrightarrow> e AND a \<noteq> 0 \<or> e AND b \<noteq> 0"
  by (metis (no_types) bit.conj_disj_distrib or_eq_0_iff)

lemma bit_add_if: "bit (add_if e m f a) n \<longleftrightarrow> bit a n \<or> e AND m \<noteq> 0 \<and> bit f n"
  by (auto simp: add_if_def bit_simps)

lemma bit_flag: "bit (push_bit k (1 :: u32)) n \<longleftrightarrow> n = k \<and> k < 32"
  by (auto simp: bit_simps)


lemma afd_flags_shift:
  "AFD_POLL_RECEIVE = push_bit 0 1" "AFD_POLL_RECEIVE_EXPEDITED = push_bit 1 1" "AFD_POLL_SEND = push_bit 2 1"
  "AFD_POLL_DISCONNECT = push_bit 3 1" "AFD_POLL_ABORT = push_bit 4 1" "AFD_POLL_LOCAL_CLOSE = push_bit 5 1"
  "AFD_POLL_ACCEPT = push_bit 7 1" "AFD_POLL_CONNECT_FAIL = push_bit 8 1"
  by (simp_all add: afd_flags)

lemma mask_nonzero: "a AND b \<noteq> (0 :: u32) \<longleftrightarrow> (\<exists>n. bit a n \<and> bit b n)"
  using bit_imp_le_length by (fastforce simp: bit_eq_iff bit_and_iff)

lemma to_afd_bit:
  "bit (sock__epoll_events_to_afd_events e) n \<longleftrightarrow>
     n = 5 \<or> (n = 0 \<or> n = 7) \<and> (bit e 0 \<or> bit e 6) \<or> n = 1 \<and> (bit e 1 \<or> bit e 7)
     \<or> n = 2 \<and> (bit e 2 \<or> bit e 8 \<or> bit e 9) \<or> n = 3 \<and> (bit e 0 \<or> bit e 6 \<or> bit e 13)
     \<or> n = 4 \<and> bit e 4 \<or> n = 8 \<and> bit e 3"
  unfolding sock__epoll_events_to_afd_events_def Let_def bit_add_if mask_or afd_flags_shift epoll_flags mask_bit bit_or_iff bit_flag
  by (simp, blast)

lemma to_epoll_bit:
  "bit (sock__afd_events_to_epoll_events a) n \<longleftrightarrow>
     (n = 0 \<or> n = 6) \<and> (bit a 0 \<or> bit a 7 \<or> bit a 3 \<or> bit a 8) \<or> (n = 1 \<or> n = 7) \<and> bit a 1
     \<or> (n = 2 \<or> n = 8) \<and> (bit a 2 \<or> bit a 8) \<or> n = 9 \<and> bit a 2 \<or> n = 13 \<and> (bit a 3 \<or> bit a 8)
     \<or> n = 4 \<and> bit a 4 \<or> n = 3 \<and> bit a 8"
  unfolding sock__afd_events_to_epoll_events_def Let_def bit_add_if mask_or afd_flags_shift epoll_flags mask_bit bit_or_iff bit_flag
  by (simp, blast)


text \<open>
  Monitoring is exact. For a mask with the two flags that are always added, the events the
  AFD driver is not asked for would not have been reported anyway, and every event it is asked
  for, other than the closing of the socket, is reported as an event of the mask: no event of the
  application is lost, and none wakes it up in vain.
\<close>

theorem monitoring_exact:
  assumes "user AND EPOLLERR \<noteq> 0" "user AND EPOLLHUP \<noteq> 0"
  shows "sock__afd_events_to_epoll_events (a AND sock__epoll_events_to_afd_events user) AND user
       = sock__afd_events_to_epoll_events a AND user
    \<and> (a AND sock__epoll_events_to_afd_events user \<noteq> 0 \<and> a AND AFD_POLL_LOCAL_CLOSE = 0 \<longrightarrow>
        sock__afd_events_to_epoll_events a AND user \<noteq> 0)"
proof (intro conjI impI)
  have e: "bit user 3" "bit user 4"
    using assms unfolding epoll_flags mask_bit by blast+
  show "sock__afd_events_to_epoll_events (a AND sock__epoll_events_to_afd_events user) AND user
      = sock__afd_events_to_epoll_events a AND user"
    by (rule bit_word_eqI) (auto simp: bit_and_iff to_epoll_bit to_afd_bit e)
  assume a: "a AND sock__epoll_events_to_afd_events user \<noteq> 0 \<and> a AND AFD_POLL_LOCAL_CLOSE = 0"
  then obtain n where n: "bit a n" "bit (sock__epoll_events_to_afd_events user) n"
    by (auto simp: mask_nonzero)
  moreover have "\<not> bit a 5"
    using a mask_bit [of a 5] unfolding afd_flags_shift by simp
  ultimately have "\<exists>k. bit (sock__afd_events_to_epoll_events a) k \<and> bit user k"
    unfolding to_afd_bit to_epoll_bit using e by metis
  then show "sock__afd_events_to_epoll_events a AND user \<noteq> 0"
    by (simp add: mask_nonzero)
qed

theorem monitoring_exact_witness:
  "(0x18 AND EPOLLERR \<noteq> 0 \<and> 0x18 AND EPOLLHUP \<noteq> 0)
   \<and> sock__afd_events_to_epoll_events (0x1FF AND sock__epoll_events_to_afd_events 0x18) AND 0x18
     = sock__afd_events_to_epoll_events 0x1FF AND 0x18"
  using monitoring_exact [of "0x18" "0x1FF"] by (simp add: epoll_flags)

end
