(* ===== verification/WepollPort.thy ===== *)
theory WepollPort
  imports WepollQueue WepollTree WepollErr WepollEvents
begin

text \<open>
  The ports of \<^verbatim>\<open>src/src/arch/windows/wepoll/wepoll.c\<close>: the requests to the AFD driver, poll
  groups, sockets and the port that owns them. The objects are allocated and freed explicitly, an
  access to a freed object and a failed assertion are the value \<open>None\<close>. A tree or queue node that
  is embedded in an object has the address of the object; it is in the heap of tree nodes or
  of queue nodes as long as the object is.
\<close>

section \<open>Data\<close>

type_synonym ntstatus = u32

definition STATUS_SUCCESS :: ntstatus where "STATUS_SUCCESS = 0x00000000"
definition STATUS_PENDING :: ntstatus where "STATUS_PENDING = 0x00000103"
definition STATUS_CANCELLED :: ntstatus where "STATUS_CANCELLED = 0xC0000120"
definition STATUS_NOT_FOUND :: ntstatus where "STATUS_NOT_FOUND = 0xC0000225"

definition NT_SUCCESS :: "ntstatus \<Rightarrow> bool" where
  "NT_SUCCESS status \<longleftrightarrow> sint status \<ge> 0"

record epoll_event =
  events :: u32
  data :: u64

record IO_STATUS_BLOCK =
  Status :: ntstatus
  Information :: u64

record AFD_POLL_HANDLE_INFO =
  Handle :: u64
  Events :: u32
  HandleStatus :: ntstatus

text \<open>The array of handles has one element.\<close>

record AFD_POLL_INFO =
  Timeout :: u64
  NumberOfHandles :: u32
  Exclusive :: u32
  Handles :: AFD_POLL_HANDLE_INFO

datatype sock__poll_status = SOCK__POLL_IDLE | SOCK__POLL_PENDING | SOCK__POLL_CANCELLED

record sock_state =
  io_status_block :: IO_STATUS_BLOCK
  poll_info :: AFD_POLL_INFO
  poll_group :: nat
  base_socket :: u64
  user_data :: u64
  user_events :: u32
  pending_events :: u32
  poll_status :: sock__poll_status
  delete_pending :: bool

record poll_group =
  afd_device_handle :: u64
  group_size :: u64

text \<open>The nodes that are linked in queues: the heads in the port, and those of sockets and groups.\<close>

datatype qaddr = NullQ | UpdateQ | DeletedQ | GroupQ | SockN nat | GroupN nat

text \<open>
  A port with the objects it owns. The fields after \<open>active_poll_count\<close> are its surroundings: the
  error variables, the number of calls of the operating system so far, the next address of the
  allocator, the poll requests that the driver has accepted and that have not been dequeued, and
  the handles that have been closed.
\<close>

record port_state =
  iocp_handle :: u64
  sock_tree :: "nat tree"
  queues :: "qaddr qheap"
  socks :: "nat \<Rightarrow> sock_state option"
  groups :: "nat \<Rightarrow> poll_group option"
  active_poll_count :: u64
  err :: err_state
  clock :: nat
  brk :: nat
  in_flight :: "nat set"
  closed :: "u64 list"

text \<open>A completion packet: the socket it belongs to and what the kernel has written to it.\<close>

record completion =
  c_addr :: nat
  c_status :: IO_STATUS_BLOCK
  c_info :: AFD_POLL_INFO

text \<open>
  The operating system. A function gets the number of the call as its first argument, so it may
  answer differently every time. An error is \<open>Inl\<close> or \<open>Some\<close> of the code it stores.
  \<open>os_completed\<close> says whether the kernel has written the status block of a request by now,
  \<open>os_others\<close> is what other threads do to the port while the lock is released during a wait.
\<close>

record os =
  os_malloc :: "nat \<Rightarrow> bool"
  os_NtCreateFile :: "nat \<Rightarrow> ntstatus \<times> u64"
  os_CreateIoCompletionPort :: "nat \<Rightarrow> u64 \<Rightarrow> u64 \<Rightarrow> win_error + u64"
  os_SetFileCompletionNotificationModes :: "nat \<Rightarrow> u64 \<Rightarrow> win_error option"
  os_CloseHandle :: "nat \<Rightarrow> u64 \<Rightarrow> win_error option"
  os_NtDeviceIoControlFile :: "nat \<Rightarrow> u64 \<Rightarrow> AFD_POLL_INFO \<Rightarrow> ntstatus"
  os_NtCancelIoFileEx :: "nat \<Rightarrow> u64 \<Rightarrow> nat \<Rightarrow> ntstatus"
  os_completed :: "nat \<Rightarrow> nat \<Rightarrow> ntstatus option"
  os_RtlNtStatusToDosError :: "ntstatus \<Rightarrow> win_error"
  os_WSAIoctl :: "nat \<Rightarrow> u64 \<Rightarrow> u32 \<Rightarrow> win_error + u64"
  os_GetQueuedCompletionStatusEx :: "nat \<Rightarrow> u64 \<Rightarrow> nat \<Rightarrow> u32 \<Rightarrow> nat set \<Rightarrow> win_error + completion list"
  os_GetTickCount64 :: "nat \<Rightarrow> u64"
  os_others :: "nat \<Rightarrow> port_state \<Rightarrow> port_state"

definition tick :: "port_state \<Rightarrow> port_state" where
  "tick s = s\<lparr>clock := Suc (clock s)\<rparr>"

definition set_win_error :: "win_error \<Rightarrow> port_state \<Rightarrow> port_state" where
  "set_win_error e s = s\<lparr>err := err_set_win_error e (err s)\<rparr>"

definition map_win_error :: "port_state \<Rightarrow> port_state" where
  "map_win_error s = s\<lparr>err := err_map_win_error (err s)\<rparr>"

definition set_last_error :: "win_error \<Rightarrow> port_state \<Rightarrow> port_state" where
  "set_last_error e s = s\<lparr>err := SetLastError e (err s)\<rparr>"

text \<open>An address that is not in use, or the null pointer.\<close>

definition malloc :: "os \<Rightarrow> port_state \<Rightarrow> nat option \<times> port_state" where
  "malloc os s = (if os_malloc os (clock s) then (Some (brk s), (tick s)\<lparr>brk := Suc (brk s)\<rparr>) else (None, tick s))"

definition CloseHandle :: "os \<Rightarrow> u64 \<Rightarrow> port_state \<Rightarrow> bool \<times> port_state" where
  "CloseHandle os h s = (case os_CloseHandle os (clock s) h of
     None \<Rightarrow> (True, (tick s)\<lparr>closed := closed s @ [h]\<rparr>)
   | Some e \<Rightarrow> (False, set_last_error e (tick s)))"

definition CreateIoCompletionPort :: "os \<Rightarrow> u64 \<Rightarrow> u64 \<Rightarrow> port_state \<Rightarrow> u64 \<times> port_state" where
  "CreateIoCompletionPort os file port s = (case os_CreateIoCompletionPort os (clock s) file port of
     Inr h \<Rightarrow> (h, tick s)
   | Inl e \<Rightarrow> (0, set_last_error e (tick s)))"

definition upd_sock :: "(sock_state \<Rightarrow> sock_state) \<Rightarrow> nat \<Rightarrow> port_state \<Rightarrow> port_state option" where
  "upd_sock f a s = do { k \<leftarrow> socks s a; Some (s\<lparr>socks := (socks s)(a \<mapsto> f k)\<rparr>) }"

definition upd_group :: "(poll_group \<Rightarrow> poll_group) \<Rightarrow> nat \<Rightarrow> port_state \<Rightarrow> port_state option" where
  "upd_group f a s = do { g \<leftarrow> groups s a; Some (s\<lparr>groups := (groups s)(a \<mapsto> f g)\<rparr>) }"

text \<open>A queue operation on the nodes of the port.\<close>

definition on_queues :: "(qaddr qheap \<Rightarrow> qaddr qheap option) \<Rightarrow> port_state \<Rightarrow> port_state option" where
  "on_queues f s = do { h \<leftarrow> f (queues s); Some (s\<lparr>queues := h\<rparr>) }"

section \<open>Requests to the AFD driver\<close>

definition afd_create_device_handle :: "os \<Rightarrow> u64 \<Rightarrow> port_state \<Rightarrow> (int \<times> u64) \<times> port_state" where
  "afd_create_device_handle os iocp s =
     (let (status, h) = os_NtCreateFile os (clock s); s = tick s;
          error = (\<lambda>s. let (_, s) = CloseHandle os h s in ((-1, 0), map_win_error s))
      in if status \<noteq> STATUS_SUCCESS then ((-1, 0), set_win_error (os_RtlNtStatusToDosError os status) s)
         else let (p, s) = CreateIoCompletionPort os h iocp s in
           if p = 0 then error s
           else case os_SetFileCompletionNotificationModes os (clock s) h of
             Some e \<Rightarrow> error (set_last_error e (tick s))
           | None \<Rightarrow> ((0, h), tick s))"

definition set_Status :: "ntstatus \<Rightarrow> sock_state \<Rightarrow> sock_state" where
  "set_Status st k = k\<lparr>io_status_block := (io_status_block k)\<lparr>Status := st\<rparr>\<rparr>"

definition afd_poll :: "os \<Rightarrow> u64 \<Rightarrow> nat \<Rightarrow> port_state \<Rightarrow> (int \<times> port_state) option" where
  "afd_poll os h a s = do {
     s \<leftarrow> upd_sock (set_Status STATUS_PENDING) a s;
     k \<leftarrow> socks s a;
     let status = os_NtDeviceIoControlFile os (clock s) h (poll_info k);
     let s = tick s;
     let s' = s\<lparr>in_flight := insert a (in_flight s)\<rparr>;
     Some (if status = STATUS_SUCCESS then (0, s')
           else if status = STATUS_PENDING then (-1, set_win_error ''ERROR_IO_PENDING'' s')
           else (-1, set_win_error (os_RtlNtStatusToDosError os status) s))
   }"

definition afd_cancel_poll :: "os \<Rightarrow> u64 \<Rightarrow> nat \<Rightarrow> port_state \<Rightarrow> (int \<times> port_state) option" where
  "afd_cancel_poll os h a s = do {
     s \<leftarrow> (case os_completed os (clock s) a of
             Some st \<Rightarrow> if a \<in> in_flight s then upd_sock (set_Status st) a s else Some s
           | None \<Rightarrow> Some s);
     let s = tick s;
     k \<leftarrow> socks s a;
     (if Status (io_status_block k) \<noteq> STATUS_PENDING then Some (0, s)
      else let cancel_status = os_NtCancelIoFileEx os (clock s) h a; s = tick s in
        Some (if cancel_status = STATUS_SUCCESS \<or> cancel_status = STATUS_NOT_FOUND then (0, s)
              else (-1, set_win_error (os_RtlNtStatusToDosError os cancel_status) s)))
   }"

section \<open>Poll groups\<close>

definition POLL_GROUP__MAX_GROUP_SIZE :: u64 where "POLL_GROUP__MAX_GROUP_SIZE = 32"

definition port_get_iocp_handle :: "port_state \<Rightarrow> u64 option" where
  "port_get_iocp_handle s = (if iocp_handle s \<noteq> 0 then Some (iocp_handle s) else None)"

definition new_group :: "nat \<Rightarrow> port_state \<Rightarrow> port_state" where
  "new_group g s = s\<lparr>groups := (groups s)(g \<mapsto> \<lparr>afd_device_handle = 0, group_size = 0\<rparr>),
     queues := (queues s)(GroupN g \<mapsto> \<lparr>prev = NullQ, next = NullQ\<rparr>)\<rparr>"

definition free_group :: "nat \<Rightarrow> port_state \<Rightarrow> port_state" where
  "free_group g s = s\<lparr>groups := (groups s)(g := None), queues := (queues s)(GroupN g := None)\<rparr>"

definition poll_group__new :: "os \<Rightarrow> port_state \<Rightarrow> (nat option \<times> port_state) option" where
  "poll_group__new os s = do {
     iocp \<leftarrow> port_get_iocp_handle s;
     let (p, s) = malloc os s;
     (case p of
        None \<Rightarrow> Some (None, set_win_error ''ERROR_NOT_ENOUGH_MEMORY'' s)
      | Some g \<Rightarrow> do {
          s \<leftarrow> on_queues (\<lambda>q. queue_node_init q (GroupN g)) (new_group g s);
          let ((r, h), s) = afd_create_device_handle os iocp s;
          (if r < 0 then Some (None, free_group g s)
           else do {
             s \<leftarrow> upd_group (\<lambda>x. x\<lparr>afd_device_handle := h\<rparr>) g s;
             s \<leftarrow> on_queues (\<lambda>q. queue_append q GroupQ (GroupN g)) s;
             Some (Some g, s)
           })
        })
   }"

definition poll_group_delete :: "os \<Rightarrow> nat \<Rightarrow> port_state \<Rightarrow> port_state option" where
  "poll_group_delete os g s = do {
     x \<leftarrow> groups s g;
     (if group_size x = 0 then do {
        let (_, s) = CloseHandle os (afd_device_handle x) s;
        s \<leftarrow> on_queues (\<lambda>q. queue_remove q (GroupN g)) s;
        Some (free_group g s)
      }
      else None)
   }"

text \<open>The container of a queue node; the node has to be of that kind.\<close>

definition poll_group_from_queue_node :: "qaddr \<Rightarrow> nat option" where
  "poll_group_from_queue_node n = (case n of GroupN g \<Rightarrow> Some g | _ \<Rightarrow> None)"

definition poll_group_get_afd_device_handle :: "nat \<Rightarrow> port_state \<Rightarrow> u64 option" where
  "poll_group_get_afd_device_handle g s = do { x \<leftarrow> groups s g; Some (afd_device_handle x) }"

definition poll_group_acquire :: "os \<Rightarrow> port_state \<Rightarrow> (nat option \<times> port_state) option" where
  "poll_group_acquire os s = do {
     e \<leftarrow> queue_is_empty (queues s) GroupQ;
     p \<leftarrow> (if \<not> e then do { l \<leftarrow> queue_last (queues s) GroupQ; n \<leftarrow> l; g \<leftarrow> poll_group_from_queue_node n; Some (Some g) }
           else Some None);
     full \<leftarrow> (case p of None \<Rightarrow> Some True
               | Some g \<Rightarrow> do { x \<leftarrow> groups s g; Some (group_size x \<ge> POLL_GROUP__MAX_GROUP_SIZE) });
     (p, s) \<leftarrow> (if full then poll_group__new os s else Some (p, s));
     (case p of
        None \<Rightarrow> Some (None, s)
      | Some g \<Rightarrow> do {
          s \<leftarrow> upd_group (\<lambda>x. x\<lparr>group_size := group_size x + 1\<rparr>) g s;
          x \<leftarrow> groups s g;
          s \<leftarrow> (if group_size x = POLL_GROUP__MAX_GROUP_SIZE
                then on_queues (\<lambda>q. queue_move_to_start q GroupQ (GroupN g)) s else Some s);
          Some (Some g, s)
        })
   }"

definition poll_group_release :: "nat \<Rightarrow> port_state \<Rightarrow> port_state option" where
  "poll_group_release g s = do {
     s \<leftarrow> upd_group (\<lambda>x. x\<lparr>group_size := group_size x - 1\<rparr>) g s;
     x \<leftarrow> groups s g;
     (if group_size x < POLL_GROUP__MAX_GROUP_SIZE
      then on_queues (\<lambda>q. queue_move_to_end q GroupQ (GroupN g)) s
      else None)
   }"

section \<open>The sockets of a port\<close>

definition sock_state_from_queue_node :: "qaddr \<Rightarrow> nat option" where
  "sock_state_from_queue_node n = (case n of SockN a \<Rightarrow> Some a | _ \<Rightarrow> None)"

definition port_register_socket :: "nat \<Rightarrow> u64 \<Rightarrow> port_state \<Rightarrow> (int \<times> port_state) option" where
  "port_register_socket a socket s = do {
     (r, t) \<leftarrow> tree_add (sock_tree s) a socket;
     let s = s\<lparr>sock_tree := t\<rparr>;
     Some (if r < 0 then (-1, set_win_error ''ERROR_ALREADY_EXISTS'' s) else (0, s))
   }"

definition port_unregister_socket :: "nat \<Rightarrow> port_state \<Rightarrow> port_state option" where
  "port_unregister_socket a s = do { t \<leftarrow> tree_del (sock_tree s) a; Some (s\<lparr>sock_tree := t\<rparr>) }"

definition port_find_socket :: "u64 \<Rightarrow> port_state \<Rightarrow> (nat option \<times> port_state) option" where
  "port_find_socket socket s = do {
     n \<leftarrow> tree_find (sock_tree s) socket;
     Some (case n of None \<Rightarrow> (None, set_win_error ''ERROR_NOT_FOUND'' s) | Some a \<Rightarrow> (Some a, s))
   }"

definition port_request_socket_update :: "nat \<Rightarrow> port_state \<Rightarrow> port_state option" where
  "port_request_socket_update a s = do {
     e \<leftarrow> queue_is_enqueued (queues s) (SockN a);
     (if e then Some s else on_queues (\<lambda>q. queue_append q UpdateQ (SockN a)) s)
   }"

definition port_cancel_socket_update :: "nat \<Rightarrow> port_state \<Rightarrow> port_state option" where
  "port_cancel_socket_update a s = do {
     e \<leftarrow> queue_is_enqueued (queues s) (SockN a);
     (if \<not> e then Some s else on_queues (\<lambda>q. queue_remove q (SockN a)) s)
   }"

definition port_add_deleted_socket :: "nat \<Rightarrow> port_state \<Rightarrow> port_state option" where
  "port_add_deleted_socket a s = do {
     e \<leftarrow> queue_is_enqueued (queues s) (SockN a);
     (if e then Some s else on_queues (\<lambda>q. queue_append q DeletedQ (SockN a)) s)
   }"

definition port_remove_deleted_socket :: "nat \<Rightarrow> port_state \<Rightarrow> port_state option" where
  "port_remove_deleted_socket a s = do {
     e \<leftarrow> queue_is_enqueued (queues s) (SockN a);
     (if \<not> e then Some s else on_queues (\<lambda>q. queue_remove q (SockN a)) s)
   }"

section \<open>Base sockets\<close>

definition SIO_BSP_HANDLE_POLL :: u32 where "SIO_BSP_HANDLE_POLL = 0x4800001D"
definition SIO_BASE_HANDLE :: u32 where "SIO_BASE_HANDLE = 0x48000022"
definition INVALID_SOCKET :: u64 where "INVALID_SOCKET = - 1"

definition ws__ioctl_get_bsp_socket :: "os \<Rightarrow> u64 \<Rightarrow> u32 \<Rightarrow> port_state \<Rightarrow> u64 \<times> port_state" where
  "ws__ioctl_get_bsp_socket os socket ioctl s =
     (case os_WSAIoctl os (clock s) socket ioctl of
        Inr bsp_socket \<Rightarrow> (bsp_socket, tick s)
      | Inl e \<Rightarrow> (INVALID_SOCKET, set_last_error e (tick s)))"

text \<open>The loop ends only when the layers above the base socket do; otherwise it has no result.\<close>

partial_function (option) ws_get_base_socket :: "os \<Rightarrow> u64 \<Rightarrow> port_state \<Rightarrow> (u64 \<times> port_state) option" where
  "ws_get_base_socket os socket s =
     (let (base_socket, s) = ws__ioctl_get_bsp_socket os socket SIO_BASE_HANDLE s in
      if base_socket \<noteq> INVALID_SOCKET then Some (base_socket, s)
      else
        let error = last_error (err s) in
        if error = ''WSAENOTSOCK'' then Some (INVALID_SOCKET, set_win_error error s)
        else
          let (base_socket, s) = ws__ioctl_get_bsp_socket os socket SIO_BSP_HANDLE_POLL s in
          if base_socket \<noteq> INVALID_SOCKET \<and> base_socket \<noteq> socket then ws_get_base_socket os base_socket s
          else Some (INVALID_SOCKET, set_win_error error s))"

declare ws_get_base_socket.simps [code]

section \<open>Sockets\<close>

text \<open>The memory of a socket after \<^verbatim>\<open>memset\<close>.\<close>

definition zero_sock :: sock_state where
  "zero_sock = \<lparr>io_status_block = \<lparr>Status = 0, Information = 0\<rparr>,
     poll_info = \<lparr>Timeout = 0, NumberOfHandles = 0, Exclusive = 0, Handles = \<lparr>Handle = 0, Events = 0, HandleStatus = 0\<rparr>\<rparr>,
     poll_group = 0, base_socket = 0, user_data = 0, user_events = 0, pending_events = 0,
     poll_status = SOCK__POLL_IDLE, delete_pending = False\<rparr>"

definition new_sock :: "nat \<Rightarrow> port_state \<Rightarrow> port_state" where
  "new_sock a s = s\<lparr>socks := (socks s)(a \<mapsto> zero_sock),
     sock_tree := (fst (sock_tree s), (snd (sock_tree s))(a \<mapsto> null_tree_node)),
     queues := (queues s)(SockN a \<mapsto> \<lparr>prev = NullQ, next = NullQ\<rparr>)\<rparr>"

definition sock__alloc :: "os \<Rightarrow> port_state \<Rightarrow> nat option \<times> port_state" where
  "sock__alloc os s = (let (p, s) = malloc os s in
     case p of None \<Rightarrow> (None, set_win_error ''ERROR_NOT_ENOUGH_MEMORY'' s) | Some a \<Rightarrow> (Some a, new_sock a s))"

definition sock__free :: "nat \<Rightarrow> port_state \<Rightarrow> port_state" where
  "sock__free a s = s\<lparr>socks := (socks s)(a := None),
     sock_tree := (fst (sock_tree s), (snd (sock_tree s))(a := None)),
     queues := (queues s)(SockN a := None)\<rparr>"

definition sock__cancel_poll :: "os \<Rightarrow> nat \<Rightarrow> port_state \<Rightarrow> (int \<times> port_state) option" where
  "sock__cancel_poll os a s = do {
     k \<leftarrow> socks s a;
     (if poll_status k = SOCK__POLL_PENDING then do {
        h \<leftarrow> poll_group_get_afd_device_handle (poll_group k) s;
        (r, s) \<leftarrow> afd_cancel_poll os h a s;
        (if r < 0 then Some (-1, s)
         else do {
           s \<leftarrow> upd_sock (\<lambda>k. k\<lparr>poll_status := SOCK__POLL_CANCELLED, pending_events := 0\<rparr>) a s;
           Some (0, s)
         })
      }
      else None)
   }"

definition sock_new :: "os \<Rightarrow> u64 \<Rightarrow> port_state \<Rightarrow> (nat option \<times> port_state) option" where
  "sock_new os socket s =
     (if socket = 0 \<or> socket = INVALID_SOCKET then Some (None, set_win_error ''ERROR_INVALID_HANDLE'' s)
      else do {
        (bs, s) \<leftarrow> ws_get_base_socket os socket s;
        (if bs = INVALID_SOCKET then Some (None, s)
         else do {
           (pg, s) \<leftarrow> poll_group_acquire os s;
           (case pg of
              None \<Rightarrow> Some (None, s)
            | Some g \<Rightarrow>
                (case sock__alloc os s of
                   (None, s) \<Rightarrow> do { s \<leftarrow> poll_group_release g s; Some (None, s) }
                 | (Some a, s) \<Rightarrow> do {
                     s \<leftarrow> upd_sock (\<lambda>k. k\<lparr>base_socket := bs, poll_group := g\<rparr>) a s;
                     th \<leftarrow> tree_node_init (snd (sock_tree s)) a;
                     let s = s\<lparr>sock_tree := (fst (sock_tree s), th)\<rparr>;
                     s \<leftarrow> on_queues (\<lambda>q. queue_node_init q (SockN a)) s;
                     (r, s) \<leftarrow> port_register_socket a socket s;
                     (if r < 0 then do { s \<leftarrow> poll_group_release g (sock__free a s); Some (None, s) }
                      else Some (Some a, s))
                   }))
         })
      })"

text \<open>\<^verbatim>\<open>sock__delete\<close> ignores a cancellation that fails.\<close>

definition sock__delete :: "os \<Rightarrow> nat \<Rightarrow> bool \<Rightarrow> port_state \<Rightarrow> (int \<times> port_state) option" where
  "sock__delete os a force s = do {
     k \<leftarrow> socks s a;
     s \<leftarrow> (if \<not> delete_pending k then do {
             s \<leftarrow> (if poll_status k = SOCK__POLL_PENDING then do { (_, s) \<leftarrow> sock__cancel_poll os a s; Some s } else Some s);
             s \<leftarrow> port_cancel_socket_update a s;
             s \<leftarrow> port_unregister_socket a s;
             upd_sock (\<lambda>k. k\<lparr>delete_pending := True\<rparr>) a s
           }
           else Some s);
     k \<leftarrow> socks s a;
     s \<leftarrow> (if force \<or> poll_status k = SOCK__POLL_IDLE then do {
             s \<leftarrow> port_remove_deleted_socket a s;
             s \<leftarrow> poll_group_release (poll_group k) s;
             Some (sock__free a s)
           }
           else port_add_deleted_socket a s);
     Some (0, s)
   }"

definition sock_delete :: "os \<Rightarrow> nat \<Rightarrow> port_state \<Rightarrow> port_state option" where
  "sock_delete os a s = do { (_, s) \<leftarrow> sock__delete os a False s; Some s }"

definition sock_force_delete :: "os \<Rightarrow> nat \<Rightarrow> port_state \<Rightarrow> port_state option" where
  "sock_force_delete os a s = do { (_, s) \<leftarrow> sock__delete os a True s; Some s }"

definition sock_set_event :: "nat \<Rightarrow> epoll_event \<Rightarrow> port_state \<Rightarrow> (int \<times> port_state) option" where
  "sock_set_event a ev s = do {
     let evs = events ev OR EPOLLERR OR EPOLLHUP;
     s \<leftarrow> upd_sock (\<lambda>k. k\<lparr>user_events := evs, user_data := data ev\<rparr>) a s;
     k \<leftarrow> socks s a;
     s \<leftarrow> (if evs AND SOCK__KNOWN_EPOLL_EVENTS AND NOT (pending_events k) \<noteq> 0
           then port_request_socket_update a s else Some s);
     Some (0, s)
   }"

definition INT64_MAX :: u64 where "INT64_MAX = 0x7fffffffffffffff"

text \<open>The request for a socket that is not polled yet.\<close>

definition request_for :: "sock_state \<Rightarrow> AFD_POLL_INFO" where
  "request_for k = \<lparr>Timeout = INT64_MAX, NumberOfHandles = 1, Exclusive = 0,
     Handles = \<lparr>Handle = base_socket k, Events = sock__epoll_events_to_afd_events (user_events k), HandleStatus = 0\<rparr>\<rparr>"

definition sock_update :: "os \<Rightarrow> nat \<Rightarrow> port_state \<Rightarrow> (int \<times> port_state) option" where
  "sock_update os a s = do {
     k \<leftarrow> socks s a;
     let finish = (\<lambda>s. do { s \<leftarrow> port_cancel_socket_update a s; Some (0, s) });
     (if delete_pending k then None
      else if poll_status k = SOCK__POLL_PENDING \<and> user_events k AND SOCK__KNOWN_EPOLL_EVENTS AND NOT (pending_events k) = 0
      then finish s
      else if poll_status k = SOCK__POLL_PENDING then do {
        (r, s) \<leftarrow> sock__cancel_poll os a s;
        (if r < 0 then Some (-1, s) else finish s)
      }
      else if poll_status k = SOCK__POLL_CANCELLED then finish s
      else do {
        s \<leftarrow> upd_sock (\<lambda>k. k\<lparr>poll_info := request_for k\<rparr>) a s;
        h \<leftarrow> poll_group_get_afd_device_handle (poll_group k) s;
        (r, s) \<leftarrow> afd_poll os h a s;
        let submitted = (\<lambda>s. do {
          s \<leftarrow> upd_sock (\<lambda>k. k\<lparr>poll_status := SOCK__POLL_PENDING, pending_events := user_events k\<rparr>) a s;
          finish s
        });
        (if r < 0 then
           (if last_error (err s) = ''ERROR_IO_PENDING'' then submitted s
            else if last_error (err s) = ''ERROR_INVALID_HANDLE'' then sock__delete os a False s
            else Some (-1, map_win_error s))
         else submitted s)
      })
   }"

text \<open>The end of \<^verbatim>\<open>sock_feed_event\<close>; the event is stored only with the result 1.\<close>

definition sock__report :: "nat \<Rightarrow> u32 \<Rightarrow> port_state \<Rightarrow> ((int \<times> epoll_event option) \<times> port_state) option" where
  "sock__report a epoll_events s = do {
     s \<leftarrow> port_request_socket_update a s;
     k \<leftarrow> socks s a;
     let epoll_events = epoll_events AND user_events k;
     (if epoll_events = 0 then Some ((0, None), s)
      else do {
        s \<leftarrow> (if user_events k AND EPOLLONESHOT \<noteq> 0 then upd_sock (\<lambda>k. k\<lparr>user_events := 0\<rparr>) a s else Some s);
        Some ((1, Some \<lparr>events = epoll_events, data = user_data k\<rparr>), s)
      })
   }"

definition sock_feed_event :: "os \<Rightarrow> nat \<Rightarrow> port_state \<Rightarrow> ((int \<times> epoll_event option) \<times> port_state) option" where
  "sock_feed_event os a s = do {
     s \<leftarrow> upd_sock (\<lambda>k. k\<lparr>poll_status := SOCK__POLL_IDLE, pending_events := 0\<rparr>) a s;
     k \<leftarrow> socks s a;
     let st = Status (io_status_block k);
     (if delete_pending k then do { (r, s) \<leftarrow> sock__delete os a False s; Some ((r, None), s) }
      else if st = STATUS_CANCELLED then sock__report a 0 s
      else if \<not> NT_SUCCESS st then sock__report a EPOLLERR s
      else if NumberOfHandles (poll_info k) < 1 then sock__report a 0 s
      else if Events (Handles (poll_info k)) AND AFD_POLL_LOCAL_CLOSE \<noteq> 0
      then do { (r, s) \<leftarrow> sock__delete os a False s; Some ((r, None), s) }
      else sock__report a (sock__afd_events_to_epoll_events (Events (Handles (poll_info k)))) s)
   }"

section \<open>Ports\<close>

definition port__create_iocp :: "os \<Rightarrow> port_state \<Rightarrow> u64 \<times> port_state" where
  "port__create_iocp os s = (let (h, s) = CreateIoCompletionPort os INVALID_HANDLE_VALUE 0 s in
     if h = 0 then (0, map_win_error s) else (h, s))"

text \<open>The memory of a port after \<^verbatim>\<open>memset\<close>; the surroundings stay.\<close>

definition zero_port :: "port_state \<Rightarrow> port_state" where
  "zero_port s = s\<lparr>iocp_handle := 0, sock_tree := (None, \<lambda>_. None),
     queues := (\<lambda>n. if n = UpdateQ \<or> n = DeletedQ \<or> n = GroupQ then Some \<lparr>prev = NullQ, next = NullQ\<rparr> else None),
     socks := (\<lambda>_. None), groups := (\<lambda>_. None), active_poll_count := 0\<rparr>"

definition port_new :: "os \<Rightarrow> port_state \<Rightarrow> (u64 option \<times> port_state) option" where
  "port_new os s =
     (let (p, s) = malloc os s in
      case p of
        None \<Rightarrow> Some (None, set_win_error ''ERROR_NOT_ENOUGH_MEMORY'' s)
      | Some _ \<Rightarrow>
          (let (h, s) = port__create_iocp os s in
           if h = 0 then Some (None, s)
           else do {
             let s = (zero_port s)\<lparr>iocp_handle := h\<rparr>;
             let s = s\<lparr>sock_tree := tree_init (snd (sock_tree s))\<rparr>;
             s \<leftarrow> on_queues (\<lambda>q. queue_init q UpdateQ) s;
             s \<leftarrow> on_queues (\<lambda>q. queue_init q DeletedQ) s;
             s \<leftarrow> on_queues (\<lambda>q. queue_init q GroupQ) s;
             Some (Some h, s)
           }))"

definition port__close_iocp :: "os \<Rightarrow> port_state \<Rightarrow> int \<times> port_state" where
  "port__close_iocp os s =
     (let h = iocp_handle s; (ok, s) = CloseHandle os h (s\<lparr>iocp_handle := 0\<rparr>) in
      if \<not> ok then (-1, map_win_error s) else (0, s))"

definition port_close :: "os \<Rightarrow> port_state \<Rightarrow> int \<times> port_state" where
  "port_close os s = port__close_iocp os s"

text \<open>The three loops of \<^verbatim>\<open>port_delete\<close>.\<close>

partial_function (option) port__delete_registered :: "os \<Rightarrow> port_state \<Rightarrow> port_state option" where
  "port__delete_registered os s =
     (case tree_root (sock_tree s) of
        None \<Rightarrow> Some s
      | Some a \<Rightarrow> do { s \<leftarrow> sock_force_delete os a s; port__delete_registered os s })"

partial_function (option) port__delete_deleted :: "os \<Rightarrow> port_state \<Rightarrow> port_state option" where
  "port__delete_deleted os s = do {
     n \<leftarrow> queue_first (queues s) DeletedQ;
     (case n of
        None \<Rightarrow> Some s
      | Some n \<Rightarrow> do {
          a \<leftarrow> sock_state_from_queue_node n;
          s \<leftarrow> sock_force_delete os a s;
          port__delete_deleted os s
        })
   }"

partial_function (option) port__delete_groups :: "os \<Rightarrow> port_state \<Rightarrow> port_state option" where
  "port__delete_groups os s = do {
     n \<leftarrow> queue_first (queues s) GroupQ;
     (case n of
        None \<Rightarrow> Some s
      | Some n \<Rightarrow> do {
          g \<leftarrow> poll_group_from_queue_node n;
          s \<leftarrow> poll_group_delete os g s;
          port__delete_groups os s
        })
   }"

declare port__delete_registered.simps [code] port__delete_deleted.simps [code] port__delete_groups.simps [code]

definition port_delete :: "os \<Rightarrow> port_state \<Rightarrow> (int \<times> port_state) option" where
  "port_delete os s =
     (if iocp_handle s = 0 then do {
        s \<leftarrow> port__delete_registered os s;
        s \<leftarrow> port__delete_deleted os s;
        s \<leftarrow> port__delete_groups os s;
        e \<leftarrow> queue_is_empty (queues s) UpdateQ;
        (if e then Some (0, s) else None)
      }
      else None)"

partial_function (option) port__update_events :: "os \<Rightarrow> port_state \<Rightarrow> (int \<times> port_state) option" where
  "port__update_events os s = do {
     e \<leftarrow> queue_is_empty (queues s) UpdateQ;
     (if \<not> e then do {
        n \<leftarrow> queue_first (queues s) UpdateQ;
        n \<leftarrow> n;
        a \<leftarrow> sock_state_from_queue_node n;
        (r, s) \<leftarrow> sock_update os a s;
        (if r < 0 then Some (-1, s) else port__update_events os s)
      }
      else Some (0, s))
   }"

declare port__update_events.simps [code]

definition port__update_events_if_polling :: "os \<Rightarrow> port_state \<Rightarrow> port_state option" where
  "port__update_events_if_polling os s =
     (if active_poll_count s > 0 then do { (_, s) \<leftarrow> port__update_events os s; Some s } else Some s)"

text \<open>
  The caller's array of events is a list; the next event goes to the index \<open>i\<close>, which has to be
  inside of it when there is an event to store.
\<close>

fun port__feed_loop :: "os \<Rightarrow> epoll_event list \<Rightarrow> nat \<Rightarrow> completion list \<Rightarrow> port_state
    \<Rightarrow> ((nat \<times> epoll_event list) \<times> port_state) option" where
  "port__feed_loop os evs i [] s = Some ((i, evs), s)"
| "port__feed_loop os evs i (c # cs) s = do {
     ((r, ev), s) \<leftarrow> sock_feed_event os (c_addr c) s;
     evs \<leftarrow> (case ev of None \<Rightarrow> Some evs | Some e \<Rightarrow> if i < length evs then Some (evs[i := e]) else None);
     port__feed_loop os evs (i + nat r) cs s
   }"

definition port__feed_events :: "os \<Rightarrow> epoll_event list \<Rightarrow> completion list \<Rightarrow> port_state
    \<Rightarrow> ((nat \<times> epoll_event list) \<times> port_state) option" where
  "port__feed_events os evs cs s = port__feed_loop os evs 0 cs s"

text \<open>The kernel has written the result of every request whose packet is dequeued.\<close>

fun dequeue :: "completion list \<Rightarrow> port_state \<Rightarrow> port_state option" where
  "dequeue [] s = Some s"
| "dequeue (c # cs) s = do {
     s \<leftarrow> upd_sock (\<lambda>k. k\<lparr>io_status_block := c_status c, poll_info := c_info c\<rparr>) (c_addr c) s;
     dequeue cs (s\<lparr>in_flight := in_flight s - {c_addr c}\<rparr>)
   }"

definition GetQueuedCompletionStatusEx :: "os \<Rightarrow> nat \<Rightarrow> u32 \<Rightarrow> port_state \<Rightarrow> ((bool \<times> completion list) \<times> port_state) option" where
  "GetQueuedCompletionStatusEx os maxevents timeout s =
     (case os_GetQueuedCompletionStatusEx os (clock s) (iocp_handle s) maxevents timeout (in_flight s) of
        Inl e \<Rightarrow> Some ((False, []), set_last_error e (tick s))
      | Inr cs \<Rightarrow> do { s \<leftarrow> dequeue cs (tick s); Some ((True, cs), s) })"

text \<open>
  One wait. While the lock is released the other threads act on the port; what the wait returns
  does not depend on whether they do so before or after the handle is read.
\<close>

definition port__poll :: "os \<Rightarrow> epoll_event list \<Rightarrow> nat \<Rightarrow> u32 \<Rightarrow> port_state \<Rightarrow> ((int \<times> epoll_event list) \<times> port_state) option" where
  "port__poll os evs maxevents timeout s = do {
     (r, s) \<leftarrow> port__update_events os s;
     (if r < 0 then Some ((-1, evs), s)
      else do {
        let s = s\<lparr>active_poll_count := active_poll_count s + 1\<rparr>;
        let s = os_others os (clock s) s;
        ((ok, cs), s) \<leftarrow> GetQueuedCompletionStatusEx os maxevents timeout s;
        let s = s\<lparr>active_poll_count := active_poll_count s - 1\<rparr>;
        (if \<not> ok then Some ((-1, evs), map_win_error s)
         else do {
           ((n, evs), s) \<leftarrow> port__feed_events os evs cs s;
           Some ((int n, evs), s)
         })
      })
   }"

definition PORT__MAX_ON_STACK_COMPLETIONS :: int where "PORT__MAX_ON_STACK_COMPLETIONS = 256"

definition INFINITE :: u32 where "INFINITE = 0xFFFFFFFF"

definition GetTickCount64 :: "os \<Rightarrow> port_state \<Rightarrow> u64 \<times> port_state" where
  "GetTickCount64 os s = (os_GetTickCount64 os (clock s), tick s)"

text \<open>The loop of \<^verbatim>\<open>port_wait\<close>; without a result it still waits after that many rounds.\<close>

fun port__wait_loop :: "os \<Rightarrow> nat \<Rightarrow> nat \<Rightarrow> int \<Rightarrow> u64 \<Rightarrow> u32 \<Rightarrow> epoll_event list \<Rightarrow> port_state
    \<Rightarrow> ((int \<times> epoll_event list) option \<times> port_state) option" where
  "port__wait_loop os 0 maxevents timeout due gqcs_timeout evs s = Some (None, s)"
| "port__wait_loop os (Suc n) maxevents timeout due gqcs_timeout evs s = do {
     ((result, evs), s) \<leftarrow> port__poll os evs maxevents gqcs_timeout s;
     (if result \<noteq> 0 then Some (Some (result, evs), s)
      else if timeout < 0 then port__wait_loop os n maxevents timeout due gqcs_timeout evs s
      else let (now, s) = GetTickCount64 os s in
        if now \<ge> due then Some (Some (result, evs), set_last_error ''WAIT_TIMEOUT'' s)
        else port__wait_loop os n maxevents timeout due (ucast (due - now)) evs s)
   }"

definition port_wait :: "os \<Rightarrow> nat \<Rightarrow> epoll_event list \<Rightarrow> int \<Rightarrow> int \<Rightarrow> port_state
    \<Rightarrow> ((int \<times> epoll_event list) option \<times> port_state) option" where
  "port_wait os fuel evs maxevents timeout s =
     (if maxevents \<le> 0 then Some (Some (-1, evs), set_win_error ''ERROR_INVALID_PARAMETER'' s)
      else do {
        let (maxevents, s) =
          (if maxevents \<le> PORT__MAX_ON_STACK_COMPLETIONS then (maxevents, s)
           else let (p, s) = malloc os s in
             ((case p of None \<Rightarrow> PORT__MAX_ON_STACK_COMPLETIONS | Some _ \<Rightarrow> maxevents), s));
        let ((due, gqcs_timeout), s) =
          (if timeout > 0 then
             let (t, s) = GetTickCount64 os s in ((t + word_of_int timeout, word_of_int timeout), s)
           else if timeout = 0 then ((0, 0), s)
           else ((0, INFINITE), s));
        (r, s) \<leftarrow> port__wait_loop os fuel (nat maxevents) timeout due gqcs_timeout evs s;
        (case r of
           None \<Rightarrow> Some (None, s)
         | Some (result, evs) \<Rightarrow> do {
             s \<leftarrow> port__update_events_if_polling os s;
             Some (Some (if result \<ge> 0 then result
                         else if last_error (err s) = ''WAIT_TIMEOUT'' then 0 else -1, evs), s)
           })
      })"

section \<open>Control\<close>

definition EPOLL_CTL_ADD :: int where "EPOLL_CTL_ADD = 1"
definition EPOLL_CTL_MOD :: int where "EPOLL_CTL_MOD = 2"
definition EPOLL_CTL_DEL :: int where "EPOLL_CTL_DEL = 3"

definition port__ctl_add :: "os \<Rightarrow> u64 \<Rightarrow> epoll_event \<Rightarrow> port_state \<Rightarrow> (int \<times> port_state) option" where
  "port__ctl_add os sock ev s = do {
     (a, s) \<leftarrow> sock_new os sock s;
     (case a of
        None \<Rightarrow> Some (-1, s)
      | Some a \<Rightarrow> do {
          (r, s) \<leftarrow> sock_set_event a ev s;
          (if r < 0 then do { s \<leftarrow> sock_delete os a s; Some (-1, s) }
           else do { s \<leftarrow> port__update_events_if_polling os s; Some (0, s) })
        })
   }"

definition port__ctl_mod :: "os \<Rightarrow> u64 \<Rightarrow> epoll_event \<Rightarrow> port_state \<Rightarrow> (int \<times> port_state) option" where
  "port__ctl_mod os sock ev s = do {
     (a, s) \<leftarrow> port_find_socket sock s;
     (case a of
        None \<Rightarrow> Some (-1, s)
      | Some a \<Rightarrow> do {
          (r, s) \<leftarrow> sock_set_event a ev s;
          (if r < 0 then Some (-1, s)
           else do { s \<leftarrow> port__update_events_if_polling os s; Some (0, s) })
        })
   }"

definition port__ctl_del :: "os \<Rightarrow> u64 \<Rightarrow> port_state \<Rightarrow> (int \<times> port_state) option" where
  "port__ctl_del os sock s = do {
     (a, s) \<leftarrow> port_find_socket sock s;
     (case a of
        None \<Rightarrow> Some (-1, s)
      | Some a \<Rightarrow> do { s \<leftarrow> sock_delete os a s; Some (0, s) })
   }"

definition port__ctl_op :: "os \<Rightarrow> int \<Rightarrow> u64 \<Rightarrow> epoll_event \<Rightarrow> port_state \<Rightarrow> (int \<times> port_state) option" where
  "port__ctl_op os op sock ev s =
     (if op = EPOLL_CTL_ADD then port__ctl_add os sock ev s
      else if op = EPOLL_CTL_MOD then port__ctl_mod os sock ev s
      else if op = EPOLL_CTL_DEL then port__ctl_del os sock s
      else Some (-1, set_win_error ''ERROR_INVALID_PARAMETER'' s))"

definition port_ctl :: "os \<Rightarrow> int \<Rightarrow> u64 \<Rightarrow> epoll_event \<Rightarrow> port_state \<Rightarrow> (int \<times> port_state) option" where
  "port_ctl os op sock ev s = port__ctl_op os op sock ev s"

end
