(* ===== verification/WepollGroups.thy ===== *)
theory WepollGroups
  imports WepollPort
begin

text \<open>
  Poll groups: what the operations on the groups of a port keep. The queue of groups has the
  full groups at its front, so the group at its end has room whenever any has. The number of the
  sockets of each group is a parameter of the invariant; the sockets themselves are in the theory
  \<open>WepollSocks\<close>.
\<close>

section \<open>The surroundings\<close>

text \<open>What a system call leaves alone.\<close>

definition core :: "port_state \<Rightarrow> port_state" where
  "core s = s\<lparr>err := \<lparr>last_error = [], errno_var = []\<rparr>, clock := 0, closed := []\<rparr>"

lemma core_fields:
  assumes "core s' = core s"
  shows "iocp_handle s' = iocp_handle s" "sock_tree s' = sock_tree s" "queues s' = queues s" "socks s' = socks s"
    "groups s' = groups s" "active_poll_count s' = active_poll_count s" "brk s' = brk s" "in_flight s' = in_flight s"
  using assms by (auto simp: core_def dest: arg_cong [where f = iocp_handle] arg_cong [where f = sock_tree]
      arg_cong [where f = queues] arg_cong [where f = socks] arg_cong [where f = groups]
      arg_cong [where f = active_poll_count] arg_cong [where f = brk] arg_cong [where f = in_flight])

lemma core_calls [simp]:
  "core (tick s) = core s" "core (set_win_error e s) = core s" "core (map_win_error s) = core s"
  "core (set_last_error e s) = core s"
  by (simp_all add: core_def tick_def set_win_error_def map_win_error_def set_last_error_def)

lemmas core_call_fields [simp] = core_calls [THEN core_fields(1)] core_calls [THEN core_fields(2)] core_calls [THEN core_fields(3)]
  core_calls [THEN core_fields(4)] core_calls [THEN core_fields(5)] core_calls [THEN core_fields(6)]
  core_calls [THEN core_fields(7)] core_calls [THEN core_fields(8)]

lemma core_closed [simp]: "core (s\<lparr>closed := c\<rparr>) = core s"
  by (simp add: core_def)

lemma CloseHandle_core: "CloseHandle os h s = (ok, s') \<Longrightarrow> core s' = core s"
  by (auto simp: CloseHandle_def split: option.splits)

lemma CreateIoCompletionPort_core: "CreateIoCompletionPort os f p s = (h, s') \<Longrightarrow> core s' = core s"
  by (auto simp: CreateIoCompletionPort_def split: sum.splits)

lemma afd_create_device_handle_core:
  "afd_create_device_handle os iocp s = ((r, h), s') \<Longrightarrow> core s' = core s \<and> (r = 0 \<or> r = -1)"
  by (auto simp: afd_create_device_handle_def Let_def split: prod.splits if_splits option.splits
      dest!: CloseHandle_core CreateIoCompletionPort_core)

section \<open>The invariant of the groups\<close>

definition full_first :: "(nat \<Rightarrow> nat) \<Rightarrow> nat list \<Rightarrow> bool" where
  "full_first c G \<longleftrightarrow> (\<exists>F N. G = F @ N \<and> (\<forall>g \<in> set F. c g = 32) \<and> (\<forall>g \<in> set N. c g < 32))"

definition groups_ok :: "port_state \<Rightarrow> nat list \<Rightarrow> (nat \<Rightarrow> nat) \<Rightarrow> bool" where
  "groups_ok s G c \<longleftrightarrow>
     is_queue (queues s) GroupQ (map GroupN G) \<and> set G = dom (groups s) \<and> full_first c G
     \<and> (\<forall>g x. groups s g = Some x \<longrightarrow> unat (group_size x) = c g)
     \<and> (\<forall>g. groups s g = None \<longrightarrow> c g = 0) \<and> (\<forall>g. groups s g \<noteq> None \<longrightarrow> g < brk s)"

text \<open>What the operations on groups leave alone.\<close>

definition groups_only :: "port_state \<Rightarrow> port_state \<Rightarrow> bool" where
  "groups_only s s' \<longleftrightarrow> iocp_handle s' = iocp_handle s \<and> sock_tree s' = sock_tree s \<and> socks s' = socks s
     \<and> active_poll_count s' = active_poll_count s \<and> in_flight s' = in_flight s \<and> brk s \<le> brk s'
     \<and> (\<forall>n. n \<noteq> GroupQ \<and> n \<notin> range GroupN \<longrightarrow> queues s' n = queues s n)"

lemma groups_only_trans: "groups_only s s1 \<Longrightarrow> groups_only s1 s2 \<Longrightarrow> groups_only s s2"
  by (auto simp: groups_only_def)

lemma groups_only_core:
  assumes "core s' = core s"
  shows "groups_only s s'"
  by (simp add: groups_only_def core_fields [OF assms])

lemma groups_ok_core:
  assumes "core s' = core s"
  shows "groups_ok s' G c = groups_ok s G c"
  by (simp add: groups_ok_def core_fields [OF assms])

lemma full_first_le: "full_first c G \<Longrightarrow> g \<in> set G \<Longrightarrow> c g \<le> 32"
  by (auto simp: full_first_def less_imp_le)

lemma group_at_most_32: "groups_ok s G c \<Longrightarrow> c g \<le> 32"
proof -
  assume ok: "groups_ok s G c"
  show ?thesis
  proof (cases "groups s g")
    case None
    then show ?thesis using ok by (simp add: groups_ok_def)
  next
    case (Some x)
    then have "g \<in> set G" "full_first c G" using ok by (auto simp: groups_ok_def)
    then show ?thesis by (metis full_first_le)
  qed
qed

lemma full_first_empty_last:
  assumes "full_first c G" "G \<noteq> []" "c (last G) = 32" "g \<in> set G"
  shows "c g = 32"
proof -
  obtain F N where G: "G = F @ N" "\<forall>g \<in> set F. c g = 32" "\<forall>g \<in> set N. c g < 32"
    using assms(1) by (auto simp: full_first_def)
  have "N = []"
  proof (rule ccontr)
    assume "N \<noteq> []"
    then have "last G \<in> set N" using G(1) by simp
    then show False using G(3) assms(3) by auto
  qed
  then show ?thesis using G assms(4) by auto
qed

lemma full_first_snoc:
  assumes "full_first c G" "c g < 32"
  shows "full_first c (G @ [g])"
proof -
  obtain F N where "G = F @ N" "\<forall>g \<in> set F. c g = 32" "\<forall>g \<in> set N. c g < 32"
    using assms(1) by (auto simp: full_first_def)
  then show ?thesis using assms(2) unfolding full_first_def
    by (intro exI [of _ F] exI [of _ "N @ [g]"]) auto
qed

lemma full_first_fill:
  assumes "full_first c G" "g \<in> set G" "distinct G" "Suc (c g) = 32"
  shows "full_first (c(g := 32)) (g # remove1 g G)"
proof -
  obtain F N where G: "G = F @ N" "\<forall>g \<in> set F. c g = 32" "\<forall>g \<in> set N. c g < 32"
    using assms(1) by (auto simp: full_first_def)
  then have gF: "g \<notin> set F" using assms(4) by auto
  then have "remove1 g G = F @ remove1 g N" using G(1) by (simp add: remove1_append)
  moreover have "g \<notin> set (remove1 g N)" using assms(3) G(1) by simp
  ultimately show ?thesis
    unfolding full_first_def using G gF
    by (intro exI [of _ "g # F"] exI [of _ "remove1 g N"]) (auto dest: notin_set_remove1)
qed

lemma full_first_more:
  assumes "full_first c G" "Suc (c g) < 32"
  shows "full_first (c(g := Suc (c g))) G"
  using assms unfolding full_first_def by (metis fun_upd_other fun_upd_same less_irrefl Suc_lessD)

lemma full_first_release:
  assumes "full_first c G" "g \<in> set G" "distinct G" "0 < c g"
  shows "full_first (c(g := c g - 1)) (remove1 g G @ [g])"
proof -
  obtain F N where G: "G = F @ N" "\<forall>g \<in> set F. c g = 32" "\<forall>g \<in> set N. c g < 32"
    using assms(1) by (auto simp: full_first_def)
  have "c g - 1 < 32" using G assms(2) by force
  moreover have "remove1 g G = remove1 g F @ remove1 g N"
    using G(1) assms(3) by (cases "g \<in> set N") (auto simp: remove1_append remove1_idem)
  moreover have "g \<notin> set (remove1 g F)" "g \<notin> set (remove1 g N)" using assms(3) G(1) by simp_all
  ultimately show ?thesis
    unfolding full_first_def using G
    by (intro exI [of _ "remove1 g F"] exI [of _ "remove1 g N @ [g]"]) (auto dest: notin_set_remove1)
qed


section \<open>The operations\<close>

lemma group_elem_neq [simp]: "GroupN g \<in> GroupN ` A \<longleftrightarrow> g \<in> A" "SockN g \<in> SockN ` A \<longleftrightarrow> g \<in> A"
  by auto

lemma map_remove1_inj: "inj_on f (insert x (set xs)) \<Longrightarrow> map f (remove1 x xs) = remove1 (f x) (map f xs)"
  by (induction xs) (auto simp: inj_on_def)

lemma groups_ok_distinct: "groups_ok s G c \<Longrightarrow> distinct G"
  by (auto simp: groups_ok_def is_queue_def distinct_map)

lemma poll_group__new_spec:
  assumes ok: "groups_ok s G c" and h: "iocp_handle s \<noteq> 0"
  shows "\<exists>p s'. poll_group__new os s = Some (p, s') \<and> groups_only s s' \<and>
    (case p of None \<Rightarrow> groups_ok s' G c | Some g \<Rightarrow> groups s g = None \<and> groups_ok s' (G @ [g]) c)"
proof (cases "os_malloc os (clock s)")
  case False
  then have e: "poll_group__new os s = Some (None, set_win_error ''ERROR_NOT_ENOUGH_MEMORY'' (tick s))"
    using h by (simp add: poll_group__new_def port_get_iocp_handle_def malloc_def)
  have k: "core (set_win_error ''ERROR_NOT_ENOUGH_MEMORY'' (tick s)) = core s" by simp
  show ?thesis using ok e groups_only_core [OF k] groups_ok_core [OF k] by simp
next
  case True
  let ?g = "brk s"
  let ?q = "(queues s)(GroupN ?g \<mapsto> \<lparr>prev = GroupN ?g, next = GroupN ?g\<rparr>)"
  define s1 where "s1 = (new_group ?g ((tick s)\<lparr>brk := Suc ?g\<rparr>))\<lparr>queues := ?q\<rparr>"
  have new: "groups s ?g = None" using ok by (auto simp: groups_ok_def)
  then have gG: "?g \<notin> set G" using ok by (auto simp: groups_ok_def)
  have s1: "on_queues (\<lambda>q. queue_node_init q (GroupN ?g)) (new_group ?g ((tick s)\<lparr>brk := Suc ?g\<rparr>)) = Some s1"
    by (simp add: on_queues_def queue_node_init_spec new_group_def s1_def)
  have q1: "is_queue ?q GroupQ (map GroupN G)"
    by (rule is_queue_frame [of "queues s"]) (use ok gG in \<open>auto simp: groups_ok_def\<close>)
  obtain r hd s2 where a: "afd_create_device_handle os (iocp_handle s) s1 = ((r, hd), s2)" by (metis surj_pair)
  then have c2: "core s2 = core s1" "r = 0 \<or> r = -1" using afd_create_device_handle_core by blast+
  note f2 = core_fields [OF c2(1)]
  have e: "poll_group__new os s = (if r < 0 then Some (None, free_group ?g s2)
      else do { s \<leftarrow> upd_group (\<lambda>x. x\<lparr>afd_device_handle := hd\<rparr>) ?g s2;
                s \<leftarrow> on_queues (\<lambda>q. queue_append q GroupQ (GroupN ?g)) s; Some (Some ?g, s) })"
    using h True s1 a by (simp add: poll_group__new_def port_get_iocp_handle_def malloc_def)
  show ?thesis
  proof (cases "r < 0")
    case True
    have "groups_only s (free_group ?g s2)"
      by (auto simp: groups_only_def free_group_def f2 s1_def new_group_def)
    moreover have "groups_ok (free_group ?g s2) G c"
    proof -
      have "is_queue (?q(GroupN ?g := None)) GroupQ (map GroupN G)"
        by (rule is_queue_frame [OF q1]) (use gG in auto)
      then show ?thesis using ok new
        by (auto simp: groups_ok_def free_group_def f2 s1_def new_group_def less_Suc_eq)
    qed
    ultimately show ?thesis using e True by simp
  next
    case False
    obtain q2 where q2: "queue_append ?q GroupQ (GroupN ?g) = Some q2" "is_queue q2 GroupQ (map GroupN G @ [GroupN ?g])"
      "\<forall>y. y \<notin> set (GroupQ # GroupN ?g # map GroupN G) \<longrightarrow> q2 y = ?q y"
      using queue_append_spec [OF q1, of "GroupN ?g"] gG by auto
    define s3 where "s3 = s2\<lparr>groups := (groups s2)(?g \<mapsto> \<lparr>afd_device_handle = hd, group_size = 0\<rparr>), queues := q2\<rparr>"
    have "poll_group__new os s = Some (Some ?g, s3)"
      using e False q2(1) by (simp add: upd_group_def on_queues_def f2 s1_def new_group_def s3_def)
    moreover have "groups_only s s3"
      using q2(3) by (auto simp: groups_only_def f2 s1_def new_group_def s3_def)
    moreover have "groups_ok s3 (G @ [?g]) c"
      using ok new q2(2) full_first_snoc [of c G ?g]
      by (auto simp: groups_ok_def f2 s1_def new_group_def s3_def less_Suc_eq)
    ultimately show ?thesis using new by simp
  qed
qed


text \<open>A group is taken from the end of the queue; a new one is made only when all are full.\<close>

lemma group_count_up:
  assumes ok: "groups_ok s G c" and g: "groups s g = Some x" and c: "c g < 32"
  shows "\<exists>s' G'. (do {
       s \<leftarrow> upd_group (\<lambda>x. x\<lparr>group_size := group_size x + 1\<rparr>) g s;
       x \<leftarrow> groups s g;
       s \<leftarrow> (if group_size x = POLL_GROUP__MAX_GROUP_SIZE
             then on_queues (\<lambda>q. queue_move_to_start q GroupQ (GroupN g)) s else Some s);
       Some (Some g, s)
     }) = Some (Some g, s') \<and> groups_only s s' \<and> groups_ok s' G' (c(g := Suc (c g))) \<and> dom (groups s') = dom (groups s)"
proof -
  let ?x = "x\<lparr>group_size := group_size x + 1\<rparr>"
  have gs: "unat (group_size x) = c g" using ok g by (simp add: groups_ok_def)
  then have "unat (group_size x + 1) = Suc (c g)"
    using c unat_inc_less [of "group_size x" 32] by (simp add: word_less_nat_alt)
  then have full: "group_size ?x = POLL_GROUP__MAX_GROUP_SIZE \<longleftrightarrow> Suc (c g) = 32" and u: "unat (group_size ?x) = Suc (c g)"
    by (simp_all add: POLL_GROUP__MAX_GROUP_SIZE_def word_unat_eq_iff)
  have gG: "g \<in> set G" using ok g by (auto simp: groups_ok_def)
  show ?thesis
  proof (cases "Suc (c g) = 32")
    case False
    let ?s = "s\<lparr>groups := (groups s)(g \<mapsto> ?x)\<rparr>"
    have "groups_ok ?s G (c(g := Suc (c g)))"
      using ok g u full_first_more [of c G g] False c by (auto simp: groups_ok_def)
    moreover have "groups_only s ?s" by (simp add: groups_only_def)
    ultimately show ?thesis
      using g full False by (intro exI [of _ ?s] exI [of _ G]) (auto simp: upd_group_def)
  next
    case True
    have iq: "is_queue (queues s) GroupQ (map GroupN G)" using ok by (simp add: groups_ok_def)
    obtain q where q: "queue_move_to_start (queues s) GroupQ (GroupN g) = Some q"
      "is_queue q GroupQ (GroupN g # remove1 (GroupN g) (map GroupN G))" "\<forall>y. y \<notin> set (GroupQ # map GroupN G) \<longrightarrow> q y = queues s y"
      using queue_move_to_start_spec [OF iq, of "GroupN g"] gG by auto
    let ?s = "s\<lparr>groups := (groups s)(g \<mapsto> ?x), queues := q\<rparr>"
    let ?G = "g # remove1 g G"
    have "remove1 (GroupN g) (map GroupN G) = map GroupN (remove1 g G)" by (rule map_remove1_inj [symmetric]) (simp add: inj_on_def)
    then have "groups_ok ?s ?G (c(g := Suc (c g)))"
      using ok g u q(2) full_first_fill [of c G g] gG True groups_ok_distinct [OF ok]
      by (auto simp: groups_ok_def insert_absorb)
    moreover have "groups_only s ?s" using q(3) by (auto simp: groups_only_def)
    ultimately show ?thesis
      using g full True q(1) by (intro exI [of _ ?s] exI [of _ ?G]) (auto simp: upd_group_def on_queues_def)
  qed
qed

lemma poll_group_acquire_spec:
  assumes ok: "groups_ok s G c" and h: "iocp_handle s \<noteq> 0"
  shows "\<exists>p s'. poll_group_acquire os s = Some (p, s') \<and> groups_only s s' \<and>
    (case p of None \<Rightarrow> \<exists>G'. groups_ok s' G' c
     | Some g \<Rightarrow> (\<exists>G'. groups_ok s' G' (c(g := Suc (c g)))) \<and> groups s' g \<noteq> None
         \<and> (groups s g = None \<longrightarrow> (\<forall>g' \<in> set G. c g' = 32)))"
proof -
  have iq: "is_queue (queues s) GroupQ (map GroupN G)" using ok by (simp add: groups_ok_def)
  note qs = queue_is_empty_spec [OF iq] queue_last_spec [OF iq]
  define full where "full \<longleftrightarrow> (\<forall>g' \<in> set G. c g' = 32)"
  have all: "G = [] \<or> c (last G) \<ge> 32 \<Longrightarrow> full"
    using full_first_empty_last [of c G] group_at_most_32 [OF ok, of "last G"] groups_ok_def [of s G c] ok
    unfolding full_def by (metis empty_iff list.set(1) order_antisym)
  let ?bump = "\<lambda>g s. do {
       s \<leftarrow> upd_group (\<lambda>x. x\<lparr>group_size := group_size x + 1\<rparr>) g s;
       x \<leftarrow> groups s g;
       s \<leftarrow> (if group_size x = POLL_GROUP__MAX_GROUP_SIZE
             then on_queues (\<lambda>q. queue_move_to_start q GroupQ (GroupN g)) s else Some s);
       Some (Some g, s)
     }"
  have e: "poll_group_acquire os s =
      (if G = [] \<or> c (last G) \<ge> 32
       then do { (p, s) \<leftarrow> poll_group__new os s; (case p of None \<Rightarrow> Some (None, s) | Some g \<Rightarrow> ?bump g s) }
       else ?bump (last G) s)"
  proof (cases "G = []")
    case True
    then show ?thesis using qs by (simp add: poll_group_acquire_def)
  next
    case False
    then have "last G \<in> dom (groups s)" using ok by (auto simp: groups_ok_def)
    then obtain x where x: "groups s (last G) = Some x" by auto
    then have "POLL_GROUP__MAX_GROUP_SIZE \<le> group_size x \<longleftrightarrow> c (last G) \<ge> 32"
      using ok by (auto simp: groups_ok_def POLL_GROUP__MAX_GROUP_SIZE_def word_le_nat_alt)
    then show ?thesis
      using False qs x by (simp add: poll_group_acquire_def poll_group_from_queue_node_def last_map)
  qed
  show ?thesis
  proof (cases "G = [] \<or> c (last G) \<ge> 32")
    case True
    obtain p s1 where n: "poll_group__new os s = Some (p, s1)" "groups_only s s1"
      "case p of None \<Rightarrow> groups_ok s1 G c | Some g \<Rightarrow> groups s g = None \<and> groups_ok s1 (G @ [g]) c"
      using poll_group__new_spec [OF assms] by blast
    show ?thesis
    proof (cases p)
      case None
      then show ?thesis using e True n by auto
    next
      case (Some g)
      then have k: "groups_ok s1 (G @ [g]) c" "groups s g = None" "c g < 32" using n(3) ok by (auto simp: groups_ok_def)
      then have "g \<in> dom (groups s1)" by (auto simp: groups_ok_def)
      then obtain x where "groups s1 g = Some x" by auto
      from group_count_up [OF k(1) this k(3)] show ?thesis
        using e True n(1,2) Some all [unfolded full_def] groups_only_trans [OF n(2)] \<open>g \<in> dom (groups s1)\<close> by fastforce
    qed
  next
    case False
    then have "last G \<in> dom (groups s)" using ok by (auto simp: groups_ok_def)
    then obtain x where x: "groups s (last G) = Some x" by auto
    from group_count_up [OF ok x] False show ?thesis using e x by fastforce
  qed
qed

lemma poll_group_release_spec:
  assumes ok: "groups_ok s G c" and g: "groups s g \<noteq> None" and c: "0 < c g"
  shows "\<exists>s' G'. poll_group_release g s = Some s' \<and> groups_only s s' \<and> groups_ok s' G' (c(g := c g - 1))
    \<and> dom (groups s') = dom (groups s)"
proof -
  obtain x where x: "groups s g = Some x" using g by blast
  let ?x = "x\<lparr>group_size := group_size x - 1\<rparr>"
  have gs: "unat (group_size x) = c g" using ok x by (simp add: groups_ok_def)
  then have u: "unat (group_size ?x) = c g - 1"
    using c unat_minus_one [of "group_size x"] by (cases "group_size x = 0") auto
  then have l: "group_size ?x < POLL_GROUP__MAX_GROUP_SIZE"
    using group_at_most_32 [OF ok, of g] c by (auto simp: word_less_nat_alt POLL_GROUP__MAX_GROUP_SIZE_def)
  have gG: "g \<in> set G" using ok x by (auto simp: groups_ok_def)
  have iq: "is_queue (queues s) GroupQ (map GroupN G)" using ok by (simp add: groups_ok_def)
  obtain q where q: "queue_move_to_end (queues s) GroupQ (GroupN g) = Some q"
    "is_queue q GroupQ (remove1 (GroupN g) (map GroupN G) @ [GroupN g])" "\<forall>y. y \<notin> set (GroupQ # map GroupN G) \<longrightarrow> q y = queues s y"
    using queue_move_to_end_spec [OF iq, of "GroupN g"] gG by auto
  let ?s = "s\<lparr>groups := (groups s)(g \<mapsto> ?x), queues := q\<rparr>"
  let ?G = "remove1 g G @ [g]"
  have "remove1 (GroupN g) (map GroupN G) = map GroupN (remove1 g G)" by (rule map_remove1_inj [symmetric]) (simp add: inj_on_def)
  then have "groups_ok ?s ?G (c(g := c g - 1))"
    using ok x u q(2) full_first_release [of c G g] gG c groups_ok_distinct [OF ok]
    by (auto simp: groups_ok_def insert_absorb)
  moreover have "groups_only s ?s" using q(3) by (auto simp: groups_only_def)
  ultimately show ?thesis
    using x l q(1) by (intro exI [of _ ?s] exI [of _ ?G]) (auto simp: poll_group_release_def upd_group_def on_queues_def)
qed

end
