(* ===== verification/WepollTreeRep.thy ===== *)
theory WepollTreeRep
  imports WepollTree
begin

text \<open>
  Heaps that hold a tree. The abstraction is a functional tree that carries the addresses of the
  nodes; a place in a tree is a subtree with the path of its ancestors. Rotations, recolourings
  and changes of a link are described once, at an arbitrary place, for both sides together. The
  red-black conditions are stated for subtrees and for paths.
\<close>

section \<open>Trees with addresses\<close>

datatype 'a ptree = Lf | Nd "'a ptree" 'a u64 bool "'a ptree"

text \<open>\<open>mk s A a k c B\<close> is the node with \<open>A\<close> on side \<open>s\<close> and \<open>B\<close> on the other side.\<close>

definition mk :: "side \<Rightarrow> 'a ptree \<Rightarrow> 'a \<Rightarrow> u64 \<Rightarrow> bool \<Rightarrow> 'a ptree \<Rightarrow> 'a ptree" where
  "mk s A a k c B = (case s of LeftS \<Rightarrow> Nd A a k c B | RightS \<Rightarrow> Nd B a k c A)"

fun ptr :: "'a ptree \<Rightarrow> 'a option" where
  "ptr Lf = None"
| "ptr (Nd l a k c r) = Some a"

fun isred :: "'a ptree \<Rightarrow> bool" where
  "isred Lf = False"
| "isred (Nd l a k c r) = c"

fun addrs :: "'a ptree \<Rightarrow> 'a set" where
  "addrs Lf = {}"
| "addrs (Nd l a k c r) = insert a (addrs l \<union> addrs r)"

text \<open>No address occurs twice.\<close>

fun uniq :: "'a ptree \<Rightarrow> bool" where
  "uniq Lf = True"
| "uniq (Nd l a k c r) \<longleftrightarrow> uniq l \<and> uniq r \<and> a \<notin> addrs l \<union> addrs r \<and> addrs l \<inter> addrs r = {}"

fun inord :: "'a ptree \<Rightarrow> (u64 \<times> 'a) list" where
  "inord Lf = []"
| "inord (Nd l a k c r) = inord l @ (k, a) # inord r"

lemma opp_opp [simp]: "opp (opp s) = s"
  by (cases s) auto

lemma opp_neq [simp]: "opp s \<noteq> s" "s \<noteq> opp s"
  by (cases s; simp)+

lemma side_cases: "s' = s \<or> s' = opp s"
  by (cases s; cases s') auto

lemma mk_opp: "mk (opp s) B a k c A = mk s A a k c B"
  by (cases s) (auto simp: mk_def)

lemma mk_cases: obtains "t = Lf" | A a k c B where "t = mk s A a k c B"
  by (cases t; cases s) (auto simp: mk_def)

lemma mk_simps [simp]:
  "ptr (mk s A a k c B) = Some a" "isred (mk s A a k c B) = c" "mk s A a k c B \<noteq> Lf" "Lf \<noteq> mk s A a k c B"
  "addrs (mk s A a k c B) = insert a (addrs A \<union> addrs B)"
  "uniq (mk s A a k c B) \<longleftrightarrow> uniq A \<and> uniq B \<and> a \<notin> addrs A \<and> a \<notin> addrs B \<and> addrs A \<inter> addrs B = {}"
  by (cases s; auto simp: mk_def)+

lemma inord_mk: "inord (mk s A a k c B) = (case s of LeftS \<Rightarrow> inord A @ (k, a) # inord B | RightS \<Rightarrow> inord B @ (k, a) # inord A)"
  by (cases s) (auto simp: mk_def)

lemma inord_rotate: "inord (mk s (mk s A p kp cp B) q kq cq C) = inord (mk s A p kp' cp' (mk s B q kq' cq' C))"
  if "kp = kp'" "kq = kq'"
  using that by (cases s) (auto simp: inord_mk)

lemma inord_recolour: "inord (mk s A a k c B) = inord (mk s A a k c' B)"
  by (simp add: inord_mk)

lemma ptr_in_addrs: "ptr t = Some a \<Longrightarrow> a \<in> addrs t"
  by (cases t) auto

section \<open>Heaps\<close>

fun rep :: "'a theap \<Rightarrow> 'a option \<Rightarrow> 'a ptree \<Rightarrow> bool" where
  "rep h par Lf \<longleftrightarrow> True"
| "rep h par (Nd l a k c r) \<longleftrightarrow> h a = Some \<lparr>left = ptr l, right = ptr r, parent = par, key = k, red = c\<rparr>
     \<and> rep h (Some a) l \<and> rep h (Some a) r"

text \<open>The record of a node by sides.\<close>

definition node_is :: "side \<Rightarrow> 'a option \<Rightarrow> 'a option \<Rightarrow> 'a option \<Rightarrow> u64 \<Rightarrow> bool \<Rightarrow> 'a tree_node" where
  "node_is s x y par k c = (case s of LeftS \<Rightarrow> \<lparr>left = x, right = y, parent = par, key = k, red = c\<rparr>
     | RightS \<Rightarrow> \<lparr>left = y, right = x, parent = par, key = k, red = c\<rparr>)"

lemma node_is_simps [simp]:
  "child s (node_is s x y par k c) = x" "child (opp s) (node_is s x y par k c) = y"
  "parent (node_is s x y par k c) = par" "key (node_is s x y par k c) = k" "red (node_is s x y par k c) = c"
  "set_child s v (node_is s x y par k c) = node_is s v y par k c"
  "set_child (opp s) v (node_is s x y par k c) = node_is s x v par k c"
  "set_parent v (node_is s x y par k c) = node_is s x y v k c"
  "set_red c' (node_is s x y par k c) = node_is s x y par k c'"
  by (cases s; simp add: node_is_def child_def set_child_def set_parent_def set_red_def)+

lemma node_is_left: "left (node_is s x y par k c) = (case s of LeftS \<Rightarrow> x | RightS \<Rightarrow> y)"
  by (cases s) (auto simp: node_is_def)

lemma node_is_right: "right (node_is s x y par k c) = (case s of LeftS \<Rightarrow> y | RightS \<Rightarrow> x)"
  by (cases s) (auto simp: node_is_def)

lemma rep_mk [simp]:
  "rep h par (mk s A a k c B) \<longleftrightarrow>
   h a = Some (node_is s (ptr A) (ptr B) par k c) \<and> rep h (Some a) A \<and> rep h (Some a) B"
  by (cases s) (auto simp: mk_def node_is_def)

lemma rep_frame: "rep h par t \<Longrightarrow> (\<And>x. x \<in> addrs t \<Longrightarrow> h' x = h x) \<Longrightarrow> rep h' par t"
  by (induction t arbitrary: par) auto

lemma rep_upd [simp]: "a \<notin> addrs t \<Longrightarrow> rep (h(a \<mapsto> n)) par t = rep h par t"
  by (induction t arbitrary: par) auto

lemma rep_same_node: "rep h par t \<Longrightarrow> rep h par t' \<Longrightarrow> ptr t = ptr t' \<Longrightarrow> t = Lf \<longleftrightarrow> t' = Lf"
  by (cases t; cases t') auto

text \<open>Moving a subtree under another parent: only its root is written.\<close>

lemma rep_set_parent:
  assumes "rep h par t" "ptr t = Some a" "uniq t" "n = the (h a)"
  shows "rep (h(a \<mapsto> set_parent p n)) p t"
  using assms by (cases t) (auto simp: set_parent_def)

section \<open>Places\<close>

text \<open>An ancestor: the side of the path, the node, and the subtree on the other side.\<close>

datatype 'a frame = Fr side 'a u64 bool "'a ptree"

type_synonym 'a path = "'a frame list"

fun plug :: "'a path \<Rightarrow> 'a ptree \<Rightarrow> 'a ptree" where
  "plug [] t = t"
| "plug (Fr s a k c B # fs) t = plug fs (mk s t a k c B)"

fun fptr :: "'a path \<Rightarrow> 'a option" where
  "fptr [] = None"
| "fptr (Fr s a k c B # fs) = Some a"

fun topred :: "'a path \<Rightarrow> bool" where
  "topred [] = False"
| "topred (Fr s a k c B # fs) = c"

fun faddrs :: "'a path \<Rightarrow> 'a set" where
  "faddrs [] = {}"
| "faddrs (Fr s a k c B # fs) = insert a (addrs B \<union> faddrs fs)"

fun repc :: "'a theap \<Rightarrow> 'a option \<Rightarrow> 'a option \<Rightarrow> 'a path \<Rightarrow> bool" where
  "repc h root p [] \<longleftrightarrow> root = p"
| "repc h root p (Fr s a k c B # fs) \<longleftrightarrow> h a = Some (node_is s p (ptr B) (fptr fs) k c) \<and> rep h (Some a) B
     \<and> repc h root (Some a) fs"

fun funiq :: "'a path \<Rightarrow> bool" where
  "funiq [] = True"
| "funiq (Fr s a k c B # fs) \<longleftrightarrow> funiq fs \<and> uniq B \<and> a \<notin> addrs B \<and> a \<notin> faddrs fs \<and> addrs B \<inter> faddrs fs = {}"

text \<open>The tree has the subtree \<open>t\<close> at the end of the path \<open>fs\<close>.\<close>

definition at :: "'a tree \<Rightarrow> 'a ptree \<Rightarrow> 'a path \<Rightarrow> bool" where
  "at T t fs \<longleftrightarrow> rep (snd T) (fptr fs) t \<and> repc (snd T) (fst T) (ptr t) fs
     \<and> uniq t \<and> funiq fs \<and> addrs t \<inter> faddrs fs = {}"

lemma at_up: "at T t (Fr s a k c B # fs) \<longleftrightarrow> at T (mk s t a k c B) fs"
  by (auto simp: at_def)

lemma at_plug: "at T t (gs @ fs) \<longleftrightarrow> at T (plug gs t) fs"
proof (induction gs arbitrary: t)
  case (Cons f gs)
  then show ?case by (cases f) (simp add: at_up)
qed simp

lemma at_root: "at T t fs \<longleftrightarrow> at T (plug fs t) []"
  using at_plug [of T t fs "[]"] by simp

lemma plug_append [simp]: "plug (fs @ gs) t = plug gs (plug fs t)"
proof (induction fs arbitrary: t)
  case (Cons f fs)
  then show ?case by (cases f) simp
qed simp

lemma addrs_plug: "addrs (plug fs t) = addrs t \<union> faddrs fs"
proof (induction fs arbitrary: t)
  case (Cons f fs)
  then show ?case by (cases f) auto
qed simp

lemma inord_plug_cong: "inord t = inord t' \<Longrightarrow> inord (plug fs t) = inord (plug fs t')"
proof (induction fs arbitrary: t t')
  case (Cons f fs)
  obtain s a k c B where "f = Fr s a k c B" by (cases f)
  moreover have "inord (mk s t a k c B) = inord (mk s t' a k c B)" using Cons.prems by (cases s) (simp_all add: inord_mk)
  ultimately show ?case using Cons.IH [of "mk s t a k c B" "mk s t' a k c B"] by simp
qed simp

lemma at_ptr: "at T t [] \<Longrightarrow> fst T = ptr t"
  by (simp add: at_def)

lemma repc_frame: "repc h root p fs \<Longrightarrow> (\<And>x. x \<in> faddrs fs \<Longrightarrow> h' x = h x) \<Longrightarrow> repc h' root p fs"
proof (induction fs arbitrary: p)
  case (Cons f fs)
  then show ?case by (cases f) (auto intro: rep_frame)
qed simp

lemma repc_upd [simp]: "a \<notin> faddrs fs \<Longrightarrow> repc (h(a \<mapsto> n)) root p fs = repc h root p fs"
  by (rule iffI; erule repc_frame) auto

lemma rep_away:
  "rep h par t \<Longrightarrow> (\<And>x. x \<notin> S \<Longrightarrow> h' x = h x) \<Longrightarrow> addrs t \<inter> S = {} \<Longrightarrow> rep h' par t"
  by (erule rep_frame) blast

lemma repc_away:
  "repc h root p fs \<Longrightarrow> (\<And>x. x \<notin> S \<Longrightarrow> h' x = h x) \<Longrightarrow> faddrs fs \<inter> S = {} \<Longrightarrow> repc h' root p fs"
  by (erule repc_frame) blast

section \<open>Writing into a tree\<close>

lemma relink_spec:
  assumes "repc h root (Some p) fs" "p \<notin> faddrs fs" "funiq fs"
  obtains root' h' where "relink (root, h) (fptr fs) p v = Some (root', h')" "repc h' root' v fs"
    "\<And>x. x \<notin> faddrs fs \<Longrightarrow> h' x = h x"
proof (cases fs)
  case Nil
  then show thesis using assms by (intro that [of v h]) (auto simp: relink_def)
next
  case (Cons f gs)
  obtain s a k c B where f: "f = Fr s a k c B" by (cases f)
  have a: "h a = Some (node_is s (Some p) (ptr B) (fptr gs) k c)" "rep h (Some a) B" "repc h root (Some a) gs"
    using assms(1) Cons f by auto
  have "ptr B \<noteq> Some p" using assms(2) Cons f by (auto dest: ptr_in_addrs)
  then have sd: "(if left (node_is s (Some p) (ptr B) (fptr gs) k c) = Some p then LeftS else RightS) = s"
    by (cases s) (auto simp: node_is_left)
  let ?h = "h(a \<mapsto> node_is s v (ptr B) (fptr gs) k c)"
  have "relink (root, h) (fptr fs) p v = Some (root, ?h)"
    using a(1) sd by (simp add: relink_def upd_def Cons f)
  moreover have "repc ?h root v fs" using a(2,3) assms(3) Cons f by simp
  ultimately show thesis using Cons f by (intro that [of root ?h]) auto
qed

lemma rotate_spec:
  assumes "at T (mk s A p kp cp (mk s B q kq cq C)) fs"
  obtains T' where "tree__rotate s T p = Some T'" "at T' (mk s (mk s A p kp cp B) q kq cq C) fs"
    "\<And>x. x \<notin> insert p (insert q (addrs B)) \<union> faddrs fs \<Longrightarrow> snd T' x = snd T x"
proof -
  obtain root h where T: "T = (root, h)" by (cases T)
  have r: "h p = Some (node_is s (ptr A) (Some q) (fptr fs) kp cp)" "rep h (Some p) A"
    "h q = Some (node_is s (ptr B) (ptr C) (Some p) kq cq)" "rep h (Some q) B" "rep h (Some q) C"
    "repc h root (Some p) fs" "funiq fs" "p \<notin> faddrs fs" "q \<notin> faddrs fs"
    and d: "p \<noteq> q" "p \<notin> addrs A" "p \<notin> addrs B" "p \<notin> addrs C" "q \<notin> addrs A" "q \<notin> addrs B" "q \<notin> addrs C"
      "uniq A" "uniq B" "uniq C" "addrs A \<inter> addrs B = {}" "addrs A \<inter> addrs C = {}" "addrs B \<inter> addrs C = {}"
      "(addrs A \<union> addrs B \<union> addrs C) \<inter> faddrs fs = {}"
    using assms by (auto simp: at_def T)
  obtain root1 h1 where h1: "relink (root, h) (fptr fs) p (Some q) = Some (root1, h1)" "repc h1 root1 (Some q) fs"
    "\<And>x. x \<notin> faddrs fs \<Longrightarrow> h1 x = h x"
    using relink_spec [OF r(6,8,7)] by blast
  have e: "h1 p = h p" "h1 q = h q" "rep h1 (Some p) A" "rep h1 (Some q) B" "rep h1 (Some q) C"
    using r d(14) h1(3) by (auto intro!: rep_frame [where h = h])
  let ?h2 = "h1(q \<mapsto> node_is s (ptr B) (ptr C) (fptr fs) kq cq, p \<mapsto> node_is s (ptr A) (ptr B) (Some q) kp cp)"
  define h3 where "h3 = (case ptr B of None \<Rightarrow> ?h2 | Some c \<Rightarrow> ?h2(c \<mapsto> set_parent (Some p) (the (h1 c))))"
  let ?h' = "h3(q \<mapsto> node_is s (Some p) (ptr C) (fptr fs) kq cq)"
  have B: "rep ?h2 (Some q) B" using e(4) d by simp
  have nb: "h1 c \<noteq> None \<and> c \<in> addrs B \<and> c \<noteq> p \<and> c \<noteq> q" if "ptr B = Some c" for c
    using e(4) that d by (cases B) auto
  have h3: "h3 p = Some (node_is s (ptr A) (ptr B) (Some q) kp cp)" "h3 q = Some (node_is s (ptr B) (ptr C) (fptr fs) kq cq)"
    using nb d(1) by (auto simp: h3_def split: option.splits)
  have rB: "rep h3 (Some p) B"
  proof (cases "ptr B")
    case None
    then show ?thesis by (cases B) auto
  next
    case (Some c)
    have "h3 = ?h2(c \<mapsto> set_parent (Some p) (the (?h2 c)))" using nb [OF Some] Some by (simp add: h3_def)
    then show ?thesis using rep_set_parent [OF B Some d(9)] by simp
  qed
  have out: "h3 x = h1 x" if "x \<notin> insert p (insert q (addrs B))" for x
    using that nb by (auto simp: h3_def split: option.splits)
  have rA: "rep h3 (Some p) A" by (rule rep_away [OF e(3)], erule out) (use d in auto)
  have rC: "rep h3 (Some q) C" by (rule rep_away [OF e(5)], erule out) (use d in auto)
  have rf: "repc h3 root1 (Some q) fs" by (rule repc_away [OF h1(2)], erule out) (use d(14) r(8,9) in auto)
  have "tree__rotate s T p = Some (root1, ?h')"
    using r(1,3) h1(1) e(1,2) nb d(1) h3 T
    by (auto simp: tree__rotate_def upd_def Let_def h3_def split: option.splits)
  moreover have "at (root1, ?h') (mk s (mk s A p kp cp B) q kq cq C) fs"
    using h3 rA rB rC rf d r(7-9) by (auto simp: at_def)
  moreover have "snd (root1, ?h') x = snd T x" if "x \<notin> insert p (insert q (addrs B)) \<union> faddrs fs" for x
    using that out h1(3) T by auto
  ultimately show thesis by (rule that)
qed

lemma recolour_spec:
  assumes "at T (mk s A a k c B) fs"
  obtains T' where "upd (set_red c') (snd T) a = Some (snd T')" "fst T' = fst T" "at T' (mk s A a k c' B) fs"
    "\<And>x. x \<noteq> a \<Longrightarrow> snd T' x = snd T x"
proof -
  let ?T = "(fst T, (snd T)(a \<mapsto> node_is s (ptr A) (ptr B) (fptr fs) k c'))"
  show thesis
    using assms by (intro that [of ?T]) (auto simp: at_def upd_def)
qed

end
