(* ===== verification/WepollTreeAdd.thy ===== *)
theory WepollTreeAdd
  imports WepollTreeRep
begin

text \<open>
  Insertion and lookup in the red-black trees: \<open>tree_add\<close> returns, keeps the order and the
  red-black conditions, touches nothing but nodes of the tree and the new node, and refuses a key
  that is there; \<open>tree_find\<close> returns the node of a key.
\<close>

section \<open>Red-black conditions\<close>

text \<open>\<open>rb t n\<close>: every path in \<open>t\<close> has \<open>n\<close> black nodes, and no red node has a red child.\<close>

fun rb :: "'a ptree \<Rightarrow> nat \<Rightarrow> bool" where
  "rb Lf n \<longleftrightarrow> n = 0"
| "rb (Nd l a k c r) n \<longleftrightarrow> (if c then rb l n \<and> rb r n \<and> \<not> isred l \<and> \<not> isred r
     else (case n of 0 \<Rightarrow> False | Suc m \<Rightarrow> rb l m \<and> rb r m))"

text \<open>\<open>pok n fs\<close>: a black subtree with \<open>n\<close> black nodes on its paths fits at the end of \<open>fs\<close>.\<close>

fun pok :: "nat \<Rightarrow> 'a path \<Rightarrow> bool" where
  "pok n [] \<longleftrightarrow> True"
| "pok n (Fr s a k c B # fs) \<longleftrightarrow> rb B n
     \<and> (if c then \<not> isred B \<and> fs \<noteq> [] \<and> \<not> topred fs \<and> pok n fs else pok (Suc n) fs)"

lemma rb_mk [simp]:
  "rb (mk s A a k c B) n \<longleftrightarrow> (if c then rb A n \<and> rb B n \<and> \<not> isred A \<and> \<not> isred B
     else (case n of 0 \<Rightarrow> False | Suc m \<Rightarrow> rb A m \<and> rb B m))"
  by (cases s) (auto simp: mk_def split: nat.splits)

lemma rb_plug:
  "rb t n \<Longrightarrow> pok n fs \<Longrightarrow> isred t \<longrightarrow> \<not> topred fs \<Longrightarrow>
   \<exists>n'. rb (plug fs t) n' \<and> (fs \<noteq> [] \<longrightarrow> \<not> isred (plug fs t))"
proof (induction fs arbitrary: t n)
  case (Cons f fs)
  obtain s a k c B where f: "f = Fr s a k c B" by (cases f)
  let ?t = "mk s t a k c B"
  have "rb ?t (if c then n else Suc n)" "pok (if c then n else Suc n) fs" "isred ?t \<longrightarrow> \<not> topred fs"
    using Cons.prems f by auto
  then obtain n' where n': "rb (plug fs ?t) n'" "fs \<noteq> [] \<longrightarrow> \<not> isred (plug fs ?t)"
    using Cons.IH by blast
  moreover have "\<not> isred (plug fs ?t)" if "fs = []" using that Cons.prems(2) f by auto
  ultimately show ?case using f by auto
qed auto

lemma plug_rb:
  "rb (plug fs t) n' \<Longrightarrow> \<not> isred (plug fs t) \<Longrightarrow> \<exists>n. rb t n \<and> pok n fs \<and> (isred t \<longrightarrow> fs \<noteq> [] \<and> \<not> topred fs)"
proof (induction fs arbitrary: t)
  case Nil
  then show ?case by auto
next
  case (Cons f fs)
  obtain s a k c B where f: "f = Fr s a k c B" by (cases f)
  obtain n where "rb (mk s t a k c B) n" "pok n fs" "c \<longrightarrow> fs \<noteq> [] \<and> \<not> topred fs"
    using Cons.IH [of "mk s t a k c B"] Cons.prems f by auto
  then show ?case using f by (cases c; cases n) auto
qed

definition rbt :: "'a ptree \<Rightarrow> bool" where
  "rbt t \<longleftrightarrow> (\<exists>n. rb t n) \<and> \<not> isred t"

text \<open>The nodes of two heaps agree outside a set.\<close>

definition same_outside :: "'a set \<Rightarrow> 'a tree \<Rightarrow> 'a tree \<Rightarrow> bool" where
  "same_outside S T T' \<longleftrightarrow> (\<forall>x. x \<notin> S \<longrightarrow> snd T' x = snd T x)"

lemma same_outside_trans:
  "same_outside S T T1 \<Longrightarrow> same_outside S' T1 T2 \<Longrightarrow> S \<subseteq> S'' \<Longrightarrow> S' \<subseteq> S'' \<Longrightarrow> same_outside S'' T T2"
  unfolding same_outside_def by (metis subsetD)

lemma same_outside_refl [simp]: "same_outside S T T"
  by (simp add: same_outside_def)

lemma same_outside_mono: "same_outside S T T' \<Longrightarrow> S \<subseteq> S' \<Longrightarrow> same_outside S' T T'"
  by (auto simp: same_outside_def)

lemma is_red_rep: "rep h par t \<Longrightarrow> is_red h (ptr t) = Some (isred t)"
  by (cases t) (auto simp: is_red_def)

section \<open>One step of the insertion loop\<close>

text \<open>Recolouring and rotating anywhere in the tree, in the form the steps use.\<close>

lemma set_red_at:
  assumes "at T (mk s A a k c B) fs"
  obtains h where "upd (set_red c') (snd T) a = Some h" "at (fst T, h) (mk s A a k c' B) fs"
    "same_outside {a} T (fst T, h)"
  using recolour_spec [OF assms, of c'] by (metis insertI1 prod.collapse same_outside_def)

lemma rotate_at:
  assumes "at T (mk s A p kp cp (mk s B q kq cq C)) fs"
  obtains root h where "tree__rotate s T p = Some (root, h)" "at (root, h) (mk s (mk s A p kp cp B) q kq cq C) fs"
    "same_outside (insert p (insert q (addrs B)) \<union> faddrs fs) T (root, h)"
proof -
  obtain T' where "tree__rotate s T p = Some T'" "at T' (mk s (mk s A p kp cp B) q kq cq C) fs"
    "\<And>x. x \<notin> insert p (insert q (addrs B)) \<union> faddrs fs \<Longrightarrow> snd T' x = snd T x"
    using rotate_spec [OF assms] by blast
  then show thesis using that [of "fst T'" "snd T'"] by (auto simp: same_outside_def)
qed

lemma at_mk: "at T (mk s A a k c B) fs \<Longrightarrow> snd T a = Some (node_is s (ptr A) (ptr B) (fptr fs) k c)
    \<and> rep (snd T) (Some a) A \<and> rep (snd T) (Some a) B"
  by (simp add: at_def)

lemma at_mk_opp: "at T (mk s A a k c B) fs \<longleftrightarrow> at T B (Fr (opp s) a k c A # fs)"
  by (simp add: at_up mk_opp)

lemma rebalance_red_uncle:
  assumes T: "at T (mk s (mk s1 t p kp cp B) g kg cg (mk s X u ku True Y)) fs"
  shows "\<exists>T'. tree__rebalance_after_insert s T node p = Some (T', g)
    \<and> at T' (mk s (mk s1 t p kp False B) g kg True (mk s X u ku False Y)) fs
    \<and> same_outside {p, g, u} T T'"
proof -
  let ?U = "mk s X u ku True Y" and ?U' = "mk s X u ku False Y"
  let ?P = "mk s1 t p kp cp B" and ?P' = "mk s1 t p kp False B"
  note g = at_mk [OF T]
  have p: "snd T p = Some (node_is s1 (ptr t) (ptr B) (Some g) kp cp)" using g by simp
  obtain h1 where h1: "upd (set_red False) (snd T) u = Some h1" "at (fst T, h1) ?U' (Fr (opp s) g kg cg ?P # fs)"
    "same_outside {u} T (fst T, h1)"
    using set_red_at [OF iffD1 [OF at_mk_opp T], of False] by blast
  then have "at (fst T, h1) ?P (Fr s g kg cg ?U' # fs)" by (simp add: at_up mk_opp)
  from set_red_at [OF this, of False] obtain h2 where h2: "upd (set_red False) h1 p = Some h2"
    "at (fst T, h2) (mk s ?P' g kg cg ?U') fs" "same_outside {p} (fst T, h1) (fst T, h2)"
    by (auto simp: at_up)
  from set_red_at [OF h2(2), of True] obtain h3 where h3: "upd (set_red True) h2 g = Some h3"
    "at (fst T, h3) (mk s ?P' g kg True ?U') fs" "same_outside {g} (fst T, h2) (fst T, h3)"
    by auto
  have "tree__rebalance_after_insert s T node p = Some ((fst T, h3), g)"
    using g p h1(1) h2(1) h3(1) is_red_rep [of "snd T" "Some g" ?U]
    by (simp add: tree__rebalance_after_insert_def split_beta)
  moreover have "same_outside {p, g, u} T (fst T, h3)"
    using h1(3) h2(3) h3(3) by (auto simp: same_outside_def)
  ultimately show ?thesis using h3(2) by blast
qed

lemma rebalance_outer:
  assumes T: "at T (mk s (mk s t p kp cp B) g kg cg U) fs" and t: "ptr t = Some node" and U: "\<not> isred U"
  shows "\<exists>T'. tree__rebalance_after_insert s T node p = Some (T', node)
    \<and> at T' (mk s t p kp False (mk s B g kg True U)) fs
    \<and> same_outside (addrs (mk s (mk s t p kp cp B) g kg cg U) \<union> faddrs fs) T T'"
proof -
  note g = at_mk [OF T]
  have p: "snd T p = Some (node_is s (ptr t) (ptr B) (Some g) kp cp)" using g by simp
  have nb: "ptr B \<noteq> Some node" using T t by (auto simp: at_def dest!: ptr_in_addrs)
  obtain h1 where h1: "upd (set_red False) (snd T) p = Some h1" "at (fst T, h1) (mk s (mk s t p kp False B) g kg cg U) fs"
    "same_outside {p} T (fst T, h1)"
    using set_red_at [of T s t p kp cp B "Fr s g kg cg U # fs" False] T by (auto simp: at_up)
  from set_red_at [OF h1(2), of True] obtain h2 where h2: "upd (set_red True) h1 g = Some h2"
    "at (fst T, h2) (mk s (mk s t p kp False B) g kg True U) fs" "same_outside {g} (fst T, h1) (fst T, h2)"
    by auto
  have "at (fst T, h2) (mk (opp s) U g kg True (mk (opp s) B p kp False t)) fs" using h2(2) by (simp add: mk_opp)
  from rotate_at [OF this] obtain root h3 where h3: "tree__rotate (opp s) (fst T, h2) g = Some (root, h3)"
    "at (root, h3) (mk (opp s) (mk (opp s) U g kg True B) p kp False t) fs"
    "same_outside (insert g (insert p (addrs B)) \<union> faddrs fs) (fst T, h2) (root, h3)"
    by blast
  have "tree__rebalance_after_insert s T node p = Some ((root, h3), node)"
    using g p nb U h1(1) h2(1) h3(1) is_red_rep [of "snd T" "Some g" U]
    by (simp add: tree__rebalance_after_insert_def split_beta)
  moreover have "same_outside (addrs (mk s (mk s t p kp cp B) g kg cg U) \<union> faddrs fs) T (root, h3)"
    using h1(3) h2(3) h3(3) by (auto simp: same_outside_def)
  ultimately show ?thesis using h3(2) by (auto simp: mk_opp)
qed

lemma rebalance_inner:
  assumes T: "at T (mk s (mk s B p kp cp (mk s X n kn cn Y)) g kg cg U) fs" and U: "\<not> isred U"
  shows "\<exists>T'. tree__rebalance_after_insert s T n p = Some (T', p)
    \<and> at T' (mk s (mk s B p kp cp X) n kn False (mk s Y g kg True U)) fs
    \<and> same_outside (addrs (mk s (mk s B p kp cp (mk s X n kn cn Y)) g kg cg U) \<union> faddrs fs) T T'"
proof -
  note g = at_mk [OF T]
  have p: "snd T p = Some (node_is s (ptr B) (Some n) (Some g) kp cp)" using g by simp
  have "at T (mk s B p kp cp (mk s X n kn cn Y)) (Fr s g kg cg U # fs)" using T by (simp add: at_up)
  from rotate_at [OF this] obtain r0 h0 where h0: "tree__rotate s T p = Some (r0, h0)"
    "at (r0, h0) (mk s (mk s B p kp cp X) n kn cn Y) (Fr s g kg cg U # fs)"
    "same_outside (insert p (insert n (addrs X)) \<union> faddrs (Fr s g kg cg U # fs)) T (r0, h0)"
    by blast
  have p0: "h0 p = Some (node_is s (ptr B) (ptr X) (Some n) kp cp)" using at_mk [OF h0(2)] by simp
  from set_red_at [OF h0(2), of False] obtain h1 where h1: "upd (set_red False) h0 n = Some h1"
    "at (r0, h1) (mk s (mk s (mk s B p kp cp X) n kn False Y) g kg cg U) fs" "same_outside {n} (r0, h0) (r0, h1)"
    by (auto simp: at_up)
  from set_red_at [OF h1(2), of True] obtain h2 where h2: "upd (set_red True) h1 g = Some h2"
    "at (r0, h2) (mk s (mk s (mk s B p kp cp X) n kn False Y) g kg True U) fs" "same_outside {g} (r0, h1) (r0, h2)"
    by auto
  have "at (r0, h2) (mk (opp s) U g kg True (mk (opp s) Y n kn False (mk s B p kp cp X))) fs"
    using h2(2) by (simp add: mk_opp)
  from rotate_at [OF this] obtain root h3 where h3: "tree__rotate (opp s) (r0, h2) g = Some (root, h3)"
    "at (root, h3) (mk (opp s) (mk (opp s) U g kg True Y) n kn False (mk s B p kp cp X)) fs"
    "same_outside (insert g (insert n (addrs Y)) \<union> faddrs fs) (r0, h2) (root, h3)"
    by blast
  have "tree__rebalance_after_insert s T n p = Some ((root, h3), p)"
    using g p p0 U h0(1) h1(1) h2(1) h3(1) is_red_rep [of "snd T" "Some g" U]
    by (simp add: tree__rebalance_after_insert_def split_beta)
  moreover have "same_outside (addrs (mk s (mk s B p kp cp (mk s X n kn cn Y)) g kg cg U) \<union> faddrs fs) T (root, h3)"
    using h0(3) h1(3) h2(3) h3(3) by (auto simp: same_outside_def)
  ultimately show ?thesis using h3(2) by (auto simp: mk_opp)
qed

section \<open>The insertion loop\<close>

lemma inord_addrs: "addrs t = snd ` set (inord t)"
  by (induction t) (auto simp: image_Un)

lemma fix_insert_stop:
  "snd T p = Some n \<Longrightarrow> \<not> red n \<Longrightarrow> tree__fix_insert T node (Some p) = Some T"
  by (simp add: tree__fix_insert.simps)

text \<open>The test for the side of the parent.\<close>

lemma left_is_side:
  assumes "at T (mk s A a k c B) fs" "ptr A = Some p" "snd T a = Some n"
  shows "(if left n = Some p then LeftS else RightS) = s"
proof -
  have "n = node_is s (ptr A) (ptr B) (fptr fs) k c" "ptr B \<noteq> Some p"
    using assms by (auto simp: at_def dest!: ptr_in_addrs)
  then show ?thesis using assms(2) by (cases s) (auto simp: node_is_left)
qed

lemma fix_insert_step:
  assumes T: "at T (mk s (mk s1 t p kp True B) g kg cg U) fs"
    and r: "tree__rebalance_after_insert s T node p = Some (T', node')"
    and n: "snd T' node' = Some n"
  shows "tree__fix_insert T node (Some p) = tree__fix_insert T' node' (parent n)"
proof -
  have "snd T p = Some (node_is s1 (ptr t) (ptr B) (Some g) kp True)" using at_mk [OF T] by simp
  moreover obtain gn where "snd T g = Some gn" "(if left gn = Some p then LeftS else RightS) = s"
    using at_mk [OF T] left_is_side [OF T, of p] by auto
  ultimately show ?thesis using r n by (subst tree__fix_insert.simps) simp
qed

text \<open>A black uncle: after the rotations the loop stops, and the subtree is in order.\<close>

lemma rebalance_black_uncle:
  assumes T: "at T (mk s (mk s1 t p kp True B) g kg False U) fs"
    and t: "ptr t = Some node" "isred t" "rb t n" and B: "rb B n" "\<not> isred B" and U: "rb U n" "\<not> isred U"
  shows "\<exists>T1 t1 node1 p1 nn pn. tree__rebalance_after_insert s T node p = Some (T1, node1) \<and> at T1 t1 fs
    \<and> same_outside (addrs (mk s (mk s1 t p kp True B) g kg False U) \<union> faddrs fs) T T1 \<and> rb t1 (Suc n) \<and> \<not> isred t1
    \<and> inord t1 = inord (mk s (mk s1 t p kp True B) g kg False U)
    \<and> snd T1 node1 = Some nn \<and> parent nn = Some p1 \<and> snd T1 p1 = Some pn \<and> \<not> red pn"
proof (cases "s1 = s")
  case True
  let ?t1 = "mk s t p kp False (mk s B g kg True U)"
  obtain T1 where T1: "tree__rebalance_after_insert s T node p = Some (T1, node)" "at T1 ?t1 fs"
    "same_outside (addrs (mk s (mk s t p kp True B) g kg False U) \<union> faddrs fs) T T1"
    using rebalance_outer [of T s t p kp True B g kg False U fs node] T True t(1) U(2) by blast
  have "\<exists>nn. snd T1 node = Some nn \<and> parent nn = Some p" using at_mk [OF T1(2)] t(1) by (cases t) auto
  moreover have "inord ?t1 = inord (mk s (mk s1 t p kp True B) g kg False U)"
    unfolding True by (cases s) (simp_all add: inord_mk)
  ultimately show ?thesis
    using T1 t(3) B U at_mk [OF T1(2)] True
    by (intro exI [of _ T1] exI [of _ ?t1] exI [of _ node] exI [of _ p]) auto
next
  case False
  then have s1: "s1 = opp s" using side_cases [of s1 s] by blast
  obtain X kn Y where teq: "t = mk s X node kn True Y" using t(1,2) by (cases rule: mk_cases [where t = t and s = s]) auto
  have T2: "at T (mk s (mk s B p kp True (mk s X node kn True Y)) g kg False U) fs"
    using T by (simp add: s1 teq mk_opp)
  let ?t1 = "mk s (mk s B p kp True X) node kn False (mk s Y g kg True U)"
  obtain T1 where T1: "tree__rebalance_after_insert s T node p = Some (T1, p)" "at T1 ?t1 fs"
    "same_outside (addrs (mk s (mk s B p kp True (mk s X node kn True Y)) g kg False U) \<union> faddrs fs) T T1"
    using rebalance_inner [OF T2 U(2)] by blast
  have "inord ?t1 = inord (mk s (mk s1 t p kp True B) g kg False U)"
    unfolding s1 teq by (cases s) (simp_all add: inord_mk)
  moreover have "same_outside (addrs (mk s (mk s1 t p kp True B) g kg False U) \<union> faddrs fs) T T1"
    by (rule same_outside_mono [OF T1(3)]) (auto simp: teq)
  ultimately show ?thesis
    using T1(1,2) t(3) B U at_mk [OF T1(2)] teq
    by (intro exI [of _ T1] exI [of _ ?t1] exI [of _ p] exI [of _ node]) auto
qed

lemma fix_insert_spec:
  assumes "at T t fs" "ptr t = Some node" "isred t" "rb t n" "pok n fs"
  shows "\<exists>T' t' n'. tree__fix_insert T node (fptr fs) = Some T' \<and> at T' t' []
    \<and> inord t' = inord (plug fs t) \<and> rb t' n' \<and> same_outside (addrs t \<union> faddrs fs) T T'"
  using assms
proof (induction "length fs" arbitrary: T t fs node n rule: less_induct)
  case less
  note at = less.prems(1) and t = less.prems(2,3,4) and pk = less.prems(5)
  show ?case
  proof (cases "topred fs")
    case False
    have "tree__fix_insert T node (fptr fs) = Some T"
    proof (cases fs)
      case Nil
      then show ?thesis by (simp add: tree__fix_insert.simps)
    next
      case (Cons f gs)
      then obtain s a k c B where "f = Fr s a k c B" by (cases f)
      then show ?thesis using Cons at False by (auto simp: at_def intro!: fix_insert_stop)
    qed
    moreover obtain n' where "rb (plug fs t) n'" using rb_plug [OF t(3) pk] False by blast
    ultimately show ?thesis using at at_root by fastforce
  next
    case True
    then obtain s1 p kp B gs where fs1: "fs = Fr s1 p kp True B # gs"
      by (cases fs rule: topred.cases) auto
    have gs: "gs \<noteq> []" "\<not> topred gs" "rb B n" "\<not> isred B" "pok n gs" using pk fs1 by auto
    then obtain s g kg U fs2 where gs2: "gs = Fr s g kg False U # fs2"
      by (cases gs rule: topred.cases) auto
    have U: "rb U n" "pok (Suc n) fs2" using gs gs2 by auto
    have fp: "fptr fs = Some p" by (simp add: fs1)
    have T: "at T (mk s (mk s1 t p kp True B) g kg False U) fs2" using at by (simp add: fs1 gs2 at_up)
    have pl: "plug fs t = plug fs2 (mk s (mk s1 t p kp True B) g kg False U)" by (simp add: fs1 gs2)
    have S: "addrs t \<union> faddrs fs = addrs (mk s (mk s1 t p kp True B) g kg False U) \<union> faddrs fs2"
      by (auto simp: fs1 gs2)
    show ?thesis
    proof (cases "isred U")
      case True
      then obtain X u ku Y where Ueq: "U = mk s X u ku True Y" by (cases rule: mk_cases [where t = U and s = s]) auto
      let ?t = "mk s (mk s1 t p kp False B) g kg True (mk s X u ku False Y)"
      obtain T1 where T1: "tree__rebalance_after_insert s T node p = Some (T1, g)" "at T1 ?t fs2" "same_outside {p, g, u} T T1"
        using rebalance_red_uncle [of T s s1 t p kp True B g kg False X u ku Y fs2 node] T Ueq by blast
      have rb1: "rb ?t (Suc n)" using t(3) gs(3) U(1) Ueq by simp
      obtain T' t' n' where r: "tree__fix_insert T1 g (fptr fs2) = Some T'" "at T' t' []"
        "inord t' = inord (plug fs2 ?t)" "rb t' n'" "same_outside (addrs ?t \<union> faddrs fs2) T1 T'"
        using less.hyps [OF _ T1(2) _ _ rb1 U(2)] fs1 gs2 by auto
      have "tree__fix_insert T node (Some p) = Some T'"
        using fix_insert_step [OF T T1(1)] at_mk [OF T1(2)] r(1) by simp
      moreover have "inord (plug fs2 ?t) = inord (plug fs t)"
        unfolding pl by (rule inord_plug_cong) (cases s; cases s1; simp add: inord_mk Ueq)
      moreover have "same_outside (addrs t \<union> faddrs fs) T T'"
        unfolding S by (rule same_outside_trans [OF T1(3) r(5)]) (auto simp: Ueq)
      ultimately show ?thesis using fp r(2-4) by auto
    next
      case False
      obtain T1 t1 node1 p1 nn pn where r: "tree__rebalance_after_insert s T node p = Some (T1, node1)" "at T1 t1 fs2"
        "same_outside (addrs t \<union> faddrs fs) T T1" "rb t1 (Suc n)" "\<not> isred t1"
        "inord t1 = inord (mk s (mk s1 t p kp True B) g kg False U)"
        "snd T1 node1 = Some nn" "parent nn = Some p1" "snd T1 p1 = Some pn" "\<not> red pn"
        using rebalance_black_uncle [OF T t(1,2,3) gs(3,4) U(1) False] unfolding S by blast
      have "tree__fix_insert T node (Some p) = Some T1"
        using fix_insert_step [OF T r(1,7)] fix_insert_stop [OF r(9,10)] r(8) by simp
      moreover obtain n' where "rb (plug fs2 t1) n'" using rb_plug [OF r(4) U(2)] r(5) by blast
      moreover have "at T1 (plug fs2 t1) []" using r(2) at_root by blast
      ultimately show ?thesis using fp r(3) pl inord_plug_cong [OF r(6)] by metis
    qed
  qed
qed

section \<open>Order and lookup\<close>

definition ordered :: "'a ptree \<Rightarrow> bool" where
  "ordered t \<longleftrightarrow> sorted_wrt (<) (map fst (inord t))"

lemma ordered_Nd: "ordered (Nd l a k c r) \<longleftrightarrow> ordered l \<and> ordered r
    \<and> (\<forall>x \<in> fst ` set (inord l). x < k) \<and> (\<forall>x \<in> fst ` set (inord r). k < x)"
  by (fastforce simp: ordered_def sorted_wrt_append)

lemma map_of_none: "k \<notin> fst ` set xs \<Longrightarrow> map_of xs k = None"
  by (simp add: map_of_eq_None_iff)

lemma find_from_spec:
  "rep h par t \<Longrightarrow> ordered t \<Longrightarrow> tree__find_from h k (ptr t) = Some (map_of (inord t) k)"
proof (induction t arbitrary: par)
  case Lf
  then show ?case by (simp add: tree__find_from.simps)
next
  case (Nd l a ka c r)
  have o: "ordered l" "ordered r" "\<forall>x \<in> fst ` set (inord l). x < ka" "\<forall>x \<in> fst ` set (inord r). ka < x"
    using Nd.prems(2) by (auto simp: ordered_Nd)
  have IH: "tree__find_from h k (ptr l) = Some (map_of (inord l) k)" "tree__find_from h k (ptr r) = Some (map_of (inord r) k)"
    using Nd.IH Nd.prems(1) o(1,2) by auto
  have nl: "map_of (inord l) k = None" if "\<not> k < ka" using o(3) that by (intro map_of_none) auto
  have nr: "map_of (inord r) k = None" if "\<not> ka < k" using o(4) that by (intro map_of_none) auto
  consider "k < ka" | "ka < k" | "k = ka" by fastforce
  then show ?case
  proof cases
    case 1
    then show ?thesis using Nd.prems(1) IH(1) nr
      by (subst tree__find_from.simps) (auto simp: map_add_def split: option.splits)
  next
    case 2
    then show ?thesis using Nd.prems(1) IH(2) nl
      by (subst tree__find_from.simps) (auto simp: map_add_def split: option.splits)
  next
    case 3
    then show ?thesis using Nd.prems(1) nl by (subst tree__find_from.simps) (auto simp: map_add_def)
  qed
qed

text \<open>Where the new leaf goes.\<close>

lemma descend_spec:
  assumes "rep h par t" "ordered t" "ptr t = Some a"
  shows "k \<in> fst ` set (inord t) \<and> tree__descend h k a = Some None
    \<or> (\<exists>s p kp cp B fs xs ys. tree__descend h k a = Some (Some (p, s)) \<and> t = plug (Fr s p kp cp B # fs) Lf
       \<and> inord t = xs @ ys \<and> (\<forall>x \<in> fst ` set xs. x < k) \<and> (\<forall>x \<in> fst ` set ys. k < x)
       \<and> (\<forall>x c. inord (plug (Fr s p kp cp B # fs) (Nd Lf x k c Lf)) = xs @ (k, x) # ys))"
  using assms
proof (induction t arbitrary: par a)
  case Lf
  then show ?case by simp
next
  case (Nd l a' ka c r)
  have a: "a' = a" "h a = Some \<lparr>left = ptr l, right = ptr r, parent = par, key = ka, red = c\<rparr>"
    "rep h (Some a) l" "rep h (Some a) r" using Nd.prems(1,3) by auto
  have o: "ordered l" "ordered r" "\<forall>x \<in> fst ` set (inord l). x < ka" "\<forall>x \<in> fst ` set (inord r). ka < x"
    using Nd.prems(2) by (auto simp: ordered_Nd)
  consider "k < ka" "l = Lf" | l' where "k < ka" "ptr l = Some l'" | "ka < k" "r = Lf" | r' where "ka < k" "ptr r = Some r'" | "k = ka"
    by (cases l; cases r) fastforce+
  then show ?case
  proof cases
    case 1
    then have "tree__descend h k a = Some (Some (a, LeftS))" using a(2) by (simp add: tree__descend.simps)
    moreover have "Nd l a ka c r = plug (Fr LeftS a ka c r # []) Lf" using 1 by (simp add: mk_def)
    ultimately show ?thesis using 1 o(4) a(1)
      by (intro disjI2 exI [of _ LeftS] exI [of _ a] exI [of _ ka] exI [of _ c] exI [of _ r] exI [of _ "[]"] exI [of _ "[]"]
          exI [of _ "inord (Nd l a ka c r)"]) (auto simp: mk_def)
  next
    case 2
    have d: "tree__descend h k a = tree__descend h k l'" using a(2) 2 by (simp add: tree__descend.simps [of h k a])
    from Nd.IH(1) [OF a(3) o(1) 2(2)] show ?thesis
    proof (elim disjE exE conjE)
      fix s p kp cp B fs xs ys
      assume r: "tree__descend h k l' = Some (Some (p, s))" "l = plug (Fr s p kp cp B # fs) Lf" "inord l = xs @ ys"
        "\<forall>x \<in> fst ` set xs. x < k" "\<forall>x \<in> fst ` set ys. k < x"
        "\<forall>x c. inord (plug (Fr s p kp cp B # fs) (Nd Lf x k c Lf)) = xs @ (k, x) # ys"
      show ?thesis
        using d r o(4) 2(1) a(1)
        by (intro disjI2 exI [of _ s] exI [of _ p] exI [of _ kp] exI [of _ cp] exI [of _ B]
            exI [of _ "fs @ [Fr LeftS a ka c r]"] exI [of _ xs] exI [of _ "ys @ (ka, a) # inord r"])
          (auto simp: mk_def ball_Un image_Un)
    qed (use d in auto)
  next
    case 3
    then have "tree__descend h k a = Some (Some (a, RightS))" using a(2) by (auto simp: tree__descend.simps)
    moreover have "Nd l a ka c r = plug (Fr RightS a ka c l # []) Lf" using 3 by (simp add: mk_def)
    ultimately show ?thesis using 3 o(3) a(1)
      by (intro disjI2 exI [of _ RightS] exI [of _ a] exI [of _ ka] exI [of _ c] exI [of _ l] exI [of _ "[]"]
          exI [of _ "inord (Nd l a ka c r)"] exI [of _ "[]"]) (auto simp: mk_def)
  next
    case 4
    have d: "tree__descend h k a = tree__descend h k r'" using a(2) 4 by (auto simp: tree__descend.simps [of h k a])
    from Nd.IH(2) [OF a(4) o(2) 4(2)] show ?thesis
    proof (elim disjE exE conjE)
      fix s p kp cp B fs xs ys
      assume r: "tree__descend h k r' = Some (Some (p, s))" "r = plug (Fr s p kp cp B # fs) Lf" "inord r = xs @ ys"
        "\<forall>x \<in> fst ` set xs. x < k" "\<forall>x \<in> fst ` set ys. k < x"
        "\<forall>x c. inord (plug (Fr s p kp cp B # fs) (Nd Lf x k c Lf)) = xs @ (k, x) # ys"
      show ?thesis
        using d r o(3) 4(1) a(1)
        by (intro disjI2 exI [of _ s] exI [of _ p] exI [of _ kp] exI [of _ cp] exI [of _ B]
            exI [of _ "fs @ [Fr RightS a ka c l]"] exI [of _ "inord l @ (ka, a) # xs"] exI [of _ ys])
          (auto simp: mk_def ball_Un image_Un)
    qed (use d in auto)
  next
    case 5
    then show ?thesis using a by (simp add: tree__descend.simps)
  qed
qed

section \<open>The operations on the abstract map\<close>

text \<open>A tree that represents a finite map from keys to nodes.\<close>

definition tree_rep :: "'a tree \<Rightarrow> (u64 \<times> 'a) list \<Rightarrow> bool" where
  "tree_rep T kvs \<longleftrightarrow> (\<exists>t. at T t [] \<and> rbt t \<and> ordered t \<and> inord t = kvs)"

lemma tree_init_rep: "tree_rep (tree_init h) []"
  by (auto simp: tree_rep_def tree_init_def at_def rbt_def ordered_def intro!: exI [of _ Lf])

lemma tree_find_spec: "tree_rep T kvs \<Longrightarrow> tree_find T k = Some (map_of kvs k)"
proof -
  assume "tree_rep T kvs"
  then obtain t where t: "at T t []" "ordered t" "inord t = kvs" by (auto simp: tree_rep_def)
  then have "rep (snd T) None t" "fst T = ptr t" by (auto simp: at_def)
  then show ?thesis using find_from_spec [of "snd T" None t k] t by (simp add: tree_find_def)
qed

text \<open>Hanging the new node below the end of a path.\<close>

lemma attach_spec:
  assumes T: "at (root, h) Lf (Fr s p kp cp B # fs)" and node: "node \<notin> faddrs (Fr s p kp cp B # fs)" "h node \<noteq> None"
  obtains h1 h2 where "upd (set_child s (Some node)) h p = Some h1"
    "upd (\<lambda>n. n\<lparr>key := k, left := None, right := None, parent := Some p, red := True\<rparr>) h1 node = Some h2"
    "at (root, h2) (Nd Lf node k True Lf) (Fr s p kp cp B # fs)" "\<And>x. x \<noteq> p \<Longrightarrow> x \<noteq> node \<Longrightarrow> h2 x = h x"
proof -
  have r: "h p = Some (node_is s None (ptr B) (fptr fs) kp cp)" "rep h (Some p) B" "repc h root (Some p) fs"
    "funiq (Fr s p kp cp B # fs)" using T by (auto simp: at_def)
  obtain n where n: "h node = Some n" using node(2) by blast
  let ?h1 = "h(p \<mapsto> node_is s (Some node) (ptr B) (fptr fs) kp cp)"
  let ?h2 = "?h1(node \<mapsto> \<lparr>left = None, right = None, parent = Some p, key = k, red = True\<rparr>)"
  have "upd (\<lambda>n. n\<lparr>key := k, left := None, right := None, parent := Some p, red := True\<rparr>) ?h1 node = Some ?h2"
    using n node(1) by (cases n) (auto simp: upd_def)
  moreover have "at (root, ?h2) (Nd Lf node k True Lf) (Fr s p kp cp B # fs)"
    using r node(1) by (auto simp: at_def)
  ultimately show thesis using r(1) by (intro that [of ?h1 ?h2]) (auto simp: upd_def)
qed

lemma blacken_root:
  assumes "at T t []" "rb t n" "t \<noteq> Lf"
  obtains a h where "fst T = Some a" "upd (set_red False) (snd T) a = Some h" "tree_rep (fst T, h) (inord t) \<or> \<not> ordered t"
    "\<exists>t'. at (fst T, h) t' [] \<and> rbt t' \<and> inord t' = inord t" "same_outside {a} T (fst T, h)"
proof -
  obtain A a k c B where t: "t = mk LeftS A a k c B"
    using assms(3) by (cases rule: mk_cases [where t = t and s = LeftS]) auto
  obtain h where h: "upd (set_red False) (snd T) a = Some h" "at (fst T, h) (mk LeftS A a k False B) []" "same_outside {a} T (fst T, h)"
    using set_red_at [of T LeftS A a k c B "[]" False] assms(1) t by blast
  have "rb (mk LeftS A a k False B) (if c then Suc n else n)" using assms(2) t by (auto split: nat.splits)
  then have "rbt (mk LeftS A a k False B)" by (auto simp: rbt_def simp del: rb_mk)
  moreover have "inord (mk LeftS A a k False B) = inord t" by (simp add: t inord_mk)
  moreover have "fst T = Some a" using assms(1) t by (simp add: at_def)
  ultimately show thesis using h by (intro that [of a h]) (auto simp: tree_rep_def ordered_def)
qed

lemma sorted_insert:
  fixes k :: u64
  assumes "sorted_wrt (<) (map fst (xs @ ys))" "\<forall>x \<in> fst ` set xs. x < k" "\<forall>x \<in> fst ` set ys. k < x"
  shows "sorted_wrt (<) (map fst (xs @ (k, v) # ys))" "map_of (xs @ (k, v) # ys) = (map_of (xs @ ys))(k \<mapsto> v)"
proof -
  have "map_of xs k = None" using assms(2) by (intro map_of_none) force
  then show "map_of (xs @ (k, v) # ys) = (map_of (xs @ ys))(k \<mapsto> v)"
    by (auto simp: map_add_def fun_eq_iff split: option.splits)
qed (use assms in \<open>fastforce simp: sorted_wrt_append\<close>)

lemma fix_insert_rb:
  assumes T: "at T (Nd Lf node k True Lf) fs" and t: "rbt (plug fs Lf)"
  obtains T' t' n' where "tree__fix_insert T node (fptr fs) = Some T'" "at T' t' []"
    "inord t' = inord (plug fs (Nd Lf node k True Lf))" "rb t' n'" "same_outside (insert node (faddrs fs)) T T'" "t' \<noteq> Lf"
proof -
  obtain n where "rb (Lf :: 'a ptree) n" "pok n fs" using plug_rb t by (metis rbt_def)
  then have "rb (Nd Lf node k True Lf) n" by simp
  from fix_insert_spec [OF T _ _ this \<open>pok n fs\<close>]
  obtain T' t' n' where r: "tree__fix_insert T node (fptr fs) = Some T'" "at T' t' []"
    "inord t' = inord (plug fs (Nd Lf node k True Lf))" "rb t' n'" "same_outside (addrs (Nd Lf node k True Lf) \<union> faddrs fs) T T'"
    by auto
  moreover have "t' \<noteq> Lf" using arg_cong [OF r(3), of "\<lambda>l. snd ` set l"]
    by (auto simp flip: inord_addrs simp: addrs_plug)
  ultimately show thesis by (intro that) auto
qed

lemma tree_add_spec:
  assumes T: "tree_rep T kvs" and node: "node \<notin> snd ` set kvs" "snd T node \<noteq> None"
  shows "(k \<in> fst ` set kvs \<and> tree_add T node k = Some (-1, T))
    \<or> (k \<notin> fst ` set kvs \<and> (\<exists>T' xs ys. tree_add T node k = Some (0, T') \<and> kvs = xs @ ys \<and> tree_rep T' (xs @ (k, node) # ys)
       \<and> map_of (xs @ (k, node) # ys) = (map_of kvs)(k \<mapsto> node)
       \<and> same_outside (insert node (snd ` set kvs)) T T'))"
proof -
  obtain t where t: "at T t []" "rbt t" "ordered t" "inord t = kvs" using T by (auto simp: tree_rep_def)
  obtain root h where Th: "T = (root, h)" by (cases T)
  have na: "node \<notin> addrs t" "addrs t = snd ` set kvs" using node(1) t(4) inord_addrs by metis+
  have fin: "\<exists>T' xs ys. tree_add T node k = Some (0, T') \<and> kvs = xs @ ys \<and> tree_rep T' (xs @ (k, node) # ys)
       \<and> map_of (xs @ (k, node) # ys) = (map_of kvs)(k \<mapsto> node)
       \<and> same_outside (insert node (snd ` set kvs)) T T'"
    if pre: "\<And>T' a h'. tree__fix_insert (root1, h2) node (fptr fs) = Some T' \<Longrightarrow> fst T' = Some a \<Longrightarrow>
        upd (set_red False) (snd T') a = Some h' \<Longrightarrow> tree_add T node k = Some (0, (fst T', h'))"
      and at2: "at (root1, h2) (Nd Lf node k True Lf) fs" and tp: "t = plug fs Lf"
      and out: "same_outside (insert node (addrs t)) T (root1, h2)"
      and xs: "inord t = xs @ ys" "\<forall>x \<in> fst ` set xs. x < k" "\<forall>x \<in> fst ` set ys. k < x"
        "inord (plug fs (Nd Lf node k True Lf)) = xs @ (k, node) # ys" for root1 h2 fs xs ys
  proof -
    obtain T' t' n' where r: "tree__fix_insert (root1, h2) node (fptr fs) = Some T'" "at T' t' []"
      "inord t' = inord (plug fs (Nd Lf node k True Lf))" "rb t' n'" "same_outside (insert node (faddrs fs)) (root1, h2) T'" "t' \<noteq> Lf"
      using fix_insert_rb [OF at2] t(2) tp by metis
    have o: "ordered t'" using sorted_insert(1) [OF _ xs(2,3), of node] t(3) r(3) xs(1,4) by (simp add: ordered_def)
    obtain a h' where b: "fst T' = Some a" "upd (set_red False) (snd T') a = Some h'" "tree_rep (fst T', h') (inord t')"
      "same_outside {a} T' (fst T', h')"
      using blacken_root [OF r(2,4,6)] o by blast
    have S: "addrs t = faddrs fs" by (simp add: tp addrs_plug)
    have "a \<in> addrs t'" using r(2) b(1) ptr_in_addrs by (metis at_ptr)
    then have "a \<in> insert node (addrs t)" using r(3) xs(1,4) by (auto simp: inord_addrs)
    then have "same_outside (insert node (addrs t)) T (fst T', h')"
      using out r(5) b(4) S by (auto simp: same_outside_def)
    then show ?thesis
      using pre [OF r(1) b(1,2)] b(3) r(3) xs(1,4) t(4) sorted_insert(2) [OF _ xs(2,3), of node] t(3) na(2)
      by (auto simp: ordered_def)
  qed
  show ?thesis
  proof (cases "ptr t")
    case None
    then have tl: "t = Lf" "root = None" "kvs = []" using t(1,4) Th by (cases t; simp add: at_def)+
    obtain n where n: "h node = Some n" using node(2) Th by auto
    let ?h2 = "h(node \<mapsto> \<lparr>left = None, right = None, parent = None, key = k, red = True\<rparr>)"
    have "upd (\<lambda>n. n\<lparr>key := k, left := None, right := None, parent := None, red := True\<rparr>) h node = Some ?h2"
      using n by (cases n) (simp add: upd_def)
    then have "\<And>T' a h'. tree__fix_insert (Some node, ?h2) node None = Some T' \<Longrightarrow> fst T' = Some a \<Longrightarrow>
        upd (set_red False) (snd T') a = Some h' \<Longrightarrow> tree_add T node k = Some (0, (fst T', h'))"
      by (simp add: tree_add_def Th tl split_beta)
    then show ?thesis
      using fin [of "Some node" ?h2 "[]" "[]" "[]"] tl Th by (auto simp: at_def same_outside_def)
  next
    case (Some a)
    have ra: "root = Some a" "rep h None t" using t(1) Some Th by (auto simp: at_def)
    from descend_spec [OF ra(2) t(3) Some, of k] show ?thesis
    proof (elim disjE conjE exE)
      assume "k \<in> fst ` set (inord t)" "tree__descend h k a = Some None"
      then show ?thesis using t(4) ra Th by (simp add: tree_add_def)
    next
      fix s p kp cp B fs xs ys
      assume d: "tree__descend h k a = Some (Some (p, s))" "t = plug (Fr s p kp cp B # fs) Lf"
        "inord t = xs @ ys" "\<forall>x \<in> fst ` set xs. x < k" "\<forall>x \<in> fst ` set ys. k < x"
        "\<forall>x c. inord (plug (Fr s p kp cp B # fs) (Nd Lf x k c Lf)) = xs @ (k, x) # ys"
      let ?fs = "Fr s p kp cp B # fs"
      have aT: "at (root, h) Lf ?fs" using t(1) d(2) Th at_root by metis
      have nf: "node \<notin> faddrs ?fs" using na(1) d(2) addrs_plug [of ?fs Lf] by simp
      obtain h1 h2 where h: "upd (set_child s (Some node)) h p = Some h1"
        "upd (\<lambda>n. n\<lparr>key := k, left := None, right := None, parent := Some p, red := True\<rparr>) h1 node = Some h2"
        "at (root, h2) (Nd Lf node k True Lf) ?fs" "\<And>x. x \<noteq> p \<Longrightarrow> x \<noteq> node \<Longrightarrow> h2 x = h x"
        using attach_spec [OF aT nf] node(2) Th by auto
      have "p \<in> addrs t" using addrs_plug [of ?fs Lf] d(2) by simp
      then have "same_outside (insert node (addrs t)) T (root, h2)"
        unfolding same_outside_def using h(4) Th by (metis insert_iff snd_conv)
      moreover have "\<And>T' a h'. tree__fix_insert (root, h2) node (fptr ?fs) = Some T' \<Longrightarrow> fst T' = Some a \<Longrightarrow>
          upd (set_red False) (snd T') a = Some h' \<Longrightarrow> tree_add T node k = Some (0, (fst T', h'))"
        using d(1) h(1,2) ra(1) Th by (simp add: tree_add_def split_beta)
      moreover have "k \<notin> fst ` set kvs" using d(3-5) t(4) by auto
      ultimately show ?thesis using fin [of root h2 ?fs xs ys] h(3) d(2-6) by auto
    qed
  qed
qed

end
