(* ===== verification/WepollTreeDel.thy ===== *)
theory WepollTreeDel
  imports WepollTreeAdd
begin

text \<open>
  Removal from the red-black trees: \<open>tree_del\<close> returns, keeps the order and the red-black
  conditions and removes exactly the given node.
\<close>

section \<open>One step of the removal loop\<close>

lemma is_red_sides:
  assumes "rep h par A" "rep h par B" "n = node_is s (ptr A) (ptr B) q k c"
  obtains x y where "is_red h (left n) = Some x" "is_red h (right n) = Some y" "x \<or> y \<longleftrightarrow> isred A \<or> isred B"
  using is_red_rep [OF assms(1)] is_red_rep [OF assms(2)] assms(3)
  by (cases s) (auto simp: node_is_left node_is_right)

lemma rebalance_sibling_eq:
  assumes "snd T q = Some n" "n = node_is s (ptr X) (ptr Y) par k c" "rep (snd T) (Some q) X" "rep (snd T) (Some q) Y"
  shows "tree__rebalance_sibling s T p q =
     (if isred X \<or> isred Y then do {
        ((root, h), sibling) \<leftarrow>
          (if \<not> isred Y then do {
             c \<leftarrow> ptr X;
             h \<leftarrow> upd (set_red False) (snd T) c;
             h \<leftarrow> upd (set_red True) h q;
             (root, h) \<leftarrow> tree__rotate (opp s) (fst T, h) q;
             pn \<leftarrow> h p;
             sibling \<leftarrow> child (opp s) pn;
             Some ((root, h), sibling)
           }
           else Some ((fst T, snd T), q));
        pn \<leftarrow> h p;
        h \<leftarrow> upd (set_red (red pn)) h sibling;
        sn \<leftarrow> h sibling;
        c \<leftarrow> child (opp s) sn;
        h \<leftarrow> upd (set_red False) h c;
        h \<leftarrow> upd (set_red False) h p;
        t \<leftarrow> tree__rotate s (root, h) p;
        Some (t, True)
      }
      else do {
        h \<leftarrow> upd (set_red True) (snd T) q;
        Some ((fst T, h), False)
      })"
proof -
  obtain x y where xy: "is_red (snd T) (left n) = Some x" "is_red (snd T) (right n) = Some y" "x \<or> y \<longleftrightarrow> isred X \<or> isred Y"
    using is_red_sides [OF assms(3,4,2)] by blast
  have "is_red (snd T) (child (opp s) n) = Some (isred Y)" "child s n = ptr X"
    using is_red_rep [OF assms(4)] assms(2) by simp_all
  then show ?thesis using assms(1) xy
    by (cases x; cases y) (simp_all add: tree__rebalance_sibling_def split_beta)
qed

text \<open>A black sibling without red children becomes red.\<close>

lemma sibling_black_children:
  assumes T: "at T (mk s t p kp cp (mk s X q kq cq Y)) fs" and b: "\<not> isred X" "\<not> isred Y"
  shows "\<exists>T'. tree__rebalance_sibling s T p q = Some (T', False)
    \<and> at T' (mk s t p kp cp (mk s X q kq True Y)) fs \<and> same_outside {q} T T'"
proof -
  have q: "at T (mk s X q kq cq Y) (Fr (opp s) p kp cp t # fs)" using T by (simp add: at_up mk_opp)
  obtain h where h: "upd (set_red True) (snd T) q = Some h" "at (fst T, h) (mk s X q kq True Y) (Fr (opp s) p kp cp t # fs)"
    "same_outside {q} T (fst T, h)" using set_red_at [OF q, of True] by blast
  have "tree__rebalance_sibling s T p q = Some ((fst T, h), False)"
    using rebalance_sibling_eq [of T q _ s X Y] at_mk [OF q] b h(1) by simp
  then show ?thesis using h(2,3) by (auto simp: at_up mk_opp)
qed

text \<open>The final rotation at the parent.\<close>

lemma sibling_final:
  assumes T: "at T (mk s t p kp cp (mk s X q kq cq (mk s U w kw cw V))) fs"
  obtains h1 h2 h3 root h4 where "snd T p = Some (node_is s (ptr t) (Some q) (fptr fs) kp cp)"
    "upd (set_red cp) (snd T) q = Some h1" "h1 q = Some (node_is s (ptr X) (Some w) (Some p) kq cp)"
    "upd (set_red False) h1 w = Some h2" "upd (set_red False) h2 p = Some h3"
    "tree__rotate s (fst T, h3) p = Some (root, h4)"
    "at (root, h4) (mk s (mk s t p kp False X) q kq cp (mk s U w kw False V)) fs"
    "same_outside (insert p (insert q (insert w (addrs X))) \<union> faddrs fs) T (root, h4)"
proof -
  let ?W = "mk s U w kw cw V" and ?W' = "mk s U w kw False V"
  have q: "at T (mk s X q kq cq ?W) (Fr (opp s) p kp cp t # fs)" using T by (simp add: at_up mk_opp)
  obtain h1 where h1: "upd (set_red cp) (snd T) q = Some h1" "at (fst T, h1) (mk s X q kq cp ?W) (Fr (opp s) p kp cp t # fs)"
    "same_outside {q} T (fst T, h1)" using set_red_at [OF q, of cp] by blast
  have "at (fst T, h1) ?W (Fr (opp s) q kq cp X # Fr (opp s) p kp cp t # fs)" using h1(2) by (simp add: at_up mk_opp)
  from set_red_at [OF this, of False] obtain h2 where h2: "upd (set_red False) h1 w = Some h2"
    "at (fst T, h2) (mk s t p kp cp (mk s X q kq cp ?W')) fs" "same_outside {w} (fst T, h1) (fst T, h2)"
    by (auto simp: at_up mk_opp)
  from set_red_at [OF h2(2), of False] obtain h3 where h3: "upd (set_red False) h2 p = Some h3"
    "at (fst T, h3) (mk s t p kp False (mk s X q kq cp ?W')) fs" "same_outside {p} (fst T, h2) (fst T, h3)" by auto
  from rotate_at [OF h3(2)] obtain root h4 where h4: "tree__rotate s (fst T, h3) p = Some (root, h4)"
    "at (root, h4) (mk s (mk s t p kp False X) q kq cp ?W') fs"
    "same_outside (insert p (insert q (addrs X)) \<union> faddrs fs) (fst T, h3) (root, h4)" by blast
  show thesis
    using that [OF _ h1(1) _ h2(1) h3(1) h4(1,2)] at_mk [OF T] at_mk [OF h1(2)] h1(3) h2(3) h3(3) h4(3)
    by (auto simp: same_outside_def)
qed

lemma sibling_far_red:
  assumes T: "at T (mk s t p kp cp (mk s X q kq cq (mk s U w kw True V))) fs"
  shows "\<exists>T'. tree__rebalance_sibling s T p q = Some (T', True)
    \<and> at T' (mk s (mk s t p kp False X) q kq cp (mk s U w kw False V)) fs
    \<and> same_outside (insert p (insert q (insert w (addrs X))) \<union> faddrs fs) T T'"
proof -
  have q: "at T (mk s X q kq cq (mk s U w kw True V)) (Fr (opp s) p kp cp t # fs)" using T by (simp add: at_up mk_opp)
  obtain h1 h2 h3 root h4 where f: "snd T p = Some (node_is s (ptr t) (Some q) (fptr fs) kp cp)"
    "upd (set_red cp) (snd T) q = Some h1" "h1 q = Some (node_is s (ptr X) (Some w) (Some p) kq cp)"
    "upd (set_red False) h1 w = Some h2" "upd (set_red False) h2 p = Some h3"
    "tree__rotate s (fst T, h3) p = Some (root, h4)"
    "at (root, h4) (mk s (mk s t p kp False X) q kq cp (mk s U w kw False V)) fs"
    "same_outside (insert p (insert q (insert w (addrs X))) \<union> faddrs fs) T (root, h4)"
    by (rule sibling_final [OF T]) auto
  have "tree__rebalance_sibling s T p q = Some ((root, h4), True)"
    using rebalance_sibling_eq [of T q _ s X "mk s U w kw True V"] at_mk [OF q] f(1-6)
    by (auto simp: split_beta)
  then show ?thesis using f(7,8) by blast
qed

lemma sibling_near_red:
  assumes T: "at T (mk s t p kp cp (mk s (mk s U w kw True V) q kq cq Y)) fs" and Y: "\<not> isred Y"
  shows "\<exists>T'. tree__rebalance_sibling s T p q = Some (T', True)
    \<and> at T' (mk s (mk s t p kp False U) w kw cp (mk s V q kq False Y)) fs
    \<and> same_outside (addrs (mk s t p kp cp (mk s (mk s U w kw True V) q kq cq Y)) \<union> faddrs fs) T T'"
proof -
  let ?W = "mk s U w kw True V" and ?fs = "Fr (opp s) p kp cp t # fs"
  have q: "at T (mk s ?W q kq cq Y) ?fs" using T by (simp add: at_up mk_opp)
  have "at T ?W (Fr s q kq cq Y # ?fs)" using q by (simp add: at_up)
  from set_red_at [OF this, of False] obtain h1 where h1: "upd (set_red False) (snd T) w = Some h1"
    "at (fst T, h1) (mk s (mk s U w kw False V) q kq cq Y) ?fs" "same_outside {w} T (fst T, h1)" by (auto simp: at_up)
  from set_red_at [OF h1(2), of True] obtain h2 where h2: "upd (set_red True) h1 q = Some h2"
    "at (fst T, h2) (mk s (mk s U w kw False V) q kq True Y) ?fs" "same_outside {q} (fst T, h1) (fst T, h2)" by auto
  have "at (fst T, h2) (mk (opp s) Y q kq True (mk (opp s) V w kw False U)) ?fs" using h2(2) by (simp add: mk_opp)
  from rotate_at [OF this] obtain r3 h3 where h3: "tree__rotate (opp s) (fst T, h2) q = Some (r3, h3)"
    "at (r3, h3) (mk (opp s) (mk (opp s) Y q kq True V) w kw False U) ?fs"
    "same_outside (insert q (insert w (addrs V)) \<union> faddrs ?fs) (fst T, h2) (r3, h3)" by blast
  have T3: "at (r3, h3) (mk s t p kp cp (mk s U w kw False (mk s V q kq True Y))) fs"
    using h3(2) by (simp add: at_up mk_opp)
  obtain h4 h5 h6 root h7 where f: "h3 p = Some (node_is s (ptr t) (Some w) (fptr fs) kp cp)"
    "upd (set_red cp) h3 w = Some h4" "h4 w = Some (node_is s (ptr U) (Some q) (Some p) kw cp)"
    "upd (set_red False) h4 q = Some h5" "upd (set_red False) h5 p = Some h6"
    "tree__rotate s (r3, h6) p = Some (root, h7)"
    "at (root, h7) (mk s (mk s t p kp False U) w kw cp (mk s V q kq False Y)) fs"
    "same_outside (insert p (insert w (insert q (addrs U))) \<union> faddrs fs) (r3, h3) (root, h7)"
    by (rule sibling_final [OF T3]) auto
  have "tree__rebalance_sibling s T p q = Some ((root, h7), True)"
    using rebalance_sibling_eq [of T q _ s ?W Y] at_mk [OF q] Y h1(1) h2(1) h3(1) f(1-6) by auto
  moreover have "same_outside (addrs (mk s t p kp cp (mk s ?W q kq cq Y)) \<union> faddrs fs) T (root, h7)"
    using h1(3) h2(3) h3(3) f(8) by (auto simp: same_outside_def)
  ultimately show ?thesis using f(7) by blast
qed

text \<open>A red sibling is rotated above the parent; the new sibling is black.\<close>

lemma rotate_red_sibling_red:
  assumes T: "at T (mk s t p kp cp (mk s X q kq True Y)) fs" and X: "ptr X = Some x"
  shows "\<exists>T'. tree__rotate_red_sibling s T p = Some (T', x)
    \<and> at T' (mk s t p kp True X) (Fr s q kq False Y # fs)
    \<and> same_outside (insert p (insert q (addrs X)) \<union> faddrs fs) T T'"
proof -
  have q: "at T (mk s X q kq True Y) (Fr (opp s) p kp cp t # fs)" using T by (simp add: at_up mk_opp)
  obtain h1 where h1: "upd (set_red False) (snd T) q = Some h1" "at (fst T, h1) (mk s t p kp cp (mk s X q kq False Y)) fs"
    "same_outside {q} T (fst T, h1)" using set_red_at [OF q, of False] by (auto simp: at_up mk_opp)
  from set_red_at [OF h1(2), of True] obtain h2 where h2: "upd (set_red True) h1 p = Some h2"
    "at (fst T, h2) (mk s t p kp True (mk s X q kq False Y)) fs" "same_outside {p} (fst T, h1) (fst T, h2)" by auto
  from rotate_at [OF h2(2)] obtain r h3 where h3: "tree__rotate s (fst T, h2) p = Some (r, h3)"
    "at (r, h3) (mk s (mk s t p kp True X) q kq False Y) fs"
    "same_outside (insert p (insert q (addrs X)) \<union> faddrs fs) (fst T, h2) (r, h3)" by blast
  have "h3 p = Some (node_is s (ptr t) (ptr X) (Some q) kp True)" using at_mk [OF h3(2)] by simp
  then have "tree__rotate_red_sibling s T p = Some ((r, h3), x)"
    using at_mk [OF T] at_mk [OF q] h1(1) h2(1) h3(1) X
    by (auto simp: tree__rotate_red_sibling_def split_beta)
  moreover have "same_outside (insert p (insert q (addrs X)) \<union> faddrs fs) T (r, h3)"
    using h1(3) h2(3) h3(3) by (auto simp: same_outside_def)
  ultimately show ?thesis using h3(2) by (auto simp: at_up)
qed

lemma rotate_red_sibling_black:
  assumes T: "at T (mk s t p kp cp (mk s X q kq False Y)) fs"
  shows "tree__rotate_red_sibling s T p = Some (T, q)"
proof -
  have q: "at T (mk s X q kq False Y) (Fr (opp s) p kp cp t # fs)" using T by (simp add: at_up mk_opp)
  show ?thesis using at_mk [OF T] at_mk [OF q] by (simp add: tree__rotate_red_sibling_def split_beta)
qed

section \<open>The removal loop\<close>

text \<open>What a black sibling leads to: the end of the loop, or one level up with one black node less.\<close>

lemma black_sibling_spec:
  assumes T: "at T (mk s t p kp cp (mk s X q kq False Y)) fs" and t: "rb t n" "\<not> isred t" and XY: "rb X n" "rb Y n"
  shows "\<exists>T' brk t'. tree__rebalance_sibling s T p q = Some (T', brk) \<and> at T' t' fs
    \<and> inord t' = inord (mk s t p kp cp (mk s X q kq False Y))
    \<and> same_outside (addrs (mk s t p kp cp (mk s X q kq False Y)) \<union> faddrs fs) T T'
    \<and> (if brk then rb t' (if cp then Suc n else Suc (Suc n)) \<and> isred t' = cp
       else (\<exists>S. t' = mk s t p kp cp S \<and> rb S n))"
proof -
  let ?t = "mk s t p kp cp (mk s X q kq False Y)"
  consider "\<not> isred X" "\<not> isred Y" | "isred Y" | "isred X" "\<not> isred Y" by blast
  then show ?thesis
  proof cases
    case 1
    obtain T' where T': "tree__rebalance_sibling s T p q = Some (T', False)" "at T' (mk s t p kp cp (mk s X q kq True Y)) fs"
      "same_outside {q} T T'" using sibling_black_children [OF T 1] by blast
    moreover have "inord (mk s t p kp cp (mk s X q kq True Y)) = inord ?t" by (cases s) (simp_all add: inord_mk)
    moreover have "rb (mk s X q kq True Y) n" using XY 1 by simp
    ultimately show ?thesis
      by (intro exI [of _ T'] exI [of _ False] exI [of _ "mk s t p kp cp (mk s X q kq True Y)"])
        (auto intro: same_outside_mono)
  next
    case 2
    then obtain U w kw V where Y: "Y = mk s U w kw True V" by (cases rule: mk_cases [where t = Y and s = s]) auto
    let ?t' = "mk s (mk s t p kp False X) q kq cp (mk s U w kw False V)"
    obtain T' where T': "tree__rebalance_sibling s T p q = Some (T', True)" "at T' ?t' fs"
      "same_outside (insert p (insert q (insert w (addrs X))) \<union> faddrs fs) T T'"
      using sibling_far_red [OF T [unfolded Y]] by blast
    moreover have "inord ?t' = inord ?t" unfolding Y by (cases s) (simp_all add: inord_mk)
    moreover have "rb ?t' (if cp then Suc n else Suc (Suc n))" using t XY Y by simp
    ultimately show ?thesis
      by (intro exI [of _ T'] exI [of _ True] exI [of _ ?t']) (auto intro: same_outside_mono simp: Y simp del: rb_mk)
  next
    case 3
    then obtain U w kw V where X: "X = mk s U w kw True V" by (cases rule: mk_cases [where t = X and s = s]) auto
    let ?t' = "mk s (mk s t p kp False U) w kw cp (mk s V q kq False Y)"
    obtain T' where T': "tree__rebalance_sibling s T p q = Some (T', True)" "at T' ?t' fs"
      "same_outside (addrs ?t \<union> faddrs fs) T T'"
      using sibling_near_red [OF T [unfolded X] 3(2)] X by blast
    moreover have "inord ?t' = inord ?t" unfolding X by (cases s) (simp_all add: inord_mk)
    moreover have "rb ?t' (if cp then Suc n else Suc (Suc n))" using t XY X by simp
    ultimately show ?thesis
      by (intro exI [of _ T'] exI [of _ True] exI [of _ ?t']) (auto simp del: rb_mk)
  qed
qed

text \<open>One pass of the loop, for a red or a black sibling.\<close>

lemma rebalance_after_remove_spec:
  assumes T: "at T t (Fr s p kp cp S # fs)" and t: "rb t n" "\<not> isred t" and pk: "pok (Suc n) (Fr s p kp cp S # fs)"
  shows "\<exists>T' brk t' gs n'. tree__rebalance_after_remove s T p = Some (T', brk) \<and> at T' t' gs
    \<and> inord (plug gs t') = inord (plug (Fr s p kp cp S # fs) t)
    \<and> same_outside (addrs t \<union> faddrs (Fr s p kp cp S # fs)) T T'
    \<and> addrs t' \<union> faddrs gs = addrs t \<union> faddrs (Fr s p kp cp S # fs)
    \<and> (if brk then rb t' n' \<and> pok n' gs \<and> (isred t' \<longrightarrow> \<not> topred gs)
       else (\<exists>c S'. t' = mk s t p kp c S' \<and> rb S' n \<and> pok (if c then Suc n else Suc (Suc n)) gs \<and> (c \<longrightarrow> gs \<noteq> []) \<and> length gs \<le> Suc (length fs)
         \<and> (\<not> c \<longrightarrow> gs = fs)))"
proof -
  have T1: "at T (mk s t p kp cp S) fs" using T by (simp add: at_up)
  have S: "rb S (Suc n)" using pk by simp
  then obtain X q kq cq Y where Seq: "S = mk s X q kq cq Y" by (cases rule: mk_cases [where t = S and s = s]) auto
  show ?thesis
  proof (cases cq)
    case False
    have XY: "rb X n" "rb Y n" using S Seq False by auto
    have Seq': "S = mk s X q kq False Y" using Seq False by simp
    have T1': "at T (mk s t p kp cp (mk s X q kq False Y)) fs" using T1 Seq' by simp
    have r: "tree__rotate_red_sibling s T p = Some (T, q)" by (rule rotate_red_sibling_black [OF T1'])
    obtain T' brk t' where b: "tree__rebalance_sibling s T p q = Some (T', brk)" "at T' t' fs" "inord t' = inord (mk s t p kp cp S)"
      "same_outside (addrs (mk s t p kp cp S) \<union> faddrs fs) T T'"
      "if brk then rb t' (if cp then Suc n else Suc (Suc n)) \<and> isred t' = cp else (\<exists>S. t' = mk s t p kp cp S \<and> rb S n)"
      using black_sibling_spec [OF T1' t XY] unfolding Seq' by blast
    have "addrs t' = addrs (mk s t p kp cp S)" using b(3) by (simp only: inord_addrs)
    then have "addrs t' \<union> faddrs fs = addrs t \<union> faddrs (Fr s p kp cp S # fs)" by auto
    moreover have "tree__rebalance_after_remove s T p = Some (T', brk)" using r b(1) by (simp add: tree__rebalance_after_remove_def)
    moreover have "same_outside (addrs t \<union> faddrs (Fr s p kp cp S # fs)) T T'" by (rule same_outside_mono [OF b(4)]) auto
    moreover have "inord (plug fs t') = inord (plug (Fr s p kp cp S # fs) t)" using inord_plug_cong [OF b(3), of fs] by simp
    ultimately show ?thesis
      using b(2,5) pk
      by (intro exI [of _ T'] exI [of _ brk] exI [of _ t'] exI [of _ fs] exI [of _ "if cp then Suc n else Suc (Suc n)"])
        (cases brk; cases cp; fastforce)
  next
    case True
    have XY: "rb X (Suc n)" "rb Y (Suc n)" "\<not> isred X" "\<not> isred Y" "\<not> cp" using S Seq True pk by auto
    obtain U x kx V where X: "X = mk s U x kx False V" "rb U n" "rb V n"
      using XY(1,3) by (cases rule: mk_cases [where t = X and s = s]) auto
    let ?gs = "Fr s q kq False Y # fs"
    obtain T2 where T2: "tree__rotate_red_sibling s T p = Some (T2, x)" "at T2 (mk s t p kp True X) ?gs"
      "same_outside (insert p (insert q (addrs X)) \<union> faddrs fs) T T2"
      using rotate_red_sibling_red [of T s t p kp cp X q kq Y fs x] T1 Seq True X(1) by auto
    obtain T' brk t' where b: "tree__rebalance_sibling s T2 p x = Some (T', brk)" "at T' t' ?gs" "inord t' = inord (mk s t p kp True X)"
      "same_outside (addrs (mk s t p kp True X) \<union> faddrs ?gs) T2 T'"
      "if brk then rb t' (if True then Suc n else Suc (Suc n)) \<and> isred t' = True else (\<exists>S. t' = mk s t p kp True S \<and> rb S n)"
      using black_sibling_spec [OF T2(2) [unfolded X(1)] t X(2,3)] unfolding X(1) by blast
    have "addrs t' = addrs (mk s t p kp True X)" using b(3) by (simp only: inord_addrs)
    moreover have "inord (plug ?gs t') = inord (plug (Fr s p kp cp S # fs) t)"
      using inord_plug_cong [OF b(3), of ?gs] inord_plug_cong [of "mk s (mk s t p kp True X) q kq False Y" "mk s t p kp cp S" fs]
        inord_rotate [of kp kp kq kq s t p True X q False Y cp cq] Seq by simp
    moreover have "same_outside (addrs t \<union> faddrs (Fr s p kp cp S # fs)) T T'"
      by (rule same_outside_trans [OF T2(3) b(4)]) (auto simp: Seq)
    moreover have "pok (Suc n) ?gs" using XY pk by simp
    moreover have "tree__rebalance_after_remove s T p = Some (T', brk)"
      using T2(1) b(1) by (simp add: tree__rebalance_after_remove_def)
    moreover have "addrs t' \<union> faddrs ?gs = addrs t \<union> faddrs (Fr s p kp cp S # fs)"
      using \<open>addrs t' = addrs (mk s t p kp True X)\<close> by (auto simp: Seq)
    ultimately show ?thesis
      using b(2,5)
      by (intro exI [of _ T'] exI [of _ brk] exI [of _ t'] exI [of _ ?gs] exI [of _ "Suc n"]) (cases brk; fastforce)
  qed
qed

text \<open>The tests of the loop head.\<close>

lemma ptr_plug: "fs \<noteq> [] \<Longrightarrow> \<exists>a \<in> faddrs fs. ptr (plug fs t) = Some a"
proof (induction fs arbitrary: t)
  case (Cons f fs)
  obtain s a k c B where f: "f = Fr s a k c B" by (cases f)
  show ?case using Cons.IH [of "mk s t a k c B"] f by (cases "fs = []") auto
qed simp

lemma not_root: "at T t fs \<Longrightarrow> fs \<noteq> [] \<Longrightarrow> ptr t \<noteq> fst T"
proof
  assume T: "at T t fs" "fs \<noteq> []" "ptr t = fst T"
  obtain a where a: "a \<in> faddrs fs" "ptr (plug fs t) = Some a" using ptr_plug [OF T(2)] by blast
  then have "ptr t = Some a" using T at_ptr at_root by metis
  then show False using T(1) a(1) ptr_in_addrs by (fastforce simp: at_def)
qed

lemma side_of_hole:
  assumes T: "at T t (Fr s p kp cp S # fs)" and S: "S \<noteq> Lf" and n: "snd T p = Some n"
  shows "(if ptr t = left n then LeftS else RightS) = s"
proof -
  have ne: "n = node_is s (ptr t) (ptr S) (fptr fs) kp cp" using T n by (simp add: at_def)
  have "ptr S \<noteq> ptr t"
  proof
    assume eq: "ptr S = ptr t"
    then obtain a where "ptr S = Some a" "ptr t = Some a" using S by (cases S) auto
    then show False using T by (auto simp: at_def dest!: ptr_in_addrs)
  qed
  then show ?thesis using ne by (cases s) (auto simp: node_is_left)
qed

lemma fix_remove_spec:
  assumes "at T t fs" "rb t n" "\<not> isred t" "pok (Suc n) fs"
  shows "\<exists>T' t'. tree__fix_remove T (ptr t) (fptr fs) = Some T' \<and> at T' t' [] \<and> inord t' = inord (plug fs t)
    \<and> rbt t' \<and> same_outside (addrs t \<union> faddrs fs) T T'"
  using assms
proof (induction "length fs" arbitrary: T t fs n rule: less_induct)
  case less
  note T = less.prems(1) and t = less.prems(2,3) and pk = less.prems(4)
  show ?case
  proof (cases fs)
    case Nil
    have root: "fst T = ptr t" using T Nil at_ptr by blast
    show ?thesis
    proof (cases "t = Lf")
      case True
      then show ?thesis using T Nil root t
        by (intro exI [of _ T] exI [of _ t]) (auto simp: tree__fix_remove.simps rbt_def)
    next
      case False
      obtain a h where b: "fst T = Some a" "upd (set_red False) (snd T) a = Some h"
        "\<exists>t'. at (fst T, h) t' [] \<and> rbt t' \<and> inord t' = inord t" "same_outside {a} T (fst T, h)"
        using blacken_root [OF T [unfolded Nil] t(1) False] by metis
      have pa: "ptr t = Some a" using root b(1) by simp
      then have "a \<in> addrs t" by (rule ptr_in_addrs)
      then have "same_outside (addrs t \<union> faddrs fs) T (fst T, h)" by (intro same_outside_mono [OF b(4)]) auto
      moreover have "tree__fix_remove T (ptr t) (fptr fs) = Some (fst T, h)"
        using root pa b(2) by (subst tree__fix_remove.simps) (simp add: Let_def)
      ultimately show ?thesis using b(3) Nil by auto
    qed
  next
    case (Cons f gs)
    obtain s p kp cp S where f: "f = Fr s p kp cp S" by (cases f)
    let ?fs = "Fr s p kp cp S # gs"
    have fs: "fs = ?fs" using Cons f by simp
    have Snl: "S \<noteq> Lf" using pk fs by auto
    obtain pn where pn: "snd T p = Some pn" "(if ptr t = left pn then LeftS else RightS) = s"
      using side_of_hole [OF T [unfolded fs] Snl] T fs by (auto simp: at_def)
    have nr: "ptr t \<noteq> fst T" using not_root [OF T] fs by simp
    obtain T1 brk t1 g1 n1 where r: "tree__rebalance_after_remove s T p = Some (T1, brk)" "at T1 t1 g1"
      "inord (plug g1 t1) = inord (plug ?fs t)" "same_outside (addrs t \<union> faddrs ?fs) T T1"
      "addrs t1 \<union> faddrs g1 = addrs t \<union> faddrs ?fs"
      "if brk then rb t1 n1 \<and> pok n1 g1 \<and> (isred t1 \<longrightarrow> \<not> topred g1)
       else (\<exists>c S'. t1 = mk s t p kp c S' \<and> rb S' n \<and> pok (if c then Suc n else Suc (Suc n)) g1 \<and> (c \<longrightarrow> g1 \<noteq> [])
         \<and> length g1 \<le> Suc (length gs) \<and> (\<not> c \<longrightarrow> g1 = gs))"
      using rebalance_after_remove_spec [OF T [unfolded fs] t pk [unfolded fs]] by blast
    have step: "tree__fix_remove T (ptr t) (fptr fs) =
        (let blacken = (\<lambda>t node. case node of None \<Rightarrow> Some t
           | Some a \<Rightarrow> do { h \<leftarrow> upd (set_red False) (snd t) a; Some (fst t, h) })
         in if brk then blacken T1 (fst T1)
            else do { pn \<leftarrow> snd T1 p; (if red pn then blacken T1 (Some p) else tree__fix_remove T1 (Some p) (parent pn)) })"
      using nr pn r(1) fs by (subst tree__fix_remove.simps) (simp add: Let_def)
    show ?thesis
    proof (cases brk)
      case True
      have "at T1 (plug g1 t1) []" using r(2) at_root by blast
      moreover obtain n' where "rb (plug g1 t1) n'" using rb_plug r(6) True by metis
      moreover have "plug g1 t1 \<noteq> Lf" using r(5) fs addrs_plug [of g1 t1] by (metis Un_insert_right addrs.simps(1) faddrs.simps(2) insert_not_empty)
      ultimately obtain a h where b: "fst T1 = Some a" "upd (set_red False) (snd T1) a = Some h"
        "\<exists>t'. at (fst T1, h) t' [] \<and> rbt t' \<and> inord t' = inord (plug g1 t1)" "same_outside {a} T1 (fst T1, h)"
        using blacken_root by metis
      have "a \<in> addrs (plug g1 t1)" using at_ptr [OF \<open>at T1 (plug g1 t1) []\<close>] b(1) by (intro ptr_in_addrs) simp
      then have "a \<in> addrs t \<union> faddrs fs" by (simp only: addrs_plug r(5) flip: fs)
      then have "same_outside (addrs t \<union> faddrs fs) T (fst T1, h)"
        by (intro same_outside_trans [OF r(4) [folded fs] b(4)]) auto
      then show ?thesis using step True b(1,2,3) r(3) fs by auto
    next
      case False
      then obtain c S' where t1: "t1 = mk s t p kp c S'" "rb S' n" "pok (if c then Suc n else Suc (Suc n)) g1" "c \<longrightarrow> g1 \<noteq> []"
        "\<not> c \<longrightarrow> g1 = gs" using r(6) by auto
      have p1: "snd T1 p = Some (node_is s (ptr t) (ptr S') (fptr g1) kp c)" using at_mk r(2) t1(1) by metis
      show ?thesis
      proof (cases c)
        case True
        obtain h where h: "upd (set_red False) (snd T1) p = Some h" "at (fst T1, h) (mk s t p kp False S') g1" "same_outside {p} T1 (fst T1, h)"
          using set_red_at [of T1 s t p kp c S' g1 False] r(2) t1(1) by blast
        have "rb (mk s t p kp False S') (Suc n)" using t(1) t1(2) by simp
        then obtain n' where "rb (plug g1 (mk s t p kp False S')) n'" "\<not> isred (plug g1 (mk s t p kp False S'))"
          using rb_plug [of "mk s t p kp False S'" "Suc n" g1] t1(3,4) True by auto
        then have "rbt (plug g1 (mk s t p kp False S'))" by (auto simp: rbt_def)
        moreover have "inord (plug g1 (mk s t p kp False S')) = inord (plug fs t)"
          using r(3) t1(1) fs inord_plug_cong [of "mk s t p kp False S'" t1 g1] inord_recolour by metis
        moreover have "same_outside (addrs t \<union> faddrs fs) T (fst T1, h)"
          by (rule same_outside_trans [OF r(4) [folded fs] h(3)]) (auto simp: fs)
        moreover have "tree__fix_remove T (ptr t) (fptr fs) = Some (fst T1, h)" using step False p1 True h(1) by simp
        ultimately show ?thesis using h(2) at_root by blast
      next
        case cF: False
        have "rb t1 (Suc n)" "\<not> isred t1" "pok (Suc (Suc n)) gs" "at T1 t1 gs" "length gs < length fs"
          using t1 t cF r(2) fs by auto
        from less.hyps [OF this(5,4,1,2,3)] obtain T' t' where q: "tree__fix_remove T1 (ptr t1) (fptr gs) = Some T'" "at T' t' []"
          "inord t' = inord (plug gs t1)" "rbt t'" "same_outside (addrs t1 \<union> faddrs gs) T1 T'" by blast
        have "tree__fix_remove T (ptr t) (fptr fs) = Some T'" using step False p1 cF q(1) t1(1,5) by simp
        moreover have "same_outside (addrs t \<union> faddrs fs) T T'"
          using r(5) t1(5) cF by (intro same_outside_trans [OF r(4) [folded fs] q(5)]) (auto simp: fs)
        ultimately show ?thesis using q(2-4) r(3) t1(5) cF fs by auto
      qed
    qed
  qed
qed

end
