(* ===== verification/WepollTreeMap.thy ===== *)
theory WepollTreeMap
  imports WepollTreeDel
begin

text \<open>
  The first part of the removal, and the red-black trees as finite maps: \<open>tree_add\<close>,
  \<open>tree_del\<close> and \<open>tree_find\<close> are an index from keys to nodes.
\<close>

section \<open>Subtrees along a path\<close>

lemma uniq_plug: "uniq (plug gs t) \<longleftrightarrow> uniq t \<and> funiq gs \<and> addrs t \<inter> faddrs gs = {}"
proof (induction gs arbitrary: t)
  case (Cons f gs)
  obtain s a k c B where f: "f = Fr s a k c B" by (cases f)
  show ?case using Cons.IH [of "mk s t a k c B"] f by auto
qed simp

text \<open>A path below a given parent.\<close>

fun gptr :: "'a option \<Rightarrow> 'a path \<Rightarrow> 'a option" where
  "gptr par [] = par"
| "gptr par (Fr s a k c B # fs) = Some a"

fun repg :: "'a theap \<Rightarrow> 'a option \<Rightarrow> 'a option \<Rightarrow> 'a path \<Rightarrow> bool" where
  "repg h par p [] \<longleftrightarrow> True"
| "repg h par p (Fr s a k c B # fs) \<longleftrightarrow> h a = Some (node_is s p (ptr B) (gptr par fs) k c) \<and> rep h (Some a) B
     \<and> repg h par (Some a) fs"

lemma rep_plug: "rep h par (plug gs t) \<longleftrightarrow> rep h (gptr par gs) t \<and> repg h par (ptr t) gs"
proof (induction gs arbitrary: t)
  case (Cons f gs)
  obtain s a k c B where f: "f = Fr s a k c B" by (cases f)
  show ?case using Cons.IH [of "mk s t a k c B"] f by auto
qed simp

lemma repg_frame: "repg h par p fs \<Longrightarrow> (\<And>x. x \<in> faddrs fs \<Longrightarrow> h' x = h x) \<Longrightarrow> repg h' par p fs"
proof (induction fs arbitrary: p)
  case (Cons f fs)
  then show ?case by (cases f) (auto intro: rep_frame)
qed simp

lemma repg_away:
  "repg h par p fs \<Longrightarrow> (\<And>x. x \<notin> S \<Longrightarrow> h' x = h x) \<Longrightarrow> faddrs fs \<inter> S = {} \<Longrightarrow> repg h' par p fs"
  by (erule repg_frame) blast

text \<open>The subtree at the end of the path is replaced, and the path is moved under another parent.\<close>

lemma repg_child:
  assumes "repg h par p (Fr s a k c B # fs)" "funiq (Fr s a k c B # fs)" "n = the (h a)"
  shows "repg (h(a \<mapsto> set_child s p' n)) par p' (Fr s a k c B # fs)"
  using assms by (auto intro!: repg_frame [of h] rep_frame [of h])

lemma gptr_nonempty: "fs \<noteq> [] \<Longrightarrow> gptr par fs = gptr par' fs"
  by (cases fs; cases "hd fs") auto

lemma repg_set_parent:
  assumes h': "h' = h(r \<mapsto> set_parent par' (the (h r)))"
    and "repg h par p fs" "funiq fs" "fs \<noteq> []" "ptr (plug fs t) = Some r"
  shows "repg h' par' p fs"
  using assms(2-)
proof (induction fs arbitrary: p t)
  case (Cons f fs)
  obtain s a k c B where f: "f = Fr s a k c B" by (cases f)
  have h: "h a = Some (node_is s p (ptr B) (gptr par fs) k c)" "rep h (Some a) B" "repg h par (Some a) fs"
    using Cons.prems(1) f by auto
  have u: "a \<notin> addrs B" "a \<notin> faddrs fs" "addrs B \<inter> faddrs fs = {}" "funiq fs" using Cons.prems(2) f by auto
  show ?case
  proof (cases "fs = []")
    case True
    then have "r = a" using Cons.prems(4) f by simp
    then show ?thesis using True f h u by (auto simp: h' intro: rep_frame [of h])
  next
    case False
    have r: "ptr (plug fs (mk s t a k c B)) = Some r" using Cons.prems(4) f by simp
    have "r \<in> faddrs fs" using ptr_plug [OF False, of "mk s t a k c B"] r by auto
    then have ra: "r \<noteq> a" "r \<notin> addrs B" using u by auto
    have "rep h' (Some a) B" "h' a = h a" using rep_frame [OF h(2)] ra by (auto simp: h')
    then show ?thesis
      using Cons.IH [OF h(3) u(4) False r] h(1) f gptr_nonempty [OF False, of par par'] by simp
  qed
qed simp

lemma inord_plug_ctx: "\<exists>pre post. \<forall>t. inord (plug fs t) = pre @ inord t @ post"
proof (induction fs)
  case Nil
  then show ?case by (intro exI [of _ "[]"]) simp
next
  case (Cons f fs)
  obtain s a k c B where f: "f = Fr s a k c B" by (cases f)
  from Cons obtain pre post where pp: "\<forall>t. inord (plug fs t) = pre @ inord t @ post" by blast
  show ?case
  proof (cases s)
    case LeftS
    then show ?thesis using pp f by (intro exI [of _ pre] exI [of _ "(k, a) # inord B @ post"]) (simp add: inord_mk)
  next
    case RightS
    then show ?thesis using pp f by (intro exI [of _ "pre @ inord B @ [(k, a)]"] exI [of _ post]) (simp add: inord_mk)
  qed
qed

lemma faddrs_append: "faddrs (fs @ gs) = faddrs fs \<union> faddrs gs"
proof (induction fs)
  case (Cons f fs)
  then show ?case by (cases f) auto
qed simp

section \<open>The leftmost node\<close>

fun leftp :: "'a path \<Rightarrow> bool" where
  "leftp [] = True"
| "leftp (Fr s a k c B # fs) \<longleftrightarrow> s = LeftS \<and> leftp fs"

lemma leftp_append: "leftp (fs @ gs) \<longleftrightarrow> leftp fs \<and> leftp gs"
proof (induction fs)
  case (Cons f fs)
  then show ?case by (cases f) auto
qed simp

lemma leftmost_spec:
  assumes "rep h par t" "ptr t = Some a"
  shows "\<exists>gs m km cm Y. t = plug gs (Nd Lf m km cm Y) \<and> leftp gs \<and> tree__leftmost h a = Some m
    \<and> inord t = (km, m) # inord (plug gs Y)"
  using assms
proof (induction t arbitrary: par a)
  case Lf
  then show ?case by simp
next
  case (Nd l b k c r)
  have b: "b = a" "h a = Some \<lparr>left = ptr l, right = ptr r, parent = par, key = k, red = c\<rparr>" "rep h (Some a) l"
    using Nd.prems by auto
  show ?case
  proof (cases "ptr l")
    case None
    then have "l = Lf" by (cases l) auto
    then show ?thesis using b
      by (intro exI [of _ "[]"] exI [of _ a] exI [of _ k] exI [of _ c] exI [of _ r]) (simp add: tree__leftmost.simps)
  next
    case (Some l')
    from Nd.IH(1) [OF b(3) Some] obtain gs m km cm Y where
      g: "l = plug gs (Nd Lf m km cm Y)" "leftp gs" "tree__leftmost h l' = Some m" "inord l = (km, m) # inord (plug gs Y)" by blast
    have "tree__leftmost h a = Some m" using b(2) Some g(3) by (subst tree__leftmost.simps) simp
    then show ?thesis using g b(1)
      by (intro exI [of _ "gs @ [Fr LeftS a k c r]"] exI [of _ m] exI [of _ km] exI [of _ cm] exI [of _ Y])
        (simp add: leftp_append mk_def)
  qed
qed

section \<open>Taking a node out\<close>

text \<open>A node with at most one child is replaced by it.\<close>

lemma unlink_one:
  assumes T: "at T (Nd l node k c r) fs" and X: "l = Lf \<and> X = r \<or> r = Lf \<and> X = l"
  shows "\<exists>T1 T2. tree__unlink T node = Some (T1, c, ptr X, fptr fs) \<and> fst T2 = fst T1
    \<and> (case ptr X of None \<Rightarrow> Some (snd T1) | Some a \<Rightarrow> upd (set_parent (fptr fs)) (snd T1) a) = Some (snd T2)
    \<and> at T2 X fs \<and> same_outside (addrs X \<union> faddrs fs) T T2"
proof -
  obtain root h where Th: "T = (root, h)" by (cases T)
  have n: "h node = Some \<lparr>left = ptr l, right = ptr r, parent = fptr fs, key = k, red = c\<rparr>"
    "rep h (Some node) X" "repc h root (Some node) fs" "funiq fs" "node \<notin> faddrs fs" "uniq X" "node \<notin> addrs X"
    "addrs X \<inter> faddrs fs = {}" using T X Th by (auto simp: at_def)
  obtain root1 h1 where h1: "relink (root, h) (fptr fs) node (ptr X) = Some (root1, h1)" "repc h1 root1 (ptr X) fs"
    "\<And>x. x \<notin> faddrs fs \<Longrightarrow> h1 x = h x"
    using relink_spec [OF n(3,5,4)] by blast
  have "ptr l = None \<and> ptr X = ptr r \<or> ptr r = None \<and> ptr X = ptr l" using X by auto
  then have un: "tree__unlink T node = Some ((root1, h1), c, ptr X, fptr fs)"
    using n(1,5) h1(1,3) Th
    by (auto simp: tree__unlink_def Let_def split: option.splits)
  have rX: "rep h1 (Some node) X" by (rule rep_away [OF n(2)], erule h1(3)) (use n(8) in auto)
  show ?thesis
  proof (cases "ptr X")
    case None
    then have "X = Lf" by (cases X) auto
    then show ?thesis using un h1(2,3) n(4) Th
      by (intro exI [of _ "(root1, h1)"]) (auto simp: at_def same_outside_def)
  next
    case (Some a)
    obtain an where an: "h1 a = Some an" using rX Some by (cases X) auto
    have aX: "a \<in> addrs X" using ptr_in_addrs [OF Some] .
    let ?h2 = "h1(a \<mapsto> set_parent (fptr fs) an)"
    have "rep ?h2 (fptr fs) X" using rep_set_parent [OF rX Some n(6)] an by simp
    moreover have "repc ?h2 root1 (ptr X) fs" using h1(2) aX n(8) by (intro repc_upd [THEN iffD2]) auto
    ultimately have "at (root1, ?h2) X fs" using n(4,6,8) by (simp add: at_def)
    moreover have "same_outside (addrs X \<union> faddrs fs) T (root1, ?h2)"
      using aX h1(3) Th by (auto simp: same_outside_def)
    ultimately show ?thesis using un Some an
      by (intro exI [of _ "(root1, h1)"] exI [of _ "(root1, ?h2)"]) (simp add: upd_def)
  qed
qed

text \<open>The facts about a node with two children, its successor and the path between them.\<close>

lemma two_children_facts:
  assumes T: "at (root, h) (Nd l node k c (plug gs (Nd Lf m km cm Y))) fs" and l: "ptr l = Some lp"
  obtains rp where "ptr (plug gs (Nd Lf m km cm Y)) = Some rp"
    "h node = Some \<lparr>left = Some lp, right = Some rp, parent = fptr fs, key = k, red = c\<rparr>"
    "h m = Some \<lparr>left = None, right = ptr Y, parent = gptr (Some node) gs, key = km, red = cm\<rparr>"
    "rep h (Some node) l" "rep h (Some m) Y" "repg h (Some node) (Some m) gs" "repc h root (Some node) fs"
    "uniq l" "uniq Y" "funiq gs" "funiq fs" "lp \<in> addrs l"
    "node \<notin> addrs l" "node \<notin> addrs Y" "node \<notin> faddrs gs" "node \<notin> faddrs fs" "node \<noteq> m"
    "m \<notin> addrs l" "m \<notin> addrs Y" "m \<notin> faddrs gs" "m \<notin> faddrs fs"
    "addrs l \<inter> addrs Y = {}" "addrs l \<inter> faddrs gs = {}" "addrs l \<inter> faddrs fs = {}"
    "addrs Y \<inter> faddrs gs = {}" "addrs Y \<inter> faddrs fs = {}" "faddrs gs \<inter> faddrs fs = {}"
proof -
  let ?r = "plug gs (Nd Lf m km cm Y)"
  have r: "rep h (fptr fs) (Nd l node k c ?r)" "repc h root (Some node) fs" "uniq l" "uniq ?r" "node \<notin> addrs l" "node \<notin> addrs ?r"
    "addrs l \<inter> addrs ?r = {}" "funiq fs" "node \<notin> faddrs fs" "(addrs l \<union> addrs ?r) \<inter> faddrs fs = {}"
    using T by (auto simp: at_def)
  have rr: "rep h (gptr (Some node) gs) (Nd Lf m km cm Y)" "repg h (Some node) (Some m) gs"
    using r(1) by (auto simp: rep_plug)
  have ur: "uniq (Nd Lf m km cm Y)" "funiq gs" "addrs (Nd Lf m km cm Y) \<inter> faddrs gs = {}" using r(4) by (auto simp: uniq_plug)
  have ar: "addrs ?r = insert m (addrs Y \<union> faddrs gs)" by (auto simp: addrs_plug)
  obtain rp where rp: "ptr ?r = Some rp" using ar by (cases ?r) auto
  have nd: "h node = Some \<lparr>left = Some lp, right = Some rp, parent = fptr fs, key = k, red = c\<rparr>"
    using r(1) l rp by simp
  show thesis
    by (rule that [OF rp nd]) (use r rr ur ar l in \<open>auto dest: ptr_in_addrs\<close>)
qed

text \<open>Putting the pieces together in a heap that agrees with the old one elsewhere.\<close>

lemma at_succ:
  assumes "h m = Some \<lparr>left = ptr l, right = ptr (plug gs Y), parent = fptr fs, key = km, red = c\<rparr>"
    and "rep h (Some m) l" "rep h (Some m) (plug gs Y)" "repc h root (Some m) fs"
    and "uniq l" "uniq Y" "funiq gs" "funiq fs" "m \<notin> addrs l" "m \<notin> addrs Y" "m \<notin> faddrs gs" "m \<notin> faddrs fs"
    "addrs l \<inter> addrs Y = {}" "addrs l \<inter> faddrs gs = {}" "addrs l \<inter> faddrs fs = {}"
    "addrs Y \<inter> faddrs gs = {}" "addrs Y \<inter> faddrs fs = {}" "faddrs gs \<inter> faddrs fs = {}"
  shows "at (root, h) Y (gs @ Fr RightS m km c l # fs)"
proof -
  have "uniq (Nd l m km c (plug gs Y))" using assms by (auto simp: uniq_plug addrs_plug)
  then have "at (root, h) (Nd l m km c (plug gs Y)) fs" using assms by (auto simp: at_def addrs_plug)
  then show ?thesis by (simp add: at_plug at_up mk_def)
qed

lemma unlink_adjacent:
  assumes T: "at T (Nd l node k c (Nd Lf m km cm Y)) fs" and l: "ptr l = Some lp" and lm: "tree__leftmost (snd T) m = Some m"
  shows "\<exists>T1 T2. tree__unlink T node = Some (T1, cm, ptr Y, Some m) \<and> fst T2 = fst T1
    \<and> (case ptr Y of None \<Rightarrow> Some (snd T1) | Some a \<Rightarrow> upd (set_parent (Some m)) (snd T1) a) = Some (snd T2)
    \<and> at T2 Y (Fr RightS m km c l # fs)
    \<and> same_outside (insert m (addrs l \<union> addrs Y \<union> faddrs fs)) T T2"
proof -
  obtain root h where Th: "T = (root, h)" by (cases T)
  have T': "at (root, h) (Nd l node k c (plug [] (Nd Lf m km cm Y))) fs" using T Th by simp
  obtain rp where f: "Some m = Some rp"
    "h node = Some \<lparr>left = Some lp, right = Some rp, parent = fptr fs, key = k, red = c\<rparr>"
    "h m = Some \<lparr>left = None, right = ptr Y, parent = Some node, key = km, red = cm\<rparr>"
    "rep h (Some node) l" "rep h (Some m) Y" "repc h root (Some node) fs" "uniq l" "uniq Y" "funiq fs" "lp \<in> addrs l"
    and d: "node \<notin> addrs l" "node \<notin> addrs Y" "node \<notin> faddrs fs" "node \<noteq> m" "m \<notin> addrs l" "m \<notin> addrs Y" "m \<notin> faddrs fs"
      "addrs l \<inter> addrs Y = {}" "addrs l \<inter> faddrs fs = {}" "addrs Y \<inter> faddrs fs = {}"
    using two_children_facts [OF T' l] by auto
  obtain root1 h1 where h1: "relink (root, h) (fptr fs) node (Some m) = Some (root1, h1)" "repc h1 root1 (Some m) fs"
    "\<And>x. x \<notin> faddrs fs \<Longrightarrow> h1 x = h x"
    using relink_spec [OF f(6) d(3) f(9)] by blast
  have e: "h1 node = h node" "h1 m = h m" using h1(3) d by auto
  have rl: "rep h1 (Some node) l" by (rule rep_away [OF f(4)], erule h1(3)) (use d in auto)
  have rY: "rep h1 (Some m) Y" by (rule rep_away [OF f(5)], erule h1(3)) (use d in auto)
  obtain ln where ln: "h1 lp = Some ln" using rl l by (cases l) auto
  define h2 where "h2 = h1(m \<mapsto> \<lparr>left = Some lp, right = ptr Y, parent = fptr fs, key = km, red = c\<rparr>,
    lp \<mapsto> set_parent (Some m) ln)"
  have ml: "m \<noteq> lp" "node \<noteq> lp" "lp \<notin> addrs Y" "lp \<notin> faddrs fs" using d f(10) by auto
  have run: "tree__unlink T node = Some ((root1, h2), cm, ptr Y, Some m)"
    using f(1-3) h1(1) e lm ln ml d(4) Th
    by (auto simp: tree__unlink_def upd_def Let_def h2_def set_red_def set_child_def set_parent_def fun_upd_twist)
  have h2m: "h2 m = Some \<lparr>left = Some lp, right = ptr Y, parent = fptr fs, key = km, red = c\<rparr>"
    using ml by (simp add: h2_def)
  have r2: "rep h2 (Some m) l" "rep h2 (Some m) Y" "repc h2 root1 (Some m) fs"
  proof -
    have "rep (h1(m \<mapsto> \<lparr>left = Some lp, right = ptr Y, parent = fptr fs, key = km, red = c\<rparr>)) (Some node) l"
      using rl d(5) by simp
    from rep_set_parent [OF this l f(7), of ln "Some m"] show "rep h2 (Some m) l" using ml ln by (simp add: h2_def)
    show "rep h2 (Some m) Y" by (rule rep_frame [OF rY]) (use ml d in \<open>auto simp: h2_def\<close>)
    show "repc h2 root1 (Some m) fs" by (rule repc_frame [OF h1(2)]) (use ml d in \<open>auto simp: h2_def\<close>)
  qed
  have out: "same_outside (insert m (addrs l \<union> addrs Y \<union> faddrs fs)) T (root1, h2)"
    using h1(3) f(10) Th by (auto simp: same_outside_def h2_def)
  have at2: "at (root1, h2) Y (Fr RightS m km c l # fs)"
    using at_succ [of h2 m l "[]" Y fs km c root1] h2m r2 f(7-9) d l by simp
  show ?thesis
  proof (cases "ptr Y")
    case None
    then show ?thesis using run at2 out by (intro exI [of _ "(root1, h2)"]) auto
  next
    case (Some y)
    obtain yn where "h2 y = Some yn" "set_parent (Some m) yn = yn"
      using r2(2) Some by (cases Y) (auto simp: set_parent_def)
    then have "upd (set_parent (Some m)) h2 y = Some h2" by (simp add: upd_def fun_upd_idem)
    then show ?thesis using run at2 out Some by (intro exI [of _ "(root1, h2)"]) auto
  qed
qed

lemma ptr_plug_eq: "fs \<noteq> [] \<Longrightarrow> ptr (plug fs t) = ptr (plug fs t')"
proof (induction fs arbitrary: t t')
  case (Cons f fs)
  obtain s a k c B where f: "f = Fr s a k c B" by (cases f)
  show ?case using Cons.IH [of "mk s t a k c B" "mk s t' a k c B"] f by (cases "fs = []") auto
qed simp

text \<open>The heap after a successor further down has taken the place of the node.\<close>

lemma far_heap:
  assumes g_def: "g = Fr LeftS a ka ca B # gs"
    and r: "rep h1 (Some node) l" "rep h1 (Some m) Y" "repg h1 (Some node) (Some m) g" "repc h1 root1 (Some m) fs"
    and p: "ptr l = Some lp" "ptr (plug g (Nd Lf m km cm Y)) = Some rp" "h1 lp = Some ln"
    and h: "M = \<lparr>left = Some lp, right = Some rp, parent = fptr fs, key = km, red = c\<rparr>"
      "h2 = h1(m \<mapsto> M, lp \<mapsto> set_parent (Some m) ln)"
      "h3 = h2(a \<mapsto> node_is LeftS (ptr Y) (ptr B) (gptr (Some node) gs) ka ca)"
      "h4 = h3(rp \<mapsto> set_parent (Some m) (the (h3 rp)))"
    and u: "uniq l" "uniq Y" "funiq g" "funiq fs" "lp \<in> addrs l"
    and d: "m \<notin> addrs l" "m \<notin> addrs Y" "m \<notin> faddrs g" "m \<notin> faddrs fs" "addrs l \<inter> addrs Y = {}" "addrs l \<inter> faddrs g = {}"
      "addrs l \<inter> faddrs fs = {}" "addrs Y \<inter> faddrs g = {}" "addrs Y \<inter> faddrs fs = {}" "faddrs g \<inter> faddrs fs = {}"
  obtains h5 where "(case ptr Y of None \<Rightarrow> Some h4 | Some y \<Rightarrow> upd (set_parent (Some a)) h4 y) = Some h5"
    "at (root1, h5) Y (g @ Fr RightS m km c l # fs)" "\<And>x. x \<notin> insert m (insert lp (insert a (insert rp (addrs Y)))) \<Longrightarrow> h5 x = h1 x"
proof -
  have ne: "g \<noteq> []" "a \<in> faddrs g" "rp \<in> faddrs g" "ptr (plug g Y) = Some rp"
    using ptr_plug [of g "Nd Lf m km cm Y"] ptr_plug_eq [of g Y "Nd Lf m km cm Y"] p(2) by (auto simp: g_def)
  have ni: "m \<noteq> lp" "lp \<notin> faddrs g" "lp \<notin> faddrs fs" "lp \<notin> addrs Y" "a \<notin> addrs l" "a \<notin> addrs Y" "a \<notin> faddrs fs" "a \<noteq> m"
    "rp \<notin> addrs l" "rp \<notin> addrs Y" "rp \<notin> faddrs fs" "rp \<noteq> m" "a \<noteq> lp" "rp \<noteq> lp"
    using d u(5) ne(2,3) by auto
  have l4: "rep h4 (Some m) l"
  proof -
    have "rep (h1(m \<mapsto> M)) (Some node) l" using r(1) d(1) by simp
    from rep_set_parent [OF this p(1) u(1), of ln "Some m"] have "rep h2 (Some m) l" using ni(1) p(3) by (simp add: h(2))
    then show ?thesis by (rule rep_frame) (use ni in \<open>auto simp: h(3,4)\<close>)
  qed
  have Y4: "rep h4 (Some m) Y" by (rule rep_frame [OF r(2)]) (use ni d(2) in \<open>auto simp: h(2-4)\<close>)
  have c4: "repc h4 root1 (Some m) fs" by (rule repc_frame [OF r(4)]) (use ni d(4) in \<open>auto simp: h(2-4)\<close>)
  have "repg h2 (Some node) (Some m) g" by (rule repg_frame [OF r(3)]) (use ni d(3) in \<open>auto simp: h(2)\<close>)
  moreover from this have "h3 = h2(a \<mapsto> set_child LeftS (ptr Y) (the (h2 a)))" by (simp add: g_def h(3))
  ultimately have "repg h3 (Some node) (ptr Y) g" using repg_child u(3) unfolding g_def by metis
  from repg_set_parent [OF h(4) this u(3) ne(1,4)] have g4: "repg h4 (Some m) (ptr Y) g" .
  have m4: "h4 m = Some M" using ni by (simp add: h(2-4))
  have out: "h4 x = h1 x" if "x \<notin> insert m (insert lp (insert a (insert rp (addrs Y))))" for x
    using that by (auto simp: h(2-4))
  have fin: "at (root1, h5) Y (g @ Fr RightS m km c l # fs)"
    if "\<And>x. x \<notin> addrs Y \<Longrightarrow> h5 x = h4 x" "rep h5 (Some a) Y" for h5
  proof (rule at_succ)
    show "h5 m = Some \<lparr>left = ptr l, right = ptr (plug g Y), parent = fptr fs, key = km, red = c\<rparr>"
      using that(1) d(2) m4 p(1) ne(4) by (simp add: h(1))
    show "rep h5 (Some m) l" by (rule rep_away [OF l4], erule that(1)) (use d in auto)
    show "repc h5 root1 (Some m) fs" by (rule repc_away [OF c4], erule that(1)) (use d in auto)
    have "repg h5 (Some m) (ptr Y) g" by (rule repg_away [OF g4], erule that(1)) (use d in auto)
    then show "rep h5 (Some m) (plug g Y)" using that(2) unfolding rep_plug g_def by simp
  qed (use u d in auto)
  show thesis
  proof (cases "ptr Y")
    case None
    then have "Y = Lf" by (cases Y) auto
    then show thesis using fin [of h4] out None by (intro that [of h4]) auto
  next
    case (Some y)
    obtain yn where yn: "h4 y = Some yn" using Y4 Some by (cases Y) auto
    have yY: "y \<in> addrs Y" using ptr_in_addrs [OF Some] .
    let ?h5 = "h4(y \<mapsto> set_parent (Some a) yn)"
    have "rep ?h5 (Some a) Y" using rep_set_parent [OF Y4 Some u(2)] yn by simp
    then have "at (root1, ?h5) Y (g @ Fr RightS m km c l # fs)" using yY by (intro fin) auto
    then show thesis using Some yn yY out by (intro that [of ?h5]) (auto simp: upd_def)
  qed
qed

lemma unlink_far:
  assumes T: "at T (Nd l node k c (plug (Fr LeftS a ka ca B # gs) (Nd Lf m km cm Y))) fs" and l: "ptr l = Some lp"
    and lm: "ptr (plug (Fr LeftS a ka ca B # gs) (Nd Lf m km cm Y)) = Some rp" "tree__leftmost (snd T) rp = Some m"
  shows "\<exists>T1 T2. tree__unlink T node = Some (T1, cm, ptr Y, Some a) \<and> fst T2 = fst T1
    \<and> (case ptr Y of None \<Rightarrow> Some (snd T1) | Some y \<Rightarrow> upd (set_parent (Some a)) (snd T1) y) = Some (snd T2)
    \<and> at T2 Y ((Fr LeftS a ka ca B # gs) @ Fr RightS m km c l # fs)
    \<and> same_outside (insert m (addrs l \<union> addrs Y \<union> faddrs (Fr LeftS a ka ca B # gs) \<union> faddrs fs)) T T2"
proof -
  let ?g = "Fr LeftS a ka ca B # gs"
  obtain root h where Th: "T = (root, h)" by (cases T)
  obtain rp' where f: "ptr (plug ?g (Nd Lf m km cm Y)) = Some rp'"
    "h node = Some \<lparr>left = Some lp, right = Some rp', parent = fptr fs, key = k, red = c\<rparr>"
    "h m = Some \<lparr>left = None, right = ptr Y, parent = gptr (Some node) ?g, key = km, red = cm\<rparr>"
    "rep h (Some node) l" "rep h (Some m) Y" "repg h (Some node) (Some m) ?g" "repc h root (Some node) fs"
    "uniq l" "uniq Y" "funiq ?g" "funiq fs" "lp \<in> addrs l"
    and d: "node \<notin> addrs l" "node \<notin> addrs Y" "node \<notin> faddrs ?g" "node \<notin> faddrs fs" "node \<noteq> m"
      "m \<notin> addrs l" "m \<notin> addrs Y" "m \<notin> faddrs ?g" "m \<notin> faddrs fs" "addrs l \<inter> addrs Y = {}" "addrs l \<inter> faddrs ?g = {}"
      "addrs l \<inter> faddrs fs = {}" "addrs Y \<inter> faddrs ?g = {}" "addrs Y \<inter> faddrs fs = {}" "faddrs ?g \<inter> faddrs fs = {}"
    using two_children_facts [OF T [unfolded Th] l] by blast
  have rp: "rp' = rp" using f(1) lm(1) by simp
  obtain root1 h1 where h1: "relink (root, h) (fptr fs) node (Some m) = Some (root1, h1)" "repc h1 root1 (Some m) fs"
    "\<And>x. x \<notin> faddrs fs \<Longrightarrow> h1 x = h x"
    using relink_spec [OF f(7) d(4) f(11)] by blast
  have e: "h1 node = h node" "h1 m = h m" using h1(3) d by auto
  have rl: "rep h1 (Some node) l" by (rule rep_away [OF f(4)], erule h1(3)) (use d in auto)
  have rY: "rep h1 (Some m) Y" by (rule rep_away [OF f(5)], erule h1(3)) (use d in auto)
  have rg: "repg h1 (Some node) (Some m) ?g" by (rule repg_away [OF f(6)], erule h1(3)) (use d in auto)
  obtain ln where ln: "h1 lp = Some ln" using rl l by (cases l) auto
  have an: "h1 a = Some (node_is LeftS (Some m) (ptr B) (gptr (Some node) gs) ka ca)" using rg by simp
  have rpg: "rp \<in> faddrs ?g" using ptr_plug [of ?g "Nd Lf m km cm Y"] f(1) rp by fastforce
  have ne: "m \<noteq> lp" "node \<noteq> lp" "m \<noteq> a" "lp \<noteq> a" "node \<noteq> a" "m \<noteq> rp" "lp \<noteq> rp" "node \<noteq> rp"
    using d f(12) rpg by auto
  define M where "M = \<lparr>left = Some lp, right = Some rp, parent = fptr fs, key = km, red = c\<rparr>"
  define h2 where "h2 = h1(m \<mapsto> M, lp \<mapsto> set_parent (Some m) ln)"
  define h3 where "h3 = h2(a \<mapsto> node_is LeftS (ptr Y) (ptr B) (gptr (Some node) gs) ka ca)"
  define h4 where "h4 = h3(rp \<mapsto> set_parent (Some m) (the (h3 rp)))"
  have rpn: "h3 rp \<noteq> None"
  proof (cases "rp = a")
    case False
    have "rep h1 (Some node) (plug ?g (Nd Lf m km cm Y))" unfolding rep_plug using rg rY e f(3) by auto
    then have "h1 rp \<noteq> None" using lm(1) by (cases "plug ?g (Nd Lf m km cm Y)") auto
    then show ?thesis using False ne by (simp add: h3_def h2_def)
  qed (simp add: h3_def)
  have run: "tree__unlink T node = Some ((root1, h4), cm, ptr Y, Some a)"
    using f(2,3) h1(1) e lm(2) ln an ne d(5) Th rp rpn
    by (auto simp: tree__unlink_def upd_def Let_def h4_def h3_def h2_def M_def set_red_def set_child_def set_parent_def node_is_def fun_upd_twist)
  have S: "insert m (insert lp (insert a (insert rp (addrs Y)))) \<subseteq> insert m (addrs l \<union> addrs Y \<union> faddrs ?g)"
    using f(12) rpg by auto
  obtain h5 where h5: "(case ptr Y of None \<Rightarrow> Some h4 | Some y \<Rightarrow> upd (set_parent (Some a)) h4 y) = Some h5"
    "at (root1, h5) Y (?g @ Fr RightS m km c l # fs)" "\<And>x. x \<notin> insert m (insert lp (insert a (insert rp (addrs Y)))) \<Longrightarrow> h5 x = h1 x"
    using far_heap [OF refl rl rY rg h1(2) l lm(1) ln M_def h2_def h3_def h4_def f(8-12) d(6-15)] by blast
  have "same_outside (insert m (addrs l \<union> addrs Y \<union> faddrs ?g \<union> faddrs fs)) T (root1, h5)"
  proof -
    have "h5 x = h x" if "x \<notin> insert m (addrs l \<union> addrs Y \<union> faddrs ?g \<union> faddrs fs)" for x
      using h1(3) [of x] h5(3) [of x] S that by auto
    then show ?thesis using Th by (simp add: same_outside_def)
  qed
  then show ?thesis using run h5(1,2) by (metis fst_conv snd_conv)
qed

text \<open>Both cases with the colours: what is missing, and where.\<close>

lemma pok_exchange: "pok n (gs @ Fr s a k c B # fs) \<longleftrightarrow> pok n (gs @ Fr s a' k' c B # fs)"
proof (induction gs arbitrary: n)
  case (Cons f gs)
  have "topred (gs @ Fr s a k c B # fs) = topred (gs @ Fr s a' k' c B # fs)" by (cases gs; cases "hd gs") auto
  with Cons show ?case by (cases f) simp
qed simp

lemma unlink_spec:
  assumes T: "at T (Nd l node k c r) fs" and rb: "rbt (plug fs (Nd l node k c r))"
  shows "\<exists>T1 T2 X gs rd n. tree__unlink T node = Some (T1, rd, ptr X, fptr gs) \<and> fst T2 = fst T1
    \<and> (case ptr X of None \<Rightarrow> Some (snd T1) | Some a \<Rightarrow> upd (set_parent (fptr gs)) (snd T1) a) = Some (snd T2)
    \<and> at T2 X gs \<and> rb X n \<and> (if rd then \<not> isred X \<and> pok n gs else pok (Suc n) gs)
    \<and> (\<exists>xs ys. inord (plug fs (Nd l node k c r)) = xs @ (k, node) # ys \<and> inord (plug gs X) = xs @ ys)
    \<and> same_outside (addrs X \<union> faddrs gs) T T2"
proof -
  obtain pre post where pp: "\<And>t. inord (plug fs t) = pre @ inord t @ post" using inord_plug_ctx [of fs] by blast
  obtain n where n: "rb (Nd l node k c r) n" "pok n fs" using plug_rb rb by (metis rbt_def)
  show ?thesis
  proof (cases "l = Lf \<or> r = Lf")
    case True
    then obtain X where X: "l = Lf \<and> X = r \<or> r = Lf \<and> X = l" by blast
    have io: "inord (plug fs (Nd l node k c r)) = (pre @ inord l) @ (k, node) # (inord r @ post)"
      "inord (plug fs X) = (pre @ inord l) @ (inord r @ post)" using X by (auto simp: pp)
    obtain n2 where n2: "rb X n2" "if c then \<not> isred X \<and> pok n2 fs else pok (Suc n2) fs"
      using n X by (auto split: nat.splits if_splits)
    obtain T1 T2 where u: "tree__unlink T node = Some (T1, c, ptr X, fptr fs)" "fst T2 = fst T1"
      "(case ptr X of None \<Rightarrow> Some (snd T1) | Some a \<Rightarrow> upd (set_parent (fptr fs)) (snd T1) a) = Some (snd T2)"
      "at T2 X fs" "same_outside (addrs X \<union> faddrs fs) T T2"
      using unlink_one [OF T X] by blast
    with n2 io show ?thesis by blast
  next
    case False
    obtain lp rp where lr: "ptr l = Some lp" "ptr r = Some rp" using False by (cases l; cases r) auto
    have "rep (snd T) (Some node) r" using T by (simp add: at_def)
    from leftmost_spec [OF this lr(2)] obtain gs m km cm Y where
      g: "r = plug gs (Nd Lf m km cm Y)" "leftp gs" "tree__leftmost (snd T) rp = Some m" "inord r = (km, m) # inord (plug gs Y)" by blast
    let ?gs = "gs @ Fr RightS m km c l # fs"
    have "plug (gs @ Fr RightS node k c l # fs) (Nd Lf m km cm Y) = plug fs (Nd l node k c r)" by (simp add: g(1) mk_def)
    then obtain n' where n': "rb (Nd Lf m km cm Y) n'" "pok n' ?gs" using plug_rb rb pok_exchange by (metis rbt_def)
    obtain n2 where n2: "rb Y n2" "if cm then \<not> isred Y \<and> pok n2 ?gs else pok (Suc n2) ?gs"
      using n' by (auto split: nat.splits if_splits)
    have io: "inord (plug fs (Nd l node k c r)) = (pre @ inord l) @ (k, node) # (inord r @ post)"
      "inord (plug ?gs Y) = (pre @ inord l) @ (inord r @ post)" using g(4) by (simp_all add: pp mk_def)
    have "\<exists>T1 T2. tree__unlink T node = Some (T1, cm, ptr Y, fptr ?gs) \<and> fst T2 = fst T1
      \<and> (case ptr Y of None \<Rightarrow> Some (snd T1) | Some a \<Rightarrow> upd (set_parent (fptr ?gs)) (snd T1) a) = Some (snd T2)
      \<and> at T2 Y ?gs \<and> same_outside (insert m (addrs l \<union> addrs Y \<union> faddrs gs \<union> faddrs fs)) T T2"
    proof (cases gs)
      case Nil
      then have m: "rp = m" "r = Nd Lf m km cm Y" using lr(2) g(1) by simp_all
      from unlink_adjacent [OF T [unfolded m(2)] lr(1)] g(3) m(1) show ?thesis
        unfolding Nil append_Nil fptr.simps faddrs.simps Un_empty_right by blast
    next
      case (Cons f gs')
      obtain a ka ca B where f: "f = Fr LeftS a ka ca B" using g(2) Cons by (cases f) auto
      then have m: "gs = Fr LeftS a ka ca B # gs'" using Cons by simp
      note r = g(1) [unfolded m]
      from unlink_far [OF T [unfolded r] lr(1) lr(2) [unfolded r] g(3)] show ?thesis
        unfolding m append_Cons fptr.simps by blast
    qed
    then obtain T1 T2 where u: "tree__unlink T node = Some (T1, cm, ptr Y, fptr ?gs)" "fst T2 = fst T1"
      "(case ptr Y of None \<Rightarrow> Some (snd T1) | Some a \<Rightarrow> upd (set_parent (fptr ?gs)) (snd T1) a) = Some (snd T2)"
      "at T2 Y ?gs" "same_outside (insert m (addrs l \<union> addrs Y \<union> faddrs gs \<union> faddrs fs)) T T2" by blast
    have "same_outside (addrs Y \<union> faddrs ?gs) T T2"
      by (rule same_outside_mono [OF u(5)]) (auto simp: faddrs_append)
    with u(1-4) n2 io show ?thesis by blast
  qed
qed

section \<open>The removal\<close>

lemma tree_del_eq:
  assumes u: "tree__unlink T node = Some (T1, rd, ptr X, par)" "fst T2 = fst T1"
    "(case ptr X of None \<Rightarrow> Some (snd T1) | Some a \<Rightarrow> upd (set_parent par) (snd T1) a) = Some (snd T2)" "rep (snd T2) par X"
  shows "tree_del T node = (if rd then Some T2
      else if isred X then do { a \<leftarrow> ptr X; h \<leftarrow> upd (set_red False) (snd T2) a; Some (fst T2, h) }
      else tree__fix_remove T2 (ptr X) par)"
proof -
  obtain r h h2 where T: "T1 = (r, h)" "T2 = (r, h2)" using u(2) by (metis prod.collapse)
  have "(case ptr X of None \<Rightarrow> Some h | Some a \<Rightarrow> upd (set_parent par) h a) = Some h2" using u(3) unfolding T snd_conv .
  then show ?thesis using u(1) is_red_rep [OF u(4)] T by (simp add: tree_del_def)
qed

lemma at_of_addr: "node \<in> addrs t \<Longrightarrow> \<exists>fs l k c r. t = plug fs (Nd l node k c r)"
proof (induction t)
  case (Nd l a k c r)
  consider "node = a" | "node \<in> addrs l" | "node \<in> addrs r" using Nd.prems by auto
  then show ?case
  proof cases
    case 1
    then show ?thesis by (metis plug.simps(1))
  next
    case 2
    then obtain fs l' k' c' r' where "l = plug fs (Nd l' node k' c' r')" using Nd.IH(1) by blast
    then have "Nd l a k c r = plug (fs @ [Fr LeftS a k c r]) (Nd l' node k' c' r')" by (simp add: mk_def)
    then show ?thesis by blast
  next
    case 3
    then obtain fs l' k' c' r' where "r = plug fs (Nd l' node k' c' r')" using Nd.IH(2) by blast
    then have "Nd l a k c r = plug (fs @ [Fr RightS a k c l]) (Nd l' node k' c' r')" by (simp add: mk_def)
    then show ?thesis by blast
  qed
qed simp

text \<open>The tree without the node, in every case of the colours.\<close>

lemma remove_colour:
  assumes T: "at T2 X gs" and rb: "rb X n" "if rd then \<not> isred X \<and> pok n gs else pok (Suc n) gs"
  shows "\<exists>T' t'. (if rd then Some T2
      else if isred X then do { a \<leftarrow> ptr X; h \<leftarrow> upd (set_red False) (snd T2) a; Some (fst T2, h) }
      else tree__fix_remove T2 (ptr X) (fptr gs)) = Some T'
    \<and> at T' t' [] \<and> rbt t' \<and> inord t' = inord (plug gs X) \<and> same_outside (addrs X \<union> faddrs gs) T2 T'"
proof -
  have rbt: "rbt (plug gs X')" if "rb X' m" "pok m gs" "\<not> isred X'" for X' m
    using rb_plug [OF that(1,2)] that(3) by (cases "gs = []") (auto simp: rbt_def)
  consider rd | "\<not> rd" "isred X" | "\<not> rd" "\<not> isred X" by blast
  then show ?thesis
  proof cases
    case 1
    then show ?thesis using T rb rbt at_root by (metis same_outside_refl)
  next
    case 2
    then obtain A a k B where X: "X = mk LeftS A a k True B" by (cases rule: mk_cases [where t = X and s = LeftS]) auto
    let ?X = "mk LeftS A a k False B"
    obtain h where h: "upd (set_red False) (snd T2) a = Some h" "at (fst T2, h) ?X gs" "same_outside {a} T2 (fst T2, h)"
      using set_red_at [of T2 LeftS A a k True B gs False] T X by blast
    have "rb ?X (Suc n)" using rb(1) X by simp
    then have "rbt (plug gs ?X)" using rbt rb(2) 2 by fastforce
    moreover have "inord (plug gs ?X) = inord (plug gs X)" by (rule inord_plug_cong) (simp add: X inord_mk)
    moreover have "at (fst T2, h) (plug gs ?X) []" using h(2) at_root by blast
    moreover have "same_outside (addrs X \<union> faddrs gs) T2 (fst T2, h)" by (rule same_outside_mono [OF h(3)]) (simp add: X)
    ultimately show ?thesis using 2 h(1) X by auto
  next
    case 3
    then show ?thesis using fix_remove_spec [OF T rb(1)] rb(2) by auto
  qed
qed

lemma uniq_inord: "uniq t \<Longrightarrow> distinct (map snd (inord t))"
  by (induction t) (auto simp: inord_addrs)

lemma tree_del_spec:
  assumes T: "tree_rep T kvs" and node: "(k, node) \<in> set kvs"
  shows "\<exists>T' xs ys. tree_del T node = Some T' \<and> kvs = xs @ (k, node) # ys \<and> tree_rep T' (xs @ ys)
    \<and> same_outside (snd ` set (xs @ ys)) T T'"
proof -
  obtain t where t: "at T t []" "rbt t" "ordered t" "inord t = kvs" using T by (auto simp: tree_rep_def)
  have "node \<in> addrs t" using node t(4) by (force simp: inord_addrs)
  then obtain fs l k' c r where tp: "t = plug fs (Nd l node k' c r)" using at_of_addr by metis
  have T0: "at T (Nd l node k' c r) fs" using t(1) tp at_root by metis
  obtain T1 T2 X gs rd n xs ys where u: "tree__unlink T node = Some (T1, rd, ptr X, fptr gs)" "fst T2 = fst T1"
    "(case ptr X of None \<Rightarrow> Some (snd T1) | Some a \<Rightarrow> upd (set_parent (fptr gs)) (snd T1) a) = Some (snd T2)"
    "at T2 X gs" "rb X n" "if rd then \<not> isred X \<and> pok n gs else pok (Suc n) gs"
    "kvs = xs @ (k', node) # ys" "inord (plug gs X) = xs @ ys" "same_outside (addrs X \<union> faddrs gs) T T2"
    using unlink_spec [OF T0] t(2,4) tp by metis
  have "rep (snd T2) (fptr gs) X" using u(4) by (simp add: at_def)
  with tree_del_eq [OF u(1-3)] remove_colour [OF u(4-6)] obtain T' t' where
    r: "tree_del T node = Some T'" "at T' t' []" "rbt t'" "inord t' = xs @ ys" "same_outside (addrs X \<union> faddrs gs) T2 T'"
    using u(8) by metis
  have o: "ordered t'" using t(3,4) u(7) r(4) by (simp add: ordered_def sorted_wrt_append)
  have "addrs X \<union> faddrs gs = snd ` set (xs @ ys)" using u(8) inord_addrs addrs_plug by metis
  then have out: "same_outside (snd ` set (xs @ ys)) T T'"
    using same_outside_trans [OF u(9) r(5)] by simp
  have "k' = k"
  proof -
    have "node \<notin> snd ` set (xs @ ys)"
      using T0 t(1) u(7) uniq_inord [of t] t(4) by (auto simp: at_def)
    then have "(k, node) \<notin> set xs" "(k, node) \<notin> set ys" by force+
    then show ?thesis using node u(7) by simp
  qed
  then show ?thesis using r(1-4) o u(7) out by (auto simp: tree_rep_def)
qed

section \<open>The interface\<close>

text \<open>A sequence of insertions and removals; a removal looks the key up first, as the callers do.\<close>

datatype 'a tree_op = Add 'a u64 | Del u64

fun run_op :: "('t \<Rightarrow> 'a \<Rightarrow> u64 \<Rightarrow> (int \<times> 't) option) \<Rightarrow> ('t \<Rightarrow> 'a \<Rightarrow> 't option) \<Rightarrow> ('t \<Rightarrow> u64 \<Rightarrow> 'a option option)
    \<Rightarrow> 't \<Rightarrow> 'a tree_op \<Rightarrow> 't option" where
  "run_op add del fnd T (Add node k) = map_option snd (add T node k)"
| "run_op add del fnd T (Del k) = do {
     r \<leftarrow> fnd T k;
     (case r of None \<Rightarrow> Some T | Some node \<Rightarrow> del T node)
   }"

fun run_ops :: "('t \<Rightarrow> 'a \<Rightarrow> u64 \<Rightarrow> (int \<times> 't) option) \<Rightarrow> ('t \<Rightarrow> 'a \<Rightarrow> 't option) \<Rightarrow> ('t \<Rightarrow> u64 \<Rightarrow> 'a option option)
    \<Rightarrow> 't \<Rightarrow> 'a tree_op list \<Rightarrow> 't option" where
  "run_ops add del fnd T [] = Some T"
| "run_ops add del fnd T (p # ps) = do { T \<leftarrow> run_op add del fnd T p; run_ops add del fnd T ps }"

text \<open>The same on maps.\<close>

fun map_op :: "(u64 \<Rightarrow> 'a option) \<Rightarrow> 'a tree_op \<Rightarrow> u64 \<Rightarrow> 'a option" where
  "map_op m (Add node k) = (if m k = None then m(k \<mapsto> node) else m)"
| "map_op m (Del k) = m(k := None)"

text \<open>A node is only inserted while it is in no tree.\<close>

fun fresh_ops :: "('a \<Rightarrow> bool) \<Rightarrow> (u64 \<Rightarrow> 'a option) \<Rightarrow> 'a tree_op list \<Rightarrow> bool" where
  "fresh_ops al m [] \<longleftrightarrow> True"
| "fresh_ops al m (p # ps) \<longleftrightarrow> (case p of Add node k \<Rightarrow> al node \<and> node \<notin> ran m | Del k \<Rightarrow> True) \<and> fresh_ops al (map_op m p) ps"

locale node_index =
  fixes ok :: "'t \<Rightarrow> (u64 \<Rightarrow> 'a option) \<Rightarrow> bool"
    and alloc :: "'t \<Rightarrow> 'a \<Rightarrow> bool"
    and add :: "'t \<Rightarrow> 'a \<Rightarrow> u64 \<Rightarrow> (int \<times> 't) option"
    and del :: "'t \<Rightarrow> 'a \<Rightarrow> 't option"
    and fnd :: "'t \<Rightarrow> u64 \<Rightarrow> 'a option option"
  assumes find_law: "ok T m \<Longrightarrow> fnd T k = Some (m k)"
    and add_law: "ok T m \<Longrightarrow> m k = None \<Longrightarrow> node \<notin> ran m \<Longrightarrow> alloc T node \<Longrightarrow>
      \<exists>T'. add T node k = Some (0, T') \<and> ok T' (m(k \<mapsto> node)) \<and> alloc T' = alloc T"
    and add_exists: "ok T m \<Longrightarrow> m k \<noteq> None \<Longrightarrow> node \<notin> ran m \<Longrightarrow> alloc T node \<Longrightarrow> add T node k = Some (-1, T)"
    and del_law: "ok T m \<Longrightarrow> m k = Some node \<Longrightarrow> \<exists>T'. del T node = Some T' \<and> ok T' (m(k := None)) \<and> alloc T' = alloc T"
begin

lemma run_op_spec:
  assumes "ok T m" "fresh_ops (alloc T) m [p]"
  shows "\<exists>T'. run_op add del fnd T p = Some T' \<and> ok T' (map_op m p) \<and> alloc T' = alloc T"
proof (cases p)
  case (Add node k)
  then show ?thesis
    using assms add_law [of T m k node] add_exists [of T m k node] by (cases "m k = None") auto
next
  case (Del k)
  then show ?thesis
    using assms find_law [OF assms(1), of k] del_law [OF assms(1), of k]
    by (cases "m k") (auto simp: fun_upd_idem)
qed

lemma run_ops_spec:
  assumes "ok T m" "fresh_ops (alloc T) m ps"
  shows "\<exists>T'. run_ops add del fnd T ps = Some T' \<and> ok T' (foldl map_op m ps)"
  using assms
proof (induction ps arbitrary: T m)
  case Nil
  then show ?case by simp
next
  case (Cons p ps)
  obtain T1 where T1: "run_op add del fnd T p = Some T1" "ok T1 (map_op m p)" "alloc T1 = alloc T"
    using run_op_spec [OF Cons.prems(1), of p] Cons.prems(2) by auto
  then show ?case using Cons.IH [OF T1(2)] Cons.prems(2) by auto
qed

end

definition tree_map :: "'a tree \<Rightarrow> (u64 \<Rightarrow> 'a option) \<Rightarrow> bool" where
  "tree_map T m \<longleftrightarrow> (\<exists>kvs. tree_rep T kvs \<and> m = map_of kvs)"

definition tree_alloc :: "'a tree \<Rightarrow> 'a \<Rightarrow> bool" where
  "tree_alloc T x \<longleftrightarrow> snd T x \<noteq> None"

lemma tree_rep_keys: "tree_rep T kvs \<Longrightarrow> distinct (map fst kvs) \<and> ran (map_of kvs) = snd ` set kvs \<and> (\<forall>x \<in> snd ` set kvs. snd T x \<noteq> None)"
proof -
  assume "tree_rep T kvs"
  then obtain t where t: "at T t []" "ordered t" "inord t = kvs" by (auto simp: tree_rep_def)
  then have d: "distinct (map fst kvs)" using strict_sorted_iff by (auto simp: ordered_def)
  have a: "x \<in> addrs t \<Longrightarrow> rep h par t \<Longrightarrow> h x \<noteq> None" for x h par t by (induction t arbitrary: par) auto
  have "rep (snd T) None t" using t by (simp add: at_def)
  moreover have "addrs t = snd ` set kvs" using t(3) inord_addrs [of t] by simp
  ultimately have "\<forall>x \<in> snd ` set kvs. snd T x \<noteq> None" using a [of _ t "snd T" None] by metis
  then show ?thesis using d ran_distinct [OF d] by simp
qed

lemma same_outside_alloc:
  assumes "same_outside S T T'" "\<forall>x \<in> S. snd T x \<noteq> None" "\<forall>x \<in> S. snd T' x \<noteq> None"
  shows "tree_alloc T' = tree_alloc T"
  using assms by (fastforce simp: tree_alloc_def same_outside_def fun_eq_iff)

lemma map_of_remove:
  assumes "distinct (map fst (xs @ (k, v) # ys))"
  shows "map_of (xs @ ys) = (map_of (xs @ (k, v) # ys))(k := None)"
proof -
  have "map_of xs k = None" "map_of ys k = None" using assms by (auto simp: map_of_eq_None_iff)
  then show ?thesis by (auto simp: fun_eq_iff map_add_def split: option.splits)
qed

interpretation rbi: node_index tree_map tree_alloc tree_add tree_del tree_find
proof unfold_locales
  fix T :: "'a tree" and m k node
  assume "tree_map T m"
  then obtain kvs where kvs: "tree_rep T kvs" "m = map_of kvs" by (auto simp: tree_map_def)
  note kk = tree_rep_keys [OF kvs(1)]
  show "tree_find T k = Some (m k)" using tree_find_spec [OF kvs(1)] kvs(2) by simp
  show "\<exists>T'. tree_add T node k = Some (0, T') \<and> tree_map T' (m(k \<mapsto> node)) \<and> tree_alloc T' = tree_alloc T"
    if new: "m k = None" "node \<notin> ran m" "tree_alloc T node"
  proof -
    have "k \<notin> fst ` set kvs" "node \<notin> snd ` set kvs" using new kvs(2) kk by (auto simp: map_of_eq_None_iff)
    then obtain T' xs ys where r: "tree_add T node k = Some (0, T')" "kvs = xs @ ys" "tree_rep T' (xs @ (k, node) # ys)"
      "map_of (xs @ (k, node) # ys) = (map_of kvs)(k \<mapsto> node)" "same_outside (insert node (snd ` set kvs)) T T'"
      using tree_add_spec [OF kvs(1), of node k] new(3) by (auto simp: tree_alloc_def)
    have "tree_alloc T' = tree_alloc T"
      by (rule same_outside_alloc [OF r(5)]) (use kk new(3) tree_rep_keys [OF r(3)] r(2) in \<open>auto simp: tree_alloc_def\<close>)
    then show ?thesis using r kvs(2) by (auto simp: tree_map_def)
  qed
  show "tree_add T node k = Some (-1, T)" if "m k \<noteq> None" "node \<notin> ran m" "tree_alloc T node"
    using tree_add_spec [OF kvs(1), of node k] that kvs(2) kk by (auto simp: map_of_eq_None_iff tree_alloc_def)
  show "\<exists>T'. tree_del T node = Some T' \<and> tree_map T' (m(k := None)) \<and> tree_alloc T' = tree_alloc T" if "m k = Some node"
  proof -
    have "(k, node) \<in> set kvs" using that kvs(2) map_of_SomeD by metis
    from tree_del_spec [OF kvs(1) this] obtain T' xs ys where r: "tree_del T node = Some T'" "kvs = xs @ (k, node) # ys"
      "tree_rep T' (xs @ ys)" "same_outside (snd ` set (xs @ ys)) T T'" by blast
    have "tree_alloc T' = tree_alloc T"
      by (rule same_outside_alloc [OF r(4)]) (use kk tree_rep_keys [OF r(3)] r(2) in auto)
    moreover have "map_of (xs @ ys) = m(k := None)"
      using kk kvs(2) r(2) map_of_remove [of xs k node ys] by simp
    ultimately show ?thesis using r(1,3) by (auto simp: tree_map_def)
  qed
qed

section \<open>Properties\<close>

text \<open>
  C8: a tree is a map from keys to nodes: after any sequence of insertions and removals,
  in which a node is inserted only while it is not in the tree, every operation has returned
  without a fault, and a lookup finds what the same operations on a map give.
\<close>

theorem tree_is_map:
  assumes "fresh_ops (\<lambda>x. h x \<noteq> None) Map.empty ps"
  shows "\<exists>T. run_ops tree_add tree_del tree_find (tree_init h) ps = Some T
    \<and> (\<forall>k. tree_find T k = Some (foldl map_op Map.empty ps k))"
proof -
  have ok: "tree_map (tree_init h) Map.empty" using tree_init_rep [of h] by (auto simp: tree_map_def intro: exI [of _ "[]"])
  have al: "tree_alloc (tree_init h) = (\<lambda>x. h x \<noteq> None)" by (auto simp: tree_alloc_def tree_init_def)
  show ?thesis using rbi.run_ops_spec [OF ok, of ps] rbi.find_law assms al by metis
qed

theorem tree_is_map_witness:
  "\<exists>T. run_ops tree_add tree_del tree_find (tree_init (\<lambda>x :: nat. Some null_tree_node))
      [Add 1 30, Add 2 10, Add 3 20, Del 30, Add 4 20] = Some T
    \<and> tree_find T 10 = Some (Some 2) \<and> tree_find T 20 = Some (Some 3) \<and> tree_find T 30 = Some None"
  using tree_is_map [of "\<lambda>x :: nat. Some null_tree_node" "[Add 1 30, Add 2 10, Add 3 20, Del 30, Add 4 20]"]
  by auto

fun height :: "'a ptree \<Rightarrow> nat" where
  "height Lf = 0"
| "height (Nd l a k c r) = Suc (max (height l) (height r))"

lemma rb_height: "rb t n \<Longrightarrow> height t \<le> (if isred t then Suc (2 * n) else 2 * n)"
proof (induction t arbitrary: n)
  case (Nd l a k c r)
  show ?case
  proof (cases c)
    case True
    then have "height l \<le> 2 * n" "height r \<le> 2 * n" using Nd.IH [of n] Nd.prems by (auto split: if_splits)
    then show ?thesis using True by simp
  next
    case False
    then obtain m where m: "n = Suc m" "rb l m" "rb r m" using Nd.prems by (auto split: nat.splits)
    then have "height l \<le> Suc (2 * m)" "height r \<le> Suc (2 * m)" using Nd.IH [of m] by (auto split: if_splits)
    then show ?thesis using False m(1) by simp
  qed
qed simp

lemma rb_size: "rb t n \<Longrightarrow> 2 ^ n \<le> length (inord t) + 1"
proof (induction t arbitrary: n)
  case (Nd l a k c r)
  show ?case
  proof (cases c)
    case True
    then show ?thesis using Nd.IH(1) [of n] Nd.prems by (auto split: if_splits)
  next
    case False
    then obtain m where m: "n = Suc m" "rb l m" "rb r m" using Nd.prems by (auto split: nat.splits)
    then show ?thesis using Nd.IH [of m] by simp
  qed
qed simp

lemma rep_unique: "rep h par t \<Longrightarrow> rep h par' t' \<Longrightarrow> ptr t = ptr t' \<Longrightarrow> t = t'"
proof (induction t arbitrary: par par' t')
  case Lf
  then show ?case by (cases t') auto
next
  case (Nd l a k c r)
  obtain l' k' c' r' where t': "t' = Nd l' a k' c' r'" using Nd.prems(3) by (cases t') auto
  then have "ptr l = ptr l'" "ptr r = ptr r'" using Nd.prems(1,2) by auto
  then show ?case using Nd.IH(1) [of "Some a" "Some a" l'] Nd.IH(2) [of "Some a" "Some a" r'] Nd.prems t' by auto
qed

text \<open>
  C40: the trees stay balanced: whatever operations built it, a tree with \<open>n\<close> nodes has a
  height of at most \<open>2 log (n + 1)\<close>, so that a lookup descends at most that many levels.
\<close>

theorem tree_balanced:
  assumes "fresh_ops (\<lambda>x. h x \<noteq> None) Map.empty ps"
    and "run_ops tree_add tree_del tree_find (tree_init h) ps = Some T" "at T t []"
  shows "2 ^ (height t div 2) \<le> card (dom (foldl map_op Map.empty ps)) + 1"
proof -
  have ok: "tree_map (tree_init h) Map.empty" using tree_init_rep [of h] by (auto simp: tree_map_def intro: exI [of _ "[]"])
  have al: "tree_alloc (tree_init h) = (\<lambda>x. h x \<noteq> None)" by (auto simp: tree_alloc_def tree_init_def)
  have "tree_map T (foldl map_op Map.empty ps)" using rbi.run_ops_spec [OF ok, of ps] assms(1,2) al by auto
  then obtain kvs where kvs: "tree_rep T kvs" "foldl map_op Map.empty ps = map_of kvs" by (auto simp: tree_map_def)
  then obtain t' n where t': "at T t' []" "rb t' n" "\<not> isred t'" "inord t' = kvs" by (auto simp: tree_rep_def rbt_def)
  have "t' = t" using t'(1) assms(3) rep_unique by (auto simp: at_def)
  then have "height t div 2 \<le> n" using rb_height [OF t'(2)] t'(3) by auto
  then have "2 ^ (height t div 2) \<le> (2 :: nat) ^ n" by simp
  also have "\<dots> \<le> length kvs + 1" using rb_size [OF t'(2)] t'(4) by simp
  also have "length kvs = card (dom (map_of kvs))"
    using tree_rep_keys [OF kvs(1)] by (simp add: dom_map_of_conv_image_fst distinct_card flip: set_map)
  finally show ?thesis using kvs(2) by simp
qed

theorem tree_balanced_witness:
  "\<exists>T t. run_ops tree_add tree_del tree_find (tree_init (\<lambda>x :: nat. Some null_tree_node)) [Add 1 30] = Some T
    \<and> at T t [] \<and> 2 ^ (height t div 2) \<le> card (dom (foldl map_op Map.empty [Add (1 :: nat) 30])) + 1"
proof -
  let ?h = "\<lambda>x :: nat. Some null_tree_node" and ?ps = "[Add (1 :: nat) 30]"
  let ?T = "(Some 1, ?h(1 \<mapsto> \<lparr>left = None, right = None, parent = None, key = 30, red = False\<rparr>))"
  have run: "run_ops tree_add tree_del tree_find (tree_init ?h) ?ps = Some ?T"
    by (simp add: tree_init_def tree_add_def upd_def tree__fix_insert.simps null_tree_node_def set_red_def)
  have at: "at ?T (Nd Lf 1 30 False Lf) []" by (simp add: at_def)
  show ?thesis using tree_balanced [OF _ run at] run at by fastforce
qed

end
