(* ===== verification/WepollSocks.thy ===== *)
theory WepollSocks
  imports WepollGroups WepollTreeMap
begin

text \<open>
  The sockets of a port: every socket that is allocated is registered in the tree under its key,
  or it is deleted and waits in the queue of deleted sockets for its request to complete. The
  lemmas say what the operations on one socket keep of this.
\<close>

section \<open>The invariant of the sockets\<close>

definition members :: "port_state \<Rightarrow> nat \<Rightarrow> nat" where
  "members s g = card {a. \<exists>k. socks s a = Some k \<and> poll_group k = g}"

text \<open>
  \<open>U\<close> and \<open>D\<close> are the sockets in the update queue and in the queue of deleted sockets, \<open>m\<close> maps the
  keys to the registered sockets. The sockets of \<open>X\<close> are in the middle of a deletion: they need
  not be in the queue of deleted sockets yet.
\<close>

definition sock_ok :: "nat set \<Rightarrow> nat list \<Rightarrow> (u64 \<Rightarrow> nat option) \<Rightarrow> nat \<Rightarrow> sock_state \<Rightarrow> bool" where
  "sock_ok X D m a k \<longleftrightarrow> (a \<in> ran m \<longleftrightarrow> \<not> delete_pending k) \<and> (delete_pending k \<longrightarrow> a \<in> X \<or> a \<in> set D)
     \<and> (poll_status k \<noteq> SOCK__POLL_PENDING \<longrightarrow> pending_events k = 0)"

definition links_ok :: "port_state \<Rightarrow> nat list \<Rightarrow> nat list \<Rightarrow> bool" where
  "links_ok s U D \<longleftrightarrow> is_queue (queues s) UpdateQ (map SockN U) \<and> is_queue (queues s) DeletedQ (map SockN D)
     \<and> (\<forall>a. socks s a \<noteq> None \<and> a \<notin> set U \<and> a \<notin> set D \<longrightarrow> detached (queues s) (SockN a))"

definition index_ok :: "port_state \<Rightarrow> (u64 \<Rightarrow> nat option) \<Rightarrow> bool" where
  "index_ok s m \<longleftrightarrow> tree_map (sock_tree s) m \<and> tree_alloc (sock_tree s) = (\<lambda>a. socks s a \<noteq> None) \<and> inj_on m (dom m)"

definition socks_ok :: "nat set \<Rightarrow> port_state \<Rightarrow> nat list \<Rightarrow> nat list \<Rightarrow> (u64 \<Rightarrow> nat option) \<Rightarrow> bool" where
  "socks_ok X s U D m \<longleftrightarrow> links_ok s U D \<and> index_ok s m
     \<and> (\<forall>a k. socks s a = Some k \<longrightarrow> sock_ok X D m a k)
     \<and> set U \<subseteq> ran m \<and> (\<forall>a \<in> set D. \<exists>k. socks s a = Some k \<and> delete_pending k) \<and> ran m \<subseteq> dom (socks s)
     \<and> finite (dom (socks s)) \<and> (\<forall>a. socks s a \<noteq> None \<longrightarrow> a < brk s)"

text \<open>What the operations on sockets leave alone.\<close>

definition socks_only :: "port_state \<Rightarrow> port_state \<Rightarrow> bool" where
  "socks_only s s' \<longleftrightarrow> iocp_handle s' = iocp_handle s \<and> groups s' = groups s
     \<and> active_poll_count s' = active_poll_count s \<and> brk s \<le> brk s'
     \<and> (\<forall>n. n = GroupQ \<or> n \<in> range GroupN \<longrightarrow> queues s' n = queues s n)"

lemma socks_only_trans: "socks_only s s1 \<Longrightarrow> socks_only s1 s2 \<Longrightarrow> socks_only s s2"
  by (auto simp: socks_only_def)

lemma socks_only_core:
  assumes "core s' = core s"
  shows "socks_only s s'"
  by (simp add: socks_only_def core_fields [OF assms])

lemma socks_ok_core:
  assumes "core s' = core s"
  shows "socks_ok X s' U D m = socks_ok X s U D m" "members s' = members s"
  by (auto simp: socks_ok_def links_ok_def index_ok_def members_def core_fields [OF assms])

lemma groups_ok_socks_only:
  assumes "groups_ok s G c" "socks_only s s'"
  shows "groups_ok s' G c"
proof -
  have "is_queue (queues s') GroupQ (map GroupN G)"
    by (rule is_queue_frame [of "queues s"]) (use assms in \<open>auto simp: groups_ok_def socks_only_def\<close>)
  then show ?thesis using assms by (auto simp: groups_ok_def socks_only_def)
qed

lemma socks_ok_groups_only:
  assumes "socks_ok X s U D m" "groups_only s s'"
  shows "socks_ok X s' U D m" "members s' = members s"
proof -
  have f: "socks s' = socks s" "sock_tree s' = sock_tree s" "brk s \<le> brk s'"
    "\<And>a. queues s' (SockN a) = queues s (SockN a)" "queues s' UpdateQ = queues s UpdateQ" "queues s' DeletedQ = queues s DeletedQ"
    using assms(2) by (auto simp: groups_only_def)
  have l: "links_ok s U D" using assms(1) by (simp add: socks_ok_def)
  have "is_queue (queues s') UpdateQ (map SockN U)"
    by (rule is_queue_frame [of "queues s"]) (use l f in \<open>auto simp: links_ok_def\<close>)
  moreover have "is_queue (queues s') DeletedQ (map SockN D)"
    by (rule is_queue_frame [of "queues s"]) (use l f in \<open>auto simp: links_ok_def\<close>)
  ultimately have "links_ok s' U D" using l f by (auto simp: links_ok_def detached_def)
  then show "socks_ok X s' U D m"
    using assms(1) f by (auto simp: socks_ok_def index_ok_def less_le_trans)
  show "members s' = members s" by (auto simp: members_def f)
qed

section \<open>Fields of a socket\<close>

lemma upd_sock_eq: "socks s a = Some k \<Longrightarrow> upd_sock f a s = Some (s\<lparr>socks := (socks s)(a \<mapsto> f k)\<rparr>)"
  by (simp add: upd_sock_def)

lemma socks_ok_upd:
  assumes "socks_ok X s U D m" "socks s a = Some k" "delete_pending k' = delete_pending k"
    "poll_status k' \<noteq> SOCK__POLL_PENDING \<longrightarrow> pending_events k' = 0"
  shows "socks_ok X (s\<lparr>socks := (socks s)(a \<mapsto> k')\<rparr>) U D m"
  using assms by (auto simp: socks_ok_def links_ok_def index_ok_def sock_ok_def insert_absorb)

lemma members_upd:
  assumes "socks s a = Some k" "poll_group k' = poll_group k" "socks s' = (socks s)(a \<mapsto> k')"
  shows "members s' = members s"
proof
  fix g
  have "{b. \<exists>x. socks s' b = Some x \<and> poll_group x = g} = {b. \<exists>x. socks s b = Some x \<and> poll_group x = g}"
    using assms by auto
  then show "members s' g = members s g" by (simp add: members_def)
qed

lemma socks_only_fields [simp]:
  "socks_only s (s\<lparr>socks := k\<rparr>)" "socks_only s (s\<lparr>sock_tree := t\<rparr>)" "socks_only s (s\<lparr>in_flight := f\<rparr>)"
  by (auto simp: socks_only_def)

section \<open>The queues of sockets\<close>

text \<open>Two queues of sockets next to each other: one is changed, the other is not.\<close>

lemma two_queues_append:
  assumes q: "is_queue h P (map SockN U)" "is_queue h Q (map SockN D)" and d: "set U \<inter> set D = {}" "P \<noteq> Q"
      "\<forall>x. P \<noteq> SockN x" "\<forall>x. Q \<noteq> SockN x" and a: "a \<notin> set U" "a \<notin> set D" "h (SockN a) \<noteq> None"
  shows "\<exists>h'. queue_append h P (SockN a) = Some h' \<and> is_queue h' P (map SockN (U @ [a])) \<and> is_queue h' Q (map SockN D)
    \<and> (\<forall>y. y \<noteq> P \<and> y \<notin> SockN ` set U \<and> y \<noteq> SockN a \<longrightarrow> h' y = h y)"
proof -
  have "SockN a \<notin> set (P # map SockN U)" using a d by auto
  then obtain h' where h': "queue_append h P (SockN a) = Some h'" "is_queue h' P (map SockN U @ [SockN a])"
    "\<forall>y. y \<notin> set (P # SockN a # map SockN U) \<longrightarrow> h' y = h y"
    using queue_append_spec [OF q(1) _ a(3)] by blast
  moreover have "is_queue h' Q (map SockN D)"
    by (rule is_queue_frame [OF q(2)]) (use h'(3) d a in \<open>auto simp: disjoint_iff\<close>)
  ultimately show ?thesis by auto
qed

lemma two_queues_remove:
  assumes q: "is_queue h P (map SockN U)" "is_queue h Q (map SockN D)" and d: "set U \<inter> set D = {}" "P \<noteq> Q"
      "\<forall>x. P \<noteq> SockN x" "\<forall>x. Q \<noteq> SockN x" and a: "a \<in> set U"
  shows "\<exists>h'. queue_remove h (SockN a) = Some h' \<and> is_queue h' P (map SockN (remove1 a U)) \<and> is_queue h' Q (map SockN D)
    \<and> detached h' (SockN a) \<and> (\<forall>y. y \<noteq> P \<and> y \<notin> SockN ` set U \<longrightarrow> h' y = h y)"
proof -
  have "SockN a \<in> set (map SockN U)" using a by simp
  then obtain h' where h': "queue_remove h (SockN a) = Some h'" "is_queue h' P (remove1 (SockN a) (map SockN U))"
    "detached h' (SockN a)" "\<forall>y. y \<notin> set (P # map SockN U) \<longrightarrow> h' y = h y"
    using queue_remove_spec [OF q(1)] by blast
  moreover have "is_queue h' Q (map SockN D)"
    by (rule is_queue_frame [OF q(2)]) (use h'(4) d a in \<open>auto simp: disjoint_iff\<close>)
  moreover have "remove1 (SockN a) (map SockN U) = map SockN (remove1 a U)"
    by (rule map_remove1_inj [symmetric]) (simp add: inj_on_def)
  ultimately show ?thesis by auto
qed

lemma links_disjoint: "socks_ok X s U D m \<Longrightarrow> a \<in> ran m \<Longrightarrow> a \<notin> set D"
  unfolding socks_ok_def sock_ok_def by (metis domD subsetD)

lemma queues_disjoint: "socks_ok X s U D m \<Longrightarrow> set U \<inter> set D = {}"
  using links_disjoint [of X s U D m] by (auto simp: socks_ok_def)

lemma queues_distinct:
  assumes "socks_ok X s U D m"
  shows "distinct U" "distinct D"
  using assms by (auto simp: socks_ok_def links_ok_def is_queue_def distinct_map)

lemma sock_node: "socks_ok X s U D m \<Longrightarrow> socks s a \<noteq> None \<Longrightarrow> queues s (SockN a) \<noteq> None"
  unfolding socks_ok_def links_ok_def detached_def
  by (metis is_queue_allocated list.set_intros(2) list.set_map image_eqI option.distinct(1))

lemma enqueued_iff:
  assumes "socks_ok X s U D m" "socks s a \<noteq> None"
  shows "queue_is_enqueued (queues s) (SockN a) = Some (a \<in> set U \<or> a \<in> set D)"
proof -
  have l: "links_ok s U D" using assms(1) by (simp add: socks_ok_def)
  then have q: "is_queue (queues s) UpdateQ (map SockN U)" "is_queue (queues s) DeletedQ (map SockN D)"
    by (auto simp: links_ok_def)
  consider "a \<in> set U" | "a \<in> set D" | "a \<notin> set U" "a \<notin> set D" by blast
  then show ?thesis
  proof cases
    case 3
    then have "detached (queues s) (SockN a)" using l assms(2) by (simp add: links_ok_def)
    then show ?thesis using 3 by (simp add: queue_is_enqueued_detached)
  qed (use queue_is_enqueued_elem [OF q(1), of "SockN a"] queue_is_enqueued_elem [OF q(2), of "SockN a"] in auto)
qed

lemma socks_ok_links:
  assumes "socks_ok X s U D m" "links_ok (s\<lparr>queues := q\<rparr>) U' D'" "set U' \<subseteq> ran m"
    "\<And>a k. socks s a = Some k \<Longrightarrow> delete_pending k \<Longrightarrow> a \<in> Y \<or> a \<in> set D'"
    "\<And>a. a \<in> set D' \<Longrightarrow> \<exists>k. socks s a = Some k \<and> delete_pending k"
  shows "socks_ok Y (s\<lparr>queues := q\<rparr>) U' D' m"
  using assms unfolding socks_ok_def sock_ok_def index_ok_def by (auto 4 3)

lemma port_request_socket_update_spec:
  assumes ok: "socks_ok X s U D m" and a: "a \<in> ran m"
  shows "\<exists>q U'. port_request_socket_update a s = Some (s\<lparr>queues := q\<rparr>) \<and> socks_ok X (s\<lparr>queues := q\<rparr>) U' D m
    \<and> socks_only s (s\<lparr>queues := q\<rparr>) \<and> set U' = insert a (set U)"
proof -
  have aD: "a \<notin> set D" "socks s a \<noteq> None" using links_disjoint [OF ok a] ok a by (auto simp: socks_ok_def)
  note e = enqueued_iff [OF ok aD(2)]
  have l: "links_ok s U D" using ok by (simp add: socks_ok_def)
  show ?thesis
  proof (cases "a \<in> set U")
    case True
    then show ?thesis using e ok by (intro exI [of _ "queues s"] exI [of _ U])
        (auto simp: port_request_socket_update_def socks_only_def)
  next
    case False
    obtain q where q: "queue_append (queues s) UpdateQ (SockN a) = Some q" "is_queue q UpdateQ (map SockN (U @ [a]))"
      "is_queue q DeletedQ (map SockN D)" "\<forall>y. y \<noteq> UpdateQ \<and> y \<notin> SockN ` set U \<and> y \<noteq> SockN a \<longrightarrow> q y = queues s y"
      using two_queues_append [of "queues s" UpdateQ U DeletedQ D a] queues_disjoint [OF ok] False aD(1) sock_node [OF ok aD(2)] l
      by (auto simp: links_ok_def)
    then have "links_ok (s\<lparr>queues := q\<rparr>) (U @ [a]) D" using l by (auto simp: links_ok_def detached_def)
    then have "socks_ok X (s\<lparr>queues := q\<rparr>) (U @ [a]) D m"
      by (rule socks_ok_links [OF ok]) (use ok a in \<open>auto simp: socks_ok_def sock_ok_def\<close>)
    moreover have "socks_only s (s\<lparr>queues := q\<rparr>)" using q(4) by (auto simp: socks_only_def)
    ultimately show ?thesis using e False aD(1) q(1)
      by (intro exI [of _ q] exI [of _ "U @ [a]"]) (auto simp: port_request_socket_update_def on_queues_def)
  qed
qed

lemma port_cancel_socket_update_spec:
  assumes ok: "socks_ok X s U D m" and a: "a \<in> ran m"
  shows "\<exists>q. port_cancel_socket_update a s = Some (s\<lparr>queues := q\<rparr>) \<and> socks_ok X (s\<lparr>queues := q\<rparr>) (remove1 a U) D m
    \<and> socks_only s (s\<lparr>queues := q\<rparr>)"
proof -
  have aD: "a \<notin> set D" "socks s a \<noteq> None" using links_disjoint [OF ok a] ok a by (auto simp: socks_ok_def)
  note e = enqueued_iff [OF ok aD(2)]
  have l: "links_ok s U D" using ok by (simp add: socks_ok_def)
  show ?thesis
  proof (cases "a \<in> set U")
    case False
    then show ?thesis using e aD ok by (intro exI [of _ "queues s"])
        (auto simp: port_cancel_socket_update_def socks_only_def remove1_idem)
  next
    case True
    obtain q where q: "queue_remove (queues s) (SockN a) = Some q" "is_queue q UpdateQ (map SockN (remove1 a U))"
      "is_queue q DeletedQ (map SockN D)" "detached q (SockN a)" "\<forall>y. y \<noteq> UpdateQ \<and> y \<notin> SockN ` set U \<longrightarrow> q y = queues s y"
      using two_queues_remove [of "queues s" UpdateQ U DeletedQ D a] queues_disjoint [OF ok] True l
      by (auto simp: links_ok_def)
    have "links_ok (s\<lparr>queues := q\<rparr>) (remove1 a U) D"
    proof -
      have "detached q (SockN b)" if "socks s b \<noteq> None" "b \<notin> set (remove1 a U)" "b \<notin> set D" for b
        using that l q(4,5) queues_distinct(1) [OF ok] by (cases "b = a") (auto simp: links_ok_def detached_def)
      then show ?thesis using q by (auto simp: links_ok_def)
    qed
    then have "socks_ok X (s\<lparr>queues := q\<rparr>) (remove1 a U) D m"
      by (rule socks_ok_links [OF ok]) (use ok a set_remove1_subset [of a U] in \<open>auto simp: socks_ok_def sock_ok_def\<close>)
    moreover have "socks_only s (s\<lparr>queues := q\<rparr>)" using q(5) by (auto simp: socks_only_def)
    ultimately show ?thesis using e True q(1) by (auto simp: port_cancel_socket_update_def on_queues_def)
  qed
qed


lemma deleted_not_queued:
  assumes "socks_ok X s U D m" "socks s a = Some k" "delete_pending k"
  shows "a \<notin> ran m" "a \<notin> set U"
  using assms by (auto simp: socks_ok_def sock_ok_def)

lemma port_add_deleted_socket_spec:
  assumes ok: "socks_ok {a} s U D m" and a: "socks s a = Some k" "delete_pending k"
  shows "\<exists>q D'. port_add_deleted_socket a s = Some (s\<lparr>queues := q\<rparr>) \<and> socks_ok {} (s\<lparr>queues := q\<rparr>) U D' m
    \<and> socks_only s (s\<lparr>queues := q\<rparr>)"
proof -
  have aU: "a \<notin> set U" "socks s a \<noteq> None" using deleted_not_queued [OF ok a] a by auto
  note e = enqueued_iff [OF ok aU(2)]
  have l: "links_ok s U D" using ok by (simp add: socks_ok_def)
  show ?thesis
  proof (cases "a \<in> set D")
    case True
    have "socks_ok {} (s\<lparr>queues := queues s\<rparr>) U D m"
      by (rule socks_ok_links [OF ok]) (use ok l True in \<open>auto simp: socks_ok_def sock_ok_def\<close>)
    then show ?thesis using e True by (intro exI [of _ "queues s"] exI [of _ D])
        (auto simp: port_add_deleted_socket_def socks_only_def)
  next
    case False
    obtain q where q: "queue_append (queues s) DeletedQ (SockN a) = Some q" "is_queue q DeletedQ (map SockN (D @ [a]))"
      "is_queue q UpdateQ (map SockN U)" "\<forall>y. y \<noteq> DeletedQ \<and> y \<notin> SockN ` set D \<and> y \<noteq> SockN a \<longrightarrow> q y = queues s y"
      using two_queues_append [of "queues s" DeletedQ D UpdateQ U a] queues_disjoint [OF ok] False aU(1) sock_node [OF ok aU(2)] l
      by (auto simp: links_ok_def Int_commute)
    then have "links_ok (s\<lparr>queues := q\<rparr>) U (D @ [a])" using l by (auto simp: links_ok_def detached_def)
    then have "socks_ok {} (s\<lparr>queues := q\<rparr>) U (D @ [a]) m"
      by (rule socks_ok_links [OF ok]) (use ok a in \<open>auto simp: socks_ok_def sock_ok_def\<close>)
    moreover have "socks_only s (s\<lparr>queues := q\<rparr>)" using q(4) by (auto simp: socks_only_def)
    ultimately show ?thesis using e False aU(1) q(1)
      by (intro exI [of _ q] exI [of _ "D @ [a]"]) (auto simp: port_add_deleted_socket_def on_queues_def)
  qed
qed

lemma port_remove_deleted_socket_spec:
  assumes ok: "socks_ok {a} s U D m" and a: "socks s a = Some k" "delete_pending k"
  shows "\<exists>q. port_remove_deleted_socket a s = Some (s\<lparr>queues := q\<rparr>) \<and> socks_ok {a} (s\<lparr>queues := q\<rparr>) U (remove1 a D) m
    \<and> socks_only s (s\<lparr>queues := q\<rparr>)"
proof -
  have aU: "a \<notin> set U" "socks s a \<noteq> None" using deleted_not_queued [OF ok a] a by auto
  note e = enqueued_iff [OF ok aU(2)]
  have l: "links_ok s U D" using ok by (simp add: socks_ok_def)
  show ?thesis
  proof (cases "a \<in> set D")
    case False
    then show ?thesis using e aU ok by (intro exI [of _ "queues s"])
        (auto simp: port_remove_deleted_socket_def socks_only_def remove1_idem)
  next
    case True
    obtain q where q: "queue_remove (queues s) (SockN a) = Some q" "is_queue q DeletedQ (map SockN (remove1 a D))"
      "is_queue q UpdateQ (map SockN U)" "detached q (SockN a)" "\<forall>y. y \<noteq> DeletedQ \<and> y \<notin> SockN ` set D \<longrightarrow> q y = queues s y"
      using two_queues_remove [of "queues s" DeletedQ D UpdateQ U a] queues_disjoint [OF ok] True l
      by (auto simp: links_ok_def Int_commute)
    have "links_ok (s\<lparr>queues := q\<rparr>) U (remove1 a D)"
    proof -
      have "detached q (SockN b)" if "socks s b \<noteq> None" "b \<notin> set (remove1 a D)" "b \<notin> set U" for b
        using that l q(4,5) queues_distinct(2) [OF ok] by (cases "b = a") (auto simp: links_ok_def detached_def)
      then show ?thesis using q by (auto simp: links_ok_def)
    qed
    then have "socks_ok {a} (s\<lparr>queues := q\<rparr>) U (remove1 a D) m"
      by (rule socks_ok_links [OF ok])
        (use ok a queues_distinct(2) [OF ok] in \<open>auto simp: socks_ok_def sock_ok_def\<close>)
    moreover have "socks_only s (s\<lparr>queues := q\<rparr>)" using q(5) by (auto simp: socks_only_def)
    ultimately show ?thesis using e True q(1) by (auto simp: port_remove_deleted_socket_def on_queues_def)
  qed
qed

section \<open>Registration and removal\<close>

lemma tree_map_frame:
  assumes "tree_map T m" "\<And>x. x \<in> ran m \<Longrightarrow> h' x = snd T x"
  shows "tree_map (fst T, h') m"
proof -
  obtain kvs where kvs: "tree_rep T kvs" "m = map_of kvs" using assms(1) by (auto simp: tree_map_def)
  obtain t where t: "at T t []" "rbt t" "ordered t" "inord t = kvs" using kvs(1) by (auto simp: tree_rep_def)
  have "addrs t = ran m" using tree_rep_keys [OF kvs(1)] kvs(2) inord_addrs [of t] t(4) by simp
  then have "rep h' None t" using t(1) assms(2) rep_frame [of "snd T" None t h'] by (simp add: at_def)
  then have "at (fst T, h') t []" using t(1) by (simp add: at_def)
  then show ?thesis using t kvs by (auto simp: tree_map_def tree_rep_def)
qed

lemma ran_delete:
  assumes "inj_on m (dom m)" "m sk = Some a"
  shows "ran (m(sk := None)) = ran m - {a}" "inj_on (m(sk := None)) (dom (m(sk := None)))"
proof -
  have u: "m k' = Some a \<longleftrightarrow> k' = sk" for k' using assms by (metis domI inj_onD)
  have "(m(sk := None)) k' = Some b \<longleftrightarrow> m k' = Some b \<and> b \<noteq> a" for k' b
    by (cases "k' = sk") (use assms(2) u [of k'] in auto)
  then show "ran (m(sk := None)) = ran m - {a}" unfolding ran_def by blast
  show "inj_on (m(sk := None)) (dom (m(sk := None)))" using assms(1) by (auto simp: inj_on_def)
qed

lemma deregister_spec:
  assumes ok: "socks_ok {} s U D m" and a: "socks s a = Some k" "\<not> delete_pending k"
  shows "\<exists>s' sk. (do {
       s \<leftarrow> port_cancel_socket_update a s;
       s \<leftarrow> port_unregister_socket a s;
       upd_sock (\<lambda>k. k\<lparr>delete_pending := True\<rparr>) a s
     }) = Some s' \<and> m sk = Some a \<and> socks_ok {a} s' (remove1 a U) D (m(sk := None))
     \<and> socks s' = (socks s)(a \<mapsto> k\<lparr>delete_pending := True\<rparr>) \<and> socks_only s s' \<and> in_flight s' = in_flight s"
proof -
  have am: "a \<in> ran m" using ok a by (auto simp: socks_ok_def sock_ok_def)
  then obtain sk where sk: "m sk = Some a" by (auto simp: ran_def)
  obtain q where q: "port_cancel_socket_update a s = Some (s\<lparr>queues := q\<rparr>)"
    "socks_ok {} (s\<lparr>queues := q\<rparr>) (remove1 a U) D m" "socks_only s (s\<lparr>queues := q\<rparr>)"
    using port_cancel_socket_update_spec [OF ok am] by blast
  have ix: "tree_map (sock_tree s) m" "tree_alloc (sock_tree s) = (\<lambda>a. socks s a \<noteq> None)" "inj_on m (dom m)"
    using ok by (auto simp: socks_ok_def index_ok_def)
  obtain T where T: "tree_del (sock_tree s) a = Some T" "tree_map T (m(sk := None))" "tree_alloc T = tree_alloc (sock_tree s)"
    using rbi.del_law [OF ix(1) sk] by blast
  let ?m = "m(sk := None)"
  let ?k = "k\<lparr>delete_pending := True\<rparr>"
  let ?s = "s\<lparr>queues := q, sock_tree := T, socks := (socks s)(a \<mapsto> ?k)\<rparr>"
  note rm = ran_delete [OF ix(3) sk]
  have "index_ok ?s ?m" using T ix rm(2) a by (auto simp: index_ok_def fun_eq_iff)
  moreover have "links_ok ?s (remove1 a U) D" using q(2) a by (auto simp: socks_ok_def links_ok_def)
  ultimately have "socks_ok {a} ?s (remove1 a U) D ?m"
    using ok q(2) rm(1) queues_distinct(1) [OF ok] a by (auto simp: socks_ok_def sock_ok_def)
  then show ?thesis using q T a sk
    by (intro exI [of _ ?s] exI [of _ sk]) (auto simp: port_unregister_socket_def upd_sock_def socks_only_def)
qed

lemma sock__free_spec:
  assumes ok: "socks_ok {a} s U D m" and a: "socks s a = Some k" "delete_pending k" "a \<notin> set D"
  shows "socks_ok {} (sock__free a s) U D m" "socks_only s (sock__free a s)" "socks (sock__free a s) = (socks s)(a := None)"
proof -
  note nq = deleted_not_queued [OF ok a(1,2)]
  have l: "links_ok s U D" using ok by (simp add: socks_ok_def)
  have "is_queue ((queues s)(SockN a := None)) UpdateQ (map SockN U)"
    by (rule is_queue_frame [of "queues s"]) (use l nq in \<open>auto simp: links_ok_def\<close>)
  moreover have "is_queue ((queues s)(SockN a := None)) DeletedQ (map SockN D)"
    by (rule is_queue_frame [of "queues s"]) (use l a in \<open>auto simp: links_ok_def\<close>)
  ultimately have "links_ok (sock__free a s) U D" using l by (auto simp: links_ok_def sock__free_def detached_def)
  moreover have "tree_map (fst (sock_tree s), (snd (sock_tree s))(a := None)) m"
    by (rule tree_map_frame) (use ok nq in \<open>auto simp: socks_ok_def index_ok_def\<close>)
  then have "index_ok (sock__free a s) m"
    using ok by (auto simp: socks_ok_def index_ok_def sock__free_def tree_alloc_def fun_eq_iff)
  ultimately show "socks_ok {} (sock__free a s) U D m"
    using ok a(3) nq by (auto simp: socks_ok_def sock_ok_def sock__free_def)
  show "socks_only s (sock__free a s)" by (auto simp: socks_only_def sock__free_def)
  show "socks (sock__free a s) = (socks s)(a := None)" by (simp add: sock__free_def)
qed

lemma members_free:
  assumes "finite (dom (socks s))" "socks s a = Some k" "socks s' = (socks s)(a := None)"
  shows "members s' = (members s)(poll_group k := members s (poll_group k) - 1)" "0 < members s (poll_group k)"
proof -
  let ?M = "\<lambda>g. {b. \<exists>x. socks s b = Some x \<and> poll_group x = g}"
  have fin: "finite (?M g)" for g by (rule finite_subset [OF _ assms(1)]) auto
  have a: "a \<in> ?M (poll_group k)" using assms(2) by simp
  show "members s' = (members s)(poll_group k := members s (poll_group k) - 1)"
  proof
    fix g
    have "{b. \<exists>x. socks s' b = Some x \<and> poll_group x = g} = (if g = poll_group k then ?M g - {a} else ?M g)"
      using assms(2,3) by auto
    then show "members s' g = ((members s)(poll_group k := members s (poll_group k) - 1)) g"
      using a fin by (auto simp: members_def card_Diff_singleton)
  qed
  show "0 < members s (poll_group k)" using a fin by (auto simp: members_def card_gt_0_iff)
qed


section \<open>The invariant of a port\<close>

definition port_rep :: "nat set \<Rightarrow> port_state \<Rightarrow> nat list \<Rightarrow> nat list \<Rightarrow> nat list \<Rightarrow> (u64 \<Rightarrow> nat option) \<Rightarrow> bool" where
  "port_rep X s U D G m \<longleftrightarrow> socks_ok X s U D m \<and> groups_ok s G (members s)
     \<and> (\<forall>a k. socks s a = Some k \<longrightarrow> groups s (poll_group k) \<noteq> None)"

text \<open>Everything but the objects themselves.\<close>

definition frame :: "port_state \<Rightarrow> port_state \<Rightarrow> bool" where
  "frame s s' \<longleftrightarrow> iocp_handle s' = iocp_handle s \<and> active_poll_count s' = active_poll_count s"

lemma frame_trans: "frame s s1 \<Longrightarrow> frame s1 s2 \<Longrightarrow> frame s s2"
  by (simp add: frame_def)

lemma frame_only: "socks_only s s' \<Longrightarrow> frame s s'" "groups_only s s' \<Longrightarrow> frame s s'"
  by (auto simp: frame_def socks_only_def groups_only_def)

lemma port_rep_core:
  assumes "core s' = core s"
  shows "port_rep X s' U D G m = port_rep X s U D G m"
  by (simp add: port_rep_def socks_ok_core [OF assms] groups_ok_core [OF assms] core_fields [OF assms])

lemma port_rep_sock:
  assumes rep: "port_rep X s U D G m" and k: "socks s a = Some k" and s': "socks_ok Y s' U' D' m'" "socks_only s s'"
    "socks s' = (socks s)(a \<mapsto> k')" "poll_group k' = poll_group k"
  shows "port_rep Y s' U' D' G m'"
proof -
  have "groups_ok s' G (members s')"
    using rep groups_ok_socks_only [OF _ s'(2)] members_upd [OF k s'(4,3)] by (simp add: port_rep_def)
  then show ?thesis using rep k s' by (auto simp: port_rep_def socks_only_def)
qed

lemma port_rep_same:
  assumes rep: "port_rep X s U D G m" and s': "socks_ok Y s' U' D' m'" "socks_only s s'" "socks s' = socks s"
  shows "port_rep Y s' U' D' G m'"
proof -
  have "members s' = members s" using s'(3) by (simp add: members_def fun_eq_iff)
  then have "groups_ok s' G (members s')" using rep groups_ok_socks_only [OF _ s'(2)] by (simp add: port_rep_def)
  then show ?thesis using rep s' by (auto simp: port_rep_def socks_only_def)
qed

lemma members_fields [simp]: "members (s\<lparr>in_flight := F\<rparr>) = members s" "members (s\<lparr>active_poll_count := n\<rparr>) = members s"
  by (auto simp: members_def fun_eq_iff)

lemma port_rep_in_flight [simp]: "port_rep X (s\<lparr>in_flight := F\<rparr>) U D G m = port_rep X s U D G m"
  by (simp add: port_rep_def socks_ok_def links_ok_def index_ok_def groups_ok_def)

lemma port_rep_poll_count [simp]: "port_rep X (s\<lparr>active_poll_count := n\<rparr>) U D G m = port_rep X s U D G m"
  by (simp add: port_rep_def socks_ok_def links_ok_def index_ok_def groups_ok_def)

section \<open>Cancelling a request\<close>

lemma set_Status_same: "set_Status (Status (io_status_block k)) k = k"
  by (simp add: set_Status_def)

lemma afd_cancel_poll_spec:
  assumes "socks s a = Some k"
  shows "\<exists>r s' st. afd_cancel_poll os h a s = Some (r, s') \<and> core s' = core (s\<lparr>socks := (socks s)(a \<mapsto> set_Status st k)\<rparr>)
    \<and> (r = 0 \<or> r = -1)"
proof -
  let ?upd = "case os_completed os (clock s) a of
     Some st \<Rightarrow> if a \<in> in_flight s then upd_sock (set_Status st) a s else Some s | None \<Rightarrow> Some s"
  obtain st where st: "?upd = Some (s\<lparr>socks := (socks s)(a \<mapsto> set_Status st k)\<rparr>)"
  proof (cases "os_completed os (clock s) a = None \<or> a \<notin> in_flight s")
    case True
    then have "?upd = Some (s\<lparr>socks := (socks s)(a \<mapsto> set_Status (Status (io_status_block k)) k)\<rparr>)"
      using assms by (auto simp: set_Status_same fun_upd_idem split: option.splits)
    then show thesis by (rule that)
  next
    case False
    then show thesis using that assms by (auto simp: upd_sock_eq)
  qed
  show ?thesis unfolding afd_cancel_poll_def st using assms
    by (cases "Status (io_status_block (set_Status st k)) = STATUS_PENDING") (auto simp: Let_def intro!: exI [of _ st])
qed

lemma sock__cancel_poll_spec:
  assumes rep: "port_rep X s U D G m" and k: "socks s a = Some k" "poll_status k = SOCK__POLL_PENDING"
  shows "\<exists>r s' k'. sock__cancel_poll os a s = Some (r, s') \<and> core s' = core (s\<lparr>socks := (socks s)(a \<mapsto> k')\<rparr>)
    \<and> (r = 0 \<and> poll_status k' = SOCK__POLL_CANCELLED \<and> pending_events k' = 0
       \<or> r = -1 \<and> poll_status k' = SOCK__POLL_PENDING)
    \<and> delete_pending k' = delete_pending k \<and> poll_group k' = poll_group k \<and> user_events k' = user_events k
    \<and> user_data k' = user_data k"
proof -
  have "groups s (poll_group k) \<noteq> None" using rep k by (simp add: port_rep_def)
  then obtain x where x: "groups s (poll_group k) = Some x" by blast
  obtain r s1 st where c: "afd_cancel_poll os (afd_device_handle x) a s = Some (r, s1)"
    "core s1 = core (s\<lparr>socks := (socks s)(a \<mapsto> set_Status st k)\<rparr>)" "r = 0 \<or> r = -1"
    using afd_cancel_poll_spec [OF k(1)] by blast
  note f = core_fields [OF c(2)]
  show ?thesis
  proof (cases "r = 0")
    case False
    then show ?thesis using c k x
      by (intro exI [of _ "-1"] exI [of _ s1] exI [of _ "set_Status st k"])
        (auto simp: sock__cancel_poll_def poll_group_get_afd_device_handle_def set_Status_def)
  next
    case True
    let ?k = "(set_Status st k)\<lparr>poll_status := SOCK__POLL_CANCELLED, pending_events := 0\<rparr>"
    let ?s = "s1\<lparr>socks := (socks s1)(a \<mapsto> ?k)\<rparr>"
    have "sock__cancel_poll os a s = Some (0, ?s)"
      using c k x True f by (simp add: sock__cancel_poll_def poll_group_get_afd_device_handle_def upd_sock_def)
    moreover have "core ?s = core (s\<lparr>socks := (socks s)(a \<mapsto> ?k)\<rparr>)"
      using c(2) f by (simp add: core_def)
    ultimately show ?thesis
      by (intro exI [of _ 0] exI [of _ ?s] exI [of _ ?k]) (auto simp: set_Status_def)
  qed
qed

end
