(* ===== verification/WepollSockOps.thy ===== *)
theory WepollSockOps
  imports WepollSocks
begin

text \<open>
  The operations on one socket keep the invariant of the port and run into no assertion and no
  freed object: deletion, a new event mask, the update of the request, the delivery of a
  completion, and the creation of a socket.
\<close>

section \<open>Deletion\<close>

definition without :: "nat \<Rightarrow> (u64 \<Rightarrow> nat option) \<Rightarrow> u64 \<Rightarrow> nat option" where
  "without a m = (\<lambda>q. if m q = Some a then None else m q)"

lemma without_key: "inj_on m (dom m) \<Longrightarrow> m sk = Some a \<Longrightarrow> m(sk := None) = without a m"
  by (auto simp: without_def fun_eq_iff inj_on_def dom_def)

lemma without_none: "a \<notin> ran m \<Longrightarrow> without a m = m"
  by (auto simp: without_def fun_eq_iff ran_def)

lemma port_rep_index: "port_rep X s U D G m \<Longrightarrow> inj_on m (dom m)"
  by (simp add: port_rep_def socks_ok_def index_ok_def)

lemma port_rep_sock_ok: "port_rep X s U D G m \<Longrightarrow> socks s a = Some k \<Longrightarrow> sock_ok X D m a k"
  by (simp add: port_rep_def socks_ok_def)

lemma port_rep_upd:
  assumes rep: "port_rep X s U D G m" and k: "socks s a = Some k" "delete_pending k' = delete_pending k" "poll_group k' = poll_group k"
    "poll_status k' \<noteq> SOCK__POLL_PENDING \<longrightarrow> pending_events k' = 0"
  shows "port_rep X (s\<lparr>socks := (socks s)(a \<mapsto> k')\<rparr>) U D G m"
  by (rule port_rep_sock [OF rep k(1), of _ _ _ _ _ k'])
    (use rep k socks_ok_upd [of X s U D m a k k'] in \<open>auto simp: port_rep_def\<close>)

text \<open>The first half: the socket leaves the tree and the update queue.\<close>

definition start_delete :: "os \<Rightarrow> nat \<Rightarrow> sock_state \<Rightarrow> port_state \<Rightarrow> port_state option" where
  "start_delete os a k s =
     (if \<not> delete_pending k then do {
        s \<leftarrow> (if poll_status k = SOCK__POLL_PENDING then do { (_, s) \<leftarrow> sock__cancel_poll os a s; Some s } else Some s);
        s \<leftarrow> port_cancel_socket_update a s;
        s \<leftarrow> port_unregister_socket a s;
        upd_sock (\<lambda>k. k\<lparr>delete_pending := True\<rparr>) a s
      }
      else Some s)"

lemma start_delete_spec:
  assumes rep: "port_rep {} s U D G m" and k: "socks s a = Some k"
  shows "\<exists>s' k'. start_delete os a k s = Some s' \<and> port_rep {a} s' (remove1 a U) D G (without a m)
    \<and> socks s' = (socks s)(a \<mapsto> k') \<and> delete_pending k' \<and> poll_group k' = poll_group k
    \<and> (poll_status k' = SOCK__POLL_IDLE \<longleftrightarrow> poll_status k = SOCK__POLL_IDLE) \<and> frame s s' \<and> in_flight s' = in_flight s"
proof (cases "delete_pending k")
  case True
  have "a \<notin> ran m" "a \<notin> set U"
    using deleted_not_queued [OF _ k True] rep by (auto simp: port_rep_def)
  moreover have "port_rep {a} s U D G m"
    using rep by (auto simp: port_rep_def socks_ok_def sock_ok_def)
  ultimately show ?thesis using True k
    by (intro exI [of _ s] exI [of _ k]) (auto simp: start_delete_def without_none remove1_idem frame_def fun_upd_idem)
next
  case False
  obtain s1 k1 where 1: "(if poll_status k = SOCK__POLL_PENDING then do { (_, s) \<leftarrow> sock__cancel_poll os a s; Some s } else Some s) = Some s1"
    "core s1 = core (s\<lparr>socks := (socks s)(a \<mapsto> k1)\<rparr>)" "delete_pending k1 = delete_pending k" "poll_group k1 = poll_group k"
    "poll_status k1 = SOCK__POLL_IDLE \<longleftrightarrow> poll_status k = SOCK__POLL_IDLE"
    "poll_status k1 \<noteq> SOCK__POLL_PENDING \<longrightarrow> pending_events k1 = 0"
  proof (cases "poll_status k = SOCK__POLL_PENDING")
    case True
    then show thesis using sock__cancel_poll_spec [OF rep k, of os] that by fastforce
  next
    case False
    then show thesis using that [of s k] k port_rep_sock_ok [OF rep k] by (auto simp: sock_ok_def fun_upd_idem)
  qed
  note f1 = core_fields [OF 1(2)]
  have r1: "port_rep {} s1 U D G m"
    unfolding port_rep_core [OF 1(2)] by (rule port_rep_upd [OF rep k 1(3,4,6)])
  then have o1: "socks_ok {} s1 U D m" by (simp add: port_rep_def)
  have k1: "socks s1 a = Some k1" "\<not> delete_pending k1" using f1 1(3) False by auto
  obtain s2 sk where 2: "(do { s \<leftarrow> port_cancel_socket_update a s1; s \<leftarrow> port_unregister_socket a s;
       upd_sock (\<lambda>k. k\<lparr>delete_pending := True\<rparr>) a s }) = Some s2" "m sk = Some a" "socks_ok {a} s2 (remove1 a U) D (m(sk := None))"
    "socks s2 = (socks s1)(a \<mapsto> k1\<lparr>delete_pending := True\<rparr>)" "socks_only s1 s2" "in_flight s2 = in_flight s1"
    using deregister_spec [OF o1 k1] by blast
  have "port_rep {a} s2 (remove1 a U) D G (without a m)"
    using port_rep_sock [OF r1 k1(1) 2(3,5,4)] without_key [OF port_rep_index [OF rep] 2(2)] by simp
  moreover have "frame s s2" using f1 2(5) by (auto simp: frame_def socks_only_def)
  moreover have "start_delete os a k s = Some s2" using False 1(1) 2(1) by (simp add: start_delete_def)
  ultimately show ?thesis using 1 2 f1 by (intro exI [of _ s2] exI [of _ "k1\<lparr>delete_pending := True\<rparr>"]) auto
qed

text \<open>The second half: the memory is freed now.\<close>

lemma finish_delete_spec:
  assumes rep: "port_rep {a} s U D G m" and k: "socks s a = Some k" "delete_pending k"
  shows "\<exists>s' D' G'. (do {
       s \<leftarrow> port_remove_deleted_socket a s;
       s \<leftarrow> poll_group_release (poll_group k) s;
       Some (sock__free a s)
     }) = Some s' \<and> port_rep {} s' U D' G' m \<and> socks s' = (socks s)(a := None) \<and> frame s s' \<and> in_flight s' = in_flight s"
proof -
  have ok: "socks_ok {a} s U D m" using rep by (simp add: port_rep_def)
  obtain q where q: "port_remove_deleted_socket a s = Some (s\<lparr>queues := q\<rparr>)"
    "socks_ok {a} (s\<lparr>queues := q\<rparr>) U (remove1 a D) m" "socks_only s (s\<lparr>queues := q\<rparr>)"
    using port_remove_deleted_socket_spec [OF ok k] by blast
  let ?s1 = "s\<lparr>queues := q\<rparr>"
  have r1: "port_rep {a} ?s1 U (remove1 a D) G m" using port_rep_same [OF rep q(2,3)] by simp
  have fin: "finite (dom (socks ?s1))" and g: "groups ?s1 (poll_group k) \<noteq> None"
    using r1 k by (auto simp: port_rep_def socks_ok_def)
  have pos: "0 < members ?s1 (poll_group k)" using members_free(2) [OF fin, of a k "?s1\<lparr>socks := (socks s)(a := None)\<rparr>"] k by simp
  obtain s2 G2 where s2: "poll_group_release (poll_group k) ?s1 = Some s2" "groups_only ?s1 s2"
    "groups_ok s2 G2 ((members ?s1)(poll_group k := members ?s1 (poll_group k) - 1))" "dom (groups s2) = dom (groups ?s1)"
    using poll_group_release_spec [of ?s1 G "members ?s1" "poll_group k"] g pos r1 unfolding port_rep_def by blast
  have o2: "socks_ok {a} s2 U (remove1 a D) m" using socks_ok_groups_only(1) [OF q(2) s2(2)] .
  have e2: "socks s2 = socks s" "in_flight s2 = in_flight s" using s2(2) by (auto simp: groups_only_def)
  have nD: "a \<notin> set (remove1 a D)" using queues_distinct(2) [OF ok] by simp
  note fr = sock__free_spec [OF o2 _ k(2) nD]
  have k2: "socks s2 a = Some k" using e2 k by simp
  have "members (sock__free a s2) = (members ?s1)(poll_group k := members ?s1 (poll_group k) - 1)"
    using members_free(1) [OF fin, of a k "sock__free a s2"] k fr(3) [OF k2] e2 by simp
  then have "groups_ok (sock__free a s2) G2 (members (sock__free a s2))"
    using groups_ok_socks_only [OF s2(3) fr(2) [OF k2]] by simp
  moreover have "groups (sock__free a s2) (poll_group x) \<noteq> None" if "socks (sock__free a s2) b = Some x" for b x
    using that fr(2,3) [OF k2] e2 s2(4) r1 by (auto simp: socks_only_def port_rep_def split: if_splits)
  ultimately have "port_rep {} (sock__free a s2) U (remove1 a D) G2 m"
    using fr(1) [OF k2] by (simp add: port_rep_def)
  moreover have "frame s (sock__free a s2)"
    using frame_only(1) [OF q(3)] frame_only(2) [OF s2(2)] frame_only(1) [OF fr(2) [OF k2]] frame_trans by blast
  ultimately show ?thesis using q(1) s2(1) fr(3) [OF k2] e2
    by (intro exI [of _ "sock__free a s2"] exI [of _ "remove1 a D"] exI [of _ G2]) (auto simp: sock__free_def)
qed

lemma sock__delete_spec:
  assumes rep: "port_rep {} s U D G m" and k: "socks s a = Some k"
  shows "\<exists>s' D' G'. sock__delete os a force s = Some (0, s') \<and> port_rep {} s' (remove1 a U) D' G' (without a m)
    \<and> frame s s' \<and> in_flight s' = in_flight s
    \<and> (if force \<or> poll_status k = SOCK__POLL_IDLE then socks s' = (socks s)(a := None)
       else \<exists>k'. socks s' = (socks s)(a \<mapsto> k') \<and> delete_pending k' \<and> poll_status k' \<noteq> SOCK__POLL_IDLE)"
proof -
  obtain s1 k1 where 1: "start_delete os a k s = Some s1" "port_rep {a} s1 (remove1 a U) D G (without a m)"
    "socks s1 = (socks s)(a \<mapsto> k1)" "delete_pending k1" "poll_status k1 = SOCK__POLL_IDLE \<longleftrightarrow> poll_status k = SOCK__POLL_IDLE"
    "frame s s1" "in_flight s1 = in_flight s"
    using start_delete_spec [OF rep k] by blast
  have k1: "socks s1 a = Some k1" using 1(3) by simp
  have e: "sock__delete os a force s = do {
      s \<leftarrow> (if force \<or> poll_status k = SOCK__POLL_IDLE then do {
             s \<leftarrow> port_remove_deleted_socket a s1;
             s \<leftarrow> poll_group_release (poll_group k1) s;
             Some (sock__free a s)
           }
           else port_add_deleted_socket a s1);
      Some (0, s) }"
    using 1(1) k k1 1(5) by (simp add: sock__delete_def start_delete_def)
  show ?thesis
  proof (cases "force \<or> poll_status k = SOCK__POLL_IDLE")
    case True
    then show ?thesis using finish_delete_spec [OF 1(2) k1 1(4)] e 1 frame_trans [OF 1(6)] by fastforce
  next
    case False
    have ok: "socks_ok {a} s1 (remove1 a U) D (without a m)" using 1(2) by (simp add: port_rep_def)
    obtain q D' where q: "port_add_deleted_socket a s1 = Some (s1\<lparr>queues := q\<rparr>)"
      "socks_ok {} (s1\<lparr>queues := q\<rparr>) (remove1 a U) D' (without a m)" "socks_only s1 (s1\<lparr>queues := q\<rparr>)"
      using port_add_deleted_socket_spec [OF ok k1 1(4)] by blast
    have "port_rep {} (s1\<lparr>queues := q\<rparr>) (remove1 a U) D' G (without a m)" using port_rep_same [OF 1(2) q(2,3)] by simp
    then show ?thesis using e False q 1 frame_trans [OF 1(6) frame_only(1) [OF q(3)]]
      by (intro exI [of _ "s1\<lparr>queues := q\<rparr>"] exI [of _ D'] exI [of _ G]) auto
  qed
qed


section \<open>Requests in flight\<close>

text \<open>
  A request that is in flight belongs to a socket that exists and is not idle, and a deleted
  socket that still exists waits for its request.
\<close>

definition flight_ok :: "port_state \<Rightarrow> bool" where
  "flight_ok s \<longleftrightarrow> (\<forall>a \<in> in_flight s. \<exists>k. socks s a = Some k \<and> poll_status k \<noteq> SOCK__POLL_IDLE)"

definition settled :: "port_state \<Rightarrow> bool" where
  "settled s \<longleftrightarrow> (\<forall>a k. socks s a = Some k \<and> delete_pending k \<longrightarrow> poll_status k \<noteq> SOCK__POLL_IDLE)"

definition port_inv :: "port_state \<Rightarrow> bool" where
  "port_inv s \<longleftrightarrow> (\<exists>U D G m. port_rep {} s U D G m) \<and> flight_ok s \<and> settled s"

lemma flight_settled_core:
  assumes "core s' = core s"
  shows "flight_ok s' = flight_ok s" "settled s' = settled s"
  by (simp_all add: flight_ok_def settled_def core_fields [OF assms])

lemma port_inv_core: "core s' = core s \<Longrightarrow> port_inv s' = port_inv s"
  using port_rep_core [of s' s] flight_settled_core [of s' s] by (simp add: port_inv_def)

text \<open>The sockets other than \<open>a\<close> and their requests are untouched.\<close>

definition sock_only :: "nat \<Rightarrow> port_state \<Rightarrow> port_state \<Rightarrow> bool" where
  "sock_only a s s' \<longleftrightarrow> frame s s' \<and> (\<forall>b. b \<noteq> a \<longrightarrow> socks s' b = socks s b)
     \<and> (\<forall>b. b \<noteq> a \<longrightarrow> b \<in> in_flight s' \<longleftrightarrow> b \<in> in_flight s)"

lemma flight_settled_one:
  assumes "flight_ok s" "settled s" "sock_only a s s'"
    "a \<in> in_flight s' \<longrightarrow> (\<exists>k. socks s' a = Some k \<and> poll_status k \<noteq> SOCK__POLL_IDLE)"
    "\<And>k. socks s' a = Some k \<Longrightarrow> delete_pending k \<Longrightarrow> poll_status k \<noteq> SOCK__POLL_IDLE"
  shows "flight_ok s'" "settled s'"
  using assms unfolding flight_ok_def settled_def sock_only_def by metis+

section \<open>A new event mask\<close>

lemma sock_set_event_spec:
  assumes rep: "port_rep {} s U D G m" and k: "socks s a = Some k" "\<not> delete_pending k"
  shows "\<exists>q U'. sock_set_event a ev s = Some (0, s\<lparr>socks := (socks s)(a \<mapsto>
        k\<lparr>user_events := events ev OR EPOLLERR OR EPOLLHUP, user_data := data ev\<rparr>), queues := q\<rparr>)
    \<and> port_rep {} (s\<lparr>socks := (socks s)(a \<mapsto>
        k\<lparr>user_events := events ev OR EPOLLERR OR EPOLLHUP, user_data := data ev\<rparr>), queues := q\<rparr>) U' D G m"
proof -
  let ?k = "k\<lparr>user_events := events ev OR EPOLLERR OR EPOLLHUP, user_data := data ev\<rparr>"
  let ?s = "s\<lparr>socks := (socks s)(a \<mapsto> ?k)\<rparr>"
  have r1: "port_rep {} ?s U D G m"
    by (rule port_rep_upd [OF rep k(1)]) (use port_rep_sock_ok [OF rep k(1)] in \<open>auto simp: sock_ok_def\<close>)
  have o1: "socks_ok {} ?s U D m" and am: "a \<in> ran m"
    using r1 k port_rep_sock_ok [OF rep k(1)] by (auto simp: port_rep_def sock_ok_def)
  obtain q U' where q: "port_request_socket_update a ?s = Some (?s\<lparr>queues := q\<rparr>)" "socks_ok {} (?s\<lparr>queues := q\<rparr>) U' D m"
    "socks_only ?s (?s\<lparr>queues := q\<rparr>)"
    using port_request_socket_update_spec [OF o1 am] by blast
  have r2: "port_rep {} (?s\<lparr>queues := q\<rparr>) U' D G m" using port_rep_same [OF r1 q(2,3)] by simp
  show ?thesis
  proof (cases "(events ev OR EPOLLERR OR EPOLLHUP) AND SOCK__KNOWN_EPOLL_EVENTS AND NOT (pending_events k) = 0")
    case True
    then have "sock_set_event a ev s = Some (0, ?s\<lparr>queues := queues s\<rparr>)"
      using k by (simp add: sock_set_event_def upd_sock_def Let_def)
    then show ?thesis using r1 by (intro exI [of _ "queues s"] exI [of _ U]) simp
  next
    case False
    then have "sock_set_event a ev s = Some (0, ?s\<lparr>queues := q\<rparr>)"
      using k q(1) by (simp add: sock_set_event_def upd_sock_def Let_def)
    then show ?thesis using r2 by blast
  qed
qed

section \<open>The update of a request\<close>

lemma cancel_update:
  assumes rep: "port_rep {} s U D G m" and a: "a \<in> ran m"
  shows "\<exists>s'. port_cancel_socket_update a s = Some s' \<and> port_rep {} s' (remove1 a U) D G m \<and> socks s' = socks s
    \<and> in_flight s' = in_flight s \<and> frame s s'"
proof -
  have ok: "socks_ok {} s U D m" using rep by (simp add: port_rep_def)
  obtain q where q: "port_cancel_socket_update a s = Some (s\<lparr>queues := q\<rparr>)"
    "socks_ok {} (s\<lparr>queues := q\<rparr>) (remove1 a U) D m" "socks_only s (s\<lparr>queues := q\<rparr>)"
    using port_cancel_socket_update_spec [OF ok a] by blast
  then show ?thesis using port_rep_same [OF rep q(2,3)] frame_only(1) by auto
qed

lemma afd_poll_spec:
  assumes "socks s a = Some k"
  shows "\<exists>r s' F. afd_poll os h a s = Some (r, s')
    \<and> core s' = core (s\<lparr>socks := (socks s)(a \<mapsto> set_Status STATUS_PENDING k), in_flight := F\<rparr>)
    \<and> (r = 0 \<or> r = -1) \<and> (F = in_flight s \<or> F = insert a (in_flight s) \<and> (r = 0 \<or> last_error (err s') = ''ERROR_IO_PENDING''))"
proof -
  let ?k = "set_Status STATUS_PENDING k"
  let ?s = "s\<lparr>socks := (socks s)(a \<mapsto> ?k)\<rparr>"
  let ?st = "os_NtDeviceIoControlFile os (clock s) h (poll_info ?k)"
  have e: "afd_poll os h a s = Some
      (if ?st = STATUS_SUCCESS then (0, (tick ?s)\<lparr>in_flight := insert a (in_flight s)\<rparr>)
       else if ?st = STATUS_PENDING then (-1, set_win_error ''ERROR_IO_PENDING'' ((tick ?s)\<lparr>in_flight := insert a (in_flight s)\<rparr>))
       else (-1, set_win_error (os_RtlNtStatusToDosError os ?st) (tick ?s)))"
    using assms by (simp add: afd_poll_def upd_sock_def Let_def tick_def)
  have c: "core ((tick ?s)\<lparr>in_flight := F\<rparr>) = core (?s\<lparr>in_flight := F\<rparr>)" for F by (simp add: core_def tick_def)
  have l: "last_error (err (set_win_error x t)) = x" for x t by (simp add: set_win_error_def err_set_win_error_def)
  consider "?st = STATUS_SUCCESS" | "?st = STATUS_PENDING" "?st \<noteq> STATUS_SUCCESS"
    | "?st \<noteq> STATUS_SUCCESS" "?st \<noteq> STATUS_PENDING" by blast
  then show ?thesis
  proof cases
    case 1
    then show ?thesis using e c [of "insert a (in_flight s)"] by auto
  next
    case 2
    then show ?thesis using e c [of "insert a (in_flight s)"] l by auto
  next
    case 3
    have "core (tick ?s) = core (?s\<lparr>in_flight := in_flight s\<rparr>)" by simp
    with 3 show ?thesis using e by (auto intro!: exI [of _ "in_flight s"])
  qed
qed


text \<open>
  What an update does to the socket: it stays registered with the same mask and data, or it is
  dropped because its handle is not valid any more.
\<close>

definition updated :: "nat \<Rightarrow> port_state \<Rightarrow> (u64 \<Rightarrow> nat option) \<Rightarrow> port_state \<Rightarrow> (u64 \<Rightarrow> nat option) \<Rightarrow> bool" where
  "updated a s m s' m' \<longleftrightarrow> sock_only a s s' \<and> flight_ok s' \<and> settled s' \<and>
     (m' = without a m \<or>
      m' = m \<and> (\<exists>k k'. socks s a = Some k \<and> socks s' a = Some k' \<and> user_events k' = user_events k \<and> user_data k' = user_data k))"

lemma update_finish:
  assumes rep: "port_rep {} s1 U D G m" and a: "a \<in> ran m" and s1: "sock_only a s s1" "flight_ok s" "settled s"
    and k: "socks s a = Some k" "socks s1 a = Some k1" "user_events k1 = user_events k" "user_data k1 = user_data k" "\<not> delete_pending k1"
    "a \<in> in_flight s1 \<longrightarrow> poll_status k1 \<noteq> SOCK__POLL_IDLE"
  shows "\<exists>s'. do { s \<leftarrow> port_cancel_socket_update a s1; Some (0, s) } = Some (0 :: int, s') \<and> port_rep {} s' (remove1 a U) D G m
    \<and> updated a s m s' m"
proof -
  obtain s2 where s2: "port_cancel_socket_update a s1 = Some s2" "port_rep {} s2 (remove1 a U) D G m" "socks s2 = socks s1"
    "in_flight s2 = in_flight s1" "frame s1 s2"
    using cancel_update [OF rep a] by blast
  have o: "sock_only a s s2" using s1(1) s2 frame_trans unfolding sock_only_def by metis
  have "flight_ok s2" "settled s2" using flight_settled_one [OF s1(2,3) o] s2(3,4) k by auto
  then show ?thesis using s2 o k by (auto simp: updated_def)
qed

definition update_result :: "os \<Rightarrow> nat \<Rightarrow> port_state \<Rightarrow> nat list \<Rightarrow> (u64 \<Rightarrow> nat option) \<Rightarrow> bool" where
  "update_result os a s U m \<longleftrightarrow> (\<exists>r s' U' D' G' m'. sock_update os a s = Some (r, s') \<and> port_rep {} s' U' D' G' m'
     \<and> updated a s m s' m' \<and> (r = 0 \<and> U' = remove1 a U \<or> r = -1))"

lemma update_noop:
  assumes rep: "port_rep {} s U D G m" and a: "a \<in> ran m" and k: "socks s a = Some k" "\<not> delete_pending k"
    and fs: "flight_ok s" "settled s"
    and e: "sock_update os a s = do { s \<leftarrow> port_cancel_socket_update a s; Some (0, s) }"
  shows "update_result os a s U m"
proof -
  have so: "sock_only a s s" by (simp add: sock_only_def frame_def)
  show ?thesis
    using update_finish [OF rep a so fs k(1,1) refl refl k(2)] e fs(1) k(1)
    unfolding update_result_def by (fastforce simp: flight_ok_def)
qed

lemma sock_update_pending:
  assumes rep: "port_rep {} s U D G m" and am: "a \<in> ran m" and k: "socks s a = Some k" "\<not> delete_pending k"
    and fs: "flight_ok s" "settled s" and st: "poll_status k = SOCK__POLL_PENDING"
    and ev: "user_events k AND SOCK__KNOWN_EPOLL_EVENTS AND NOT (pending_events k) \<noteq> 0"
  shows "update_result os a s U m"
proof -
  obtain r s1 k1 where c: "sock__cancel_poll os a s = Some (r, s1)" "core s1 = core (s\<lparr>socks := (socks s)(a \<mapsto> k1)\<rparr>)"
    "r = 0 \<and> poll_status k1 = SOCK__POLL_CANCELLED \<and> pending_events k1 = 0 \<or> r = -1 \<and> poll_status k1 = SOCK__POLL_PENDING"
    "delete_pending k1 = delete_pending k" "poll_group k1 = poll_group k" "user_events k1 = user_events k" "user_data k1 = user_data k"
    using sock__cancel_poll_spec [OF rep k(1) st] by blast
  note f = core_fields [OF c(2)]
  have r1: "port_rep {} s1 U D G m"
    unfolding port_rep_core [OF c(2)] by (rule port_rep_upd [OF rep k(1) c(4,5)]) (use c(3) in auto)
  have o1: "sock_only a s s1" using f by (simp add: sock_only_def frame_def)
  have k1: "socks s1 a = Some k1" "\<not> delete_pending k1" using f c(4) k by auto
  show ?thesis
  proof (cases "r = 0")
    case True
    have "sock_update os a s = do { s \<leftarrow> port_cancel_socket_update a s1; Some (0, s) }"
      using k st ev c(1) True by (simp add: sock_update_def)
    then show ?thesis using update_finish [OF r1 am o1 fs k(1) k1(1) c(6,7) k1(2)] c(3)
      unfolding update_result_def by fastforce
  next
    case r: False
    have "sock_update os a s = Some (-1, s1)"
      using k st ev c(1,3) r by (simp add: sock_update_def)
    moreover have "updated a s m s1 m"
      using flight_settled_one [OF fs o1] o1 c(3,6,7) r k k1 by (auto simp: updated_def)
    ultimately show ?thesis using r1 unfolding update_result_def by blast
  qed
qed

lemma sock_update_idle:
  assumes rep: "port_rep {} s U D G m" and am: "a \<in> ran m" and k: "socks s a = Some k" "\<not> delete_pending k"
    and fs: "flight_ok s" "settled s" and st: "poll_status k = SOCK__POLL_IDLE"
  shows "update_result os a s U m"
proof -
  let ?k0 = "k\<lparr>poll_info := request_for k\<rparr>"
  let ?s0 = "s\<lparr>socks := (socks s)(a \<mapsto> ?k0)\<rparr>"
  let ?k2 = "set_Status STATUS_PENDING ?k0"
  have pe: "pending_events k = 0" using port_rep_sock_ok [OF rep k(1)] st by (simp add: sock_ok_def)
  have idle: "a \<notin> in_flight s" using fs(1) k(1) st by (auto simp: flight_ok_def)
  obtain x where x: "groups s (poll_group k) = Some x" using rep k by (auto simp: port_rep_def)
  obtain r s1 F where p: "afd_poll os (afd_device_handle x) a ?s0 = Some (r, s1)"
    "core s1 = core (?s0\<lparr>socks := (socks ?s0)(a \<mapsto> ?k2), in_flight := F\<rparr>)" "r = 0 \<or> r = -1"
    "F = in_flight ?s0 \<or> F = insert a (in_flight ?s0) \<and> (r = 0 \<or> last_error (err s1) = ''ERROR_IO_PENDING'')"
    using afd_poll_spec [of ?s0 a ?k0 os "afd_device_handle x"] by auto
  note f = core_fields [OF p(2)]
  have s1: "socks s1 = (socks s)(a \<mapsto> ?k2)" "in_flight s1 = F" using f by auto
  have r1: "port_rep {} s1 U D G m"
  proof -
    have "port_rep {} (s\<lparr>socks := (socks s)(a \<mapsto> ?k2)\<rparr>) U D G m"
      by (rule port_rep_upd [OF rep k(1)]) (use pe in \<open>auto simp: set_Status_def\<close>)
    then show ?thesis unfolding port_rep_core [OF p(2)] by simp
  qed
  have o1: "sock_only a s s1" using f p(4) by (auto simp: sock_only_def frame_def)
  let ?k3 = "?k2\<lparr>poll_status := SOCK__POLL_PENDING, pending_events := user_events ?k2\<rparr>"
  let ?s3 = "s1\<lparr>socks := (socks s1)(a \<mapsto> ?k3)\<rparr>"
  have r3: "port_rep {} ?s3 U D G m"
    by (rule port_rep_upd [OF r1, of a ?k2]) (use s1 in \<open>auto simp: set_Status_def\<close>)
  have o3: "sock_only a s ?s3" using o1 by (simp add: sock_only_def frame_def)
  note e = k(1) st k(2) p(1) x s1
  consider (sub) "r = 0 \<or> last_error (err s1) = ''ERROR_IO_PENDING''"
    | (inv) "r = -1" "last_error (err s1) \<noteq> ''ERROR_IO_PENDING''" "last_error (err s1) = ''ERROR_INVALID_HANDLE''" "F = in_flight s"
    | (oth) "r = -1" "last_error (err s1) \<noteq> ''ERROR_IO_PENDING''" "last_error (err s1) \<noteq> ''ERROR_INVALID_HANDLE''" "F = in_flight s"
    using p(3,4) by force
  then show ?thesis
  proof cases
    case sub
    have "sock_update os a s = do { s \<leftarrow> port_cancel_socket_update a ?s3; Some (0, s) }"
      using e sub p(3) by (auto simp: sock_update_def upd_sock_def poll_group_get_afd_device_handle_def Let_def)
    then show ?thesis
      using update_finish [OF r3 am o3 fs k(1), of ?k3] k(2)
      unfolding update_result_def by (fastforce simp: set_Status_def)
  next
    case inv
    have "sock_update os a s = sock__delete os a False s1"
      using e inv by (simp add: sock_update_def upd_sock_def poll_group_get_afd_device_handle_def Let_def)
    moreover obtain s2 D' G' where d: "sock__delete os a False s1 = Some (0, s2)" "port_rep {} s2 (remove1 a U) D' G' (without a m)"
      "frame s1 s2" "in_flight s2 = in_flight s1" "socks s2 = (socks s1)(a := None)"
      using sock__delete_spec [OF r1, of a ?k2 os False] s1 st by (auto simp: set_Status_def)
    moreover have o: "sock_only a s s2" using o1 d s1 frame_trans by (auto simp: sock_only_def)
    moreover have "flight_ok s2" "settled s2"
      using flight_settled_one [OF fs o] d(4,5) s1(2) inv(4) idle by auto
    ultimately show ?thesis by (auto simp: update_result_def updated_def)
  next
    case oth
    have "sock_update os a s = Some (-1, map_win_error s1)"
      using e oth by (simp add: sock_update_def upd_sock_def poll_group_get_afd_device_handle_def Let_def)
    moreover have c: "core (map_win_error s1) = core s1" by simp
    moreover have "flight_ok s1" "settled s1"
      using flight_settled_one [OF fs o1] s1 oth(4) idle k(2) by (auto simp: set_Status_def)
    moreover have "sock_only a s (map_win_error s1)" using o1 by (simp add: sock_only_def frame_def)
    ultimately show ?thesis
      using r1 port_rep_core [OF c] flight_settled_core [OF c] s1 k unfolding update_result_def
      by (intro exI [of _ "-1"] exI [of _ "map_win_error s1"]) (auto simp: updated_def set_Status_def)
  qed
qed

lemma sock_update_spec:
  assumes rep: "port_rep {} s U D G m" and k: "socks s a = Some k" "\<not> delete_pending k" and fs: "flight_ok s" "settled s"
  shows "update_result os a s U m"
proof -
  have am: "a \<in> ran m" using port_rep_sock_ok [OF rep k(1)] k(2) by (simp add: sock_ok_def)
  consider "poll_status k = SOCK__POLL_CANCELLED \<or> poll_status k = SOCK__POLL_PENDING
      \<and> user_events k AND SOCK__KNOWN_EPOLL_EVENTS AND NOT (pending_events k) = 0"
    | "poll_status k = SOCK__POLL_PENDING" "user_events k AND SOCK__KNOWN_EPOLL_EVENTS AND NOT (pending_events k) \<noteq> 0"
    | "poll_status k = SOCK__POLL_IDLE"
    by (cases "poll_status k") auto
  then show ?thesis
  proof cases
    case 1
    then show ?thesis using k by (intro update_noop [OF rep am k fs]) (auto simp: sock_update_def)
  qed (auto intro: sock_update_pending [OF rep am k fs] sock_update_idle [OF rep am k fs])
qed


section \<open>Delivery of a completion\<close>

text \<open>The result for the events \<open>e\<close>, and what is left of a socket with \<open>EPOLLONESHOT\<close>.\<close>

definition reported :: "sock_state \<Rightarrow> u32 \<Rightarrow> int \<times> epoll_event option \<Rightarrow> bool" where
  "reported k e res \<longleftrightarrow> (if e AND user_events k = 0 then res = (0, None)
     else res = (1, Some \<lparr>events = e AND user_events k, data = user_data k\<rparr>))"

definition after_report :: "u32 \<Rightarrow> sock_state \<Rightarrow> sock_state" where
  "after_report e k = (if e AND user_events k \<noteq> 0 \<and> user_events k AND EPOLLONESHOT \<noteq> 0 then k\<lparr>user_events := 0\<rparr> else k)"

lemma after_report_fields [simp]:
  "delete_pending (after_report e k) = delete_pending k" "poll_status (after_report e k) = poll_status k"
  "poll_group (after_report e k) = poll_group k" "pending_events (after_report e k) = pending_events k"
  "user_data (after_report e k) = user_data k"
  by (simp_all add: after_report_def)

lemma sock__report_spec:
  assumes rep: "port_rep {} s U D G m" and a: "a \<in> ran m" and k: "socks s a = Some k"
  shows "\<exists>res s' U'. sock__report a e s = Some (res, s') \<and> reported k e res \<and> port_rep {} s' U' D G m
    \<and> socks s' = (socks s)(a \<mapsto> after_report e k) \<and> in_flight s' = in_flight s \<and> frame s s'"
proof -
  have ok: "socks_ok {} s U D m" using rep by (simp add: port_rep_def)
  obtain q U' where q: "port_request_socket_update a s = Some (s\<lparr>queues := q\<rparr>)" "socks_ok {} (s\<lparr>queues := q\<rparr>) U' D m"
    "socks_only s (s\<lparr>queues := q\<rparr>)"
    using port_request_socket_update_spec [OF ok a] by blast
  let ?s1 = "s\<lparr>queues := q\<rparr>"
  have r1: "port_rep {} ?s1 U' D G m" using port_rep_same [OF rep q(2,3)] by simp
  let ?s2 = "?s1\<lparr>socks := (socks s)(a \<mapsto> after_report e k)\<rparr>"
  have "port_rep {} (?s1\<lparr>socks := (socks ?s1)(a \<mapsto> after_report e k)\<rparr>) U' D G m"
    by (rule port_rep_upd [OF r1, of a k]) (use k port_rep_sock_ok [OF rep k] in \<open>auto simp: after_report_def sock_ok_def\<close>)
  then have r2: "port_rep {} ?s2 U' D G m" by simp
  have id: "(socks s)(a \<mapsto> k) = socks s" using k by (simp add: fun_upd_idem)
  have "\<exists>res. sock__report a e s = Some (res, ?s2) \<and> reported k e res"
    using q(1) k id by (simp add: sock__report_def reported_def after_report_def upd_sock_def Let_def)
  then show ?thesis using r2 by (auto simp: frame_def)
qed

text \<open>What a completion stands for: the epoll events it reports, or the end of the socket.\<close>

definition completion_events :: "sock_state \<Rightarrow> u32 option" where
  "completion_events k =
     (if delete_pending k then None
      else if Status (io_status_block k) = STATUS_CANCELLED then Some 0
      else if \<not> NT_SUCCESS (Status (io_status_block k)) then Some EPOLLERR
      else if NumberOfHandles (poll_info k) < 1 then Some 0
      else if Events (Handles (poll_info k)) AND AFD_POLL_LOCAL_CLOSE \<noteq> 0 then None
      else Some (sock__afd_events_to_epoll_events (Events (Handles (poll_info k)))))"

lemma sock_feed_event_eq:
  assumes "socks s a = Some k"
  shows "sock_feed_event os a s =
    (let k1 = k\<lparr>poll_status := SOCK__POLL_IDLE, pending_events := 0\<rparr>; s1 = s\<lparr>socks := (socks s)(a \<mapsto> k1)\<rparr> in
     case completion_events k of
       None \<Rightarrow> do { (r, s) \<leftarrow> sock__delete os a False s1; Some ((r, None), s) }
     | Some e \<Rightarrow> sock__report a e s1)"
  using assms by (simp add: sock_feed_event_def completion_events_def upd_sock_def Let_def)

lemma sock_feed_event_spec:
  assumes rep: "port_rep {} s U D G m" and k: "socks s a = Some k" "a \<notin> in_flight s" and fs: "flight_ok s" "settled s"
  shows "\<exists>res s' U' D' G' m'. sock_feed_event os a s = Some (res, s') \<and> port_rep {} s' U' D' G' m'
    \<and> sock_only a s s' \<and> in_flight s' = in_flight s \<and> flight_ok s' \<and> settled s'
    \<and> (case completion_events k of
         None \<Rightarrow> res = (0, None) \<and> socks s' a = None \<and> m' = without a m
       | Some e \<Rightarrow> reported k e res \<and> m' = m
           \<and> socks s' a = Some (after_report e (k\<lparr>poll_status := SOCK__POLL_IDLE, pending_events := 0\<rparr>)))"
proof -
  let ?k1 = "k\<lparr>poll_status := SOCK__POLL_IDLE, pending_events := 0\<rparr>"
  let ?s1 = "s\<lparr>socks := (socks s)(a \<mapsto> ?k1)\<rparr>"
  have r1: "port_rep {} ?s1 U D G m" by (rule port_rep_upd [OF rep k(1)]) auto
  note e = sock_feed_event_eq [OF k(1), of os, unfolded Let_def]
  show ?thesis
  proof (cases "completion_events k")
    case None
    obtain s2 D' G' where d: "sock__delete os a False ?s1 = Some (0, s2)" "port_rep {} s2 (remove1 a U) D' G' (without a m)"
      "frame ?s1 s2" "in_flight s2 = in_flight ?s1" "socks s2 = (socks ?s1)(a := None)"
      using sock__delete_spec [OF r1, of a ?k1 os False] by auto
    have o: "sock_only a s s2" using d by (auto simp: sock_only_def frame_def)
    have "flight_ok s2" "settled s2" using flight_settled_one [OF fs o] d k(2) by auto
    then show ?thesis using e None d o by (intro exI [of _ "(0, None)"] exI [of _ s2]) auto
  next
    case (Some ev)
    have am: "a \<in> ran m" and nd: "\<not> delete_pending k"
      using Some port_rep_sock_ok [OF rep k(1)] by (auto simp: completion_events_def sock_ok_def split: if_splits)
    obtain res s2 U' where d: "sock__report a ev ?s1 = Some (res, s2)" "reported ?k1 ev res" "port_rep {} s2 U' D G m"
      "socks s2 = (socks ?s1)(a \<mapsto> after_report ev ?k1)" "in_flight s2 = in_flight ?s1" "frame ?s1 s2"
      using sock__report_spec [OF r1 am, of ?k1 ev] by auto
    have o: "sock_only a s s2" using d by (auto simp: sock_only_def frame_def)
    have "flight_ok s2" "settled s2"
      using flight_settled_one [OF fs o] d(4,5) k(2) nd by auto
    moreover have "reported k ev res" using d(2) by (simp add: reported_def)
    ultimately show ?thesis using e Some d o by (intro exI [of _ res] exI [of _ s2]) auto
  qed
qed


section \<open>Base sockets\<close>

text \<open>
  The layers of service providers above a base socket: asking a socket for the one below it leads
  down, or nowhere.
\<close>

definition layered :: "os \<Rightarrow> bool" where
  "layered os \<longleftrightarrow> (\<exists>depth :: u64 \<Rightarrow> nat. \<forall>n sock b. os_WSAIoctl os n sock SIO_BSP_HANDLE_POLL = Inr b \<longrightarrow>
     b = sock \<or> b = INVALID_SOCKET \<or> depth b < depth sock)"

lemma ws_ioctl_core: "ws__ioctl_get_bsp_socket os socket ioctl s = (b, s') \<Longrightarrow> core s' = core s"
  by (auto simp: ws__ioctl_get_bsp_socket_def split: sum.splits)

lemma ws_ioctl_bsp: "ws__ioctl_get_bsp_socket os socket ioctl s = (b, s') \<Longrightarrow> b \<noteq> INVALID_SOCKET \<Longrightarrow>
    os_WSAIoctl os (clock s) socket ioctl = Inr b"
  by (auto simp: ws__ioctl_get_bsp_socket_def split: sum.splits)

lemma ws_get_base_socket_spec:
  assumes "layered os"
  shows "\<exists>b s'. ws_get_base_socket os socket s = Some (b, s') \<and> core s' = core s
    \<and> (if b = INVALID_SOCKET then errors_agree (err s') else \<exists>n l. os_WSAIoctl os n l SIO_BASE_HANDLE = Inr b)"
proof -
  obtain depth :: "u64 \<Rightarrow> nat" where depth: "\<And>n sock b. os_WSAIoctl os n sock SIO_BSP_HANDLE_POLL = Inr b \<Longrightarrow>
     b = sock \<or> b = INVALID_SOCKET \<or> depth b < depth sock"
    using assms by (auto simp: layered_def)
  show ?thesis
  proof (induction "depth socket" arbitrary: socket s rule: less_induct)
    case less
    obtain b1 s1 where 1: "ws__ioctl_get_bsp_socket os socket SIO_BASE_HANDLE s = (b1, s1)" by (metis surj_pair)
    obtain b2 s2 where 2: "ws__ioctl_get_bsp_socket os socket SIO_BSP_HANDLE_POLL s1 = (b2, s2)" by (metis surj_pair)
    note c = ws_ioctl_core [OF 1] ws_ioctl_core [OF 2]
    have ag: "errors_agree (err (set_win_error e t))" for e t by (simp add: set_win_error_def)
    consider "b1 \<noteq> INVALID_SOCKET"
      | "b1 = INVALID_SOCKET" "last_error (err s1) = ''WSAENOTSOCK'' \<or> b2 = INVALID_SOCKET \<or> b2 = socket"
      | "b1 = INVALID_SOCKET" "last_error (err s1) \<noteq> ''WSAENOTSOCK''" "b2 \<noteq> INVALID_SOCKET" "b2 \<noteq> socket" by blast
    then show ?case
    proof cases
      case 1
      then show ?thesis using c \<open>ws__ioctl_get_bsp_socket os socket SIO_BASE_HANDLE s = (b1, s1)\<close> ws_ioctl_bsp
        by (subst ws_get_base_socket.simps) fastforce
    next
      case 2
      then show ?thesis
        using c ag \<open>ws__ioctl_get_bsp_socket os socket SIO_BASE_HANDLE s = (b1, s1)\<close>
          \<open>ws__ioctl_get_bsp_socket os socket SIO_BSP_HANDLE_POLL s1 = (b2, s2)\<close>
        by (subst ws_get_base_socket.simps) (auto simp: Let_def)
    next
      case 3
      have "depth b2 < depth socket" using depth ws_ioctl_bsp [OF 2 3(3)] 3 by blast
      from less [OF this, of s2] show ?thesis
        using c 1 2 3 by (subst ws_get_base_socket.simps) (simp add: Let_def)
    qed
  qed
qed

section \<open>Creation\<close>

text \<open>A socket with its fields set and its nodes initialised, not registered yet.\<close>

definition place_sock :: "nat \<Rightarrow> sock_state \<Rightarrow> port_state \<Rightarrow> port_state" where
  "place_sock a k s = s\<lparr>socks := (socks s)(a \<mapsto> k),
     sock_tree := (fst (sock_tree s), (snd (sock_tree s))(a \<mapsto> null_tree_node)),
     queues := (queues s)(SockN a \<mapsto> \<lparr>prev = SockN a, next = SockN a\<rparr>)\<rparr>"

lemma place_sock_links:
  assumes ok: "socks_ok {} s U D m" and a: "socks s a = None"
  shows "links_ok (place_sock a k s) U D" "tree_map (sock_tree (place_sock a k s)) m"
    "tree_alloc (sock_tree (place_sock a k s)) = (\<lambda>b. socks (place_sock a k s) b \<noteq> None)"
proof -
  have l: "links_ok s U D" and am: "a \<notin> ran m" and nU: "a \<notin> set U" "a \<notin> set D"
    using ok a by (auto simp: socks_ok_def)
  let ?q = "(queues s)(SockN a \<mapsto> \<lparr>prev = SockN a, next = SockN a\<rparr>)"
  have "is_queue ?q UpdateQ (map SockN U)"
    by (rule is_queue_frame [of "queues s"]) (use l nU in \<open>auto simp: links_ok_def\<close>)
  moreover have "is_queue ?q DeletedQ (map SockN D)"
    by (rule is_queue_frame [of "queues s"]) (use l nU in \<open>auto simp: links_ok_def\<close>)
  ultimately show "links_ok (place_sock a k s) U D" using l by (auto simp: links_ok_def place_sock_def detached_def)
  have "tree_map (fst (sock_tree s), (snd (sock_tree s))(a \<mapsto> null_tree_node)) m"
    by (rule tree_map_frame) (use ok am in \<open>auto simp: socks_ok_def index_ok_def\<close>)
  then show "tree_map (sock_tree (place_sock a k s)) m" by (simp add: place_sock_def)
  show "tree_alloc (sock_tree (place_sock a k s)) = (\<lambda>b. socks (place_sock a k s) b \<noteq> None)"
    using ok by (auto simp: place_sock_def socks_ok_def index_ok_def tree_alloc_def fun_eq_iff)
qed

lemma unplace_sock:
  assumes ok: "socks_ok {} s U D m" and a: "socks s a = None"
  shows "socks_ok {} (sock__free a (place_sock a k s)) U D m" "socks_only s (sock__free a (place_sock a k s))"
    "socks (sock__free a (place_sock a k s)) = socks s"
proof -
  let ?s = "sock__free a (place_sock a k s)"
  have l: "links_ok s U D" and am: "a \<notin> ran m" and nU: "a \<notin> set U" "a \<notin> set D"
    using ok a by (auto simp: socks_ok_def)
  show same: "socks ?s = socks s" using a by (auto simp: sock__free_def place_sock_def)
  have q: "queues ?s = (queues s)(SockN a := None)" by (simp add: sock__free_def place_sock_def)
  have "is_queue ((queues s)(SockN a := None)) UpdateQ (map SockN U)"
    by (rule is_queue_frame [of "queues s"]) (use l nU in \<open>auto simp: links_ok_def\<close>)
  moreover have "is_queue ((queues s)(SockN a := None)) DeletedQ (map SockN D)"
    by (rule is_queue_frame [of "queues s"]) (use l nU in \<open>auto simp: links_ok_def\<close>)
  ultimately have "links_ok ?s U D" using l same q a by (auto simp: links_ok_def detached_def)
  moreover have "tree_map (fst (sock_tree s), (snd (sock_tree s))(a := None)) m"
    by (rule tree_map_frame) (use ok am in \<open>auto simp: socks_ok_def index_ok_def\<close>)
  then have "index_ok ?s m"
    using ok a by (auto simp: socks_ok_def index_ok_def sock__free_def place_sock_def tree_alloc_def fun_eq_iff)
  moreover have "brk ?s = brk s" by (simp add: sock__free_def place_sock_def)
  ultimately show "socks_ok {} ?s U D m" using ok same by (simp add: socks_ok_def)
  show "socks_only s ?s" by (auto simp: socks_only_def sock__free_def place_sock_def)
qed

lemma members_new:
  assumes "finite (dom (socks s))" "socks s a = None" "socks s' = (socks s)(a \<mapsto> k)"
  shows "members s' = (members s)(poll_group k := Suc (members s (poll_group k)))"
proof
  fix g
  let ?M = "{b. \<exists>x. socks s b = Some x \<and> poll_group x = g}"
  have fin: "finite ?M" by (rule finite_subset [OF _ assms(1)]) auto
  have "{b. \<exists>x. socks s' b = Some x \<and> poll_group x = g} = (if g = poll_group k then insert a ?M else ?M)"
    using assms(2,3) by auto
  then show "members s' g = ((members s)(poll_group k := Suc (members s (poll_group k)))) g"
    using fin assms(2) by (auto simp: members_def card_insert_if)
qed


text \<open>Registering a socket that has been placed, with the branch for a key that is taken.\<close>

lemma register_spec:
  assumes ok: "socks_ok {} s U D m" and gr: "groups_ok s G ((members s)(poll_group k := Suc (members s (poll_group k))))"
    and gs: "\<forall>b x. socks s b = Some x \<longrightarrow> groups s (poll_group x) \<noteq> None" "groups s (poll_group k) \<noteq> None"
    and a: "a < brk s" "socks s a = None" and k: "poll_status k = SOCK__POLL_IDLE" "pending_events k = 0" "\<not> delete_pending k"
  shows "\<exists>p s' G'. (do {
       (r, s) \<leftarrow> port_register_socket a socket (place_sock a k s);
       (if r < 0 then do { s \<leftarrow> poll_group_release (poll_group k) (sock__free a s); Some (None, s) } else Some (Some a, s))
     }) = Some (p, s') \<and> frame s s' \<and> in_flight s' = in_flight s \<and>
     (case p of None \<Rightarrow> port_rep {} s' U D G' m \<and> socks s' = socks s
      | Some a' \<Rightarrow> a' = a \<and> m socket = None \<and> port_rep {} s' U D G' (m(socket \<mapsto> a)) \<and> socks s' = (socks s)(a \<mapsto> k))"
proof -
  let ?s = "place_sock a k s"
  let ?c = "(members s)(poll_group k := Suc (members s (poll_group k)))"
  note pl = place_sock_links [OF ok a(2), of k]
  have am: "a \<notin> ran m" and fin: "finite (dom (socks s))" using ok a(2) by (auto simp: socks_ok_def)
  have al: "tree_alloc (sock_tree ?s) a" using pl(3) by (simp add: place_sock_def)
  have so: "socks_only s ?s" by (auto simp: socks_only_def place_sock_def)
  show ?thesis
  proof (cases "m socket")
    case None
    obtain T where T: "tree_add (sock_tree ?s) a socket = Some (0, T)" "tree_map T (m(socket \<mapsto> a))" "tree_alloc T = tree_alloc (sock_tree ?s)"
      using rbi.add_law [OF pl(2) None am al] by blast
    let ?t = "?s\<lparr>sock_tree := T\<rparr>"
    have inj: "inj_on m (dom m)" using ok by (simp add: socks_ok_def index_ok_def)
    have rn: "ran (m(socket \<mapsto> a)) = insert a (ran m)" using None by simp
    have "index_ok ?t (m(socket \<mapsto> a))"
      using T pl(3) inj am by (auto simp: index_ok_def inj_on_def ran_def)
    moreover have "links_ok ?t U D" using pl(1) by (simp add: links_ok_def)
    ultimately have o: "socks_ok {} ?t U D (m(socket \<mapsto> a))"
      using ok a k rn am unfolding socks_ok_def by (auto simp: sock_ok_def place_sock_def)
    have "members ?t = ?c" using members_new [OF fin a(2), of ?t k] by (simp add: place_sock_def)
    then have "groups_ok ?t G (members ?t)" using groups_ok_socks_only [OF gr so] by (simp add: groups_ok_def)
    then have "port_rep {} ?t U D G (m(socket \<mapsto> a))" using o gs by (auto simp: port_rep_def place_sock_def)
    then show ?thesis using T(1) None
      by (intro exI [of _ "Some a"] exI [of _ ?t] exI [of _ G]) (auto simp: port_register_socket_def frame_def place_sock_def)
  next
    case (Some b)
    have e: "tree_add (sock_tree ?s) a socket = Some (-1, sock_tree ?s)" using rbi.add_exists [OF pl(2) _ am al] Some by simp
    let ?f = "set_win_error ''ERROR_ALREADY_EXISTS'' (sock__free a ?s)"
    have c: "core ?f = core (sock__free a ?s)" by simp
    note un = unplace_sock [OF ok a(2), of k]
    have "groups_ok ?f G ?c" using groups_ok_socks_only [OF gr un(2)] groups_ok_core [OF c] by simp
    then obtain s' G' where r: "poll_group_release (poll_group k) ?f = Some s'" "groups_only ?f s'"
      "groups_ok s' G' (?c(poll_group k := ?c (poll_group k) - 1))" "dom (groups s') = dom (groups ?f)"
      using poll_group_release_spec [of ?f G ?c "poll_group k"] gs(2) un(2) by (auto simp: socks_only_def)
    have same: "socks s' = socks s" "in_flight s' = in_flight s"
      using r(2) un(3) by (auto simp: groups_only_def sock__free_def place_sock_def)
    have o: "socks_ok {} s' U D m"
      using socks_ok_groups_only(1) [OF _ r(2)] un(1) socks_ok_core(1) [OF c] by simp
    have "members s' = members s" using same by (simp add: members_def fun_eq_iff)
    then have "port_rep {} s' U D G' m"
      using o r(3,4) gs(1) same un(2) by (auto simp: port_rep_def socks_only_def)
    moreover have "frame s s'" using un(2) frame_only(2) [OF r(2)] by (auto simp: frame_def socks_only_def)
    moreover have "sock__free a (set_win_error ''ERROR_ALREADY_EXISTS'' ?s) = ?f"
      by (simp add: sock__free_def set_win_error_def)
    moreover have "?s\<lparr>sock_tree := sock_tree ?s\<rparr> = ?s" by simp
    ultimately show ?thesis using e r(1) same
      by (intro exI [of _ None] exI [of _ s'] exI [of _ G']) (simp add: port_register_socket_def Let_def)
  qed
qed


lemma groups_of_members:
  assumes "socks_ok X s U D m" "groups_ok s G c" "socks s b = Some x" "\<And>g. members s g \<le> c g"
  shows "groups s (poll_group x) \<noteq> None"
proof -
  have "finite (dom (socks s))" using assms(1) by (simp add: socks_ok_def)
  then have "0 < members s (poll_group x)"
    using members_free(2) [of s b x "s\<lparr>socks := (socks s)(b := None)\<rparr>"] assms(3) by simp
  then have "0 < c (poll_group x)" using assms(4) [of "poll_group x"] by simp
  then show ?thesis using assms(2) by (auto simp: groups_ok_def)
qed

text \<open>Allocation, with the branch in which there is no memory.\<close>

lemma sock_new_alloc:
  assumes ok: "socks_ok {} s U D m" and gr: "groups_ok s G ((members s)(g := Suc (members s g)))" and g: "groups s g \<noteq> None"
    and gs: "\<forall>b x. socks s b = Some x \<longrightarrow> groups s (poll_group x) \<noteq> None"
    and e: "r = (case sock__alloc os s of
         (None, s) \<Rightarrow> do { s \<leftarrow> poll_group_release g s; Some (None, s) }
       | (Some a, s) \<Rightarrow> do {
           s \<leftarrow> upd_sock (\<lambda>k. k\<lparr>base_socket := bs, poll_group := g\<rparr>) a s;
           th \<leftarrow> tree_node_init (snd (sock_tree s)) a;
           let s = s\<lparr>sock_tree := (fst (sock_tree s), th)\<rparr>;
           s \<leftarrow> on_queues (\<lambda>q. queue_node_init q (SockN a)) s;
           (r, s) \<leftarrow> port_register_socket a socket s;
           (if r < 0 then do { s \<leftarrow> poll_group_release g (sock__free a s); Some (None, s) }
            else Some (Some a, s))
         })"
  shows "\<exists>p s' G'. r = Some (p, s') \<and> frame s s' \<and> in_flight s' = in_flight s \<and>
    (case p of None \<Rightarrow> port_rep {} s' U D G' m \<and> socks s' = socks s
     | Some a \<Rightarrow> m socket = None \<and> socks s a = None \<and> port_rep {} s' U D G' (m(socket \<mapsto> a))
         \<and> (\<exists>k. socks s' = (socks s)(a \<mapsto> k) \<and> poll_status k = SOCK__POLL_IDLE \<and> \<not> delete_pending k))"
proof (cases "os_malloc os (clock s)")
  case False
  let ?s = "set_win_error ''ERROR_NOT_ENOUGH_MEMORY'' (tick s)"
  have c: "core ?s = core s" by simp
  note f = core_fields [OF c]
  obtain s' G' where r: "poll_group_release g ?s = Some s'" "groups_only ?s s'"
    "groups_ok s' G' (((members s)(g := Suc (members s g)))(g := ((members s)(g := Suc (members s g))) g - 1))" "dom (groups s') = dom (groups ?s)"
    using poll_group_release_spec [of ?s G "(members s)(g := Suc (members s g))" g] gr g groups_ok_core [OF c] by auto
  have o: "socks_ok {} s' U D m" "members s' = members s"
    using socks_ok_groups_only [OF _ r(2)] ok socks_ok_core [OF c] by auto
  have same: "socks s' = socks s" "in_flight s' = in_flight s" using r(2) by (auto simp: groups_only_def)
  have "port_rep {} s' U D G' m" using o r(3,4) gs same by (auto simp: port_rep_def)
  then show ?thesis using e False r(1) same frame_only(2) [OF r(2)]
    by (intro exI [of _ None] exI [of _ s'] exI [of _ G']) (auto simp: sock__alloc_def malloc_def frame_def)
next
  case True
  let ?a = "brk s"
  let ?s = "(tick s)\<lparr>brk := Suc (brk s)\<rparr>"
  let ?k = "zero_sock\<lparr>base_socket := bs, poll_group := g\<rparr>"
  have a: "socks s ?a = None" using ok by (auto simp: socks_ok_def)
  have ok': "socks_ok {} ?s U D m"
    using ok by (auto simp: socks_ok_def links_ok_def index_ok_def less_SucI)
  have mm: "members ?s = members s" by (simp add: members_def fun_eq_iff)
  have gr': "groups_ok ?s G ((members ?s)(poll_group ?k := Suc (members ?s (poll_group ?k))))"
    using gr unfolding mm by (auto simp: groups_ok_def less_SucI)
  have pk: "poll_group ?k = g" by simp
  have k: "poll_status ?k = SOCK__POLL_IDLE" "pending_events ?k = 0" "\<not> delete_pending ?k" by (auto simp: zero_sock_def)
  have e': "r = do {
       (r, s) \<leftarrow> port_register_socket ?a socket (place_sock ?a ?k ?s);
       (if r < 0 then do { s \<leftarrow> poll_group_release g (sock__free ?a s); Some (None, s) } else Some (Some ?a, s))
     }"
    using e True by (simp add: sock__alloc_def malloc_def upd_sock_def new_sock_def tree_node_init_def upd_def
        on_queues_def queue_node_init_spec place_sock_def Let_def)
  obtain p s' G' where "r = Some (p, s')" "frame ?s s'" "in_flight s' = in_flight ?s"
     "case p of None \<Rightarrow> port_rep {} s' U D G' m \<and> socks s' = socks ?s
      | Some a' \<Rightarrow> a' = ?a \<and> m socket = None \<and> port_rep {} s' U D G' (m(socket \<mapsto> ?a)) \<and> socks s' = (socks ?s)(?a \<mapsto> ?k)"
    using register_spec [OF ok' gr' _ _ _ _ k, of ?a socket, unfolded pk] gs g a unfolding e' by auto
  then show ?thesis using a k by (intro exI [of _ p] exI [of _ s'] exI [of _ G']) (auto simp: frame_def split: option.splits)
qed

lemma sock_new_spec:
  assumes rep: "port_rep {} s U D G m" and os: "layered os" and h: "iocp_handle s \<noteq> 0"
  shows "\<exists>p s' G'. sock_new os socket s = Some (p, s') \<and> frame s s' \<and> in_flight s' = in_flight s \<and>
    (case p of None \<Rightarrow> port_rep {} s' U D G' m \<and> socks s' = socks s
     | Some a \<Rightarrow> m socket = None \<and> socks s a = None \<and> port_rep {} s' U D G' (m(socket \<mapsto> a))
         \<and> (\<exists>k. socks s' = (socks s)(a \<mapsto> k) \<and> poll_status k = SOCK__POLL_IDLE \<and> \<not> delete_pending k))"
proof (cases "socket = 0 \<or> socket = INVALID_SOCKET")
  case True
  have c: "core (set_win_error ''ERROR_INVALID_HANDLE'' s) = core s" by simp
  then show ?thesis using True rep port_rep_core [OF c]
    by (intro exI [of _ None] exI [of _ "set_win_error ''ERROR_INVALID_HANDLE'' s"] exI [of _ G])
      (auto simp: sock_new_def frame_def)
next
  case False
  obtain bs s1 where 1: "ws_get_base_socket os socket s = Some (bs, s1)" "core s1 = core s"
    using ws_get_base_socket_spec [OF os] by blast
  note f1 = core_fields [OF 1(2)]
  have r1: "port_rep {} s1 U D G m" using rep port_rep_core [OF 1(2)] by simp
  show ?thesis
  proof (cases "bs = INVALID_SOCKET")
    case True
    then show ?thesis using False 1 r1 f1
      by (intro exI [of _ None] exI [of _ s1] exI [of _ G]) (auto simp: sock_new_def frame_def)
  next
    case bs: False
    obtain pg s2 where 2: "poll_group_acquire os s1 = Some (pg, s2)" "groups_only s1 s2"
      "case pg of None \<Rightarrow> \<exists>G'. groups_ok s2 G' (members s1)
       | Some g \<Rightarrow> (\<exists>G'. groups_ok s2 G' ((members s1)(g := Suc (members s1 g)))) \<and> groups s2 g \<noteq> None"
      using poll_group_acquire_spec [of s1 G "members s1" os] r1 h f1 unfolding port_rep_def
      by (fastforce split: option.splits)
    have o2: "socks_ok {} s2 U D m" "members s2 = members s1"
      using socks_ok_groups_only [OF _ 2(2)] r1 by (auto simp: port_rep_def)
    have e2: "socks s2 = socks s" "in_flight s2 = in_flight s" using 2(2) f1 by (auto simp: groups_only_def)
    have f2: "frame s s2" using frame_only(2) [OF 2(2)] f1 by (auto simp: frame_def)
    show ?thesis
    proof (cases pg)
      case None
      then obtain G' where G': "groups_ok s2 G' (members s2)" using 2(3) o2(2) by auto
      then have "port_rep {} s2 U D G' m" using o2(1) groups_of_members [OF o2(1) G'] by (auto simp: port_rep_def)
      then show ?thesis using False 1 2(1) bs None e2 f2
        by (intro exI [of _ None] exI [of _ s2] exI [of _ G']) (auto simp: sock_new_def)
    next
      case (Some g)
      then obtain G' where G': "groups_ok s2 G' ((members s2)(g := Suc (members s2 g)))" and g: "groups s2 g \<noteq> None"
        using 2(3) o2(2) by auto
      have gs: "\<forall>b x. socks s2 b = Some x \<longrightarrow> groups s2 (poll_group x) \<noteq> None"
        using groups_of_members [OF o2(1) G'] by auto
      have e: "sock_new os socket s = (case sock__alloc os s2 of
           (None, s) \<Rightarrow> do { s \<leftarrow> poll_group_release g s; Some (None, s) }
         | (Some a, s) \<Rightarrow> do {
             s \<leftarrow> upd_sock (\<lambda>k. k\<lparr>base_socket := bs, poll_group := g\<rparr>) a s;
             th \<leftarrow> tree_node_init (snd (sock_tree s)) a;
             let s = s\<lparr>sock_tree := (fst (sock_tree s), th)\<rparr>;
             s \<leftarrow> on_queues (\<lambda>q. queue_node_init q (SockN a)) s;
             (r, s) \<leftarrow> port_register_socket a socket s;
             (if r < 0 then do { s \<leftarrow> poll_group_release g (sock__free a s); Some (None, s) }
              else Some (Some a, s))
           })"
        using False 1(1) 2(1) bs Some by (simp add: sock_new_def)
      obtain p s' G'' where n: "sock_new os socket s = Some (p, s')" "frame s2 s'" "in_flight s' = in_flight s2"
        "case p of None \<Rightarrow> port_rep {} s' U D G'' m \<and> socks s' = socks s2
         | Some a \<Rightarrow> m socket = None \<and> socks s2 a = None \<and> port_rep {} s' U D G'' (m(socket \<mapsto> a))
             \<and> (\<exists>k. socks s' = (socks s2)(a \<mapsto> k) \<and> poll_status k = SOCK__POLL_IDLE \<and> \<not> delete_pending k)"
        using sock_new_alloc [OF o2(1) G' g gs e] by blast
      then show ?thesis using e2 frame_trans [OF f2 n(2)]
        by (intro exI [of _ p] exI [of _ s'] exI [of _ G'']) (auto split: option.splits)
    qed
  qed
qed

end
