(* ===== verification/WepollPortInv.thy ===== *)
theory WepollPortInv
  imports WepollSockOps
begin

text \<open>
  The operations on ports keep the invariant, whatever the operating system answers and whatever
  the other threads do while the lock is released: no assertion fails, no freed object is used, no
  event is written outside of the caller's array, and no socket is freed while the driver still
  has a request for it. The set of sockets a port watches is an abstract map, and the control
  operations and the wait are described in terms of it.
\<close>

section \<open>The sockets that are watched\<close>

definition epoll_set :: "port_state \<Rightarrow> u64 \<Rightarrow> (u32 \<times> u64) option" where
  "epoll_set s q = (case tree_find (sock_tree s) q of
     Some (Some a) \<Rightarrow> map_option (\<lambda>k. (user_events k, user_data k)) (socks s a)
   | _ \<Rightarrow> None)"

definition watched :: "port_state \<Rightarrow> (u64 \<Rightarrow> nat option) \<Rightarrow> u64 \<Rightarrow> (u32 \<times> u64) option" where
  "watched s m q = (case m q of None \<Rightarrow> None | Some a \<Rightarrow> map_option (\<lambda>k. (user_events k, user_data k)) (socks s a))"

lemma epoll_set_watched: "port_rep X s U D G m \<Longrightarrow> epoll_set s = watched s m"
  unfolding port_rep_def socks_ok_def index_ok_def
  by (auto simp: epoll_set_def watched_def fun_eq_iff rbi.find_law split: option.splits)

lemma watched_updated:
  assumes "updated a s m s' m'"
  shows "watched s' m' \<subseteq>\<^sub>m watched s m"
proof -
  have o: "\<And>b. b \<noteq> a \<Longrightarrow> socks s' b = socks s b" using assms by (simp add: updated_def sock_only_def)
  have "watched s' m' q = watched s m q" if "watched s' m' q \<noteq> None" for q
  proof (cases "m' q = Some a")
    case True
    then show ?thesis using assms by (auto simp: updated_def watched_def without_def split: if_splits)
  next
    case False
    then show ?thesis using that assms o by (auto simp: updated_def watched_def without_def split: option.splits if_splits)
  qed
  then show ?thesis by (auto simp: map_le_def dom_def)
qed

section \<open>Updates\<close>

lemma port__update_events_spec:
  assumes "port_rep {} s U D G m" "flight_ok s" "settled s"
  shows "\<exists>r s' U' D' G' m'. port__update_events os s = Some (r, s') \<and> port_rep {} s' U' D' G' m' \<and> flight_ok s' \<and> settled s'
    \<and> frame s s' \<and> (r = 0 \<and> U' = [] \<or> r = -1) \<and> watched s' m' \<subseteq>\<^sub>m watched s m"
  using assms
proof (induction "length U" arbitrary: s U D G m)
  case 0
  then have U: "U = []" and q: "is_queue (queues s) UpdateQ []" by (auto simp: port_rep_def socks_ok_def links_ok_def)
  have e: "port__update_events os s = Some (0, s)"
    by (subst port__update_events.simps) (simp add: queue_is_empty_spec [OF q])
  have "frame s s" by (simp add: frame_def)
  then show ?case using e 0 U map_le_refl by blast
next
  case (Suc n)
  obtain a V where U: "U = a # V" using Suc.hyps(2) by (metis length_Suc_conv)
  have ok: "socks_ok {} s U D m" using Suc.prems(1) by (simp add: port_rep_def)
  then have am: "a \<in> ran m" and q: "is_queue (queues s) UpdateQ (SockN a # map SockN V)"
    using U by (auto simp: socks_ok_def links_ok_def)
  then obtain k where k: "socks s a = Some k" using ok by (auto simp: socks_ok_def)
  have nd: "\<not> delete_pending k" using port_rep_sock_ok [OF Suc.prems(1) k] am by (simp add: sock_ok_def)
  obtain r s1 U1 D1 G1 m1 where u: "sock_update os a s = Some (r, s1)" "port_rep {} s1 U1 D1 G1 m1" "updated a s m s1 m1"
    "r = 0 \<and> U1 = remove1 a U \<or> r = -1"
    using sock_update_spec [OF Suc.prems(1) k nd Suc.prems(2,3)] unfolding update_result_def by blast
  have w: "watched s1 m1 \<subseteq>\<^sub>m watched s m" and f: "frame s s1" "flight_ok s1" "settled s1"
    using watched_updated [OF u(3)] u(3) by (auto simp: updated_def sock_only_def)
  have e: "port__update_events os s = (if r < 0 then Some (-1, s1) else port__update_events os s1)"
    using queue_is_empty_spec [OF q] queue_first_spec [OF q] u(1)
    by (subst port__update_events.simps) (simp add: sock_state_from_queue_node_def)
  show ?case
  proof (cases "r = 0")
    case True
    then have "n = length U1" using u(4) U Suc.hyps(2) by simp
    from Suc.hyps(1) [OF this u(2) f(2,3)] obtain r2 s2 U2 D2 G2 m2 where i: "port__update_events os s1 = Some (r2, s2)"
      "port_rep {} s2 U2 D2 G2 m2" "flight_ok s2" "settled s2" "frame s1 s2" "r2 = 0 \<and> U2 = [] \<or> r2 = -1"
      "watched s2 m2 \<subseteq>\<^sub>m watched s1 m1" by blast
    moreover have "port__update_events os s = Some (r2, s2)" using e True i(1) by simp
    ultimately show ?thesis using frame_trans [OF f(1) i(5)] map_le_trans [OF i(7) w] by blast
  next
    case False
    then have "port__update_events os s = Some (-1, s1)" using e u(4) by simp
    then show ?thesis using u(2) f w by blast
  qed
qed

lemma port__update_events_if_polling_spec:
  assumes "port_rep {} s U D G m" "flight_ok s" "settled s"
  shows "\<exists>s' U' D' G' m'. port__update_events_if_polling os s = Some s' \<and> port_rep {} s' U' D' G' m' \<and> flight_ok s' \<and> settled s'
    \<and> frame s s' \<and> watched s' m' \<subseteq>\<^sub>m watched s m"
proof (cases "active_poll_count s > 0")
  case True
  obtain r s' U' D' G' m' where "port__update_events os s = Some (r, s')" "port_rep {} s' U' D' G' m'" "flight_ok s'" "settled s'"
    "frame s s'" "watched s' m' \<subseteq>\<^sub>m watched s m"
    using port__update_events_spec [OF assms] by blast
  moreover have "port__update_events_if_polling os s = Some s'"
    using True calculation(1) by (simp add: port__update_events_if_polling_def)
  ultimately show ?thesis by blast
next
  case False
  then have "port__update_events_if_polling os s = Some s" "frame s s"
    by (simp_all add: port__update_events_if_polling_def frame_def)
  then show ?thesis using assms map_le_refl by blast
qed


section \<open>Control\<close>

text \<open>A port that is open, with everything in order.\<close>

lemma port_invE:
  assumes "port_inv s"
  obtains U D G m where "port_rep {} s U D G m" "flight_ok s" "settled s"
  using assms by (auto simp: port_inv_def)

lemma flight_settled_same:
  assumes "flight_ok s" "settled s" "in_flight s' = in_flight s" "socks s' = (socks s)(a \<mapsto> k')"
    "a \<notin> in_flight s \<or> poll_status k' \<noteq> SOCK__POLL_IDLE" "\<not> delete_pending k' \<or> poll_status k' \<noteq> SOCK__POLL_IDLE"
  shows "flight_ok s'" "settled s'"
  using assms by (auto simp: flight_ok_def settled_def)

text \<open>Setting the events of a registered socket, and the update that follows when a thread waits.\<close>

lemma set_and_update:
  assumes rep: "port_rep {} s U D G m" and fs: "flight_ok s" "settled s" and a: "m q = Some a"
  shows "\<exists>s1 s' U' D' G' m'. sock_set_event a ev s = Some (0, s1) \<and> port__update_events_if_polling os s1 = Some s'
    \<and> port_rep {} s' U' D' G' m' \<and> flight_ok s' \<and> settled s' \<and> frame s s'
    \<and> watched s' m' \<subseteq>\<^sub>m (watched s m)(q \<mapsto> (events ev OR EPOLLERR OR EPOLLHUP, data ev))
    \<and> (active_poll_count s = 0 \<longrightarrow> watched s' m' = (watched s m)(q \<mapsto> (events ev OR EPOLLERR OR EPOLLHUP, data ev)))"
proof -
  have am: "a \<in> ran m" using a by (auto simp: ran_def)
  then obtain k where k: "socks s a = Some k" using rep by (auto simp: port_rep_def socks_ok_def)
  have nd: "\<not> delete_pending k" using port_rep_sock_ok [OF rep k] am by (simp add: sock_ok_def)
  let ?k = "k\<lparr>user_events := events ev OR EPOLLERR OR EPOLLHUP, user_data := data ev\<rparr>"
  obtain qh U1 where 1: "sock_set_event a ev s = Some (0, s\<lparr>socks := (socks s)(a \<mapsto> ?k), queues := qh\<rparr>)"
    "port_rep {} (s\<lparr>socks := (socks s)(a \<mapsto> ?k), queues := qh\<rparr>) U1 D G m"
    using sock_set_event_spec [OF rep k nd] by blast
  let ?s1 = "s\<lparr>socks := (socks s)(a \<mapsto> ?k), queues := qh\<rparr>"
  have pk: "a \<notin> in_flight s \<or> poll_status k \<noteq> SOCK__POLL_IDLE" using fs(1) k by (auto simp: flight_ok_def)
  have f1: "flight_ok ?s1" "settled ?s1"
    using flight_settled_same [OF fs, of ?s1 a ?k] pk nd by auto
  have inj: "m q' = Some a \<longleftrightarrow> q' = q" for q' using port_rep_index [OF rep] a by (metis domI inj_onD)
  have w1: "watched ?s1 m = (watched s m)(q \<mapsto> (events ev OR EPOLLERR OR EPOLLHUP, data ev))"
  proof
    fix x
    show "watched ?s1 m x = ((watched s m)(q \<mapsto> (events ev OR EPOLLERR OR EPOLLHUP, data ev))) x"
      using inj [of x] a by (cases "m x") (auto simp: watched_def)
  qed
  obtain s' U' D' G' m' where 2: "port__update_events_if_polling os ?s1 = Some s'" "port_rep {} s' U' D' G' m'"
    "flight_ok s'" "settled s'" "frame ?s1 s'" "watched s' m' \<subseteq>\<^sub>m watched ?s1 m"
    using port__update_events_if_polling_spec [OF 1(2) f1] by blast
  have "frame s s'" using 2(5) by (simp add: frame_def)
  moreover have "watched s' m' = watched ?s1 m" if "active_poll_count s = 0"
  proof -
    have "s' = ?s1" using 2(1) that by (simp add: port__update_events_if_polling_def)
    then show ?thesis using epoll_set_watched [OF 2(2)] epoll_set_watched [OF 1(2)] by simp
  qed
  ultimately show ?thesis using 1(1) 2 unfolding w1 by blast
qed


lemma watched_None: "port_rep X s U D G m \<Longrightarrow> watched s m q = None \<longleftrightarrow> m q = None"
  unfolding port_rep_def socks_ok_def watched_def
  by (auto simp: ran_def dom_def split: option.splits)

lemma watched_core:
  assumes "core s' = core s"
  shows "watched s' m = watched s m"
  by (rule ext) (simp add: watched_def core_fields [OF assms] split: option.split)

lemma port_find_socket_spec:
  assumes "port_rep X s U D G m"
  shows "port_find_socket q s = Some (case m q of None \<Rightarrow> (None, set_win_error ''ERROR_NOT_FOUND'' s) | Some a \<Rightarrow> (Some a, s))"
  using assms by (auto simp: port_find_socket_def port_rep_def socks_ok_def index_ok_def rbi.find_law split: option.splits)

text \<open>
  What a control operation may do to the set of watched sockets. While another thread waits the
  requests are updated at once, and sockets whose handle turns out to be invalid are dropped.
\<close>

definition ctl_effect :: "int \<Rightarrow> u64 \<Rightarrow> epoll_event \<Rightarrow> port_state \<Rightarrow> int \<Rightarrow> port_state \<Rightarrow> bool" where
  "ctl_effect op sock ev s r s' \<longleftrightarrow>
     (let new = (epoll_set s)(sock \<mapsto> (events ev OR EPOLLERR OR EPOLLHUP, data ev));
          set_new = (epoll_set s' \<subseteq>\<^sub>m new \<and> (active_poll_count s = 0 \<longrightarrow> epoll_set s' = new))
      in if r = -1 then epoll_set s' = epoll_set s \<and> (op = EPOLL_CTL_MOD \<or> op = EPOLL_CTL_DEL \<longrightarrow> epoll_set s sock = None)
         else r = 0 \<and>
          (op = EPOLL_CTL_ADD \<and> epoll_set s sock = None \<and> set_new
           \<or> op = EPOLL_CTL_MOD \<and> epoll_set s sock \<noteq> None \<and> set_new
           \<or> op = EPOLL_CTL_DEL \<and> epoll_set s sock \<noteq> None \<and> epoll_set s' = (epoll_set s)(sock := None)))"

definition ctl_ok :: "int \<Rightarrow> u64 \<Rightarrow> epoll_event \<Rightarrow> port_state \<Rightarrow> (int \<times> port_state) option \<Rightarrow> bool" where
  "ctl_ok op sock ev s res \<longleftrightarrow> (\<exists>r s'. res = Some (r, s') \<and> port_inv s' \<and> frame s s' \<and> ctl_effect op sock ev s r s')"

lemma ctl_fail:
  assumes "port_inv s" "port_rep {} s U D G m" "core s' = core s" "op = EPOLL_CTL_MOD \<or> op = EPOLL_CTL_DEL \<longrightarrow> m sock = None"
  shows "ctl_ok op sock ev s (Some (-1, s'))"
proof -
  have "epoll_set s' = epoll_set s" by (rule ext) (simp add: epoll_set_def core_fields [OF assms(3)] split: option.split)
  moreover have "m sock = None \<longrightarrow> epoll_set s sock = None"
    using epoll_set_watched [OF assms(2)] watched_None [OF assms(2)] by simp
  ultimately show ?thesis
    using assms port_inv_core [OF assms(3)] by (simp add: ctl_ok_def ctl_effect_def frame_def core_fields [OF assms(3)])
qed

lemma ctl_update:
  assumes rep: "port_rep {} s U D G m" and fs: "flight_ok s" "settled s" and a: "m q = Some a" and s0: "frame s0 s"
    "op = EPOLL_CTL_ADD \<and> epoll_set s0 q = None \<or> op = EPOLL_CTL_MOD \<and> epoll_set s0 q \<noteq> None"
    "\<And>x. (epoll_set s)(q \<mapsto> x) = (epoll_set s0)(q \<mapsto> x)"
  shows "\<exists>s1. sock_set_event a ev s = Some (0, s1) \<and>
    ctl_ok op q ev s0 (do { s \<leftarrow> port__update_events_if_polling os s1; Some (0, s) })"
proof -
  obtain s1 s' U' D' G' m' where 1: "sock_set_event a ev s = Some (0, s1)" "port__update_events_if_polling os s1 = Some s'"
    "port_rep {} s' U' D' G' m'" "flight_ok s'" "settled s'" "frame s s'"
    "watched s' m' \<subseteq>\<^sub>m (watched s m)(q \<mapsto> (events ev OR EPOLLERR OR EPOLLHUP, data ev))"
    "active_poll_count s = 0 \<longrightarrow> watched s' m' = (watched s m)(q \<mapsto> (events ev OR EPOLLERR OR EPOLLHUP, data ev))"
    using set_and_update [OF rep fs a] by blast
  have "port_inv s'" using 1 by (auto simp: port_inv_def)
  moreover have "frame s0 s'" using s0(1) 1(6) frame_trans by blast
  moreover have "ctl_effect op q ev s0 0 s'"
    using 1(7,8) s0 unfolding epoll_set_watched [OF rep, symmetric] epoll_set_watched [OF 1(3), symmetric]
    by (auto simp: ctl_effect_def Let_def frame_def)
  ultimately show ?thesis using 1(1,2) by (auto simp: ctl_ok_def)
qed

lemma port__ctl_mod_spec:
  assumes "port_inv s"
  shows "ctl_ok EPOLL_CTL_MOD sock ev s (port__ctl_mod os sock ev s)"
proof -
  obtain U D G m where rep: "port_rep {} s U D G m" and fs: "flight_ok s" "settled s" using assms by (rule port_invE)
  note fnd = port_find_socket_spec [OF rep, of sock]
  show ?thesis
  proof (cases "m sock")
    case None
    then show ?thesis using fnd ctl_fail [OF assms rep, of "set_win_error ''ERROR_NOT_FOUND'' s" EPOLL_CTL_MOD sock ev]
      by (simp add: port__ctl_mod_def)
  next
    case (Some a)
    have "epoll_set s sock \<noteq> None" using Some epoll_set_watched [OF rep] watched_None [OF rep] by simp
    then obtain s1 where "sock_set_event a ev s = Some (0, s1)"
      "ctl_ok EPOLL_CTL_MOD sock ev s (do { s \<leftarrow> port__update_events_if_polling os s1; Some (0, s) })"
      using ctl_update [OF rep fs Some, of s EPOLL_CTL_MOD ev os] by (auto simp: frame_def)
    then show ?thesis using fnd Some by (simp add: port__ctl_mod_def)
  qed
qed

lemma port__ctl_del_spec:
  assumes "port_inv s"
  shows "ctl_ok EPOLL_CTL_DEL sock ev s (port__ctl_del os sock s)"
proof -
  obtain U D G m where rep: "port_rep {} s U D G m" and fs: "flight_ok s" "settled s" using assms by (rule port_invE)
  note fnd = port_find_socket_spec [OF rep, of sock]
  show ?thesis
  proof (cases "m sock")
    case None
    then show ?thesis using fnd ctl_fail [OF assms rep, of "set_win_error ''ERROR_NOT_FOUND'' s" EPOLL_CTL_DEL sock ev]
      by (simp add: port__ctl_del_def)
  next
    case (Some a)
    have am: "a \<in> ran m" using Some by (auto simp: ran_def)
    then obtain k where k: "socks s a = Some k" using rep by (auto simp: port_rep_def socks_ok_def)
    obtain s' D' G' where d: "sock__delete os a False s = Some (0, s')" "port_rep {} s' (remove1 a U) D' G' (without a m)"
      "frame s s'" "in_flight s' = in_flight s"
      "if poll_status k = SOCK__POLL_IDLE then socks s' = (socks s)(a := None)
       else \<exists>k'. socks s' = (socks s)(a \<mapsto> k') \<and> delete_pending k' \<and> poll_status k' \<noteq> SOCK__POLL_IDLE"
      using sock__delete_spec [OF rep k, of os False] by auto
    have so: "sock_only a s s'" using d(3,4,5) by (auto simp: sock_only_def split: if_splits)
    have pk: "a \<in> in_flight s \<longrightarrow> poll_status k \<noteq> SOCK__POLL_IDLE" using fs(1) k by (auto simp: flight_ok_def)
    have "flight_ok s'" "settled s'"
      using flight_settled_one [OF fs so] d(4,5) pk by (auto split: if_splits)
    then have "port_inv s'" using d(2) by (auto simp: port_inv_def)
    moreover have "watched s' (without a m) = (watched s m)(sock := None)"
    proof -
      have inj: "m q' = Some a \<longleftrightarrow> q' = sock" for q' using port_rep_index [OF rep] Some by (metis domI inj_onD)
      show ?thesis
      proof
        fix x
        show "watched s' (without a m) x = ((watched s m)(sock := None)) x"
          using inj [of x] so by (cases "m x") (auto simp: watched_def without_def sock_only_def)
      qed
    qed
    moreover have "epoll_set s sock \<noteq> None" using Some epoll_set_watched [OF rep] watched_None [OF rep] by simp
    ultimately show ?thesis using fnd Some d(1,2,3) epoll_set_watched [OF rep] epoll_set_watched [OF d(2)]
      by (simp add: port__ctl_del_def sock_delete_def ctl_ok_def ctl_effect_def EPOLL_CTL_DEL_def EPOLL_CTL_ADD_def EPOLL_CTL_MOD_def)
  qed
qed

lemma port__ctl_add_spec:
  assumes "port_inv s" and os: "layered os" and h: "iocp_handle s \<noteq> 0"
  shows "ctl_ok EPOLL_CTL_ADD sock ev s (port__ctl_add os sock ev s)"
proof -
  obtain U D G m where rep: "port_rep {} s U D G m" and fs: "flight_ok s" "settled s" using assms(1) by (rule port_invE)
  obtain p s1 G1 where n: "sock_new os sock s = Some (p, s1)" "frame s s1" "in_flight s1 = in_flight s"
    "case p of None \<Rightarrow> port_rep {} s1 U D G1 m \<and> socks s1 = socks s
     | Some a \<Rightarrow> m sock = None \<and> socks s a = None \<and> port_rep {} s1 U D G1 (m(sock \<mapsto> a))
         \<and> (\<exists>k. socks s1 = (socks s)(a \<mapsto> k) \<and> poll_status k = SOCK__POLL_IDLE \<and> \<not> delete_pending k)"
    using sock_new_spec [OF rep os h] by blast
  show ?thesis
  proof (cases p)
    case None
    then have r1: "port_rep {} s1 U D G1 m" "socks s1 = socks s" using n(4) by auto
    have "flight_ok s1" "settled s1" using fs r1(2) n(3) by (auto simp: flight_ok_def settled_def)
    then have "port_inv s1" using r1 by (auto simp: port_inv_def)
    moreover have "epoll_set s1 = epoll_set s"
      unfolding epoll_set_watched [OF rep] epoll_set_watched [OF r1(1)] using r1(2) by (intro ext) (simp add: watched_def split: option.split)
    ultimately show ?thesis using None n
      by (simp add: port__ctl_add_def ctl_ok_def ctl_effect_def EPOLL_CTL_DEL_def EPOLL_CTL_ADD_def EPOLL_CTL_MOD_def)
  next
    case (Some a)
    then obtain k where r1: "m sock = None" "socks s a = None" "port_rep {} s1 U D G1 (m(sock \<mapsto> a))"
      "socks s1 = (socks s)(a \<mapsto> k)" "poll_status k = SOCK__POLL_IDLE" "\<not> delete_pending k" using n(4) by auto
    have "a \<notin> in_flight s" using fs(1) r1(2) by (auto simp: flight_ok_def)
    then have f1: "flight_ok s1" "settled s1" using flight_settled_same [OF fs n(3) r1(4)] r1(6) by auto
    have am: "a \<notin> ran m" using rep r1(2) by (auto simp: port_rep_def socks_ok_def)
    have w: "(epoll_set s1)(sock \<mapsto> x) = (epoll_set s)(sock \<mapsto> x)" for x
      unfolding epoll_set_watched [OF rep] epoll_set_watched [OF r1(3)]
      using r1(4) am by (auto simp: watched_def fun_eq_iff ran_def split: option.splits)
    have new: "epoll_set s sock = None" using r1(1) epoll_set_watched [OF rep] watched_None [OF rep] by simp
    obtain s2 where "sock_set_event a ev s1 = Some (0, s2)"
      "ctl_ok EPOLL_CTL_ADD sock ev s (do { s \<leftarrow> port__update_events_if_polling os s2; Some (0, s) })"
      using ctl_update [OF r1(3) f1, of sock a s EPOLL_CTL_ADD ev os] n(2) new w by auto
    then show ?thesis using n(1) Some by (simp add: port__ctl_add_def)
  qed
qed

end
