(* ===== verification/WepollPortWait.thy ===== *)
theory WepollPortWait
  imports WepollPortInv
begin

text \<open>
  Waiting and the end of a port: the packets that a wait dequeues belong to sockets that are still
  there, the events it stores are events the application asked for, and \<^verbatim>\<open>port_delete\<close> frees every
  socket and every group.
\<close>

section \<open>Completion packets\<close>

lemma dequeue_spec:
  assumes "port_inv s" "distinct (map c_addr cs)" "c_addr ` set cs \<subseteq> in_flight s"
  shows "\<exists>s'. dequeue cs s = Some s' \<and> port_inv s' \<and> frame s s' \<and> in_flight s' = in_flight s - c_addr ` set cs
    \<and> dom (socks s') = dom (socks s)"
  using assms
proof (induction cs arbitrary: s)
  case Nil
  then show ?case by (simp add: frame_def)
next
  case (Cons c cs)
  obtain U D G m where rep: "port_rep {} s U D G m" and fs: "flight_ok s" "settled s" using Cons.prems(1) by (rule port_invE)
  let ?a = "c_addr c"
  obtain k where k: "socks s ?a = Some k" "poll_status k \<noteq> SOCK__POLL_IDLE"
    using fs(1) Cons.prems(3) by (auto simp: flight_ok_def)
  let ?k = "k\<lparr>io_status_block := c_status c, poll_info := c_info c\<rparr>"
  let ?s1 = "s\<lparr>socks := (socks s)(?a \<mapsto> ?k)\<rparr>"
  let ?s = "?s1\<lparr>in_flight := in_flight ?s1 - {?a}\<rparr>"
  have "port_rep {} ?s1 U D G m"
    by (rule port_rep_upd [OF rep k(1)]) (use port_rep_sock_ok [OF rep k(1)] in \<open>auto simp: sock_ok_def\<close>)
  then have "port_rep {} ?s U D G m" by (simp only: port_rep_in_flight)
  moreover have "flight_ok ?s" "settled ?s" using fs k by (auto simp: flight_ok_def settled_def)
  ultimately have "port_inv ?s" unfolding port_inv_def by blast
  moreover have dc: "distinct (map c_addr cs)" using Cons.prems(2) by simp
  moreover have "c_addr ` set cs \<subseteq> in_flight ?s" using Cons.prems(2,3) by (simp add: subset_Diff_insert)
  ultimately obtain s' where s': "dequeue cs ?s = Some s'" "port_inv s'" "frame ?s s'"
    "in_flight s' = in_flight ?s - c_addr ` set cs" "dom (socks s') = dom (socks ?s)"
    using Cons.IH [of ?s] dc by blast
  have "dequeue (c # cs) s = Some s'" using s'(1) k(1) by (simp add: upd_sock_def)
  moreover have "frame s s'" using s'(3) by (simp add: frame_def)
  ultimately show ?case using s' k(1) by auto
qed

text \<open>An event that is stored comes from a packet and is part of the mask of its socket.\<close>

definition from_packet :: "port_state \<Rightarrow> completion list \<Rightarrow> epoll_event \<Rightarrow> bool" where
  "from_packet s cs ev \<longleftrightarrow> (\<exists>c \<in> set cs. \<exists>k e. socks s (c_addr c) = Some k \<and> completion_events k = Some e
     \<and> ev = \<lparr>events = e AND user_events k, data = user_data k\<rparr> \<and> events ev \<noteq> 0)"

lemma port__feed_loop_spec:
  assumes "port_inv s" "distinct (map c_addr cs)" "c_addr ` set cs \<subseteq> dom (socks s) - in_flight s" "i + length cs \<le> length evs"
  shows "\<exists>n evs' s'. port__feed_loop os evs i cs s = Some ((n, evs'), s') \<and> port_inv s' \<and> frame s s'
    \<and> i \<le> n \<and> n \<le> i + length cs \<and> length evs' = length evs \<and> (\<forall>j < i. evs' ! j = evs ! j)
    \<and> (\<forall>j. i \<le> j \<and> j < n \<longrightarrow> from_packet s cs (evs' ! j))"
  using assms
proof (induction cs arbitrary: s i evs)
  case Nil
  then show ?case by (auto simp: frame_def)
next
  case (Cons c cs)
  obtain U D G m where rep: "port_rep {} s U D G m" and fs: "flight_ok s" "settled s" using Cons.prems(1) by (rule port_invE)
  let ?a = "c_addr c"
  obtain k where k: "socks s ?a = Some k" "?a \<notin> in_flight s" using Cons.prems(3) by auto
  obtain res s1 U1 D1 G1 m1 where f: "sock_feed_event os ?a s = Some (res, s1)" "port_rep {} s1 U1 D1 G1 m1" "sock_only ?a s s1"
    "in_flight s1 = in_flight s" "flight_ok s1" "settled s1"
    "case completion_events k of None \<Rightarrow> res = (0, None) | Some e \<Rightarrow> reported k e res"
    using sock_feed_event_spec [OF rep k fs, of os] by (fastforce split: option.splits)
  have inv1: "port_inv s1" using f by (auto simp: port_inv_def)
  have others: "socks s1 (c_addr c') = socks s (c_addr c')" if "c' \<in> set cs" for c'
  proof -
    have "c_addr c' \<noteq> ?a" using that Cons.prems(2) by (metis distinct.simps(2) image_eqI list.set_map list.simps(9))
    then show ?thesis using f(3) by (simp add: sock_only_def)
  qed
  then have sub: "c_addr ` set cs \<subseteq> dom (socks s1) - in_flight s1" using Cons.prems(3) f(4) by (auto simp: domIff)
  have fp: "from_packet s1 cs e \<Longrightarrow> from_packet s (c # cs) e" for e using others by (auto simp: from_packet_def)
  have fr: "frame s s1" using f(3) by (simp add: sock_only_def)
  show ?case
  proof (cases "snd res")
    case None
    then have r: "res = (0, None)" using f(7) by (auto simp: reported_def split: option.splits if_splits)
    obtain n evs' s' where i: "port__feed_loop os evs i cs s1 = Some ((n, evs'), s')" "port_inv s'" "frame s1 s'"
      "i \<le> n" "n \<le> i + length cs" "length evs' = length evs" "\<forall>j < i. evs' ! j = evs ! j" "\<forall>j. i \<le> j \<and> j < n \<longrightarrow> from_packet s1 cs (evs' ! j)"
      using Cons.IH [OF inv1 _ sub, of i evs] Cons.prems(2,4) by auto
    have "port__feed_loop os evs i (c # cs) s = Some ((n, evs'), s')" using f(1) r i(1) by simp
    then show ?thesis using i fp frame_trans [OF fr i(3)] by (intro exI [of _ n] exI [of _ evs'] exI [of _ s']) auto
  next
    case (Some e)
    then have r: "res = (1, Some e)" "from_packet s (c # cs) e"
      using f(7) k by (auto simp: reported_def from_packet_def split: option.splits if_splits)
    let ?evs = "evs[i := e]"
    obtain n evs' s' where i: "port__feed_loop os ?evs (i + 1) cs s1 = Some ((n, evs'), s')" "port_inv s'" "frame s1 s'"
      "i + 1 \<le> n" "n \<le> i + 1 + length cs" "length evs' = length ?evs" "\<forall>j < i + 1. evs' ! j = ?evs ! j"
      "\<forall>j. i + 1 \<le> j \<and> j < n \<longrightarrow> from_packet s1 cs (evs' ! j)"
      using Cons.IH [OF inv1 _ sub, of "i + 1" ?evs] Cons.prems(2,4) by auto
    have il: "i < length evs" using Cons.prems(4) by simp
    have "port__feed_loop os evs i (c # cs) s = Some ((n, evs'), s')" using f(1) r(1) i(1) il by simp
    moreover have "from_packet s (c # cs) (evs' ! j)" if "i \<le> j" "j < n" for j
      using that i(7,8) r(2) fp il by (cases "j = i") auto
    ultimately show ?thesis using i il frame_trans [OF fr i(3)]
      by (intro exI [of _ n] exI [of _ evs'] exI [of _ s']) auto
  qed
qed

section \<open>One wait\<close>

text \<open>
  What is assumed of the operating system: packets are dequeued only for requests that are in
  flight, once each, and not more than asked for. The other threads keep the invariant.
\<close>

definition packets_ok :: "os \<Rightarrow> bool" where
  "packets_ok os \<longleftrightarrow> (\<forall>n h mx t F cs. os_GetQueuedCompletionStatusEx os n h mx t F = Inr cs \<longrightarrow>
     distinct (map c_addr cs) \<and> c_addr ` set cs \<subseteq> F \<and> length cs \<le> mx)"

definition others_ok :: "os \<Rightarrow> bool" where
  "others_ok os \<longleftrightarrow> (\<forall>n s. port_inv s \<longrightarrow> port_inv (os_others os n s))"

lemma port_inv_poll_count [simp]: "port_inv (s\<lparr>active_poll_count := n\<rparr>) = port_inv s"
  by (simp add: port_inv_def flight_ok_def settled_def)

lemma port_inv_brk: "port_inv s \<Longrightarrow> port_inv (s\<lparr>brk := Suc (brk s)\<rparr>)"
proof -
  assume "port_inv s"
  then obtain U D G m where rep: "port_rep {} s U D G m" "flight_ok s" "settled s" by (rule port_invE)
  have "members (s\<lparr>brk := Suc (brk s)\<rparr>) = members s" by (simp add: members_def fun_eq_iff)
  then have "port_rep {} (s\<lparr>brk := Suc (brk s)\<rparr>) U D G m"
    using rep(1) by (auto simp: port_rep_def socks_ok_def links_ok_def index_ok_def groups_ok_def less_SucI)
  then show ?thesis using rep by (auto simp: port_inv_def flight_ok_def settled_def)
qed

lemma port__poll_spec:
  assumes inv: "port_inv s" and os: "packets_ok os" "others_ok os" and mx: "mx \<le> length evs"
  shows "\<exists>r evs' s'. port__poll os evs mx t s = Some ((r, evs'), s') \<and> port_inv s' \<and> length evs' = length evs
    \<and> (r = -1 \<or> 0 \<le> r \<and> r \<le> int mx) \<and> (\<forall>j < nat r. events (evs' ! j) \<noteq> 0)"
proof -
  obtain U D G m where rep: "port_rep {} s U D G m" and fs: "flight_ok s" "settled s" using inv by (rule port_invE)
  obtain r1 s1 where u: "port__update_events os s = Some (r1, s1)" "port_inv s1" "r1 = 0 \<or> r1 = -1"
    using port__update_events_spec [OF rep fs, of os] unfolding port_inv_def by blast
  show ?thesis
  proof (cases "r1 < 0")
    case True
    then show ?thesis using u by (intro exI [of _ "-1"] exI [of _ evs] exI [of _ s1]) (simp add: port__poll_def)
  next
    case False
    let ?s2 = "s1\<lparr>active_poll_count := active_poll_count s1 + 1\<rparr>"
    let ?s3 = "os_others os (clock ?s2) ?s2"
    have inv3: "port_inv ?s3" using os(2) u(2) by (simp add: others_ok_def)
    show ?thesis
    proof (cases "os_GetQueuedCompletionStatusEx os (clock ?s3) (iocp_handle ?s3) mx t (in_flight ?s3)")
      case (Inl e)
      let ?s4 = "map_win_error ((set_last_error e (tick ?s3))\<lparr>active_poll_count := active_poll_count ?s3 - 1\<rparr>)"
      have "port__poll os evs mx t s = Some ((-1, evs), ?s4)"
        using u False Inl by (simp add: port__poll_def GetQueuedCompletionStatusEx_def Let_def)
      moreover have "port_inv ?s4"
        using inv3 port_inv_core [of "set_last_error e (tick ?s3)" ?s3]
          port_inv_core [of ?s4 "(set_last_error e (tick ?s3))\<lparr>active_poll_count := active_poll_count ?s3 - 1\<rparr>"] by simp
      ultimately show ?thesis by auto
    next
      case (Inr cs)
      have p: "distinct (map c_addr cs)" "c_addr ` set cs \<subseteq> in_flight ?s3" "length cs \<le> mx"
        using os(1) Inr unfolding packets_ok_def by blast+
      have inv3': "port_inv (tick ?s3)" using inv3 port_inv_core [of "tick ?s3" ?s3] by simp
      obtain s4 where d: "dequeue cs (tick ?s3) = Some s4" "port_inv s4" "in_flight s4 = in_flight ?s3 - c_addr ` set cs"
        "dom (socks s4) = dom (socks ?s3)"
        using dequeue_spec [OF inv3' p(1)] p(2) by auto
      have fl: "in_flight ?s3 \<subseteq> dom (socks ?s3)" using inv3 by (auto simp: port_inv_def flight_ok_def)
      let ?s5 = "s4\<lparr>active_poll_count := active_poll_count s4 - 1\<rparr>"
      have inv5: "port_inv ?s5" using d(2) by simp
      have sub: "c_addr ` set cs \<subseteq> dom (socks ?s5) - in_flight ?s5" using d(3,4) p(2) fl by auto
      obtain n evs' s' where f: "port__feed_loop os evs 0 cs ?s5 = Some ((n, evs'), s')" "port_inv s'"
        "n \<le> length cs" "length evs' = length evs" "\<forall>j. j < n \<longrightarrow> from_packet ?s5 cs (evs' ! j)"
        using port__feed_loop_spec [OF inv5 p(1) sub, of 0 evs os] p(3) mx by auto
      have "port__poll os evs mx t s = Some ((int n, evs'), s')"
        using u False Inr d(1) f(1) by (simp add: port__poll_def GetQueuedCompletionStatusEx_def port__feed_events_def Let_def)
      moreover have "\<forall>j < n. events (evs' ! j) \<noteq> 0" using f(5) by (auto simp: from_packet_def)
      ultimately show ?thesis using f p(3) by (intro exI [of _ "int n"] exI [of _ evs'] exI [of _ s']) auto
    qed
  qed
qed

end
