(* ===== verification/WepollPortEnd.thy ===== *)
theory WepollPortEnd
  imports WepollPortWait
begin

text \<open>
  The whole life of a port: creation, the loop of the wait, and deletion.
\<close>

section \<open>Creation\<close>

lemma port_new_spec:
  assumes "in_flight s = {}"
  shows "\<exists>h s'. port_new os s = Some (h, s') \<and> (case h of None \<Rightarrow> True
    | Some h \<Rightarrow> port_inv s' \<and> iocp_handle s' = h \<and> h \<noteq> 0 \<and> active_poll_count s' = 0 \<and> epoll_set s' = Map.empty)"
proof -
  obtain p s1 where m: "malloc os s = (p, s1)" by (metis surj_pair)
  obtain h s2 where c: "port__create_iocp os s1 = (h, s2)" by (metis surj_pair)
  have i1: "in_flight s1 = {}" using m assms by (auto simp: malloc_def split: if_splits)
  have i2: "in_flight s2 = {}"
    using c i1 by (auto simp: port__create_iocp_def CreateIoCompletionPort_def Let_def split: prod.splits sum.splits if_splits)
  show ?thesis
  proof (cases "p = None \<or> h = 0")
    case True
    then show ?thesis using m c by (auto simp: port_new_def split: option.splits)
  next
    case False
    let ?n = "\<lambda>q. Some \<lparr>prev = q, next = q\<rparr>"
    let ?q = "\<lambda>n. if n = UpdateQ \<or> n = DeletedQ \<or> n = GroupQ then ?n n else None"
    let ?s = "(zero_port s2)\<lparr>iocp_handle := h, queues := ?q\<rparr>"
    have e: "port_new os s = Some (Some h, ?s)"
    proof -
      have q: "((\<lambda>n. if n = UpdateQ \<or> n = DeletedQ \<or> n = GroupQ then Some \<lparr>prev = NullQ, next = NullQ\<rparr> else None)
          (UpdateQ := ?n UpdateQ, DeletedQ := ?n DeletedQ, GroupQ := ?n GroupQ)) = ?q" by auto
      show ?thesis using False m c
        by (auto simp: port_new_def on_queues_def queue_init_def queue_node_init_spec zero_port_def tree_init_def q Let_def)
    qed
    have "port_rep {} ?s [] [] [] Map.empty"
    proof -
      have "is_queue ?q x []" if "x = UpdateQ \<or> x = DeletedQ \<or> x = GroupQ" for x
        using that by (auto simp: is_queue_def nxt_def prv_def)
      moreover have "tree_map (None, \<lambda>_. None) Map.empty" using tree_init_rep by (auto simp: tree_map_def tree_init_def intro: exI [of _ "[]"])
      ultimately show ?thesis
        by (auto simp: port_rep_def socks_ok_def links_ok_def index_ok_def groups_ok_def full_first_def members_def zero_port_def tree_alloc_def)
    qed
    then have "port_inv ?s" "epoll_set ?s = Map.empty"
      using i2 epoll_set_watched [of "{}" ?s] unfolding port_inv_def flight_ok_def settled_def
      by (auto simp: zero_port_def watched_def fun_eq_iff)
    then show ?thesis using e False by (auto simp: zero_port_def)
  qed
qed

section \<open>The loop of the wait\<close>

lemma port__wait_loop_spec:
  assumes "port_inv s" "packets_ok os" "others_ok os" "mx \<le> length evs"
  shows "\<exists>res s'. port__wait_loop os n mx timeout due t evs s = Some (res, s') \<and> port_inv s' \<and>
    (\<forall>r evs'. res = Some (r, evs') \<longrightarrow> length evs' = length evs \<and> (r = -1 \<or> 0 \<le> r \<and> r \<le> int mx)
       \<and> (\<forall>j < nat r. events (evs' ! j) \<noteq> 0))"
  using assms
proof (induction n arbitrary: s t evs)
  case 0
  then show ?case by simp
next
  case (Suc n)
  obtain r evs1 s1 where p: "port__poll os evs mx t s = Some ((r, evs1), s1)" "port_inv s1" "length evs1 = length evs"
    "r = -1 \<or> 0 \<le> r \<and> r \<le> int mx" "\<forall>j < nat r. events (evs1 ! j) \<noteq> 0"
    using port__poll_spec [OF Suc.prems] by blast
  have inv: "port_inv (tick s1)" "port_inv (set_last_error ''WAIT_TIMEOUT'' (tick s1))"
    using p(2) port_inv_core [of "tick s1" s1] port_inv_core [of "set_last_error ''WAIT_TIMEOUT'' (tick s1)" s1] by simp_all
  have mx: "mx \<le> length evs1" using p(3) Suc.prems(4) by simp
  show ?case
  proof (cases "r \<noteq> 0")
    case True
    then show ?thesis using p by auto
  next
    case False
    consider "timeout < 0" | "\<not> timeout < 0" "os_GetTickCount64 os (clock s1) \<ge> due"
      | "\<not> timeout < 0" "\<not> os_GetTickCount64 os (clock s1) \<ge> due" by blast
    then show ?thesis
    proof cases
      case 1
      then show ?thesis using False p(1,3) Suc.IH [OF p(2) Suc.prems(2,3) mx] by simp
    next
      case 2
      then show ?thesis using False p(1,3) inv(2) by (auto simp: GetTickCount64_def)
    next
      case 3
      then show ?thesis using False p(1,3) Suc.IH [OF inv(1) Suc.prems(2,3) mx] by (simp add: GetTickCount64_def)
    qed
  qed
qed

lemma port_wait_spec:
  assumes inv: "port_inv s" and os: "packets_ok os" "others_ok os" and mx: "nat maxevents \<le> length evs"
  shows "\<exists>res s'. port_wait os fuel evs maxevents timeout s = Some (res, s') \<and> port_inv s' \<and>
    (\<forall>r evs'. res = Some (r, evs') \<longrightarrow> length evs' = length evs \<and> (r = -1 \<or> 0 \<le> r \<and> r \<le> maxevents)
       \<and> (\<forall>j < nat r. events (evs' ! j) \<noteq> 0))"
proof (cases "maxevents \<le> 0")
  case True
  then show ?thesis using inv port_inv_core [of "set_win_error ''ERROR_INVALID_PARAMETER'' s" s]
    by (simp add: port_wait_def)
next
  case False
  obtain mv s1 where a: "(if maxevents \<le> PORT__MAX_ON_STACK_COMPLETIONS then (maxevents, s)
           else let (p, s) = malloc os s in
             ((case p of None \<Rightarrow> PORT__MAX_ON_STACK_COMPLETIONS | Some _ \<Rightarrow> maxevents), s)) = (mv, s1)"
    by (metis surj_pair)
  have mv: "mv \<le> maxevents" "port_inv s1"
    using a inv port_inv_brk [of "tick s"] by (auto simp: malloc_def port_inv_core [of "tick s" s] split: if_splits)
  obtain due t s2 where b: "(if timeout > 0 then
             let (t, s) = GetTickCount64 os s1 in ((t + word_of_int timeout, word_of_int timeout), s)
           else if timeout = 0 then ((0, 0), s1)
           else ((0, INFINITE), s1)) = ((due, t), s2)"
    by (metis surj_pair)
  have inv2: "port_inv s2" using b mv(2) by (auto simp: GetTickCount64_def port_inv_core [of "tick s1" s1] split: if_splits)
  have mvl: "nat mv \<le> length evs" using mv(1) mx by linarith
  obtain res s3 where w: "port__wait_loop os fuel (nat mv) timeout due t evs s2 = Some (res, s3)" "port_inv s3"
    "\<forall>r evs'. res = Some (r, evs') \<longrightarrow> length evs' = length evs \<and> (r = -1 \<or> 0 \<le> r \<and> r \<le> int (nat mv))
       \<and> (\<forall>j < nat r. events (evs' ! j) \<noteq> 0)"
    using port__wait_loop_spec [OF inv2 os mvl] by blast
  have e: "port_wait os fuel evs maxevents timeout s = (case res of
           None \<Rightarrow> Some (None, s3)
         | Some (result, evs) \<Rightarrow> do {
             s \<leftarrow> port__update_events_if_polling os s3;
             Some (Some (if result \<ge> 0 then result
                         else if last_error (err s) = ''WAIT_TIMEOUT'' then 0 else -1, evs), s)
           })"
    using False a b w(1) by (simp add: port_wait_def)
  show ?thesis
  proof (cases res)
    case None
    then show ?thesis using e w(2) by simp
  next
    case (Some re)
    obtain r evs' where re: "re = (r, evs')" by (cases re)
    have u: "\<exists>s4. port__update_events_if_polling os s3 = Some s4 \<and> port_inv s4"
      using w(2) port__update_events_if_polling_spec unfolding port_inv_def by blast
    have "0 \<le> r \<longrightarrow> r \<le> maxevents" using w(3) Some re mv(1) False by (auto split: if_splits)
    then show ?thesis using e u Some re w(3) False by auto
  qed
qed


section \<open>Deletion\<close>

lemma tree_root_map:
  assumes "tree_map T m"
  shows "case tree_root T of None \<Rightarrow> m = Map.empty | Some a \<Rightarrow> a \<in> ran m"
proof -
  obtain kvs where kvs: "tree_rep T kvs" "m = map_of kvs" using assms by (auto simp: tree_map_def)
  obtain t where t: "at T t []" "inord t = kvs" using kvs(1) by (auto simp: tree_rep_def)
  have r: "tree_root T = ptr t" using at_ptr [OF t(1)] by (simp add: tree_root_def)
  have "addrs t = ran m" using tree_rep_keys [OF kvs(1)] kvs(2) inord_addrs [of t] t(2) by simp
  then show ?thesis using r t(2) kvs(2) ptr_in_addrs [of t] by (cases t) auto
qed

text \<open>A forced deletion frees the socket whatever its state is; the requests are not looked at.\<close>

lemma force_delete:
  assumes rep: "port_rep {} s U D G m" and a: "socks s a \<noteq> None"
  shows "\<exists>s' D' G'. sock_force_delete os a s = Some s' \<and> port_rep {} s' (remove1 a U) D' G' (without a m) \<and> frame s s'
    \<and> socks s' = (socks s)(a := None)"
proof -
  obtain k where k: "socks s a = Some k" using a by blast
  obtain s' D' G' where "sock__delete os a True s = Some (0, s')" "port_rep {} s' (remove1 a U) D' G' (without a m)" "frame s s'"
    "socks s' = (socks s)(a := None)"
    using sock__delete_spec [OF rep k, of os True] by auto
  moreover have "sock_force_delete os a s = Some s'" using calculation(1) by (simp add: sock_force_delete_def)
  ultimately show ?thesis by blast
qed

lemma card_socks_less:
  assumes "port_rep {} s U D G m" "socks s a \<noteq> None" "socks s' = (socks s)(a := None)"
  shows "card (dom (socks s')) < card (dom (socks s))"
proof -
  have "finite (dom (socks s))" "a \<in> dom (socks s)" using assms by (auto simp: port_rep_def socks_ok_def)
  then have "card (dom (socks s) - {a}) < card (dom (socks s))" by (rule card_Diff1_less)
  then show ?thesis using assms(3) by simp
qed

lemma port__delete_registered_spec:
  assumes "port_rep {} s U D G m"
  shows "\<exists>s' U' D' G'. port__delete_registered os s = Some s' \<and> port_rep {} s' U' D' G' Map.empty \<and> frame s s'"
  using assms
proof (induction "card (dom (socks s))" arbitrary: s U D G m rule: less_induct)
  case less
  have tm: "tree_map (sock_tree s) m" using less.prems by (simp add: port_rep_def socks_ok_def index_ok_def)
  show ?case
  proof (cases "tree_root (sock_tree s)")
    case None
    then have "port__delete_registered os s = Some s" "m = Map.empty"
      using tree_root_map [OF tm] by (auto simp: port__delete_registered.simps)
    then show ?thesis using less.prems frame_def by blast
  next
    case (Some a)
    then have "a \<in> ran m" using tree_root_map [OF tm] by simp
    then have a: "socks s a \<noteq> None" using less.prems by (auto simp: port_rep_def socks_ok_def)
    obtain s1 D1 G1 where d: "sock_force_delete os a s = Some s1" "port_rep {} s1 (remove1 a U) D1 G1 (without a m)" "frame s s1"
      "socks s1 = (socks s)(a := None)"
      using force_delete [OF less.prems a] by blast
    have e: "port__delete_registered os s = port__delete_registered os s1"
      using Some d(1) by (subst port__delete_registered.simps) simp
    from less.hyps [OF card_socks_less [OF less.prems a d(4)] d(2)] show ?thesis
      unfolding e using frame_trans [OF d(3)] by blast
  qed
qed

lemma port__delete_deleted_spec:
  assumes "port_rep {} s U D G Map.empty"
  shows "\<exists>s' G'. port__delete_deleted os s = Some s' \<and> port_rep {} s' [] [] G' Map.empty \<and> frame s s'"
  using assms
proof (induction "card (dom (socks s))" arbitrary: s U D G rule: less_induct)
  case less
  have q: "is_queue (queues s) DeletedQ (map SockN D)" and U: "U = []"
    using less.prems by (auto simp: port_rep_def socks_ok_def links_ok_def)
  show ?case
  proof (cases D)
    case Nil
    then have "port__delete_deleted os s = Some s"
      using queue_first_spec [OF q] by (subst port__delete_deleted.simps) simp
    moreover have "frame s s" by (simp add: frame_def)
    ultimately show ?thesis using less.prems U Nil by blast
  next
    case (Cons a D0)
    then have a: "socks s a \<noteq> None" using less.prems by (auto simp: port_rep_def socks_ok_def)
    have w: "without a Map.empty = Map.empty" by (simp add: without_def)
    obtain s1 D1 G1 where d: "sock_force_delete os a s = Some s1" "port_rep {} s1 (remove1 a U) D1 G1 Map.empty" "frame s s1"
      "socks s1 = (socks s)(a := None)"
      using force_delete [OF less.prems a, of os] w by auto
    have e: "port__delete_deleted os s = port__delete_deleted os s1"
      using queue_first_spec [OF q] Cons d(1) by (subst port__delete_deleted.simps) (simp add: sock_state_from_queue_node_def)
    from less.hyps [OF card_socks_less [OF less.prems a d(4)] d(2)] show ?thesis
      unfolding e using frame_trans [OF d(3)] by blast
  qed
qed

lemma poll_group_delete_spec:
  assumes ok: "groups_ok s (g # G) (\<lambda>_. 0)"
  shows "\<exists>s'. poll_group_delete os g s = Some s' \<and> groups_ok s' G (\<lambda>_. 0) \<and> queues s' UpdateQ = queues s UpdateQ
    \<and> socks s' = socks s \<and> groups s' = (groups s)(g := None)
    \<and> (os_CloseHandle os (clock s) (afd_device_handle (the (groups s g))) = None \<longrightarrow>
        closed s' = closed s @ [afd_device_handle (the (groups s g))])"
proof -
  have "g \<in> dom (groups s)" using ok by (auto simp: groups_ok_def)
  then obtain x where x: "groups s g = Some x" by blast
  have sz: "group_size x = 0" using ok x by (auto simp: groups_ok_def unat_eq_zero)
  obtain c s1 where c: "CloseHandle os (afd_device_handle x) s = (c, s1)" by (metis surj_pair)
  note f = core_fields [OF CloseHandle_core [OF c]]
  have iq: "is_queue (queues s) GroupQ (map GroupN (g # G))" using ok by (simp add: groups_ok_def)
  obtain q where q: "queue_remove (queues s) (GroupN g) = Some q" "is_queue q GroupQ (remove1 (GroupN g) (map GroupN (g # G)))"
    "\<forall>y. y \<notin> set (GroupQ # map GroupN (g # G)) \<longrightarrow> q y = queues s y"
    using queue_remove_spec [OF iq, of "GroupN g"] by auto
  let ?s = "free_group g (s1\<lparr>queues := q\<rparr>)"
  have d: "g \<notin> set G" using groups_ok_distinct [OF ok] by simp
  have "is_queue (q(GroupN g := None)) GroupQ (map GroupN G)"
    by (rule is_queue_frame [of q]) (use q(2) d in auto)
  then have "groups_ok ?s G (\<lambda>_. 0)"
    using ok d f by (auto simp: groups_ok_def free_group_def full_first_def)
  moreover have "poll_group_delete os g s = Some ?s"
    using x sz c q(1) f by (simp add: poll_group_delete_def on_queues_def)
  moreover have "queues ?s UpdateQ = queues s UpdateQ" using q(3) by (auto simp: free_group_def)
  moreover have "os_CloseHandle os (clock s) (afd_device_handle x) = None \<longrightarrow> closed ?s = closed s @ [afd_device_handle x]"
    using c by (auto simp: CloseHandle_def free_group_def)
  ultimately show ?thesis using x f by (intro exI [of _ ?s]) (auto simp: free_group_def)
qed

lemma port__delete_groups_spec:
  assumes "groups_ok s G (\<lambda>_. 0)"
  shows "\<exists>s'. port__delete_groups os s = Some s' \<and> groups s' = Map.empty \<and> socks s' = socks s \<and> queues s' UpdateQ = queues s UpdateQ
    \<and> ((\<forall>n h. os_CloseHandle os n h = None) \<longrightarrow> closed s' = closed s @ map (\<lambda>g. afd_device_handle (the (groups s g))) G)"
  using assms
proof (induction G arbitrary: s)
  case Nil
  then have q: "is_queue (queues s) GroupQ []" and g: "groups s = Map.empty" by (auto simp: groups_ok_def)
  have "port__delete_groups os s = Some s" using queue_first_spec [OF q] by (subst port__delete_groups.simps) simp
  then show ?case using g by simp
next
  case (Cons g G)
  have q: "is_queue (queues s) GroupQ (GroupN g # map GroupN G)" using Cons.prems by (simp add: groups_ok_def)
  obtain s1 where d: "poll_group_delete os g s = Some s1" "groups_ok s1 G (\<lambda>_. 0)" "queues s1 UpdateQ = queues s UpdateQ"
    "socks s1 = socks s" "groups s1 = (groups s)(g := None)"
    "os_CloseHandle os (clock s) (afd_device_handle (the (groups s g))) = None \<longrightarrow>
        closed s1 = closed s @ [afd_device_handle (the (groups s g))]"
    using poll_group_delete_spec [OF Cons.prems] by blast
  have e: "port__delete_groups os s = port__delete_groups os s1"
    using queue_first_spec [OF q] d(1) by (subst port__delete_groups.simps) (simp add: poll_group_from_queue_node_def)
  have "map (\<lambda>g. afd_device_handle (the (groups s1 g))) G = map (\<lambda>g. afd_device_handle (the (groups s g))) G"
    using groups_ok_distinct [OF Cons.prems] d(5) by (intro map_cong) auto
  then show ?case using Cons.IH [OF d(2)] d unfolding e by auto
qed

lemma port_delete_spec:
  assumes inv: "port_inv s" and h: "iocp_handle s = 0"
  shows "\<exists>s'. port_delete os s = Some (0, s') \<and> socks s' = Map.empty \<and> groups s' = Map.empty"
proof -
  obtain U D G m where rep: "port_rep {} s U D G m" using inv by (rule port_invE)
  obtain s1 U1 D1 G1 where 1: "port__delete_registered os s = Some s1" "port_rep {} s1 U1 D1 G1 Map.empty"
    using port__delete_registered_spec [OF rep] by blast
  obtain s2 G2 where 2: "port__delete_deleted os s1 = Some s2" "port_rep {} s2 [] [] G2 Map.empty"
    using port__delete_deleted_spec [OF 1(2)] by blast
  have s2: "socks s2 = Map.empty"
    using 2(2) by (auto simp: port_rep_def socks_ok_def sock_ok_def intro!: ext) (metis not_Some_eq)
  then have "members s2 = (\<lambda>_. 0)" by (simp add: members_def fun_eq_iff)
  then have "groups_ok s2 G2 (\<lambda>_. 0)" and uq: "is_queue (queues s2) UpdateQ []"
    using 2(2) by (auto simp: port_rep_def socks_ok_def links_ok_def)
  then obtain s3 where 3: "port__delete_groups os s2 = Some s3" "groups s3 = Map.empty" "socks s3 = socks s2"
    "queues s3 UpdateQ = queues s2 UpdateQ"
    using port__delete_groups_spec by blast
  have "is_queue (queues s3) UpdateQ []" by (rule is_queue_frame [OF uq]) (use 3(4) in auto)
  then have "port_delete os s = Some (0, s3)"
    using h 1(1) 2(1) 3(1) queue_is_empty_spec [of "queues s3" UpdateQ "[]"] by (simp add: port_delete_def)
  then show ?thesis using 3 s2 by auto
qed

end
