(* ===== verification/WepollPortProps.thy ===== *)
theory WepollPortProps
  imports WepollPortEnd
begin

text \<open>
  The properties of ports. They hold for every operating system that answers as documented: the
  layers above a base socket end, a packet is dequeued once and only for a request in flight. The
  other threads, which act while a wait has released the lock, may do whatever keeps the invariant.
\<close>

section \<open>A demonstration system\<close>

definition blank_port :: port_state where
  "blank_port = \<lparr>iocp_handle = 0, sock_tree = (None, \<lambda>_. None), queues = (\<lambda>_. None), socks = (\<lambda>_. None), groups = (\<lambda>_. None),
     active_poll_count = 0, err = \<lparr>last_error = [], errno_var = []\<rparr>, clock = 0, brk = 0, in_flight = {}, closed = []\<rparr>"

definition demo_packet :: completion where
  "demo_packet = \<lparr>c_addr = 2, c_status = \<lparr>Status = STATUS_SUCCESS, Information = 0\<rparr>,
     c_info = \<lparr>Timeout = 0, NumberOfHandles = 1, Exclusive = 0,
       Handles = \<lparr>Handle = 9, Events = AFD_POLL_RECEIVE, HandleStatus = 0\<rparr>\<rparr>\<rparr>"

definition demo_os :: os where
  "demo_os = \<lparr>os_malloc = (\<lambda>_. True), os_NtCreateFile = (\<lambda>_. (STATUS_SUCCESS, 0x44)),
     os_CreateIoCompletionPort = (\<lambda>_ _ _. Inr 0x30), os_SetFileCompletionNotificationModes = (\<lambda>_ _. None),
     os_CloseHandle = (\<lambda>_ _. None), os_NtDeviceIoControlFile = (\<lambda>_ _ _. STATUS_PENDING),
     os_NtCancelIoFileEx = (\<lambda>_ _ _. STATUS_SUCCESS), os_completed = (\<lambda>_ _. None),
     os_RtlNtStatusToDosError = (\<lambda>_. ''ERROR_GEN_FAILURE''),
     os_WSAIoctl = (\<lambda>_ sock io. if io = SIO_BASE_HANDLE then Inr sock else Inl ''WSAEINVAL''),
     os_GetQueuedCompletionStatusEx = (\<lambda>_ _ mx _ F. if 2 \<in> F \<and> 1 \<le> mx then Inr [demo_packet] else Inl ''WAIT_TIMEOUT''),
     os_GetTickCount64 = of_nat, os_others = (\<lambda>_ s. s)\<rparr>"

definition demo_event :: epoll_event where
  "demo_event = \<lparr>events = EPOLLIN, data = 77\<rparr>"

definition demo_port :: port_state where
  "demo_port = (case port_new demo_os blank_port of Some (_, s) \<Rightarrow> s | None \<Rightarrow> blank_port)"

lemma demo_os_ok: "layered demo_os" "packets_ok demo_os" "others_ok demo_os"
proof -
  show "layered demo_os" unfolding layered_def
    by (rule exI [of _ "\<lambda>_. 0"]) (auto simp: demo_os_def SIO_BASE_HANDLE_def SIO_BSP_HANDLE_POLL_def)
  show "packets_ok demo_os" by (auto simp: packets_ok_def demo_os_def demo_packet_def split: if_splits)
  show "others_ok demo_os" by (simp add: others_ok_def demo_os_def)
qed

lemma demo_new: "port_new demo_os blank_port = Some (Some 0x30, demo_port)"
  by (simp add: demo_port_def port_new_def malloc_def port__create_iocp_def CreateIoCompletionPort_def demo_os_def
      on_queues_def queue_init_def queue_node_init_spec zero_port_def Let_def)

lemma demo_port_ok: "port_inv demo_port" "iocp_handle demo_port = 0x30" "active_poll_count demo_port = 0" "epoll_set demo_port = Map.empty"
  using port_new_spec [of blank_port demo_os] demo_new by (auto simp: blank_port_def)

section \<open>Safety\<close>


lemma port_ctl_spec:
  assumes "port_inv s" "layered os" "op = EPOLL_CTL_ADD \<longrightarrow> iocp_handle s \<noteq> 0"
  shows "ctl_ok op sock ev s (port_ctl os op sock ev s)"
proof -
  obtain U D G m where rep: "port_rep {} s U D G m" using assms(1) by (rule port_invE)
  have c: "core (set_win_error ''ERROR_INVALID_PARAMETER'' s) = core s" by simp
  show ?thesis
    using port__ctl_add_spec [OF assms(1,2), of sock ev] port__ctl_mod_spec [OF assms(1), of sock ev os]
      port__ctl_del_spec [OF assms(1), of sock ev os] ctl_fail [OF assms(1) rep c, of op sock ev] assms(3)
    by (auto simp: port_ctl_def port__ctl_op_def)
qed

lemma port_rep_iocp: "port_rep X (s\<lparr>iocp_handle := h\<rparr>) U D G m = port_rep X s U D G m"
proof -
  have "members (s\<lparr>iocp_handle := h\<rparr>) = members s" by (simp add: members_def fun_eq_iff)
  then show ?thesis by (simp add: port_rep_def socks_ok_def links_ok_def index_ok_def groups_ok_def)
qed

lemma port_close_spec:
  assumes "port_inv s" "port_close os s = (r, s')"
  shows "port_inv s' \<and> iocp_handle s' = 0 \<and> epoll_set s' = epoll_set s"
proof -
  let ?s = "s\<lparr>iocp_handle := 0\<rparr>"
  have i: "port_inv ?s" using assms(1) by (auto simp: port_inv_def port_rep_iocp flight_ok_def settled_def)
  obtain ok s1 where c: "CloseHandle os (iocp_handle s) ?s = (ok, s1)" by (metis surj_pair)
  have k: "core s' = core ?s" using assms(2) c CloseHandle_core [OF c]
    by (auto simp: port_close_def port__close_iocp_def Let_def split: if_splits)
  show ?thesis using port_inv_core [OF k] i core_fields [OF k]
    by (auto simp: epoll_set_def fun_eq_iff split: option.splits)
qed





text \<open>
  C16. The control operations implement a map from sockets to masks and data. An operation that
  fails changes nothing; adding needs a socket that is not there, changing and removing need
  one that is. Errors and hang-ups are part of every mask. With no thread waiting the map is
  exactly the updated one; with one waiting, sockets whose handles are dead may have been dropped.
\<close>

theorem port_ctl_refines_map:
  assumes "port_inv s" "layered os" "iocp_handle s \<noteq> 0"
  shows "\<exists>r s'. port_ctl os op sock ev s = Some (r, s') \<and> port_inv s' \<and> ctl_effect op sock ev s r s'"
  using port_ctl_spec [OF assms(1,2), of op sock ev] assms(3) by (auto simp: ctl_ok_def)

theorem port_ctl_refines_map_witness:
  "\<exists>s'. port_ctl demo_os EPOLL_CTL_ADD 9 demo_event demo_port = Some (0, s')
    \<and> epoll_set s' = [9 \<mapsto> (EPOLLIN OR EPOLLERR OR EPOLLHUP, 77)]"
proof -
  obtain r s' where c: "port_ctl demo_os EPOLL_CTL_ADD 9 demo_event demo_port = Some (r, s')"
    "ctl_effect EPOLL_CTL_ADD 9 demo_event demo_port r s'"
    using port_ctl_refines_map [OF demo_port_ok(1) demo_os_ok(1), of EPOLL_CTL_ADD 9 demo_event] demo_port_ok(2) by auto
  have "map_option fst (port_ctl demo_os EPOLL_CTL_ADD 9 demo_event demo_port) = Some 0" by code_simp
  then have "r = 0" using c(1) by simp
  then show ?thesis using c demo_port_ok(3,4)
    by (auto simp: ctl_effect_def EPOLL_CTL_ADD_def EPOLL_CTL_MOD_def EPOLL_CTL_DEL_def demo_event_def Let_def)
qed

text \<open>
  Changing or removing a socket that is not in the set fails with \<open>ENOENT\<close>, an operation
  that does not exist with \<open>EINVAL\<close>, and neither changes the port.
\<close>

theorem port_ctl_errors:
  assumes "port_inv s"
  shows "((op = EPOLL_CTL_MOD \<or> op = EPOLL_CTL_DEL) \<and> epoll_set s sock = None \<longrightarrow>
      port_ctl os op sock ev s = Some (-1, set_win_error ''ERROR_NOT_FOUND'' s)
      \<and> errno_var (err (set_win_error ''ERROR_NOT_FOUND'' s)) = ''ENOENT'')
    \<and> (op \<notin> {EPOLL_CTL_ADD, EPOLL_CTL_MOD, EPOLL_CTL_DEL} \<longrightarrow>
      port_ctl os op sock ev s = Some (-1, set_win_error ''ERROR_INVALID_PARAMETER'' s)
      \<and> errno_var (err (set_win_error ''ERROR_INVALID_PARAMETER'' s)) = ''EINVAL'')"
proof -
  obtain U D G m where rep: "port_rep {} s U D G m" using assms by (rule port_invE)
  have n: "errno_var (err (set_win_error e s)) = err__map_win_error_to_errno e" for e
    by (simp add: set_win_error_def err_set_win_error_def)
  have e: "err__map_win_error_to_errno ''ERROR_NOT_FOUND'' = ''ENOENT''" "err__map_win_error_to_errno ''ERROR_INVALID_PARAMETER'' = ''EINVAL''"
    by (simp_all add: err__map_win_error_to_errno_def ERR__ERRNO_MAPPINGS_def)
  have "epoll_set s sock = None \<Longrightarrow> port_find_socket sock s = Some (None, set_win_error ''ERROR_NOT_FOUND'' s)"
    using port_find_socket_spec [OF rep, of sock] watched_None [OF rep] epoll_set_watched [OF rep] by simp
  then show ?thesis using n e
    by (auto simp: port_ctl_def port__ctl_op_def port__ctl_mod_def port__ctl_del_def EPOLL_CTL_ADD_def EPOLL_CTL_MOD_def EPOLL_CTL_DEL_def)
qed

theorem port_ctl_errors_witness:
  "port_ctl demo_os EPOLL_CTL_DEL 9 demo_event demo_port = Some (-1, set_win_error ''ERROR_NOT_FOUND'' demo_port)
   \<and> port_ctl demo_os 4 9 demo_event demo_port = Some (-1, set_win_error ''ERROR_INVALID_PARAMETER'' demo_port)"
  using port_ctl_errors [OF demo_port_ok(1)] demo_port_ok(4)
  by (simp add: EPOLL_CTL_ADD_def EPOLL_CTL_MOD_def EPOLL_CTL_DEL_def)

section \<open>Waiting\<close>

text \<open>
  C36. A wait stores at most as many events as the caller has room for, none of them empty, and
  returns their number, or \<open>-1\<close>; the caller's array is never written outside of its bounds.
\<close>

theorem port_wait_bounds:
  assumes "port_inv s" "packets_ok os" "others_ok os" "nat maxevents \<le> length evs"
  shows "\<exists>res s'. port_wait os fuel evs maxevents timeout s = Some (res, s') \<and> port_inv s' \<and>
    (\<forall>r evs'. res = Some (r, evs') \<longrightarrow> length evs' = length evs \<and> (r = -1 \<or> 0 \<le> r \<and> r \<le> maxevents)
       \<and> (\<forall>j < nat r. events (evs' ! j) \<noteq> 0))"
  by (rule port_wait_spec [OF assms])

theorem port_wait_bounds_witness:
  "\<exists>res s'. port_wait demo_os 3 [demo_event] 1 0 demo_port = Some (res, s') \<and> port_inv s'
    \<and> (\<forall>r evs'. res = Some (r, evs') \<longrightarrow> length evs' = 1 \<and> (r = -1 \<or> 0 \<le> r \<and> r \<le> 1))"
  using port_wait_bounds [OF demo_port_ok(1) demo_os_ok(2,3), of 1 "[demo_event]" 3 0] by auto

text \<open>
  C37. What the application is told about a completed request: exactly the events of the packet
  that are in the mask of the socket, with the data it registered, and nothing when there are
  none. With \<open>EPOLLONESHOT\<close> the mask is cleared when an event is reported, so a later packet
  reports nothing; otherwise the mask stays. Every other socket is left alone.
\<close>

theorem feed_event_exact:
  assumes "port_inv s" "socks s a = Some k" "a \<notin> in_flight s" "completion_events k = Some e"
  shows "\<exists>s' k'. sock_feed_event os a s =
      Some (if e AND user_events k = 0 then (0, None) else (1, Some \<lparr>events = e AND user_events k, data = user_data k\<rparr>), s')
    \<and> port_inv s' \<and> socks s' = (socks s)(a \<mapsto> k')
    \<and> user_events k' = (if e AND user_events k \<noteq> 0 \<and> user_events k AND EPOLLONESHOT \<noteq> 0 then 0 else user_events k)"
proof -
  obtain U D G m where rep: "port_rep {} s U D G m" and fs: "flight_ok s" "settled s" using assms(1) by (rule port_invE)
  obtain res s' U' D' G' m' where f: "sock_feed_event os a s = Some (res, s')" "port_rep {} s' U' D' G' m'" "sock_only a s s'"
    "flight_ok s'" "settled s'" "reported k e res" "socks s' a = Some (after_report e (k\<lparr>poll_status := SOCK__POLL_IDLE, pending_events := 0\<rparr>))"
    using sock_feed_event_spec [OF rep assms(2,3) fs, of os] assms(4) by auto
  let ?k = "after_report e (k\<lparr>poll_status := SOCK__POLL_IDLE, pending_events := 0\<rparr>)"
  have "socks s' = (socks s)(a \<mapsto> ?k)" using f(3,7) by (auto simp: sock_only_def fun_eq_iff)
  moreover have "port_inv s'" using f by (auto simp: port_inv_def)
  ultimately show ?thesis using f(1,6) by (intro exI [of _ s'] exI [of _ ?k]) (auto simp: reported_def after_report_def)
qed


text \<open>The demonstration port with one socket whose packet has been dequeued.\<close>

definition fed_port :: port_state where
  "fed_port = (case (do { (_, s) \<leftarrow> port_ctl demo_os EPOLL_CTL_ADD 9 demo_event demo_port;
       (_, s) \<leftarrow> port__update_events demo_os s; dequeue [demo_packet] s }) of Some s \<Rightarrow> s | None \<Rightarrow> demo_port)"

lemma fed_port_ok: "port_inv fed_port" "2 \<notin> in_flight fed_port"
proof -
  obtain s1 where c: "port_ctl demo_os EPOLL_CTL_ADD 9 demo_event demo_port = Some (0, s1)" "port_inv s1"
  proof -
    have "map_option fst (port_ctl demo_os EPOLL_CTL_ADD 9 demo_event demo_port) = Some 0" by code_simp
    then show thesis using that port_ctl_spec [OF demo_port_ok(1) demo_os_ok(1), of EPOLL_CTL_ADD 9 demo_event] demo_port_ok(2)
      by (auto simp: ctl_ok_def)
  qed
  obtain r2 s2 where u: "port__update_events demo_os s1 = Some (r2, s2)" "port_inv s2"
    using c(2) port__update_events_spec unfolding port_inv_def by blast
  have "map_option (\<lambda>(_, s). 2 \<in> in_flight s) (do { (_, s) \<leftarrow> port_ctl demo_os EPOLL_CTL_ADD 9 demo_event demo_port;
      port__update_events demo_os s }) = Some True" by code_simp
  then have "2 \<in> in_flight s2" using c(1) u(1) by simp
  then obtain s3 where d: "dequeue [demo_packet] s2 = Some s3" "port_inv s3" "in_flight s3 = in_flight s2 - {2}"
    using dequeue_spec [OF u(2), of "[demo_packet]"] by (auto simp: demo_packet_def)
  then have "fed_port = s3" using c(1) u(1) by (simp add: fed_port_def)
  then show "port_inv fed_port" "2 \<notin> in_flight fed_port" using d by auto
qed

theorem feed_event_exact_witness:
  "\<exists>s' k'. sock_feed_event demo_os 2 fed_port = Some ((1, Some \<lparr>events = EPOLLIN, data = 77\<rparr>), s') \<and> port_inv s'
    \<and> socks s' = (socks fed_port)(2 \<mapsto> k')"
proof -
  have "map_option (\<lambda>k. (user_events k, user_data k, completion_events k)) (socks fed_port 2)
      = Some (EPOLLIN OR EPOLLERR OR EPOLLHUP, 77, Some (EPOLLIN OR EPOLLRDNORM))" by code_simp
  then obtain k where k: "socks fed_port 2 = Some k" "user_events k = EPOLLIN OR EPOLLERR OR EPOLLHUP" "user_data k = 77"
    "completion_events k = Some (EPOLLIN OR EPOLLRDNORM)" by auto
  have "(EPOLLIN OR EPOLLRDNORM) AND (EPOLLIN OR EPOLLERR OR EPOLLHUP) = EPOLLIN" "EPOLLIN \<noteq> 0"
    by (simp_all add: epoll_flags)
  then show ?thesis using feed_event_exact [OF fed_port_ok(1) k(1) fed_port_ok(2) k(4), of demo_os] k(2,3) by auto
qed

section \<open>Groups\<close>

text \<open>
  A poll group never has more than 32 sockets, and a new group is made only when every
  group of the port is full.
\<close>

theorem groups_filled_first:
  assumes "port_inv s" "iocp_handle s \<noteq> 0"
  shows "members s g \<le> 32 \<and>
    (\<exists>p s'. poll_group_acquire os s = Some (p, s') \<and> (\<forall>g. p = Some g \<and> groups s g = None \<longrightarrow>
      (\<forall>g'. groups s g' \<noteq> None \<longrightarrow> members s g' = 32)))"
proof -
  obtain U D G m where rep: "port_rep {} s U D G m" using assms(1) by (rule port_invE)
  then have ok: "groups_ok s G (members s)" by (simp add: port_rep_def)
  have G: "set G = dom (groups s)" using ok by (simp add: groups_ok_def)
  show ?thesis using group_at_most_32 [OF ok, of g] poll_group_acquire_spec [OF ok assms(2), of os] G
    by (fastforce split: option.splits)
qed

theorem groups_filled_first_witness:
  "members demo_port 0 \<le> 32 \<and> (\<exists>p s'. poll_group_acquire demo_os demo_port = Some (p, s'))"
  using groups_filled_first [OF demo_port_ok(1), of 0 demo_os] demo_port_ok(2) by auto

section \<open>The end\<close>

text \<open>
  C38. After a port has been closed, deleting it terminates without an assertion failing and frees
  every socket, deleted ones with requests in flight included, and every group.
\<close>

theorem port_delete_frees_all:
  assumes "port_inv s" "port_close os s = (r, s1)"
  shows "\<exists>s'. port_delete os s1 = Some (0, s') \<and> socks s' = Map.empty \<and> groups s' = Map.empty"
  using port_close_spec [OF assms] port_delete_spec by blast

theorem port_delete_frees_all_witness:
  "\<exists>s'. port_delete demo_os (snd (port_close demo_os fed_port)) = Some (0, s') \<and> socks s' = Map.empty \<and> groups s' = Map.empty"
  using port_delete_frees_all [OF fed_port_ok(1), of demo_os "fst (port_close demo_os fed_port)" "snd (port_close demo_os fed_port)"]
  by simp

text \<open>
  The search for the base socket ends when the layers above it do; it gives a socket the
  system named as a base socket, or the error variables agree on why there is none.
\<close>

theorem base_socket_found:
  assumes "layered os"
  shows "\<exists>b s'. ws_get_base_socket os socket s = Some (b, s') \<and> core s' = core s
    \<and> (if b = INVALID_SOCKET then errors_agree (err s') else \<exists>n l. os_WSAIoctl os n l SIO_BASE_HANDLE = Inr b)"
  by (rule ws_get_base_socket_spec [OF assms])

theorem base_socket_found_witness:
  "\<exists>b s'. ws_get_base_socket demo_os 9 demo_port = Some (b, s') \<and> core s' = core demo_port"
  using base_socket_found [OF demo_os_ok(1), of 9 demo_port] by blast

text \<open>
  C39. A thread that has looked up a port before another one closes it, and adds a socket to it
  afterwards, fails the assertion on the completion port when it needs a new group.
\<close>

theorem add_after_close_asserts:
  assumes "port_inv s" "port_close os s = (r, s1)" "groups s = Map.empty" "sock \<noteq> 0" "sock \<noteq> INVALID_SOCKET"
    "\<And>n. \<exists>b. os_WSAIoctl os n sock SIO_BASE_HANDLE = Inr b \<and> b \<noteq> INVALID_SOCKET"
  shows "port_ctl os EPOLL_CTL_ADD sock ev s1 = None"
proof -
  have inv: "port_inv s1" "iocp_handle s1 = 0" using port_close_spec [OF assms(1,2)] by auto
  obtain b where b: "os_WSAIoctl os (clock s1) sock SIO_BASE_HANDLE = Inr b" "b \<noteq> INVALID_SOCKET" using assms(6) by blast
  have w: "ws_get_base_socket os sock s1 = Some (b, tick s1)"
    using b by (subst ws_get_base_socket.simps) (simp add: ws__ioctl_get_bsp_socket_def)
  obtain U D G m where "port_rep {} s1 U D G m" using inv(1) by (rule port_invE)
  moreover have "groups s1 = Map.empty" using assms(2,3)
    by (auto simp: port_close_def port__close_iocp_def CloseHandle_def Let_def split: option.splits if_splits)
  ultimately have q: "is_queue (queues s1) GroupQ []" by (auto simp: port_rep_def groups_ok_def)
  have "poll_group_acquire os (tick s1) = None"
    using queue_is_empty_spec [OF q] inv(2) by (simp add: poll_group_acquire_def poll_group__new_def port_get_iocp_handle_def)
  then show ?thesis using w b(2) assms(4,5)
    by (simp add: port_ctl_def port__ctl_op_def port__ctl_add_def sock_new_def)
qed

theorem add_after_close_asserts_witness:
  "port_ctl demo_os EPOLL_CTL_ADD 9 demo_event (snd (port_close demo_os demo_port)) = None"
proof -
  have g: "groups demo_port = Map.empty" using demo_new
    by (auto simp: port_new_def malloc_def port__create_iocp_def CreateIoCompletionPort_def demo_os_def
      on_queues_def queue_init_def queue_node_init_spec zero_port_def Let_def dest!: arg_cong [where f = groups])
  show ?thesis
    by (rule add_after_close_asserts [OF demo_port_ok(1) _ g, of demo_os "fst (port_close demo_os demo_port)"])
      (auto simp: INVALID_SOCKET_def demo_os_def)
qed

end
