(* ===== verification/WepollReflock.thy ===== *)
theory WepollReflock
  imports Prelude "HOL-Library.Multiset"
begin

text \<open>
  The reference-counting lock of \<^verbatim>\<open>src/src/arch/windows/wepoll/wepoll.c\<close>. Its state is one 32-bit
  word that is changed by interlocked operations only, so a call is a sequence of atomic parts.
  The parts are functions on the word (\<open>None\<close> is a failed assertion); the threads that call them
  are a step relation, in which the two halves of the keyed event are a rendezvous.
\<close>

section \<open>The word\<close>

definition REFLOCK__REF :: u32 where "REFLOCK__REF = 0x00000001"
definition REFLOCK__REF_MASK :: u32 where "REFLOCK__REF_MASK = 0x0fffffff"
definition REFLOCK__DESTROY :: u32 where "REFLOCK__DESTROY = 0x10000000"
definition REFLOCK__DESTROY_MASK :: u32 where "REFLOCK__DESTROY_MASK = 0xf0000000"
definition REFLOCK__POISON :: u32 where "REFLOCK__POISON = 0x300dead0"

lemmas reflock_consts = REFLOCK__REF_def REFLOCK__REF_MASK_def REFLOCK__DESTROY_def REFLOCK__DESTROY_MASK_def
  REFLOCK__POISON_def

definition reflock_init :: u32 where
  "reflock_init = 0"

definition reflock_ref :: "u32 \<Rightarrow> u32 option" where
  "reflock_ref st = (let state = st + REFLOCK__REF in
     if state AND REFLOCK__DESTROY_MASK = 0 then Some state else None)"

text \<open>The result says whether the event is signalled.\<close>

definition reflock_unref :: "u32 \<Rightarrow> (u32 \<times> bool) option" where
  "reflock_unref st = (let state = st - REFLOCK__REF in
     if state AND REFLOCK__DESTROY_MASK AND NOT REFLOCK__DESTROY = 0
     then Some (state, state = REFLOCK__DESTROY) else None)"

text \<open>
  The part before the wait, with the result whether there is one, and the part after it. The
  exchange stores the poison before the old value is looked at.
\<close>

definition reflock_unref_and_destroy :: "u32 \<Rightarrow> (u32 \<times> bool) option" where
  "reflock_unref_and_destroy st =
     (let state = st + (REFLOCK__DESTROY - REFLOCK__REF);
          ref_count = state AND REFLOCK__REF_MASK
      in if state AND REFLOCK__DESTROY_MASK = REFLOCK__DESTROY
         then Some (state, ref_count \<noteq> 0) else None)"

definition reflock__poison :: "u32 \<Rightarrow> u32 option" where
  "reflock__poison st = (if st = REFLOCK__DESTROY then Some REFLOCK__POISON else None)"

section \<open>Threads\<close>

text \<open>
  A thread is a number. \<open>holders\<close> has a thread once for every reference it holds, \<open>signalling\<close>
  are the threads inside \<^verbatim>\<open>reflock__signal_event\<close>, \<open>phase\<close> is what the destroying thread does.
\<close>

datatype phase = Alive | Awaiting nat | Woken nat | Destroyed nat

record reflock_sys =
  state :: u32
  holders :: "nat multiset"
  signalling :: "nat multiset"
  phase :: phase

definition reflock_start :: reflock_sys where
  "reflock_start = \<lparr>state = reflock_init, holders = {#}, signalling = {#}, phase = Alive\<rparr>"

text \<open>
  A step leads to the next state or, when an assertion fails, to \<open>None\<close>. The protocol of the
  callers is in the premises: a reference is taken only while nobody destroys the lock, it is
  given back only by a thread that has it, the lock is destroyed once, and there are fewer than
  \<open>2 ^ 28\<close> references at a time.
\<close>

inductive reflock_step :: "reflock_sys \<Rightarrow> reflock_sys option \<Rightarrow> bool" where
  Ref: "phase s = Alive \<Longrightarrow> size (holders s) + 1 < 2 ^ 28 \<Longrightarrow>
    reflock_step s (map_option (\<lambda>w. s\<lparr>state := w, holders := add_mset t (holders s)\<rparr>) (reflock_ref (state s)))"
| Unref: "t \<in># holders s \<Longrightarrow>
    reflock_step s (map_option (\<lambda>(w, sig). s\<lparr>state := w, holders := holders s - {#t#},
        signalling := (if sig then add_mset t (signalling s) else signalling s)\<rparr>) (reflock_unref (state s)))"
| Destroy: "t \<in># holders s \<Longrightarrow> phase s = Alive \<Longrightarrow>
    reflock_step s (map_option (\<lambda>(w, wait). s\<lparr>state := w, holders := holders s - {#t#},
        phase := (if wait then Awaiting t else Woken t)\<rparr>) (reflock_unref_and_destroy (state s)))"
| Wake: "phase s = Awaiting t \<Longrightarrow> t' \<in># signalling s \<Longrightarrow>
    reflock_step s (Some (s\<lparr>signalling := signalling s - {#t'#}, phase := Woken t\<rparr>))"
| Finish: "phase s = Woken t \<Longrightarrow>
    reflock_step s (map_option (\<lambda>w. s\<lparr>state := w, phase := Destroyed t\<rparr>) (reflock__poison (state s)))"

inductive reflock_reachable :: "reflock_sys option \<Rightarrow> bool" where
  start: "reflock_reachable (Some reflock_start)"
| step: "reflock_reachable (Some s) \<Longrightarrow> reflock_step s s' \<Longrightarrow> reflock_reachable s'"

section \<open>The word as a number\<close>

lemma unat_of_nat_u32: "n < 2 ^ 32 \<Longrightarrow> unat (of_nat n :: u32) = n"
  by (simp add: unat_of_nat)

lemma unat_take_bit_28: "unat (take_bit 28 (w :: u32)) = unat w mod 2 ^ 28"
  unfolding unsigned_take_bit_eq by (rule take_bit_eq_mod)

lemma high_bits: "unat (w AND REFLOCK__DESTROY_MASK) = unat w - unat w mod 2 ^ 28"
proof -
  have m: "REFLOCK__DESTROY_MASK = NOT (mask 28)" by (simp add: reflock_consts mask_eq_exp_minus_1)
  have "w AND NOT (mask 28) = push_bit 28 (drop_bit 28 w)"
    by (rule bit_word_eqI) (auto simp: bit_simps)
  then have "(w AND NOT (mask 28)) + take_bit 28 w = w" by (metis bits_ident)
  then have "w AND NOT (mask 28) = w - take_bit 28 w" by (metis add_diff_cancel_right')
  moreover have t: "unat (take_bit 28 w) = unat w mod 2 ^ 28" by (rule unat_take_bit_28)
  ultimately show ?thesis unfolding m
    by (metis mod_less_eq_dividend unat_sub word_le_nat_alt)
qed

lemma low_bits: "unat (w AND REFLOCK__REF_MASK) = unat w mod 2 ^ 28"
proof -
  have m: "REFLOCK__REF_MASK = mask 28" by (simp add: reflock_consts mask_eq_exp_minus_1)
  have "w AND mask 28 = take_bit 28 w" by (simp add: take_bit_eq_mask)
  then show ?thesis unfolding m by (metis unat_take_bit_28)
qed

lemma low_word:
  assumes "n < 2 ^ 28"
  shows "of_nat n AND REFLOCK__DESTROY_MASK = 0" and "unat (of_nat n AND REFLOCK__REF_MASK) = n"
proof -
  have n: "n < 2 ^ 32" using assms by simp
  have u: "unat (of_nat n :: u32) = n" by (rule unat_of_nat_u32 [OF n])
  have "unat (of_nat n AND REFLOCK__DESTROY_MASK) = 0" using assms unfolding high_bits u by simp
  then show "of_nat n AND REFLOCK__DESTROY_MASK = 0" by (rule unat_eq_zero [THEN iffD1])
  show "unat (of_nat n AND REFLOCK__REF_MASK) = n" using assms unfolding low_bits u by simp
qed

lemma destroy_word:
  assumes "n < 2 ^ 28"
  shows "(REFLOCK__DESTROY + of_nat n) AND REFLOCK__DESTROY_MASK = REFLOCK__DESTROY"
    and "unat ((REFLOCK__DESTROY + of_nat n) AND REFLOCK__REF_MASK) = n"
proof -
  have e: "REFLOCK__DESTROY + of_nat n = of_nat (2 ^ 28 + n)" by (simp add: reflock_consts)
  have n: "2 ^ 28 + n < 2 ^ 32" using assms by simp
  have u: "unat (of_nat (2 ^ 28 + n) :: u32) = 2 ^ 28 + n" by (rule unat_of_nat_u32 [OF n])
  have "unat ((REFLOCK__DESTROY + of_nat n) AND REFLOCK__DESTROY_MASK) = 2 ^ 28"
    using assms unfolding e high_bits u by simp
  then show "(REFLOCK__DESTROY + of_nat n) AND REFLOCK__DESTROY_MASK = REFLOCK__DESTROY"
    by (simp add: word_unat_eq_iff reflock_consts)
  show "unat ((REFLOCK__DESTROY + of_nat n) AND REFLOCK__REF_MASK) = n"
    using assms unfolding e low_bits u by simp
qed

lemma destroy_word_eq: "n < 2 ^ 28 \<Longrightarrow> REFLOCK__DESTROY + of_nat n = REFLOCK__DESTROY \<longleftrightarrow> n = 0"
  using unat_of_nat_u32 [of n] by (auto simp: unat_eq_0)

lemma low_word_eq: "n < 2 ^ 28 \<Longrightarrow> of_nat n \<noteq> REFLOCK__DESTROY"
  using unat_of_nat_u32 [of n] by (auto simp: reflock_consts)

section \<open>The atomic parts on a count\<close>

lemma reflock_ref_count: "n + 1 < 2 ^ 28 \<Longrightarrow> reflock_ref (of_nat n) = Some (of_nat (n + 1))"
  using low_word(1) [of "n + 1"] by (simp add: reflock_ref_def REFLOCK__REF_def Let_def add.commute)

lemma reflock_unref_alive:
  assumes "Suc n < 2 ^ 28"
  shows "reflock_unref (of_nat (Suc n)) = Some (of_nat n, False)"
proof -
  have "of_nat n AND REFLOCK__DESTROY_MASK = 0" "of_nat n \<noteq> REFLOCK__DESTROY"
    using low_word(1) [of n] low_word_eq [of n] assms by auto
  moreover have "of_nat (Suc n) - REFLOCK__REF = of_nat n" by (simp add: REFLOCK__REF_def)
  ultimately show ?thesis
    unfolding reflock_unref_def Let_def by (simp only: and.assoc [symmetric]) simp
qed

lemma reflock_unref_destroy:
  assumes "Suc n < 2 ^ 28"
  shows "reflock_unref (REFLOCK__DESTROY + of_nat (Suc n)) = Some (REFLOCK__DESTROY + of_nat n, n = 0)"
proof -
  have "(REFLOCK__DESTROY + of_nat n) AND REFLOCK__DESTROY_MASK = REFLOCK__DESTROY"
    using destroy_word(1) [of n] assms by auto
  moreover have "REFLOCK__DESTROY + of_nat (Suc n) - REFLOCK__REF = REFLOCK__DESTROY + of_nat n"
    by (simp add: REFLOCK__REF_def)
  ultimately show ?thesis
    unfolding reflock_unref_def Let_def using destroy_word_eq [of n] assms by (simp only: and.assoc [symmetric]) simp
qed

lemma reflock_unref_and_destroy_count:
  assumes "Suc n < 2 ^ 28"
  shows "reflock_unref_and_destroy (of_nat (Suc n)) = Some (REFLOCK__DESTROY + of_nat n, n \<noteq> 0)"
proof -
  have e: "of_nat (Suc n) + (REFLOCK__DESTROY - REFLOCK__REF) = REFLOCK__DESTROY + of_nat n"
    by (simp add: REFLOCK__REF_def add.commute)
  have "((REFLOCK__DESTROY + of_nat n) AND REFLOCK__REF_MASK) = 0 \<longleftrightarrow> n = 0"
    using destroy_word(2) [of n] assms by (metis Suc_lessD unat_eq_zero)
  then show ?thesis
    using destroy_word(1) [of n] assms unfolding reflock_unref_and_destroy_def Let_def e by simp
qed


section \<open>The invariant\<close>

fun reflock_inv :: "reflock_sys \<Rightarrow> bool" where
  "reflock_inv s \<longleftrightarrow> size (holders s) < 2 ^ 28 \<and>
     (case phase s of
        Alive \<Rightarrow> state s = of_nat (size (holders s)) \<and> signalling s = {#}
      | Awaiting t \<Rightarrow> state s = REFLOCK__DESTROY + of_nat (size (holders s))
          \<and> size (signalling s) = (if holders s = {#} then 1 else 0)
      | Woken t \<Rightarrow> state s = REFLOCK__DESTROY \<and> holders s = {#} \<and> signalling s = {#}
      | Destroyed t \<Rightarrow> state s = REFLOCK__POISON \<and> holders s = {#} \<and> signalling s = {#})"

declare reflock_inv.simps [simp del]

lemma size_holders: "t \<in># M \<Longrightarrow> \<exists>n. size M = Suc n \<and> size (M - {#t#}) = n \<and> (M - {#t#} = {#} \<longleftrightarrow> n = 0)"
  by (metis size_Diff_singleton size_eq_0_iff_empty Suc_pred diff_Suc_1 size_eq_Suc_imp_elem nonempty_has_size empty_iff set_mset_empty)

inductive_cases reflock_stepE: "reflock_step s s'"

lemma reflock_step_inv:
  assumes "reflock_step s s'" "reflock_inv s"
  shows "\<exists>s1. s' = Some s1 \<and> reflock_inv s1"
  using assms
proof (induction rule: reflock_step.induct)
  case (Ref s t)
  then show ?case using reflock_ref_count [of "size (holders s)"] by (auto simp: reflock_inv.simps)
next
  case (Unref t s)
  then obtain n where n: "size (holders s) = Suc n" "size (holders s - {#t#}) = n" "holders s - {#t#} = {#} \<longleftrightarrow> n = 0" "Suc n < 2 ^ 28"
    using size_holders [of t "holders s"] by (auto simp: reflock_inv.simps)
  show ?case
  proof (cases "phase s")
    case Alive
    then show ?thesis using Unref n reflock_unref_alive [OF n(4)] by (auto simp: reflock_inv.simps)
  next
    case (Awaiting d)
    then have "state s = REFLOCK__DESTROY + of_nat (Suc n)" "signalling s = {#}"
      using Unref n by (auto simp: reflock_inv.simps split: if_splits)
    then show ?thesis using Awaiting n reflock_unref_destroy [OF n(4)] by (auto simp: reflock_inv.simps)
  qed (use Unref in \<open>auto simp: reflock_inv.simps\<close>)
next
  case (Destroy t s)
  then obtain n where n: "size (holders s) = Suc n" "size (holders s - {#t#}) = n" "holders s - {#t#} = {#} \<longleftrightarrow> n = 0" "Suc n < 2 ^ 28"
    using size_holders [of t "holders s"] by (auto simp: reflock_inv.simps)
  then show ?case using Destroy reflock_unref_and_destroy_count [OF n(4)] by (auto simp: reflock_inv.simps)
next
  case (Wake s t t')
  then show ?case using size_holders [of t' "signalling s"] by (auto simp: reflock_inv.simps split: if_splits)
next
  case (Finish s t)
  then show ?case by (auto simp: reflock_inv.simps reflock__poison_def)
qed

lemma reflock_reachable_inv: "reflock_reachable s \<Longrightarrow> \<exists>s1. s = Some s1 \<and> reflock_inv s1"
proof (induction rule: reflock_reachable.induct)
  case start
  then show ?case by (simp add: reflock_start_def reflock_init_def reflock_inv.simps)
next
  case (step s s')
  then show ?case using reflock_step_inv by blast
qed

text \<open>
  C14. No assertion of the lock ever fails, and when the destroying thread is past its wait no
  thread holds a reference or is still about to signal the event, so the memory that the lock
  protects can be freed.
\<close>

theorem reflock_safe:
  assumes "reflock_reachable s"
  shows "\<exists>s1. s = Some s1 \<and> (\<forall>t. phase s1 = Woken t \<or> phase s1 = Destroyed t \<longrightarrow>
    holders s1 = {#} \<and> signalling s1 = {#})"
  using reflock_reachable_inv [OF assms] by (auto simp: reflock_inv.simps)

lemma unref_once:
  assumes "reflock_inv s" "u \<in># holders s"
  shows "\<exists>s1. reflock_step s (Some s1) \<and> reflock_inv s1 \<and> phase s1 = phase s \<and> holders s1 = holders s - {#u#}"
  using reflock_step_inv [OF Unref [OF assms(2)] assms(1)] Unref [OF assms(2)] by (auto split: if_splits)

abbreviation reflock_steps :: "reflock_sys \<Rightarrow> reflock_sys \<Rightarrow> bool" where
  "reflock_steps \<equiv> (\<lambda>a b. reflock_step a (Some b))\<^sup>*\<^sup>*"

lemma release_all:
  assumes "reflock_inv s"
  shows "\<exists>s'. reflock_steps s s' \<and> phase s' = phase s \<and> holders s' = {#} \<and> reflock_inv s'"
  using assms
proof (induction "size (holders s)" arbitrary: s)
  case 0
  then show ?case by auto
next
  case (Suc n)
  then obtain u where u: "u \<in># holders s" by (metis size_eq_Suc_imp_elem)
  obtain s1 where s1: "reflock_step s (Some s1)" "reflock_inv s1" "phase s1 = phase s" "holders s1 = holders s - {#u#}"
    using unref_once [OF Suc.prems u] by blast
  then have "n = size (holders s1)" using Suc.hyps(2) u by (simp add: size_Diff_singleton)
  from Suc.hyps(1) [OF this s1(2)] show ?case
    using s1 by (metis (no_types, lifting) converse_rtranclp_into_rtranclp)
qed

lemma reflock_finish:
  assumes "reflock_inv s" "phase s = Awaiting t" "holders s = {#}"
  shows "\<exists>s'. reflock_steps s s' \<and> phase s' = Destroyed t"
proof -
  obtain u where u: "u \<in># signalling s"
    using assms by (auto simp: reflock_inv.simps) (metis size_eq_Suc_imp_elem)
  let ?s1 = "s\<lparr>signalling := signalling s - {#u#}, phase := Woken t\<rparr>"
  have s1: "reflock_step s (Some ?s1)" using Wake [OF assms(2) u] .
  then have "state ?s1 = REFLOCK__DESTROY" using reflock_step_inv assms(1) by (fastforce simp: reflock_inv.simps)
  then have "reflock_step ?s1 (Some (?s1\<lparr>state := REFLOCK__POISON, phase := Destroyed t\<rparr>))"
    using Finish [of ?s1 t] by (simp add: reflock__poison_def)
  then have "reflock_steps ?s1 (?s1\<lparr>state := REFLOCK__POISON, phase := Destroyed t\<rparr>)" by (rule r_into_rtranclp)
  from converse_rtranclp_into_rtranclp [OF s1 this] show ?thesis by (intro exI conjI) (assumption, simp)
qed

text \<open>
  C35. The wake-up is never lost: whenever a thread waits for the lock to become free, the other
  threads can give back their references one by one, and then the waiting thread is woken up and
  completes the destruction.
\<close>

theorem reflock_destroy_completes:
  assumes "reflock_reachable (Some s)" "phase s = Awaiting t"
  shows "\<exists>s'. reflock_steps s s' \<and> phase s' = Destroyed t"
proof -
  have "reflock_inv s" using reflock_reachable_inv [OF assms(1)] by simp
  from release_all [OF this] obtain s1 where s1: "reflock_steps s s1" "phase s1 = Awaiting t" "holders s1 = {#}" "reflock_inv s1"
    using assms(2) by metis
  then obtain s2 where "reflock_steps s1 s2" "phase s2 = Destroyed t" using reflock_finish by blast
  then show ?thesis using rtranclp_trans [OF s1(1)] by blast
qed

text \<open>One thread takes a reference, another one too, and the first destroys the lock.\<close>

definition two_holders :: reflock_sys where
  "two_holders = \<lparr>state = 0x10000001, holders = {#2#}, signalling = {#}, phase = Awaiting 1\<rparr>"

lemma two_holders_reachable: "reflock_reachable (Some two_holders)"
proof -
  let ?s1 = "\<lparr>state = 1, holders = {#1#}, signalling = {#}, phase = Alive\<rparr>"
  let ?s2 = "\<lparr>state = 2, holders = {#1, 2#}, signalling = {#}, phase = Alive\<rparr>"
  have a: "reflock_step reflock_start (Some ?s1)"
    using Ref [of reflock_start 1] by (simp add: reflock_start_def reflock_init_def reflock_ref_def reflock_consts)
  have b: "reflock_step ?s1 (Some ?s2)"
    using Ref [of ?s1 2] by (simp add: reflock_ref_def reflock_consts add_mset_commute)
  have c: "reflock_step ?s2 (Some two_holders)"
    using Destroy [of 1 ?s2] by (simp add: two_holders_def reflock_unref_and_destroy_def reflock_consts)
  show ?thesis using a b c start step by metis
qed

theorem reflock_safe_witness:
  "\<exists>s1. reflock_reachable (Some s1) \<and> phase s1 = Woken 1 \<and> holders s1 = {#} \<and> signalling s1 = {#}"
proof -
  let ?s1 = "\<lparr>state = 1, holders = {#1#}, signalling = {#}, phase = Alive\<rparr>"
  let ?s2 = "\<lparr>state = 0x10000000, holders = {#}, signalling = {#}, phase = Woken 1\<rparr>"
  have a: "reflock_step reflock_start (Some ?s1)"
    using Ref [of reflock_start 1] by (simp add: reflock_start_def reflock_init_def reflock_ref_def reflock_consts)
  have b: "reflock_step ?s1 (Some ?s2)"
    using Destroy [of 1 ?s1] by (simp add: reflock_unref_and_destroy_def reflock_consts)
  have "reflock_reachable (Some ?s2)" using a b start step by metis
  from reflock_safe [OF this] this show ?thesis by auto
qed

theorem reflock_destroy_completes_witness:
  "\<exists>s'. reflock_steps two_holders s' \<and> phase s' = Destroyed 1"
  using reflock_destroy_completes [OF two_holders_reachable] by (simp add: two_holders_def)

end
