(* ===== verification/TimerWheel.thy ===== *)
theory TimerWheel
  imports Prelude "HOL-Library.AList"
begin

text \<open>
  The timers of a looper (\<^verbatim>\<open>src/src/core/looper/timermanager.cpp\<close>, with the node type of
  \<^verbatim>\<open>timernode.h\<close>, the timer part of \<^verbatim>\<open>handlerinternaldata.cpp\<close> and the entry points of
  \<^verbatim>\<open>looperimpl.cpp\<close>): a hierarchical wheel of 256 spokes of 1 ms and four wheels of 64
  spokes, the list of timers that are due, and a map from timer ids to nodes in every
  handler.

  A circular list of \<^verbatim>\<open>tagNodeLink\<close>s with its head is the list of the addresses of its
  nodes, from the head's \<^verbatim>\<open>next\<close> to its \<^verbatim>\<open>prev\<close>. Nodes live in a heap; an address with
  no node was freed, and touching a list that holds such an address sets \<open>brk\<close>, which
  also stands for a failed \<^verbatim>\<open>ASSERT\<close> and for a loop that does not return. The clock
  (\<^verbatim>\<open>ShellTool::GetTickCount64\<close>) and the application's callbacks are parameters: \<open>clk n\<close> is
  the value of reading number \<open>n\<close>, and \<open>app l\<close> lists what the callback entered last in the
  log \<open>l\<close> asks of the looper.
\<close>

section \<open>Data\<close>

type_synonym c_long = "64 word"

definition GRANULARITY :: nat where "GRANULARITY = 1"
definition WHEEL_BITS1 :: nat where "WHEEL_BITS1 = 8"
definition WHEEL_BITS2 :: nat where "WHEEL_BITS2 = 6"
definition WHEEL_SIZE1 :: u32 where "WHEEL_SIZE1 = push_bit WHEEL_BITS1 1"
definition WHEEL_SIZE2 :: u32 where "WHEEL_SIZE2 = push_bit WHEEL_BITS2 1"
definition WHEEL_MASK1 :: u32 where "WHEEL_MASK1 = WHEEL_SIZE1 - 1"
definition WHEEL_MASK2 :: u32 where "WHEEL_MASK2 = WHEEL_SIZE2 - 1"
definition WHEEL_NUM :: nat where "WHEEL_NUM = 5"

text \<open>
  The extra information of a delayed message is \<open>Some r\<close> with \<open>r\<close> its runnable, if it has
  one; a periodic timer has none.
\<close>

record tagTimerNode =
  mHandler :: nat
  mDeadTime :: u64
  mTimerId :: c_long
  mInterval :: u32
  mExtraInfo :: "nat option option"

record tagWheel =
  spokes :: "nat list list"
  wheel_size :: u32
  spokeIndex :: u32

record tagHandlerInternalData =
  mCreated :: bool
  mIsLooper :: bool
  mTimerIdRewind :: bool
  mNextTimerId :: c_long
  mTimerMap :: "(c_long \<times> nat) list option"

datatype timer_event =
    TimerCalled nat nat c_long
  | RunnableRun nat nat
  | RunnableNull nat
  | TimerRemoved nat
  | ProcessRefused

record TimerManager =
  mWheels :: "tagWheel list"
  mStartTick :: u64
  mReadyNodes :: "nat list"
  mBusying :: bool
  timers :: "nat \<Rightarrow> tagTimerNode option"
  fresh_timer :: nat
  handlers :: "nat \<Rightarrow> tagHandlerInternalData option"
  tick_reads :: nat
  event_log :: "timer_event list"
  wide_id :: bool
  brk :: bool

type_synonym tick_clock = "nat \<Rightarrow> u64"

section \<open>Construction\<close>

definition new_wheel :: "u32 \<Rightarrow> tagWheel" where
  "new_wheel n = \<lparr>spokes = replicate (unat n) [], wheel_size = n, spokeIndex = 0\<rparr>"

definition GetCurrentMillisec :: "tick_clock \<Rightarrow> TimerManager \<Rightarrow> u64 \<times> TimerManager" where
  "GetCurrentMillisec clk m = (clk (tick_reads m), m\<lparr>tick_reads := Suc (tick_reads m)\<rparr>)"

definition blank_manager :: TimerManager where
  "blank_manager =
     \<lparr>mWheels = [], mStartTick = 0, mReadyNodes = [], mBusying = False, timers = Map.empty,
      fresh_timer = 0, handlers = Map.empty, tick_reads = 0, event_log = [], wide_id = False,
      brk = False\<rparr>"

definition new_manager :: "tick_clock \<Rightarrow> TimerManager" where
  "new_manager clk =
     (let (now, m) = GetCurrentMillisec clk blank_manager
      in m\<lparr>mStartTick := now,
           mWheels := new_wheel WHEEL_SIZE1 # replicate (WHEEL_NUM - 1) (new_wheel WHEEL_SIZE2)\<rparr>)"

section \<open>The lists of nodes\<close>

definition live_list :: "TimerManager \<Rightarrow> nat list \<Rightarrow> bool" where
  "live_list m xs = list_all (\<lambda>p. timers m p \<noteq> None) xs"

definition touch :: "nat list \<Rightarrow> TimerManager \<Rightarrow> TimerManager" where
  "touch xs m = (if live_list m xs then m else m\<lparr>brk := True\<rparr>)"

definition AddToReady :: "nat \<Rightarrow> TimerManager \<Rightarrow> TimerManager" where
  "AddToReady p m = (touch (p # mReadyNodes m) m)\<lparr>mReadyNodes := mReadyNodes m @ [p]\<rparr>"

definition wheel_at :: "TimerManager \<Rightarrow> nat \<Rightarrow> tagWheel" where
  "wheel_at m k = mWheels m ! k"

definition spoke_at :: "TimerManager \<Rightarrow> nat \<Rightarrow> nat \<Rightarrow> nat list" where
  "spoke_at m k s = spokes (wheel_at m k) ! s"

definition set_spoke :: "nat \<Rightarrow> nat \<Rightarrow> nat list \<Rightarrow> TimerManager \<Rightarrow> TimerManager" where
  "set_spoke k s xs m =
     m\<lparr>mWheels := (mWheels m)[k := (wheel_at m k)\<lparr>spokes := (spokes (wheel_at m k))[s := xs]\<rparr>]\<rparr>"

definition set_spokeIndex :: "nat \<Rightarrow> u32 \<Rightarrow> TimerManager \<Rightarrow> TimerManager" where
  "set_spokeIndex k i m = m\<lparr>mWheels := (mWheels m)[k := (wheel_at m k)\<lparr>spokeIndex := i\<rparr>]\<rparr>"

text \<open>The wheel and the spoke for a timer that is due in \<open>interval\<close> ticks.\<close>

definition upper_spoke :: "nat \<Rightarrow> u32 \<Rightarrow> u32 \<Rightarrow> nat" where
  "upper_spoke bits interval idx =
     (let threshold = push_bit bits 1
      in unat (drop_bit bits (interval - threshold + idx * threshold) AND WHEEL_MASK2))"

definition timer_slot :: "u32 \<Rightarrow> TimerManager \<Rightarrow> nat \<times> nat" where
  "timer_slot milseconds m =
     (let interval = milseconds div of_nat GRANULARITY;
          idx = (\<lambda>k. spokeIndex (wheel_at m k))
      in if interval < WHEEL_SIZE1 then (0, unat ((interval + idx 0) AND WHEEL_MASK1))
         else if interval < push_bit (WHEEL_BITS1 + 1 * WHEEL_BITS2) 1
           then (1, upper_spoke WHEEL_BITS1 interval (idx 1))
         else if interval < push_bit (WHEEL_BITS1 + 2 * WHEEL_BITS2) 1
           then (2, upper_spoke (WHEEL_BITS1 + WHEEL_BITS2) interval (idx 2))
         else if interval < push_bit (WHEEL_BITS1 + 3 * WHEEL_BITS2) 1
           then (3, upper_spoke (WHEEL_BITS1 + 2 * WHEEL_BITS2) interval (idx 3))
         else (4, upper_spoke (WHEEL_BITS1 + 3 * WHEEL_BITS2) interval (idx 4)))"

definition AddTimer :: "u32 \<Rightarrow> nat \<Rightarrow> TimerManager \<Rightarrow> TimerManager" where
  "AddTimer milseconds p m =
     (let (k, s) = timer_slot milseconds m; xs = spoke_at m k s
      in set_spoke k s (xs @ [p]) (touch (p # xs) m))"

text \<open>
  Unlinking a node touches the list it is in. A node that was just taken off the ready
  list still points to its old neighbours, which already point past it, so that the two
  writes change nothing.
\<close>

definition unlink_wheel :: "nat \<Rightarrow> tagWheel \<Rightarrow> tagWheel" where
  "unlink_wheel p w = w\<lparr>spokes := map (filter (\<lambda>q. q \<noteq> p)) (spokes w)\<rparr>"

definition lists_with :: "nat \<Rightarrow> TimerManager \<Rightarrow> nat list" where
  "lists_with p m =
     concat (filter (\<lambda>xs. p \<in> set xs) (mReadyNodes m # concat (map spokes (mWheels m))))"

definition RemoveTimer :: "nat \<Rightarrow> TimerManager \<Rightarrow> TimerManager" where
  "RemoveTimer p m =
     (touch (p # lists_with p m) m)
       \<lparr>mReadyNodes := filter (\<lambda>q. q \<noteq> p) (mReadyNodes m),
        mWheels := map (unlink_wheel p) (mWheels m),
        event_log := event_log m @ [TimerRemoved p]\<rparr>"

definition free_timer :: "nat \<Rightarrow> TimerManager \<Rightarrow> TimerManager" where
  "free_timer p m = m\<lparr>timers := (timers m)(p := None)\<rparr>"

section \<open>Setting and killing a timer\<close>

definition set_handler :: "nat \<Rightarrow> tagHandlerInternalData \<Rightarrow> TimerManager \<Rightarrow> TimerManager" where
  "set_handler h d m = m\<lparr>handlers := (handlers m)(h \<mapsto> d)\<rparr>"

definition the_map :: "tagHandlerInternalData \<Rightarrow> (c_long \<times> nat) list" where
  "the_map d = (case mTimerMap d of None \<Rightarrow> [] | Some tm \<Rightarrow> tm)"

text \<open>
  \<^verbatim>\<open>TimerManager::SetTimer\<close>. Assigning \<^verbatim>\<open>(*timerMap)[timerId]\<close> drops the last reference to
  the node that was there, which frees it. A null handler is \<open>None\<close>; so is one that was
  destroyed, whose data is gone.
\<close>

definition SetTimer ::
  "tick_clock \<Rightarrow> nat option \<Rightarrow> c_long \<Rightarrow> u32 \<Rightarrow> nat option option \<Rightarrow> TimerManager \<Rightarrow> TimerManager"
where
  "SetTimer clk handler timerId interval0 extraInfo m =
     (case handler of None \<Rightarrow> m\<lparr>brk := True\<rparr>
      | Some h \<Rightarrow>
        (case handlers m h of None \<Rightarrow> m\<lparr>brk := True\<rparr>
         | Some d \<Rightarrow>
           (let interval = (if interval0 = 0 then 1 else interval0);
                timerMap = the_map d;
                (now, m1) = GetCurrentMillisec clk m;
                p = fresh_timer m1;
                node = \<lparr>mHandler = h, mDeadTime = now + ucast interval, mTimerId = timerId,
                        mInterval = interval, mExtraInfo = extraInfo\<rparr>;
                m2 = m1\<lparr>timers := (timers m1)(p \<mapsto> node), fresh_timer := Suc p\<rparr>;
                m3 = set_handler h (d\<lparr>mTimerMap := Some (AList.update timerId p timerMap)\<rparr>) m2;
                m4 = (case map_of timerMap timerId of None \<Rightarrow> m3 | Some old \<Rightarrow> free_timer old m3)
            in AddTimer interval p m4)))"

text \<open>
  \<^verbatim>\<open>TimerManager::KillTimer\<close>. The value is the caller's \<^verbatim>\<open>timerId\<close> afterwards. The node is
  freed when the reference the map held is gone and the function returns.
\<close>

definition KillTimer ::
  "nat option \<Rightarrow> c_long \<Rightarrow> TimerManager \<Rightarrow> c_long \<times> TimerManager" where
  "KillTimer handler timerId m =
     (case handler of None \<Rightarrow> (timerId, m\<lparr>brk := True\<rparr>)
      | Some h \<Rightarrow>
        (case handlers m h of None \<Rightarrow> (timerId, m\<lparr>brk := True\<rparr>)
         | Some d \<Rightarrow>
           (case mTimerMap d of None \<Rightarrow> (timerId, m)
            | Some timerMap \<Rightarrow>
              (case map_of timerMap timerId of None \<Rightarrow> (timerId, m)
               | Some p \<Rightarrow>
                 (0, free_timer p (RemoveTimer p
                       (set_handler h (d\<lparr>mTimerMap := Some (AList.delete timerId timerMap)\<rparr>) m)))))))"

section \<open>Timer ids and the life of a handler\<close>

text \<open>The search for a free id after the counter has wrapped: an endless loop when there is none.\<close>

partial_function (option) next_free :: "(c_long \<times> nat) list \<Rightarrow> c_long \<Rightarrow> c_long option" where
  "next_free tm i = (case map_of tm i of None \<Rightarrow> Some i | Some _ \<Rightarrow> next_free tm (i + 1))"

declare next_free.simps [code]

definition NextTimerId ::
  "tagHandlerInternalData \<Rightarrow> (c_long \<times> tagHandlerInternalData) option" where
  "NextTimerId d =
     (if the_map d = [] then Some (1, d\<lparr>mTimerIdRewind := False, mNextTimerId := 1\<rparr>)
      else if mNextTimerId d \<noteq> 0 \<and> map_of (the_map d) (mNextTimerId d) = None
        then Some (mNextTimerId d, d)
      else
        (let id0 = mNextTimerId d + 1;
             d1 = (if id0 = 0 then d\<lparr>mTimerIdRewind := True, mNextTimerId := id0 + 1\<rparr>
                   else d\<lparr>mNextTimerId := id0\<rparr>)
         in if \<not> mTimerIdRewind d1 then Some (id0, d1)
            else (case next_free (the_map d1) (mNextTimerId d1) of
                    None \<Rightarrow> None
                  | Some i \<Rightarrow> Some (i, d1\<lparr>mNextTimerId := i\<rparr>))))"

text \<open>An id as the \<^verbatim>\<open>int\<close> that \<^verbatim>\<open>RemoveAllTimer\<close> casts it to: it is negative when bit 31 is set.\<close>

definition int_id_negative :: "c_long \<Rightarrow> bool" where
  "int_id_negative i = (sint (ucast i :: 32 word) < 0)"

fun remove_entries :: "(c_long \<times> nat) list \<Rightarrow> TimerManager \<Rightarrow> (c_long \<times> nat) list \<times> TimerManager" where
  "remove_entries [] m = ([], m)"
| "remove_entries ((i, p) # tm) m =
     (case timers m p of None \<Rightarrow> ((i, p) # tm, m\<lparr>brk := True\<rparr>)
      | Some node \<Rightarrow>
        (if \<not> int_id_negative (mTimerId node) then remove_entries tm (free_timer p (RemoveTimer p m))
         else (let (rest, m1) = remove_entries tm m in ((i, p) # rest, m1))))"

definition RemoveAllTimer :: "nat \<Rightarrow> tagHandlerInternalData \<Rightarrow> TimerManager \<Rightarrow> TimerManager" where
  "RemoveAllTimer h d m =
     (case mTimerMap d of None \<Rightarrow> m
      | Some timerMap \<Rightarrow>
        (let (rest, m1) = remove_entries timerMap m
         in set_handler h (d\<lparr>mTimerMap := (if rest = [] then None else Some rest)\<rparr>) m1))"

text \<open>
  The destructor of a handler's data: a handler that is not a looper removes its timers;
  then the map goes, and with it the nodes it still holds.
\<close>

definition handler_dtor :: "nat \<Rightarrow> TimerManager \<Rightarrow> TimerManager" where
  "handler_dtor h m =
     (case handlers m h of None \<Rightarrow> m\<lparr>brk := True\<rparr>
      | Some d \<Rightarrow>
        (let m1 = (if \<not> mIsLooper d then RemoveAllTimer h d m else m)
         in (fold (\<lambda>(i, p). free_timer p)
               (case handlers m1 h of None \<Rightarrow> [] | Some d1 \<Rightarrow> the_map d1) m1)
              \<lparr>handlers := (handlers m1)(h := None)\<rparr>))"

definition new_handler :: "bool \<Rightarrow> tagHandlerInternalData" where
  "new_handler looper =
     \<lparr>mCreated = False, mIsLooper = looper, mTimerIdRewind = False, mNextTimerId = 0,
      mTimerMap = None\<rparr>"

text \<open>\<^verbatim>\<open>LooperImpl::SetTimerEx\<close> and \<^verbatim>\<open>LooperImpl::KillTimer\<close>, on the looper's own thread.\<close>

definition looper_SetTimerEx ::
  "tick_clock \<Rightarrow> nat option \<Rightarrow> u32 \<Rightarrow> nat option option \<Rightarrow> TimerManager \<Rightarrow> c_long \<times> TimerManager"
where
  "looper_SetTimerEx clk handler interval info m =
     (case handler of None \<Rightarrow> (0, m\<lparr>brk := True\<rparr>)
      | Some h \<Rightarrow>
        (case handlers m h of None \<Rightarrow> (0, m\<lparr>brk := True\<rparr>)
         | Some d \<Rightarrow>
           (if \<not> mCreated d then (0, m)
            else (case NextTimerId d of None \<Rightarrow> (0, m\<lparr>brk := True\<rparr>)
                  | Some (timerId, d1) \<Rightarrow>
                    (timerId,
                     SetTimer clk handler timerId interval info
                       ((set_handler h d1 m)
                          \<lparr>wide_id := wide_id m \<or> 2 ^ 31 \<le> timerId\<rparr>))))))"

definition looper_KillTimer :: "nat option \<Rightarrow> c_long \<Rightarrow> TimerManager \<Rightarrow> c_long \<times> TimerManager" where
  "looper_KillTimer handler timerId m =
     (case handler of None \<Rightarrow> (timerId, m\<lparr>brk := True\<rparr>) | Some h \<Rightarrow> KillTimer handler timerId m)"

section \<open>What the application asks\<close>

datatype timer_request =
    ReqSetTimer nat u32 "nat option option"
  | ReqKillTimer nat c_long
  | ReqNewHandler nat bool
  | ReqCreated nat
  | ReqDestroy nat
  | ReqProcessTimer

type_synonym timer_app = "timer_event list \<Rightarrow> timer_request list"

text \<open>
  A request. The application holds a reference to the handlers it names, so requests on
  handlers that do not exist (and the creation of one that does) are not made. A nested
  \<^verbatim>\<open>ProcessTimer\<close> comes from a callback, while \<open>mBusying\<close> is set: it is refused. Outside of
  a callback it is \<open>ProcessTimer\<close> below.
\<close>

definition run_request :: "tick_clock \<Rightarrow> timer_request \<Rightarrow> TimerManager \<Rightarrow> TimerManager" where
  "run_request clk r m =
     (case r of
        ReqSetTimer h interval info \<Rightarrow>
          (if handlers m h = None then m else snd (looper_SetTimerEx clk (Some h) interval info m))
      | ReqKillTimer h i \<Rightarrow>
          (if handlers m h = None then m else snd (looper_KillTimer (Some h) i m))
      | ReqNewHandler h looper \<Rightarrow>
          (if handlers m h = None then set_handler h (new_handler looper) m else m)
      | ReqCreated h \<Rightarrow>
          (case handlers m h of None \<Rightarrow> m | Some d \<Rightarrow> set_handler h (d\<lparr>mCreated := True\<rparr>) m)
      | ReqDestroy h \<Rightarrow>
          (case handlers m h of None \<Rightarrow> m
           | Some d \<Rightarrow> if mIsLooper d then m else handler_dtor h m)
      | ReqProcessTimer \<Rightarrow>
          (if mBusying m then m\<lparr>event_log := event_log m @ [ProcessRefused]\<rparr>
           else m\<lparr>brk := True\<rparr>))"

definition run_requests :: "tick_clock \<Rightarrow> timer_request list \<Rightarrow> TimerManager \<Rightarrow> TimerManager" where
  "run_requests clk rs m = fold (run_request clk) rs m"

text \<open>A callback: the call is entered in the log and the application makes its requests.\<close>

definition call_app :: "tick_clock \<Rightarrow> timer_app \<Rightarrow> timer_event \<Rightarrow> TimerManager \<Rightarrow> TimerManager" where
  "call_app clk app e m =
     (let l = event_log m @ [e] in run_requests clk (app l) (m\<lparr>event_log := l\<rparr>))"

end
