(* ===== verification/TimerLoop.thy ===== *)
theory TimerLoop
  imports TimerWheel
begin

text \<open>
  The loop of the timer manager: turning the wheels up to the current tick, calling back
  the timers that are due, and the time the looper may sleep afterwards.
\<close>

section \<open>What the requests leave alone\<close>

lemma touch_fields [simp]:
  "mReadyNodes (touch xs m) = mReadyNodes m" "mWheels (touch xs m) = mWheels m"
  "mStartTick (touch xs m) = mStartTick m" "mBusying (touch xs m) = mBusying m"
  "timers (touch xs m) = timers m" "fresh_timer (touch xs m) = fresh_timer m"
  "handlers (touch xs m) = handlers m" "tick_reads (touch xs m) = tick_reads m"
  "event_log (touch xs m) = event_log m" "wide_id (touch xs m) = wide_id m"
  by (auto simp: touch_def)

lemma set_spoke_fields [simp]:
  "mReadyNodes (set_spoke k s xs m) = mReadyNodes m" "mStartTick (set_spoke k s xs m) = mStartTick m"
  "mBusying (set_spoke k s xs m) = mBusying m" "timers (set_spoke k s xs m) = timers m"
  "fresh_timer (set_spoke k s xs m) = fresh_timer m" "handlers (set_spoke k s xs m) = handlers m"
  "tick_reads (set_spoke k s xs m) = tick_reads m" "event_log (set_spoke k s xs m) = event_log m"
  "wide_id (set_spoke k s xs m) = wide_id m" "brk (set_spoke k s xs m) = brk m"
  by (auto simp: set_spoke_def)

lemma set_spokeIndex_fields [simp]:
  "mReadyNodes (set_spokeIndex k i m) = mReadyNodes m" "mStartTick (set_spokeIndex k i m) = mStartTick m"
  "mBusying (set_spokeIndex k i m) = mBusying m" "timers (set_spokeIndex k i m) = timers m"
  "fresh_timer (set_spokeIndex k i m) = fresh_timer m" "handlers (set_spokeIndex k i m) = handlers m"
  "tick_reads (set_spokeIndex k i m) = tick_reads m" "event_log (set_spokeIndex k i m) = event_log m"
  "wide_id (set_spokeIndex k i m) = wide_id m" "brk (set_spokeIndex k i m) = brk m"
  by (auto simp: set_spokeIndex_def)

lemma set_handler_fields [simp]:
  "mReadyNodes (set_handler h d m) = mReadyNodes m" "mWheels (set_handler h d m) = mWheels m"
  "mStartTick (set_handler h d m) = mStartTick m" "mBusying (set_handler h d m) = mBusying m"
  "timers (set_handler h d m) = timers m" "fresh_timer (set_handler h d m) = fresh_timer m"
  "handlers (set_handler h d m) = (handlers m)(h \<mapsto> d)" "tick_reads (set_handler h d m) = tick_reads m"
  "event_log (set_handler h d m) = event_log m" "wide_id (set_handler h d m) = wide_id m"
  "brk (set_handler h d m) = brk m"
  by (auto simp: set_handler_def)

lemma free_timer_fields [simp]:
  "mReadyNodes (free_timer p m) = mReadyNodes m" "mWheels (free_timer p m) = mWheels m"
  "mStartTick (free_timer p m) = mStartTick m" "mBusying (free_timer p m) = mBusying m"
  "timers (free_timer p m) = (timers m)(p := None)" "fresh_timer (free_timer p m) = fresh_timer m"
  "handlers (free_timer p m) = handlers m" "tick_reads (free_timer p m) = tick_reads m"
  "event_log (free_timer p m) = event_log m" "wide_id (free_timer p m) = wide_id m"
  "brk (free_timer p m) = brk m"
  by (auto simp: free_timer_def)

lemma AddTimer_fields [simp]:
  "mReadyNodes (AddTimer i p m) = mReadyNodes m" "mStartTick (AddTimer i p m) = mStartTick m"
  "mBusying (AddTimer i p m) = mBusying m" "timers (AddTimer i p m) = timers m"
  "fresh_timer (AddTimer i p m) = fresh_timer m" "handlers (AddTimer i p m) = handlers m"
  "tick_reads (AddTimer i p m) = tick_reads m" "event_log (AddTimer i p m) = event_log m"
  "wide_id (AddTimer i p m) = wide_id m"
  by (auto simp: AddTimer_def Let_def split: prod.splits)

lemma RemoveTimer_fields [simp]:
  "mReadyNodes (RemoveTimer p m) = filter (\<lambda>q. q \<noteq> p) (mReadyNodes m)"
  "mWheels (RemoveTimer p m) = map (unlink_wheel p) (mWheels m)"
  "mStartTick (RemoveTimer p m) = mStartTick m" "mBusying (RemoveTimer p m) = mBusying m"
  "timers (RemoveTimer p m) = timers m" "fresh_timer (RemoveTimer p m) = fresh_timer m"
  "handlers (RemoveTimer p m) = handlers m" "tick_reads (RemoveTimer p m) = tick_reads m"
  "event_log (RemoveTimer p m) = event_log m @ [TimerRemoved p]" "wide_id (RemoveTimer p m) = wide_id m"
  "brk (RemoveTimer p m) = brk (touch (p # lists_with p m) m)"
  by (auto simp: RemoveTimer_def)

text \<open>
  A request never adds to the list of due timers, leaves the busy mark and the start tick
  alone, and only extends the log.
\<close>

definition quiet :: "TimerManager \<Rightarrow> TimerManager \<Rightarrow> bool" where
  "quiet m m' \<longleftrightarrow> length (mReadyNodes m') \<le> length (mReadyNodes m) \<and> mBusying m' = mBusying m \<and>
     mStartTick m' = mStartTick m \<and> tick_reads m \<le> tick_reads m' \<and> (wide_id m \<longrightarrow> wide_id m')"

lemma quiet_refl [simp]: "quiet m m"
  by (simp add: quiet_def)

lemma quiet_trans: "quiet m1 m2 \<Longrightarrow> quiet m2 m3 \<Longrightarrow> quiet m1 m3"
  by (auto simp: quiet_def)

lemma quiet_RemoveTimer: "quiet m (free_timer p (RemoveTimer p m))"
  by (simp add: quiet_def)

lemma quiet_KillTimer: "quiet m (snd (KillTimer h i m))"
  by (simp add: KillTimer_def quiet_def split: option.split)

lemma quiet_SetTimer: "quiet m (SetTimer clk h i ms info m)"
  by (simp add: SetTimer_def quiet_def Let_def GetCurrentMillisec_def split: option.split)

lemma quiet_set: "quiet m (set_handler h d m)" "quiet m (m\<lparr>brk := b\<rparr>)"
  "quiet m (m\<lparr>event_log := l\<rparr>)" "quiet m ((set_handler h d m)\<lparr>wide_id := wide_id m \<or> b\<rparr>)"
  by (simp_all add: quiet_def)

lemma quiet_SetTimerEx: "quiet m (snd (looper_SetTimerEx clk h ms info m))"
  by (auto simp: looper_SetTimerEx_def quiet_set split: option.split
      intro: quiet_trans [OF quiet_set(4) quiet_SetTimer])

lemma quiet_remove_entries: "quiet m (snd (remove_entries tm m))"
proof (induction tm m rule: remove_entries.induct)
  case (2 i p tm m)
  then show ?case
    by (auto simp: quiet_set split: option.split prod.split intro: quiet_trans [OF quiet_RemoveTimer])
qed simp

lemma quiet_free_all: "quiet m (fold (\<lambda>(i, p). free_timer p) es m)"
proof (induction es arbitrary: m)
  case (Cons e es)
  have "quiet m (free_timer (snd e) m)"
    by (simp add: quiet_def)
  with Cons [of "free_timer (snd e) m"] show ?case
    by (auto simp: split_beta intro: quiet_trans)
qed simp

lemma quiet_RemoveAllTimer: "quiet m (RemoveAllTimer h d m)"
  using quiet_remove_entries [of m "case mTimerMap d of None \<Rightarrow> [] | Some tm \<Rightarrow> tm"]
  by (auto simp: RemoveAllTimer_def split: option.split prod.split intro: quiet_trans quiet_set)

lemma quiet_handler_dtor: "quiet m (handler_dtor h m)"
proof -
  have upd: "quiet a b \<Longrightarrow> quiet a (b\<lparr>handlers := f\<rparr>)" for a b f
    by (simp add: quiet_def)
  show ?thesis
    by (auto simp: handler_dtor_def Let_def quiet_set split: option.split
        intro!: upd quiet_RemoveAllTimer quiet_trans [OF quiet_RemoveAllTimer quiet_free_all]
          quiet_free_all)
qed

lemma quiet_run_request: "quiet m (run_request clk r m)"
  by (auto simp: run_request_def looper_KillTimer_def quiet_set quiet_SetTimerEx quiet_KillTimer
      quiet_handler_dtor split: timer_request.split option.split)

lemma quiet_run_requests: "quiet m (run_requests clk rs m)"
  unfolding run_requests_def
  by (induction rs arbitrary: m) (auto intro: quiet_trans [OF quiet_run_request])

lemma quiet_call_app: "quiet m (call_app clk app e m)"
  unfolding call_app_def Let_def
  by (rule quiet_trans [OF quiet_set(3) quiet_run_requests])

section \<open>Calling back the timers that are due\<close>

definition set_deadline :: "nat \<Rightarrow> u64 \<Rightarrow> TimerManager \<Rightarrow> TimerManager" where
  "set_deadline p t m =
     m\<lparr>timers := (timers m)(p := map_option (\<lambda>n. n\<lparr>mDeadTime := t\<rparr>) (timers m p))\<rparr>"

definition set_timer_id :: "nat \<Rightarrow> c_long \<Rightarrow> TimerManager \<Rightarrow> TimerManager" where
  "set_timer_id p i m =
     m\<lparr>timers := (timers m)(p := map_option (\<lambda>n. n\<lparr>mTimerId := i\<rparr>) (timers m p))\<rparr>"

definition fire_timer :: "tick_clock \<Rightarrow> timer_app \<Rightarrow> u64 \<Rightarrow> nat \<Rightarrow> TimerManager \<Rightarrow> TimerManager" where
  "fire_timer clk app tickNow p m =
     (case timers m p of None \<Rightarrow> m\<lparr>brk := True\<rparr>
      | Some node \<Rightarrow>
        (if handlers m (mHandler node) = None then m\<lparr>brk := True\<rparr>
         else case mExtraInfo node of
           Some obj \<Rightarrow>
             (let (i, m1) = KillTimer (Some (mHandler node)) (mTimerId node) m;
                  m2 = set_timer_id p i m1
              in case obj of None \<Rightarrow> m2\<lparr>event_log := event_log m2 @ [RunnableNull p]\<rparr>
                 | Some r \<Rightarrow> call_app clk app (RunnableRun p r) m2)
         | None \<Rightarrow>
             call_app clk app (TimerCalled p (mHandler node) (mTimerId node))
               (AddTimer (mInterval node) p (set_deadline p (tickNow + ucast (mInterval node)) m))))"

lemma quiet_fire_timer: "quiet m (fire_timer clk app t p m)"
proof -
  have id: "quiet a b \<Longrightarrow> quiet a (set_timer_id p i b)" for a b i
    by (simp add: quiet_def set_timer_id_def)
  have log: "quiet a b \<Longrightarrow> quiet a (b\<lparr>event_log := l\<rparr>)" for a b l
    by (simp add: quiet_def)
  have add: "quiet m (AddTimer ms p (set_deadline p v m))" for ms v
    by (simp add: quiet_def set_deadline_def)
  have kill: "KillTimer h i m = (j, m1) \<Longrightarrow> quiet m m1" for h i j m1
    using quiet_KillTimer [of m h i] by simp
  show ?thesis
    by (auto simp: fire_timer_def quiet_set Let_def id split: option.split prod.split
        intro!: id log quiet_trans [OF id quiet_call_app] quiet_trans [OF add quiet_call_app] dest!: kill)
qed

function ready_loop :: "tick_clock \<Rightarrow> timer_app \<Rightarrow> u64 \<Rightarrow> TimerManager \<Rightarrow> TimerManager" where
  "ready_loop clk app tickNow m =
     (case mReadyNodes m of [] \<Rightarrow> m
      | p # ps \<Rightarrow>
        ready_loop clk app tickNow (fire_timer clk app tickNow p ((touch (p # ps) m)\<lparr>mReadyNodes := ps\<rparr>)))"
  by pat_completeness auto
termination
proof (relation "measure (\<lambda>(clk, app, t, m). length (mReadyNodes m))")
  fix clk app t and m :: TimerManager and p ps
  assume "mReadyNodes m = p # ps"
  then show "((clk, app, t, fire_timer clk app t p ((touch (p # ps) m)\<lparr>mReadyNodes := ps\<rparr>)),
      (clk, app, t, m)) \<in> measure (\<lambda>(clk, app, t, m). length (mReadyNodes m))"
    using quiet_fire_timer [of "(touch (p # ps) m)\<lparr>mReadyNodes := ps\<rparr>" clk app t p]
    by (simp add: quiet_def)
qed simp

declare ready_loop.simps [simp del]

definition ProcessTimeOut :: "tick_clock \<Rightarrow> timer_app \<Rightarrow> TimerManager \<Rightarrow> TimerManager" where
  "ProcessTimeOut clk app m =
     (let (tickNow, m1) = GetCurrentMillisec clk m; m2 = ready_loop clk app tickNow m1;
          m3 = (if mReadyNodes m2 = [] then m2 else m2\<lparr>brk := True\<rparr>)
      in m3\<lparr>mReadyNodes := []\<rparr>)"

section \<open>Turning the wheels\<close>

definition cascade_timer :: "u64 \<Rightarrow> nat \<Rightarrow> u32 \<times> TimerManager \<Rightarrow> u32 \<times> TimerManager" where
  "cascade_timer now p = (\<lambda>(casnum, m).
     case timers m p of None \<Rightarrow> (casnum, m\<lparr>brk := True\<rparr>)
     | Some node \<Rightarrow>
       (if mDeadTime node \<le> now then (casnum, AddToReady p m)
        else (casnum + 1, AddTimer (ucast (mDeadTime node - now)) p m)))"

definition turn_upper :: "tick_clock \<Rightarrow> nat \<Rightarrow> TimerManager \<Rightarrow> u32 \<times> TimerManager" where
  "turn_upper clk k m =
     (let (now, m1) = GetCurrentMillisec clk m;
          s = spokeIndex (wheel_at m1 k);
          xs = spoke_at m1 k (unat s)
      in fold (cascade_timer now) xs (0, set_spoke k (unat s) [] (set_spokeIndex k (s + 1) m1)))"

function Cascade :: "tick_clock \<Rightarrow> nat \<Rightarrow> TimerManager \<Rightarrow> u32 \<times> TimerManager" where
  "Cascade clk k m =
     (if k < 1 \<or> WHEEL_NUM \<le> k then (0, m)
      else
        (let (casnum, m1) = turn_upper clk k m; w = wheel_at m1 k
         in if wheel_size w \<le> spokeIndex w
            then (let (more, m2) = Cascade clk (k + 1) (set_spokeIndex k 0 m1) in (casnum + more, m2))
            else (casnum, m1)))"
  by pat_completeness auto
termination
  by (relation "measure (\<lambda>(clk, k, m). WHEEL_NUM - k)") auto

declare Cascade.simps [simp del]

definition detect_tick :: "tick_clock \<Rightarrow> TimerManager \<Rightarrow> TimerManager" where
  "detect_tick clk m =
     (let w = wheel_at m 0; s = spokeIndex w;
          m1 = set_spoke 0 (unat s) [] (fold AddToReady (spoke_at m 0 (unat s)) m);
          m2 = (if wheel_size w \<le> s + 1 then snd (Cascade clk 1 (set_spokeIndex 0 0 m1))
                else set_spokeIndex 0 (s + 1) m1)
      in m2\<lparr>mStartTick := mStartTick m2 + of_nat GRANULARITY\<rparr>)"

text \<open>The \<^verbatim>\<open>for\<close> loop over the ticks.\<close>

fun detect_loop :: "tick_clock \<Rightarrow> nat \<Rightarrow> TimerManager \<Rightarrow> TimerManager" where
  "detect_loop clk 0 m = m"
| "detect_loop clk (Suc n) m = detect_loop clk n (detect_tick clk m)"

lemma detect_loop_funpow: "detect_loop clk n m = (detect_tick clk ^^ n) m"
  by (induction n arbitrary: m) (simp_all add: funpow_swap1)

definition DetectList :: "tick_clock \<Rightarrow> timer_app \<Rightarrow> TimerManager \<Rightarrow> TimerManager" where
  "DetectList clk app m =
     (let (now, m1) = GetCurrentMillisec clk m;
          loopnum = (if mStartTick m1 < now then (now - mStartTick m1) div of_nat GRANULARITY else 0)
      in ProcessTimeOut clk app (detect_loop clk (unat loopnum) m1))"

section \<open>How long the looper may sleep\<close>

text \<open>
  The scan of one wheel from its current spoke (the same loop for three wheels): whether a
  spoke has a timer, the time to it, and the time at which the index wraps (\<open>-1\<close>: not
  before).
\<close>

function idle_scan :: "tagWheel \<Rightarrow> int \<Rightarrow> nat \<Rightarrow> int \<Rightarrow> int \<Rightarrow> bool \<times> int \<times> int" where
  "idle_scan w gran i ms rewindTime =
     (if i < unat (wheel_size w)
      then (let idx = (i + unat (spokeIndex w)) mod unat (wheel_size w)
            in if spokes w ! idx \<noteq> [] then (True, ms, rewindTime)
               else idle_scan w gran (i + 1) (ms + gran)
                      (if idx = unat (wheel_size w) - 1 then ms + gran else rewindTime))
      else (False, ms, rewindTime))"
  by pat_completeness auto
termination
  by (relation "measure (\<lambda>(w, gran, i, ms, rw). unat (wheel_size w) - i)") auto

declare idle_scan.simps [simp del]

definition current_spoke_busy :: "TimerManager \<Rightarrow> nat \<Rightarrow> bool" where
  "current_spoke_busy m k = (spoke_at m k (unat (spokeIndex (wheel_at m k))) \<noteq> [])"

definition GetMinIdleTime :: "TimerManager \<Rightarrow> int" where
  "GetMinIdleTime m =
     (let (hasTimer0, ms0, rewindTime0) = idle_scan (wheel_at m 0) (int GRANULARITY) 0 0 (-1)
      in if rewindTime0 = -1 then ms0
         else if current_spoke_busy m 1 then rewindTime0
         else if \<not> hasTimer0
           then (let (hasTimer1, ms1, rewindTime1) = idle_scan (wheel_at m 1) 256 0 0 (-1)
                 in if rewindTime1 = -1 then ms1
                    else if current_spoke_busy m 2 then rewindTime1
                    else if \<not> hasTimer1
                      then (let (hasTimer2, ms2, rewindTime2) =
                                  idle_scan (wheel_at m 2) (256 * 64) 0 0 (-1)
                            in if rewindTime2 = -1 then ms2 else ms2)
                      else ms1)
         else ms0)"

definition ProcessTimer ::
  "tick_clock \<Rightarrow> timer_app \<Rightarrow> u64 \<Rightarrow> TimerManager \<Rightarrow> u32 \<times> TimerManager" where
  "ProcessTimer clk app ioIdleTick m =
     (if mBusying m then (1, m)
      else
        (let m1 = (DetectList clk app (m\<lparr>mBusying := True\<rparr>))\<lparr>mBusying := False\<rparr>
         in (if ioIdleTick < 1000 then 1 else of_int (GetMinIdleTime m1), m1)))"

end
