(* ===== verification/TimerInv.thy ===== *)
theory TimerInv
  imports TimerLoop "HOL-Library.Multiset"
begin

text \<open>
  The invariants of the timer manager: the shape of the wheels, that every node is linked in
  exactly one list and known to its handler under its id, and that the spoke a timer is in
  is turned to before the timer's deadline.
\<close>

section \<open>Shape of the wheels\<close>

definition wsz :: "nat \<Rightarrow> nat" where
  "wsz k = (if k = 0 then 256 else 64)"

definition gran :: "nat \<Rightarrow> nat" where
  "gran k = (if k = 0 then 1 else 2 ^ (8 + 6 * (k - 1)))"

lemma wsz_pos [simp]: "0 < wsz k"
  by (simp add: wsz_def)

lemma gran_pos [simp]: "0 < gran k"
  by (simp add: gran_def)

lemma gran_next: "gran (Suc k) = gran k * wsz k"
proof (cases k)
  case (Suc j)
  have "gran (Suc k) = 2 ^ ((8 + 6 * j) + 6)"
    by (simp add: gran_def Suc)
  also have "\<dots> = 2 ^ (8 + 6 * j) * 64"
    by (subst power_add) simp
  finally show ?thesis
    by (simp add: gran_def wsz_def Suc)
qed (simp add: gran_def wsz_def)

definition shape :: "TimerManager \<Rightarrow> bool" where
  "shape m \<longleftrightarrow> length (mWheels m) = 5 \<and>
     (\<forall>k<5. unat (wheel_size (wheel_at m k)) = wsz k \<and> length (spokes (wheel_at m k)) = wsz k)"

lemma shapeD:
  assumes "shape m" "k < 5"
  shows "unat (wheel_size (wheel_at m k)) = wsz k" "length (spokes (wheel_at m k)) = wsz k"
    "length (mWheels m) = 5"
  using assms by (simp_all add: shape_def)

definition linked :: "TimerManager \<Rightarrow> nat multiset" where
  "linked m = mset (mReadyNodes m) + mset (concat (concat (map spokes (mWheels m))))"

lemma linked_cong: "mReadyNodes m' = mReadyNodes m \<Longrightarrow> mWheels m' = mWheels m \<Longrightarrow> linked m' = linked m"
  by (simp add: linked_def)

lemma spoke_at_cong: "mWheels m' = mWheels m \<Longrightarrow> spoke_at m' = spoke_at m"
  by (simp add: spoke_at_def wheel_at_def fun_eq_iff)

lemma wheel_at_cong: "mWheels m' = mWheels m \<Longrightarrow> wheel_at m' = wheel_at m"
  by (simp add: wheel_at_def fun_eq_iff)

lemma shape_cong: "mWheels m' = mWheels m \<Longrightarrow> shape m' = shape m"
  unfolding shape_def wheel_at_def by simp

subsection \<open>Changing a spoke\<close>

lemma wheel_at_set_spoke:
  assumes "shape m" "k < 5"
  shows "wheel_at (set_spoke k s xs m) j =
    (if j = k then (wheel_at m k)\<lparr>spokes := (spokes (wheel_at m k))[s := xs]\<rparr> else wheel_at m j)"
  using assms by (auto simp: set_spoke_def wheel_at_def shape_def)

lemma spoke_at_set_spoke:
  assumes "shape m" "k < 5" "s < wsz k"
  shows "spoke_at (set_spoke k s xs m) j t = (if j = k \<and> t = s then xs else spoke_at m j t)"
  using assms shapeD [OF assms(1,2)] by (auto simp: spoke_at_def wheel_at_set_spoke)

lemma wheel_at_set_spokeIndex:
  assumes "shape m" "k < 5"
  shows "wheel_at (set_spokeIndex k i m) j =
    (if j = k then (wheel_at m k)\<lparr>spokeIndex := i\<rparr> else wheel_at m j)"
  using assms by (auto simp: set_spokeIndex_def wheel_at_def shape_def)

lemma spoke_at_set_spokeIndex:
  "shape m \<Longrightarrow> k < 5 \<Longrightarrow> spoke_at (set_spokeIndex k i m) j t = spoke_at m j t"
  by (simp add: spoke_at_def wheel_at_set_spokeIndex)

lemma shape_set [simp]:
  assumes "shape m" "k < 5"
  shows "shape (set_spoke k s xs m)" "shape (set_spokeIndex k i m)"
  using assms
  by (auto simp: shape_def wheel_at_set_spoke wheel_at_set_spokeIndex)
    (auto simp: set_spoke_def set_spokeIndex_def)

lemma mset_chain:
  fixes a b c d e f :: "'a multiset"
  assumes "a + b = c + d" "d + e = b + f"
  shows "a + e = c + f"
proof -
  have "(a + b) + (d + e) = (c + d) + (b + f)"
    using assms by simp
  then have "(a + e) + (b + d) = (c + f) + (b + d)"
    by (simp only: ac_simps)
  then show ?thesis
    by simp
qed

lemma mset_concat_update:
  "i < length xss \<Longrightarrow> mset (concat (xss[i := ys])) + mset (xss ! i) = mset (concat xss) + mset ys"
proof (induction xss arbitrary: i)
  case (Cons xs xss)
  then show ?case
    by (cases i) (auto simp: ac_simps)
qed simp

lemma concat_update_wheel:
  assumes "k < length ws"
  shows "concat (map f (ws[k := w])) = concat ((map f ws)[k := f w])"
  by (simp add: map_update)

lemma linked_set_spoke:
  assumes "shape m" "k < 5" "s < wsz k"
  shows "linked (set_spoke k s xs m) + mset (spoke_at m k s) = linked m + mset xs"
proof -
  let ?ws = "mWheels m" and ?w = "wheel_at m k"
  have len: "k < length ?ws" "s < length (spokes ?w)"
    using assms shapeD [OF assms(1,2)] by auto
  have outer: "mset (concat (map concat ((map spokes ?ws)[k := (spokes ?w)[s := xs]]))) + mset (concat (spokes ?w)) =
      mset (concat (map concat (map spokes ?ws))) + mset (concat ((spokes ?w)[s := xs]))"
    using mset_concat_update [of k "map concat (map spokes ?ws)" "concat ((spokes ?w)[s := xs])"] len(1)
    by (simp add: map_update wheel_at_def)
  have flat: "concat (concat xsss) = concat (map concat xsss)" for xsss :: "nat list list list"
    by (induction xsss) auto
  have inner: "mset (concat ((spokes ?w)[s := xs])) + mset (spoke_at m k s) = mset (concat (spokes ?w)) + mset xs"
    using mset_concat_update [OF len(2)] by (simp add: spoke_at_def)
  have "mset (concat (map concat ((map spokes ?ws)[k := (spokes ?w)[s := xs]]))) + mset (spoke_at m k s) =
      mset (concat (map concat (map spokes ?ws))) + mset xs"
    by (rule mset_chain [OF outer inner])
  then show ?thesis
    by (simp add: linked_def flat set_spoke_def map_update ac_simps)
qed

lemma linked_set_spokeIndex:
  assumes "shape m" "k < 5"
  shows "linked (set_spokeIndex k i m) = linked m"
proof -
  have "map spokes ((mWheels m)[k := (wheel_at m k)\<lparr>spokeIndex := i\<rparr>]) = map spokes (mWheels m)"
    using assms shapeD(3) [OF assms]
    by (intro nth_equalityI) (auto simp: wheel_at_def nth_list_update)
  then show ?thesis
    by (simp add: linked_def set_spokeIndex_def)
qed

lemma spoke_mem:
  assumes "shape m" "k < 5" "s < wsz k"
  shows "spoke_at m k s \<in> set (concat (map spokes (mWheels m)))"
proof -
  have "spoke_at m k s \<in> set (spokes (wheel_at m k))"
    using assms shapeD [OF assms(1,2)] by (simp add: spoke_at_def)
  moreover have "wheel_at m k \<in> set (mWheels m)"
    using assms by (simp add: wheel_at_def shape_def)
  ultimately show ?thesis
    by auto
qed

lemma spoke_linked: "shape m \<Longrightarrow> k < 5 \<Longrightarrow> s < wsz k \<Longrightarrow> set (spoke_at m k s) \<subseteq> set_mset (linked m)"
  using spoke_mem [of m k s] by (auto simp: linked_def)

lemma lists_with_linked: "set (lists_with p m) \<subseteq> set_mset (linked m)"
  by (auto simp: lists_with_def linked_def)

lemma linked_cases:
  assumes "p \<in># linked m" "shape m"
  obtains "p \<in> set (mReadyNodes m)"
  | k s where "k < 5" "s < wsz k" "p \<in> set (spoke_at m k s)"
proof (cases "p \<in> set (mReadyNodes m)")
  case False
  then obtain w xs where w: "w \<in> set (mWheels m)" "xs \<in> set (spokes w)" "p \<in> set xs"
    using assms(1) by (auto simp: linked_def)
  then obtain k where k: "k < 5" "w = wheel_at m k"
    using assms(2) by (auto simp: in_set_conv_nth shape_def wheel_at_def)
  then obtain s where "s < wsz k" "xs = spoke_at m k s"
    using w(2) shapeD [OF assms(2)] by (auto simp: in_set_conv_nth spoke_at_def)
  with k w show thesis
    using that(2) by blast
qed (rule that(1))

subsection \<open>Unlinking\<close>

lemma unlink_wheel_fields [simp]:
  "wheel_size (unlink_wheel p w) = wheel_size w" "spokeIndex (unlink_wheel p w) = spokeIndex w"
  "spokes (unlink_wheel p w) = map (filter (\<lambda>q. q \<noteq> p)) (spokes w)"
  by (simp_all add: unlink_wheel_def)

lemma wheel_at_unlink:
  "shape m \<Longrightarrow> k < 5 \<Longrightarrow> mWheels m' = map (unlink_wheel p) (mWheels m) \<Longrightarrow>
   wheel_at m' k = unlink_wheel p (wheel_at m k)"
  by (simp add: wheel_at_def shape_def)

lemma shape_unlink:
  "shape m \<Longrightarrow> mWheels m' = map (unlink_wheel p) (mWheels m) \<Longrightarrow> shape m'"
  using wheel_at_unlink [of m _ m' p] by (auto simp: shape_def)

lemma spoke_at_unlink:
  assumes "shape m" "k < 5" "s < wsz k" "mWheels m' = map (unlink_wheel p) (mWheels m)"
  shows "spoke_at m' k s = filter (\<lambda>q. q \<noteq> p) (spoke_at m k s)"
  using assms shapeD [OF assms(1,2)] by (simp add: spoke_at_def wheel_at_unlink [OF assms(1,2,4)])

lemma linked_unlink:
  assumes "mWheels m' = map (unlink_wheel p) (mWheels m)"
    "mReadyNodes m' = filter (\<lambda>q. q \<noteq> p) (mReadyNodes m)"
  shows "linked m' = filter_mset (\<lambda>q. q \<noteq> p) (linked m)"
proof -
  have sp: "concat (map spokes (map (unlink_wheel p) ws)) =
      map (filter (\<lambda>q. q \<noteq> p)) (concat (map spokes ws))" for ws
    by (induction ws) auto
  have fc: "mset (concat (map (filter P) xss)) = filter_mset P (mset (concat xss))" for P :: "nat \<Rightarrow> bool" and xss
    by (induction xss) auto
  show ?thesis
    using fc [of "\<lambda>q. q \<noteq> p"] by (simp add: linked_def assms sp del: map_map)
qed

end
