(* ===== verification/TimerTime.thy ===== *)
theory TimerTime
  imports TimerInv
begin

text \<open>
  When a spoke is turned to. The number of turns of the wheels is the ghost \<open>r\<close>: \<open>r 0\<close>
  ticks since the start, \<open>r k\<close> turns of wheel \<open>k\<close>.
\<close>

section \<open>The slot of a timer\<close>

lemma wheel_words:
  "unat WHEEL_SIZE1 = 256" "WHEEL_MASK1 = mask 8" "WHEEL_MASK2 = mask 6"
  by (simp_all add: WHEEL_SIZE1_def WHEEL_SIZE2_def WHEEL_MASK1_def WHEEL_MASK2_def
      WHEEL_BITS1_def WHEEL_BITS2_def mask_eq_exp_minus_1 push_bit_eq_mult)

lemma unat_threshold: "b < 32 \<Longrightarrow> unat (push_bit b 1 :: u32) = 2 ^ b"
proof -
  assume "b < 32"
  then have "(2::nat) ^ b < 2 ^ 32"
    by (rule power_strict_increasing) simp
  then show ?thesis
    using unat_of_nat [of "2 ^ b", where 'a = 32]
    by (simp add: push_bit_eq_mult take_bit_nat_eq_self)
qed

lemma unat_and_mask: "unat (w AND mask n :: u32) = unat w mod 2 ^ n"
proof -
  have "unat (w AND mask n) = take_bit n (unat w)"
    by (simp add: unsigned_take_bit_eq flip: take_bit_eq_mask)
  then show ?thesis
    by (simp add: take_bit_eq_mod)
qed

lemma unat_drop: "unat (drop_bit n (w :: u32)) = unat w div 2 ^ n"
proof -
  have "unat (drop_bit n w) = drop_bit n (unat w)"
    by (rule unat_drop_bit_eq)
  then show ?thesis
    by (simp add: drop_bit_eq_div)
qed

lemma upper_spoke_eq:
  assumes b: "b \<le> 26" and i: "2 ^ b \<le> unat i"
  shows "upper_spoke b i idx = ((unat i - 2 ^ b) div 2 ^ b + unat idx) mod 64"
proof -
  let ?th = "push_bit b 1 :: u32" and ?N = "unat i - 2 ^ b + unat idx * 2 ^ b"
  have th: "unat ?th = 2 ^ b"
    using b unat_threshold [of b] by simp
  have "unat (i - ?th) = unat i - 2 ^ b"
    using i th by (simp add: unat_sub word_le_nat_alt)
  then have N: "unat (i - ?th + idx * ?th) = ?N mod 2 ^ 32"
    using th by (simp add: unat_word_ariths mod_add_right_eq)
  have pow: "(2::nat) ^ 32 = 2 ^ b * 2 ^ (32 - b)" "(64::nat) dvd 2 ^ (32 - b)"
    using b le_imp_power_dvd [of 6 "32 - b" "2::nat"] by (simp_all flip: power_add)
  have "upper_spoke b i idx = unat (i - ?th + idx * ?th) div 2 ^ b mod 64"
    by (simp only: upper_spoke_def Let_def wheel_words unat_and_mask unat_drop) simp
  also have "\<dots> = ?N div 2 ^ b mod 2 ^ (32 - b) mod 64"
    unfolding N pow(1) by (simp add: div_mult2_eq mod_mult2_eq)
  also have "\<dots> = ?N div 2 ^ b mod 64"
    using pow(2) by (rule mod_mod_cancel)
  finally show ?thesis
    by (simp add: add.commute)
qed

text \<open>The place of an interval: its wheel, and the turns from the current spoke.\<close>

definition level :: "nat \<Rightarrow> nat" where
  "level i = (if i < 2 ^ 8 then 0 else if i < 2 ^ 14 then 1 else if i < 2 ^ 20 then 2
     else if i < 2 ^ 26 then 3 else 4)"

definition ahead :: "nat \<Rightarrow> nat" where
  "ahead i = (if level i = 0 then i else (i - gran (level i)) div gran (level i))"

lemma timer_slot_eq:
  "timer_slot i m =
     (level (unat i),
      (ahead (unat i) + unat (spokeIndex (wheel_at m (level (unat i))))) mod wsz (level (unat i)))"
proof -
  have g: "gran (Suc 0) = 2 ^ 8" "gran 2 = 2 ^ 14" "gran 3 = 2 ^ 20" "gran 4 = 2 ^ 26"
    by (simp_all add: gran_def)
  have small: "unat (i + x AND mask 8) = (unat i + unat x) mod 256" for x :: u32
    by (simp add: unat_and_mask unat_word_ariths mod_mod_cancel)
  show ?thesis
    unfolding timer_slot_def Let_def GRANULARITY_def
    by (simp add: word_less_nat_alt wheel_words unat_threshold WHEEL_BITS1_def WHEEL_BITS2_def
        upper_spoke_eq level_def ahead_def g wsz_def small)
qed

lemma level_less [simp]: "level i < 5"
  by (simp add: level_def)

lemma ahead_less:
  assumes "i < 2 ^ 32"
  shows "ahead i < wsz (level i)"
proof (cases "level i = 0")
  case False
  have "i - gran (level i) < 63 * gran (level i)"
    using assms False by (auto simp: level_def gran_def split: if_splits)
  then have "ahead i < 63"
    using False by (simp add: ahead_def less_mult_imp_div_less)
  then show ?thesis
    using False by (simp add: wsz_def)
qed (auto simp: ahead_def wsz_def level_def split: if_splits)

lemma gran_level: "level i \<noteq> 0 \<Longrightarrow> gran (level i) \<le> i"
  by (auto simp: level_def gran_def split: if_splits)

section \<open>The time a spoke is turned to\<close>

definition steps_to :: "nat \<Rightarrow> nat \<Rightarrow> nat \<Rightarrow> nat" where
  "steps_to k r s = (s + wsz k - r mod wsz k) mod wsz k"

text \<open>
  A spoke of the first wheel is emptied at its tick; a spoke of an upper wheel is handed
  down when the wheel moves past it.
\<close>

definition due :: "(nat \<Rightarrow> nat) \<Rightarrow> nat \<Rightarrow> nat \<Rightarrow> nat" where
  "due r k s = gran k * (r k + steps_to k (r k) s + (if k = 0 then 0 else 1))"

lemma steps_to_slot:
  assumes "x mod wsz k = r mod wsz k" "j < wsz k"
  shows "steps_to k r ((j + x) mod wsz k) = j"
proof -
  let ?w = "wsz k"
  have "steps_to k r ((j + x) mod ?w) = ((j + x) mod ?w + (?w - r mod ?w)) mod ?w"
    by (simp add: steps_to_def)
  also have "\<dots> = (j + x mod ?w + (?w - r mod ?w)) mod ?w"
    by (metis mod_add_left_eq mod_add_right_eq)
  also have "\<dots> = (j + ?w) mod ?w"
    using assms(1) by (simp add: less_imp_le)
  finally show ?thesis
    using assms(2) by simp
qed

lemma steps_to_turn:
  assumes "s < wsz k" "s \<noteq> r mod wsz k"
  shows "steps_to k r s = Suc (steps_to k (Suc r) s)"
proof -
  let ?w = "wsz k"
  have lt: "r mod ?w < ?w"
    by simp
  have wrap: "(s + ?w - a) mod ?w = s - a" if "a \<le> s" for a
  proof -
    have "s + ?w - a = (s - a) + ?w"
      using that by simp
    then show ?thesis
      using assms(1) by (simp only: mod_add_self2 mod_less less_imp_diff_less)
  qed
  consider "s < r mod ?w" | "r mod ?w < s"
    using assms(2) by linarith
  then show ?thesis
  proof cases
    case 1
    then have "Suc r mod ?w = (if Suc (r mod ?w) = ?w then 0 else Suc (r mod ?w))"
      by (simp add: mod_Suc)
    moreover have "steps_to k r s = s + ?w - r mod ?w"
      unfolding steps_to_def using 1 lt by (intro mod_less) linarith
    moreover have "steps_to k (Suc r) s = s + ?w - Suc (r mod ?w)"
    proof (cases "Suc (r mod ?w) = ?w")
      case True
      then show ?thesis
        using calculation(1) wrap [of 0] by (simp add: steps_to_def)
    next
      case False
      then have "s + ?w - Suc (r mod ?w) < ?w"
        using 1 lt by linarith
      then show ?thesis
        using calculation(1) False by (simp add: steps_to_def)
    qed
    ultimately show ?thesis
      using 1 lt by linarith
  next
    case 2
    then have "Suc r mod ?w = Suc (r mod ?w)"
      using assms(1) by (simp add: mod_Suc)
    moreover have "steps_to k r s = s - r mod ?w"
      using wrap [of "r mod ?w"] 2 by (simp add: steps_to_def)
    moreover have "(s + ?w - Suc (r mod ?w)) mod ?w = s - Suc (r mod ?w)"
      using wrap [of "Suc (r mod ?w)"] 2 by simp
    ultimately show ?thesis
      using 2 by (simp add: steps_to_def)
  qed
qed

lemma due_turn:
  assumes "s < wsz k" "s \<noteq> r k mod wsz k"
  shows "due (r(k := Suc (r k))) k s = due r k s"
  using steps_to_turn [OF assms] by (simp add: due_def)

lemma due_other: "j \<noteq> k \<Longrightarrow> due (r(k := v)) j s = due r j s"
  by (simp add: due_def)

definition turns_ok :: "(nat \<Rightarrow> nat) \<Rightarrow> TimerManager \<Rightarrow> bool" where
  "turns_ok r m \<longleftrightarrow>
     (\<forall>k<5. unat (spokeIndex (wheel_at m k)) mod wsz k = r k mod wsz k \<and> gran k * r k \<le> r 0)"

definition slots_ok :: "nat \<Rightarrow> (nat \<Rightarrow> nat) \<Rightarrow> TimerManager \<Rightarrow> bool" where
  "slots_ok base r m \<longleftrightarrow>
     (\<forall>k<5. \<forall>s<wsz k. \<forall>p\<in>set (spoke_at m k s). \<forall>n. timers m p = Some n \<longrightarrow>
        base + due r k s \<le> unat (mDeadTime n))"

lemma slot_due:
  assumes "turns_ok r m" "timer_slot i m = (k, s)"
  shows "k < 5" "s < wsz k" "due r k s \<le> r 0 + unat i"
proof -
  let ?i = "unat i"
  have k: "k = level ?i" and s: "s = (ahead ?i + unat (spokeIndex (wheel_at m k))) mod wsz k"
    using assms(2) by (auto simp: timer_slot_eq)
  show "k < 5" "s < wsz k"
    by (simp_all add: k s)
  have bound: "?i < 2 ^ 32"
    using unsigned_less [of i, where ?'a = nat] by simp
  have turn: "unat (spokeIndex (wheel_at m k)) mod wsz k = r k mod wsz k" "gran k * r k \<le> r 0"
    using assms(1) k by (auto simp: turns_ok_def)
  then have "steps_to k (r k) s = ahead ?i"
    unfolding s using ahead_less [OF bound] k by (intro steps_to_slot) auto
  moreover have "gran k * (ahead ?i + 1) \<le> ?i" if "k \<noteq> 0"
    using that gran_level [of ?i] k
    by (simp add: ahead_def algebra_simps) (metis (no_types, opaque_lifting) add.commute le_diff_conv2 times_div_less_eq_dividend)
  ultimately show "due r k s \<le> r 0 + ?i"
    using turn(2) by (cases "k = 0") (auto simp: due_def k ahead_def gran_def algebra_simps)
qed

end
