(* ===== verification/TimerOps.thy ===== *)
theory TimerOps
  imports TimerTime
begin

text \<open>The invariant of the manager and that every request of the application keeps it.\<close>

section \<open>The invariant\<close>

text \<open>
  \<open>held\<close> are the nodes that are in no list at the moment, because a loop has taken them off
  one and not yet put them on another.
\<close>

definition nodes_ok :: "nat multiset \<Rightarrow> TimerManager \<Rightarrow> bool" where
  "nodes_ok held m \<longleftrightarrow> finite (dom (timers m)) \<and> linked m + held = mset_set (dom (timers m)) \<and>
     (\<forall>p\<in>dom (timers m). p < fresh_timer m)"

definition handler_ids_ok :: "tagHandlerInternalData \<Rightarrow> bool" where
  "handler_ids_ok d \<longleftrightarrow> distinct (map fst (the_map d)) \<and> \<not> mTimerIdRewind d \<and>
     unat (mNextTimerId d) < 2 ^ 31 \<and>
     (\<forall>i\<in>fst ` set (the_map d). i \<noteq> 0 \<and> unat i \<le> unat (mNextTimerId d))"

definition owners_ok :: "TimerManager \<Rightarrow> bool" where
  "owners_ok m \<longleftrightarrow>
     (\<forall>p n. timers m p = Some n \<longrightarrow>
        (\<exists>d. handlers m (mHandler n) = Some d \<and> map_of (the_map d) (mTimerId n) = Some p)) \<and>
     (\<forall>h d. handlers m h = Some d \<longrightarrow> handler_ids_ok d \<and>
        (\<forall>i p. map_of (the_map d) i = Some p \<longrightarrow>
           (\<exists>n. timers m p = Some n \<and> mHandler n = h \<and> mTimerId n = i)))"

definition timers_wf :: "nat multiset \<Rightarrow> TimerManager \<Rightarrow> bool" where
  "timers_wf held m \<longleftrightarrow> shape m \<and> nodes_ok held m \<and> owners_ok m \<and> \<not> brk m"

definition timely :: "tick_clock \<Rightarrow> nat \<Rightarrow> (nat \<Rightarrow> nat) \<Rightarrow> TimerManager \<Rightarrow> bool" where
  "timely clk base r m \<longleftrightarrow> turns_ok r m \<and> slots_ok base r m \<and>
     (\<forall>p n. timers m p = Some n \<longrightarrow> unat (mDeadTime n) < unat (clk (tick_reads m)) + 2 ^ 32) \<and>
     base + r 0 \<le> unat (clk (tick_reads m))"

definition clock_ok :: "tick_clock \<Rightarrow> bool" where
  "clock_ok clk \<longleftrightarrow> mono clk \<and> (\<forall>n. unat (clk n) < 2 ^ 63)"

definition turns_at :: "nat \<Rightarrow> nat \<Rightarrow> nat" where
  "turns_at c = (\<lambda>k. c div gran k)"

definition indexes_ok :: "TimerManager \<Rightarrow> bool" where
  "indexes_ok m \<longleftrightarrow> (\<forall>k<5. unat (spokeIndex (wheel_at m k)) < wsz k)"

definition timer_inv :: "tick_clock \<Rightarrow> nat \<Rightarrow> nat \<Rightarrow> TimerManager \<Rightarrow> bool" where
  "timer_inv clk base c m \<longleftrightarrow> timers_wf {#} m \<and> timely clk base (turns_at c) m \<and> indexes_ok m \<and>
     unat (mStartTick m) = base + c"

lemma timers_wfD:
  assumes "timers_wf held m"
  shows "shape m" "nodes_ok held m" "owners_ok m" "\<not> brk m"
  using assms by (simp_all add: timers_wf_def)

lemma timelyD:
  assumes "timely clk base r m"
  shows "turns_ok r m" "slots_ok base r m" "base + r 0 \<le> unat (clk (tick_reads m))"
    "timers m p = Some n \<Longrightarrow> unat (mDeadTime n) < unat (clk (tick_reads m)) + 2 ^ 32"
  using assms by (auto simp: timely_def)

lemma nodes_linked: "nodes_ok held m \<Longrightarrow> p \<in># linked m \<Longrightarrow> \<exists>n. timers m p = Some n"
  by (metis domIff elem_mset_set mset_subset_eqD mset_subset_eq_add_left nodes_ok_def not_None_eq)

lemma nodes_held: "nodes_ok held m \<Longrightarrow> p \<in># held \<Longrightarrow> \<exists>n. timers m p = Some n"
  by (metis domIff elem_mset_set mset_subset_eqD mset_subset_eq_add_right nodes_ok_def not_None_eq)

lemma nodes_disjoint:
  assumes "nodes_ok held m" "p \<in># held"
  shows "p \<notin># linked m"
proof
  assume "p \<in># linked m"
  then have "2 \<le> count (linked m + held) p"
    using assms(2) by (metis Suc_1 add_mono_thms_linordered_semiring(1) count_greater_eq_one_iff count_union one_add_one)
  moreover have "linked m + held = mset_set (dom (timers m))"
    using assms(1) by (simp add: nodes_ok_def)
  ultimately have "2 \<le> count (mset_set (dom (timers m))) p"
    by simp
  then show False
    by (simp add: count_mset_set' split: if_splits)
qed

lemma live_linked: "nodes_ok held m \<Longrightarrow> set xs \<subseteq> set_mset (linked m + held) \<Longrightarrow> live_list m xs"
  unfolding live_list_def list_all_iff using nodes_linked nodes_held by fastforce

lemma touch_live: "live_list m xs \<Longrightarrow> touch xs m = m"
  by (simp add: touch_def)

subsection \<open>What does not depend on the parts an operation changes\<close>

lemma owners_ok_cong:
  "timers m' = timers m \<Longrightarrow> handlers m' = handlers m \<Longrightarrow> owners_ok m' = owners_ok m"
  by (simp add: owners_ok_def)

lemma nodes_ok_cong:
  "timers m' = timers m \<Longrightarrow> fresh_timer m' = fresh_timer m \<Longrightarrow> linked m' + held' = linked m + held \<Longrightarrow>
   nodes_ok held' m' = nodes_ok held m"
  by (simp add: nodes_ok_def)

lemma turns_ok_cong: "mWheels m' = mWheels m \<Longrightarrow> turns_ok r m' = turns_ok r m"
  by (simp add: turns_ok_def wheel_at_def)

lemma slots_ok_cong:
  "mWheels m' = mWheels m \<Longrightarrow> timers m' = timers m \<Longrightarrow> slots_ok base r m' = slots_ok base r m"
  by (simp add: slots_ok_def spoke_at_def wheel_at_def)

lemma indexes_ok_cong: "mWheels m' = mWheels m \<Longrightarrow> indexes_ok m' = indexes_ok m"
  by (simp add: indexes_ok_def wheel_at_def)

lemma timers_wf_cong:
  "mWheels m' = mWheels m \<Longrightarrow> mReadyNodes m' = mReadyNodes m \<Longrightarrow> timers m' = timers m \<Longrightarrow>
   fresh_timer m' = fresh_timer m \<Longrightarrow> handlers m' = handlers m \<Longrightarrow> brk m' = brk m \<Longrightarrow>
   timers_wf held m' = timers_wf held m"
  unfolding timers_wf_def
  by (metis linked_cong nodes_ok_cong owners_ok_cong shape_cong)

lemma clk_mono: "clock_ok clk \<Longrightarrow> i \<le> j \<Longrightarrow> unat (clk i) \<le> unat (clk j)"
  by (auto simp: clock_ok_def word_le_nat_alt dest: monoD)

lemma timely_cong:
  assumes "timely clk base r m" "clock_ok clk" "mWheels m' = mWheels m" "timers m' = timers m"
    "tick_reads m \<le> tick_reads m'"
  shows "timely clk base r m'"
  using assms clk_mono [OF assms(2,5)]
  unfolding timely_def turns_ok_cong [OF assms(3)] slots_ok_cong [OF assms(3,4)]
  by (simp, meson le_trans less_le_trans add_le_mono1)

section \<open>Linking a node\<close>

lemma AddTimer_eq:
  assumes wf: "timers_wf (add_mset p held) m" and t: "timely clk base r m"
    and slot: "timer_slot i m = (k, s)"
  shows "AddTimer i p m = set_spoke k s (spoke_at m k s @ [p]) m" "k < 5" "s < wsz k"
proof -
  note sh = timers_wfD(1) [OF wf] and nd = timers_wfD(2) [OF wf]
  show k: "k < 5" and s: "s < wsz k"
    using slot_due [OF timelyD(1) [OF t] slot] by auto
  have "live_list m (p # spoke_at m k s)"
    using spoke_linked [OF sh k s] by (intro live_linked [OF nd]) auto
  then show "AddTimer i p m = set_spoke k s (spoke_at m k s @ [p]) m"
    by (simp add: AddTimer_def slot touch_live)
qed

lemma AddTimer_inv:
  assumes wf: "timers_wf (add_mset p held) m" and t: "timely clk base r m"
    and n: "timers m p = Some n" "base + r 0 + unat i \<le> unat (mDeadTime n)"
  shows "timers_wf held (AddTimer i p m)" "timely clk base r (AddTimer i p m)"
    "\<And>k. k < 5 \<Longrightarrow> spokeIndex (wheel_at (AddTimer i p m) k) = spokeIndex (wheel_at m k)"
proof -
  obtain k s where slot: "timer_slot i m = (k, s)"
    by fastforce
  note eq = AddTimer_eq [OF wf t slot] and sh = timers_wfD(1) [OF wf]
  have due: "due r k s \<le> r 0 + unat i"
    using slot_due [OF timelyD(1) [OF t] slot] by blast
  show idx: "spokeIndex (wheel_at (AddTimer i p m) j) = spokeIndex (wheel_at m j)" if "j < 5" for j
    by (simp add: eq(1) wheel_at_set_spoke [OF sh eq(2)])
  have "linked (AddTimer i p m) + mset (spoke_at m k s) = linked m + mset (spoke_at m k s @ [p])"
    unfolding eq(1) by (rule linked_set_spoke [OF sh eq(2,3)])
  then have "linked (AddTimer i p m) + held = linked m + add_mset p held"
    by simp
  then have "nodes_ok held (AddTimer i p m)"
    using nodes_ok_cong [of "AddTimer i p m" m held "add_mset p held"] timers_wfD(2) [OF wf] by simp
  then show "timers_wf held (AddTimer i p m)"
    using timers_wfD [OF wf] owners_ok_cong [of "AddTimer i p m" m] sh eq(2)
    by (simp add: timers_wf_def) (simp add: eq(1))
  have "turns_ok r (AddTimer i p m)"
    using timelyD(1) [OF t] by (simp add: turns_ok_def idx)
  moreover have "slots_ok base r (AddTimer i p m)"
    unfolding slots_ok_def
  proof (intro allI impI ballI)
    fix j u q n' assume *: "j < 5" "u < wsz j" "q \<in> set (spoke_at (AddTimer i p m) j u)"
      "timers (AddTimer i p m) q = Some n'"
    show "base + due r j u \<le> unat (mDeadTime n')"
    proof (cases "q = p \<and> j = k \<and> u = s")
      case True
      then show ?thesis
        using * n due by simp
    next
      case False
      then have "q \<in> set (spoke_at m j u)"
        using *(3) by (auto simp: eq(1) spoke_at_set_spoke [OF sh eq(2,3)] split: if_splits)
      then show ?thesis
        using * timelyD(2) [OF t] by (auto simp: slots_ok_def)
    qed
  qed
  ultimately show "timely clk base r (AddTimer i p m)"
    using t by (simp add: timely_def)
qed

lemma AddToReady_inv:
  assumes wf: "timers_wf (add_mset p held) m" and t: "timely clk base r m"
  shows "timers_wf held (AddToReady p m)" "timely clk base r (AddToReady p m)"
    "mWheels (AddToReady p m) = mWheels m" "tick_reads (AddToReady p m) = tick_reads m"
    "mReadyNodes (AddToReady p m) = mReadyNodes m @ [p]" "timers (AddToReady p m) = timers m"
proof -
  have "live_list m (p # mReadyNodes m)"
    by (intro live_linked [OF timers_wfD(2) [OF wf]]) (auto simp: linked_def)
  then have eq: "AddToReady p m = m\<lparr>mReadyNodes := mReadyNodes m @ [p]\<rparr>"
    by (simp add: AddToReady_def touch_live)
  have "linked (AddToReady p m) + held = linked m + add_mset p held"
    by (simp add: eq linked_def)
  then have "nodes_ok held (AddToReady p m)"
    using nodes_ok_cong [of "AddToReady p m" m held "add_mset p held"] timers_wfD(2) [OF wf]
    by (simp add: eq)
  then show "timers_wf held (AddToReady p m)"
    using timers_wfD [OF wf] owners_ok_cong [of "AddToReady p m" m] shape_cong [of "AddToReady p m" m]
    by (simp add: timers_wf_def) (simp add: eq)
  show "timely clk base r (AddToReady p m)"
    using t turns_ok_cong [of "AddToReady p m" m r] slots_ok_cong [of "AddToReady p m" m base r]
    by (simp add: timely_def) (simp add: eq)
qed (simp_all add: AddToReady_def)


section \<open>Removing a node\<close>

lemma drop_node_inv:
  assumes sh: "shape m" and nd: "nodes_ok held m" and p: "timers m p = Some n"
    and t: "timely clk base r m"
  defines "m' \<equiv> free_timer p (RemoveTimer p m)"
  shows "shape m'" "nodes_ok (filter_mset (\<lambda>q. q \<noteq> p) held) m'" "timely clk base r m'" "brk m' = brk m"
    "indexes_ok m' = indexes_ok m"
proof -
  have wheels: "mWheels m' = map (unlink_wheel p) (mWheels m)"
    by (simp add: m'_def)
  show "shape m'"
    using shape_unlink [OF sh wheels] .
  have "set (lists_with p m) \<subseteq> set_mset (linked m + held)"
    using lists_with_linked [of p m] by auto
  then have "live_list m (p # lists_with p m)"
    using live_linked [OF nd, of "lists_with p m"] p by (simp add: live_list_def)
  then show "brk m' = brk m"
    by (simp add: m'_def touch_live)
  have "linked m' = filter_mset (\<lambda>q. q \<noteq> p) (linked m)"
    by (rule linked_unlink [OF wheels]) (simp add: m'_def)
  then have "linked m' + filter_mset (\<lambda>q. q \<noteq> p) held = filter_mset (\<lambda>q. q \<noteq> p) (linked m + held)"
    by simp
  also have "\<dots> = mset_set (dom (timers m'))"
    using nd by (auto simp: nodes_ok_def m'_def filter_mset_mset_set intro: arg_cong [where f = mset_set])
  finally show "nodes_ok (filter_mset (\<lambda>q. q \<noteq> p) held) m'"
    using nd by (auto simp: nodes_ok_def m'_def)
  have idx: "spokeIndex (wheel_at m' k) = spokeIndex (wheel_at m k)" if "k < 5" for k
    by (simp add: wheel_at_unlink [OF sh that wheels])
  show "indexes_ok m' = indexes_ok m"
    by (simp add: indexes_ok_def idx)
  have "slots_ok base r m'"
    using timelyD(2) [OF t] spoke_at_unlink [OF sh _ _ wheels]
    by (auto simp: slots_ok_def m'_def split: if_splits)
  moreover have "turns_ok r m'"
    using timelyD(1) [OF t] by (simp add: turns_ok_def idx)
  ultimately show "timely clk base r m'"
    using t by (auto simp: timely_def m'_def split: if_splits)
qed

text \<open>Two handlers' maps never share a node.\<close>

lemma owner_unique:
  assumes "owners_ok m" "handlers m h = Some d" "map_of (the_map d) i = Some p"
    "handlers m h' = Some d'" "map_of (the_map d') i' = Some p"
  shows "h' = h \<and> i' = i"
  using assms unfolding owners_ok_def by (metis option.inject)

lemma owners_node:
  assumes "owners_ok m" "handlers m h = Some d" "map_of (the_map d) i = Some p"
  obtains n where "timers m p = Some n" "mHandler n = h" "mTimerId n = i"
  using assms unfolding owners_ok_def by blast

lemma owners_ids: "owners_ok m \<Longrightarrow> handlers m h = Some d \<Longrightarrow> handler_ids_ok d"
  unfolding owners_ok_def by blast

lemma owners_delete:
  assumes ow: "owners_ok m" and d: "handlers m h = Some d" and i: "map_of (the_map d) i = Some p"
    and m': "timers m' = (timers m)(p := None)" "handlers m' = (handlers m)(h \<mapsto> d')"
    and d': "handler_ids_ok d'" "map_of (the_map d') = (map_of (the_map d))(i := None)"
  shows "owners_ok m'"
proof -
  have "\<exists>d2. handlers m' (mHandler n) = Some d2 \<and> map_of (the_map d2) (mTimerId n) = Some q"
    if q: "timers m' q = Some n" for q n
  proof -
    have "timers m q = Some n" "q \<noteq> p"
      using q by (auto simp: m' split: if_splits)
    moreover from this obtain d2 where "handlers m (mHandler n) = Some d2"
        "map_of (the_map d2) (mTimerId n) = Some q"
      using ow unfolding owners_ok_def by blast
    ultimately show ?thesis
      using i d by (auto simp: m' d')
  qed
  moreover have "handler_ids_ok d2 \<and> (\<forall>j q. map_of (the_map d2) j = Some q \<longrightarrow>
      (\<exists>n. timers m' q = Some n \<and> mHandler n = h2 \<and> mTimerId n = j))"
    if h2: "handlers m' h2 = Some d2" for h2 d2
  proof (intro conjI allI impI)
    show "handler_ids_ok d2"
      using h2 d' owners_ids [OF ow] by (auto simp: m' split: if_splits)
    fix j q assume q: "map_of (the_map d2) j = Some q"
    obtain d3 where d3: "handlers m h2 = Some d3" "map_of (the_map d3) j = Some q" "h2 = h \<Longrightarrow> j \<noteq> i"
    proof (cases "h2 = h")
      case True
      with h2 q have "((map_of (the_map d))(i := None)) j = Some q"
        by (simp add: m' flip: d'(2))
      with True that [of d] d show ?thesis
        by (auto split: if_splits)
    next
      case False
      with h2 q that [of d2] show ?thesis
        by (simp add: m')
    qed
    then have "q \<noteq> p"
      using owner_unique [OF ow d i d3(1)] by blast
    then show "\<exists>n. timers m' q = Some n \<and> mHandler n = h2 \<and> mTimerId n = j"
      using owners_node [OF ow d3(1,2)] by (metis fun_upd_other m'(1))
  qed
  ultimately show ?thesis
    unfolding owners_ok_def by blast
qed

lemma handler_ids_delete:
  assumes "handler_ids_ok d" "mTimerMap d = Some tm"
  shows "handler_ids_ok (d\<lparr>mTimerMap := Some (AList.delete i tm)\<rparr>)"
  using assms distinct_delete [of tm i] by (auto simp: handler_ids_ok_def the_map_def AList.delete_eq)

lemma KillTimer_inv:
  fixes i :: c_long
  assumes wf: "timers_wf held m" and t: "timely clk base r m" and d: "handlers m h = Some d"
  defines "m' \<equiv> snd (KillTimer (Some h) i m)"
    and "gone \<equiv> \<lambda>q. map_of (the_map d) i = Some q"
  shows "timers_wf (filter_mset (\<lambda>q. \<not> gone q) held) m'" "timely clk base r m'"
    "indexes_ok m' = indexes_ok m"
proof -
  have "timers_wf (filter_mset (\<lambda>q. \<not> gone q) held) m' \<and> timely clk base r m' \<and> indexes_ok m' = indexes_ok m"
  proof (cases "map_of (the_map d) i")
    case None
    then have "m' = m"
      by (auto simp: m'_def KillTimer_def d the_map_def split: option.splits)
    then show ?thesis
      using None wf t by (simp add: gone_def)
  next
    case (Some p)
    then obtain tm where tm: "mTimerMap d = Some tm" "map_of tm i = Some p"
      by (auto simp: the_map_def split: option.splits)
    define d' m1 where "d' = d\<lparr>mTimerMap := Some (AList.delete i tm)\<rparr>" and "m1 = set_handler h d' m"
    have m': "m' = free_timer p (RemoveTimer p m1)"
      by (simp add: m'_def KillTimer_def d tm m1_def d'_def)
    note ow = timers_wfD(3) [OF wf]
    obtain n where n: "timers m1 p = Some n"
      using owners_node [OF ow d Some] by (auto simp: m1_def)
    have sh: "shape m1" and nd: "nodes_ok held m1" and t1: "timely clk base r m1"
      using timers_wfD [OF wf] t
      by (auto simp: m1_def nodes_ok_def timely_def linked_def turns_ok_def slots_ok_def shape_def
          wheel_at_def spoke_at_def)
    have "owners_ok m'"
      using handler_ids_delete [OF owners_ids [OF ow d] tm(1)]
      by (intro owners_delete [OF ow d Some, of _ d'])
        (auto simp: m' m1_def d'_def the_map_def tm delete_conv)
    moreover have "indexes_ok m1 = indexes_ok m"
      by (rule indexes_ok_cong) (simp add: m1_def)
    moreover have "brk m1 = brk m"
      by (simp add: m1_def)
    moreover have "(\<lambda>q. \<not> gone q) = (\<lambda>q. q \<noteq> p)"
      by (auto simp: gone_def Some)
    ultimately show ?thesis
      using drop_node_inv [OF sh nd n t1, folded m'] timers_wfD(4) [OF wf]
      unfolding timers_wf_def by metis
  qed
  then show "timers_wf (filter_mset (\<lambda>q. \<not> gone q) held) m'" "timely clk base r m'"
    "indexes_ok m' = indexes_ok m"
    by blast+
qed

end
