(* ===== verification/TimerReq.thy ===== *)
theory TimerReq
  imports TimerOps
begin

text \<open>
  The requests of the application: setting a timer under a new id, killing one, destroying
  a handler.
\<close>

section \<open>Timer ids\<close>

lemma the_map_simps [simp]:
  "the_map (d\<lparr>mTimerMap := Some tm\<rparr>) = tm" "the_map (d\<lparr>mTimerMap := None\<rparr>) = []"
  "the_map (d\<lparr>mNextTimerId := i\<rparr>) = the_map d" "the_map (d\<lparr>mTimerIdRewind := b\<rparr>) = the_map d"
  "the_map (d\<lparr>mCreated := b\<rparr>) = the_map d" "the_map (new_handler b) = []"
  by (simp_all add: the_map_def new_handler_def)

lemma NextTimerId_spec:
  assumes ok: "handler_ids_ok d"
  obtains i d' where "NextTimerId d = Some (i, d')" "i \<noteq> 0" "map_of (the_map d) i = None"
    "the_map d' = the_map d" "mCreated d' = mCreated d" "mIsLooper d' = mIsLooper d"
    "mTimerMap d' = mTimerMap d"
    "\<not> 2 ^ 31 \<le> i \<Longrightarrow> handler_ids_ok d' \<and> unat i \<le> unat (mNextTimerId d')"
proof -
  have keys: "map_of (the_map d) j = None" if "unat (mNextTimerId d) < unat j" for j
    using ok that by (force simp: handler_ids_ok_def map_of_eq_None_iff)
  have nx: "unat (mNextTimerId d) < 2 ^ 31"
    using ok by (simp add: handler_ids_ok_def)
  then have inc: "unat (mNextTimerId d + 1) = unat (mNextTimerId d) + 1"
    by (simp add: unat_word_ariths)
  have lt: "\<not> 2 ^ 31 \<le> j \<Longrightarrow> unat j < 2 ^ 31" for j :: c_long
    by (simp add: word_le_nat_alt)
  consider "the_map d = []" | "the_map d \<noteq> []" "mNextTimerId d \<noteq> 0 \<and> map_of (the_map d) (mNextTimerId d) = None"
    | "the_map d \<noteq> []" "\<not> (mNextTimerId d \<noteq> 0 \<and> map_of (the_map d) (mNextTimerId d) = None)"
    by blast
  then show thesis
  proof cases
    case 1
    then show thesis
      using that [of 1 "d\<lparr>mTimerIdRewind := False, mNextTimerId := 1\<rparr>"]
      by (simp add: NextTimerId_def handler_ids_ok_def)
  next
    case 2
    then show thesis
      using that [of "mNextTimerId d" d] ok by (simp add: NextTimerId_def)
  next
    case 3
    have nz: "mNextTimerId d + 1 \<noteq> 0"
      using inc by auto
    have rw: "\<not> mTimerIdRewind d"
      using ok by (simp add: handler_ids_ok_def)
    let ?d = "d\<lparr>mNextTimerId := mNextTimerId d + 1\<rparr>"
    have next_eq: "NextTimerId d = Some (mNextTimerId d + 1, ?d)"
      unfolding NextTimerId_def Let_def if_not_P [OF 3(1)] if_not_P [OF 3(2)] if_not_P [OF nz]
      using rw by simp
    have "handler_ids_ok ?d" if "\<not> 2 ^ 31 \<le> mNextTimerId d + 1"
      using ok lt [OF that] by (auto simp: handler_ids_ok_def inc intro: le_SucI)
    then show thesis
      using that [OF next_eq nz keys] by (simp add: inc)
  qed
qed

section \<open>Setting a timer\<close>

lemma owners_update:
  assumes ow: "owners_ok m" and d: "handlers m h = Some d" and i: "map_of (the_map d) i = None"
    and p: "timers m p = None"
    and m': "timers m' = (timers m)(p \<mapsto> n)" "handlers m' = (handlers m)(h \<mapsto> d')"
    and n: "mHandler n = h" "mTimerId n = i"
    and d': "handler_ids_ok d'" "map_of (the_map d') = (map_of (the_map d))(i \<mapsto> p)"
  shows "owners_ok m'"
proof -
  have "\<exists>d2. handlers m' (mHandler k) = Some d2 \<and> map_of (the_map d2) (mTimerId k) = Some q"
    if q: "timers m' q = Some k" for q k
  proof (cases "q = p")
    case True
    then show ?thesis
      using q n by (auto simp: m' d')
  next
    case False
    then obtain d2 where "handlers m (mHandler k) = Some d2" "map_of (the_map d2) (mTimerId k) = Some q"
    proof -
      have "timers m q = Some k"
        using False q by (simp add: m')
      with that ow show thesis
        unfolding owners_ok_def by blast
    qed
    then show ?thesis
      using i d by (auto simp: m' d')
  qed
  moreover have "handler_ids_ok d2 \<and> (\<forall>j q. map_of (the_map d2) j = Some q \<longrightarrow>
      (\<exists>k. timers m' q = Some k \<and> mHandler k = h2 \<and> mTimerId k = j))"
    if h2: "handlers m' h2 = Some d2" for h2 d2
  proof (intro conjI allI impI)
    show "handler_ids_ok d2"
      using h2 d' owners_ids [OF ow] by (auto simp: m' split: if_splits)
    fix j q assume q: "map_of (the_map d2) j = Some q"
    show "\<exists>k. timers m' q = Some k \<and> mHandler k = h2 \<and> mTimerId k = j"
    proof (cases "h2 = h \<and> j = i")
      case True
      then show ?thesis
        using h2 q n d' by (auto simp: m')
    next
      case False
      then obtain d3 where "handlers m h2 = Some d3" "map_of (the_map d3) j = Some q"
        using h2 q d d'(2) by (cases "h2 = h") (auto simp: m')
      then obtain k where "timers m q = Some k" "mHandler k = h2" "mTimerId k = j"
        using owners_node [OF ow] by metis
      then show ?thesis
        using p by (auto simp: m')
    qed
  qed
  ultimately show ?thesis
    unfolding owners_ok_def by blast
qed

lemma handler_ids_update:
  assumes "handler_ids_ok d" "i \<noteq> 0" "unat i \<le> unat (mNextTimerId d)"
  shows "handler_ids_ok (d\<lparr>mTimerMap := Some (AList.update i p (the_map d))\<rparr>)"
  using assms distinct_update [of "the_map d" i p]
  by (auto simp: handler_ids_ok_def dom_update)

lemma fresh_timer_new: "nodes_ok held m \<Longrightarrow> timers m (fresh_timer m) = None"
  by (auto simp: nodes_ok_def dom_def)

lemma deadline_add:
  assumes "clock_ok clk"
  shows "unat (clk j + ucast (i :: u32)) = unat (clk j) + unat i"
proof -
  have "unat (clk j) < 2 ^ 63" "unat i < 2 ^ 32"
    using assms unsigned_less [of i, where ?'a = nat] by (auto simp: clock_ok_def)
  then show ?thesis
    by (simp add: unat_word_ariths unsigned_ucast_eq take_bit_nat_eq_self)
qed

lemma SetTimer_inv:
  fixes ms :: u32 and info :: "nat option option"
  assumes wf: "timers_wf {#} m" and t: "timely clk base r m" and ck: "clock_ok clk"
    and d: "handlers m h = Some d" and i: "map_of (the_map d) i = None" "i \<noteq> 0"
      "unat i \<le> unat (mNextTimerId d)"
  defines "m' \<equiv> SetTimer clk (Some h) i ms info m"
  shows "timers_wf {#} m'" "timely clk base r m'" "indexes_ok m' = indexes_ok m"
    "mStartTick m' = mStartTick m" "mReadyNodes m' = mReadyNodes m"
proof -
  note sh = timers_wfD(1) [OF wf] and nd = timers_wfD(2) [OF wf] and ow = timers_wfD(3) [OF wf]
  define iv where "iv = (if ms = 0 then 1 else ms)"
  define p where "p = fresh_timer m"
  define now where "now = clk (tick_reads m)"
  define n where "n = \<lparr>mHandler = h, mDeadTime = now + ucast iv, mTimerId = i, mInterval = iv, mExtraInfo = info\<rparr>"
  define d' where "d' = d\<lparr>mTimerMap := Some (AList.update i p (the_map d))\<rparr>"
  define m1 where "m1 = m\<lparr>tick_reads := Suc (tick_reads m), timers := (timers m)(p \<mapsto> n),
      fresh_timer := Suc p, handlers := (handlers m)(h \<mapsto> d')\<rparr>"
  have m': "m' = AddTimer iv p m1"
    by (simp add: m'_def SetTimer_def d i(1) GetCurrentMillisec_def set_handler_def m1_def n_def
        iv_def p_def now_def d'_def Let_def)
  have p: "timers m p = None" "p \<notin># linked m"
    using fresh_timer_new [OF nd] nodes_linked [OF nd, of p] by (auto simp: p_def)
  have dead: "unat (mDeadTime n) = unat now + unat iv"
    by (simp add: n_def now_def deadline_add [OF ck])
  have lk: "linked m1 = linked m"
    by (rule linked_cong) (simp_all add: m1_def)
  have "nodes_ok {#p#} m1"
    using nd p(1) by (auto simp: nodes_ok_def lk) (auto simp: m1_def p_def domIff intro: less_SucI)
  moreover have "owners_ok m1"
    using handler_ids_update [OF owners_ids [OF ow d] i(2,3)]
    by (intro owners_update [OF ow d i(1) p(1), of _ n d'])
      (simp_all add: m1_def d'_def n_def update_conv')
  moreover have "shape m1" "\<not> brk m1"
    using sh shape_cong [of m1 m] timers_wfD(4) [OF wf] by (simp_all add: m1_def)
  ultimately have wf1: "timers_wf {#p#} m1"
    by (simp add: timers_wf_def)
  have mono: "unat (clk (tick_reads m)) \<le> unat (clk (tick_reads m1))"
    by (rule clk_mono [OF ck]) (simp add: m1_def)
  have "slots_ok base r m1"
    unfolding slots_ok_def
  proof (intro allI impI ballI)
    fix k s q n' assume *: "k < 5" "s < wsz k" "q \<in> set (spoke_at m1 k s)" "timers m1 q = Some n'"
    have sp: "spoke_at m1 k s = spoke_at m k s"
      by (simp add: spoke_at_def wheel_at_def m1_def)
    with *(3) have "q \<noteq> p"
      using p(2) spoke_linked [OF sh *(1,2)] by auto
    then show "base + due r k s \<le> unat (mDeadTime n')"
      using * sp timelyD(2) [OF t] by (auto simp: slots_ok_def m1_def)
  qed
  moreover have "unat (mDeadTime n') < unat (clk (tick_reads m1)) + 2 ^ 32" if "timers m1 q = Some n'" for q n'
    using that timelyD(4) [OF t] mono dead unsigned_less [of iv, where ?'a = nat]
    by (cases "q = p") (fastforce simp: m1_def now_def)+
  ultimately have t1: "timely clk base r m1"
    using t mono turns_ok_cong [of m1 m r] by (auto simp: timely_def) (simp_all add: m1_def)
  have "base + r 0 + unat iv \<le> unat (mDeadTime n)"
    using timelyD(3) [OF t] dead by (simp add: now_def)
  note add = AddTimer_inv [OF wf1 t1 _ this]
  show "timers_wf {#} m'" "timely clk base r m'"
    unfolding m' using add by (simp_all add: m1_def)
  have "spokeIndex (wheel_at m' k) = spokeIndex (wheel_at m k)" if "k < 5" for k
    unfolding m' using add(3) that by (simp add: m1_def wheel_at_def)
  then show "indexes_ok m' = indexes_ok m"
    by (simp add: indexes_ok_def)
  show "mStartTick m' = mStartTick m" "mReadyNodes m' = mReadyNodes m"
    unfolding m' by (simp_all add: m1_def)
qed


section \<open>Destroying a handler\<close>

lemma owners_set_handler:
  assumes ow: "owners_ok m" and d': "handler_ids_ok d'"
      "the_map d' = (case handlers m h of None \<Rightarrow> [] | Some d \<Rightarrow> the_map d)"
    and m': "handlers m' = (handlers m)(h \<mapsto> d')" "timers m' = timers m"
  shows "owners_ok m'"
proof -
  have bwd: "\<exists>d3. handlers m h2 = Some d3 \<and> map_of (the_map d3) j = Some q"
    if "handlers m' h2 = Some d2" "map_of (the_map d2) j = Some q" for h2 d2 j q
    using that d'(2) by (cases "h2 = h"; cases "handlers m h") (auto simp: m')
  have fwd: "\<exists>d2. handlers m' h2 = Some d2 \<and> map_of (the_map d2) j = Some q"
    if "handlers m h2 = Some d3" "map_of (the_map d3) j = Some q" for h2 d3 j q
    using that d'(2) by (cases "h2 = h") (auto simp: m')
  have "handler_ids_ok d2" if "handlers m' h2 = Some d2" for h2 d2
    using that d'(1) owners_ids [OF ow, of h2] by (cases "h2 = h") (auto simp: m')
  with ow bwd fwd show ?thesis
    unfolding owners_ok_def m'(2) by metis
qed

text \<open>The part of the invariant that the requests keep at any tick.\<close>

definition calm :: "tick_clock \<Rightarrow> nat \<Rightarrow> (nat \<Rightarrow> nat) \<Rightarrow> TimerManager \<Rightarrow> bool" where
  "calm clk base r m \<longleftrightarrow> timers_wf {#} m \<and> timely clk base r m \<and> indexes_ok m"

lemma calm_cong:
  assumes c: "calm clk base r m" and ow: "owners_ok m'"
    and m': "mWheels m' = mWheels m" "timers m' = timers m" "fresh_timer m' = fresh_timer m"
      "mReadyNodes m' = mReadyNodes m" "brk m' = brk m" "tick_reads m' = tick_reads m"
  shows "calm clk base r m'"
proof -
  have "nodes_ok {#} m' = nodes_ok {#} m"
    by (rule nodes_ok_cong [OF m'(2,3)]) (simp add: linked_cong [OF m'(4,1)])
  with c ow show ?thesis
    by (simp add: calm_def timers_wf_def timely_def m' shape_cong [OF m'(1)] turns_ok_cong [OF m'(1)]
        slots_ok_cong [OF m'(1,2)] indexes_ok_cong [OF m'(1)])
qed

lemma int_id_small: "unat i < 2 ^ 31 \<Longrightarrow> \<not> int_id_negative i"
proof -
  assume "unat i < 2 ^ 31"
  then have "unat (ucast i :: 32 word) < 2 ^ 31"
    by (simp add: unsigned_ucast_eq take_bit_nat_eq_self)
  then have "int (unat (ucast i :: 32 word)) < int (2 ^ 31)"
    by (simp only: of_nat_less_iff)
  then have "uint (ucast i :: 32 word) < 2 ^ 31"
    by (simp only: uint_nat) simp
  then have "signed_take_bit 31 (uint (ucast i :: 32 word)) = uint (ucast i :: 32 word)"
    by (intro signed_take_bit_int_eq_self) (auto intro: order.trans [of _ 0])
  then have "sint (ucast i :: 32 word) = uint (ucast i :: 32 word)"
    by (simp add: sint_uint)
  then show ?thesis
    by (simp add: int_id_negative_def)
qed

lemma set_handler_drop:
  "free_timer p (RemoveTimer p (set_handler h x m)) = set_handler h x (free_timer p (RemoveTimer p m))"
  by (simp add: RemoveTimer_def free_timer_def set_handler_def touch_def live_list_def lists_with_def)

lemma KillTimer_calm:
  assumes "calm clk base r m" "handlers m h = Some d"
  shows "calm clk base r (snd (KillTimer (Some h) i m))"
  using KillTimer_inv [of "{#}" m clk base r h d i] assms by (simp add: calm_def)

lemma remove_entries_calm:
  assumes "calm clk base r (set_handler h (d\<lparr>mTimerMap := Some tm\<rparr>) m)"
  shows "\<exists>m'. remove_entries tm m = ([], m') \<and> calm clk base r (set_handler h (d\<lparr>mTimerMap := Some []\<rparr>) m')"
  using assms
proof (induction tm arbitrary: m)
  case (Cons e tm)
  obtain i p where e: "e = (i, p)"
    by fastforce
  let ?m = "set_handler h (d\<lparr>mTimerMap := Some ((i, p) # tm)\<rparr>) m"
  have ow: "owners_ok ?m"
    using Cons.prems by (simp add: calm_def timers_wf_def e)
  then obtain n where n: "timers m p = Some n" "mTimerId n = i"
    using owners_node [OF ow, of h "d\<lparr>mTimerMap := Some ((i, p) # tm)\<rparr>" i p] by auto
  have ids: "handler_ids_ok (d\<lparr>mTimerMap := Some ((i, p) # tm)\<rparr>)"
    using owners_ids [OF ow, of h] by simp
  then have "AList.delete i tm = tm"
    by (auto simp: handler_ids_ok_def intro!: delete_idem)
  then have kill: "snd (KillTimer (Some h) i ?m) =
      set_handler h (d\<lparr>mTimerMap := Some tm\<rparr>) (free_timer p (RemoveTimer p m))"
    by (simp add: KillTimer_def flip: set_handler_drop) (simp add: set_handler_def)
  have "calm clk base r (snd (KillTimer (Some h) i ?m))"
    using Cons.prems by (intro KillTimer_calm) (simp_all add: e)
  moreover have "\<not> int_id_negative (mTimerId n)"
    using ids n(2) by (intro int_id_small) (auto simp: handler_ids_ok_def)
  ultimately show ?case
    using Cons.IH [of "free_timer p (RemoveTimer p m)"] n(1) by (simp add: kill e)
qed auto

lemma handler_dtor_calm:
  assumes c: "calm clk base r m" and d: "handlers m h = Some d" "\<not> mIsLooper d"
  shows "calm clk base r (handler_dtor h m)"
proof -
  have "\<exists>m1 d1. RemoveAllTimer h d m = m1 \<and> calm clk base r m1 \<and> handlers m1 h = Some d1 \<and> the_map d1 = []"
  proof (cases "mTimerMap d")
    case None
    then show ?thesis
      using c d by (simp add: RemoveAllTimer_def the_map_def)
  next
    case (Some tm)
    have "set_handler h (d\<lparr>mTimerMap := Some tm\<rparr>) m = m"
      using Some d by (simp add: set_handler_def map_upd_triv flip: Some)
    then obtain m' where m': "remove_entries tm m = ([], m')"
        "calm clk base r (set_handler h (d\<lparr>mTimerMap := Some []\<rparr>) m')"
      using remove_entries_calm [where d = d and tm = tm and m = m and h = h] c by metis
    let ?e = "set_handler h (d\<lparr>mTimerMap := Some []\<rparr>) m'" and ?n = "set_handler h (d\<lparr>mTimerMap := None\<rparr>) m'"
    have "RemoveAllTimer h d m = ?n"
      by (simp add: RemoveAllTimer_def Some m'(1))
    moreover have ow: "owners_ok ?e"
      using m'(2) by (simp add: calm_def timers_wf_def)
    have "owners_ok ?n"
      using owners_ids [OF ow, of h]
      by (intro owners_set_handler [OF ow, of "d\<lparr>mTimerMap := None\<rparr>" h])
        (simp_all add: handler_ids_ok_def)
    then have "calm clk base r ?n"
      using calm_cong [OF m'(2)] by simp
    ultimately show ?thesis
      by auto
  qed
  then obtain m1 d1 where m1: "RemoveAllTimer h d m = m1" "calm clk base r m1" "handlers m1 h = Some d1"
      "the_map d1 = []"
    by blast
  let ?m = "m1\<lparr>handlers := (handlers m1)(h := None)\<rparr>"
  have ow: "owners_ok m1"
    using m1(2) by (simp add: calm_def timers_wf_def)
  then have "mHandler n \<noteq> h" if "timers m1 p = Some n" for p n
    using that m1(3,4) unfolding owners_ok_def by fastforce
  then have "owners_ok ?m"
    using ow unfolding owners_ok_def by auto
  then have "calm clk base r ?m"
    using calm_cong [OF m1(2)] by simp
  then show ?thesis
    using d m1 by (simp add: handler_dtor_def)
qed

section \<open>Every request\<close>

lemma SetTimerEx_calm:
  assumes c: "calm clk base r m" and ck: "clock_ok clk" and h: "handlers m h = Some d"
    and w: "\<not> wide_id (snd (looper_SetTimerEx clk (Some h) ms info m))"
  shows "calm clk base r (snd (looper_SetTimerEx clk (Some h) ms info m))"
proof (cases "mCreated d")
  case True
  have ow: "owners_ok m"
    using c by (simp add: calm_def timers_wf_def)
  obtain i d' where next_eq: "NextTimerId d = Some (i, d')" "i \<noteq> 0" "map_of (the_map d) i = None"
      "the_map d' = the_map d" "\<not> 2 ^ 31 \<le> i \<Longrightarrow> handler_ids_ok d' \<and> unat i \<le> unat (mNextTimerId d')"
    by (rule NextTimerId_spec [OF owners_ids [OF ow h]]) (rule that)
  let ?m = "(set_handler h d' m)\<lparr>wide_id := wide_id m \<or> 2 ^ 31 \<le> i\<rparr>"
  have eq: "snd (looper_SetTimerEx clk (Some h) ms info m) = SetTimer clk (Some h) i ms info ?m"
    by (simp add: looper_SetTimerEx_def h True next_eq(1))
  have "quiet ?m (SetTimer clk (Some h) i ms info ?m)"
    by (rule quiet_SetTimer)
  then have "\<not> 2 ^ 31 \<le> i"
    using w by (auto simp: eq quiet_def)
  then have ids: "handler_ids_ok d'" "unat i \<le> unat (mNextTimerId d')"
    using next_eq(5) by auto
  have "owners_ok ?m"
    using next_eq(4) h by (intro owners_set_handler [OF ow ids(1)]) simp_all
  then have "calm clk base r ?m"
    using calm_cong [OF c] by simp
  then show ?thesis
    using SetTimer_inv [of ?m clk base r h d' i ms info] ck next_eq ids
    by (simp add: calm_def eq)
qed (use c h in \<open>simp add: looper_SetTimerEx_def\<close>)

lemma handlers_only_calm:
  assumes c: "calm clk base r m" and m': "handlers m' = (handlers m)(h \<mapsto> d')" "mWheels m' = mWheels m"
    "timers m' = timers m" "fresh_timer m' = fresh_timer m" "mReadyNodes m' = mReadyNodes m"
    "brk m' = brk m" "tick_reads m' = tick_reads m"
    and d': "handler_ids_ok d'" "the_map d' = (case handlers m h of None \<Rightarrow> [] | Some d \<Rightarrow> the_map d)"
  shows "calm clk base r m'"
proof -
  have "owners_ok m"
    using c by (simp add: calm_def timers_wf_def)
  then show ?thesis
    using calm_cong [OF c owners_set_handler [OF _ d' m'(1,3)]] m' by simp
qed

lemma run_request_calm:
  assumes c: "calm clk base r m" and ck: "clock_ok clk" and b: "mBusying m \<or> q \<noteq> ReqProcessTimer"
    and w: "\<not> wide_id (run_request clk q m)"
  shows "calm clk base r (run_request clk q m)"
proof (cases q)
  case (ReqSetTimer h ms info)
  then show ?thesis
    using SetTimerEx_calm [OF c ck] w c by (cases "handlers m h") (auto simp: run_request_def)
next
  case (ReqKillTimer h i)
  then show ?thesis
    using KillTimer_calm [OF c] c
    by (cases "handlers m h") (auto simp: run_request_def looper_KillTimer_def)
next
  case (ReqNewHandler h looper)
  then show ?thesis
    using c by (auto simp: run_request_def handler_ids_ok_def new_handler_def the_map_def
        intro: handlers_only_calm [OF c])
next
  case (ReqCreated h)
  then show ?thesis
  proof (cases "handlers m h")
    case (Some d)
    have "handler_ids_ok d"
      using c owners_ids [OF _ Some] by (simp add: calm_def timers_wf_def)
    then show ?thesis
      using Some ReqCreated
      by (intro handlers_only_calm [OF c, of _ h "d\<lparr>mCreated := True\<rparr>"])
        (simp_all add: run_request_def handler_ids_ok_def)
  qed (use c in \<open>simp add: run_request_def\<close>)
next
  case (ReqDestroy h)
  then show ?thesis
    using c handler_dtor_calm [OF c] by (auto simp: run_request_def split: option.split)
next
  case ReqProcessTimer
  then show ?thesis
    using b c owners_ok_cong [of "run_request clk q m" m] calm_cong [OF c, of "run_request clk q m"]
    by (simp add: run_request_def calm_def timers_wf_def)
qed

lemma run_requests_calm:
  assumes "calm clk base r m" "clock_ok clk" "mBusying m" "\<not> wide_id (run_requests clk qs m)"
  shows "calm clk base r (run_requests clk qs m)"
  using assms
proof (induction qs arbitrary: m)
  case (Cons q qs)
  have eq: "run_requests clk (q # qs) m = run_requests clk qs (run_request clk q m)"
    by (simp add: run_requests_def)
  have "mBusying (run_request clk q m)" "\<not> wide_id (run_request clk q m)"
    using quiet_run_request [of m clk q] quiet_run_requests [of "run_request clk q m" clk qs] Cons.prems
    by (auto simp: quiet_def eq)
  then show ?case
    using Cons run_request_calm [of clk base r m q] by (simp add: eq)
qed (simp add: run_requests_def)

end
