(* ===== verification/TimerTurn.thy ===== *)
theory TimerTurn
  imports TimerReq
begin

text \<open>Turning the wheels and calling back the timers that are due keeps the invariant.\<close>

section \<open>Turning one wheel\<close>

definition turned :: "TimerManager \<Rightarrow> TimerManager \<Rightarrow> bool" where
  "turned m m' \<longleftrightarrow> timers m' = timers m \<and> fresh_timer m' = fresh_timer m \<and> handlers m' = handlers m \<and>
     mBusying m' = mBusying m \<and> event_log m' = event_log m \<and> wide_id m' = wide_id m \<and>
     tick_reads m \<le> tick_reads m' \<and> (\<exists>ys. mReadyNodes m' = mReadyNodes m @ ys)"

lemma turned_refl [simp]: "turned m m"
  by (simp add: turned_def)

lemma turned_trans: "turned m1 m2 \<Longrightarrow> turned m2 m3 \<Longrightarrow> turned m1 m3"
  by (auto simp: turned_def)

lemma turn_wheel:
  assumes wf: "timers_wf {#} m" and t: "turns_ok r m" "slots_ok base r m" and k: "k < 5"
    and idx: "unat (spokeIndex (wheel_at m k)) < wsz k"
    and i: "unat i mod wsz k = Suc (r k) mod wsz k" and g: "gran k * Suc (r k) \<le> (r(k := Suc (r k))) 0"
  defines "s \<equiv> unat (spokeIndex (wheel_at m k))"
  defines "m' \<equiv> set_spoke k s [] (set_spokeIndex k i m)"
  shows "shape m'" "linked m' + mset (spoke_at m k s) = linked m"
    "turns_ok (r(k := Suc (r k))) m'" "slots_ok base (r(k := Suc (r k))) m'"
    "\<And>j. j < 5 \<Longrightarrow> spokeIndex (wheel_at m' j) = (if j = k then i else spokeIndex (wheel_at m j))"
proof -
  let ?m = "set_spokeIndex k i m" and ?r = "r(k := Suc (r k))"
  have sh: "shape m" "shape ?m"
    using timers_wfD(1) [OF wf] k by simp_all
  have s: "s < wsz k" "s = r k mod wsz k"
    using idx t(1) k by (auto simp: s_def turns_ok_def)
  show "shape m'"
    using sh(2) k by (simp add: m'_def)
  show "linked m' + mset (spoke_at m k s) = linked m"
    using linked_set_spoke [OF sh(2) k s(1), of "[]"] spoke_at_set_spokeIndex [OF sh(1) k]
      linked_set_spokeIndex [OF sh(1) k] by (simp add: m'_def)
  show ix: "spokeIndex (wheel_at m' j) = (if j = k then i else spokeIndex (wheel_at m j))" if "j < 5" for j
    by (simp add: m'_def wheel_at_set_spoke [OF sh(2) k] wheel_at_set_spokeIndex [OF sh(1) k])
  show "turns_ok ?r m'"
    unfolding turns_ok_def
  proof (intro allI impI)
    fix j :: nat assume j: "j < 5"
    have "gran j * r j \<le> r 0" "unat (spokeIndex (wheel_at m j)) mod wsz j = r j mod wsz j"
      using t(1) j by (auto simp: turns_ok_def)
    then show "unat (spokeIndex (wheel_at m' j)) mod wsz j = ?r j mod wsz j \<and> gran j * ?r j \<le> ?r 0"
      using i g ix [OF j] by (cases "j = k") auto
  qed
  show "slots_ok base ?r m'"
    unfolding slots_ok_def
  proof (intro allI impI ballI)
    fix j u q n assume *: "j < 5" "u < wsz j" "q \<in> set (spoke_at m' j u)" "timers m' q = Some n"
    have q: "q \<in> set (spoke_at m j u)" "\<not> (j = k \<and> u = s)"
      using *(3) by (auto simp: m'_def spoke_at_set_spoke [OF sh(2) k s(1)]
          spoke_at_set_spokeIndex [OF sh(1) k] split: if_splits)
    then have "due ?r j u = due r j u"
      using due_turn [of u k r] due_other [of j k r] *(2) s(2) by (cases "j = k") auto
    then show "base + due ?r j u \<le> unat (mDeadTime n)"
      using t(2) * q(1) by (auto simp: slots_ok_def m'_def)
  qed
qed

section \<open>Handing down a spoke\<close>

definition deadlines_near :: "u64 \<Rightarrow> TimerManager \<Rightarrow> bool" where
  "deadlines_near now m \<longleftrightarrow> (\<forall>q n. timers m q = Some n \<longrightarrow> unat (mDeadTime n) < unat now + 2 ^ 32)"

lemma cascade_one:
  assumes wf: "timers_wf (add_mset p held) m" and t: "timely clk base r m"
    and now: "base + r 0 \<le> unat now" "deadlines_near now m"
  obtains m' cn' where "cascade_timer now p (cn, m) = (cn', m')" "timers_wf held m'" "timely clk base r m'"
    "turned m m'" "mStartTick m' = mStartTick m" "tick_reads m' = tick_reads m"
    "\<And>k. k < 5 \<Longrightarrow> spokeIndex (wheel_at m' k) = spokeIndex (wheel_at m k)"
proof -
  obtain n where n: "timers m p = Some n"
    using nodes_held [OF timers_wfD(2) [OF wf], of p] by auto
  show thesis
  proof (cases "mDeadTime n \<le> now")
    case True
    show thesis
    proof (rule that)
      show "cascade_timer now p (cn, m) = (cn, AddToReady p m)"
        by (simp add: cascade_timer_def n True)
    qed (use AddToReady_inv [OF wf t] in \<open>auto simp: turned_def AddToReady_def wheel_at_def\<close>)
  next
    case False
    let ?i = "ucast (mDeadTime n - now) :: u32"
    have "unat (mDeadTime n - now) = unat (mDeadTime n) - unat now"
      using False by (simp add: unat_sub)
    moreover have "unat (mDeadTime n) - unat now < 2 ^ 32"
      using now(2) n by (fastforce simp: deadlines_near_def)
    ultimately have "unat ?i = unat (mDeadTime n) - unat now"
      by (simp add: unsigned_ucast_eq take_bit_nat_eq_self)
    then have "base + r 0 + unat ?i \<le> unat (mDeadTime n)"
      using now(1) False by (simp add: word_le_nat_alt)
    note add = AddTimer_inv [OF wf t n this]
    show thesis
    proof (rule that)
      show "cascade_timer now p (cn, m) = (cn + 1, AddTimer ?i p m)"
        by (simp add: cascade_timer_def n False)
    qed (use add in \<open>auto simp: turned_def\<close>)
  qed
qed

lemma cascade_all:
  assumes "timers_wf (mset xs) m" "timely clk base r m"
    and now: "base + r 0 \<le> unat now" "deadlines_near now m"
  obtains m' cn' where "fold (cascade_timer now) xs (cn, m) = (cn', m')" "timers_wf {#} m'"
    "timely clk base r m'" "turned m m'" "mStartTick m' = mStartTick m"
    "\<And>k. k < 5 \<Longrightarrow> spokeIndex (wheel_at m' k) = spokeIndex (wheel_at m k)"
  using assms
proof (induction xs arbitrary: m cn thesis)
  case Nil
  then show ?case
    by simp
next
  case (Cons p xs)
  have "timers_wf (add_mset p (mset xs)) m"
    using Cons.prems(2) by simp
  then obtain m1 cn1 where m1: "cascade_timer now p (cn, m) = (cn1, m1)" "timers_wf (mset xs) m1"
      "timely clk base r m1" "turned m m1" "mStartTick m1 = mStartTick m" "tick_reads m1 = tick_reads m"
      "\<And>k. k < 5 \<Longrightarrow> spokeIndex (wheel_at m1 k) = spokeIndex (wheel_at m k)"
    by (rule cascade_one [OF _ Cons.prems(3-5), where cn = cn]) (rule that)
  have dl: "deadlines_near now m1"
    using Cons.prems(5) m1(4) by (auto simp: turned_def deadlines_near_def)
  obtain m2 cn2 where m2: "fold (cascade_timer now) xs (cn1, m1) = (cn2, m2)" "timers_wf {#} m2"
      "timely clk base r m2" "turned m1 m2" "mStartTick m2 = mStartTick m1"
      "\<And>k. k < 5 \<Longrightarrow> spokeIndex (wheel_at m2 k) = spokeIndex (wheel_at m1 k)"
    by (rule Cons.IH [OF _ m1(2,3) Cons.prems(4) dl, where cn = cn1]) (rule that)
  show ?case
  proof (rule Cons.prems(1))
    show "fold (cascade_timer now) (p # xs) (cn, m) = (cn2, m2)"
      using m1(1) m2(1) by simp
    show "turned m m2"
      using turned_trans m1(4) m2(4) .
  qed (use m1 m2 in auto)
qed


text \<open>
  During tick \<open>c\<close> the wheels below \<open>k\<close> have made all their turns and those from \<open>k\<close> on have not.
\<close>

definition turns_upto :: "nat \<Rightarrow> nat \<Rightarrow> nat \<Rightarrow> nat" where
  "turns_upto c k = (\<lambda>j. if j < k then c div gran j else (c - 1) div gran j)"

lemma div_step_dvd: "0 < c \<Longrightarrow> g dvd c \<Longrightarrow> 0 < g \<Longrightarrow> c div g = Suc ((c - 1) div (g::nat))"
  by (cases c) (auto simp: dvd_eq_mod_eq_0 div_Suc)

lemma div_step_not_dvd: "\<not> g dvd c \<Longrightarrow> (c - 1) div (g::nat) = c div g"
  by (cases c) (auto simp: dvd_eq_mod_eq_0 div_Suc)

lemma turns_upto_step:
  "0 < c \<Longrightarrow> gran k dvd c \<Longrightarrow> (turns_upto c k)(k := Suc (turns_upto c k k)) = turns_upto c (Suc k)"
  by (auto simp: turns_upto_def fun_eq_iff div_step_dvd)

lemma gran_dvd: "j \<le> k \<Longrightarrow> gran j dvd gran k"
proof (induction k)
  case (Suc k)
  then show ?case
    by (cases "j = Suc k") (auto simp: gran_next)
qed simp

lemma turns_upto_last:
  assumes "\<not> gran (Suc k) dvd c"
  shows "turns_upto c (Suc k) = turns_at c"
proof
  fix j
  have "\<not> gran j dvd c" if "Suc k \<le> j"
    using assms gran_dvd [OF that] dvd_trans by blast
  then show "turns_upto c (Suc k) j = turns_at c j"
    using div_step_not_dvd [of "gran j" c] by (auto simp: turns_upto_def turns_at_def)
qed

lemma turn_upper_inv:
  assumes wf: "timers_wf {#} m" and t: "timely clk base (turns_upto c k) m" and ck: "clock_ok clk"
    and k: "1 \<le> k" "k < 5" and c: "0 < c" "gran k dvd c" and idx: "indexes_ok m"
  obtains m' cn where "turn_upper clk k m = (cn, m')" "timers_wf {#} m'"
    "timely clk base (turns_upto c (Suc k)) m'" "turned m m'" "mStartTick m' = mStartTick m"
    "\<And>j. j < 5 \<Longrightarrow> spokeIndex (wheel_at m' j) = (if j = k then spokeIndex (wheel_at m k) + 1 else spokeIndex (wheel_at m j))"
proof -
  let ?r = "turns_upto c k" and ?r' = "turns_upto c (Suc k)"
  define i where "i = spokeIndex (wheel_at m k)"
  define m1 where "m1 = m\<lparr>tick_reads := Suc (tick_reads m)\<rparr>"
  define now where "now = clk (tick_reads m)"
  have r': "?r(k := Suc (?r k)) = ?r'"
    by (rule turns_upto_step [OF c])
  have eq: "wheel_at m1 = wheel_at m" "spoke_at m1 = spoke_at m" "linked m1 = linked m"
    by (simp_all add: m1_def wheel_at_def spoke_at_def linked_def fun_eq_iff)
  have wf1: "timers_wf {#} m1"
    using wf timers_wf_cong [of m1 m] by (simp add: m1_def)
  have t1: "turns_ok ?r m1" "slots_ok base ?r m1"
    using timelyD(1,2) [OF t] turns_ok_cong [of m1 m] slots_ok_cong [of m1 m] by (simp_all add: m1_def)
  have i: "unat i < 64" "unat i = ?r k mod 64"
    using idx timelyD(1) [OF t] k by (auto simp: indexes_ok_def turns_ok_def i_def wsz_def)
  have inc: "unat (i + 1) = Suc (unat i)"
    using i(1) by (simp add: unat_word_ariths)
  have g: "gran k * Suc (?r k) \<le> (?r(k := Suc (?r k))) 0"
  proof -
    have "Suc (?r k) = c div gran k"
      using div_step_dvd [OF c] by (simp add: turns_upto_def)
    then show ?thesis
      unfolding r' using k c(2) by (simp add: turns_upto_def gran_def [of 0])
  qed
  have i': "unat (i + 1) mod wsz k = Suc (?r k) mod wsz k"
    using k i(2) by (simp add: inc wsz_def mod_Suc_eq)
  have ix: "unat (spokeIndex (wheel_at m1 k)) < wsz k"
    using idx k by (simp add: indexes_ok_def eq)
  define m2 where "m2 = set_spoke k (unat i) [] (set_spokeIndex k (i + 1) m1)"
  note turn = turn_wheel [OF wf1 t1 k(2) ix i' g, unfolded eq, folded i_def, folded m2_def, unfolded r']
  let ?xs = "spoke_at m k (unat i)"
  have fields: "timers m2 = timers m" "fresh_timer m2 = fresh_timer m" "handlers m2 = handlers m"
      "brk m2 = brk m" "tick_reads m2 = Suc (tick_reads m)" "mReadyNodes m2 = mReadyNodes m"
    by (simp_all add: m2_def m1_def)
  have "nodes_ok (mset ?xs) m2"
    using nodes_ok_cong [of m2 m "mset ?xs" "{#}"] turn(2) timers_wfD(2) [OF wf] by (simp add: fields)
  then have wf2: "timers_wf (mset ?xs) m2"
    using turn(1) timers_wfD(3,4) [OF wf] owners_ok_cong [of m2 m] by (simp add: timers_wf_def fields)
  have mono: "unat (clk (tick_reads m)) \<le> unat (clk (tick_reads m2))"
    by (rule clk_mono [OF ck]) (simp add: fields)
  have r0: "?r' 0 = c" "?r 0 = c"
    using k by (simp_all add: turns_upto_def gran_def)
  have "unat (mDeadTime n) < unat (clk (tick_reads m2)) + 2 ^ 32" if "timers m p = Some n" for p n
    using timelyD(4) [OF t that] mono by linarith
  then have t2: "timely clk base ?r' m2"
    using turn(3,4) timelyD(3) [OF t] mono r0 unfolding timely_def fields(1)
    by auto
  have near: "deadlines_near now m2" and now: "base + ?r' 0 \<le> unat now"
    using timelyD(3,4) [OF t] r0 by (auto simp: deadlines_near_def fields now_def)
  obtain m' cn where m': "fold (cascade_timer now) ?xs (0, m2) = (cn, m')" "timers_wf {#} m'"
      "timely clk base ?r' m'" "turned m2 m'" "mStartTick m' = mStartTick m2"
      "\<And>k. k < 5 \<Longrightarrow> spokeIndex (wheel_at m' k) = spokeIndex (wheel_at m2 k)"
    by (rule cascade_all [OF wf2 t2 now near, where cn = 0]) (rule that)
  show thesis
  proof (rule that)
    show "turn_upper clk k m = (cn, m')"
      using m'(1) by (simp add: turn_upper_def GetCurrentMillisec_def i_def now_def m2_def m1_def Let_def
          wheel_at_def spoke_at_def)
    have "turned m m2"
      by (simp add: turned_def m2_def m1_def)
    then show "turned m m'"
      using m'(4) by (rule turned_trans)
    show "mStartTick m' = mStartTick m"
      using m'(5) by (simp add: m2_def m1_def)
    show "spokeIndex (wheel_at m' j) = (if j = k then spokeIndex (wheel_at m k) + 1 else spokeIndex (wheel_at m j))"
      if "j < 5" for j
      using m'(6) [OF that] turn(5) [OF that] by (simp add: i_def)
  qed (use m' in auto)
qed


lemma spokeIndex_full:
  assumes "shape m" "k < 5" "unat i \<le> wsz k"
  shows "wheel_size (wheel_at m k) \<le> i \<longleftrightarrow> unat i = wsz k"
  using shapeD(1) [OF assms(1,2)] assms(3) by (auto simp: word_le_nat_alt)

lemma set_index_inv:
  assumes wf: "timers_wf held m" and t: "timely clk base r m" and k: "k < 5"
    and i: "unat i mod wsz k = unat (spokeIndex (wheel_at m k)) mod wsz k"
  shows "timers_wf held (set_spokeIndex k i m)" "timely clk base r (set_spokeIndex k i m)"
proof -
  let ?m = "set_spokeIndex k i m"
  note sh = timers_wfD(1) [OF wf]
  have "nodes_ok held ?m"
    using timers_wfD(2) [OF wf] nodes_ok_cong [of ?m m held held] by (simp add: linked_set_spokeIndex [OF sh k])
  then show "timers_wf held ?m"
    using timers_wfD [OF wf] k owners_ok_cong [of ?m m] by (simp add: timers_wf_def)
  have "turns_ok r ?m"
    using timelyD(1) [OF t] i by (auto simp: turns_ok_def wheel_at_set_spokeIndex [OF sh k])
  moreover have "slots_ok base r ?m"
    using timelyD(2) [OF t] by (simp add: slots_ok_def spoke_at_set_spokeIndex [OF sh k])
  ultimately show "timely clk base r ?m"
    using t by (simp add: timely_def)
qed

lemma Cascade_inv:
  assumes "timers_wf {#} m" "timely clk base (turns_upto c k) m" "clock_ok clk" "1 \<le> k" "k \<le> 5"
    "0 < c" "gran k dvd c" "indexes_ok m"
  shows "\<exists>cn m'. Cascade clk k m = (cn, m') \<and> timers_wf {#} m' \<and> timely clk base (turns_at c) m' \<and>
     indexes_ok m' \<and> turned m m' \<and> mStartTick m' = mStartTick m"
  using assms
proof (induction clk k m rule: Cascade.induct)
  case (1 clk k m)
  note prems = "1.prems"
  show ?case
  proof (cases "k = 5")
    case True
    have "timely clk base (turns_at c) m"
      using prems(2) True
      by (simp add: timely_def turns_ok_def slots_ok_def turns_upto_def turns_at_def due_def)
    then show ?thesis
      using prems True by (simp add: Cascade.simps WHEEL_NUM_def)
  next
    case False
    then have k: "k < 5" "\<not> (k < 1 \<or> WHEEL_NUM \<le> k)"
      using prems(4,5) by (simp_all add: WHEEL_NUM_def)
    obtain m1 cn where m1: "turn_upper clk k m = (cn, m1)" "timers_wf {#} m1"
        "timely clk base (turns_upto c (Suc k)) m1" "turned m m1" "mStartTick m1 = mStartTick m"
        "\<And>j. j < 5 \<Longrightarrow> spokeIndex (wheel_at m1 j) = (if j = k then spokeIndex (wheel_at m k) + 1 else spokeIndex (wheel_at m j))"
      by (rule turn_upper_inv [OF prems(1-4) k(1) prems(6-8)]) (rule that)
    let ?w = "wheel_at m1 k"
    have old: "unat (spokeIndex (wheel_at m k)) < 64"
      using prems(4,8) k(1) by (auto simp: indexes_ok_def wsz_def)
    then have new: "unat (spokeIndex ?w) = Suc (unat (spokeIndex (wheel_at m k)))"
      using m1(6) [OF k(1)] by (simp add: unat_word_ariths)
    have full: "wheel_size ?w \<le> spokeIndex ?w \<longleftrightarrow> unat (spokeIndex ?w) = wsz k"
      using new old prems(4) by (intro spokeIndex_full timers_wfD(1) [OF m1(2)] k(1)) (simp add: wsz_def)
    have turns: "unat (spokeIndex ?w) mod wsz k = c div gran k mod wsz k"
      using timelyD(1) [OF m1(3)] k(1) by (simp add: turns_ok_def turns_upto_def)
    have wrap: "unat (spokeIndex ?w) = wsz k \<longleftrightarrow> gran (Suc k) dvd c"
    proof -
      have "unat (spokeIndex ?w) = wsz k \<longleftrightarrow> unat (spokeIndex ?w) mod wsz k = 0"
        using new old prems(4) by (auto simp: wsz_def mod_Suc)
      also have "\<dots> \<longleftrightarrow> wsz k dvd c div gran k"
        unfolding turns by (simp add: dvd_eq_mod_eq_0)
      also have "\<dots> \<longleftrightarrow> gran (Suc k) dvd c"
        using prems(7) by (auto simp: gran_next dvd_div_iff_mult mult.commute)
      finally show ?thesis .
    qed
    have others: "unat (spokeIndex (wheel_at m1 j)) < wsz j" if "j < 5" "j \<noteq> k" for j
      using m1(6) that prems(8) by (simp add: indexes_ok_def)
    show ?thesis
    proof (cases "gran (Suc k) dvd c")
      case True
      let ?m = "set_spokeIndex k 0 m1"
      have inv: "timers_wf {#} ?m" "timely clk base (turns_upto c (k + 1)) ?m"
        using set_index_inv [OF m1(2,3) k(1), of 0] wrap True by simp_all
      have "indexes_ok ?m"
        using others by (auto simp: indexes_ok_def wheel_at_set_spokeIndex [OF timers_wfD(1) [OF m1(2)] k(1)])
      with "1.IH" [OF k(2) m1(1) [symmetric] _ refl _ inv prems(3)] full wrap True prems k(1)
      obtain cn2 m2 where m2: "Cascade clk (k + 1) ?m = (cn2, m2)" "timers_wf {#} m2"
          "timely clk base (turns_at c) m2" "indexes_ok m2" "turned ?m m2" "mStartTick m2 = mStartTick ?m"
        by auto
      have "turned m1 ?m"
        by (simp add: turned_def)
      then have "turned m m2"
        using m1(4) m2(5) turned_trans by blast
      moreover have "Cascade clk k m = (cn + cn2, m2)"
        using k(2) m1(1) m2(1) full wrap True by (subst Cascade.simps) (simp add: Let_def)
      ultimately show ?thesis
        using m2 m1(5) by simp
    next
      case F: False
      then have "Cascade clk k m = (cn, m1)"
        using k(2) m1(1) full wrap by (subst Cascade.simps) (simp add: Let_def)
      moreover have "indexes_ok m1"
        unfolding indexes_ok_def
      proof (intro allI impI)
        fix j :: nat assume "j < 5"
        then show "unat (spokeIndex (wheel_at m1 j)) < wsz j"
          using others new old F wrap prems(4) by (cases "j = k") (auto simp: wsz_def)
      qed
      ultimately show ?thesis
        using m1 turns_upto_last [OF F] by simp
    qed
  qed
qed

end
