(* ===== verification/TimerRun.thy ===== *)
theory TimerRun
  imports TimerTurn
begin

text \<open>
  The loop of \<^verbatim>\<open>DetectList\<close> over the ticks, the loop of \<^verbatim>\<open>ProcessTimeOut\<close> over the timers that
  are due, and \<^verbatim>\<open>ProcessTimer\<close>.
\<close>

section \<open>One tick\<close>

lemma fold_AddToReady:
  assumes "nodes_ok {#} m" "set xs \<subseteq> set_mset (linked m)"
  shows "fold AddToReady xs m = m\<lparr>mReadyNodes := mReadyNodes m @ xs\<rparr>"
proof -
  have "fold AddToReady xs (m\<lparr>mReadyNodes := mReadyNodes m @ ys\<rparr>) = m\<lparr>mReadyNodes := mReadyNodes m @ ys @ xs\<rparr>"
    if "live_list m xs" "live_list m (mReadyNodes m @ ys)" for ys
    using that
  proof (induction xs arbitrary: ys)
    case (Cons x xs)
    then have "AddToReady x (m\<lparr>mReadyNodes := mReadyNodes m @ ys\<rparr>) = m\<lparr>mReadyNodes := mReadyNodes m @ (ys @ [x])\<rparr>"
      by (simp add: AddToReady_def touch_def live_list_def)
    then show ?case
      using Cons.IH [of "ys @ [x]"] Cons.prems by (simp add: live_list_def)
  qed simp
  from this [of "[]"] show ?thesis
    using live_linked [OF assms(1), of xs] live_linked [OF assms(1), of "mReadyNodes m"] assms(2)
    by (simp add: linked_def)
qed

lemma wheel_update_commute:
  "w\<lparr>spokes := a, spokeIndex := b\<rparr> = (w :: tagWheel)\<lparr>spokeIndex := b, spokes := a\<rparr>"
  by (cases w) simp

lemma detect_tick_inv:
  assumes inv: "timer_inv clk base c m" and ck: "clock_ok clk"
    and late: "base + Suc c \<le> unat (clk (tick_reads m))"
  shows "timer_inv clk base (Suc c) (detect_tick clk m)" "turned m (detect_tick clk m)"
proof -
  have wf: "timers_wf {#} m" and t: "timely clk base (turns_at c) m" and idx: "indexes_ok m"
    and st: "unat (mStartTick m) = base + c"
    using inv by (simp_all add: timer_inv_def)
  note sh = timers_wfD(1) [OF wf]
  define s where "s = spokeIndex (wheel_at m 0)"
  let ?xs = "spoke_at m 0 (unat s)"
  define i where "i = (if wheel_size (wheel_at m 0) \<le> s + 1 then 0 else s + 1)"
  define m1 where "m1 = set_spoke 0 (unat s) [] (m\<lparr>mReadyNodes := mReadyNodes m @ ?xs\<rparr>)"
  define m2 where "m2 = set_spokeIndex 0 i m1"
  have s: "unat s < 256" "unat s = c mod 256"
    using idx timelyD(1) [OF t] by (auto simp: indexes_ok_def turns_ok_def s_def wsz_def turns_at_def gran_def)
  then have inc: "unat (s + 1) = Suc (unat s)"
    by (simp add: unat_word_ariths)
  have full: "wheel_size (wheel_at m 0) \<le> s + 1 \<longleftrightarrow> Suc (unat s) = 256"
    using spokeIndex_full [OF sh, of 0 "s + 1"] s(1) by (simp add: wsz_def inc)
  have wrap: "Suc (unat s) = 256 \<longleftrightarrow> gran 1 dvd Suc c"
    using s by (simp add: gran_def dvd_eq_mod_eq_0 mod_Suc)
  have i: "unat i mod wsz 0 = Suc (turns_at c 0) mod wsz 0" "unat i < 256"
    using s full by (auto simp: i_def wsz_def inc turns_at_def gran_def mod_Suc)
  have "set ?xs \<subseteq> set_mset (linked m)"
    using s(1) by (intro spoke_linked [OF sh]) (simp_all add: wsz_def)
  then have fold: "fold AddToReady ?xs m = m\<lparr>mReadyNodes := mReadyNodes m @ ?xs\<rparr>"
    by (rule fold_AddToReady [OF timers_wfD(2) [OF wf]])
  have r: "(turns_at c)(0 := Suc (turns_at c 0)) = turns_upto (Suc c) 1"
    by (auto simp: turns_at_def turns_upto_def gran_def [of 0] fun_eq_iff)
  have ix: "unat (spokeIndex (wheel_at m 0)) < wsz 0"
    using idx by (simp add: indexes_ok_def)
  have g: "gran 0 * Suc (turns_at c 0) \<le> ((turns_at c)(0 := Suc (turns_at c 0))) 0"
    by (simp add: gran_def)
  define m0 where "m0 = set_spoke 0 (unat s) [] (set_spokeIndex 0 i m)"
  note turn = turn_wheel [OF wf timelyD(1,2) [OF t] _ ix i(1) g, folded s_def, folded m0_def, unfolded r, simplified]
  have wh: "mWheels m2 = mWheels m0"
    using shapeD(3) [OF sh, of 0]
    by (simp add: m2_def m1_def m0_def set_spoke_def set_spokeIndex_def wheel_at_def
        wheel_update_commute)
  have fields: "timers m2 = timers m" "fresh_timer m2 = fresh_timer m" "handlers m2 = handlers m"
      "brk m2 = brk m" "tick_reads m2 = tick_reads m" "mReadyNodes m2 = mReadyNodes m @ ?xs"
      "mStartTick m2 = mStartTick m" "timers m0 = timers m" "mReadyNodes m0 = mReadyNodes m"
    by (simp_all add: m2_def m1_def m0_def)
  have "linked m2 = linked m0 + mset ?xs"
    by (simp add: linked_def wh fields)
  then have "nodes_ok {#} m2"
    using nodes_ok_cong [of m2 m "{#}" "{#}"] turn(2) timers_wfD(2) [OF wf] by (simp add: fields)
  then have wf2: "timers_wf {#} m2"
    using turn(1) shape_cong [OF wh] timers_wfD(3,4) [OF wf] owners_ok_cong [of m2 m]
    by (simp add: timers_wf_def fields)
  have t2: "timely clk base (turns_upto (Suc c) 1) m2"
    using turn(3,4) turns_ok_cong [OF wh] slots_ok_cong [OF wh] late t
    by (simp add: timely_def fields) (simp add: turns_upto_def gran_def)
  have idx2: "indexes_ok m2"
    using idx turn(5) i(2) by (auto simp: indexes_ok_def wheel_at_cong [OF wh] wsz_def)
  have tu: "turned m m2"
    by (simp add: turned_def m2_def m1_def)
  have detect: "detect_tick clk m = (let m3 = (if gran 1 dvd Suc c then snd (Cascade clk 1 m2) else m2)
      in m3\<lparr>mStartTick := mStartTick m3 + 1\<rparr>)"
    using fold full wrap
    by (simp add: detect_tick_def Let_def m2_def m1_def i_def s_def GRANULARITY_def)
  obtain m3 where m3: "m3 = (if gran 1 dvd Suc c then snd (Cascade clk 1 m2) else m2)" "timers_wf {#} m3"
      "timely clk base (turns_at (Suc c)) m3" "indexes_ok m3" "turned m2 m3" "mStartTick m3 = mStartTick m"
  proof (cases "gran 1 dvd Suc c")
    case True
    from Cascade_inv [OF wf2 t2 ck _ _ _ True idx2] obtain cn m' where
      "Cascade clk 1 m2 = (cn, m')" "timers_wf {#} m'" "timely clk base (turns_at (Suc c)) m'"
      "indexes_ok m'" "turned m2 m'" "mStartTick m' = mStartTick m2"
      by auto
    with True show thesis
      by (intro that [of m']) (auto simp: fields)
  next
    case False
    with wf2 t2 idx2 turns_upto_last [of 0 "Suc c"] show thesis
      by (intro that [of m2]) (auto simp: fields)
  qed
  have eq: "detect_tick clk m = m3\<lparr>mStartTick := mStartTick m3 + 1\<rparr>"
    by (simp add: detect m3(1) Let_def)
  have "base + Suc c < 2 ^ 63"
    using late ck by (meson clock_ok_def le_less_trans)
  then have "unat (mStartTick m + 1) = base + Suc c"
    using st by (simp add: unat_word_ariths)
  moreover have "timers_wf {#} (detect_tick clk m)" "timely clk base (turns_at (Suc c)) (detect_tick clk m)"
      "indexes_ok (detect_tick clk m)"
    using timers_wf_cong [of "detect_tick clk m" m3] timely_cong [OF m3(3) ck, of "detect_tick clk m"]
      indexes_ok_cong [of "detect_tick clk m" m3] m3 by (simp_all add: eq)
  ultimately show "timer_inv clk base (Suc c) (detect_tick clk m)"
    by (simp add: timer_inv_def eq m3(6))
  show "turned m (detect_tick clk m)"
    using turned_trans [OF tu m3(5)] by (simp add: eq turned_def)
qed

lemma detect_ticks_inv:
  assumes "timer_inv clk base c m" "clock_ok clk" "base + c + k \<le> unat (clk (tick_reads m))"
  shows "timer_inv clk base (c + k) ((detect_tick clk ^^ k) m) \<and> turned m ((detect_tick clk ^^ k) m)"
  using assms(3)
proof (induction k)
  case (Suc k)
  let ?m = "(detect_tick clk ^^ k) m"
  have IH: "timer_inv clk base (c + k) ?m" "turned m ?m"
    using Suc by auto
  have "unat (clk (tick_reads m)) \<le> unat (clk (tick_reads ?m))"
    using IH(2) by (intro clk_mono [OF assms(2)]) (simp add: turned_def)
  then have "base + Suc (c + k) \<le> unat (clk (tick_reads ?m))"
    using Suc.prems by linarith
  from detect_tick_inv [OF IH(1) assms(2) this] turned_trans [OF IH(2)] show ?case
    by simp
qed (use assms in simp)


section \<open>Calling back\<close>

lemma call_app_calm:
  assumes c: "calm clk base r m" and ck: "clock_ok clk" and b: "mBusying m"
    and w: "\<not> wide_id (call_app clk app e m)"
  shows "calm clk base r (call_app clk app e m)"
proof -
  let ?m = "m\<lparr>event_log := event_log m @ [e]\<rparr>"
  have "owners_ok ?m"
    using c owners_ok_cong [of ?m m] by (simp add: calm_def timers_wf_def)
  then have "calm clk base r ?m"
    using calm_cong [OF c, of ?m] by simp
  then show ?thesis
    using run_requests_calm [of clk base r ?m] ck b w by (simp add: call_app_def Let_def)
qed

lemma fire_kill:
  assumes wf: "timers_wf {#p#} m" and t: "timely clk base r m" and idx: "indexes_ok m"
    and n: "timers m p = Some n"
  obtains d m1 where "handlers m (mHandler n) = Some d"
    "KillTimer (Some (mHandler n)) (mTimerId n) m = (0, m1)" "calm clk base r m1" "timers m1 p = None"
    "mReadyNodes m1 = mReadyNodes m" "event_log m1 = event_log m @ [TimerRemoved p]" "mBusying m1 = mBusying m"
proof -
  obtain d where d: "handlers m (mHandler n) = Some d" "map_of (the_map d) (mTimerId n) = Some p"
    using timers_wfD(3) [OF wf] n unfolding owners_ok_def by blast
  then obtain tm where tm: "mTimerMap d = Some tm" "map_of tm (mTimerId n) = Some p"
    by (auto simp: the_map_def split: option.splits)
  obtain m1 where m1: "KillTimer (Some (mHandler n)) (mTimerId n) m = (0, m1)"
      "m1 = free_timer p (RemoveTimer p
        (set_handler (mHandler n) (d\<lparr>mTimerMap := Some (AList.delete (mTimerId n) tm)\<rparr>) m))"
    by (simp add: KillTimer_def d tm)
  have "p \<notin> set (mReadyNodes m)"
    using nodes_disjoint [OF timers_wfD(2) [OF wf], of p] by (simp add: linked_def)
  then have "mReadyNodes m1 = mReadyNodes m"
    by (auto simp: m1(2) filter_id_conv)
  moreover have "filter_mset (\<lambda>q. map_of (the_map d) (mTimerId n) \<noteq> Some q) {#p#} = {#}"
    by (simp add: d)
  then have "calm clk base r m1"
    using KillTimer_inv [OF wf t d(1), of "mTimerId n"] idx m1(1) by (simp add: calm_def)
  ultimately show thesis
    using that [OF d(1) m1(1)] by (simp add: m1(2))
qed

lemma owners_ok_same:
  assumes "owners_ok m" "handlers m' = handlers m"
    and same: "\<And>q. map_option (\<lambda>n. (mHandler n, mTimerId n)) (timers m' q) =
      map_option (\<lambda>n. (mHandler n, mTimerId n)) (timers m q)"
  shows "owners_ok m'"
proof -
  have fwd: "\<exists>n. timers m q = Some n \<and> mHandler n = mHandler k \<and> mTimerId n = mTimerId k"
    if "timers m' q = Some k" for q k
    using same [of q] that by (cases "timers m q") auto
  have bwd: "\<exists>n. timers m' q = Some n \<and> mHandler n = mHandler k \<and> mTimerId n = mTimerId k"
    if "timers m q = Some k" for q k
    using same [of q] that by (cases "timers m' q") auto
  show ?thesis
    unfolding owners_ok_def assms(2)
  proof (intro conjI allI impI)
    fix p n assume "timers m' p = Some n"
    then obtain k where "timers m p = Some k" "mHandler k = mHandler n" "mTimerId k = mTimerId n"
      using fwd by blast
    then show "\<exists>d. handlers m (mHandler n) = Some d \<and> map_of (the_map d) (mTimerId n) = Some p"
      using assms(1) unfolding owners_ok_def by metis
  next
    fix h d assume d: "handlers m h = Some d"
    then show "handler_ids_ok d"
      using owners_ids [OF assms(1)] by blast
    fix i p assume "map_of (the_map d) i = Some p"
    then show "\<exists>n. timers m' p = Some n \<and> mHandler n = h \<and> mTimerId n = i"
      using owners_node [OF assms(1) d] bwd by metis
  qed
qed

lemma set_deadline_inv:
  assumes wf: "timers_wf {#p#} m" and t: "timely clk base r m" and n: "timers m p = Some n"
    and v: "unat v < unat (clk (tick_reads m)) + 2 ^ 32"
  shows "timers_wf {#p#} (set_deadline p v m)" "timely clk base r (set_deadline p v m)"
    "timers (set_deadline p v m) p = Some (n\<lparr>mDeadTime := v\<rparr>)"
proof -
  let ?m = "set_deadline p v m"
  have tm: "timers ?m = (timers m)(p \<mapsto> n\<lparr>mDeadTime := v\<rparr>)" and wh: "mWheels ?m = mWheels m"
    by (simp_all add: set_deadline_def n)
  show "timers ?m p = Some (n\<lparr>mDeadTime := v\<rparr>)"
    by (simp add: tm)
  have lk: "linked ?m = linked m"
    by (simp add: linked_def set_deadline_def)
  have dom: "dom (timers ?m) = dom (timers m)"
    using n by (auto simp: tm)
  have fr: "fresh_timer ?m = fresh_timer m"
    by (simp add: set_deadline_def)
  have "nodes_ok {#p#} ?m"
    using timers_wfD(2) [OF wf] unfolding nodes_ok_def dom lk fr .
  moreover have "owners_ok ?m"
  proof (rule owners_ok_same [OF timers_wfD(3) [OF wf]])
    show "handlers ?m = handlers m"
      by (simp add: set_deadline_def)
    show "map_option (\<lambda>n. (mHandler n, mTimerId n)) (timers ?m q) =
        map_option (\<lambda>n. (mHandler n, mTimerId n)) (timers m q)" for q
      using n by (simp add: tm)
  qed
  moreover have "\<not> brk ?m"
    using timers_wfD(4) [OF wf] by (simp add: set_deadline_def)
  ultimately show "timers_wf {#p#} ?m"
    using timers_wfD(1) [OF wf] by (simp add: timers_wf_def shape_cong [OF wh])
  have "p \<notin># linked m"
    using nodes_disjoint [OF timers_wfD(2) [OF wf]] by simp
  then have "slots_ok base r ?m"
    using timelyD(2) [OF t] spoke_linked [OF timers_wfD(1) [OF wf]]
    unfolding slots_ok_def spoke_at_cong [OF wh] tm by (metis fun_upd_other subset_iff)
  then show "timely clk base r ?m"
    using t v by (auto simp: timely_def turns_ok_cong [OF wh] tm) (auto simp: set_deadline_def)
qed

lemma fire_timer_calm:
  assumes wf: "timers_wf {#p#} m" and t: "timely clk base r m" and idx: "indexes_ok m"
    and ck: "clock_ok clk" and b: "mBusying m"
    and now: "base + r 0 \<le> unat (clk j)" "j \<le> tick_reads m"
    and w: "\<not> wide_id (fire_timer clk app (clk j) p m)"
  shows "calm clk base r (fire_timer clk app (clk j) p m)"
proof -
  obtain n where n: "timers m p = Some n"
    using nodes_held [OF timers_wfD(2) [OF wf], of p] by auto
  obtain d m1 where m1: "handlers m (mHandler n) = Some d"
      "KillTimer (Some (mHandler n)) (mTimerId n) m = (0, m1)" "calm clk base r m1" "timers m1 p = None"
      "event_log m1 = event_log m @ [TimerRemoved p]" "mBusying m1 = mBusying m"
    by (rule fire_kill [OF wf t idx n]) (rule that)
  show ?thesis
  proof (cases "mExtraInfo n")
    case None
    let ?v = "clk j + ucast (mInterval n)"
    let ?m = "AddTimer (mInterval n) p (set_deadline p ?v m)"
    have v: "unat ?v = unat (clk j) + unat (mInterval n)"
      by (rule deadline_add [OF ck])
    then have "unat ?v < unat (clk (tick_reads m)) + 2 ^ 32"
      using clk_mono [OF ck now(2)] unsigned_less [of "mInterval n", where ?'a = nat] by simp
    note dl = set_deadline_inv [OF wf t n this]
    have "base + r 0 + unat (mInterval n) \<le> unat (mDeadTime (n\<lparr>mDeadTime := ?v\<rparr>))"
      using now(1) v by simp
    note add = AddTimer_inv [OF dl(1,2,3) this]
    have "indexes_ok ?m"
      using idx add(3) by (simp add: indexes_ok_def) (simp add: set_deadline_def wheel_at_def)
    then have "calm clk base r ?m"
      using add by (simp add: calm_def)
    moreover have "mBusying ?m"
      using b by (simp add: set_deadline_def)
    ultimately show ?thesis
      using w call_app_calm [OF _ ck] by (simp add: fire_timer_def n m1(1) None)
  next
    case (Some obj)
    have id: "set_timer_id p 0 m1 = m1"
      using m1(4) by (simp add: set_timer_id_def fun_upd_idem)
    let ?m = "m1\<lparr>event_log := event_log m1 @ [RunnableNull p]\<rparr>"
    have "owners_ok ?m"
      using m1(3) owners_ok_cong [of ?m m1] by (simp add: calm_def timers_wf_def)
    then have "calm clk base r ?m"
      using calm_cong [OF m1(3), of ?m] by simp
    then show ?thesis
      using w call_app_calm [OF m1(3) ck] b m1
      by (auto simp: fire_timer_def n Some id Let_def split: option.splits)
  qed
qed

lemma pop_ready:
  assumes c: "calm clk base r m" and ready: "mReadyNodes m = p # ps"
  defines "m' \<equiv> (touch (p # ps) m)\<lparr>mReadyNodes := ps\<rparr>"
  shows "timers_wf {#p#} m'" "timely clk base r m'" "indexes_ok m'" "m' = m\<lparr>mReadyNodes := ps\<rparr>"
proof -
  have wf: "timers_wf {#} m" and t: "timely clk base r m" and idx: "indexes_ok m"
    using c by (simp_all add: calm_def)
  have "live_list m (p # ps)"
    using ready by (intro live_linked [OF timers_wfD(2) [OF wf]]) (auto simp: linked_def)
  then show m': "m' = m\<lparr>mReadyNodes := ps\<rparr>"
    by (simp add: m'_def touch_live)
  have "linked m' + {#p#} = linked m"
    by (simp add: linked_def m' ready)
  then have "nodes_ok {#p#} m'"
    using nodes_ok_cong [of m' m "{#p#}" "{#}"] timers_wfD(2) [OF wf] by (simp add: m')
  then show "timers_wf {#p#} m'"
    using timers_wfD [OF wf] shape_cong [of m' m] owners_ok_cong [of m' m] by (simp add: timers_wf_def m')
  show "timely clk base r m'" "indexes_ok m'"
    using t idx turns_ok_cong [of m' m] slots_ok_cong [of m' m] indexes_ok_cong [of m' m]
    by (simp_all add: timely_def m')
qed

lemma quiet_ready_loop: "quiet m (ready_loop clk app t m)"
proof (induction clk app t m rule: ready_loop.induct)
  case (1 clk app t m)
  show ?case
  proof (cases "mReadyNodes m")
    case (Cons p ps)
    let ?m = "(touch (p # ps) m)\<lparr>mReadyNodes := ps\<rparr>"
    have "quiet m ?m"
      using Cons by (simp add: quiet_def)
    then have "quiet m (ready_loop clk app t (fire_timer clk app t p ?m))"
      using quiet_fire_timer 1 [OF Cons] quiet_trans by blast
    then show ?thesis
      by (subst ready_loop.simps) (simp add: Cons)
  qed (simp add: ready_loop.simps)
qed

lemma ready_loop_calm:
  assumes "calm clk base r m" "clock_ok clk" "mBusying m" "base + r 0 \<le> unat (clk j)" "j \<le> tick_reads m"
    "\<not> wide_id (ready_loop clk app (clk j) m)"
  shows "calm clk base r (ready_loop clk app (clk j) m) \<and> mReadyNodes (ready_loop clk app (clk j) m) = []"
  using assms
proof (induction "length (mReadyNodes m)" arbitrary: m rule: less_induct)
  case less
  show ?case
  proof (cases "mReadyNodes m")
    case Nil
    then show ?thesis
      using less.prems by (simp add: ready_loop.simps)
  next
    case (Cons p ps)
    let ?m = "(touch (p # ps) m)\<lparr>mReadyNodes := ps\<rparr>"
    let ?f = "fire_timer clk app (clk j) p ?m"
    note pop = pop_ready [OF less.prems(1) Cons]
    have eq: "ready_loop clk app (clk j) m = ready_loop clk app (clk j) ?f"
      by (subst ready_loop.simps) (simp add: Cons)
    have q: "quiet ?m ?f" "quiet ?f (ready_loop clk app (clk j) ?f)"
      by (rule quiet_fire_timer, rule quiet_ready_loop)
    then have nw: "\<not> wide_id ?f"
      using less.prems(6) by (auto simp: quiet_def eq)
    have "calm clk base r ?f"
      by (rule fire_timer_calm [OF pop(1-3) less.prems(2) _ less.prems(4) _ nw])
        (use less.prems(3,5) in simp_all)
    moreover have "length (mReadyNodes ?f) < length (mReadyNodes m)" "mBusying ?f" "j \<le> tick_reads ?f"
      using q(1) Cons less.prems(3,5) by (auto simp: quiet_def)
    ultimately show ?thesis
      unfolding eq using less.hyps [of ?f] less.prems(2,4,6) unfolding eq by blast
  qed
qed

end
