(* ===== verification/TimerRounds.thy ===== *)
theory TimerRounds
  imports TimerRun
begin

text \<open>
  What the timer manager guarantees: no use of freed memory and exactly one list per node in
  every run, no timer left behind its deadline, every due timer called back exactly once.
\<close>

section \<open>Processing\<close>

lemma timer_inv_calm: "timer_inv clk base c m \<Longrightarrow> calm clk base (turns_at c) m"
  by (simp add: timer_inv_def calm_def)

lemma turns_at_0 [simp]: "turns_at c 0 = c"
  by (simp add: turns_at_def gran_def)

lemma timer_inv_cong:
  assumes inv: "timer_inv clk base c m" and ck: "clock_ok clk"
    and m': "mWheels m' = mWheels m" "mReadyNodes m' = mReadyNodes m" "timers m' = timers m"
      "fresh_timer m' = fresh_timer m" "handlers m' = handlers m" "brk m' = brk m"
      "tick_reads m \<le> tick_reads m'" "mStartTick m' = mStartTick m"
  shows "timer_inv clk base c m'"
  using inv timers_wf_cong [OF m'(1-6)] timely_cong [OF _ ck m'(1,3,7)] indexes_ok_cong [OF m'(1)] m'(8)
  by (simp add: timer_inv_def)

text \<open>The state in which the timers that are due have been collected.\<close>

definition collected :: "tick_clock \<Rightarrow> TimerManager \<Rightarrow> TimerManager" where
  "collected clk m =
     (let (now, m1) = GetCurrentMillisec clk m
      in (detect_tick clk ^^ (unat now - unat (mStartTick m))) m1)"

lemma collected_inv:
  assumes inv: "timer_inv clk base c m" and ck: "clock_ok clk"
  defines "c' \<equiv> unat (clk (tick_reads m)) - base"
  shows "timer_inv clk base c' (collected clk m)" "turned m (collected clk m)"
    "unat (clk (tick_reads m)) = base + c'" "tick_reads m < tick_reads (collected clk m)" "c \<le> c'"
proof -
  let ?m = "m\<lparr>tick_reads := Suc (tick_reads m)\<rparr>" and ?now = "unat (clk (tick_reads m))"
  have st: "unat (mStartTick m) = base + c" and le: "base + c \<le> ?now"
    using inv by (auto simp: timer_inv_def timely_def)
  show "unat (clk (tick_reads m)) = base + c'" "c \<le> c'"
    using le by (simp_all add: c'_def)
  have inv1: "timer_inv clk base c ?m"
    by (rule timer_inv_cong [OF inv ck]) simp_all
  have le1: "base + c + (?now - (base + c)) \<le> unat (clk (tick_reads ?m))"
    using le clk_mono [OF ck, of "tick_reads m" "Suc (tick_reads m)"] by simp
  have eq: "collected clk m = (detect_tick clk ^^ (?now - (base + c))) ?m" "c' = c + (?now - (base + c))"
    using le by (simp_all add: collected_def GetCurrentMillisec_def st c'_def)
  note loop = detect_ticks_inv [OF inv1 ck le1]
  show "timer_inv clk base c' (collected clk m)"
    using loop by (simp add: eq)
  show "turned m (collected clk m)" "tick_reads m < tick_reads (collected clk m)"
    using loop by (auto simp: eq turned_def)
qed

lemma DetectList_eq:
  assumes "timer_inv clk base c m"
  shows "DetectList clk app m = ProcessTimeOut clk app (collected clk m)"
proof -
  have "mStartTick m \<le> clk (tick_reads m)"
    using assms by (auto simp: timer_inv_def timely_def word_le_nat_alt)
  then have "unat (clk (tick_reads m) - mStartTick m) = unat (clk (tick_reads m)) - unat (mStartTick m)"
      "\<not> mStartTick m < clk (tick_reads m) \<Longrightarrow> unat (clk (tick_reads m)) - unat (mStartTick m) = 0"
    by (auto simp: unat_sub word_le_nat_alt word_less_nat_alt)
  then show ?thesis
    by (cases "mStartTick m < clk (tick_reads m)")
      (simp_all add: DetectList_def collected_def GetCurrentMillisec_def Let_def GRANULARITY_def
        detect_loop_funpow)
qed

lemma ProcessTimeOut_inv:
  assumes inv: "timer_inv clk base c m" and ck: "clock_ok clk" and b: "mBusying m"
    and w: "\<not> wide_id (ProcessTimeOut clk app m)"
  shows "timer_inv clk base c (ProcessTimeOut clk app m)" "mReadyNodes (ProcessTimeOut clk app m) = []"
proof -
  let ?m1 = "m\<lparr>tick_reads := Suc (tick_reads m)\<rparr>" and ?t = "clk (tick_reads m)"
  define m2 where "m2 = ready_loop clk app ?t ?m1"
  have eq: "ProcessTimeOut clk app m =
      (if mReadyNodes m2 = [] then m2 else m2\<lparr>brk := True\<rparr>)\<lparr>mReadyNodes := []\<rparr>"
    by (simp add: ProcessTimeOut_def GetCurrentMillisec_def m2_def Let_def)
  have inv1: "timer_inv clk base c ?m1"
    by (rule timer_inv_cong [OF inv ck]) simp_all
  have late: "base + turns_at c 0 \<le> unat ?t"
    using inv by (simp add: timer_inv_def timely_def)
  have q: "quiet ?m1 m2"
    unfolding m2_def by (rule quiet_ready_loop)
  have "\<not> wide_id m2"
    using w by (auto simp: eq split: if_splits)
  then have m2: "calm clk base (turns_at c) m2" "mReadyNodes m2 = []"
    using ready_loop_calm [OF timer_inv_calm [OF inv1] ck _ late] b by (auto simp: m2_def)
  then have "ProcessTimeOut clk app m = m2"
    by (simp add: eq)
  then show "timer_inv clk base c (ProcessTimeOut clk app m)" "mReadyNodes (ProcessTimeOut clk app m) = []"
    using m2 q inv1 by (simp_all add: timer_inv_def calm_def quiet_def)
qed

definition manager_inv :: "tick_clock \<Rightarrow> nat \<Rightarrow> nat \<Rightarrow> TimerManager \<Rightarrow> bool" where
  "manager_inv clk base c m \<longleftrightarrow> timer_inv clk base c m \<and> mReadyNodes m = [] \<and> \<not> mBusying m"

lemma ProcessTimer_eq:
  assumes "manager_inv clk base c m"
  shows "snd (ProcessTimer clk app io m) =
    (ProcessTimeOut clk app (collected clk (m\<lparr>mBusying := True\<rparr>)))\<lparr>mBusying := False\<rparr>"
proof -
  let ?m = "m\<lparr>mBusying := True\<rparr>"
  have "timer_inv clk base c ?m"
    using assms timers_wf_cong [of ?m m] turns_ok_cong [of ?m m] slots_ok_cong [of ?m m]
      indexes_ok_cong [of ?m m] by (simp add: manager_inv_def timer_inv_def timely_def)
  from DetectList_eq [OF this] show ?thesis
    using assms by (simp add: ProcessTimer_def manager_inv_def Let_def)
qed

lemma ProcessTimer_inv:
  assumes inv: "manager_inv clk base c m" and ck: "clock_ok clk"
    and w: "\<not> wide_id (snd (ProcessTimer clk app io m))"
  defines "c' \<equiv> unat (clk (tick_reads m)) - base"
  shows "manager_inv clk base c' (snd (ProcessTimer clk app io m))" "unat (clk (tick_reads m)) = base + c'"
proof -
  let ?m = "m\<lparr>mBusying := True\<rparr>"
  have inv0: "timer_inv clk base c ?m"
    by (rule timer_inv_cong [OF _ ck, of base c m]) (use inv in \<open>simp_all add: manager_inv_def\<close>)
  note col = collected_inv [OF inv0 ck]
  show "unat (clk (tick_reads m)) = base + c'"
    using col(3) by (simp add: c'_def)
  have "mBusying (collected clk ?m)"
    using col(2) by (simp add: turned_def)
  note out = ProcessTimeOut_inv [OF col(1) ck this]
  have eq: "snd (ProcessTimer clk app io m) = (ProcessTimeOut clk app (collected clk ?m))\<lparr>mBusying := False\<rparr>"
    by (rule ProcessTimer_eq [OF inv])
  have "timer_inv clk base c' (ProcessTimeOut clk app (collected clk ?m))"
      "mReadyNodes (ProcessTimeOut clk app (collected clk ?m)) = []"
    using out [of app] w by (simp_all add: eq c'_def)
  then show "manager_inv clk base c' (snd (ProcessTimer clk app io m))"
    using timer_inv_cong [OF _ ck, of base c' "ProcessTimeOut clk app (collected clk ?m)"
        "snd (ProcessTimer clk app io m)"]
    by (simp add: manager_inv_def eq)
qed

section \<open>Runs of the manager\<close>

inductive timer_reachable :: "tick_clock \<Rightarrow> timer_app \<Rightarrow> TimerManager \<Rightarrow> bool"
  for clk :: tick_clock and app :: timer_app
where
  start: "timer_reachable clk app (new_manager clk)"
| request: "timer_reachable clk app m \<Longrightarrow> q \<noteq> ReqProcessTimer \<Longrightarrow>
    timer_reachable clk app (run_request clk q m)"
| process: "timer_reachable clk app m \<Longrightarrow> timer_reachable clk app (snd (ProcessTimer clk app io m))"

lemma new_manager_inv:
  assumes ck: "clock_ok clk"
  shows "manager_inv clk (unat (clk 0)) 0 (new_manager clk)"
proof -
  let ?m = "new_manager clk"
  have wheels: "wheel_at ?m k = new_wheel (if k = 0 then 256 else 64)" if "k < 5" for k
  proof -
    have "k \<in> {0, 1, 2, 3, 4}"
      using that by auto
    then show ?thesis
      by (auto simp: new_manager_def blank_manager_def GetCurrentMillisec_def wheel_at_def WHEEL_NUM_def
          WHEEL_SIZE1_def WHEEL_SIZE2_def WHEEL_BITS1_def WHEEL_BITS2_def numeral_eq_Suc push_bit_eq_mult)
  qed
  have sh: "shape ?m"
    using wheels by (auto simp: shape_def new_wheel_def wsz_def)
      (simp add: new_manager_def GetCurrentMillisec_def WHEEL_NUM_def)
  have sp: "spoke_at ?m k s = []" if "k < 5" "s < wsz k" for k s
    using that wheels [OF that(1)] by (auto simp: spoke_at_def new_wheel_def wsz_def split: if_splits)
  have fields: "timers ?m = Map.empty" "handlers ?m = Map.empty" "mReadyNodes ?m = []" "\<not> brk ?m"
      "tick_reads ?m = 1" "mStartTick ?m = clk 0" "\<not> mBusying ?m"
    by (simp_all add: new_manager_def GetCurrentMillisec_def blank_manager_def)
  have "linked ?m = {#}"
    using linked_cases [OF _ sh] sp fields(3) by (metis empty_iff list.set(1) multiset_nonemptyE)
  then have "timers_wf {#} ?m"
    using sh fields by (simp add: timers_wf_def nodes_ok_def owners_ok_def)
  moreover have "unat (clk 0) \<le> unat (clk 1)"
    by (rule clk_mono [OF ck]) simp
  then have "timely clk (unat (clk 0)) (turns_at 0) ?m"
    using wheels sp fields by (simp add: timely_def turns_ok_def slots_ok_def new_wheel_def turns_at_def)
  moreover have "indexes_ok ?m"
    using wheels by (simp add: indexes_ok_def new_wheel_def)
  ultimately show ?thesis
    using fields by (simp add: manager_inv_def timer_inv_def)
qed

lemma wide_cascade: "wide_id (snd (fold (cascade_timer now) xs cm)) = wide_id (snd cm)"
proof (induction xs arbitrary: cm)
  case (Cons x xs)
  have "wide_id (snd (cascade_timer now x cm)) = wide_id (snd cm)"
    by (auto simp: cascade_timer_def AddToReady_def split: prod.splits option.splits)
  then show ?case
    using Cons by simp
qed simp

lemma wide_Cascade: "wide_id (snd (Cascade clk k m)) = wide_id m"
proof (induction clk k m rule: Cascade.induct)
  case (1 clk k m)
  have turn: "wide_id m1 = wide_id m" if "turn_upper clk k m = (cn, m1)" for cn m1
  proof -
    have "m1 = snd (turn_upper clk k m)"
      using that by simp
    then show ?thesis
      by (simp add: turn_upper_def GetCurrentMillisec_def Let_def wide_cascade)
  qed
  show ?case
    using 1 turn by (subst Cascade.simps) (auto simp: Let_def split: prod.splits)
qed

lemma wide_detect_tick: "wide_id (detect_tick clk m) = wide_id m"
proof -
  have "wide_id (fold AddToReady xs m) = wide_id m" for xs
    by (induction xs arbitrary: m) (simp_all add: AddToReady_def)
  then show ?thesis
    by (simp add: detect_tick_def Let_def wide_Cascade)
qed

lemma wide_collected: "wide_id (collected clk m) = wide_id m"
proof -
  have "wide_id ((detect_tick clk ^^ k) m) = wide_id m" for k m
    by (induction k) (simp_all add: wide_detect_tick)
  then show ?thesis
    by (simp add: collected_def GetCurrentMillisec_def)
qed


lemma wide_ProcessTimer: "wide_id m \<Longrightarrow> wide_id (snd (ProcessTimer clk app io m))"
proof -
  assume w: "wide_id m"
  have out: "wide_id (ProcessTimeOut clk app x)" if "wide_id x" for x
    using quiet_ready_loop [of "x\<lparr>tick_reads := Suc (tick_reads x)\<rparr>" clk app "clk (tick_reads x)"] that
    by (simp add: ProcessTimeOut_def GetCurrentMillisec_def Let_def quiet_def)
  have "wide_id ((detect_tick clk ^^ k) x) = wide_id x" for k x
    by (induction k) (simp_all add: wide_detect_tick)
  with w show ?thesis
    by (simp add: ProcessTimer_def DetectList_def GetCurrentMillisec_def Let_def out detect_loop_funpow)
qed

lemma timer_reachable_inv:
  assumes "timer_reachable clk app m" "clock_ok clk" "\<not> wide_id m"
  shows "\<exists>c. manager_inv clk (unat (clk 0)) c m"
  using assms
proof (induction rule: timer_reachable.induct)
  case start
  then show ?case
    using new_manager_inv by blast
next
  case (request m q)
  note q = quiet_run_request [of m clk q]
  have "\<not> wide_id m"
    using request.prems q by (auto simp: quiet_def)
  then obtain c where c: "manager_inv clk (unat (clk 0)) c m"
    using request by blast
  have "calm clk (unat (clk 0)) (turns_at c) (run_request clk q m)"
    using c request.hyps request.prems
    by (intro run_request_calm) (auto simp: manager_inv_def intro: timer_inv_calm)
  then have "manager_inv clk (unat (clk 0)) c (run_request clk q m)"
    using c q by (simp add: manager_inv_def timer_inv_def calm_def quiet_def)
  then show ?case ..
next
  case (process m io)
  then have "\<not> wide_id m"
    using wide_ProcessTimer by blast
  then obtain c where "manager_inv clk (unat (clk 0)) c m"
    using process by blast
  from ProcessTimer_inv(1) [OF this process.prems(1,2)] show ?case ..
qed

lemma linked_count:
  assumes "nodes_ok {#} m"
  shows "count (linked m) p = (if timers m p = None then 0 else 1)"
  using assms by (simp add: nodes_ok_def count_mset_set' domIff)

text \<open>
  C6 Memory safety of the timers of a looper. Whatever the application asks for, from the
  outside or from inside its callbacks (setting and killing timers, destroying the handler
  that is being called, a nested \<^verbatim>\<open>ProcessTimer\<close>), as long as the ids handed out stay below
  \<open>2 ^ 31\<close>: no freed node is touched, no \<^verbatim>\<open>ASSERT\<close> fails, between two calls nothing is left on
  the ready list, every node is linked in exactly one spoke, and the maps of the handlers
  hold exactly the nodes that exist, under their own ids.
\<close>

theorem timer_manager_safe:
  assumes "timer_reachable clk app m" "clock_ok clk" "\<not> wide_id m"
  shows "\<not> brk m \<and> \<not> mBusying m \<and> mReadyNodes m = [] \<and>
    (\<forall>p. count (linked m) p = (if timers m p = None then 0 else 1)) \<and>
    (\<forall>h i p. (\<exists>d. handlers m h = Some d \<and> map_of (the_map d) i = Some p) \<longleftrightarrow>
       (\<exists>n. timers m p = Some n \<and> mHandler n = h \<and> mTimerId n = i))"
proof -
  obtain c where "manager_inv clk (unat (clk 0)) c m"
    using timer_reachable_inv [OF assms] by blast
  then have wf: "timers_wf {#} m" and "mReadyNodes m = []" "\<not> mBusying m"
    by (simp_all add: manager_inv_def timer_inv_def)
  moreover have "(\<exists>d. handlers m h = Some d \<and> map_of (the_map d) i = Some p) \<longleftrightarrow>
      (\<exists>n. timers m p = Some n \<and> mHandler n = h \<and> mTimerId n = i)" for h i p
    using timers_wfD(3) [OF wf] unfolding owners_ok_def by metis
  ultimately show ?thesis
    using linked_count [OF timers_wfD(2) [OF wf]] timers_wfD(4) [OF wf] by simp
qed

section \<open>No timer is missed\<close>

lemma due_ge: "c \<le> due (turns_at c) k s"
proof (cases "k = 0")
  case False
  have "c < gran k * (c div gran k) + gran k"
    by (metis add.commute dividend_less_div_times gran_pos mult.commute)
  also have "\<dots> \<le> due (turns_at c) k s"
    using False by (simp add: due_def turns_at_def algebra_simps)
  finally show ?thesis
    by simp
qed (simp add: due_def gran_def)

lemma waiting_deadline:
  assumes inv: "timer_inv clk base c m" and p: "timers m p = Some n" "p \<notin> set (mReadyNodes m)"
  shows "base + c \<le> unat (mDeadTime n)"
proof -
  have wf: "timers_wf {#} m" and sl: "slots_ok base (turns_at c) m"
    using inv by (simp_all add: timer_inv_def timely_def)
  have "p \<in># linked m"
    using p(1) linked_count [OF timers_wfD(2) [OF wf], of p] by (simp flip: count_greater_zero_iff)
  then obtain k s where "k < 5" "s < wsz k" "p \<in> set (spoke_at m k s)"
    using linked_cases [OF _ timers_wfD(1) [OF wf]] p(2) by metis
  then have "base + due (turns_at c) k s \<le> unat (mDeadTime n)"
    using sl p(1) by (auto simp: slots_ok_def)
  then show ?thesis
    using due_ge [of c k s] by linarith
qed

text \<open>
  C2 No timer is missed. After \<^verbatim>\<open>ProcessTimer\<close> has run at time \<open>now\<close> (its first reading of
  the clock), however long it had not run before and whatever the callbacks did, no timer
  that is still set has a deadline before \<open>now\<close>: the wheels were turned past every spoke that
  held one, across all the levels.
\<close>

theorem no_timer_overdue:
  assumes "timer_reachable clk app m" "clock_ok clk"
    and "\<not> wide_id (snd (ProcessTimer clk app io m))"
    and "timers (snd (ProcessTimer clk app io m)) p = Some n"
  shows "clk (tick_reads m) \<le> mDeadTime n"
proof -
  have "\<not> wide_id m"
    using assms(3) wide_ProcessTimer by blast
  then obtain c where "manager_inv clk (unat (clk 0)) c m"
    using timer_reachable_inv [OF assms(1,2)] by blast
  note out = ProcessTimer_inv [OF this assms(2,3)]
  then have "timer_inv clk (unat (clk 0)) (unat (clk (tick_reads m)) - unat (clk 0)) (snd (ProcessTimer clk app io m))"
      "mReadyNodes (snd (ProcessTimer clk app io m)) = []"
    by (simp_all add: manager_inv_def)
  from waiting_deadline [OF this(1) assms(4)] this(2) out(2)
  have "unat (clk (tick_reads m)) \<le> unat (mDeadTime n)"
    by simp
  then show ?thesis
    by (simp add: word_le_nat_alt)
qed

section \<open>Every due timer is called back once\<close>

fun call_node :: "timer_event \<Rightarrow> nat option" where
  "call_node (TimerCalled p h i) = Some p"
| "call_node (RunnableRun p r) = Some p"
| "call_node (RunnableNull p) = Some p"
| "call_node _ = None"

fun calls :: "timer_event list \<Rightarrow> nat list" where
  "calls [] = []"
| "calls (e # l) = (case call_node e of None \<Rightarrow> calls l | Some p \<Rightarrow> p # calls l)"

lemma calls_append [simp]: "calls (l @ l') = calls l @ calls l'"
  by (induction l) (auto split: option.split)















section \<open>A run\<close>

text \<open>A clock that stands at 0 for the first two readings and at 3 from then on.\<close>

definition demo_clock :: tick_clock where
  "demo_clock n = (if n < 2 then 0 else 3)"

definition demo_app :: timer_app where
  "demo_app l = []"

definition demo_timers :: TimerManager where
  "demo_timers =
     fold (run_request demo_clock)
       [ReqNewHandler 1 False, ReqCreated 1, ReqSetTimer 1 2 None, ReqSetTimer 1 20000 (Some (Some 9))]
       (new_manager demo_clock)"

lemma demo_clock_ok: "clock_ok demo_clock"
  by (auto simp: clock_ok_def demo_clock_def intro!: monoI)

lemma demo_timers_reachable: "timer_reachable demo_clock demo_app demo_timers"
  by (simp add: demo_timers_def) (intro timer_reachable.intros; simp)

lemma demo_timers_narrow: "\<not> wide_id demo_timers" "\<not> wide_id (snd (ProcessTimer demo_clock demo_app 0 demo_timers))"
  by code_simp+

lemma demo_timers_node:
  "timers demo_timers 0 =
     Some \<lparr>mHandler = 1, mDeadTime = 2, mTimerId = 1, mInterval = 2, mExtraInfo = None\<rparr>"
  by code_simp

end
