(* ===== verification/TimerProps.thy ===== *)
theory TimerProps
  imports TimerRounds
begin

text \<open>
  Timer ids, the waiting time of the looper, the theorems of \<open>TimerRounds\<close> on a concrete run,
  and three situations in which the timers do not do what their comments say.
\<close>

section \<open>Ids and waiting time\<close>

lemma next_free_finds:
  assumes "map_of tm (i + of_nat k) = None"
  shows "\<exists>j. next_free tm i = Some j \<and> map_of tm j = None"
  using assms
proof (induction k arbitrary: i)
  case 0
  then show ?case
    by (auto simp: next_free.simps)
next
  case (Suc k)
  then have "\<exists>j. next_free tm (i + 1) = Some j \<and> map_of tm j = None"
    by (simp add: ac_simps)
  then show ?case
    by (cases "map_of tm i") (auto simp: next_free.simps [of tm i])
qed

text \<open>
  C33 A new timer id is new. As long as some id is free, \<^verbatim>\<open>NextTimerId\<close> returns (its search loop
  ends, also after the counter has wrapped) and the id it returns is not in use; until the
  counter wraps, the id is not 0 either, and the counter stays above every id in use.
\<close>

theorem next_timer_id_fresh:
  assumes old: "mTimerIdRewind d \<or> (\<forall>i\<in>fst ` set (the_map d). i \<noteq> 0 \<and> i \<le> mNextTimerId d)"
    and free: "map_of (the_map d) j = None"
  shows "\<exists>i d'. NextTimerId d = Some (i, d') \<and> map_of (the_map d) i = None \<and> the_map d' = the_map d \<and>
    (mTimerIdRewind d' \<or> i \<noteq> 0 \<and> (\<forall>k\<in>insert i (fst ` set (the_map d)). k \<le> mNextTimerId d'))"
proof -
  have search: "\<exists>i. next_free (the_map d) k = Some i \<and> map_of (the_map d) i = None" for k
    using next_free_finds [of "the_map d" k "unat (j - k)"] free by simp
  consider "the_map d = []"
    | "the_map d \<noteq> []" "mNextTimerId d \<noteq> 0 \<and> map_of (the_map d) (mNextTimerId d) = None"
    | "the_map d \<noteq> []" "\<not> (mNextTimerId d \<noteq> 0 \<and> map_of (the_map d) (mNextTimerId d) = None)"
    by blast
  then show ?thesis
  proof cases
    case 1
    then show ?thesis
      by (simp add: NextTimerId_def)
  next
    case 2
    then show ?thesis
      using old by (auto simp: NextTimerId_def)
  next
    case 3
    note next_eq = NextTimerId_def [of d, unfolded if_not_P [OF 3(1)] if_not_P [OF 3(2)] Let_def]
    show ?thesis
    proof (cases "mNextTimerId d + 1 = 0 \<or> mTimerIdRewind d")
      case True
      define k where "k = (if mNextTimerId d + 1 = 0 then 1 else mNextTimerId d + 1)"
      obtain i where i: "next_free (the_map d) k = Some i" "map_of (the_map d) i = None"
        using search by blast
      then show ?thesis
        using True by (auto simp: next_eq k_def)
    next
      case False
      then have lt: "mNextTimerId d < mNextTimerId d + 1"
        using unatSuc [of "mNextTimerId d"] by (simp add: word_less_nat_alt add.commute)
      then have up: "k < mNextTimerId d + 1" if "k \<in> fst ` set (the_map d)" for k
        using old False that by fastforce
      then have "map_of (the_map d) (mNextTimerId d + 1) = None"
        by (force simp: map_of_eq_None_iff)
      then show ?thesis
        using False up by (auto simp: next_eq less_imp_le)
    qed
  qed
qed

lemma idle_scan_bounds:
  assumes "0 \<le> g" "idle_scan w g i ms rw = (has, ms', rw')" "i \<le> unat (wheel_size w)"
  shows "ms \<le> ms' \<and> ms' \<le> ms + g * (int (unat (wheel_size w)) - int i) \<and> (rw' = rw \<or> ms \<le> rw' \<and> rw' \<le> ms')"
  using assms
proof (induction w g i ms rw rule: idle_scan.induct)
  case (1 w g i ms rw)
  let ?n = "unat (wheel_size w)" and ?idx = "(i + unat (spokeIndex w)) mod unat (wheel_size w)"
  show ?case
  proof (cases "i < ?n \<and> spokes w ! ?idx = []")
    case True
    let ?rw = "if ?idx = ?n - 1 then ms + g else rw"
    have step: "idle_scan w g i ms rw = idle_scan w g (i + 1) (ms + g) ?rw"
      using True by (subst idle_scan.simps) (simp add: Let_def)
    then have res: "idle_scan w g (i + 1) (ms + g) ?rw = (has, ms', rw')"
      using "1.prems"(2) by simp
    have ih: "ms + g \<le> ms' \<and> ms' \<le> ms + g + g * (int ?n - int (i + 1)) \<and>
        (rw' = ?rw \<or> ms + g \<le> rw' \<and> rw' \<le> ms')"
      by (rule "1.IH" [OF _ refl _ "1.prems"(1) res]) (use True in simp_all)
    have "g + g * (int ?n - int (i + 1)) = g * (int ?n - int i)"
      by (simp add: algebra_simps)
    with ih "1.prems"(1) show ?thesis
      by (auto split: if_splits)
  next
    case False
    then have "idle_scan w g i ms rw = (i < ?n, ms, rw)"
      by (subst idle_scan.simps) (auto simp: Let_def)
    moreover have "0 \<le> g * (int ?n - int i)"
    proof (rule mult_nonneg_nonneg)
      have "int i \<le> int ?n"
        using "1.prems"(3) by (simp only: of_nat_le_iff)
      then show "0 \<le> int ?n - int i"
        by (simp only: diff_ge_0_iff_ge)
    qed (rule "1.prems"(1))
    ultimately show ?thesis
      using "1.prems" by simp
  qed
qed

lemma idle_scan_finds:
  assumes "i \<le> j" "unat (spokeIndex w) + j < unat (wheel_size w)"
    "\<forall>k. i \<le> k \<and> k < j \<longrightarrow> spokes w ! (unat (spokeIndex w) + k) = []"
    "spokes w ! (unat (spokeIndex w) + j) \<noteq> []"
  shows "idle_scan w g i ms rw = (True, ms + g * int (j - i), rw)"
  using assms
proof (induction "j - i" arbitrary: i ms)
  case 0
  then show ?case
    by (subst idle_scan.simps) (simp add: Let_def add.commute)
next
  case (Suc d)
  let ?n = "unat (wheel_size w)"
  have idx: "(i + unat (spokeIndex w)) mod ?n = unat (spokeIndex w) + i"
    using Suc.hyps(2) Suc.prems(2) by simp
  have "spokes w ! (unat (spokeIndex w) + i) = []" "unat (spokeIndex w) + i \<noteq> ?n - 1" "i < ?n"
    using Suc.hyps(2) Suc.prems by auto
  then have "idle_scan w g i ms rw = idle_scan w g (i + 1) (ms + g) rw"
    by (subst idle_scan.simps) (simp only: idx Let_def if_True if_False not_True_eq_False simp_thms)
  also have "\<dots> = (True, ms + g + g * int (j - (i + 1)), rw)"
    using Suc.hyps(2) Suc.prems by (intro Suc.hyps(1)) auto
  also have "ms + g + g * int (j - (i + 1)) = ms + g * int (j - i)"
    using Suc.hyps(2) Suc.prems(1) by (simp add: of_nat_diff algebra_simps)
  finally show ?case .
qed

text \<open>
  C34 The waiting time. In every state the manager can be in, the time the looper may sleep is
  between 0 and 2^20 ms; and when the first wheel has a timer before its index wraps, it is
  exactly the distance to the first such spoke, so that the looper wakes up for it.
\<close>

theorem idle_time:
  assumes "timer_reachable clk app m" "clock_ok clk" "\<not> wide_id m"
  shows "0 \<le> GetMinIdleTime m \<and> GetMinIdleTime m \<le> 2 ^ 20 \<and>
    (\<forall>j. unat (spokeIndex (wheel_at m 0)) + j < 256 \<and>
       spoke_at m 0 (unat (spokeIndex (wheel_at m 0)) + j) \<noteq> [] \<and>
       (\<forall>k<j. spoke_at m 0 (unat (spokeIndex (wheel_at m 0)) + k) = []) \<longrightarrow>
       GetMinIdleTime m = int j)"
proof -
  obtain c where "manager_inv clk (unat (clk 0)) c m"
    using timer_reachable_inv [OF assms] by blast
  then have sh: "shape m"
    by (simp add: manager_inv_def timer_inv_def timers_wf_def)
  have size: "unat (wheel_size (wheel_at m 0)) = 256" "unat (wheel_size (wheel_at m 1)) = 64"
      "unat (wheel_size (wheel_at m 2)) = 64"
    using shapeD(1) [OF sh] by (simp_all add: wsz_def)
  obtain h0 ms0 rw0 h1 ms1 rw1 h2 ms2 rw2 where
    scan: "idle_scan (wheel_at m 0) 1 0 0 (-1) = (h0, ms0, rw0)"
      "idle_scan (wheel_at m 1) 256 0 0 (-1) = (h1, ms1, rw1)"
      "idle_scan (wheel_at m 2) (256 * 64) 0 0 (-1) = (h2, ms2, rw2)"
    by (metis prod_cases3)
  have "0 \<le> ms0 \<and> ms0 \<le> 256 \<and> (rw0 = -1 \<or> 0 \<le> rw0 \<and> rw0 \<le> ms0)"
      "0 \<le> ms1 \<and> ms1 \<le> 256 * 64 \<and> (rw1 = -1 \<or> 0 \<le> rw1 \<and> rw1 \<le> ms1)"
      "0 \<le> ms2 \<and> ms2 \<le> 256 * 64 * 64 \<and> (rw2 = -1 \<or> 0 \<le> rw2 \<and> rw2 \<le> ms2)"
    using idle_scan_bounds [OF _ scan(1), unfolded size] idle_scan_bounds [OF _ scan(2), unfolded size]
      idle_scan_bounds [OF _ scan(3), unfolded size] by simp_all
  then have "0 \<le> GetMinIdleTime m \<and> GetMinIdleTime m \<le> 2 ^ 20"
    using scan by (auto simp: GetMinIdleTime_def GRANULARITY_def Let_def)
  moreover have "GetMinIdleTime m = int j"
    if "unat (spokeIndex (wheel_at m 0)) + j < 256"
      "spoke_at m 0 (unat (spokeIndex (wheel_at m 0)) + j) \<noteq> []"
      "\<forall>k<j. spoke_at m 0 (unat (spokeIndex (wheel_at m 0)) + k) = []" for j
    using idle_scan_finds [of 0 j "wheel_at m 0" 1 0 "-1"] that
    by (simp add: GetMinIdleTime_def GRANULARITY_def size spoke_at_def)
  ultimately show ?thesis
    by blast
qed


text \<open>Two handlers ask for timers; the second handler's one is due long after the first.\<close>

lemma timer_manager_safe_witness:
  "\<not> brk demo_timers \<and> mReadyNodes demo_timers = [] \<and> count (linked demo_timers) 0 = 1"
  using timer_manager_safe [OF demo_timers_reachable demo_clock_ok demo_timers_narrow(1)] demo_timers_node
  by simp

lemma no_timer_overdue_witness:
  "\<exists>n. timers (snd (ProcessTimer demo_clock demo_app 0 demo_timers)) 0 = Some n \<and> 3 \<le> mDeadTime n"
proof -
  have node: "timers (snd (ProcessTimer demo_clock demo_app 0 demo_timers)) 0 =
      Some \<lparr>mHandler = 1, mDeadTime = 5, mTimerId = 1, mInterval = 2, mExtraInfo = None\<rparr>"
    by code_simp
  have "demo_clock (tick_reads demo_timers) = 3"
    by code_simp
  with no_timer_overdue [OF demo_timers_reachable demo_clock_ok demo_timers_narrow(2) node] node
  show ?thesis
    by simp
qed


lemma next_timer_id_fresh_witness:
  "\<exists>i d'. NextTimerId ((new_handler False)\<lparr>mNextTimerId := 1, mTimerMap := Some [(1, 0)]\<rparr>) = Some (i, d') \<and> i \<noteq> 1"
  using next_timer_id_fresh [of "(new_handler False)\<lparr>mNextTimerId := 1, mTimerMap := Some [(1, 0)]\<rparr>" 2]
  by auto

lemma idle_time_witness: "GetMinIdleTime demo_timers = 2"
proof -
  have spokes: "unat (spokeIndex (wheel_at demo_timers 0)) = 0" "spoke_at demo_timers 0 2 = [0]"
      "spoke_at demo_timers 0 0 = []" "spoke_at demo_timers 0 1 = []"
    by code_simp+
  moreover have "\<forall>k<2. spoke_at demo_timers 0 k = []"
    using spokes(3,4) less_2_cases by (metis One_nat_def)
  ultimately have "unat (spokeIndex (wheel_at demo_timers 0)) + 2 < 256 \<and>
      spoke_at demo_timers 0 (unat (spokeIndex (wheel_at demo_timers 0)) + 2) \<noteq> [] \<and>
      (\<forall>k<2. spoke_at demo_timers 0 (unat (spokeIndex (wheel_at demo_timers 0)) + k) = [])"
    by (simp add: numeral_2_eq_2)
  then have "GetMinIdleTime demo_timers = int 2"
    using idle_time [OF demo_timers_reachable demo_clock_ok demo_timers_narrow(1)] by blast
  then show ?thesis
    by simp
qed

section \<open>Where the code does not do what it says\<close>

text \<open>A clock that stands at 0 when the manager is made, and at 10 from then on.\<close>

definition busy_clock :: tick_clock where
  "busy_clock n = (if n = 0 then 0 else 10)"

definition early_timers :: TimerManager where
  "early_timers =
     fold (run_request busy_clock) [ReqNewHandler 1 False, ReqCreated 1, ReqSetTimer 1 5 None]
       (new_manager busy_clock)"

text \<open>
  A timer can fire early. The spoke of a new timer is counted from the tick the wheels have
  reached, its deadline from the clock. When the looper has been busy for 10 ms and then sets
  a timer of 5 ms, the next \<^verbatim>\<open>ProcessTimer\<close>, at the same instant, calls it although its deadline
  is 5 ms away.
\<close>

theorem timer_fires_early:
  "timer_reachable busy_clock demo_app early_timers \<and>
   timers early_timers 0 =
     Some \<lparr>mHandler = 1, mDeadTime = 15, mTimerId = 1, mInterval = 5, mExtraInfo = None\<rparr> \<and>
   event_log (snd (ProcessTimer busy_clock demo_app 0 early_timers)) = [TimerCalled 0 1 1] \<and>
   (\<forall>n. busy_clock n \<le> 10)"
proof -
  have "timer_reachable busy_clock demo_app early_timers"
    by (simp add: early_timers_def) (intro timer_reachable.intros; simp)
  moreover have "timers early_timers 0 =
      Some \<lparr>mHandler = 1, mDeadTime = 15, mTimerId = 1, mInterval = 5, mExtraInfo = None\<rparr>"
    by code_simp
  moreover have "event_log (snd (ProcessTimer busy_clock demo_app 0 early_timers)) = [TimerCalled 0 1 1]"
    by code_simp
  ultimately show ?thesis
    by (simp add: busy_clock_def)
qed

text \<open>
  Setting an id again frees a linked node. \<^verbatim>\<open>TimerManager::SetTimer\<close> says that it removes the
  timer the handler has under the id, but never looks it up: the assignment in the map drops
  the old node, which stays linked in its spoke.
\<close>

theorem set_timer_twice_dangles:
  "let m = SetTimer demo_clock (Some 1) 7 30 None
             (SetTimer demo_clock (Some 1) 7 20 None
               (run_request demo_clock (ReqNewHandler 1 False) (new_manager demo_clock)))
   in spoke_at m 0 20 = [0] \<and> timers m 0 = None \<and> spoke_at m 0 30 = [1] \<and> timers m 1 \<noteq> None"
  by code_simp

text \<open>A clock that stands at 0 for the first two readings and at 20 from then on.\<close>

definition late_clock :: tick_clock where
  "late_clock n = (if n < 2 then 0 else 20)"

definition late_timers :: TimerManager where
  "late_timers =
     snd (ProcessTimer late_clock demo_app 1000
       (fold (run_request late_clock) [ReqNewHandler 1 False, ReqCreated 1, ReqSetTimer 1 1048576 None]
         (new_manager late_clock)))"

text \<open>
  The looper can sleep too long. 20 ms after a timer of 2^20 ms was set, nothing else being
  set, the waiting time is 2^20 ms again: 20 ms past the deadline of the timer, which is in
  the fourth wheel, where \<^verbatim>\<open>GetMinIdleTime\<close> does not look.
\<close>

theorem idle_time_too_long:
  "timer_reachable late_clock demo_app late_timers \<and>
   (\<exists>n. timers late_timers 0 = Some n \<and>
      uint (mDeadTime n) < uint (mStartTick late_timers) + GetMinIdleTime late_timers)"
proof -
  have "timer_reachable late_clock demo_app late_timers"
    by (simp add: late_timers_def) (intro timer_reachable.intros; simp)
  moreover have "timers late_timers 0 =
      Some \<lparr>mHandler = 1, mDeadTime = 1048576, mTimerId = 1, mInterval = 1048576, mExtraInfo = None\<rparr>"
    by code_simp
  moreover have "mStartTick late_timers = 20" "GetMinIdleTime late_timers = 1048576"
    by code_simp+
  ultimately show ?thesis
    by simp
qed

end
