(* ===== verification/CoreBuffer.thy ===== *)
theory CoreBuffer
  imports SctpTool
begin

text \<open>
  The growing byte buffer of the core library (\<^verbatim>\<open>src/src/core/base/bytebuffer.cpp\<close> and
  \<^verbatim>\<open>src/src/include/core/base/bytebuffer.h\<close>), which the network classes and the protocols
  above them read and write.

  A C \<^verbatim>\<open>int\<close> is an \<^typ>\<open>int\<close>, and a sum that leaves its range has no result (signed overflow
  is undefined). \<open>new BYTE[n]\<close> gives \<open>n\<close> bytes of any content: the parameter \<open>junk\<close>. It is
  taken to succeed. \<^verbatim>\<open>ASSERT\<close> is for debug builds; what the code does after it is modelled.
\<close>

section \<open>C arithmetic and memory\<close>

definition c_int :: "int \<Rightarrow> int option" where
  "c_int i = (if - (2 ^ 31) \<le> i \<and> i < 2 ^ 31 then Some i else None)"

definition c_div :: "int \<Rightarrow> int \<Rightarrow> int" where
  "c_div a b = sgn a * sgn b * (\<bar>a\<bar> div \<bar>b\<bar>)"

definition c_size :: "int \<Rightarrow> nat option" where
  "c_size i = (if 0 \<le> i then Some (nat i) else None)"

definition new_bytes :: "(nat \<Rightarrow> char) \<Rightarrow> nat \<Rightarrow> memory" where
  "new_bytes junk n = map junk [0..<n]"

section \<open>The class\<close>

record CoreBuffer =
  m_pBuf :: "memory option"
  m_cbBuf :: int
  m_cbMaxBuf :: int
  m_nDataOff :: int
  m_nData :: int

definition new_buffer :: CoreBuffer where
  "new_buffer = \<lparr>m_pBuf = None, m_cbBuf = 0, m_cbMaxBuf = 0, m_nDataOff = 0, m_nData = 0\<rparr>"

definition SetBufferSize :: "(nat \<Rightarrow> char) \<Rightarrow> u32 \<Rightarrow> u32 \<Rightarrow> CoreBuffer \<Rightarrow> int \<times> CoreBuffer" where
  "SetBufferSize junk nInitSize nMaxSize0 b =
     (if m_pBuf b \<noteq> None then (-1, b)
      else
        (let nMaxSize = (if nInitSize > nMaxSize0 then nInitSize else nMaxSize0)
         in (0, b\<lparr>m_pBuf := Some (new_bytes junk (unat nInitSize)), m_cbMaxBuf := sint nMaxSize,
                  m_cbBuf := sint nInitSize, m_nDataOff := 0, m_nData := 0\<rparr>)))"

definition default_init :: u32 where "default_init = 32"
definition default_max :: u32 where "default_max = 16 * 1024 * 1024"

definition ensure_buffer :: "(nat \<Rightarrow> char) \<Rightarrow> CoreBuffer \<Rightarrow> CoreBuffer" where
  "ensure_buffer junk b =
     (if m_pBuf b = None then snd (SetBufferSize junk default_init default_max b) else b)"

text \<open>The part of \<^verbatim>\<open>Write\<close> that makes room: it returns the number of bytes that will fit.\<close>

definition grow_buffer :: "(nat \<Rightarrow> char) \<Rightarrow> int \<Rightarrow> CoreBuffer \<Rightarrow> (int \<times> CoreBuffer) option" where
  "grow_buffer junk dataLen b = do {
     need \<leftarrow> c_int (m_nData b + dataLen);
     (if need > m_cbBuf b then do {
        let cbData = (if need > m_cbMaxBuf b then m_cbMaxBuf b - m_nData b else dataLen);
        let stepsize = 1024 * 8;
        s \<leftarrow> c_int (m_nData b + cbData + stepsize);
        let newsize0 = c_div (s - 1) stepsize * stepsize;
        let newsize = (if newsize0 > m_cbMaxBuf b then m_cbMaxBuf b else newsize0);
        n \<leftarrow> c_size newsize;
        off \<leftarrow> c_size (m_nDataOff b);
        len \<leftarrow> c_size (m_nData b);
        old \<leftarrow> m_pBuf b;
        xs \<leftarrow> mem_read old off len;
        pBuf \<leftarrow> memcpy (new_bytes junk n) 0 xs;
        Some (cbData, b\<lparr>m_pBuf := Some pBuf, m_cbBuf := newsize, m_nDataOff := 0\<rparr>)
      } else Some (dataLen, b))
   }"

definition move_data :: "CoreBuffer \<Rightarrow> CoreBuffer option" where
  "move_data b = do {
     buf \<leftarrow> m_pBuf b;
     off \<leftarrow> c_size (m_nDataOff b);
     len \<leftarrow> c_size (m_nData b);
     buf \<leftarrow> memmove buf 0 off len;
     Some (b\<lparr>m_pBuf := Some buf, m_nDataOff := 0\<rparr>)
   }"

definition CoreBuffer_Write ::
  "(nat \<Rightarrow> char) \<Rightarrow> memory option \<Rightarrow> int \<Rightarrow> CoreBuffer \<Rightarrow> (int \<times> CoreBuffer) option" where
  "CoreBuffer_Write junk pData dataLen b =
     (case pData of None \<Rightarrow> Some (0, b)
      | Some data \<Rightarrow>
        (if dataLen \<le> 0 then Some (0, b)
         else do {
           (cbData, b) \<leftarrow> grow_buffer junk dataLen (ensure_buffer junk b);
           off \<leftarrow> c_int (m_nDataOff b + m_nData b);
           b \<leftarrow> (if m_cbBuf b - off < cbData then move_data b else Some b);
           buf \<leftarrow> m_pBuf b;
           at \<leftarrow> c_size (m_nDataOff b + m_nData b);
           n \<leftarrow> c_size cbData;
           xs \<leftarrow> mem_read data 0 n;
           buf \<leftarrow> memcpy buf at xs;
           Some (cbData, b\<lparr>m_pBuf := Some buf, m_nData := m_nData b + cbData\<rparr>)
         }))"

definition CoreBuffer_Eat :: "int \<Rightarrow> CoreBuffer \<Rightarrow> (int \<times> CoreBuffer) option" where
  "CoreBuffer_Eat cbEat b =
     (if cbEat > m_nData b then Some (-1, b)
      else do {
        off \<leftarrow> c_int (m_nDataOff b + cbEat);
        n \<leftarrow> c_int (m_nData b - cbEat);
        (if n = 0 then do {
           buf \<leftarrow> m_pBuf b;
           buf \<leftarrow> mem_set buf 0 NUL;
           Some (0, b\<lparr>m_pBuf := Some buf, m_nDataOff := 0, m_nData := 0\<rparr>)
         } else Some (0, b\<lparr>m_nDataOff := off, m_nData := n\<rparr>))
      })"

definition CoreBuffer_ReverseEat :: "int \<Rightarrow> CoreBuffer \<Rightarrow> int \<times> CoreBuffer" where
  "CoreBuffer_ReverseEat cbEat b =
     (if cbEat < 0 then (-1, b)
      else if m_nData b \<ge> cbEat then
        (let n = m_nData b - cbEat
         in (0, b\<lparr>m_nData := n, m_nDataOff := (if n = 0 then 0 else m_nDataOff b)\<rparr>))
      else (-1, b))"

definition CoreBuffer_WriteByte :: "(nat \<Rightarrow> char) \<Rightarrow> char \<Rightarrow> CoreBuffer \<Rightarrow> (int \<times> CoreBuffer) option" where
  "CoreBuffer_WriteByte junk c b0 = do {
     let b = ensure_buffer junk b0;
     at \<leftarrow> c_int (m_nDataOff b + m_nData b);
     (if at < m_cbBuf b then do {
        buf \<leftarrow> m_pBuf b;
        i \<leftarrow> c_size at;
        buf \<leftarrow> mem_set buf i c;
        Some (1, b\<lparr>m_pBuf := Some buf, m_nData := m_nData b + 1\<rparr>)
      } else CoreBuffer_Write junk (Some [c]) 1 b)
   }"

definition CoreBuffer_clear :: "CoreBuffer \<Rightarrow> CoreBuffer" where
  "CoreBuffer_clear b = b\<lparr>m_nDataOff := 0, m_nData := 0\<rparr>"

definition CoreBuffer_EmptyEx :: "CoreBuffer \<Rightarrow> CoreBuffer" where
  "CoreBuffer_EmptyEx b = \<lparr>m_pBuf = None, m_cbBuf = 0, m_cbMaxBuf = 0, m_nDataOff = 0, m_nData = 0\<rparr>"

definition CoreBuffer_MoveToHead :: "CoreBuffer \<Rightarrow> CoreBuffer option" where
  "CoreBuffer_MoveToHead b =
     (if m_pBuf b \<noteq> None \<and> m_nDataOff b > 0
      then (if m_nData b > 0 then move_data b else Some (b\<lparr>m_nDataOff := 0\<rparr>))
      else Some b)"

definition GetMaxWritableBytes :: "bool \<Rightarrow> CoreBuffer \<Rightarrow> int" where
  "GetMaxWritableBytes reservedEndNull b =
     (let ret = m_cbMaxBuf b - m_nData b;
          ret = (if reservedEndNull then ret - 1 else ret)
      in if ret < 0 then 0 else ret)"

definition GetFreeSize :: "CoreBuffer \<Rightarrow> int" where
  "GetFreeSize b = (if m_cbBuf b \<ge> m_nData b then m_cbBuf b - m_nData b else 0)"

definition GetTailFreeSize :: "CoreBuffer \<Rightarrow> int" where
  "GetTailFreeSize b =
     (if m_cbBuf b \<ge> m_nDataOff b + m_nData b then m_cbBuf b - m_nDataOff b - m_nData b else 0)"

definition WriteDirect :: "int \<Rightarrow> CoreBuffer \<Rightarrow> (int \<times> CoreBuffer) option" where
  "WriteDirect nInc b = do {
     e \<leftarrow> c_int (m_nDataOff b + m_nData b + nInc);
     (if e \<le> m_cbBuf b then Some (0, b\<lparr>m_nData := m_nData b + nInc\<rparr>) else Some (-1, b))
   }"

definition PrepareBuf :: "(nat \<Rightarrow> char) \<Rightarrow> u32 \<Rightarrow> bool \<Rightarrow> CoreBuffer \<Rightarrow> (int \<times> CoreBuffer) option" where
  "PrepareBuf junk minSize zero b = do {
     let b = CoreBuffer_clear b;
     let (ret, b) = (if GetFreeSize b < sint minSize
                     then SetBufferSize junk minSize default_max (CoreBuffer_EmptyEx b) else (0, b));
     (if ret = 0 \<and> minSize > 0 \<and> zero then do {
        buf \<leftarrow> m_pBuf b;
        off \<leftarrow> c_size (m_nDataOff b);
        buf \<leftarrow> memset buf off NUL (unat minSize);
        Some (ret, b\<lparr>m_pBuf := Some buf\<rparr>)
      } else Some (ret, b))
   }"

definition IsEndWithNull :: "CoreBuffer \<Rightarrow> bool option" where
  "IsEndWithNull b =
     (let len = m_nData b
      in if len > 0 \<and> m_cbBuf b > m_nDataOff b + len then do {
           buf \<leftarrow> m_pBuf b;
           i \<leftarrow> c_size (m_nDataOff b + len - 1);
           c \<leftarrow> mem_get buf i;
           (if c = NUL then Some True
            else do { c \<leftarrow> mem_get buf (i + 1); Some (c = NUL) })
         } else Some True)"

definition MakeSureEndWithNull :: "(nat \<Rightarrow> char) \<Rightarrow> CoreBuffer \<Rightarrow> (int \<times> CoreBuffer) option" where
  "MakeSureEndWithNull junk b =
     (case m_pBuf b of None \<Rightarrow> Some (0, b)
      | Some buf \<Rightarrow> do {
          ended \<leftarrow> (if m_nData b > 0 then do {
                     i \<leftarrow> c_size (m_nDataOff b + m_nData b - 1);
                     c \<leftarrow> mem_get buf i;
                     Some (c = NUL)
                   } else Some False);
          (if ended then Some (0, b)
           else do {
             (ret, b) \<leftarrow> CoreBuffer_WriteByte junk NUL b;
             (if ret \<noteq> 1 then Some (-1, b)
              else Some (0, snd (CoreBuffer_ReverseEat 1 b)))
           })
        })"

definition core_bytes :: "CoreBuffer \<Rightarrow> char list option" where
  "core_bytes b =
     (if m_nData b \<le> 0 then Some []
      else do {
        buf \<leftarrow> m_pBuf b;
        off \<leftarrow> c_size (m_nDataOff b);
        mem_read buf off (nat (m_nData b))
      })"

definition CoreBuffer_Append ::
  "(nat \<Rightarrow> char) \<Rightarrow> CoreBuffer \<Rightarrow> bool \<Rightarrow> CoreBuffer \<Rightarrow> (int \<times> CoreBuffer) option" where
  "CoreBuffer_Append junk src makeSureEndNull b = do {
     (ret, b) \<leftarrow> (if m_nData src > 0 then do {
                    xs \<leftarrow> core_bytes src;
                    CoreBuffer_Write junk (Some xs) (m_nData src) b
                  } else Some (0, b));
     b \<leftarrow> (if makeSureEndNull then map_option snd (MakeSureEndWithNull junk b) else Some b);
     Some (ret, b)
   }"

text \<open>
  The C string at the data pointer runs to the first NUL of the array, through bytes behind
  the data if need be.
\<close>

definition ReadLine :: "(nat \<Rightarrow> char) \<Rightarrow> CoreBuffer \<Rightarrow> (int \<times> string \<times> CoreBuffer) option" where
  "ReadLine junk b0 = do {
     (_, b) \<leftarrow> MakeSureEndWithNull junk b0;
     (if m_nData b = 0 then Some (-1, [], b)
      else do {
        buf \<leftarrow> m_pBuf b;
        off \<leftarrow> c_size (m_nDataOff b);
        p \<leftarrow> c_str buf off;
        (case strstr p [LF] of
           Some len \<Rightarrow> do {
             line \<leftarrow> mem_read buf off len;
             (_, b) \<leftarrow> CoreBuffer_Eat (int len + 1) b;
             Some (0, line, b)
           }
         | None \<Rightarrow> do {
             len \<leftarrow> c_size (m_nData b);
             line \<leftarrow> mem_read buf off len;
             (_, b) \<leftarrow> CoreBuffer_Eat (m_nData b) b;
             Some (0, line, b)
           })
      })
   }"


section \<open>Well-formed buffers\<close>

definition core_ok :: "CoreBuffer \<Rightarrow> bool" where
  "core_ok b \<longleftrightarrow> (case m_pBuf b of
     None \<Rightarrow> m_cbBuf b = 0 \<and> m_cbMaxBuf b = 0 \<and> m_nDataOff b = 0 \<and> m_nData b = 0
   | Some buf \<Rightarrow> 0 < m_cbBuf b \<and> m_cbBuf b = int (length buf) \<and> m_cbBuf b \<le> m_cbMaxBuf b \<and>
       m_cbMaxBuf b < 2 ^ 31 - 8192 \<and> 0 \<le> m_nDataOff b \<and> 0 \<le> m_nData b \<and>
       m_nDataOff b + m_nData b \<le> m_cbBuf b \<and> (m_nData b = 0 \<longrightarrow> m_nDataOff b = 0))"

definition core_data :: "CoreBuffer \<Rightarrow> char list" where
  "core_data b = (case m_pBuf b of None \<Rightarrow> []
     | Some buf \<Rightarrow> take (nat (m_nData b)) (drop (nat (m_nDataOff b)) buf))"

definition core_cap :: "CoreBuffer \<Rightarrow> nat" where
  "core_cap b = (case m_pBuf b of None \<Rightarrow> 16 * 1024 * 1024 | Some buf \<Rightarrow> nat (m_cbMaxBuf b))"

lemma core_okE:
  assumes "core_ok b" "m_pBuf b = Some buf"
  obtains off n where "m_nDataOff b = int off" "m_nData b = int n" "m_cbBuf b = int (length buf)"
    "0 < length buf" "off + n \<le> length buf" "m_cbMaxBuf b = int (core_cap b)" "length buf \<le> core_cap b"
    "core_cap b < 2 ^ 31 - 8192" "core_data b = take n (drop off buf)" "length (core_data b) = n"
    "n = 0 \<longrightarrow> off = 0"
proof -
  show thesis
    using assms by (intro that [of "nat (m_nDataOff b)" "nat (m_nData b)"])
      (auto simp: core_ok_def core_cap_def core_data_def)
qed

lemma core_data_None: "core_ok b \<Longrightarrow> m_pBuf b = None \<Longrightarrow> core_data b = [] \<and> m_nData b = 0"
  by (simp add: core_ok_def core_data_def)

lemma core_data_le: "core_ok b \<Longrightarrow> length (core_data b) \<le> core_cap b"
  by (cases "m_pBuf b") (auto simp: core_data_def elim: core_okE)

lemma core_length: "core_ok b \<Longrightarrow> m_nData b = int (length (core_data b))"
  by (cases "m_pBuf b") (auto simp: core_data_None elim: core_okE)

lemma core_okI:
  assumes "m_pBuf b = Some buf" "m_nDataOff b = int off" "m_nData b = int n" "m_cbBuf b = int (length buf)"
    "0 < length buf" "off + n \<le> length buf" "m_cbMaxBuf b = int cap" "length buf \<le> cap" "cap < 2 ^ 31 - 8192"
    "n = 0 \<longrightarrow> off = 0"
  shows "core_ok b" "core_data b = take n (drop off buf)" "core_cap b = cap"
  using assms by (auto simp: core_ok_def core_data_def core_cap_def)

lemma new_bytes_length [simp]: "length (new_bytes junk n) = n"
  by (simp add: new_bytes_def)

lemma SetBufferSize_spec:
  assumes "m_pBuf b = None" "0 < unat n" "unat n < 2 ^ 31 - 8192" "unat m < 2 ^ 31 - 8192"
  shows "\<exists>b'. SetBufferSize junk n m b = (0, b') \<and> core_ok b' \<and> core_data b' = [] \<and>
    core_cap b' = max (unat n) (unat m) \<and> m_pBuf b' \<noteq> None \<and> m_cbBuf b' = int (unat n)"
proof -
  have s: "sint w = int (unat w)" if "unat w < 2 ^ 31" for w :: u32
  proof -
    have "int (unat w) < int (2 ^ 31)"
      using that by (simp only: of_nat_less_iff)
    then have "signed_take_bit 31 (uint w) = uint w"
      by (intro signed_take_bit_int_eq_self) (auto intro: order.trans [of _ 0])
    then show ?thesis
      by (simp add: sint_uint)
  qed
  obtain N M where N: "unat n = N" "sint n = int N" "unat m = M" "sint m = int M"
    by (rule that [OF refl s refl s]) (use assms in auto)
  show ?thesis
    using assms by (auto simp: SetBufferSize_def core_ok_def core_data_def core_cap_def word_less_nat_alt N max_def)
qed

lemma ensure_buffer_spec:
  assumes "core_ok b"
  shows "core_ok (ensure_buffer junk b)" "core_data (ensure_buffer junk b) = core_data b"
    "core_cap (ensure_buffer junk b) = core_cap b" "m_pBuf (ensure_buffer junk b) \<noteq> None"
proof -
  have "core_ok (ensure_buffer junk b) \<and> core_data (ensure_buffer junk b) = core_data b \<and>
      core_cap (ensure_buffer junk b) = core_cap b \<and> m_pBuf (ensure_buffer junk b) \<noteq> None"
  proof (cases "m_pBuf b")
    case None
    then show ?thesis
      using SetBufferSize_spec [of b default_init default_max junk] core_data_None [OF assms None]
      by (auto simp: ensure_buffer_def default_init_def default_max_def core_cap_def)
  qed (use assms in \<open>simp add: ensure_buffer_def\<close>)
  then show "core_ok (ensure_buffer junk b)" "core_data (ensure_buffer junk b) = core_data b"
    "core_cap (ensure_buffer junk b) = core_cap b" "m_pBuf (ensure_buffer junk b) \<noteq> None"
    by blast+
qed

section \<open>Writing\<close>

lemma c_int_nat: "n < 2 ^ 31 \<Longrightarrow> c_int (int n) = Some (int n)"
  by (simp add: c_int_def)

lemma c_size_int [simp]: "c_size (int n) = Some n"
  by (simp add: c_size_def)

lemma grow_room: "\<exists>k. c_div (int n + 8192 - 1) 8192 * 8192 = int k \<and> n \<le> k"
proof -
  have "c_div (int m) 8192 = int (m div 8192)" for m :: nat
    by (cases "m = 0") (simp_all add: c_div_def of_nat_div)
  from this [of "n + 8191"] have "c_div (int n + 8192 - 1) 8192 * 8192 = int ((n + 8191) div 8192 * 8192)"
    by (simp add: add.commute)
  moreover have "n \<le> (n + 8191) div 8192 * 8192"
    using div_mult_mod_eq [of "n + 8191" 8192] mod_less_divisor [of 8192 "n + 8191"] by linarith
  ultimately show ?thesis
    by blast
qed

lemma grow_buffer_eq:
  assumes "c_int (m_nData b + dataLen) = Some need" "need > m_cbBuf b"
    "(if need > m_cbMaxBuf b then m_cbMaxBuf b - m_nData b else dataLen) = cbData"
    "c_int (m_nData b + cbData + 1024 * 8) = Some s" "c_div (s - 1) (1024 * 8) * (1024 * 8) = nz"
    "(if nz > m_cbMaxBuf b then m_cbMaxBuf b else nz) = int ns"
    "m_nDataOff b = int off" "m_nData b = int n" "m_pBuf b = Some old" "mem_read old off n = Some xs"
    "memcpy (new_bytes junk ns) 0 xs = Some buf"
  shows "grow_buffer junk dataLen b =
    Some (cbData, b\<lparr>m_pBuf := Some buf, m_cbBuf := int ns, m_nDataOff := 0\<rparr>)"
  unfolding grow_buffer_def Let_def
  using assms by (simp only: Option.bind.simps if_True c_size_int assms(8))

lemma grow_buffer_spec:
  assumes ok: "core_ok b" and buf: "m_pBuf b \<noteq> None" and len: "0 < dataLen" "length (core_data b) + dataLen < 2 ^ 31"
  shows "\<exists>b'. grow_buffer junk (int dataLen) b =
      Some (int (min dataLen (core_cap b - length (core_data b))), b') \<and> core_ok b' \<and> m_pBuf b' \<noteq> None \<and>
      core_data b' = core_data b \<and> core_cap b' = core_cap b \<and>
      length (core_data b) + min dataLen (core_cap b - length (core_data b)) \<le> nat (m_cbBuf b')"
proof -
  obtain buf0 where b0: "m_pBuf b = Some buf0"
    using buf by blast
  obtain off n where f: "m_nDataOff b = int off" "m_nData b = int n" "m_cbBuf b = int (length buf0)"
    "0 < length buf0" "off + n \<le> length buf0" "m_cbMaxBuf b = int (core_cap b)" "length buf0 \<le> core_cap b"
    "core_cap b < 2 ^ 31 - 8192" "core_data b = take n (drop off buf0)" "length (core_data b) = n"
    "n = 0 \<longrightarrow> off = 0"
    by (rule core_okE [OF ok b0])
  define cap k where "cap = core_cap b" and "k = min dataLen (cap - n)"
  have need: "c_int (int n + int dataLen) = Some (int n + int dataLen)"
    using len(2) f(10) c_int_nat [of "n + dataLen"] by simp
  show ?thesis
  proof (cases "n + dataLen \<le> length buf0")
    case True
    then have "k = dataLen"
      using f(7) by (simp add: k_def cap_def)
    then show ?thesis
      using True need f ok by (simp add: grow_buffer_def b0 k_def cap_def)
  next
    case False
    have nk: "n + k \<le> cap" "length buf0 \<le> n + k"
      using False f(5,7) by (auto simp: k_def cap_def min_def)
    then have pos: "0 < n + k"
      using f(4) by linarith
    obtain z where z: "c_div (int (n + k) + 8192 - 1) 8192 * 8192 = int z" "n + k \<le> z"
      using grow_room by blast
    have s: "c_int (int n + int k + 1024 * 8) = Some (int (n + k) + 8192)"
      using nk(1) f(8) by (simp add: cap_def c_int_def)
    have cb: "(if int n + int dataLen > int cap then int cap - int n else int dataLen) = int k"
      using f(5,7) by (auto simp: k_def cap_def min_def)
    define newsize where "newsize = min z cap"
    define buf1 where "buf1 = take n (drop off buf0) @ drop n (new_bytes junk newsize)"
    define b' where "b' = b\<lparr>m_pBuf := Some buf1, m_cbBuf := int newsize, m_nDataOff := 0\<rparr>"
    have ns: "n + k \<le> newsize" "newsize \<le> cap" "n \<le> newsize"
      using z(2) nk(1) by (auto simp: newsize_def)
    have l1: "length buf1 = newsize"
      using ns(3) f(5) by (simp add: buf1_def)
    have if_ns: "(if int z > int cap then int cap else int z) = int newsize"
      by (auto simp: newsize_def)
    have copy: "memcpy (new_bytes junk newsize) 0 (take n (drop off buf0)) = Some buf1"
      using ns(3) f(5) by (simp add: memcpy_def buf1_def)
    have "grow_buffer junk (int dataLen) b = Some (int k, b')"
      unfolding b'_def
      by (rule grow_buffer_eq [where need = "int n + int dataLen" and s = "int (n + k) + 8192" and n = n
            and nz = "int z" and off = off and old = buf0 and xs = "take n (drop off buf0)"
            and ns = newsize])
        (use False need s cb z(1) if_ns copy f(5) in
          \<open>simp_all add: b0 f(1,2,3) f(6) [folded cap_def] mem_read_def split: if_split_asm\<close>)
    moreover have "core_ok b'" "core_data b' = take n (drop 0 buf1)" "core_cap b' = cap"
      using core_okI [of b' buf1 0 n cap] ns f(2,6,8) l1 pos by (auto simp: b'_def cap_def)
    moreover have "take n (drop 0 buf1) = core_data b"
      using f(5,9) by (simp add: buf1_def)
    ultimately show ?thesis
      using ns(1) f(10) by (simp add: b'_def k_def cap_def)
  qed
qed


lemma move_data_spec:
  assumes ok: "core_ok b" and buf: "m_pBuf b \<noteq> None"
  obtains b' where "move_data b = Some b'" "core_ok b'" "m_pBuf b' \<noteq> None" "core_data b' = core_data b"
    "core_cap b' = core_cap b" "m_nDataOff b' = 0" "m_nData b' = m_nData b" "m_cbBuf b' = m_cbBuf b"
proof -
  obtain buf0 where b0: "m_pBuf b = Some buf0"
    using buf by blast
  obtain off n where f: "m_nDataOff b = int off" "m_nData b = int n" "m_cbBuf b = int (length buf0)"
    "0 < length buf0" "off + n \<le> length buf0" "m_cbMaxBuf b = int (core_cap b)" "length buf0 \<le> core_cap b"
    "core_cap b < 2 ^ 31 - 8192" "core_data b = take n (drop off buf0)" "length (core_data b) = n"
    "n = 0 \<longrightarrow> off = 0"
    by (rule core_okE [OF ok b0])
  define buf1 where "buf1 = take n (drop off buf0) @ drop n buf0"
  define b' where "b' = b\<lparr>m_pBuf := Some buf1, m_nDataOff := 0\<rparr>"
  have "move_data b = Some b'"
    using f(5) by (simp add: move_data_def b0 f(1,2) memmove_def mem_read_def memcpy_def buf1_def b'_def)
  moreover have "length buf1 = length buf0"
    using f(5) by (simp add: buf1_def)
  then have "core_ok b'" "core_data b' = take n (drop 0 buf1)" "core_cap b' = core_cap b"
    using core_okI [of b' buf1 0 n "core_cap b"] f by (simp_all add: b'_def)
  moreover have "take n (drop 0 buf1) = core_data b"
    using f(5,9) by (simp add: buf1_def)
  ultimately show thesis
    by (intro that [of b']) (simp_all add: b'_def)
qed

lemma place_bytes:
  assumes ok: "core_ok b" and b0: "m_pBuf b = Some buf0" and off: "m_nDataOff b = int off"
    and n: "m_nData b = int n" and fit: "off + n + length xs \<le> length buf0"
  defines "buf1 \<equiv> take (off + n) buf0 @ xs @ drop (off + n + length xs) buf0"
  defines "b' \<equiv> b\<lparr>m_pBuf := Some buf1, m_nData := m_nData b + int (length xs)\<rparr>"
  shows "memcpy buf0 (off + n) xs = Some buf1" "core_ok b'" "core_data b' = core_data b @ xs"
    "core_cap b' = core_cap b"
proof -
  show "memcpy buf0 (off + n) xs = Some buf1"
    using fit by (simp add: memcpy_def buf1_def)
  have l: "length buf1 = length buf0"
    using fit by (simp add: buf1_def)
  have f: "m_cbBuf b = int (length buf0)" "0 < length buf0" "m_cbMaxBuf b = int (core_cap b)"
      "length buf0 \<le> core_cap b" "core_cap b < 2 ^ 31 - 8192" "core_data b = take n (drop off buf0)"
      "n = 0 \<longrightarrow> off = 0"
  proof -
    obtain i j where "m_nDataOff b = int i" "m_nData b = int j" "m_cbBuf b = int (length buf0)"
      "0 < length buf0" "m_cbMaxBuf b = int (core_cap b)" "length buf0 \<le> core_cap b"
      "core_cap b < 2 ^ 31 - 8192" "core_data b = take j (drop i buf0)" "j = 0 \<longrightarrow> i = 0"
      by (rule core_okE [OF ok b0])
    then show "m_cbBuf b = int (length buf0)" "0 < length buf0" "m_cbMaxBuf b = int (core_cap b)"
      "length buf0 \<le> core_cap b" "core_cap b < 2 ^ 31 - 8192" "core_data b = take n (drop off buf0)"
      "n = 0 \<longrightarrow> off = 0"
      using off n by simp_all
  qed
  have "core_ok b'" "core_data b' = take (n + length xs) (drop off buf1)" "core_cap b' = core_cap b"
    using core_okI [of b' buf1 off "n + length xs" "core_cap b"] fit f l off n by (simp_all add: b'_def)
  moreover have "drop off buf1 = take n (drop off buf0) @ xs @ drop (off + n + length xs) buf0"
    using fit by (simp add: buf1_def drop_take)
  then have "take (n + length xs) (drop off buf1) = take n (drop off buf0) @ xs"
    using fit by simp
  ultimately show "core_ok b'" "core_data b' = core_data b @ xs" "core_cap b' = core_cap b"
    by (simp_all add: f(6))
qed

lemma CoreBuffer_Write_spec:
  assumes ok: "core_ok b" and len: "n \<le> length d" "length (core_data b) + n < 2 ^ 31"
  obtains b' where "CoreBuffer_Write junk (Some d) (int n) b =
      Some (int (min n (core_cap b - length (core_data b))), b')" "core_ok b'"
    "core_data b' = core_data b @ take (min n (core_cap b - length (core_data b))) d"
    "core_cap b' = core_cap b" "m_pBuf b = None \<and> n = 0 \<or> m_pBuf b' \<noteq> None"
proof (cases "n = 0")
  case True
  then show thesis
    using ok by (intro that [of b]) (auto simp: CoreBuffer_Write_def)
next
  case False
  let ?e = "ensure_buffer junk b" and ?k = "min n (core_cap b - length (core_data b))"
  note e = ensure_buffer_spec [OF ok, of junk]
  obtain b1 where b1: "grow_buffer junk (int n) ?e = Some (int ?k, b1)" "core_ok b1" "m_pBuf b1 \<noteq> None"
      "core_data b1 = core_data b" "core_cap b1 = core_cap b" "length (core_data b) + ?k \<le> nat (m_cbBuf b1)"
    using grow_buffer_spec [OF e(1,4), of n junk] False len(2) by (auto simp: e)
  obtain buf1 where bf1: "m_pBuf b1 = Some buf1"
    using b1(3) by blast
  obtain off l where f: "m_nDataOff b1 = int off" "m_nData b1 = int l" "m_cbBuf b1 = int (length buf1)"
    "0 < length buf1" "off + l \<le> length buf1" "m_cbMaxBuf b1 = int (core_cap b1)" "length buf1 \<le> core_cap b1"
    "core_cap b1 < 2 ^ 31 - 8192" "core_data b1 = take l (drop off buf1)" "length (core_data b1) = l"
    "l = 0 \<longrightarrow> off = 0"
    by (rule core_okE [OF b1(2) bf1])
  have off: "c_int (m_nDataOff b1 + m_nData b1) = Some (int (off + l))"
    using f(5,7,8) by (simp add: f(1,2) c_int_def)
  obtain b2 where b2: "(if m_cbBuf b1 - int (off + l) < int ?k then move_data b1 else Some b1) = Some b2"
      "core_ok b2" "m_pBuf b2 \<noteq> None" "core_data b2 = core_data b" "core_cap b2 = core_cap b"
      "m_nDataOff b2 + m_nData b2 + int ?k \<le> m_cbBuf b2"
  proof (cases "m_cbBuf b1 - int (off + l) < int ?k")
    case True
    obtain b' where "move_data b1 = Some b'" "core_ok b'" "m_pBuf b' \<noteq> None" "core_data b' = core_data b1"
      "core_cap b' = core_cap b1" "m_nDataOff b' = 0" "m_nData b' = m_nData b1" "m_cbBuf b' = m_cbBuf b1"
      by (rule move_data_spec [OF b1(2,3)])
    then show thesis
      using True b1 f(2,3,10) by (intro that [of b']) auto
  next
    case F: False
    then show thesis
      using b1 f(1,2) by (intro that [of b1]) auto
  qed
  obtain buf2 where bf2: "m_pBuf b2 = Some buf2"
    using b2(3) by blast
  obtain off2 l2 where f2: "m_nDataOff b2 = int off2" "m_nData b2 = int l2" "m_cbBuf b2 = int (length buf2)"
    by (rule core_okE [OF b2(2) bf2])
  have fit: "off2 + l2 + length (take ?k d) \<le> length buf2"
    using b2(6) len(1) by (simp add: f2 min_def split: if_splits)
  note place = place_bytes [OF b2(2) bf2 f2(1,2) fit]
  have k: "length (take ?k d) = ?k"
    using len(1) by simp
  have at: "c_size (int off2 + int l2) = Some (off2 + l2)"
    using c_size_int [of "off2 + l2"] by simp
  have rd: "mem_read d 0 ?k = Some (take ?k d)"
    using len(1) by (simp add: mem_read_def)
  define b' where "b' = b2\<lparr>m_pBuf := Some
      (take (off2 + l2) buf2 @ take ?k d @ drop (off2 + l2 + length (take ?k d)) buf2),
      m_nData := m_nData b2 + int (length (take ?k d))\<rparr>"
  show thesis
  proof (rule that)
    show "CoreBuffer_Write junk (Some d) (int n) b = Some (int ?k, b')"
      using False b1(1) off b2(1) at rd place(1) k
      by (simp add: CoreBuffer_Write_def bf2 f2(1,2) b'_def del: of_nat_add of_nat_min)
    show "core_ok b'"
      unfolding b'_def by (rule place(2))
    show "core_data b' = core_data b @ take ?k d"
      unfolding b'_def place(3) by (simp only: b2(4))
    show "core_cap b' = core_cap b"
      unfolding b'_def place(4) by (rule b2(5))
    show "m_pBuf b = None \<and> n = 0 \<or> m_pBuf b' \<noteq> None"
      by (simp add: b'_def)
  qed
qed

end
