(* ===== verification/CoreBufferOps.thy ===== *)
theory CoreBufferOps
  imports CoreBuffer
begin

text \<open>
  What each operation of the core byte buffer does to the bytes it holds, the buffer as a
  bounded queue, and its line reader.
\<close>

section \<open>One operation\<close>

lemma core_some:
  assumes "core_ok b" "m_pBuf b \<noteq> None"
  obtains buf off n where "m_pBuf b = Some buf" "m_nDataOff b = int off" "m_nData b = int n"
    "m_cbBuf b = int (length buf)" "0 < length buf" "off + n \<le> length buf" "m_cbMaxBuf b = int (core_cap b)"
    "length buf \<le> core_cap b" "core_cap b < 2 ^ 31 - 8192" "core_data b = take n (drop off buf)"
    "length (core_data b) = n" "n = 0 \<longrightarrow> off = 0"
proof -
  obtain buf where buf: "m_pBuf b = Some buf"
    using assms(2) by blast
  show thesis
    by (rule core_okE [OF assms(1) buf]) (rule that [OF buf])
qed

lemma core_cap_bound: "core_ok b \<Longrightarrow> core_cap b < 2 ^ 31 - 8192"
  by (cases "m_pBuf b = None") (auto simp: core_cap_def elim: core_some)

lemma CoreBuffer_Eat_spec:
  assumes ok: "core_ok b" "m_pBuf b \<noteq> None" and n: "k \<le> length (core_data b)"
  obtains b' where "CoreBuffer_Eat (int k) b = Some (0, b')" "core_ok b'" "m_pBuf b' \<noteq> None"
    "core_data b' = drop k (core_data b)" "core_cap b' = core_cap b"
proof -
  obtain buf off l where f: "m_pBuf b = Some buf" "m_nDataOff b = int off" "m_nData b = int l"
    "m_cbBuf b = int (length buf)" "0 < length buf" "off + l \<le> length buf" "m_cbMaxBuf b = int (core_cap b)"
    "length buf \<le> core_cap b" "core_cap b < 2 ^ 31 - 8192" "core_data b = take l (drop off buf)"
    "length (core_data b) = l" "l = 0 \<longrightarrow> off = 0"
    by (rule core_some [OF ok])
  have k: "k \<le> l"
    using n f(11) by simp
  have ints: "c_int (int off + int k) = Some (int (off + k))" "c_int (int l - int k) = Some (int (l - k))"
    using k f(6,8,9) by (simp_all add: c_int_def)
  show thesis
  proof (cases "l = k")
    case True
    let ?b = "b\<lparr>m_pBuf := Some (buf[0 := NUL]), m_nDataOff := 0, m_nData := 0\<rparr>"
    have "CoreBuffer_Eat (int k) b = Some (0, ?b)"
      using True ints f by (simp add: CoreBuffer_Eat_def mem_set_def)
    moreover have "core_ok ?b" "core_data ?b = take 0 (drop 0 (buf[0 := NUL]))" "core_cap ?b = core_cap b"
      using core_okI [of ?b "buf[0 := NUL]" 0 0 "core_cap b"] f by simp_all
    ultimately show thesis
      using True f(10,11) by (intro that [of ?b]) simp_all
  next
    case False
    let ?b = "b\<lparr>m_nDataOff := int (off + k), m_nData := int (l - k)\<rparr>"
    have "CoreBuffer_Eat (int k) b = Some (0, ?b)"
      using False k ints f by (simp add: CoreBuffer_Eat_def del: of_nat_add)
    moreover have "core_ok ?b" "core_data ?b = take (l - k) (drop (off + k) buf)" "core_cap ?b = core_cap b"
      using core_okI [of ?b buf "off + k" "l - k" "core_cap b"] f k False by simp_all
    moreover have "take (l - k) (drop (off + k) buf) = drop k (take l (drop off buf))"
      by (simp add: drop_take add.commute)
    ultimately show thesis
      using f by (intro that [of ?b]) simp_all
  qed
qed

lemma CoreBuffer_Eat_too_many:
  "core_ok b \<Longrightarrow> length (core_data b) < k \<Longrightarrow> CoreBuffer_Eat (int k) b = Some (-1, b)"
  by (simp add: CoreBuffer_Eat_def core_length)

lemma CoreBuffer_ReverseEat_spec:
  assumes ok: "core_ok b" "m_pBuf b \<noteq> None" and n: "k \<le> length (core_data b)"
  obtains b' where "CoreBuffer_ReverseEat (int k) b = (0, b')" "core_ok b'" "m_pBuf b' = m_pBuf b"
    "core_data b' = take (length (core_data b) - k) (core_data b)" "core_cap b' = core_cap b"
    "k < length (core_data b) \<Longrightarrow> m_nDataOff b' = m_nDataOff b"
proof -
  obtain buf off l where f: "m_pBuf b = Some buf" "m_nDataOff b = int off" "m_nData b = int l"
    "m_cbBuf b = int (length buf)" "0 < length buf" "off + l \<le> length buf" "m_cbMaxBuf b = int (core_cap b)"
    "length buf \<le> core_cap b" "core_cap b < 2 ^ 31 - 8192" "core_data b = take l (drop off buf)"
    "length (core_data b) = l" "l = 0 \<longrightarrow> off = 0"
    by (rule core_some [OF ok])
  have k: "k \<le> l"
    using n f(11) by simp
  define i j where "i = (if l = k then 0 else off)" and "j = l - k"
  define b' where "b' = b\<lparr>m_nData := int j, m_nDataOff := int i\<rparr>"
  have b': "CoreBuffer_ReverseEat (int k) b = (0, b')"
    using k f by (simp add: CoreBuffer_ReverseEat_def Let_def b'_def i_def j_def)
  have "i + j \<le> length buf" "j = 0 \<longrightarrow> i = 0"
    using f(6) k by (auto simp: i_def j_def)
  then have "core_ok b'" "core_data b' = take j (drop i buf)" "core_cap b' = core_cap b"
    using core_okI [of b' buf i j "core_cap b"] f by (simp_all add: b'_def)
  moreover have "take j (drop i buf) = take (l - k) (take l (drop off buf))"
    using k by (cases "l = k") (simp_all add: i_def j_def)
  ultimately show thesis
    using b' f k by (intro that [of b']) (simp_all add: b'_def i_def)
qed

lemma CoreBuffer_ReverseEat_too_many:
  "core_ok b \<Longrightarrow> length (core_data b) < k \<Longrightarrow> CoreBuffer_ReverseEat (int k) b = (-1, b)"
  by (simp add: CoreBuffer_ReverseEat_def core_length)

lemma CoreBuffer_WriteByte_spec:
  assumes ok: "core_ok b"
  obtains b' where "CoreBuffer_WriteByte junk c b =
      Some (if length (core_data b) < core_cap b then 1 else 0, b')" "core_ok b'" "m_pBuf b' \<noteq> None"
    "core_data b' = core_data b @ (if length (core_data b) < core_cap b then [c] else [])"
    "core_cap b' = core_cap b"
proof -
  let ?e = "ensure_buffer junk b"
  note e = ensure_buffer_spec [OF ok, of junk]
  obtain buf off l where f: "m_pBuf ?e = Some buf" "m_nDataOff ?e = int off" "m_nData ?e = int l"
    "m_cbBuf ?e = int (length buf)" "0 < length buf" "off + l \<le> length buf" "m_cbMaxBuf ?e = int (core_cap ?e)"
    "length buf \<le> core_cap ?e" "core_cap ?e < 2 ^ 31 - 8192" "core_data ?e = take l (drop off buf)"
    "length (core_data ?e) = l" "l = 0 \<longrightarrow> off = 0"
    by (rule core_some [OF e(1,4)])
  have at: "c_int (int off + int l) = Some (int (off + l))"
    using f(6,8,9) by (simp add: c_int_def)
  show thesis
  proof (cases "off + l < length buf")
    case True
    let ?b = "?e\<lparr>m_pBuf := Some (buf[off + l := c]), m_nData := int l + 1\<rparr>"
    have "CoreBuffer_WriteByte junk c b = Some (1, ?b)"
      using True at f by (simp add: CoreBuffer_WriteByte_def mem_set_def Let_def del: of_nat_add)
    moreover have "core_ok ?b" "core_data ?b = take (l + 1) (drop off (buf[off + l := c]))"
        "core_cap ?b = core_cap ?e"
      using core_okI [of ?b "buf[off + l := c]" off "l + 1" "core_cap ?e"] f True by simp_all
    moreover have "take (l + 1) (drop off (buf[off + l := c])) = take l (drop off buf) @ [c]"
      using True by (simp add: take_Suc_conv_app_nth drop_update_swap)
    moreover have "length (core_data b) < core_cap b"
      using True f e(2,3) by simp
    ultimately show thesis
      using f(10) e by (intro that [of ?b]) simp_all
  next
    case False
    have "length (core_data ?e) + 1 < 2 ^ 31"
      using f by linarith
    then obtain b' where b': "CoreBuffer_Write junk (Some [c]) (int 1) ?e =
        Some (int (min 1 (core_cap ?e - length (core_data ?e))), b')" "core_ok b'"
      "core_data b' = core_data ?e @ take (min 1 (core_cap ?e - length (core_data ?e))) [c]"
      "core_cap b' = core_cap ?e" "m_pBuf b' \<noteq> None"
      using CoreBuffer_Write_spec [OF e(1), of 1 "[c]" junk] e(4) by auto
    have "CoreBuffer_WriteByte junk c b = CoreBuffer_Write junk (Some [c]) (int 1) ?e"
      using False at f by (simp add: CoreBuffer_WriteByte_def Let_def)
    then show thesis
      using b' e by (intro that [of b']) (auto simp: min_def)
  qed
qed

lemma CoreBuffer_clear_spec:
  assumes "core_ok b"
  shows "core_ok (CoreBuffer_clear b)" "core_data (CoreBuffer_clear b) = []"
    "core_cap (CoreBuffer_clear b) = core_cap b" "m_pBuf (CoreBuffer_clear b) = m_pBuf b"
  using assms by (auto simp: CoreBuffer_clear_def core_ok_def core_data_def core_cap_def split: option.splits)

lemma CoreBuffer_MoveToHead_spec:
  assumes ok: "core_ok b"
  obtains b' where "CoreBuffer_MoveToHead b = Some b'" "core_ok b'" "core_data b' = core_data b"
    "core_cap b' = core_cap b" "m_pBuf b \<noteq> None \<Longrightarrow> m_pBuf b' \<noteq> None" "m_nDataOff b' = 0"
proof (cases "m_pBuf b \<noteq> None \<and> m_nDataOff b > 0")
  case True
  then have "m_nData b > 0"
    using ok by (auto simp: core_ok_def)
  obtain b' where "move_data b = Some b'" "core_ok b'" "m_pBuf b' \<noteq> None" "core_data b' = core_data b"
    "core_cap b' = core_cap b" "m_nDataOff b' = 0"
    by (rule move_data_spec [OF ok]) (use True in auto)
  then show thesis
    using True \<open>m_nData b > 0\<close> by (intro that [of b']) (simp_all add: CoreBuffer_MoveToHead_def)
next
  case False
  then show thesis
    using ok by (intro that [of b]) (auto simp: CoreBuffer_MoveToHead_def core_ok_def split: option.splits)
qed

text \<open>The C string at a byte of the data, which is followed by \<open>post\<close>.\<close>

lemma c_str_from:
  assumes "drop off buf = d @ post" "k < length d"
  shows "c_str buf (off + k) =
    (if NUL \<in> set (drop k d @ post) then Some (takeWhile (\<lambda>c. c \<noteq> NUL) (drop k d @ post)) else None)"
proof -
  have "drop (off + k) buf = drop k d @ post"
    using assms by (simp flip: drop_drop add: add.commute [of off])
  then show ?thesis
    by (simp add: c_str_def)
qed

text \<open>
  Terminating the data: the byte behind it is NUL unless the data ends with one, and the data
  does not change. Only when the buffer is full up to its limit is there no room for it.
\<close>

lemma MakeSureEndWithNull_spec:
  assumes ok: "core_ok b" "m_pBuf b \<noteq> None"
    and room: "length (core_data b) < core_cap b \<or> core_data b \<noteq> [] \<and> last (core_data b) = NUL"
  obtains b' where "MakeSureEndWithNull junk b = Some (0, b')" "core_ok b'" "m_pBuf b' \<noteq> None"
    "core_data b' = core_data b" "core_cap b' = core_cap b"
    "core_data b \<noteq> [] \<Longrightarrow> \<exists>buf off. m_pBuf b' = Some buf \<and> m_nDataOff b' = int off \<and>
       (\<forall>k < length (core_data b). c_str buf (off + k) = Some (takeWhile (\<lambda>c. c \<noteq> NUL) (drop k (core_data b))))"
proof -
  obtain buf off l where f: "m_pBuf b = Some buf" "m_nDataOff b = int off" "m_nData b = int l"
    "off + l \<le> length buf" "core_data b = take l (drop off buf)" "length (core_data b) = l"
    by (rule core_some [OF ok])
  have split: "drop off buf = core_data b @ drop (off + l) buf"
    using f by (metis add.commute append_take_drop_id drop_drop)
  have last: "core_data b \<noteq> [] \<Longrightarrow> mem_get buf (off + l - 1) = Some (last (core_data b))"
    using f by (cases l) (auto simp: mem_get_def last_conv_nth)
  have idx: "0 < l \<Longrightarrow> c_size (int off + int l - 1) = Some (off + l - 1)"
    by (simp add: c_size_def nat_add_distrib nat_diff_distrib)
  show thesis
  proof (cases "core_data b \<noteq> [] \<and> last (core_data b) = NUL")
    case True
    then have "MakeSureEndWithNull junk b = Some (0, b)"
      using f idx last by (cases l) (auto simp: MakeSureEndWithNull_def)
    moreover have "c_str buf (off + k) = Some (takeWhile (\<lambda>c. c \<noteq> NUL) (drop k (core_data b)))"
      if k: "k < length (core_data b)" for k
    proof -
      have "NUL \<in> set (drop k (core_data b))"
        using True k last_in_set [of "drop k (core_data b)"] by simp
      then show ?thesis
        using k by (simp add: c_str_from [OF split] takeWhile_append1)
    qed
    ultimately show thesis
      using ok f by (intro that [of b]) auto
  next
    case False
    then have room: "length (core_data b) < core_cap b"
      using room by blast
    obtain b1 where b1: "CoreBuffer_WriteByte junk NUL b = Some (1, b1)" "core_ok b1" "m_pBuf b1 \<noteq> None"
        "core_data b1 = core_data b @ [NUL]" "core_cap b1 = core_cap b"
      by (rule CoreBuffer_WriteByte_spec [OF ok(1), of junk NUL]) (use room in auto)
    obtain b2 where b2: "CoreBuffer_ReverseEat (int 1) b1 = (0, b2)" "core_ok b2" "m_pBuf b2 = m_pBuf b1"
        "core_data b2 = take (length (core_data b1) - 1) (core_data b1)" "core_cap b2 = core_cap b1"
        "1 < length (core_data b1) \<Longrightarrow> m_nDataOff b2 = m_nDataOff b1"
      by (rule CoreBuffer_ReverseEat_spec [OF b1(2,3), of 1]) (use b1(4) in auto)
    have "MakeSureEndWithNull junk b = Some (0, b2)"
      using False f idx last b1(1) b2(1) by (cases l) (auto simp: MakeSureEndWithNull_def)
    moreover have "\<exists>buf off. m_pBuf b2 = Some buf \<and> m_nDataOff b2 = int off \<and>
        (\<forall>k < length (core_data b). c_str buf (off + k) = Some (takeWhile (\<lambda>c. c \<noteq> NUL) (drop k (core_data b))))"
      if ne: "core_data b \<noteq> []"
    proof -
      obtain buf1 off1 l1 where g: "m_pBuf b1 = Some buf1" "m_nDataOff b1 = int off1"
        "core_data b1 = take l1 (drop off1 buf1)"
        by (rule core_some [OF b1(2,3)])
      then have "drop off1 buf1 = core_data b @ NUL # drop l1 (drop off1 buf1)"
        by (metis append.assoc append_Cons append_Nil append_take_drop_id b1(4))
      then have "\<forall>k < length (core_data b). c_str buf1 (off1 + k) =
          Some (takeWhile (\<lambda>c. c \<noteq> NUL) (drop k (core_data b)))"
        by (simp add: c_str_from takeWhile_tail)
      moreover have "1 < length (core_data b1)"
        using ne by (cases "core_data b") (simp_all add: b1(4))
      ultimately show ?thesis
        using g b2(3) b2(6) by auto
    qed
    ultimately show thesis
      using b1 b2 by (intro that [of b2]) auto
  qed
qed

lemma MakeSureEndWithNull_any:
  assumes ok: "core_ok b" "m_pBuf b \<noteq> None"
  obtains r b' where "MakeSureEndWithNull junk b = Some (r, b')" "core_ok b'" "m_pBuf b' \<noteq> None"
    "core_data b' = core_data b" "core_cap b' = core_cap b"
proof (cases "length (core_data b) < core_cap b \<or> core_data b \<noteq> [] \<and> last (core_data b) = NUL")
  case True
  show thesis
    by (rule MakeSureEndWithNull_spec [OF ok True, of junk]) (rule that)
next
  case False
  obtain buf off l where f: "m_pBuf b = Some buf" "m_nDataOff b = int off" "m_nData b = int l"
    "off + l \<le> length buf" "core_data b = take l (drop off buf)" "length (core_data b) = l"
    by (rule core_some [OF ok])
  have last: "core_data b \<noteq> [] \<Longrightarrow> mem_get buf (off + l - 1) = Some (last (core_data b))"
    using f by (cases l) (auto simp: mem_get_def last_conv_nth)
  have idx: "0 < l \<Longrightarrow> c_size (int off + int l - 1) = Some (off + l - 1)"
    by (simp add: c_size_def nat_add_distrib nat_diff_distrib)
  obtain b1 where b1: "CoreBuffer_WriteByte junk NUL b = Some (0, b1)" "core_ok b1" "m_pBuf b1 \<noteq> None"
      "core_data b1 = core_data b" "core_cap b1 = core_cap b"
    by (rule CoreBuffer_WriteByte_spec [OF ok(1), of junk NUL]) (use False in auto)
  have "MakeSureEndWithNull junk b = Some (-1, b1)"
    using False f idx last b1(1) by (cases l) (auto simp: MakeSureEndWithNull_def)
  then show thesis
    using b1 by (intro that)
qed

section \<open>Reading lines\<close>

lemma strstr_LF_some:
  assumes "strstr s [LF] = Some k"
  shows "k < length s" "s ! k = LF" "LF \<notin> set (take k s)"
proof -
  show k: "k < length s"
    using strstr_Some_le [OF assms] by simp
  show "s ! k = LF"
    using strstr_Some_prefix [OF assms] k by (simp add: Cons_nth_drop_Suc [symmetric])
  show "LF \<notin> set (take k s)"
  proof
    assume "LF \<in> set (take k s)"
    then obtain j where "j < k" "s ! j = LF"
      by (auto simp: in_set_conv_nth)
    then show False
      using strstr_Some_first [OF assms \<open>j < k\<close>] k by (simp add: Cons_nth_drop_Suc [symmetric])
  qed
qed

lemma strstr_LF_line: "LF \<notin> set l \<Longrightarrow> strstr (l @ LF # r) [LF] = Some (length l)"
  by (induction l) auto

lemma strstr_LF_none: "LF \<notin> set s \<Longrightarrow> strstr s [LF] = None"
  by (induction s) auto

lemma ReadLine_spec:
  assumes ok: "core_ok b" "m_pBuf b \<noteq> None"
    and room: "length (core_data b) < core_cap b \<or> core_data b \<noteq> [] \<and> last (core_data b) = NUL"
  obtains b' where "ReadLine junk b =
      Some (if core_data b = [] then (-1, [], b')
        else case strstr (takeWhile (\<lambda>c. c \<noteq> NUL) (core_data b)) [LF] of
          Some k \<Rightarrow> (0, take k (core_data b), b') | None \<Rightarrow> (0, core_data b, b'))"
    "core_ok b'" "m_pBuf b' \<noteq> None" "core_cap b' = core_cap b"
    "core_data b' = (case strstr (takeWhile (\<lambda>c. c \<noteq> NUL) (core_data b)) [LF] of
        Some k \<Rightarrow> drop (Suc k) (core_data b) | None \<Rightarrow> [])"
proof -
  let ?d = "core_data b" and ?s = "takeWhile (\<lambda>c. c \<noteq> NUL) (core_data b)"
  obtain b1 where b1: "MakeSureEndWithNull junk b = Some (0, b1)" "core_ok b1" "m_pBuf b1 \<noteq> None"
    "core_data b1 = ?d" "core_cap b1 = core_cap b"
    "?d \<noteq> [] \<Longrightarrow> \<exists>buf off. m_pBuf b1 = Some buf \<and> m_nDataOff b1 = int off \<and> c_str buf off = Some ?s"
    by (rule MakeSureEndWithNull_spec [OF ok room]) (rule that; force)
  obtain buf off l where f: "m_pBuf b1 = Some buf" "m_nDataOff b1 = int off" "m_nData b1 = int l"
    "off + l \<le> length buf" "core_data b1 = take l (drop off buf)" "length (core_data b1) = l"
    by (rule core_some [OF b1(2,3)])
  show thesis
  proof (cases "?d = []")
    case True
    moreover from this have "l = 0"
      using f(6) b1(4) by simp
    ultimately show thesis
      using b1 f by (intro that [of b1]) (simp_all add: ReadLine_def)
  next
    case False
    then have l: "0 < l" and cs: "c_str buf off = Some ?s"
      using b1(4,6) f by auto
    have read: "mem_read buf off k = Some (take k ?d)" if "k \<le> l" for k
      using that f b1(4) by (simp add: mem_read_def min_def)
    show thesis
    proof (cases "strstr ?s [LF]")
      case None
      obtain b2 where b2: "CoreBuffer_Eat (int l) b1 = Some (0, b2)" "core_ok b2" "m_pBuf b2 \<noteq> None"
          "core_data b2 = drop l (core_data b1)" "core_cap b2 = core_cap b1"
        by (rule CoreBuffer_Eat_spec [OF b1(2,3), of l]) (use f in auto)
      have "take l ?d = ?d" "drop l ?d = []"
        using f(6) b1(4) by simp_all
      then have "ReadLine junk b = Some (0, ?d, b2)"
        using b1(1) f(1,2,3) cs None l read [of l] b2(1) by (simp add: ReadLine_def)
      then show thesis
        using b2 b1(4,5) False None \<open>drop l ?d = []\<close> by (intro that [of b2]) simp_all
    next
      case (Some k)
      then have k: "Suc k \<le> l"
        using strstr_LF_some(1) [OF Some] length_takeWhile_le [of "\<lambda>c. c \<noteq> NUL" ?d] f(6) b1(4) by simp
      obtain b2 where b2: "CoreBuffer_Eat (int (Suc k)) b1 = Some (0, b2)" "core_ok b2" "m_pBuf b2 \<noteq> None"
          "core_data b2 = drop (Suc k) (core_data b1)" "core_cap b2 = core_cap b1"
        by (rule CoreBuffer_Eat_spec [OF b1(2,3), of "Suc k"]) (use f k in auto)
      have eat: "CoreBuffer_Eat (int k + 1) b1 = Some (0, b2)"
        using b2(1) by (simp add: add.commute)
      have "ReadLine junk b = Some (0, take k ?d, b2)"
        using b1(1) f(1,2,3) cs Some l read [of k] k eat by (simp add: ReadLine_def)
      then show thesis
        using b2 b1(4,5) False Some by (intro that [of b2]) simp_all
    qed
  qed
qed

text \<open>The lines that successive calls return, until one fails.\<close>

fun read_lines :: "(nat \<Rightarrow> char) \<Rightarrow> nat \<Rightarrow> CoreBuffer \<Rightarrow> (string list \<times> CoreBuffer) option" where
  "read_lines junk 0 b = Some ([], b)"
| "read_lines junk (Suc n) b = do {
     (ret, line, b) \<leftarrow> ReadLine junk b;
     (if ret \<noteq> 0 then Some ([], b)
      else do { (ls, b) \<leftarrow> read_lines junk n b; Some (line # ls, b) })
   }"

lemma read_lines_text:
  assumes "core_ok b" "m_pBuf b \<noteq> None" "core_data b = concat (map (\<lambda>l. l @ [LF]) ls)"
    "length (core_data b) < core_cap b" "\<forall>l\<in>set ls. LF \<notin> set l \<and> NUL \<notin> set l" "length ls < n"
  shows "\<exists>b'. read_lines junk n b = Some (ls, b') \<and> core_ok b' \<and> core_data b' = []"
  using assms
proof (induction ls arbitrary: b n)
  case Nil
  then obtain k where n: "n = Suc k"
    by (cases n) auto
  obtain b' where "ReadLine junk b = Some (-1, [], b')" "core_ok b'" "core_data b' = []"
    by (rule ReadLine_spec [OF Nil.prems(1,2), of junk]) (use Nil.prems in auto)
  then show ?case
    by (simp add: n)
next
  case (Cons l ls)
  then obtain k where n: "n = Suc k" "length ls < k"
    by (cases n) auto
  let ?r = "concat (map (\<lambda>l. l @ [LF]) ls)"
  have d: "core_data b = l @ LF # ?r"
    using Cons.prems(3) by simp
  have "takeWhile (\<lambda>c. c \<noteq> NUL) (core_data b) = l @ LF # takeWhile (\<lambda>c. c \<noteq> NUL) ?r"
    unfolding d by (subst takeWhile_append2) (use Cons.prems(5) in auto)
  then have s: "strstr (takeWhile (\<lambda>c. c \<noteq> NUL) (core_data b)) [LF] = Some (length l)"
    using Cons.prems(5) by (simp add: strstr_LF_line)
  obtain b1 where b1: "ReadLine junk b = Some (0, l, b1)" "core_ok b1" "m_pBuf b1 \<noteq> None"
      "core_cap b1 = core_cap b" "core_data b1 = ?r"
    by (rule ReadLine_spec [OF Cons.prems(1,2), of junk]) (use Cons.prems(4) s d in auto)
  have "\<exists>b'. read_lines junk k b1 = Some (ls, b') \<and> core_ok b' \<and> core_data b' = []"
    using Cons.prems(4,5) d n(2) b1 by (intro Cons.IH) auto
  then show ?case
    using b1(1) n(1) by auto
qed


section \<open>A bounded queue of bytes\<close>

datatype core_op =
    CWrite "char list"
  | CWriteByte char
  | CEat nat
  | CReverseEat nat
  | CClear
  | CMoveToHead

fun run_core_op :: "(nat \<Rightarrow> char) \<Rightarrow> core_op \<Rightarrow> CoreBuffer \<Rightarrow> CoreBuffer option" where
  "run_core_op junk (CWrite xs) b = map_option snd (CoreBuffer_Write junk (Some xs) (int (length xs)) b)"
| "run_core_op junk (CWriteByte c) b = map_option snd (CoreBuffer_WriteByte junk c b)"
| "run_core_op junk (CEat n) b = map_option snd (CoreBuffer_Eat (int n) b)"
| "run_core_op junk (CReverseEat n) b = Some (snd (CoreBuffer_ReverseEat (int n) b))"
| "run_core_op junk CClear b = Some (CoreBuffer_clear b)"
| "run_core_op junk CMoveToHead b = CoreBuffer_MoveToHead b"

fun run_core_ops :: "(nat \<Rightarrow> char) \<Rightarrow> core_op list \<Rightarrow> CoreBuffer \<Rightarrow> CoreBuffer option" where
  "run_core_ops junk [] b = Some b"
| "run_core_ops junk (p # ps) b = do { b \<leftarrow> run_core_op junk p b; run_core_ops junk ps b }"

text \<open>What the operations mean: a list of at most \<open>cap\<close> bytes.\<close>

fun queue_op :: "nat \<Rightarrow> char list \<Rightarrow> core_op \<Rightarrow> char list" where
  "queue_op cap d (CWrite xs) = d @ take (cap - length d) xs"
| "queue_op cap d (CWriteByte c) = d @ take (cap - length d) [c]"
| "queue_op cap d (CEat n) = (if n \<le> length d then drop n d else d)"
| "queue_op cap d (CReverseEat n) = (if n \<le> length d then take (length d - n) d else d)"
| "queue_op cap d CClear = []"
| "queue_op cap d CMoveToHead = d"

fun op_small :: "nat \<Rightarrow> core_op \<Rightarrow> bool" where
  "op_small cap (CWrite xs) = (cap + length xs < 2 ^ 31)"
| "op_small cap _ = True"

lemma run_core_op_spec:
  assumes ok: "core_ok b" "m_pBuf b \<noteq> None" and small: "op_small (core_cap b) p"
  shows "\<exists>b'. run_core_op junk p b = Some b' \<and> core_ok b' \<and> m_pBuf b' \<noteq> None \<and>
    core_cap b' = core_cap b \<and> core_data b' = queue_op (core_cap b) (core_data b) p"
proof (cases p)
  case (CWrite xs)
  have "length (core_data b) + length xs < 2 ^ 31"
    using small core_data_le [OF ok(1)] by (simp add: CWrite)
  then obtain b' where "CoreBuffer_Write junk (Some xs) (int (length xs)) b =
      Some (int (min (length xs) (core_cap b - length (core_data b))), b')" "core_ok b'"
    "core_data b' = core_data b @ take (min (length xs) (core_cap b - length (core_data b))) xs"
    "core_cap b' = core_cap b" "m_pBuf b' \<noteq> None"
    using CoreBuffer_Write_spec [OF ok(1), of "length xs" xs junk] ok(2) by auto
  then show ?thesis
    by (auto simp: CWrite min_def)
next
  case (CWriteByte c)
  obtain b' where "CoreBuffer_WriteByte junk c b =
      Some (if length (core_data b) < core_cap b then 1 else 0, b')" "core_ok b'" "m_pBuf b' \<noteq> None"
    "core_data b' = core_data b @ (if length (core_data b) < core_cap b then [c] else [])"
    "core_cap b' = core_cap b"
    by (rule CoreBuffer_WriteByte_spec [OF ok(1), of junk c]) (rule that)
  then show ?thesis
    by (auto simp: CWriteByte)
next
  case (CEat n)
  show ?thesis
  proof (cases "n \<le> length (core_data b)")
    case True
    show ?thesis
      by (rule CoreBuffer_Eat_spec [OF ok True]) (use True in \<open>auto simp: CEat\<close>)
  next
    case False
    then show ?thesis
      using ok CoreBuffer_Eat_too_many [OF ok(1), of n] by (simp add: CEat)
  qed
next
  case (CReverseEat n)
  show ?thesis
  proof (cases "n \<le> length (core_data b)")
    case True
    show ?thesis
      by (rule CoreBuffer_ReverseEat_spec [OF ok True]) (use ok True in \<open>auto simp: CReverseEat\<close>)
  next
    case False
    then show ?thesis
      using ok CoreBuffer_ReverseEat_too_many [OF ok(1), of n] by (simp add: CReverseEat)
  qed
next
  case CClear
  then show ?thesis
    using CoreBuffer_clear_spec [OF ok(1)] ok by simp
next
  case CMoveToHead
  obtain b' where "CoreBuffer_MoveToHead b = Some b'" "core_ok b'" "core_data b' = core_data b"
    "core_cap b' = core_cap b" "m_pBuf b' \<noteq> None"
    by (rule CoreBuffer_MoveToHead_spec [OF ok(1)]) (use ok(2) in auto)
  then show ?thesis
    by (simp add: CMoveToHead)
qed

lemma run_core_ops_spec:
  assumes "core_ok b" "m_pBuf b \<noteq> None" "\<forall>p\<in>set ps. op_small (core_cap b) p"
  shows "\<exists>b'. run_core_ops junk ps b = Some b' \<and> core_ok b' \<and> m_pBuf b' \<noteq> None \<and> core_cap b' = core_cap b \<and>
    core_data b' = foldl (queue_op (core_cap b)) (core_data b) ps"
  using assms
proof (induction ps arbitrary: b)
  case (Cons p ps)
  obtain b1 where b1: "run_core_op junk p b = Some b1" "core_ok b1" "m_pBuf b1 \<noteq> None"
      "core_cap b1 = core_cap b" "core_data b1 = queue_op (core_cap b) (core_data b) p"
    using run_core_op_spec [OF Cons.prems(1,2), of p junk] Cons.prems(3) by auto
  with Cons.IH [OF b1(2,3)] Cons.prems(3) show ?case
    by simp
qed simp

text \<open>
  C17 The byte buffer is a bounded queue. Whatever sequence of writes, reads from either end,
  clearings and moves is run on a buffer that has memory, no access leaves its array and no
  \<^verbatim>\<open>int\<close> overflows (as long as no single write is larger than the rest of the \<^verbatim>\<open>int\<close> range):
  the bytes it holds are those of a queue of the buffer's maximal size that cuts off what does
  not fit, across every growth and move of the array.
\<close>

theorem core_buffer_is_queue:
  assumes "core_ok b" "m_pBuf b \<noteq> None" "\<forall>p\<in>set ps. op_small (core_cap b) p"
  shows "\<exists>b'. run_core_ops junk ps b = Some b' \<and> core_ok b' \<and> core_cap b' = core_cap b \<and>
    core_data b' = foldl (queue_op (core_cap b)) (core_data b) ps"
  using run_core_ops_spec [OF assms] by blast

lemma core_buffer_is_queue_witness:
  "\<exists>b'. run_core_ops (\<lambda>n. NUL) [CWrite ''abcdef'', CEat 2, CWriteByte CHR ''g'', CReverseEat 1, CWrite ''hi'']
     (snd (SetBufferSize (\<lambda>n. NUL) 2 6 new_buffer)) = Some b' \<and> core_data b' = ''cdefhi''"
proof -
  obtain b where b: "SetBufferSize (\<lambda>n. NUL) 2 6 new_buffer = (0, b)" "core_ok b" "core_data b = []"
      "core_cap b = 6" "m_pBuf b \<noteq> None"
    using SetBufferSize_spec [of new_buffer 2 6 "\<lambda>n. NUL"] by (auto simp: new_buffer_def)
  from core_buffer_is_queue [OF b(2,5), of "[CWrite ''abcdef'', CEat 2, CWriteByte CHR ''g'', CReverseEat 1, CWrite ''hi'']" "\<lambda>n. NUL"]
  show ?thesis
    by (auto simp: b)
qed

text \<open>
  Lines come back. A text of lines (none of which contains a line feed or a NUL) that is in
  a buffer with room for one more byte is read back line by line, and leaves the buffer empty.
\<close>

theorem core_lines_roundtrip:
  assumes "core_ok b" "m_pBuf b \<noteq> None" "core_data b = []"
    and "\<forall>l\<in>set ls. LF \<notin> set l \<and> NUL \<notin> set l"
    and "length (concat (map (\<lambda>l. l @ [LF]) ls)) < core_cap b" "core_cap b \<le> 2 ^ 30"
  shows "\<exists>b'. (do { b \<leftarrow> run_core_ops junk (map (\<lambda>l. CWrite (l @ [LF])) ls) b;
                  read_lines junk (Suc (length ls)) b }) = Some (ls, b') \<and> core_data b' = []"
proof -
  let ?ps = "map (\<lambda>l. CWrite (l @ [LF])) ls" and ?t = "concat (map (\<lambda>l. l @ [LF]) ls)"
  have fits: "foldl (queue_op (core_cap b)) d (map (\<lambda>l. CWrite (l @ [LF])) ks) =
      d @ concat (map (\<lambda>l. l @ [LF]) ks)"
    if "length d + length (concat (map (\<lambda>l. l @ [LF]) ks)) \<le> core_cap b" for d ks
    using that by (induction ks arbitrary: d) auto
  have "length (l @ [LF]) \<le> length ?t" if "l \<in> set ls" for l
    using that by (induction ls) auto
  then have "core_cap b + length (l @ [LF]) < 2 ^ 31" if "l \<in> set ls" for l
  proof -
    have "length (l @ [LF]) \<le> length ?t"
      using that \<open>\<And>l. l \<in> set ls \<Longrightarrow> length (l @ [LF]) \<le> length ?t\<close> by blast
    then have "length (l @ [LF]) < 2 ^ 30"
      using assms(5,6) by linarith
    moreover have "(2::nat) ^ 31 = 2 ^ 30 + 2 ^ 30"
      by simp
    ultimately show ?thesis
      using assms(6) by linarith
  qed
  then have run_small: "\<forall>p\<in>set ?ps. op_small (core_cap b) p"
    by simp
  obtain b1 where b1: "run_core_ops junk ?ps b = Some b1" "core_ok b1" "core_cap b1 = core_cap b"
      "core_data b1 = ?t" "m_pBuf b1 \<noteq> None"
    using run_core_ops_spec [OF assms(1,2) run_small, of junk] fits [of "[]" ls] assms(3,5) by auto
  have "\<exists>b'. read_lines junk (Suc (length ls)) b1 = Some (ls, b') \<and> core_ok b' \<and> core_data b' = []"
    using b1 assms(4,5) by (intro read_lines_text) auto
  then show ?thesis
    using b1(1) by auto
qed

lemma full_shape:
  assumes ok: "core_ok b" "m_pBuf b \<noteq> None" and full: "length (core_data b) = core_cap b"
  shows "m_pBuf b = Some (core_data b)" "m_nDataOff b = 0" "m_nData b = int (core_cap b)"
    "m_cbBuf b = int (core_cap b)" "core_data b \<noteq> []" "core_cap b < 2 ^ 31 - 8192"
proof -
  obtain buf off l where f: "m_pBuf b = Some buf" "m_nDataOff b = int off" "m_nData b = int l"
    "m_cbBuf b = int (length buf)" "0 < length buf" "off + l \<le> length buf" "m_cbMaxBuf b = int (core_cap b)"
    "length buf \<le> core_cap b" "core_cap b < 2 ^ 31 - 8192" "core_data b = take l (drop off buf)"
    "length (core_data b) = l" "l = 0 \<longrightarrow> off = 0"
    by (rule core_some [OF ok])
  have "l = core_cap b"
    using f(11) full by simp
  moreover from this have "off = 0" "length buf = core_cap b"
    using f(6,8) by simp_all
  moreover from calculation have "core_data b = buf"
    using f(10) by simp
  ultimately show "m_pBuf b = Some (core_data b)" "m_nDataOff b = 0" "m_nData b = int (core_cap b)"
    "m_cbBuf b = int (core_cap b)" "core_data b \<noteq> []" "core_cap b < 2 ^ 31 - 8192"
    using f by auto
qed

text \<open>
  A full buffer has no room for the terminator. When a buffer is full up to its limit and
  holds no NUL, \<^verbatim>\<open>IsEndWithNull\<close> says that it ends with one, and \<^verbatim>\<open>ReadLine\<close>, which ignores that
  \<^verbatim>\<open>MakeSureEndWithNull\<close> failed, searches past the end of the array.
\<close>

theorem full_buffer_unterminated:
  assumes "core_ok b" "m_pBuf b \<noteq> None" "length (core_data b) = core_cap b" "NUL \<notin> set (core_data b)"
  shows "IsEndWithNull b = Some True \<and> ReadLine junk b = None"
proof -
  let ?d = "core_data b" and ?cap = "core_cap b"
  note f = full_shape [OF assms(1-3)]
  have pos: "0 < ?cap"
    using f(5) assms(3) by (metis length_greater_0_conv)
  obtain b1 where b1: "CoreBuffer_WriteByte junk NUL b = Some (0, b1)" "core_ok b1" "m_pBuf b1 \<noteq> None"
      "core_data b1 = ?d" "core_cap b1 = ?cap"
    by (rule CoreBuffer_WriteByte_spec [OF assms(1), of junk NUL]) (use assms(3) in auto)
  have f1: "m_pBuf b1 = Some ?d" "m_nDataOff b1 = 0" "m_nData b1 = int ?cap"
    using full_shape [OF b1(2,3)] assms(3) by (simp_all add: b1(4,5))
  have "mem_get ?d (?cap - 1) = Some (last ?d)"
    using f(5) assms(3) pos by (simp add: mem_get_def last_conv_nth)
  moreover have "last ?d \<noteq> NUL"
    using assms(4) f(5) last_in_set by metis
  moreover have "c_size (int ?cap - 1) = Some (?cap - 1)"
    using pos by (simp add: c_size_def nat_diff_distrib)
  ultimately have "MakeSureEndWithNull junk b = Some (-1, b1)"
    using f pos b1(1) by (simp add: MakeSureEndWithNull_def)
  moreover have "c_str ?d 0 = None"
    using assms(4) by (simp add: c_str_def)
  moreover have "c_size 0 = Some 0"
    by (simp add: c_size_def)
  ultimately have "ReadLine junk b = None"
    using f1 pos by (simp add: ReadLine_def)
  moreover have "IsEndWithNull b = Some True"
    using f by (simp add: IsEndWithNull_def)
  ultimately show ?thesis
    by blast
qed

lemma full_buffer_unterminated_witness:
  "ReadLine (\<lambda>n. NUL) \<lparr>m_pBuf = Some ''full'', m_cbBuf = 4, m_cbMaxBuf = 4, m_nDataOff = 0, m_nData = 4\<rparr> = None"
  using full_buffer_unterminated
    [of "\<lparr>m_pBuf = Some ''full'', m_cbBuf = 4, m_cbMaxBuf = 4, m_nDataOff = 0, m_nData = 4\<rparr>" "\<lambda>n. NUL"]
  by (simp add: core_ok_def core_data_def core_cap_def)

lemma core_lines_roundtrip_witness:
  "\<exists>b'. (do { b \<leftarrow> run_core_ops (\<lambda>n. NUL) [CWrite (''GET /'' @ [LF]), CWrite ([LF])]
                       (snd (SetBufferSize (\<lambda>n. NUL) 2 16 new_buffer));
               read_lines (\<lambda>n. NUL) 3 b }) = Some ([''GET /'', []], b')"
proof -
  obtain b where b: "SetBufferSize (\<lambda>n. NUL) 2 16 new_buffer = (0, b)" "core_ok b" "core_data b = []"
      "core_cap b = 16" "m_pBuf b \<noteq> None"
    using SetBufferSize_spec [of new_buffer 2 16 "\<lambda>n. NUL"] by (auto simp: new_buffer_def)
  from core_lines_roundtrip [OF b(2,5,3), of "[''GET /'', []]" "\<lambda>n. NUL"] show ?thesis
    by (auto simp: b numeral_3_eq_3)
qed

text \<open>\<^verbatim>\<open>PrepareBuf\<close> on a buffer that has no array yet.\<close>

lemma PrepareBuf_new:
  assumes n: "0 < uint n" "uint n < 2 ^ 31 - 8192"
  obtains b buf where "PrepareBuf junk n False new_buffer = Some (0, b)" "core_ok b" "core_data b = []"
    "core_cap b = max (unat n) 16777216" "m_pBuf b = Some buf" "length buf = unat n" "m_nDataOff b = 0"
    "m_nData b = 0" "m_cbBuf b = int (length buf)"
proof -
  have e: "CoreBuffer_clear new_buffer = new_buffer" "CoreBuffer_EmptyEx new_buffer = new_buffer"
    by (simp_all add: new_buffer_def CoreBuffer_clear_def CoreBuffer_EmptyEx_def)
  have "nat (uint n) < nat (2 ^ 31 - 8192)" "0 < nat (uint n)"
    using n by (simp_all only: nat_mono_iff zero_less_nat_eq)
  moreover have "nat (2 ^ 31 - 8192) = 2 ^ 31 - 8192"
    by simp
  ultimately have un: "0 < unat n" "unat n < 2 ^ 31 - 8192"
    by (simp_all only: unat_eq_nat_uint)
  have "signed_take_bit 31 (uint n) = uint n"
    using n by (intro signed_take_bit_int_eq_self) (auto intro: order.trans [of _ 0])
  then have "sint n = int (unat n)"
    by (simp add: sint_uint)
  then have "GetFreeSize new_buffer < sint n"
    using n(1) by (simp add: GetFreeSize_def new_buffer_def)
  then have prep: "PrepareBuf junk n False new_buffer = Some (SetBufferSize junk n default_max new_buffer)"
    by (simp add: PrepareBuf_def e split_def)
  obtain b where b: "SetBufferSize junk n default_max new_buffer = (0, b)" "core_ok b" "core_data b = []"
      "core_cap b = max (unat n) (unat default_max)" "m_pBuf b \<noteq> None" "m_cbBuf b = int (unat n)"
    using SetBufferSize_spec [of new_buffer n default_max junk] un by (auto simp: new_buffer_def default_max_def)
  have cap: "unat default_max = 16777216"
    by (simp add: default_max_def)
  obtain buf where buf: "m_pBuf b = Some buf"
    using b(5) by auto
  have new: "m_nDataOff b = 0" "m_nData b = 0" "buf = new_bytes junk (unat n)"
    using b(1) buf by (auto simp: SetBufferSize_def new_buffer_def)
  have len: "length buf = unat n"
    by (simp add: new(3) new_bytes_def)
  show thesis
    by (rule that [OF _ b(2,3) _ buf len new(1,2)]) (simp_all only: prep b(1,4,6) cap len)
qed

end
