(* ===== verification/CoreHex.thy ===== *)
theory CoreHex
  imports CoreBufferOps
begin

text \<open>
  Text and number encodings of bytes: hexadecimal text into a buffer
  (\<^verbatim>\<open>src/src/core/base/bytetool.cpp\<close>, \<^verbatim>\<open>ByteBuffer::AppendHex\<close>, with the replacement of
  \<^verbatim>\<open>stringtool.cpp\<close> that cleans the text), and binary-coded decimals
  (\<^verbatim>\<open>src/src/core/base/bcdtool.cpp\<close>).
\<close>

section \<open>Cleaning the text\<close>

text \<open>
  \<^verbatim>\<open>StringTool::Replace\<close>: every occurrence from left to right; the search goes on behind
  what was put in.
\<close>

function str_replace :: "string \<Rightarrow> string \<Rightarrow> string \<Rightarrow> string" where
  "str_replace obj src dst =
     (if src = [] then obj
      else (case strstr obj src of None \<Rightarrow> obj
            | Some pos \<Rightarrow> take pos obj @ dst @ str_replace (drop (pos + length src) obj) src dst))"
  by pat_completeness auto
termination
proof (relation "measure (\<lambda>(obj, src, dst). length obj)")
  fix obj src :: string and dst :: string and pos
  assume "src \<noteq> []" "strstr obj src = Some pos"
  then have "pos + length src \<le> length obj" "0 < length src"
    using strstr_Some_le by auto
  then have "length (drop (pos + length src) obj) < length obj"
    unfolding length_drop by linarith
  then show "((drop (pos + length src) obj, src, dst), (obj, src, dst)) \<in> measure (\<lambda>(obj, src, dst). length obj)"
    by simp
qed simp

declare str_replace.simps [simp del]

abbreviation TAB :: char where "TAB \<equiv> CHR 0x09"

definition wide_comma :: string where
  "wide_comma = [CHR 0xEF, CHR 0xBC, CHR 0x8C]"

definition makeHexPretty :: "string \<Rightarrow> string" where
  "makeHexPretty hex =
     (let hex = str_replace hex [CR] [];
          hex = str_replace hex [LF] [];
          hex = str_replace hex '' '' [];
          hex = str_replace hex [TAB] [];
          hex = str_replace hex '','' []
      in str_replace hex wide_comma [])"

lemma str_replace_char: "str_replace s [c] [] = filter (\<lambda>x. x \<noteq> c) s"
proof (induction "length s" arbitrary: s rule: less_induct)
  case less
  show ?case
  proof (cases "strstr s [c]")
    case None
    have "x \<noteq> c" if "x \<in> set s" for x
    proof
      assume "x = c"
      with that obtain j where "j < length s" "s ! j = c"
        by (auto simp: in_set_conv_nth)
      then show False
        using strstr_None [OF None, of j] by (simp add: Cons_nth_drop_Suc [symmetric])
    qed
    then have "filter (\<lambda>x. x \<noteq> c) s = s"
      by (simp add: filter_id_conv)
    then show ?thesis
      by (subst str_replace.simps) (simp add: None)
  next
    case (Some k)
    have k: "k < length s"
      using strstr_Some_le [OF Some] by simp
    have s: "s = take k s @ c # drop (Suc k) s"
      using strstr_split [OF Some] by simp
    have "x \<noteq> c" if "x \<in> set (take k s)" for x
    proof
      assume "x = c"
      with that obtain j where "j < k" "s ! j = c"
        by (auto simp: in_set_conv_nth)
      then show False
        using strstr_Some_first [OF Some, of j] k by (simp add: Cons_nth_drop_Suc [symmetric])
    qed
    then have "filter (\<lambda>x. x \<noteq> c) (take k s) = take k s"
      by (simp add: filter_id_conv)
    then have "filter (\<lambda>x. x \<noteq> c) s = take k s @ filter (\<lambda>x. x \<noteq> c) (drop (Suc k) s)"
      by (subst s) simp
    moreover have "str_replace (drop (Suc k) s) [c] [] = filter (\<lambda>x. x \<noteq> c) (drop (Suc k) s)"
      using k by (intro less) simp
    ultimately show ?thesis
      by (subst str_replace.simps) (simp add: Some)
  qed
qed

lemma str_replace_none: "strstr s src = None \<Longrightarrow> str_replace s src dst = s"
  by (subst str_replace.simps) simp

definition hex_blank :: "char \<Rightarrow> bool" where
  "hex_blank c \<longleftrightarrow> c \<in> {CR, LF, CHR '' '', TAB, CHR '',''}"

lemma makeHexPretty_spec:
  assumes "\<forall>c\<in>set (filter (\<lambda>c. \<not> hex_blank c) s). c \<noteq> CHR 0xEF"
  shows "makeHexPretty s = filter (\<lambda>c. \<not> hex_blank c) s"
proof -
  let ?f = "filter (\<lambda>c. \<not> hex_blank c) s"
  have "strstr ?f wide_comma = None"
  proof (rule ccontr)
    assume "strstr ?f wide_comma \<noteq> None"
    then obtain k where k: "strstr ?f wide_comma = Some k"
      by blast
    have "set wide_comma \<subseteq> set ?f"
      by (subst strstr_split [OF k]) auto
    then show False
      using assms by (auto simp: wide_comma_def)
  qed
  then show ?thesis
    by (simp add: makeHexPretty_def str_replace_char str_replace_none hex_blank_def Let_def conj_commute conj_left_commute)
qed

section \<open>Hexadecimal text into a buffer\<close>

text \<open>The loop of \<^verbatim>\<open>HexString2Bin\<close>: two characters to a byte, until fewer than two are left.\<close>

fun hex_write :: "(nat \<Rightarrow> char) \<Rightarrow> string \<Rightarrow> CoreBuffer \<Rightarrow> CoreBuffer option" where
  "hex_write junk (c0 # c1 # pSrc) box = do {
     ch0 \<leftarrow> tolower c0;
     ch1 \<leftarrow> tolower c1;
     (_, box) \<leftarrow> CoreBuffer_WriteByte junk (char_of (hex_value ch0 * 16 + hex_value ch1)) box;
     hex_write junk pSrc box
   }"
| "hex_write junk _ box = Some box"

definition HexString2Bin :: "(nat \<Rightarrow> char) \<Rightarrow> string \<Rightarrow> CoreBuffer \<Rightarrow> CoreBuffer option" where
  "HexString2Bin junk hexString box =
     hex_write junk (takeWhile (\<lambda>c. c \<noteq> NUL) (makeHexPretty hexString)) box"

definition HexString2Bin_c :: "(nat \<Rightarrow> char) \<Rightarrow> string option \<Rightarrow> CoreBuffer \<Rightarrow> CoreBuffer option" where
  "HexString2Bin_c junk hexString box =
     (case hexString of None \<Rightarrow> Some box
      | Some s \<Rightarrow> if s = [] then Some box else HexString2Bin junk (str_replace s '' '' []) box)"

text \<open>\<^verbatim>\<open>ByteTool::HexCharToByte\<close> into an array, and \<^verbatim>\<open>ByteBuffer::AppendHex\<close>, which decodes into a buffer of its own.\<close>

definition ByteTool_HexCharToByte ::
  "string option \<Rightarrow> memory option \<Rightarrow> int \<Rightarrow> (int \<times> memory option) option" where
  "ByteTool_HexCharToByte pSrc pDst cbDst =
     (case (pSrc, pDst) of
        (Some s, Some d) \<Rightarrow>
          (if cbDst < 0 then None
           else do {
             d \<leftarrow> memset d 0 NUL (nat cbDst);
             d \<leftarrow> hex_loop s d 0 (nat cbDst);
             Some (0, Some d)
           })
      | _ \<Rightarrow> Some (-1, pDst))"

definition AppendHex ::
  "(nat \<Rightarrow> char) \<Rightarrow> string \<Rightarrow> bool \<Rightarrow> CoreBuffer \<Rightarrow> (int \<times> CoreBuffer) option" where
  "AppendHex junk hex makeSureEndNull b = do {
     (_, buf) \<leftarrow> PrepareBuf junk (of_nat (length hex)) False new_buffer;
     (_, mem) \<leftarrow> ByteTool_HexCharToByte (Some (takeWhile (\<lambda>c. c \<noteq> NUL) hex)) (m_pBuf buf) (GetFreeSize buf);
     (_, buf) \<leftarrow> WriteDirect (int (length hex div 2)) (buf\<lparr>m_pBuf := mem\<rparr>);
     CoreBuffer_Append junk buf makeSureEndNull b
   }"

text \<open>\<^verbatim>\<open>ByteTool::ByteToHexChar\<close>: two lower-case digits a byte, appended with \<^verbatim>\<open>strcat\<close>.\<close>

definition hex_lower :: "char \<Rightarrow> string" where
  "hex_lower c = map to_lower (hex_fixed 2 (of_char c))"

definition strcat :: "memory \<Rightarrow> string \<Rightarrow> memory option" where
  "strcat m s = do { t \<leftarrow> c_str m 0; memcpy m (length t) (s @ [NUL]) }"

fun cat_hex :: "char list \<Rightarrow> memory \<Rightarrow> memory option" where
  "cat_hex [] pDst = Some pDst"
| "cat_hex (c # pByte) pDst = do { pDst \<leftarrow> strcat pDst (hex_lower c); cat_hex pByte pDst }"

definition ByteTool_ByteToHexChar :: "char list \<Rightarrow> memory \<Rightarrow> int \<Rightarrow> (int \<times> memory) option" where
  "ByteTool_ByteToHexChar pByte pDst cbDst =
     (if cbDst < 0 then None
      else do {
        pDst \<leftarrow> memset pDst 0 NUL (nat cbDst);
        (if cbDst \<le> int (length pByte) * 2 then Some (-1, pDst)
         else do {
           pDst \<leftarrow> mem_set pDst 0 NUL;
           pDst \<leftarrow> cat_hex pByte pDst;
           Some (0, pDst)
         })
      })"

section \<open>A byte sink\<close>

text \<open>What the hexadecimal reader needs of the buffer: a byte that fits is appended.\<close>

locale byte_sink =
  fixes inv :: "'b \<Rightarrow> bool" and data :: "'b \<Rightarrow> char list" and cap :: "'b \<Rightarrow> nat"
    and put :: "char \<Rightarrow> 'b \<Rightarrow> (int \<times> 'b) option"
  assumes put_law: "inv b \<Longrightarrow> \<exists>r b'. put c b = Some (r, b') \<and> inv b' \<and> cap b' = cap b \<and>
      data b' = data b @ take (cap b - length (data b)) [c]"
    and data_le: "inv b \<Longrightarrow> length (data b) \<le> cap b"
begin

fun put_all :: "char list \<Rightarrow> 'b \<Rightarrow> 'b option" where
  "put_all [] b = Some b"
| "put_all (c # cs) b = do { (_, b) \<leftarrow> put c b; put_all cs b }"

lemma put_all_spec:
  "inv b \<Longrightarrow> \<exists>b'. put_all cs b = Some b' \<and> inv b' \<and> cap b' = cap b \<and>
     data b' = data b @ take (cap b - length (data b)) cs"
proof (induction cs arbitrary: b)
  case (Cons c cs)
  obtain r b1 where b1: "put c b = Some (r, b1)" "inv b1" "cap b1 = cap b"
      "data b1 = data b @ take (cap b - length (data b)) [c]"
    using put_law [OF Cons.prems] by blast
  have "data b1 @ take (cap b1 - length (data b1)) cs = data b @ take (cap b - length (data b)) (c # cs)"
  proof (cases "cap b - length (data b)")
    case 0
    then show ?thesis
      by (simp add: b1(3,4))
  next
    case (Suc n)
    then have "cap b - Suc (length (data b)) = n"
      by linarith
    with Suc show ?thesis
      by (simp add: b1(3,4))
  qed
  then show ?case
    using Cons.IH [OF b1(2)] b1(1,3) by auto
qed simp

end

interpretation cbs: byte_sink core_ok core_data core_cap "CoreBuffer_WriteByte junk" for junk
proof unfold_locales
  fix b c
  assume ok: "core_ok b"
  show "\<exists>r b'. CoreBuffer_WriteByte junk c b = Some (r, b') \<and> core_ok b' \<and> core_cap b' = core_cap b \<and>
      core_data b' = core_data b @ take (core_cap b - length (core_data b)) [c]"
    by (rule CoreBuffer_WriteByte_spec [OF ok, of junk c]) auto
  show "length (core_data b) \<le> core_cap b"
    by (rule core_data_le [OF ok])
qed


section \<open>Hexadecimal text comes back as bytes\<close>

lemma hex_char_facts:
  assumes "to_lower c = to_lower (hex_digit n)" "n < 16"
  shows "ctype_defined c" "hex_value (to_lower c) = n" "c \<noteq> NUL" "c \<noteq> CHR 0xEF"
proof -
  have "set (map (\<lambda>n. to_lower (hex_digit n)) [0..<16]) \<subseteq> set ''0123456789abcdef''"
    by code_simp
  moreover have "to_lower c \<in> set (map (\<lambda>n. to_lower (hex_digit n)) [0..<16])"
    using assms by simp
  ultimately have "to_lower c \<in> set ''0123456789abcdef''"
    by (rule subsetD)
  then have d: "of_char (to_lower c) < (128 :: nat)" "to_lower c \<noteq> NUL"
    by auto
  have small: "of_char c < (128 :: nat)"
    using d(1) by (auto simp: to_lower_def less_eq_char_def split: if_splits)
  then show "ctype_defined c"
    by (simp add: ctype_defined_def)
  show "c \<noteq> CHR 0xEF"
    using small by auto
  show "c \<noteq> NUL"
    using d(2) by (auto simp: to_lower_def less_eq_char_def)
  show "hex_value (to_lower c) = n"
    using hex_digit_facts [OF assms(2)] assms(1) by simp
qed

lemma hex_write_bytes:
  "map to_lower t = map to_lower (concat (map hex2 xs)) \<Longrightarrow> hex_write junk t b = cbs.put_all junk xs b"
proof (induction xs arbitrary: t b)
  case (Cons x xs)
  then obtain c0 c1 r where t: "t = c0 # c1 # r" "to_lower c0 = to_lower (hex_digit (of_char x div 16))"
      "to_lower c1 = to_lower (hex_digit (of_char x mod 16))" "map to_lower r = map to_lower (concat (map hex2 xs))"
    by (auto simp: hex2_def [of x] map_eq_Cons_conv)
  note f = hex_char_facts [OF t(2) of_char_div_less] hex_char_facts [OF t(3)]
  have "char_of (of_char x div 16 * 16 + of_char x mod 16 :: nat) = x"
    by simp
  then show ?case
    using f by (simp add: t(1) tolower_def split_def Cons.IH [OF t(4)])
qed simp

lemma hex_text_clean:
  assumes "map to_lower t = map to_lower (concat (map hex2 xs))" "c \<in> set t"
  shows "c \<noteq> NUL" "c \<noteq> CHR 0xEF"
proof -
  have "to_lower c \<in> set (map to_lower (concat (map hex2 xs)))"
    unfolding assms(1) [symmetric] using assms(2) by simp
  then obtain x where "to_lower c = to_lower (hex_digit (of_char x div 16)) \<or>
      to_lower c = to_lower (hex_digit (of_char x mod 16))"
    by (auto simp: hex2_def)
  moreover have "of_char x mod 16 < (16 :: nat)"
    by simp
  ultimately obtain n where "n < 16" "to_lower c = to_lower (hex_digit n)"
    using of_char_div_less [of x] by blast
  then show "c \<noteq> NUL" "c \<noteq> CHR 0xEF"
    using hex_char_facts by blast+
qed

text \<open>
  C30 Hexadecimal text of any layout is read into a buffer: upper or lower case digits, with
  blanks, tabs, line ends and commas anywhere between them. The bytes they spell are appended
  to what the buffer holds, as far as it has room, and no access is out of bounds.
\<close>

theorem hex_text_into_buffer:
  assumes "core_ok b"
    and "map to_lower (filter (\<lambda>c. \<not> hex_blank c) t) = map to_lower (concat (map hex2 xs))"
  shows "\<exists>b'. HexString2Bin junk t b = Some b' \<and> core_ok b' \<and>
    core_data b' = core_data b @ take (core_cap b - length (core_data b)) xs"
proof -
  let ?f = "filter (\<lambda>c. \<not> hex_blank c) t"
  have "makeHexPretty t = ?f"
    using hex_text_clean [OF assms(2)] by (intro makeHexPretty_spec) blast
  moreover have "takeWhile (\<lambda>c. c \<noteq> NUL) ?f = ?f"
    using hex_text_clean(1) [OF assms(2)] unfolding takeWhile_eq_all_conv by blast
  ultimately have "HexString2Bin junk t b = cbs.put_all junk xs b"
    using hex_write_bytes [OF assms(2), of junk b] by (simp only: HexString2Bin_def)
  then show ?thesis
    using cbs.put_all_spec [OF assms(1), where junk = junk and cs = xs] by auto
qed

lemma hex_text_into_buffer_witness:
  "\<exists>b'. HexString2Bin (\<lambda>n. NUL) ''48, 6f 6C,61'' new_buffer = Some b' \<and> core_data b' = ''Hola''"
proof -
  have "core_ok new_buffer" "core_cap new_buffer = 16777216" "core_data new_buffer = []"
    by (simp_all add: new_buffer_def core_ok_def core_cap_def core_data_def)
  moreover have "map to_lower (filter (\<lambda>c. \<not> hex_blank c) ''48, 6f 6C,61'') = map to_lower (concat (map hex2 ''Hola''))"
    by code_simp
  ultimately show ?thesis
    using hex_text_into_buffer [of new_buffer "''48, 6f 6C,61''" "''Hola''" "\<lambda>n. NUL"] by auto
qed

section \<open>Any text\<close>

lemma str_replace_delete:
  "set (str_replace s src []) \<subseteq> set s \<and> length (str_replace s src []) \<le> length s"
proof (induction "length s" arbitrary: s rule: less_induct)
  case less
  show ?case
  proof (cases "src = [] \<or> strstr s src = None")
    case True
    then show ?thesis
      by (subst (1 2) str_replace.simps) auto
  next
    case False
    then obtain k where k: "strstr s src = Some k" "src \<noteq> []"
      by blast
    let ?r = "drop (k + length src) s"
    have le: "k + length src \<le> length s" "0 < length src"
      using strstr_Some_le [OF k(1)] k(2) by simp_all
    then have "length ?r < length s"
      unfolding length_drop by linarith
    then have "set (str_replace ?r src []) \<subseteq> set ?r" "length (str_replace ?r src []) \<le> length ?r"
      using less by blast+
    moreover have "str_replace s src [] = take k s @ str_replace ?r src []"
      using k by (subst str_replace.simps) simp
    ultimately show ?thesis
      using le set_drop_subset [of "k + length src" s] set_take_subset [of k s] by auto
  qed
qed

lemma makeHexPretty_shrinks: "set (makeHexPretty t) \<subseteq> set t" "length (makeHexPretty t) \<le> length t"
  unfolding makeHexPretty_def Let_def
  by (meson order.trans str_replace_delete)+

fun hex_pairs :: "string \<Rightarrow> char list" where
  "hex_pairs (c0 # c1 # s) = char_of (hex_value (to_lower c0) * 16 + hex_value (to_lower c1)) # hex_pairs s"
| "hex_pairs _ = []"

lemma hex_write_put_all:
  "\<forall>c\<in>set s. ctype_defined c \<Longrightarrow> hex_write junk s b = cbs.put_all junk (hex_pairs s) b"
  by (induction junk s b rule: hex_write.induct) (auto simp: tolower_def intro!: Option.bind_cong)

lemma hex_pairs_length: "length (hex_pairs s) = length s div 2"
  by (induction s rule: hex_pairs.induct) auto

text \<open>
  C18 The reader of hexadecimal text keeps the buffer well-formed whatever the text is: digits,
  garbage, an odd number of characters or no text at all. On characters that \<^verbatim>\<open>tolower\<close> accepts
  it always returns, the buffer keeps its limit and its data, and at most one byte is added for
  two characters.
\<close>

theorem hex_reader_well_typed:
  assumes "core_ok b" "\<forall>c\<in>set t. ctype_defined c"
  shows "\<exists>b' xs. HexString2Bin junk t b = Some b' \<and> core_ok b' \<and> core_cap b' = core_cap b \<and>
    core_data b' = core_data b @ xs \<and> 2 * length xs \<le> length t"
proof -
  let ?s = "takeWhile (\<lambda>c. c \<noteq> NUL) (makeHexPretty t)"
  have "\<forall>c\<in>set ?s. ctype_defined c"
    using assms(2) makeHexPretty_shrinks(1) [of t] by (auto dest: set_takeWhileD)
  then have "HexString2Bin junk t b = cbs.put_all junk (hex_pairs ?s) b"
    by (simp add: HexString2Bin_def hex_write_put_all)
  moreover have "2 * length (hex_pairs ?s) \<le> length t"
    using makeHexPretty_shrinks(2) [of t] length_takeWhile_le [of "\<lambda>c. c \<noteq> NUL" "makeHexPretty t"]
    unfolding hex_pairs_length by linarith
  ultimately show ?thesis
    using cbs.put_all_spec [OF assms(1), where junk = junk and cs = "hex_pairs ?s"] by fastforce
qed

lemma hex_reader_well_typed_witness:
  "\<exists>b' xs. HexString2Bin (\<lambda>n. NUL) ''x y:z'' new_buffer = Some b' \<and> core_ok b' \<and> core_data b' = xs \<and> length xs \<le> 2"
proof -
  have "core_ok new_buffer" "core_data new_buffer = []"
    by (simp_all add: new_buffer_def core_ok_def core_data_def)
  moreover have "\<forall>c\<in>set ''x y:z''. ctype_defined c"
    by code_simp
  ultimately show ?thesis
    using hex_reader_well_typed [of new_buffer "''x y:z''" "\<lambda>n. NUL"] by fastforce
qed

end
