(* ===== verification/CoreBcd.thy ===== *)
theory CoreBcd
  imports CoreBuffer
begin

text \<open>
  Numbers as bytes: binary-coded decimals, two digits a byte, and big-endian binary numbers
  (\<^verbatim>\<open>src/src/core/base/bcdtool.cpp\<close>). An \<^verbatim>\<open>unsigned long\<close> has 64 bits, as on the 64-bit
  Linux, Android and iOS targets. \<open>/\<close> and \<open>%\<close> of C cut towards zero; shifting a negative
  number to the left, or by the width or more, is undefined and has no result.
\<close>

section \<open>The conversions\<close>

definition c_mod :: "int \<Rightarrow> int \<Rightarrow> int" where
  "c_mod a b = a - c_div a b * b"

fun BcdTool_convert :: "memory \<Rightarrow> memory \<Rightarrow> nat \<Rightarrow> nat \<Rightarrow> memory option" where
  "BcdTool_convert dst src i 0 = Some dst"
| "BcdTool_convert dst src i (Suc k) = do {
     c \<leftarrow> mem_get src i;
     dst \<leftarrow> mem_set dst i (char_of ((of_char c :: int) XOR 0xFF));
     BcdTool_convert dst src (Suc i) k
   }"

text \<open>The loops count \<open>k\<close>, the bytes that are left: \<open>length - 1 - i\<close> is \<open>k - 1\<close>.\<close>

fun HextoDec_loop :: "memory \<Rightarrow> nat \<Rightarrow> nat \<Rightarrow> u64 \<Rightarrow> u64 option" where
  "HextoDec_loop hex i 0 rslt = Some rslt"
| "HextoDec_loop hex i (Suc k) rslt = do {
     c \<leftarrow> mem_get hex i;
     (if 64 \<le> 8 * k then None
      else HextoDec_loop hex (Suc i) k (rslt + push_bit (8 * k) (of_char c)))
   }"

definition HextoDec :: "memory \<Rightarrow> int \<Rightarrow> u64 option" where
  "HextoDec hex len = HextoDec_loop hex 0 (nat len) 0"

fun DectoHex_loop :: "int \<Rightarrow> memory \<Rightarrow> nat \<Rightarrow> memory option" where
  "DectoHex_loop n hex 0 = Some hex"
| "DectoHex_loop n hex (Suc i) = do {
     hex \<leftarrow> mem_set hex i (char_of (c_mod n 256 AND 0xFF));
     DectoHex_loop (c_div n 256) hex i
   }"

definition DectoHex :: "int \<Rightarrow> memory \<Rightarrow> int \<Rightarrow> (int \<times> memory) option" where
  "DectoHex n hex len = map_option (Pair 0) (DectoHex_loop n hex (nat len))"

fun BcdTool_power :: "int \<Rightarrow> nat \<Rightarrow> u64" where
  "BcdTool_power base 0 = 1"
| "BcdTool_power base (Suc n) = BcdTool_power base n * of_int base"

definition bcd2Dec :: "char \<Rightarrow> int" where
  "bcd2Dec bcd = (drop_bit 4 (of_char bcd) AND 0x0F) * 10 + (of_char bcd AND 0x0F)"

fun BCDtoDec_loop :: "memory \<Rightarrow> nat \<Rightarrow> nat \<Rightarrow> u64 \<Rightarrow> u64 option" where
  "BCDtoDec_loop bcd i 0 d = Some d"
| "BCDtoDec_loop bcd i (Suc k) d = do {
     c \<leftarrow> mem_get bcd i;
     let tmp = ((drop_bit 4 (of_char c) AND 0x0F) * 10 + (of_char c AND 0x0F) :: int);
     BCDtoDec_loop bcd (Suc i) k (d + of_int tmp * BcdTool_power 100 k)
   }"

definition BCDtoDec :: "memory \<Rightarrow> int \<Rightarrow> u64 option" where
  "BCDtoDec bcd len = BCDtoDec_loop bcd 0 (nat len) 0"

definition bcd_byte :: "int \<Rightarrow> char option" where
  "bcd_byte temp =
     (if c_div temp 10 < 0 then None
      else Some (char_of (push_bit 4 (c_div temp 10) + (c_mod temp 10 AND 0x0F))))"

fun DectoBCD_loop :: "int \<Rightarrow> memory \<Rightarrow> nat \<Rightarrow> int \<Rightarrow> (int \<times> memory) option" where
  "DectoBCD_loop Dec Bcd 0 bytes = Some (bytes, Bcd)"
| "DectoBCD_loop Dec Bcd (Suc i) bytes = do {
     b \<leftarrow> bcd_byte (c_mod Dec 100);
     Bcd \<leftarrow> mem_set Bcd i b;
     let Dec = c_div Dec 100;
     let bytes = bytes + 1;
     (if Dec = 0 then Some (bytes, Bcd) else DectoBCD_loop Dec Bcd i bytes)
   }"

definition DectoBCD :: "int \<Rightarrow> memory \<Rightarrow> int \<Rightarrow> (int \<times> memory) option" where
  "DectoBCD Dec Bcd len = do {
     (bytes, Bcd) \<leftarrow> DectoBCD_loop Dec Bcd (nat len) 0;
     (if bytes > 0 then do {
        Bcd \<leftarrow> memmove Bcd 0 (nat (len - bytes)) (nat bytes);
        Bcd \<leftarrow> (if len \<ge> bytes + 1 then mem_set Bcd (nat bytes) NUL else Some Bcd);
        Some (bytes, Bcd)
      } else Some (bytes, Bcd))
   }"

text \<open>\<open>buf\<close> is the one byte of stack memory, of any content.\<close>

definition byte2Bcd :: "char \<Rightarrow> char \<Rightarrow> char option" where
  "byte2Bcd buf v = do { (_, m) \<leftarrow> DectoBCD (of_char v) [buf] 1; mem_get m 0 }"

section \<open>Arithmetic\<close>

lemma c_div_nat [simp]: "c_div (int a) (int b) = int (a div b)"
  by (cases "a = 0"; cases "b = 0") (simp_all add: c_div_def zdiv_int)

lemma c_mod_nat [simp]: "c_mod (int a) (int b) = int (a mod b)"
  by (simp add: c_mod_def zmod_int minus_div_mult_eq_mod [symmetric] zdiv_int)

lemmas c_div_numeral [simp] = c_div_nat [of _ "numeral k", simplified] for k
lemmas c_mod_numeral [simp] = c_mod_nat [of _ "numeral k", simplified] for k

lemma and_15: "x AND 15 = x mod 16" for x :: int
  using take_bit_eq_mask [of 4 x] by (simp add: take_bit_eq_mod mask_eq_exp_minus_1)

lemma and_255: "x AND 255 = x mod 256" for x :: int
  using take_bit_eq_mask [of 8 x] by (simp add: take_bit_eq_mod mask_eq_exp_minus_1)

lemma of_nat_of_char: "of_nat (of_char c) = of_char c"
  by (cases c) simp

definition bcd_digit :: "char \<Rightarrow> nat" where
  "bcd_digit c = of_char c div 16 * 10 + of_char c mod 16"

lemma bcd2Dec_eq: "bcd2Dec c = int (bcd_digit c)"
proof -
  have "(of_char c :: int) = int (of_char c)"
    by (simp add: of_nat_of_char)
  moreover have "(of_char c :: nat) div 16 mod 16 = of_char c div 16"
    using of_char_div_less [of c] by simp
  then have "int (of_char c) div 16 mod 16 = int (of_char c div 16)"
    by (metis of_nat_numeral zdiv_int zmod_int)
  ultimately show ?thesis
    by (simp add: bcd2Dec_def bcd_digit_def and_15 drop_bit_eq_div zmod_int)
qed

text \<open>The number that base-\<open>b\<close> digits spell, the highest first.\<close>

definition digits_val :: "nat \<Rightarrow> (char \<Rightarrow> nat) \<Rightarrow> char list \<Rightarrow> nat" where
  "digits_val b v = foldl (\<lambda>a c. a * b + v c) 0"

lemma digits_val_simps [simp]:
  "digits_val b v [] = 0" "digits_val b v (xs @ [c]) = digits_val b v xs * b + v c"
  by (simp_all add: digits_val_def)

lemma digits_val_Cons: "digits_val b v (c # xs) = v c * b ^ length xs + digits_val b v xs"
proof (induction xs rule: rev_induct)
  case (snoc x xs)
  show ?case
    unfolding append_Cons [symmetric] digits_val_simps(2) snoc.IH by (simp add: algebra_simps)
qed (simp add: digits_val_def)

section \<open>Reading\<close>

lemma power_eq: "BcdTool_power 100 n = of_nat (100 ^ n)"
  by (induction n) (simp_all add: mult.commute)

lemma mem_take_drop:
  "i + Suc k \<le> length m \<Longrightarrow> mem_get m i = Some (m ! i) \<and> take (Suc k) (drop i m) = m ! i # take k (drop (Suc i) m)"
  by (simp add: mem_get_def Cons_nth_drop_Suc [symmetric])

lemma BCDtoDec_loop_spec:
  "i + k \<le> length m \<Longrightarrow>
   BCDtoDec_loop m i k d = Some (d + of_nat (digits_val 100 bcd_digit (take k (drop i m))))"
proof (induction k arbitrary: i d)
  case (Suc k)
  have "BCDtoDec_loop m i (Suc k) d =
      BCDtoDec_loop m (Suc i) k (d + of_int (bcd2Dec (m ! i)) * BcdTool_power 100 k)"
    using mem_take_drop [OF Suc.prems] by (simp add: bcd2Dec_def)
  also have "\<dots> = Some (d + of_nat (digits_val 100 bcd_digit (m ! i # take k (drop (Suc i) m))))"
    using Suc.prems Suc.IH [of "Suc i"] by (simp add: bcd2Dec_eq power_eq digits_val_Cons)
  finally show ?case
    using mem_take_drop [OF Suc.prems] by simp
qed simp

lemma HextoDec_loop_spec:
  "i + k \<le> length m \<Longrightarrow> k \<le> 8 \<Longrightarrow>
   HextoDec_loop m i k d = Some (d + of_nat (digits_val 256 of_char (take k (drop i m))))"
proof (induction k arbitrary: i d)
  case (Suc k)
  have "push_bit (8 * k) (of_char c :: u64) = of_nat (of_char c * 256 ^ k)" for c
    by (simp add: push_bit_eq_mult power_mult of_nat_of_char)
  moreover have "length (take k (drop (Suc i) m)) = k"
    using Suc.prems by simp
  ultimately show ?case
    using mem_take_drop [OF Suc.prems(1)] Suc.prems Suc.IH [of "Suc i"]
    by (simp add: digits_val_Cons)
qed simp

section \<open>Writing\<close>

lemma bcd_byte_nat:
  assumes "t < 100"
  shows "\<exists>b. bcd_byte (int t) = Some b \<and> bcd_digit b = t"
proof -
  let ?c = "t div 10 * 16 + t mod 10"
  have "t div 10 < 10"
    using assms by simp
  moreover have m: "t mod 10 < 10"
    by simp
  ultimately have "?c < 256"
    by linarith
  moreover have "?c div 16 = t div 10" "?c mod 16 = t mod 10"
    using m by simp_all
  moreover have "push_bit 4 (int (t div 10)) + (int (t mod 10) AND 15) = int ?c"
    using m by (simp add: and_15 push_bit_eq_mult flip: zmod_int)
  then have "bcd_byte (int t) = Some (char_of (int ?c))"
    unfolding bcd_byte_def c_div_numeral c_mod_numeral by simp
  then have "bcd_byte (int t) = Some (char_of ?c)"
    unfolding char_of_nat .
  ultimately show ?thesis
    by (auto simp: bcd_digit_def)
qed

lemma DectoBCD_loop_spec:
  assumes "k < length m \<or> k = length m" "0 < k"
  shows "\<exists>bs. DectoBCD_loop (int n) m k c = Some (c + int (length bs), take (k - length bs) m @ bs @ drop k m) \<and>
    bs \<noteq> [] \<and> length bs \<le> k \<and> digits_val 100 bcd_digit bs = n mod 100 ^ k"
  using assms
proof (induction k arbitrary: n m c)
  case (Suc k)
  obtain b where b: "bcd_byte (int (n mod 100)) = Some b" "bcd_digit b = n mod 100"
    using bcd_byte_nat [of "n mod 100"] by auto
  have k: "k < length m"
    using Suc.prems by linarith
  show ?case
  proof (cases "n div 100 = 0 \<or> k = 0")
    case True
    then have "n mod 100 ^ Suc k = n mod 100"
      by (auto simp: mod_mult2_eq)
    then show ?thesis
      using True k b
      by (intro exI [of _ "[b]"]) (auto simp: mem_set_def upd_conv_take_nth_drop digits_val_Cons Let_def)
  next
    case False
    then obtain bs where "DectoBCD_loop (int (n div 100)) (m[k := b]) k (c + 1) =
        Some (c + 1 + int (length bs), take (k - length bs) (m[k := b]) @ bs @ drop k (m[k := b]))" "bs \<noteq> []"
        "length bs \<le> k" "digits_val 100 bcd_digit bs = n div 100 mod 100 ^ k"
      using Suc.IH [of "m[k := b]" "n div 100" "c + 1"] k by auto
    then show ?thesis
      using k b False
      by (intro exI [of _ "bs @ [b]"]) (auto simp: mem_set_def drop_update_swap Cons_nth_drop_Suc [symmetric] mod_mult2_eq)
  qed
qed simp

lemma DectoHex_loop_spec:
  "k \<le> length m \<Longrightarrow>
   \<exists>bs. DectoHex_loop (int n) m k = Some (bs @ drop k m) \<and> length bs = k \<and>
    digits_val 256 of_char bs = n mod 256 ^ k"
proof (induction k arbitrary: n m)
  case (Suc k)
  let ?b = "char_of (n mod 256)"
  obtain bs where "DectoHex_loop (int (n div 256)) (m[k := ?b]) k = Some (bs @ drop k (m[k := ?b]))"
      "length bs = k" "digits_val 256 of_char bs = n div 256 mod 256 ^ k"
    using Suc.IH [of "m[k := ?b]" "n div 256"] Suc.prems by auto
  then show ?case
    using Suc.prems
    by (intro exI [of _ "bs @ [?b]"])
      (auto simp: mem_set_def and_255 of_char_of Cons_nth_drop_Suc [symmetric] mod_mult2_eq)
qed simp

lemma DectoBCD_spec:
  assumes "0 < k" "k \<le> length m"
  shows "\<exists>bs m'. DectoBCD (int n) m (int k) = Some (int (length bs), m') \<and> bs \<noteq> [] \<and> length bs \<le> k \<and>
    length m' = length m \<and> take (length bs) m' = bs \<and> digits_val 100 bcd_digit bs = n mod 100 ^ k"
proof -
  have "k < length m \<or> k = length m"
    using assms(2) by linarith
  from DectoBCD_loop_spec [OF this assms(1), of n 0] obtain bs where
    bs: "DectoBCD_loop (int n) m k 0 = Some (int (length bs), take (k - length bs) m @ bs @ drop k m)"
      "bs \<noteq> []" "length bs \<le> k" "digits_val 100 bcd_digit bs = n mod 100 ^ k"
    by auto
  let ?l = "length bs" and ?m1 = "take (k - length bs) m @ bs @ drop k m"
  let ?m2 = "bs @ drop ?l ?m1"
  let ?m3 = "if ?l < k then ?m2[?l := NUL] else ?m2"
  have len: "length ?m1 = length m" "length ?m2 = length m"
    using bs(3) assms(2) by simp_all
  have "memmove ?m1 0 (k - ?l) ?l = Some ?m2"
    using bs(3) assms(2) len(1) by (simp add: memmove_def mem_read_def memcpy_def)
  moreover have "nat (int k - int ?l) = k - ?l"
    by simp
  moreover have "(if int k \<ge> int ?l + 1 then mem_set ?m2 ?l NUL else Some ?m2) = Some ?m3"
    using len(2) assms(2) by (auto simp: mem_set_def simp del: append_assoc)
  moreover have "0 < int ?l"
    using bs(2) by simp
  ultimately have "DectoBCD (int n) m (int k) = Some (int ?l, ?m3)"
    unfolding DectoBCD_def nat_int bs(1) by (simp only: Option.bind.simps prod.case if_True nat_int option.case)
  moreover have "take ?l ?m3 = bs"
    by simp
  moreover have "length ?m3 = length m"
    unfolding if_distrib [of length] length_list_update len(2) by simp
  ultimately show ?thesis
    using bs(2-4) by blast
qed

section \<open>Properties\<close>

lemma unat_u64_small: "n < 2 ^ 31 \<Longrightarrow> unat (of_nat (n mod b) :: u64) = n mod b"
proof -
  assume "n < 2 ^ 31"
  then have "n mod b < 2 ^ 64"
    by (intro le_less_trans [OF mod_less_eq_dividend]) simp
  then show ?thesis
    by (simp add: unat_of_nat)
qed

text \<open>
  Binary-coded decimals come back. For every non-negative \<^verbatim>\<open>int\<close> and every array of one byte or
  more, \<^verbatim>\<open>DectoBCD\<close> stays in the array and reports how many bytes it used, the digits stand at
  its start, and \<^verbatim>\<open>BCDtoDec\<close> reads from them the number, cut to the digits that fit.
\<close>

theorem bcd_roundtrip:
  assumes "n < 2 ^ 31" "0 < k" "k \<le> length m"
  shows "\<exists>bytes m' w. DectoBCD (int n) m (int k) = Some (int bytes, m') \<and> 0 < bytes \<and> bytes \<le> k \<and>
    length m' = length m \<and> BCDtoDec m' (int bytes) = Some w \<and> unat w = n mod 100 ^ k"
proof -
  obtain bs m' where bs: "DectoBCD (int n) m (int k) = Some (int (length bs), m')" "bs \<noteq> []" "length bs \<le> k"
      "length m' = length m" "take (length bs) m' = bs" "digits_val 100 bcd_digit bs = n mod 100 ^ k"
    using DectoBCD_spec [OF assms(2,3), of n] by blast
  moreover have "BCDtoDec m' (int (length bs)) = Some (of_nat (n mod 100 ^ k))"
    unfolding BCDtoDec_def using BCDtoDec_loop_spec [of 0 "length bs" m' 0] bs(3-6) assms(3) by simp
  ultimately show ?thesis
    using unat_u64_small [OF assms(1), of "100 ^ k"] by blast
qed

lemma bcd_roundtrip_witness:
  "\<exists>bytes m' w. DectoBCD 12345 ''....'' 4 = Some (int bytes, m') \<and> BCDtoDec m' (int bytes) = Some w \<and> unat w = 12345"
  using bcd_roundtrip [of 12345 4 "''....''"] by (simp, blast)

text \<open>
  Big-endian numbers come back. For every non-negative \<^verbatim>\<open>int\<close> and up to eight bytes \<^verbatim>\<open>HextoDec\<close>
  reads from what \<^verbatim>\<open>DectoHex\<close> wrote the number, cut to the bytes that fit; what is behind them
  in the array stays.
\<close>

theorem dec_hex_roundtrip:
  assumes "n < 2 ^ 31" "k \<le> 8" "k \<le> length m"
  shows "\<exists>m' w. DectoHex (int n) m (int k) = Some (0, m') \<and> length m' = length m \<and> drop k m' = drop k m \<and>
    HextoDec m' (int k) = Some w \<and> unat w = n mod 256 ^ k"
proof -
  obtain bs where bs: "DectoHex_loop (int n) m k = Some (bs @ drop k m)" "length bs = k"
      "digits_val 256 of_char bs = n mod 256 ^ k"
    using DectoHex_loop_spec [OF assms(3)] by blast
  have "HextoDec (bs @ drop k m) (int k) = Some (of_nat (n mod 256 ^ k))"
    using HextoDec_loop_spec [of 0 k "bs @ drop k m" 0] bs(2,3) assms(2,3) by (simp add: HextoDec_def)
  then show ?thesis
    using bs assms(3) unat_u64_small [OF assms(1)] by (simp add: DectoHex_def)
qed

lemma dec_hex_roundtrip_witness:
  "\<exists>m' w. DectoHex 70000 ''abcd'' 2 = Some (0, m') \<and> drop 2 m' = ''cd'' \<and>
    HextoDec m' 2 = Some w \<and> unat w = 4464"
  using dec_hex_roundtrip [of 70000 2 "''abcd''"] by (simp, blast)

text \<open>
  One byte holds two digits: \<^verbatim>\<open>byte2Bcd\<close> keeps a number below 100 and silently drops the
  hundreds of a larger one, and whatever was on the stack does not matter.
\<close>

theorem byte_bcd_roundtrip:
  "\<exists>b. byte2Bcd buf v = Some b \<and> bcd2Dec b = of_char v mod 100"
proof -
  obtain bs m' where bs: "DectoBCD (int (of_char v)) [buf] (int 1) = Some (int (length bs), m')" "bs \<noteq> []"
      "length bs \<le> 1" "length m' = 1" "take (length bs) m' = bs" "digits_val 100 bcd_digit bs = of_char v mod 100"
    using DectoBCD_spec [of 1 "[buf]" "of_char v"] by auto
  have "length bs = 1"
    using bs(2,3) by (cases bs) simp_all
  then obtain b where "bs = [b]"
    by (auto simp: length_Suc_conv)
  with bs have b: "m' = [b]" "bcd_digit b = of_char v mod 100"
    by (auto simp: digits_val_Cons)
  have "byte2Bcd buf v = Some b"
    using bs(1) b(1) by (simp add: byte2Bcd_def of_nat_of_char mem_get_def)
  then show ?thesis
    by (simp add: bcd2Dec_eq b(2) zmod_int of_nat_of_char)
qed

end
