(* ===== verification/LooperMsg.thy ===== *)
theory LooperMsg
  imports Prelude
begin

text \<open>
  The message core of the loopers (\<^verbatim>\<open>src/src/core/looper/looperimpl.cpp\<close>, the message part of
  \<^verbatim>\<open>src/src/arch/linux/looper_linux.cpp\<close>): threads that post messages to each other and send
  messages whose answer they wait for, running their own messages meanwhile.

  A looper is a thread with a locked list of messages. Its C stack is a list of frames, one
  for every message that is being dispatched, the innermost first; a frame waits when its
  handler is inside \<^verbatim>\<open>sendMessage\<close>. \<^verbatim>\<open>bool done\<close> and \<^verbatim>\<open>LRESULT ack\<close> of such a call are a cell,
  which exists until the call returns. What a handler does (post, send, return) is not
  fixed: every interleaving of every behaviour is a run of the system below. Timers and
  sockets call handlers too; such a call is a frame without a message of the list. A thread
  that is no looper and sends has a looper of its own that is attached to it and whose
  list stays empty.

  The wake-up of a looper that sleeps in \<^verbatim>\<open>epoll_wait\<close> is the byte that every accepted
  message puts into a socket pair; a looper with a message is therefore able to take it.
\<close>

section \<open>Data\<close>

definition BM_NULL :: u32 where "BM_NULL = 1000000"
definition BM_DESTROY :: u32 where "BM_DESTROY = 1000002"
definition BM_QUIT :: u32 where "BM_QUIT = 2000000"
definition BM_POST_RUNNABLE :: u32 where "BM_POST_RUNNABLE = 2000012"

text \<open>
  A message. Its number \<open>msg_id\<close> is not in the code: it names the message in what is stated
  about it. A message without a handler is for the looper itself.
\<close>

record loop_message =
  msg_id :: nat
  msg_handler :: "nat option"
  msg_code :: u32
  msg_wp :: u64
  msg_lp :: u64
  msg_done :: "nat option"
  msg_wait_ack :: bool
  msg_send_looper :: "nat option"

text \<open>
  Where a dispatch stands: in the handler; in a \<^verbatim>\<open>sendMessage\<close> of the handler, with its cell;
  behind the writing of the answer; behind the writing of \<^verbatim>\<open>*mDone\<close>. The stamp orders
  dispatches in time.
\<close>

datatype point = Busy | Waiting nat | Acked | DoneSet

record frame =
  frame_msg :: loop_message
  frame_at :: point
  frame_stamp :: nat

datatype life = NotStarted | Started | Exited | Freed

text \<open>
  The last three fields list the numbers of the messages that the looper's list accepted,
  that were taken from it, and that were erased from it.
\<close>

record looper =
  looper_life :: life
  mLooperRunning :: bool
  mAttachThread :: bool
  mBMQuit :: bool
  mTimerCheckQuitLooper :: bool
  mExitCode :: u64
  mMessageList :: "loop_message list"
  frames :: "frame list"
  accepted :: "nat list"
  taken :: "nat list"
  cancelled :: "nat list"

text \<open>
  \<open>handled\<close> lists the answers that dispatches gave, \<open>answers\<close> what the calls of \<^verbatim>\<open>sendMessage\<close>
  returned, \<open>refused\<close> the calls that found the looper not running. \<open>dead_cell\<close> and
  \<open>dead_wakeup\<close> are set when a dispatch writes to a cell, or wakes a looper, that is gone.
\<close>

record loop_sys =
  loopers :: "nat \<Rightarrow> looper"
  cells :: "nat \<Rightarrow> (bool \<times> u64) option"
  next_id :: nat
  handled :: "(nat \<times> u64) list"
  answers :: "(nat \<times> u64) list"
  refused :: "nat list"
  dead_cell :: bool
  dead_wakeup :: bool

definition new_looper :: looper where
  "new_looper =
     \<lparr>looper_life = NotStarted, mLooperRunning = False, mAttachThread = False, mBMQuit = False,
      mTimerCheckQuitLooper = False, mExitCode = 0, mMessageList = [], frames = [], accepted = [],
      taken = [], cancelled = []\<rparr>"

definition initial_sys :: loop_sys where
  "initial_sys =
     \<lparr>loopers = (\<lambda>_. new_looper), cells = Map.empty, next_id = 0, handled = [], answers = [],
      refused = [], dead_cell = False, dead_wakeup = False\<rparr>"

definition upd_looper :: "nat \<Rightarrow> (looper \<Rightarrow> looper) \<Rightarrow> loop_sys \<Rightarrow> loop_sys" where
  "upd_looper L f s = s\<lparr>loopers := (loopers s)(L := f (loopers s L))\<rparr>"

section \<open>Posting\<close>

definition push_message :: "nat \<Rightarrow> loop_message \<Rightarrow> loop_sys \<Rightarrow> loop_sys" where
  "push_message T m =
     upd_looper T (\<lambda>l. l\<lparr>mMessageList := mMessageList l @ [m], accepted := accepted l @ [msg_id m]\<rparr>)"

text \<open>The list of an attached looper takes no messages; posting to it only wakes it.\<close>

definition LooperImpl_postMessage ::
  "nat \<Rightarrow> nat option \<Rightarrow> u32 \<Rightarrow> u64 \<Rightarrow> u64 \<Rightarrow> loop_sys \<Rightarrow> int \<times> loop_sys" where
  "LooperImpl_postMessage T handler msg wp lp s =
     (let l = loopers s T
      in if \<not> mLooperRunning l \<and> \<not> mAttachThread l then (0, s)
         else
           (let loopMsg = \<lparr>msg_id = next_id s, msg_handler = handler, msg_code = msg, msg_wp = wp,
                           msg_lp = lp, msg_done = None, msg_wait_ack = False, msg_send_looper = None\<rparr>
            in if mAttachThread l then (0, s)
               else if \<not> mLooperRunning l then (-1, s)
               else (0, push_message T loopMsg (s\<lparr>next_id := Suc (next_id s)\<rparr>))))"

definition Wakeup :: "nat \<Rightarrow> loop_sys \<Rightarrow> loop_sys" where
  "Wakeup L s = snd (LooperImpl_postMessage L None BM_NULL 0 0 s)"

definition PostQuitMessage :: "nat \<Rightarrow> u64 \<Rightarrow> loop_sys \<Rightarrow> loop_sys" where
  "PostQuitMessage T exitCode s =
     (if \<not> mLooperRunning (loopers s T) then s
      else snd (LooperImpl_postMessage T None BM_QUIT exitCode 0 s))"

text \<open>Erasing the posted runnables of a handler; \<open>runnable_of\<close> reads the object a message points to.\<close>

definition runnable_matches :: "(u64 \<Rightarrow> nat) \<Rightarrow> nat option \<Rightarrow> nat \<Rightarrow> loop_message \<Rightarrow> bool" where
  "runnable_matches runnable_of handler runnable m \<longleftrightarrow>
     msg_code m = BM_POST_RUNNABLE \<and> msg_handler m = handler \<and> runnable_of (msg_wp m) = runnable"

definition CancelRunnableInQueue ::
  "(u64 \<Rightarrow> nat) \<Rightarrow> nat option \<Rightarrow> nat \<Rightarrow> nat \<Rightarrow> loop_sys \<Rightarrow> loop_sys" where
  "CancelRunnableInQueue runnable_of handler runnable L =
     upd_looper L (\<lambda>l. l\<lparr>
       mMessageList := filter (\<lambda>m. \<not> runnable_matches runnable_of handler runnable m) (mMessageList l),
       cancelled := cancelled l @
         map msg_id (filter (runnable_matches runnable_of handler runnable) (mMessageList l))\<rparr>)"

section \<open>Dispatching\<close>

definition OnBMQuit :: "nat \<Rightarrow> loop_sys \<Rightarrow> loop_sys" where
  "OnBMQuit L s =
     (let s = upd_looper L (\<lambda>l. l\<lparr>mBMQuit := True\<rparr>) s
      in if mTimerCheckQuitLooper (loopers s L) then s
         else Wakeup L (upd_looper L (\<lambda>l. l\<lparr>mTimerCheckQuitLooper := True\<rparr>) s))"

definition looper_OnMessage :: "nat \<Rightarrow> u32 \<Rightarrow> u64 \<Rightarrow> loop_sys \<Rightarrow> loop_sys" where
  "looper_OnMessage L msg wp s =
     (if msg = BM_QUIT \<and> \<not> mBMQuit (loopers s L)
      then OnBMQuit L (snd (LooperImpl_postMessage L None BM_DESTROY 0 0
             (upd_looper L (\<lambda>l. l\<lparr>mExitCode := wp\<rparr>) s)))
      else s)"

definition push_frame :: "nat \<Rightarrow> loop_message \<Rightarrow> loop_sys \<Rightarrow> loop_sys" where
  "push_frame L m s =
     upd_looper L (\<lambda>l. l\<lparr>frames := \<lparr>frame_msg = m, frame_at = Busy, frame_stamp = next_id s\<rparr> # frames l\<rparr>)
       (s\<lparr>next_id := Suc (next_id s)\<rparr>)"

definition dispatchMessage :: "nat \<Rightarrow> loop_message \<Rightarrow> loop_sys \<Rightarrow> loop_sys" where
  "dispatchMessage L m s =
     (let s = push_frame L m s
      in if msg_handler m = None then looper_OnMessage L (msg_code m) (msg_wp m) s else s)"

definition set_top :: "nat \<Rightarrow> point \<Rightarrow> loop_sys \<Rightarrow> loop_sys" where
  "set_top L p =
     upd_looper L (\<lambda>l. l\<lparr>frames := (case frames l of [] \<Rightarrow> [] | f # fs \<Rightarrow> f\<lparr>frame_at := p\<rparr> # fs)\<rparr>)"

definition pop_frame :: "nat \<Rightarrow> loop_sys \<Rightarrow> loop_sys" where
  "pop_frame L = upd_looper L (\<lambda>l. l\<lparr>frames := tl (frames l)\<rparr>)"

text \<open>What \<^verbatim>\<open>dispatchMessage\<close> does when the handler returns \<open>ret\<close>, in its three steps.\<close>

definition dispatch_return :: "nat \<Rightarrow> loop_message \<Rightarrow> u64 \<Rightarrow> loop_sys \<Rightarrow> loop_sys" where
  "dispatch_return L m ret s =
     (let s = s\<lparr>handled := handled s @ [(msg_id m, ret)]\<rparr>
      in case msg_done m of None \<Rightarrow> pop_frame L s
         | Some c \<Rightarrow>
             set_top L Acked (case cells s c of None \<Rightarrow> s\<lparr>dead_cell := True\<rparr>
                              | Some (d, _) \<Rightarrow> s\<lparr>cells := (cells s)(c \<mapsto> (d, ret))\<rparr>))"

definition dispatch_done :: "nat \<Rightarrow> loop_message \<Rightarrow> loop_sys \<Rightarrow> loop_sys" where
  "dispatch_done L m s =
     (case msg_done m of None \<Rightarrow> s
      | Some c \<Rightarrow>
        (let s = (case cells s c of None \<Rightarrow> s\<lparr>dead_cell := True\<rparr>
                  | Some (_, ack) \<Rightarrow> s\<lparr>cells := (cells s)(c \<mapsto> (True, ack))\<rparr>)
         in if msg_wait_ack m \<and> msg_send_looper m \<noteq> None then set_top L DoneSet s
            else pop_frame L s))"

definition dispatch_wake :: "nat \<Rightarrow> loop_message \<Rightarrow> loop_sys \<Rightarrow> loop_sys" where
  "dispatch_wake L m s =
     (case msg_send_looper m of None \<Rightarrow> s
      | Some S \<Rightarrow>
        (let s = pop_frame L s
         in if looper_life (loopers s S) = Freed then s\<lparr>dead_wakeup := True\<rparr> else Wakeup S s))"

section \<open>Sending\<close>

text \<open>
  The looper's own thread dispatches at once, with the variables of its own frame. Another
  thread puts the message into the list, marked with the looper that waits. The two
  checks of \<^verbatim>\<open>mLooperRunning\<close> (before, and under the lock) both make the call return 0.
\<close>

definition sendMessageHelper :: "nat \<Rightarrow> loop_message \<Rightarrow> nat \<Rightarrow> loop_sys \<Rightarrow> loop_sys" where
  "sendMessageHelper T m L s =
     (if \<not> mLooperRunning (loopers s T)
      then s\<lparr>answers := answers s @ [(msg_id m, 0)], refused := refused s @ [msg_id m]\<rparr>
      else push_message T (m\<lparr>msg_send_looper := Some L\<rparr>)
             (set_top L (Waiting (msg_id m)) (s\<lparr>cells := (cells s)(msg_id m \<mapsto> (False, 0))\<rparr>)))"

definition LooperImpl_sendMessage ::
  "nat \<Rightarrow> nat \<Rightarrow> nat option \<Rightarrow> u32 \<Rightarrow> u64 \<Rightarrow> u64 \<Rightarrow> loop_sys \<Rightarrow> loop_sys" where
  "LooperImpl_sendMessage L T handler msg wp lp s =
     (let id = next_id s;
          loopMsg = \<lparr>msg_id = id, msg_handler = handler, msg_code = msg, msg_wp = wp, msg_lp = lp,
                     msg_done = Some id, msg_wait_ack = False, msg_send_looper = None\<rparr>;
          s = s\<lparr>next_id := Suc id\<rparr>
      in if \<not> mLooperRunning (loopers s T)
         then s\<lparr>answers := answers s @ [(id, 0)], refused := refused s @ [id]\<rparr>
         else if T = L
         then dispatchMessage L loopMsg
                (set_top L (Waiting id) (s\<lparr>cells := (cells s)(id \<mapsto> (False, 0))\<rparr>))
         else sendMessageHelper T (loopMsg\<lparr>msg_wait_ack := True\<rparr>) L s)"

section \<open>The loop\<close>

definition getMessage :: "nat \<Rightarrow> loop_sys \<Rightarrow> loop_message option \<times> loop_sys" where
  "getMessage L s =
     (case mMessageList (loopers s L) of [] \<Rightarrow> (None, s)
      | m # ms \<Rightarrow> (Some m, upd_looper L (\<lambda>l. l\<lparr>mMessageList := ms, taken := taken l @ [msg_id m]\<rparr>) s))"

definition SingleStep :: "nat \<Rightarrow> loop_sys \<Rightarrow> loop_sys" where
  "SingleStep L s =
     (case getMessage L s of (None, s) \<Rightarrow> s | (Some m, s) \<Rightarrow> dispatchMessage L m s)"

definition StartHelper :: "nat \<Rightarrow> loop_sys \<Rightarrow> loop_sys" where
  "StartHelper L = upd_looper L (\<lambda>l. l\<lparr>looper_life := Started, mLooperRunning := True, mBMQuit := False\<rparr>)"

text \<open>The end of \<^verbatim>\<open>Run\<close>, when \<^verbatim>\<open>CanQuitLooperNow\<close> agrees.\<close>

definition Run_quit :: "nat \<Rightarrow> loop_sys \<Rightarrow> loop_sys" where
  "Run_quit L s =
     (if mBMQuit (loopers s L) \<and> mMessageList (loopers s L) = []
      then upd_looper L (\<lambda>l. l\<lparr>mLooperRunning := False, looper_life := Exited\<rparr>) s else s)"

text \<open>A message that is in no list: what a timer, a socket or a thread of its own runs.\<close>

definition bare_message :: "nat \<Rightarrow> loop_message" where
  "bare_message i =
     \<lparr>msg_id = i, msg_handler = Some 0, msg_code = 0, msg_wp = 0, msg_lp = 0, msg_done = None,
      msg_wait_ack = False, msg_send_looper = None\<rparr>"

definition run_bare :: "nat \<Rightarrow> loop_sys \<Rightarrow> loop_sys" where
  "run_bare L s = push_frame L (bare_message (next_id s)) (s\<lparr>next_id := Suc (next_id s)\<rparr>)"

definition AttachThread :: "nat \<Rightarrow> loop_sys \<Rightarrow> loop_sys" where
  "AttachThread L s =
     run_bare L (upd_looper L (\<lambda>l. l\<lparr>looper_life := Started, mAttachThread := True\<rparr>) s)"

section \<open>Steps\<close>

text \<open>The point of the innermost frame, and whether the thread is about to call \<^verbatim>\<open>SingleStep\<close>.\<close>

definition top_point :: "nat \<Rightarrow> loop_sys \<Rightarrow> point option" where
  "top_point L s = (case frames (loopers s L) of [] \<Rightarrow> None | f # fs \<Rightarrow> Some (frame_at f))"

definition top_msg :: "nat \<Rightarrow> loop_sys \<Rightarrow> loop_message" where
  "top_msg L s = frame_msg (hd (frames (loopers s L)))"

definition in_loop :: "nat \<Rightarrow> loop_sys \<Rightarrow> bool" where
  "in_loop L s =
     (case top_point L s of
        None \<Rightarrow> looper_life (loopers s L) = Started \<and> \<not> mAttachThread (loopers s L)
      | Some (Waiting c) \<Rightarrow> (case cells s c of Some (d, _) \<Rightarrow> \<not> d | None \<Rightarrow> False)
      | _ \<Rightarrow> False)"

datatype loop_action =
    Start nat
  | Attach nat
  | Post nat nat "nat option" u32 u64 u64
  | PostQuit nat nat u64
  | Send nat nat "nat option" u32 u64 u64
  | Cancel nat "u64 \<Rightarrow> nat" "nat option" nat
  | Return nat u64
  | SetDone nat
  | WakeSender nat
  | SendReturn nat
  | Step nat
  | Callback nat
  | TryQuit nat
  | Release nat

fun do_action :: "loop_action \<Rightarrow> loop_sys \<Rightarrow> loop_sys option" where
  "do_action (Start L) s =
     (if looper_life (loopers s L) = NotStarted then Some (StartHelper L s) else None)"
| "do_action (Attach L) s =
     (if looper_life (loopers s L) = NotStarted then Some (AttachThread L s) else None)"
| "do_action (Post L T h msg wp lp) s =
     (if top_point L s = Some Busy then Some (snd (LooperImpl_postMessage T h msg wp lp s)) else None)"
| "do_action (PostQuit L T code) s =
     (if top_point L s = Some Busy then Some (PostQuitMessage T code s) else None)"
| "do_action (Send L T h msg wp lp) s =
     (if top_point L s = Some Busy then Some (LooperImpl_sendMessage L T h msg wp lp s) else None)"
| "do_action (Cancel L runnable_of h r) s =
     (if top_point L s = Some Busy then Some (CancelRunnableInQueue runnable_of h r L s) else None)"
| "do_action (Return L ret) s =
     (if top_point L s = Some Busy then Some (dispatch_return L (top_msg L s) ret s) else None)"
| "do_action (SetDone L) s =
     (if top_point L s = Some Acked then Some (dispatch_done L (top_msg L s) s) else None)"
| "do_action (WakeSender L) s =
     (if top_point L s = Some DoneSet then Some (dispatch_wake L (top_msg L s) s) else None)"
| "do_action (SendReturn L) s =
     (case top_point L s of
        Some (Waiting c) \<Rightarrow>
          (case cells s c of
             Some (True, ack) \<Rightarrow>
               Some (set_top L Busy (s\<lparr>answers := answers s @ [(c, ack)], cells := (cells s)(c := None)\<rparr>))
           | _ \<Rightarrow> None)
      | _ \<Rightarrow> None)"
| "do_action (Step L) s =
     (if in_loop L s \<and> mMessageList (loopers s L) \<noteq> [] then Some (SingleStep L s) else None)"
| "do_action (Callback L) s =
     (if in_loop L s \<and> mMessageList (loopers s L) = [] \<and> \<not> mAttachThread (loopers s L)
      then Some (run_bare L s) else None)"
| "do_action (TryQuit L) s =
     (if in_loop L s \<and> top_point L s = None then Some (Run_quit L s) else None)"
| "do_action (Release L) s =
     (if looper_life (loopers s L) = Exited
      then Some (upd_looper L (\<lambda>l. l\<lparr>looper_life := Freed\<rparr>) s) else None)"

inductive loop_reachable :: "loop_sys \<Rightarrow> bool" where
  initial: "loop_reachable initial_sys"
| action: "loop_reachable s \<Longrightarrow> do_action a s = Some s' \<Longrightarrow> loop_reachable s'"

fun do_actions :: "loop_action list \<Rightarrow> loop_sys \<Rightarrow> loop_sys option" where
  "do_actions [] s = Some s"
| "do_actions (a # as) s = do { s \<leftarrow> do_action a s; do_actions as s }"

end
