(* ===== verification/LooperMsgInv.thy ===== *)
theory LooperMsgInv
  imports LooperMsg
begin

text \<open>
  The invariant of the message core: where a message can be, which calls of \<^verbatim>\<open>sendMessage\<close> wait
  for which dispatch, and in what order all of that started.
\<close>

section \<open>Views of a looper\<close>

abbreviation frame_id :: "frame \<Rightarrow> nat" where
  "frame_id f \<equiv> msg_id (frame_msg f)"

definition ids :: "looper \<Rightarrow> nat list" where
  "ids l = map msg_id (mMessageList l) @ map frame_id (frames l)"

definition waits :: "looper \<Rightarrow> nat list" where
  "waits l = concat (map (\<lambda>f. case frame_at f of Waiting c \<Rightarrow> [c] | _ \<Rightarrow> []) (frames l))"

text \<open>The calls whose answer is still to be given by this looper.\<close>

definition owes :: "looper \<Rightarrow> nat set" where
  "owes l = set (map msg_id (filter (\<lambda>m. msg_done m \<noteq> None) (mMessageList l))) \<union>
     set (map frame_id (filter (\<lambda>f. frame_at f \<noteq> DoneSet \<and> msg_done (frame_msg f) \<noteq> None) (frames l)))"

definition universe :: "looper \<Rightarrow> nat set" where
  "universe l = set (ids l) \<union> set (accepted l)"

definition msg_ok :: "loop_message \<Rightarrow> bool" where
  "msg_ok m \<longleftrightarrow> msg_done m = None \<or> msg_done m = Some (msg_id m)"

definition frame_ok :: "frame \<Rightarrow> bool" where
  "frame_ok f \<longleftrightarrow> msg_ok (frame_msg f) \<and> (frame_at f = Acked \<longrightarrow> msg_done (frame_msg f) \<noteq> None) \<and>
     (frame_at f = DoneSet \<longrightarrow> msg_send_looper (frame_msg f) \<noteq> None)"

definition life_ok :: "looper \<Rightarrow> bool" where
  "life_ok l \<longleftrightarrow> (mLooperRunning l \<longrightarrow> looper_life l = Started \<and> \<not> mAttachThread l) \<and>
     (looper_life l = Started \<longrightarrow> mLooperRunning l \<or> mAttachThread l) \<and>
     (\<not> mLooperRunning l \<longrightarrow> mMessageList l = []) \<and>
     (\<not> mLooperRunning l \<and> \<not> mAttachThread l \<longrightarrow> frames l = []) \<and>
     (mAttachThread l \<longrightarrow> looper_life l = Started)"

definition fifo_ok :: "looper \<Rightarrow> bool" where
  "fifo_ok l \<longleftrightarrow> filter (\<lambda>i. i \<notin> set (cancelled l)) (accepted l) = taken l @ map msg_id (mMessageList l) \<and>
     distinct (accepted l) \<and> set (cancelled l) \<subseteq> set (accepted l) \<and>
     set (cancelled l) \<inter> set (ids l) = {}"

definition looper_ok :: "nat \<Rightarrow> looper \<Rightarrow> bool" where
  "looper_ok n l \<longleftrightarrow> life_ok l \<and> fifo_ok l \<and> (\<forall>i\<in>universe l. i < n) \<and>
     (\<forall>f\<in>set (frames l). frame_ok f \<and> frame_stamp f < n) \<and> (\<forall>m\<in>set (mMessageList l). msg_ok m) \<and>
     distinct (ids l) \<and> distinct (waits l) \<and> sorted_wrt (>) (map frame_stamp (frames l))"

section \<open>The invariant\<close>

definition apart :: "('a \<Rightarrow> nat set) \<Rightarrow> (nat \<Rightarrow> 'a) \<Rightarrow> bool" where
  "apart v ls \<longleftrightarrow> (\<forall>L K. L \<noteq> K \<longrightarrow> v (ls L) \<inter> v (ls K) = {})"

text \<open>\<open>P\<close> is the set of calls that have a cell already and whose message is about to be placed.\<close>

definition cells_ok :: "nat set \<Rightarrow> loop_sys \<Rightarrow> bool" where
  "cells_ok P s \<longleftrightarrow> (\<forall>c. cells s c \<noteq> None \<longleftrightarrow> (\<exists>L. c \<in> set (waits (loopers s L)))) \<and>
     (\<forall>c. c \<in> P \<or> (\<exists>L. c \<in> owes (loopers s L)) \<longrightarrow> (\<exists>v. cells s c = Some (False, v))) \<and>
     (\<forall>c v. cells s c = Some (False, v) \<longrightarrow>
        c \<in> P \<or> (\<exists>L. c \<in> owes (loopers s L) \<or> c \<in> set (cancelled (loopers s L)))) \<and>
     (\<forall>c v. cells s c = Some (True, v) \<longrightarrow> (c, v) \<in> set (handled s)) \<and>
     (\<forall>c. cells s c \<noteq> None \<longrightarrow> c < next_id s)"

lemma cells_okD:
  assumes "cells_ok P s"
  shows "cells s c \<noteq> None \<longleftrightarrow> (\<exists>L. c \<in> set (waits (loopers s L)))"
    "c \<in> P \<or> (\<exists>L. c \<in> owes (loopers s L)) \<Longrightarrow> \<exists>v. cells s c = Some (False, v)"
    "cells s c = Some (False, v) \<Longrightarrow>
      c \<in> P \<or> (\<exists>L. c \<in> owes (loopers s L) \<or> c \<in> set (cancelled (loopers s L)))"
    "cells s c = Some (True, v) \<Longrightarrow> (c, v) \<in> set (handled s)"
    "cells s c \<noteq> None \<Longrightarrow> c < next_id s"
  using assms unfolding cells_ok_def by blast+

definition acks_ok :: "loop_sys \<Rightarrow> bool" where
  "acks_ok s \<longleftrightarrow> (\<forall>L. \<forall>f\<in>set (frames (loopers s L)). frame_at f = Acked \<longrightarrow>
     (\<forall>d v. cells s (frame_id f) = Some (d, v) \<longrightarrow> (frame_id f, v) \<in> set (handled s)))"

text \<open>A dispatch that a call waits for started after the frame that makes the call.\<close>

definition order_ok :: "loop_sys \<Rightarrow> bool" where
  "order_ok s \<longleftrightarrow> (\<forall>L K f g. f \<in> set (frames (loopers s L)) \<longrightarrow> g \<in> set (frames (loopers s K)) \<longrightarrow>
     frame_at f = Waiting (frame_id g) \<longrightarrow> msg_done (frame_msg g) \<noteq> None \<longrightarrow> frame_stamp f < frame_stamp g)"

definition handled_ok :: "loop_sys \<Rightarrow> bool" where
  "handled_ok s \<longleftrightarrow> distinct (map fst (handled s)) \<and> (\<forall>i\<in>fst ` set (handled s). i < next_id s) \<and>
     (\<forall>L. \<forall>f\<in>set (frames (loopers s L)). frame_id f \<in> fst ` set (handled s) \<longrightarrow>
        frame_at f = Acked \<or> frame_at f = DoneSet) \<and>
     (\<forall>L. \<forall>m\<in>set (mMessageList (loopers s L)). msg_id m \<notin> fst ` set (handled s)) \<and>
     (\<forall>i\<in>set (refused s). i < next_id s \<and> i \<notin> fst ` set (handled s) \<and> (\<forall>L. i \<notin> universe (loopers s L))) \<and>
     (\<forall>c v. (c, v) \<in> set (answers s) \<longrightarrow> (c, v) \<in> set (handled s) \<or> c \<in> set (refused s) \<and> v = 0)"

lemma handled_okD:
  assumes "handled_ok s"
  shows "distinct (map fst (handled s))" "i \<in> fst ` set (handled s) \<Longrightarrow> i < next_id s"
    "f \<in> set (frames (loopers s L)) \<Longrightarrow> frame_id f \<in> fst ` set (handled s) \<Longrightarrow> frame_at f = Acked \<or> frame_at f = DoneSet"
    "m \<in> set (mMessageList (loopers s L)) \<Longrightarrow> msg_id m \<notin> fst ` set (handled s)"
    "i \<in> set (refused s) \<Longrightarrow> i < next_id s \<and> i \<notin> fst ` set (handled s) \<and> i \<notin> universe (loopers s L)"
    "(c, v) \<in> set (answers s) \<Longrightarrow> (c, v) \<in> set (handled s) \<or> c \<in> set (refused s) \<and> v = 0"
proof -
  note h = assms [unfolded handled_ok_def]
  show "distinct (map fst (handled s))"
    using h by (rule conjunct1)
  note h = h [THEN conjunct2]
  show "i \<in> fst ` set (handled s) \<Longrightarrow> i < next_id s"
    by (rule bspec [OF h [THEN conjunct1]])
  note h = h [THEN conjunct2]
  show "f \<in> set (frames (loopers s L)) \<Longrightarrow> frame_id f \<in> fst ` set (handled s) \<Longrightarrow> frame_at f = Acked \<or> frame_at f = DoneSet"
    using h [THEN conjunct1] by blast
  note h = h [THEN conjunct2]
  show "m \<in> set (mMessageList (loopers s L)) \<Longrightarrow> msg_id m \<notin> fst ` set (handled s)"
    by (rule bspec [OF spec [OF h [THEN conjunct1]]])
  note h = h [THEN conjunct2]
  show "i \<in> set (refused s) \<Longrightarrow> i < next_id s \<and> i \<notin> fst ` set (handled s) \<and> i \<notin> universe (loopers s L)"
    using bspec [OF h [THEN conjunct1]] by simp
  show "(c, v) \<in> set (answers s) \<Longrightarrow> (c, v) \<in> set (handled s) \<or> c \<in> set (refused s) \<and> v = 0"
    using h [THEN conjunct2] by simp
qed

definition loop_inv_but :: "nat set \<Rightarrow> loop_sys \<Rightarrow> bool" where
  "loop_inv_but P s \<longleftrightarrow> (\<forall>L. looper_ok (next_id s) (loopers s L)) \<and> apart universe (loopers s) \<and>
     apart (set \<circ> waits) (loopers s) \<and> cells_ok P s \<and> acks_ok s \<and> order_ok s \<and> handled_ok s \<and>
     finite {L. looper_life (loopers s L) \<noteq> NotStarted} \<and> \<not> dead_cell s"

abbreviation loop_inv :: "loop_sys \<Rightarrow> bool" where
  "loop_inv \<equiv> loop_inv_but {}"

lemma loop_inv_initial: "loop_inv initial_sys"
  by (auto simp: loop_inv_but_def initial_sys_def new_looper_def looper_ok_def life_ok_def fifo_ok_def
      apart_def cells_ok_def acks_ok_def order_ok_def handled_ok_def universe_def ids_def waits_def owes_def)

section \<open>Changing one looper\<close>

lemma loopers_upd [simp]: "loopers (upd_looper L f s) K = (if K = L then f (loopers s L) else loopers s K)"
  by (simp add: upd_looper_def)

lemma upd_looper_fields [simp]:
  "cells (upd_looper L f s) = cells s" "next_id (upd_looper L f s) = next_id s"
  "handled (upd_looper L f s) = handled s" "answers (upd_looper L f s) = answers s"
  "refused (upd_looper L f s) = refused s" "dead_cell (upd_looper L f s) = dead_cell s"
  "dead_wakeup (upd_looper L f s) = dead_wakeup s"
  by (simp_all add: upd_looper_def)

lemma apart_change:
  assumes "apart v ls" "\<And>K. K \<noteq> L \<Longrightarrow> ls' K = ls K" "v (ls' L) \<subseteq> v (ls L) \<union> X" "\<And>K. v (ls K) \<inter> X = {}"
  shows "apart v ls'"
  unfolding apart_def
proof (intro allI impI)
  fix K M :: nat
  assume "K \<noteq> M"
  have d: "v (ls K) \<inter> v (ls M) = {}" if "K \<noteq> M" for K M
    using assms(1) that by (simp add: apart_def)
  consider "K = L" "M \<noteq> L" | "M = L" "K \<noteq> L" | "K \<noteq> L" "M \<noteq> L"
    using \<open>K \<noteq> M\<close> by blast
  then show "v (ls' K) \<inter> v (ls' M) = {}"
    using d [OF \<open>K \<noteq> M\<close>] assms(2) [of K] assms(2) [of M] assms(3) assms(4) [of K] assms(4) [of M]
    by cases auto
qed

lemma looper_ok_mono: "looper_ok n l \<Longrightarrow> n \<le> n' \<Longrightarrow> looper_ok n' l"
  unfolding looper_ok_def by fastforce

lemma loop_invD:
  assumes "loop_inv_but P s"
  shows "looper_ok (next_id s) (loopers s L)" "apart universe (loopers s)" "apart (set \<circ> waits) (loopers s)"
    "cells_ok P s" "acks_ok s" "order_ok s" "handled_ok s" "finite {L. looper_life (loopers s L) \<noteq> NotStarted}"
    "\<not> dead_cell s"
  using assms by (simp_all add: loop_inv_but_def)

lemma finite_life_change:
  assumes "finite {K. looper_life (ls K) \<noteq> NotStarted}" "\<And>K. K \<noteq> L \<Longrightarrow> ls' K = ls K"
  shows "finite {K. looper_life (ls' K) \<noteq> NotStarted}"
  by (rule finite_subset [of _ "insert L {K. looper_life (ls K) \<noteq> NotStarted}"]) (use assms in auto)

lemma inv_change:
  assumes inv: "loop_inv_but P s"
    and same: "\<And>K. K \<noteq> L \<Longrightarrow> loopers s' K = loopers s K" "cells s' = cells s" "handled s' = handled s"
      "answers s' = answers s" "refused s' = refused s" "dead_cell s' = dead_cell s" "next_id s \<le> next_id s'"
    and ok: "looper_ok (next_id s') (loopers s' L)"
    and uni: "universe (loopers s' L) \<subseteq> universe (loopers s L) \<union> X" "\<And>K. universe (loopers s K) \<inter> X = {}"
      "X \<inter> set (refused s) = {}"
    and waits: "set (waits (loopers s' L)) = set (waits (loopers s L))"
    and owes: "owes (loopers s' L) \<subseteq> owes (loopers s L) \<union> P"
      "owes (loopers s L) \<union> P \<subseteq> owes (loopers s' L) \<union> set (cancelled (loopers s' L)) \<union> P'"
      "P' \<subseteq> P \<union> owes (loopers s L)" "set (cancelled (loopers s L)) \<subseteq> set (cancelled (loopers s' L))"
    and frames: "\<And>f. f \<in> set (frames (loopers s' L)) \<Longrightarrow> f \<in> set (frames (loopers s L)) \<or>
      frame_at f = Busy \<and> next_id s \<le> frame_stamp f \<and> frame_id f \<notin> fst ` set (handled s)"
    and queue: "\<And>m. m \<in> set (mMessageList (loopers s' L)) \<Longrightarrow> msg_id m \<notin> fst ` set (handled s)"
  shows "loop_inv_but P' s'"
proof -
  note d = loop_invD [OF inv]
  have w: "\<And>c. (\<exists>K. c \<in> set (waits (loopers s' K))) \<longleftrightarrow> (\<exists>K. c \<in> set (waits (loopers s K)))"
    using same(1) waits by metis
  have o: "\<And>c. (\<exists>K. c \<in> owes (loopers s' K)) \<Longrightarrow> c \<in> P \<or> (\<exists>K. c \<in> owes (loopers s K))"
    using same(1) owes(1) by (metis Un_iff in_mono)
  have o': "\<And>c. c \<in> P \<or> (\<exists>K. c \<in> owes (loopers s K) \<or> c \<in> set (cancelled (loopers s K))) \<Longrightarrow>
      c \<in> P' \<or> (\<exists>K. c \<in> owes (loopers s' K) \<or> c \<in> set (cancelled (loopers s' K)))"
  proof -
    fix c
    assume *: "c \<in> P \<or> (\<exists>K. c \<in> owes (loopers s K) \<or> c \<in> set (cancelled (loopers s K)))"
    show "c \<in> P' \<or> (\<exists>K. c \<in> owes (loopers s' K) \<or> c \<in> set (cancelled (loopers s' K)))"
    proof (cases "c \<in> P \<union> owes (loopers s L) \<union> set (cancelled (loopers s L))")
      case True
      then show ?thesis
        using owes(2,4) by blast
    next
      case False
      with * obtain K where "K \<noteq> L" "c \<in> owes (loopers s K) \<or> c \<in> set (cancelled (loopers s K))"
        by (metis Un_iff)
      then show ?thesis
        using same(1) by metis
    qed
  qed
  have new: "\<And>K f. f \<in> set (frames (loopers s' K)) \<Longrightarrow> f \<in> set (frames (loopers s K)) \<or>
      frame_at f = Busy \<and> next_id s \<le> frame_stamp f \<and> frame_id f \<notin> fst ` set (handled s)"
    using same(1) frames by metis
  have old: "\<And>K f. f \<in> set (frames (loopers s K)) \<Longrightarrow> frame_stamp f < next_id s"
    using d(1) unfolding looper_ok_def by blast
  have "cells_ok P' s'"
    unfolding cells_ok_def same(2,3) w
  proof (intro conjI allI impI)
    fix c v
    show "cells s c \<noteq> None \<longleftrightarrow> (\<exists>K. c \<in> set (waits (loopers s K)))"
      using cells_okD(1) [OF d(4)] .
    show "\<exists>v. cells s c = Some (False, v)" if "c \<in> P' \<or> (\<exists>K. c \<in> owes (loopers s' K))"
      using cells_okD(2) [OF d(4)] that o owes(3) by blast
    show "c \<in> P' \<or> (\<exists>K. c \<in> owes (loopers s' K) \<or> c \<in> set (cancelled (loopers s' K)))"
      if "cells s c = Some (False, v)"
      using cells_okD(3) [OF d(4) that] o' by blast
    show "(c, v) \<in> set (handled s)" if "cells s c = Some (True, v)"
      using cells_okD(4) [OF d(4) that] .
    show "c < next_id s'" if "cells s c \<noteq> None"
      using cells_okD(5) [OF d(4) that] same(7) by linarith
  qed
  moreover have "acks_ok s'"
    using d(5) new same(2,3) unfolding acks_ok_def by (metis point.distinct(3))
  moreover have "order_ok s'"
    using d(6) new old unfolding order_ok_def by (metis order_less_le_trans point.distinct(1))
  moreover have "handled_ok s'"
    unfolding handled_ok_def same(3,4,5)
  proof (intro conjI allI ballI impI)
    note h = handled_okD [OF d(7)]
    fix i K
    show "distinct (map fst (handled s))"
      by (rule h(1))
    show "i < next_id s'" if "i \<in> fst ` set (handled s)"
      using h(2) [OF that] same(7) by linarith
    show "frame_at f = Acked \<or> frame_at f = DoneSet"
      if "f \<in> set (frames (loopers s' K))" "frame_id f \<in> fst ` set (handled s)" for f
      using new [OF that(1)] h(3) that(2) by blast
    show "msg_id m \<notin> fst ` set (handled s)" if "m \<in> set (mMessageList (loopers s' K))" for m
      using that queue h(4) same(1) by (cases "K = L") auto
    show "i < next_id s'" "i \<notin> fst ` set (handled s)" if "i \<in> set (refused s)"
      using h(5) [OF that, of K] same(7) by auto
    show "i \<notin> universe (loopers s' K)" if "i \<in> set (refused s)"
      using h(5) [OF that] uni(1,3) that same(1) by (cases "K = L") auto
    show "(c, v) \<in> set (handled s) \<or> c \<in> set (refused s) \<and> v = 0" if "(c, v) \<in> set (answers s)" for c v
      using h(6) that .
  qed
  moreover have "apart universe (loopers s')"
    by (rule apart_change [OF d(2) same(1) uni(1,2)])
  moreover have "apart (set \<circ> waits) (loopers s')"
    by (rule apart_change [OF d(3) same(1), of L "{}"]) (use waits in auto)
  moreover have "looper_ok (next_id s') (loopers s' K)" for K
    using ok looper_ok_mono [OF d(1) same(7)] same(1) by metis
  moreover have "finite {K. looper_life (loopers s' K) \<noteq> NotStarted}"
    by (rule finite_life_change [OF d(8) same(1)])
  ultimately show ?thesis
    using d(9) same(6) by (simp add: loop_inv_but_def)
qed

section \<open>Placing a message\<close>

lemma fresh_next:
  assumes "loop_inv_but P s"
  shows "next_id s \<notin> universe (loopers s L)" "next_id s \<notin> set (refused s)" "next_id s \<notin> fst ` set (handled s)"
    "cells s (next_id s) = None"
proof -
  note d = loop_invD [OF assms]
  show "next_id s \<notin> universe (loopers s L)"
    using d(1) [of L] unfolding looper_ok_def by blast
  show "next_id s \<notin> set (refused s)" "next_id s \<notin> fst ` set (handled s)"
    using handled_okD(2,5) [OF d(7)] by blast+
  show "cells s (next_id s) = None"
    using cells_okD(5) [OF d(4), of "next_id s"] by blast
qed

text \<open>A message that is in no place yet.\<close>

definition unplaced :: "nat set \<Rightarrow> loop_message \<Rightarrow> loop_sys \<Rightarrow> bool" where
  "unplaced P m s \<longleftrightarrow> msg_ok m \<and> msg_id m < next_id s \<and> (\<forall>L. msg_id m \<notin> universe (loopers s L)) \<and>
     msg_id m \<notin> set (refused s) \<and> msg_id m \<notin> fst ` set (handled s) \<and> (msg_done m \<noteq> None \<longrightarrow> msg_id m \<in> P)"

definition owed_by :: "loop_message \<Rightarrow> nat set" where
  "owed_by m = (if msg_done m = None then {} else {msg_id m})"

lemma owes_push [simp]:
  "owes (l\<lparr>frames := \<lparr>frame_msg = m, frame_at = Busy, frame_stamp = n\<rparr> # frames l\<rparr>) = owes l \<union> owed_by m"
  "owes (l\<lparr>mMessageList := mMessageList l @ [m], accepted := a\<rparr>) = owes l \<union> owed_by m"
  by (auto simp: owes_def owed_by_def)

lemma loop_inv_next:
  assumes "loop_inv_but P s" "next_id s \<le> n"
  shows "loop_inv_but P (s\<lparr>next_id := n\<rparr>)"
  by (rule inv_change [OF assms(1), of 0 _ "{}"])
    (use looper_ok_mono [OF loop_invD(1) [OF assms(1)] assms(2)] handled_okD(4) [OF loop_invD(7) [OF assms(1)]] assms(2) in auto)

lemma looper_ok_push_message:
  assumes "looper_ok n l" "mLooperRunning l" "msg_ok m" "msg_id m < n" "msg_id m \<notin> universe l"
  shows "looper_ok n (l\<lparr>mMessageList := mMessageList l @ [m], accepted := accepted l @ [msg_id m]\<rparr>)"
  using assms by (auto simp: looper_ok_def life_ok_def fifo_ok_def universe_def ids_def waits_def)

lemma push_message_inv:
  assumes "loop_inv_but P s" "mLooperRunning (loopers s T)" "unplaced P m s"
  shows "loop_inv_but (P - owed_by m) (push_message T m s)"
proof (rule inv_change [OF assms(1), of T _ "{msg_id m}"])
  note d = loop_invD [OF assms(1)]
  show "looper_ok (next_id (push_message T m s)) (loopers (push_message T m s) T)"
    using looper_ok_push_message [OF d(1) assms(2)] assms(3) by (simp add: push_message_def unplaced_def)
  show "msg_id x \<notin> fst ` set (handled s)" if "x \<in> set (mMessageList (loopers (push_message T m s) T))" for x
    using that handled_okD(4) [OF d(7)] assms(3) by (auto simp: push_message_def unplaced_def)
qed (use assms(3) in \<open>auto simp: push_message_def unplaced_def universe_def ids_def waits_def owed_by_def\<close>)

lemma looper_ok_push_frame:
  assumes "looper_ok n l" "mLooperRunning l \<or> mAttachThread l" "msg_ok m" "msg_id m < n" "msg_id m \<notin> universe l"
  shows "looper_ok (Suc n) (l\<lparr>frames := \<lparr>frame_msg = m, frame_at = Busy, frame_stamp = n\<rparr> # frames l\<rparr>)"
  using assms by (auto simp: looper_ok_def life_ok_def fifo_ok_def universe_def ids_def waits_def frame_ok_def less_Suc_eq)

lemma push_frame_inv:
  assumes "loop_inv_but P s" "mLooperRunning (loopers s L) \<or> mAttachThread (loopers s L)" "unplaced P m s"
  shows "loop_inv_but (P - owed_by m) (push_frame L m s)"
proof (rule inv_change [OF assms(1), of L _ "{msg_id m}"])
  note d = loop_invD [OF assms(1)]
  show "looper_ok (next_id (push_frame L m s)) (loopers (push_frame L m s) L)"
    using looper_ok_push_frame [OF d(1) assms(2)] assms(3) by (simp add: push_frame_def unplaced_def)
  show "msg_id x \<notin> fst ` set (handled s)" if "x \<in> set (mMessageList (loopers (push_frame L m s) L))" for x
    using that handled_okD(4) [OF d(7)] by (auto simp: push_frame_def)
  show "f \<in> set (frames (loopers s L)) \<or> frame_at f = Busy \<and> next_id s \<le> frame_stamp f \<and>
      frame_id f \<notin> fst ` set (handled s)" if "f \<in> set (frames (loopers (push_frame L m s) L))" for f
  proof -
    have "f = \<lparr>frame_msg = m, frame_at = Busy, frame_stamp = next_id s\<rparr> \<or> f \<in> set (frames (loopers s L))"
      using that by (simp add: push_frame_def)
    then show ?thesis
      by (rule disjE) (use assms(3) in \<open>simp_all add: unplaced_def\<close>)
  qed
qed (use assms(3) in \<open>auto simp: push_frame_def unplaced_def universe_def ids_def waits_def owed_by_def\<close>)

section \<open>The operations that do not touch a call\<close>

lemma sys_next_simps [simp]: "loopers (s\<lparr>next_id := n\<rparr>) = loopers s"
  by simp

lemma unplaced_next:
  assumes "loop_inv_but P s" "msg_id m = next_id s" "msg_ok m" "msg_done m \<noteq> None \<Longrightarrow> msg_id m \<in> P"
  shows "unplaced P m (s\<lparr>next_id := Suc (next_id s)\<rparr>)"
  using assms fresh_next [OF assms(1)] by (auto simp: unplaced_def)

lemma postMessage_inv:
  assumes "loop_inv_but P s"
  shows "loop_inv_but P (snd (LooperImpl_postMessage T h msg wp lp s))"
proof (cases "mLooperRunning (loopers s T) \<and> \<not> mAttachThread (loopers s T)")
  case True
  let ?m = "\<lparr>msg_id = next_id s, msg_handler = h, msg_code = msg, msg_wp = wp, msg_lp = lp, msg_done = None,
    msg_wait_ack = False, msg_send_looper = None\<rparr>"
  have "loop_inv_but (P - owed_by ?m) (push_message T ?m (s\<lparr>next_id := Suc (next_id s)\<rparr>))"
    using True assms by (intro push_message_inv loop_inv_next unplaced_next) (simp_all add: msg_ok_def)
  then show ?thesis
    using True by (simp add: LooperImpl_postMessage_def owed_by_def)
qed (use assms in \<open>auto simp: LooperImpl_postMessage_def Let_def\<close>)

lemma postMessage_other:
  "K \<noteq> T \<Longrightarrow> loopers (snd (LooperImpl_postMessage T h msg wp lp s)) K = loopers s K"
  "mLooperRunning (loopers (snd (LooperImpl_postMessage T h msg wp lp s)) K) = mLooperRunning (loopers s K)"
  "mAttachThread (loopers (snd (LooperImpl_postMessage T h msg wp lp s)) K) = mAttachThread (loopers s K)"
  "frames (loopers (snd (LooperImpl_postMessage T h msg wp lp s)) K) = frames (loopers s K)"
  "mBMQuit (loopers (snd (LooperImpl_postMessage T h msg wp lp s)) K) = mBMQuit (loopers s K)"
  "cancelled (loopers (snd (LooperImpl_postMessage T h msg wp lp s)) K) = cancelled (loopers s K)"
  "cells (snd (LooperImpl_postMessage T h msg wp lp s)) = cells s"
  by (simp_all add: LooperImpl_postMessage_def push_message_def Let_def)

text \<open>Updates of a looper that leave its messages and frames alone.\<close>

definition same_places :: "looper \<Rightarrow> looper \<Rightarrow> bool" where
  "same_places l l' \<longleftrightarrow> mMessageList l' = mMessageList l \<and> frames l' = frames l \<and> accepted l' = accepted l \<and>
     taken l' = taken l \<and> cancelled l' = cancelled l"

lemma upd_same_inv:
  assumes "loop_inv_but P s" "same_places (loopers s L) (f (loopers s L))" "life_ok (f (loopers s L))"
  shows "loop_inv_but P (upd_looper L f s)"
proof (rule inv_change [OF assms(1), of L _ "{}"])
  note d = loop_invD [OF assms(1)]
  note same = assms(2) [unfolded same_places_def]
  have v: "ids (f (loopers s L)) = ids (loopers s L)" "waits (f (loopers s L)) = waits (loopers s L)"
    "owes (f (loopers s L)) = owes (loopers s L)" "universe (f (loopers s L)) = universe (loopers s L)"
    using same by (simp_all add: ids_def waits_def owes_def universe_def)
  show "looper_ok (next_id (upd_looper L f s)) (loopers (upd_looper L f s) L)"
    using d(1) [of L] assms(3) same v by (simp add: looper_ok_def fifo_ok_def)
  show "universe (loopers (upd_looper L f s) L) \<subseteq> universe (loopers s L) \<union> {}"
    "set (waits (loopers (upd_looper L f s) L)) = set (waits (loopers s L))"
    "owes (loopers (upd_looper L f s) L) \<subseteq> owes (loopers s L) \<union> P"
    "owes (loopers s L) \<union> P \<subseteq> owes (loopers (upd_looper L f s) L) \<union> set (cancelled (loopers (upd_looper L f s) L)) \<union> P"
    "set (cancelled (loopers s L)) \<subseteq> set (cancelled (loopers (upd_looper L f s) L))"
    using v same by auto
  show "msg_id m \<notin> fst ` set (handled s)" if "m \<in> set (mMessageList (loopers (upd_looper L f s) L))" for m
    using that handled_okD(4) [OF d(7)] same by simp
qed (use assms(2) in \<open>auto simp: same_places_def\<close>)

lemma life_okD: "loop_inv_but P s \<Longrightarrow> life_ok (loopers s L)"
  using loop_invD(1) looper_ok_def by blast

lemma looper_OnMessage_inv:
  assumes "loop_inv_but P s"
  shows "loop_inv_but P (looper_OnMessage L msg wp s)"
proof -
  have flag: "loop_inv_but P (upd_looper L f s)"
    if "loop_inv_but P s" "same_places (loopers s L) (f (loopers s L))"
      "mLooperRunning (f (loopers s L)) = mLooperRunning (loopers s L)"
      "mAttachThread (f (loopers s L)) = mAttachThread (loopers s L)"
      "looper_life (f (loopers s L)) = looper_life (loopers s L)" for f s
    by (rule upd_same_inv [where f = f, OF that(1,2)])
      (use life_okD [OF that(1)] that(2-) in \<open>simp add: life_ok_def same_places_def\<close>)
  show ?thesis
    unfolding looper_OnMessage_def OnBMQuit_def Wakeup_def Let_def
    using assms by (auto intro!: postMessage_inv flag simp: same_places_def simp del: loopers_upd)
qed

lemma dispatchMessage_inv:
  assumes "loop_inv_but P s" "mLooperRunning (loopers s L) \<or> mAttachThread (loopers s L)" "unplaced P m s"
  shows "loop_inv_but (P - owed_by m) (dispatchMessage L m s)"
  using push_frame_inv [OF assms] looper_OnMessage_inv by (simp add: dispatchMessage_def Let_def)

lemma run_bare_inv:
  assumes "loop_inv_but P s" "mLooperRunning (loopers s L) \<or> mAttachThread (loopers s L)"
  shows "loop_inv_but P (run_bare L s)"
proof -
  let ?m = "bare_message (next_id s)"
  have "unplaced P ?m (s\<lparr>next_id := Suc (next_id s)\<rparr>)"
    by (rule unplaced_next [OF assms(1)]) (simp_all add: bare_message_def msg_ok_def)
  then have "loop_inv_but (P - owed_by ?m) (push_frame L ?m (s\<lparr>next_id := Suc (next_id s)\<rparr>))"
    using assms by (intro push_frame_inv loop_inv_next) simp_all
  then show ?thesis
    by (simp add: run_bare_def owed_by_def bare_message_def)
qed

lemma in_loop_alive:
  assumes "loop_inv_but P s" "in_loop L s"
  shows "mLooperRunning (loopers s L) \<or> mAttachThread (loopers s L)"
  using life_okD [OF assms(1), of L] assms(2)
  by (auto simp: in_loop_def top_point_def life_ok_def split: list.splits)

lemma looper_ok_take:
  assumes "looper_ok n l" "mLooperRunning l \<or> mAttachThread l" "mMessageList l = m # ms"
  shows "looper_ok (Suc n) (l\<lparr>mMessageList := ms, taken := taken l @ [msg_id m],
    frames := \<lparr>frame_msg = m, frame_at = Busy, frame_stamp = n\<rparr> # frames l\<rparr>)"
  using assms by (auto simp: looper_ok_def life_ok_def fifo_ok_def universe_def ids_def waits_def frame_ok_def less_Suc_eq)

lemma SingleStep_inv:
  assumes "loop_inv s" "in_loop L s"
  shows "loop_inv (SingleStep L s)"
proof (cases "mMessageList (loopers s L)")
  case Nil
  then show ?thesis
    using assms(1) by (simp add: SingleStep_def getMessage_def)
next
  case (Cons m ms)
  note d = loop_invD [OF assms(1)]
  let ?s = "push_frame L m (upd_looper L (\<lambda>l. l\<lparr>mMessageList := ms, taken := taken l @ [msg_id m]\<rparr>) s)"
  have l': "loopers ?s L = (loopers s L)\<lparr>mMessageList := ms, taken := taken (loopers s L) @ [msg_id m],
      frames := \<lparr>frame_msg = m, frame_at = Busy, frame_stamp = next_id s\<rparr> # frames (loopers s L)\<rparr>"
    by (simp add: push_frame_def)
  have m: "msg_id m \<notin> fst ` set (handled s)"
    using handled_okD(4) [OF d(7), of m L] Cons by simp
  have "loop_inv ?s"
  proof (rule inv_change [OF assms(1), of L _ "{}"])
    show "looper_ok (next_id ?s) (loopers ?s L)"
      using looper_ok_take [OF d(1) in_loop_alive [OF assms] Cons] by (simp add: push_frame_def)
    show "msg_id x \<notin> fst ` set (handled s)" if "x \<in> set (mMessageList (loopers ?s L))" for x
      using that handled_okD(4) [OF d(7), of x L] Cons by (simp add: l')
    show "f \<in> set (frames (loopers s L)) \<or> frame_at f = Busy \<and> next_id s \<le> frame_stamp f \<and>
        frame_id f \<notin> fst ` set (handled s)" if "f \<in> set (frames (loopers ?s L))" for f
    proof -
      have "f = \<lparr>frame_msg = m, frame_at = Busy, frame_stamp = next_id s\<rparr> \<or> f \<in> set (frames (loopers s L))"
        using that by (simp add: l')
      then show ?thesis
        by (rule disjE) (use m in simp_all)
    qed
    show "universe (loopers ?s L) \<subseteq> universe (loopers s L) \<union> {}"
      "set (waits (loopers ?s L)) = set (waits (loopers s L))"
      "owes (loopers ?s L) \<subseteq> owes (loopers s L) \<union> {}"
      "owes (loopers s L) \<union> {} \<subseteq> owes (loopers ?s L) \<union> set (cancelled (loopers ?s L)) \<union> {}"
      using Cons by (auto simp: l' universe_def ids_def waits_def owes_def)
  qed (auto simp: push_frame_def)
  then show ?thesis
    using looper_OnMessage_inv Cons by (simp add: SingleStep_def getMessage_def dispatchMessage_def Let_def)
qed

lemma Cancel_inv:
  assumes "loop_inv s"
  shows "loop_inv (CancelRunnableInQueue r h x L s)"
proof -
  note d = loop_invD [OF assms]
  let ?s = "CancelRunnableInQueue r h x L s" and ?l = "loopers s L" and ?p = "runnable_matches r h x"
  have l': "loopers ?s L = ?l\<lparr>mMessageList := filter (\<lambda>m. \<not> ?p m) (mMessageList ?l),
      cancelled := cancelled ?l @ map msg_id (filter ?p (mMessageList ?l))\<rparr>"
    by (simp add: CancelRunnableInQueue_def)
  have old: "looper_ok (next_id s) ?l"
    by (rule d(1))
  then have dist: "distinct (map msg_id (mMessageList ?l))"
    and fifo: "filter (\<lambda>i. i \<notin> set (cancelled ?l)) (accepted ?l) = taken ?l @ map msg_id (mMessageList ?l)"
    and da: "distinct (accepted ?l)"
    by (simp_all add: looper_ok_def ids_def fifo_ok_def)
  let ?c = "msg_id ` set (filter ?p (mMessageList ?l))"
  have tk: "i \<notin> ?c" if "i \<in> set (taken ?l)" for i
  proof -
    have "distinct (taken ?l @ map msg_id (mMessageList ?l))"
      using da unfolding fifo [symmetric] by (rule distinct_filter)
    then show ?thesis
      using that by auto
  qed
  have qu: "filter (\<lambda>i. i \<notin> ?c) (map msg_id (mMessageList ?l)) = map msg_id (filter (\<lambda>m. \<not> ?p m) (mMessageList ?l))"
  proof -
    have "filter (\<lambda>m. msg_id m \<notin> ?c) (mMessageList ?l) = filter (\<lambda>m. \<not> ?p m) (mMessageList ?l)"
      using dist by (intro filter_cong) (auto dest: inj_onD simp: distinct_map)
    then show ?thesis
      by (simp add: filter_map comp_def)
  qed
  have "filter (\<lambda>i. i \<notin> set (cancelled ?l) \<union> ?c) (accepted ?l) =
      filter (\<lambda>i. i \<notin> ?c) (filter (\<lambda>i. i \<notin> set (cancelled ?l)) (accepted ?l))"
    by (simp add: conj_commute)
  also have "\<dots> = taken ?l @ map msg_id (filter (\<lambda>m. \<not> ?p m) (mMessageList ?l))"
    unfolding fifo filter_append qu using tk by (simp add: filter_id_conv del: set_filter)
  finally have fifo': "filter (\<lambda>i. i \<notin> set (cancelled ?l) \<union> ?c) (accepted ?l) =
      taken ?l @ map msg_id (filter (\<lambda>m. \<not> ?p m) (mMessageList ?l))" .
  have sub: "set (map msg_id (mMessageList ?l)) \<subseteq> set (accepted ?l)"
    using arg_cong [OF fifo, of set] by auto
  have gone: "i \<notin> msg_id ` {m \<in> set (mMessageList ?l). \<not> ?p m} \<and> i \<notin> frame_id ` set (frames ?l)" if "i \<in> ?c" for i
    using old that dist by (auto simp: looper_ok_def ids_def distinct_map dest: inj_onD)
  show ?thesis
  proof (rule inv_change [OF assms, of L _ "{}"])
    have "fifo_ok (loopers ?s L)"
      using old fifo' sub gone unfolding l' fifo_ok_def looper_ok_def ids_def by auto
    then show "looper_ok (next_id ?s) (loopers ?s L)"
      using old unfolding l' looper_ok_def
      by (auto simp: CancelRunnableInQueue_def life_ok_def universe_def ids_def waits_def distinct_map_filter)
    show "owes ?l \<union> {} \<subseteq> owes (loopers ?s L) \<union> set (cancelled (loopers ?s L)) \<union> {}"
      unfolding l' owes_def by auto
    show "msg_id m \<notin> fst ` set (handled s)" if "m \<in> set (mMessageList (loopers ?s L))" for m
      using that handled_okD(4) [OF d(7), of m L] by (simp add: l')
  qed (auto simp: CancelRunnableInQueue_def universe_def ids_def waits_def owes_def)
qed

end
