(* ===== verification/LooperMsgCalls.thy ===== *)
theory LooperMsgCalls
  imports LooperMsgInv
begin

text \<open>
  Every step of the message core keeps the invariant: starting and stopping loopers, and the
  life of a call of \<^verbatim>\<open>sendMessage\<close>, from its cell to its answer.
\<close>

section \<open>Starting and stopping\<close>

lemma Start_inv:
  assumes "loop_inv s" "looper_life (loopers s L) = NotStarted"
  shows "loop_inv (StartHelper L s)"
  unfolding StartHelper_def
  by (rule upd_same_inv [OF assms(1)])
    (use life_okD [OF assms(1), of L] assms(2) in \<open>auto simp: same_places_def life_ok_def\<close>)

lemma Attach_inv:
  assumes "loop_inv s" "looper_life (loopers s L) = NotStarted"
  shows "loop_inv (AttachThread L s)"
  unfolding AttachThread_def
proof (rule run_bare_inv)
  show "loop_inv (upd_looper L (\<lambda>l. l\<lparr>looper_life := Started, mAttachThread := True\<rparr>) s)"
    by (rule upd_same_inv [OF assms(1)])
      (use life_okD [OF assms(1), of L] assms(2) in \<open>auto simp: same_places_def life_ok_def\<close>)
qed simp

lemma Run_quit_inv:
  assumes "loop_inv s" "in_loop L s" "top_point L s = None"
  shows "loop_inv (Run_quit L s)"
proof (cases "mBMQuit (loopers s L) \<and> mMessageList (loopers s L) = []")
  case True
  have "loop_inv (upd_looper L (\<lambda>l. l\<lparr>mLooperRunning := False, looper_life := Exited\<rparr>) s)"
    by (rule upd_same_inv [OF assms(1)])
      (use life_okD [OF assms(1), of L] assms(2,3) True in
        \<open>auto simp: same_places_def life_ok_def in_loop_def top_point_def split: list.splits\<close>)
  with True show ?thesis
    by (simp add: Run_quit_def)
next
  case False
  then have "Run_quit L s = s"
    unfolding Run_quit_def by (rule if_not_P)
  then show ?thesis
    using assms(1) by simp
qed

lemma Release_inv:
  assumes "loop_inv s" "looper_life (loopers s L) = Exited"
  shows "loop_inv (upd_looper L (\<lambda>l. l\<lparr>looper_life := Freed\<rparr>) s)"
  by (rule upd_same_inv [OF assms(1)])
    (use life_okD [OF assms(1), of L] assms(2) in \<open>auto simp: same_places_def life_ok_def\<close>)

section \<open>The innermost frame\<close>

lemma top_frame:
  assumes "top_point L s = Some p"
  obtains f fs where "frames (loopers s L) = f # fs" "frame_at f = p" "top_msg L s = frame_msg f"
  using assms that by (auto simp: top_point_def top_msg_def split: list.splits)

lemma unique_frame:
  assumes "loop_inv_but P s" "f \<in> set (frames (loopers s L))"
  shows "g \<in> set (frames (loopers s K)) \<Longrightarrow> frame_id g = frame_id f \<Longrightarrow> K = L \<and> g = f"
    "m \<in> set (mMessageList (loopers s K)) \<Longrightarrow> msg_id m \<noteq> frame_id f"
proof -
  note d = loop_invD [OF assms(1)]
  have dist: "distinct (ids (loopers s L))"
    using d(1) [of L] by (simp add: looper_ok_def)
  have f: "frame_id f \<in> universe (loopers s L)"
    using assms(2) by (simp add: universe_def ids_def)
  have other: "frame_id f \<notin> universe (loopers s K)" if "K \<noteq> L" for K
    using d(2) that f unfolding apart_def by blast
  show "K = L \<and> g = f" if "g \<in> set (frames (loopers s K))" "frame_id g = frame_id f"
  proof -
    have "frame_id f \<in> universe (loopers s K)"
      using that imageI [OF that(1), of frame_id] by (simp add: universe_def ids_def)
    then have "K = L"
      using other by blast
    moreover have "g = f"
      using dist that assms(2) \<open>K = L\<close> by (auto simp: ids_def distinct_map dest: inj_onD)
    ultimately show ?thesis ..
  qed
  show "msg_id m \<noteq> frame_id f" if "m \<in> set (mMessageList (loopers s K))"
  proof
    assume eq: "msg_id m = frame_id f"
    have "msg_id m \<in> universe (loopers s K)"
      using that by (simp add: universe_def ids_def)
    then have "K = L"
      using other eq by metis
    moreover have "frame_id f \<in> frame_id ` set (frames (loopers s L))"
      using assms(2) by (rule imageI)
    ultimately show False
      using dist that eq imageI [OF that, of msg_id] by (auto simp: ids_def)
  qed
qed

lemma frame_okD:
  assumes "loop_inv_but P s" "f \<in> set (frames (loopers s L))"
  shows "frame_ok f" "frame_id f < next_id s" "msg_done (frame_msg f) \<noteq> None \<Longrightarrow> msg_done (frame_msg f) = Some (frame_id f)"
  using loop_invD(1) [OF assms(1), of L] assms(2) by (auto simp: looper_ok_def frame_ok_def msg_ok_def universe_def ids_def)

lemma waits_cell:
  assumes "loop_inv_but P s" "f \<in> set (frames (loopers s L))" "frame_at f = Waiting c"
  shows "cells s c \<noteq> None" "c < next_id s" "c \<in> set (waits (loopers s L))"
proof -
  show w: "c \<in> set (waits (loopers s L))"
    using assms(2,3) by (force simp: waits_def)
  then show "cells s c \<noteq> None"
    using cells_okD(1) [OF loop_invD(4) [OF assms(1)]] by blast
  then show "c < next_id s"
    by (rule cells_okD(5) [OF loop_invD(4) [OF assms(1)]])
qed

section \<open>Opening a call\<close>

definition open_call :: "nat \<Rightarrow> loop_sys \<Rightarrow> loop_sys" where
  "open_call L s =
     set_top L (Waiting (next_id s)) (s\<lparr>next_id := Suc (next_id s), cells := (cells s)(next_id s \<mapsto> (False, 0))\<rparr>)"

lemma open_call_inv:
  assumes inv: "loop_inv s" and top: "top_point L s = Some Busy"
  shows "loop_inv_but {next_id s} (open_call L s)"
proof -
  note d = loop_invD [OF inv]
  obtain f fs where f: "frames (loopers s L) = f # fs" "frame_at f = Busy"
    by (rule top_frame [OF top]) (rule that)
  let ?n = "next_id s" and ?s = "open_call L s" and ?f = "f\<lparr>frame_at := Waiting (next_id s)\<rparr>"
  have new: "loopers ?s K = (if K = L then (loopers s L)\<lparr>frames := ?f # fs\<rparr> else loopers s K)" for K
    by (simp add: open_call_def set_top_def f(1))
  have fields: "cells ?s = (cells s)(?n \<mapsto> (False, 0))" "next_id ?s = Suc ?n" "handled ?s = handled s"
    "answers ?s = answers s" "refused ?s = refused s" "dead_cell ?s = dead_cell s"
    by (simp_all add: open_call_def set_top_def)
  have v: "ids (loopers ?s K) = ids (loopers s K)" "owes (loopers ?s K) = owes (loopers s K)"
    "universe (loopers ?s K) = universe (loopers s K)"
    "set (waits (loopers ?s K)) = set (waits (loopers s K)) \<union> (if K = L then {?n} else {})"
    "mMessageList (loopers ?s K) = mMessageList (loopers s K)" "cancelled (loopers ?s K) = cancelled (loopers s K)" for K
    using f by (cases "K = L"; simp add: new ids_def owes_def universe_def waits_def)+
  note fresh = fresh_next [OF inv]
  have nw: "?n \<notin> set (waits (loopers s K))" for K
    using cells_okD(1) [OF d(4), of ?n] fresh(4) by blast
  have no: "?n \<notin> owes (loopers s K)" for K
    using cells_okD(2) [OF d(4), of ?n] fresh(4) by auto
  have frames: "(g = ?f \<and> K = L) \<or> g \<in> set (frames (loopers s K))" if "g \<in> set (frames (loopers ?s K))" for g K
    using that f by (auto simp: new split: if_splits)
  have fid: "frame_id g \<noteq> ?n" if "g \<in> set (frames (loopers s K))" for g K
    using frame_okD(2) [OF inv that] by simp
  have fL: "f \<in> set (frames (loopers s L))"
    by (simp add: f(1))
  have "looper_ok (Suc ?n) (loopers s K)" for K
    by (rule looper_ok_mono [OF d(1)]) simp
  then have "looper_ok (next_id ?s) (loopers ?s K)" for K
  proof (cases "K = L")
    case True
    have "frame_ok ?f" "distinct (waits (loopers ?s L))"
      using frame_okD(1) [OF inv fL] f nw [of L] d(1) [of L]
      by (auto simp: frame_ok_def waits_def new looper_ok_def)
    then show ?thesis
      using \<open>looper_ok (Suc ?n) (loopers s K)\<close> v [of L] f True
      by (auto simp: new looper_ok_def life_ok_def fifo_ok_def fields)
  qed (simp add: new fields)
  moreover have "apart universe (loopers ?s)"
    using d(2) by (simp add: apart_def v)
  moreover have "apart (set \<circ> waits) (loopers ?s)"
  proof (rule apart_change [OF d(3), of L _ "{?n}"])
    show "loopers ?s K = loopers s K" if "K \<noteq> L" for K
      using that by (simp add: new)
    show "(set \<circ> waits) (loopers ?s L) \<subseteq> (set \<circ> waits) (loopers s L) \<union> {?n}"
      using v(4) [of L] by simp
    show "(set \<circ> waits) (loopers s K) \<inter> {?n} = {}" for K
      using nw by simp
  qed
  moreover have "cells_ok {?n} ?s"
  proof -
    have w: "(\<exists>K. c \<in> set (waits (loopers ?s K))) \<longleftrightarrow> c = ?n \<or> (\<exists>K. c \<in> set (waits (loopers s K)))" for c
      unfolding v(4) by (auto split: if_splits)
    show ?thesis
      unfolding cells_ok_def fields w v(2,6) using cells_okD [OF d(4)] no
      by (auto simp: less_Suc_eq split: if_splits)
  qed
  moreover have "acks_ok ?s"
    using d(5) frames fid unfolding acks_ok_def fields by fastforce
  moreover have "order_ok ?s"
  proof -
    have "frame_stamp g < frame_stamp h"
      if "g \<in> set (frames (loopers ?s K))" "h \<in> set (frames (loopers ?s M))" "frame_at g = Waiting (frame_id h)"
        "msg_done (frame_msg h) \<noteq> None" for g h K M
    proof -
      have h: "\<exists>h'\<in>set (frames (loopers s M)). frame_msg h' = frame_msg h \<and> frame_stamp h' = frame_stamp h"
        using frames [OF that(2)] fL by force
      then have "frame_id h \<noteq> ?n"
        using fid by metis
      then have "g \<in> set (frames (loopers s K))"
        using frames [OF that(1)] that(3) by auto
      then show ?thesis
        using h d(6) that(3,4) unfolding order_ok_def by metis
    qed
    then show ?thesis
      unfolding order_ok_def by blast
  qed
  moreover have "handled_ok ?s"
    unfolding handled_ok_def fields v
  proof (intro conjI allI ballI impI)
    note h = handled_okD [OF d(7)]
    fix i K
    show "distinct (map fst (handled s))"
      by (rule h(1))
    show "i < Suc ?n" if "i \<in> fst ` set (handled s)"
      using h(2) [OF that] by simp
    show "frame_at g = Acked \<or> frame_at g = DoneSet"
      if "g \<in> set (frames (loopers ?s K))" "frame_id g \<in> fst ` set (handled s)" for g
    proof (cases "g = ?f")
      case True
      then have "frame_id f \<in> fst ` set (handled s)"
        using that(2) by simp
      then show ?thesis
        using h(3) [OF fL] f(2) by simp
    next
      case False
      then show ?thesis
        using frames [OF that(1)] h(3) that(2) by blast
    qed
    show "msg_id m \<notin> fst ` set (handled s)" if "m \<in> set (mMessageList (loopers s K))" for m
      by (rule h(4) [OF that])
    show "i < Suc ?n" "i \<notin> fst ` set (handled s)" "i \<notin> universe (loopers s K)" if "i \<in> set (refused s)"
      using h(5) [OF that, of K] by auto
    show "(c, v) \<in> set (handled s) \<or> c \<in> set (refused s) \<and> v = 0" if "(c, v) \<in> set (answers s)" for c v
      by (rule h(6) [OF that])
  qed
  moreover have "finite {K. looper_life (loopers ?s K) \<noteq> NotStarted}"
  proof -
    have "looper_life (loopers ?s K) = looper_life (loopers s K)" for K
      by (simp add: new)
    then show ?thesis
      using d(8) by simp
  qed
  ultimately show ?thesis
    using d(9) by (simp add: loop_inv_but_def fields)
qed

section \<open>Leaving a point\<close>

lemma top_shrink:
  assumes inv: "loop_inv_but P s" and f: "frames (loopers s L) = f # fs"
    and new: "loopers s' = (loopers s)(L := (loopers s L)\<lparr>frames := new\<rparr>)" "next_id s' = next_id s"
    and shape: "new = fs \<or> (\<exists>p. new = f\<lparr>frame_at := p\<rparr> # fs \<and> frame_ok (f\<lparr>frame_at := p\<rparr>) \<and> (\<forall>c. p \<noteq> Waiting c))"
  shows "looper_ok (next_id s') (loopers s' K)" "apart universe (loopers s')" "apart (set \<circ> waits) (loopers s')"
    "order_ok s'" "finite {K. looper_life (loopers s' K) \<noteq> NotStarted}"
proof -
  note d = loop_invD [OF inv]
  let ?l = "loopers s L" and ?l' = "loopers s' L"
  have l': "?l' = ?l\<lparr>frames := new\<rparr>"
    by (simp add: new)
  have w: "set (waits ?l') \<subseteq> set (waits ?l)" "distinct (waits ?l) \<Longrightarrow> distinct (waits ?l')"
  proof -
    let ?W = "concat (map (\<lambda>f. case frame_at f of Waiting c \<Rightarrow> [c] | _ \<Rightarrow> []) fs)"
    have "waits ?l = (case frame_at f of Waiting c \<Rightarrow> [c] | _ \<Rightarrow> []) @ ?W"
      by (simp add: waits_def f)
    moreover have "waits ?l' = ?W"
      using shape by (auto simp: l' waits_def split: point.splits)
    ultimately show "set (waits ?l') \<subseteq> set (waits ?l)" "distinct (waits ?l) \<Longrightarrow> distinct (waits ?l')"
      by simp_all
  qed
  have i: "set (ids ?l') \<subseteq> set (ids ?l)" "distinct (ids ?l) \<Longrightarrow> distinct (ids ?l')"
  proof -
    let ?q = "map msg_id (mMessageList ?l)"
    have old: "ids ?l = ?q @ frame_id f # map frame_id fs"
      by (simp add: ids_def f)
    have "ids ?l' = ?q @ map frame_id fs \<or> ids ?l' = ids ?l"
      using shape by (auto simp: l' ids_def f)
    then show "set (ids ?l') \<subseteq> set (ids ?l)" "distinct (ids ?l) \<Longrightarrow> distinct (ids ?l')"
      unfolding old by (elim disjE; force)+
  qed
  then have u: "universe ?l' \<subseteq> universe ?l"
    by (auto simp: universe_def l')
  have "looper_ok (next_id s') ?l'"
    using d(1) [of L] w(2) i u shape unfolding looper_ok_def
    by (auto simp: l' new(2) life_ok_def fifo_ok_def f)
  then show "looper_ok (next_id s') (loopers s' K)"
    using d(1) [of K] by (cases "K = L") (simp_all add: new)
  show "apart universe (loopers s')"
    by (rule apart_change [OF d(2), of L _ "{}"]) (use u in \<open>auto simp: new\<close>)
  show "apart (set \<circ> waits) (loopers s')"
    by (rule apart_change [OF d(3), of L _ "{}"]) (use w(1) in \<open>auto simp: new\<close>)
  show "finite {K. looper_life (loopers s' K) \<noteq> NotStarted}"
    by (rule finite_life_change [OF d(8), of L]) (simp add: new)
  have old: "\<exists>g'\<in>set (frames (loopers s K)). frame_msg g' = frame_msg g \<and> frame_stamp g' = frame_stamp g \<and>
      (\<forall>c. frame_at g = Waiting c \<longrightarrow> frame_at g' = Waiting c)" if "g \<in> set (frames (loopers s' K))" for g K
  proof (cases "K = L")
    case True
    then show ?thesis
      using that shape by (auto simp: new f)
  next
    case False
    then show ?thesis
      using that by (auto simp: new)
  qed
  show "order_ok s'"
    unfolding order_ok_def
  proof (intro allI impI)
    fix K M g h
    assume g: "g \<in> set (frames (loopers s' K))" and h: "h \<in> set (frames (loopers s' M))"
      and w: "frame_at g = Waiting (frame_id h)" "msg_done (frame_msg h) \<noteq> None"
    obtain g' where g': "g' \<in> set (frames (loopers s K))" "frame_stamp g' = frame_stamp g" "frame_at g' = Waiting (frame_id h)"
      using old [OF g] w(1) by blast
    obtain h' where h': "h' \<in> set (frames (loopers s M))" "frame_stamp h' = frame_stamp h" "frame_msg h' = frame_msg h"
      using old [OF h] by blast
    have "frame_stamp g' < frame_stamp h'"
      using d(6) g'(1,3) h'(1,3) w(2) unfolding order_ok_def by metis
    then show "frame_stamp g < frame_stamp h"
      by (simp add: g'(2) h'(2))
  qed
qed

lemma owes_frames:
  "frames l = f # fs \<Longrightarrow> frame_at f \<noteq> DoneSet \<Longrightarrow> msg_done (frame_msg f) \<noteq> None \<Longrightarrow> frame_id f \<in> owes l"
  by (simp add: owes_def)

lemma top_not_below:
  assumes "loop_inv_but P s" "frames (loopers s L) = f # fs"
  shows "f \<notin> set fs" "g \<in> set fs \<Longrightarrow> frame_id g \<noteq> frame_id f"
  using loop_invD(1) [OF assms(1), of L] assms(2) by (auto simp: looper_ok_def ids_def) (metis imageI)

lemma handled_ok_add:
  assumes inv: "loop_inv_but P s" and f: "frames (loopers s L) = f # fs" "frame_at f = Busy"
    and same: "handled s' = handled s @ [(frame_id f, ret)]" "next_id s' = next_id s" "refused s' = refused s"
      "answers s' = answers s" "\<And>K. mMessageList (loopers s' K) = mMessageList (loopers s K)"
      "\<And>K. universe (loopers s' K) \<subseteq> universe (loopers s K)"
    and frames: "\<And>K g. g \<in> set (frames (loopers s' K)) \<Longrightarrow> g \<in> set (frames (loopers s K)) \<and> g \<noteq> f \<or> frame_at g = Acked"
  shows "handled_ok s'"
proof -
  note h = handled_okD [OF loop_invD(7) [OF inv]]
  have fL: "f \<in> set (frames (loopers s L))"
    by (simp add: f(1))
  have new: "frame_id f \<notin> fst ` set (handled s)"
    using h(3) [OF fL] f(2) by auto
  have dom: "fst ` set (handled s') = insert (frame_id f) (fst ` set (handled s))"
    by (simp add: same(1))
  show ?thesis
    unfolding handled_ok_def dom same(2-5)
  proof (intro conjI allI ballI impI)
    fix i K
    show "distinct (map fst (handled s'))"
      using h(1) new by (simp add: same(1))
    show "i < next_id s" if "i \<in> insert (frame_id f) (fst ` set (handled s))"
      using that h(2) frame_okD(2) [OF inv fL] by blast
    show "frame_at g = Acked \<or> frame_at g = DoneSet"
      if g: "g \<in> set (frames (loopers s' K))" "frame_id g \<in> insert (frame_id f) (fst ` set (handled s))" for g
    proof (cases "frame_at g = Acked")
      case False
      then have "g \<in> set (frames (loopers s K))" "g \<noteq> f"
        using frames [OF g(1)] by blast+
      then show ?thesis
        using unique_frame(1) [OF inv fL, of g K] g(2) h(3) by blast
    qed simp
    show "msg_id m \<notin> insert (frame_id f) (fst ` set (handled s))" if "m \<in> set (mMessageList (loopers s K))" for m
      using h(4) [OF that] unique_frame(2) [OF inv fL that] by simp
    show "i < next_id s" if "i \<in> set (refused s)"
      using h(5) [OF that] by blast
    show "i \<notin> insert (frame_id f) (fst ` set (handled s))" if "i \<in> set (refused s)"
    proof -
      have "frame_id f \<in> universe (loopers s L)"
        using fL by (simp add: universe_def ids_def)
      then show ?thesis
        using h(5) [OF that, of L] by blast
    qed
    show "i \<notin> universe (loopers s' K)" if "i \<in> set (refused s)"
      using h(5) [OF that, of K] same(6) by blast
    show "(c, v) \<in> set (handled s') \<or> c \<in> set (refused s) \<and> v = 0" if "(c, v) \<in> set (answers s)" for c v
      using h(6) [OF that] by (auto simp: same(1))
  qed
qed

lemma return_bare_inv:
  assumes inv: "loop_inv s" and f: "frames (loopers s L) = f # fs" "frame_at f = Busy" "msg_done (frame_msg f) = None"
  shows "loop_inv (pop_frame L (s\<lparr>handled := handled s @ [(frame_id f, ret)]\<rparr>))"
proof -
  note d = loop_invD [OF inv]
  let ?s = "pop_frame L (s\<lparr>handled := handled s @ [(frame_id f, ret)]\<rparr>)"
  have new: "loopers ?s = (loopers s)(L := (loopers s L)\<lparr>frames := fs\<rparr>)"
    by (rule ext) (simp add: pop_frame_def f(1))
  have fields: "cells ?s = cells s" "next_id ?s = next_id s" "handled ?s = handled s @ [(frame_id f, ret)]"
    "answers ?s = answers s" "refused ?s = refused s" "dead_cell ?s = dead_cell s"
    by (simp_all add: pop_frame_def)
  note top = top_shrink [OF inv f(1) new fields(2)]
  have v: "waits (loopers ?s K) = waits (loopers s K)" "owes (loopers ?s K) = owes (loopers s K)"
    "cancelled (loopers ?s K) = cancelled (loopers s K)" "universe (loopers ?s K) \<subseteq> universe (loopers s K)"
    "mMessageList (loopers ?s K) = mMessageList (loopers s K)" "set (frames (loopers ?s K)) \<subseteq> set (frames (loopers s K))" for K
    using f unfolding new by (cases "K = L"; auto simp: waits_def owes_def universe_def ids_def)+
  have "cells_ok {} ?s"
    using d(4) unfolding cells_ok_def fields v by auto
  moreover have "acks_ok ?s"
    using d(5) v(6) unfolding acks_ok_def fields by fastforce
  moreover have "handled_ok ?s"
  proof (rule handled_ok_add [OF inv f(1,2) fields(3,2,5,4) v(5,4)])
    fix K g
    assume "g \<in> set (frames (loopers ?s K))"
    moreover have "K = L" if "f \<in> set (frames (loopers s K))"
      using unique_frame(1) [OF inv, of f L f K] that f(1) by simp
    ultimately show "g \<in> set (frames (loopers s K)) \<and> g \<noteq> f \<or> frame_at g = Acked"
      using v(6) [of K] top_not_below(1) [OF inv f(1)] by (auto simp: new split: if_splits)
  qed
  ultimately show ?thesis
    using top d(9) by (simp add: loop_inv_but_def fields(6))
qed

lemma owed_cell:
  assumes "loop_inv s" "frames (loopers s L) = f # fs" "frame_at f \<noteq> DoneSet" "msg_done (frame_msg f) \<noteq> None"
  obtains v where "cells s (frame_id f) = Some (False, v)"
  using cells_okD(2) [OF loop_invD(4) [OF assms(1)], of "frame_id f"] owes_frames [OF assms(2-4)] by blast

lemma set_top_loopers:
  "frames (loopers s L) = f # fs \<Longrightarrow>
   loopers (set_top L p s) = (loopers s)(L := (loopers s L)\<lparr>frames := f\<lparr>frame_at := p\<rparr> # fs\<rparr>)"
  by (rule ext) (simp add: set_top_def)

lemma set_top_fields [simp]:
  "cells (set_top L p s) = cells s" "next_id (set_top L p s) = next_id s" "handled (set_top L p s) = handled s"
  "answers (set_top L p s) = answers s" "refused (set_top L p s) = refused s" "dead_cell (set_top L p s) = dead_cell s"
  by (simp_all add: set_top_def)

lemma return_call_inv:
  assumes inv: "loop_inv s" and f: "frames (loopers s L) = f # fs" "frame_at f = Busy" "msg_done (frame_msg f) \<noteq> None"
    and c: "cells s (frame_id f) = Some (False, v)"
  shows "loop_inv (set_top L Acked (s\<lparr>handled := handled s @ [(frame_id f, ret)],
    cells := (cells s)(frame_id f \<mapsto> (False, ret))\<rparr>))"
proof -
  note d = loop_invD [OF inv]
  let ?base = "s\<lparr>handled := handled s @ [(frame_id f, ret)], cells := (cells s)(frame_id f \<mapsto> (False, ret))\<rparr>"
  let ?s = "set_top L Acked ?base" and ?f = "f\<lparr>frame_at := Acked\<rparr>"
  have fL: "f \<in> set (frames (loopers s L))"
    by (simp add: f(1))
  have new: "loopers ?s = (loopers s)(L := (loopers s L)\<lparr>frames := ?f # fs\<rparr>)"
    using set_top_loopers [of ?base L f fs Acked] f(1) by simp
  have "frame_ok ?f"
    using frame_okD(1) [OF inv fL] f(3) by (simp add: frame_ok_def)
  then have top: "looper_ok (next_id ?s) (loopers ?s K)" "apart universe (loopers ?s)" "apart (set \<circ> waits) (loopers ?s)"
    "order_ok ?s" "finite {K. looper_life (loopers ?s K) \<noteq> NotStarted}" for K
    using top_shrink [OF inv f(1) new] by auto
  have v: "waits (loopers ?s K) = waits (loopers s K)" "owes (loopers ?s K) = owes (loopers s K)"
    "cancelled (loopers ?s K) = cancelled (loopers s K)" "universe (loopers ?s K) = universe (loopers s K)"
    "mMessageList (loopers ?s K) = mMessageList (loopers s K)" for K
    using f unfolding new by (cases "K = L"; simp add: waits_def owes_def universe_def ids_def)+
  have frames: "g \<in> set (frames (loopers s K)) \<and> g \<noteq> f \<or> g = ?f" if "g \<in> set (frames (loopers ?s K))" for g K
  proof -
    have "K = L" if "f \<in> set (frames (loopers s K))"
      using unique_frame(1) [OF inv fL that] by simp
    then show ?thesis
      using that top_not_below(1) [OF inv f(1)] f(1) by (auto simp: new split: if_splits)
  qed
  have cell: "cells ?s c = (if c = frame_id f then Some (False, ret) else cells s c)" for c
    by simp
  have "cells_ok {} ?s"
    unfolding cells_ok_def v cell using cells_okD [OF d(4)] c frame_okD(2) [OF inv fL] by (auto split: if_splits)
  moreover have "acks_ok ?s"
    unfolding acks_ok_def
  proof (intro allI ballI impI)
    fix K g b w
    assume g: "g \<in> set (frames (loopers ?s K))" "frame_at g = Acked" and cg: "cells ?s (frame_id g) = Some (b, w)"
    show "(frame_id g, w) \<in> set (handled ?s)"
    proof (cases "g = ?f")
      case True
      then show ?thesis
        using cg by simp
    next
      case False
      then have "g \<in> set (frames (loopers s K))" "g \<noteq> f"
        using frames [OF g(1)] by blast+
      moreover from this have "frame_id g \<noteq> frame_id f"
        using unique_frame(1) [OF inv fL] by blast
      ultimately show ?thesis
        using d(5) g(2) cg unfolding acks_ok_def by auto
    qed
  qed
  moreover have "handled_ok ?s"
  proof (rule handled_ok_add [OF inv f(1,2)])
    show "universe (loopers ?s K) \<subseteq> universe (loopers s K)" for K
      by (simp add: v(4))
    show "mMessageList (loopers ?s K) = mMessageList (loopers s K)" for K
      by (rule v(5))
    show "g \<in> set (frames (loopers s K)) \<and> g \<noteq> f \<or> frame_at g = Acked" if "g \<in> set (frames (loopers ?s K))" for K g
      using frames [OF that] by (elim disjE) simp_all
  qed simp_all
  ultimately show ?thesis
    using top d(9) by (simp add: loop_inv_but_def)
qed

lemma dispatch_return_inv:
  assumes "loop_inv s" "top_point L s = Some Busy"
  shows "loop_inv (dispatch_return L (top_msg L s) ret s)"
proof -
  obtain f fs where f: "frames (loopers s L) = f # fs" "frame_at f = Busy" "top_msg L s = frame_msg f"
    by (rule top_frame [OF assms(2)]) (rule that)
  show ?thesis
  proof (cases "msg_done (frame_msg f) = None")
    case True
    then show ?thesis
      using return_bare_inv [OF assms(1) f(1,2) True] by (simp add: dispatch_return_def f(3))
  next
    case False
    obtain v where v: "cells s (frame_id f) = Some (False, v)"
      by (rule owed_cell [OF assms(1) f(1) _ False]) (use f(2) in auto)
    have "msg_done (frame_msg f) = Some (frame_id f)"
      using frame_okD(3) [OF assms(1) _ False, of L] f(1) by simp
    then show ?thesis
      using return_call_inv [OF assms(1) f(1,2) False v] v by (simp add: dispatch_return_def f(3))
  qed
qed

lemma dispatch_done_inv:
  assumes inv: "loop_inv s" and acked: "top_point L s = Some Acked"
  shows "loop_inv (dispatch_done L (top_msg L s) s)"
proof -
  note d = loop_invD [OF inv]
  obtain f fs where f: "frames (loopers s L) = f # fs" "frame_at f = Acked" "top_msg L s = frame_msg f"
    by (rule top_frame [OF acked]) (rule that)
  have fL: "f \<in> set (frames (loopers s L))"
    by (simp add: f(1))
  have call: "msg_done (frame_msg f) \<noteq> None"
    using frame_okD(1) [OF inv fL] f(2) by (simp add: frame_ok_def)
  then have c: "msg_done (frame_msg f) = Some (frame_id f)"
    by (rule frame_okD(3) [OF inv fL])
  obtain v where v: "cells s (frame_id f) = Some (False, v)"
    by (rule owed_cell [OF inv f(1) _ call]) (use f(2) in auto)
  have ack: "(frame_id f, v) \<in> set (handled s)"
    using d(5) fL f(2) v unfolding acks_ok_def by blast
  let ?wake = "msg_wait_ack (frame_msg f) \<and> msg_send_looper (frame_msg f) \<noteq> None"
  let ?base = "s\<lparr>cells := (cells s)(frame_id f \<mapsto> (True, v))\<rparr>" and ?f = "f\<lparr>frame_at := DoneSet\<rparr>"
  define t where "t = dispatch_done L (top_msg L s) s"
  have t: "t = (if ?wake then set_top L DoneSet ?base else pop_frame L ?base)"
    by (simp add: t_def dispatch_done_def f(3) c v Let_def)
  have fields: "cells t = (cells s)(frame_id f \<mapsto> (True, v))" "next_id t = next_id s" "handled t = handled s"
    "answers t = answers s" "refused t = refused s" "dead_cell t = dead_cell s"
    by (simp_all add: t pop_frame_def)
  define new where "new = (if ?wake then ?f # fs else fs)"
  have lt: "loopers t = (loopers s)(L := (loopers s L)\<lparr>frames := new\<rparr>)"
    using f(1) by (auto simp: t new_def pop_frame_def set_top_def)
  have shape: "new = fs \<or> (\<exists>p. new = f\<lparr>frame_at := p\<rparr> # fs \<and> frame_ok (f\<lparr>frame_at := p\<rparr>) \<and> (\<forall>c. p \<noteq> Waiting c))"
    using frame_okD(1) [OF inv fL] by (auto simp: new_def frame_ok_def)
  note top = top_shrink [OF inv f(1) lt fields(2) shape]
  have no_f: "frame_id f \<notin> frame_id ` set fs" "frame_id f \<notin> msg_id ` set (mMessageList (loopers s L))"
    using top_not_below(2) [OF inv f(1)] unique_frame(2) [OF inv fL, of _ L] by (metis imageE)+
  have v': "waits (loopers t K) = waits (loopers s K)" "owes (loopers t K) = owes (loopers s K) - {frame_id f}"
    "cancelled (loopers t K) = cancelled (loopers s K)" "universe (loopers t K) \<subseteq> universe (loopers s K)"
    "mMessageList (loopers t K) = mMessageList (loopers s K)" for K
  proof -
    have "frame_id f \<notin> universe (loopers s K)" if "K \<noteq> L"
    proof -
      have "frame_id f \<in> universe (loopers s L)"
        using fL by (simp add: universe_def ids_def)
      then show ?thesis
        using d(2) that unfolding apart_def by blast
    qed
    moreover have "owes (loopers s K) \<subseteq> universe (loopers s K)"
      by (auto simp: owes_def universe_def ids_def)
    ultimately have "K \<noteq> L \<Longrightarrow> owes (loopers s K) = owes (loopers s K) - {frame_id f}"
      by blast
    moreover have "owes ((loopers s L)\<lparr>frames := new\<rparr>) = owes (loopers s L) - {frame_id f}"
    proof -
      let ?X = "set (map msg_id (filter (\<lambda>m. msg_done m \<noteq> None) (mMessageList (loopers s L)))) \<union>
        set (map frame_id (filter (\<lambda>g. frame_at g \<noteq> DoneSet \<and> msg_done (frame_msg g) \<noteq> None) fs))"
      have "owes (loopers s L) = insert (frame_id f) ?X"
        unfolding owes_def using f(1,2) call by simp
      moreover have "owes ((loopers s L)\<lparr>frames := new\<rparr>) = ?X"
      proof -
        have "new = fs \<or> new = ?f # fs"
          unfolding new_def by simp
        then show ?thesis
          by (elim disjE) (simp_all add: owes_def)
      qed
      moreover have "frame_id f \<notin> ?X"
        using no_f by auto
      ultimately show ?thesis
        by simp
    qed
    ultimately show "owes (loopers t K) = owes (loopers s K) - {frame_id f}"
      by (simp add: lt)
    show "waits (loopers t K) = waits (loopers s K)" "cancelled (loopers t K) = cancelled (loopers s K)"
      "universe (loopers t K) \<subseteq> universe (loopers s K)" "mMessageList (loopers t K) = mMessageList (loopers s K)"
      using f unfolding lt new_def by (cases "K = L"; auto simp: waits_def universe_def ids_def)+
  qed
  have frames: "g \<in> set (frames (loopers s K)) \<and> g \<noteq> f \<or> g = ?f" if "g \<in> set (frames (loopers t K))" for g K
  proof -
    have "K = L" if "f \<in> set (frames (loopers s K))"
      using unique_frame(1) [OF inv fL that] by simp
    then show ?thesis
      using that top_not_below(1) [OF inv f(1)] f(1) by (auto simp: lt new_def split: if_splits)
  qed
  have "cells_ok {} t"
    unfolding cells_ok_def fields v' using cells_okD [OF d(4)] v ack frame_okD(2) [OF inv fL]
    by (auto split: if_splits)
  moreover have "acks_ok t"
    unfolding acks_ok_def
  proof (intro allI ballI impI)
    fix K g b w
    assume g: "g \<in> set (frames (loopers t K))" "frame_at g = Acked" and cg: "cells t (frame_id g) = Some (b, w)"
    have "g \<in> set (frames (loopers s K))" "g \<noteq> f"
      using frames [OF g(1)] by (elim disjE; use g(2) in simp)+
    moreover from this have "frame_id g \<noteq> frame_id f"
      using unique_frame(1) [OF inv fL] by blast
    ultimately show "(frame_id g, w) \<in> set (handled t)"
      using d(5) g(2) cg unfolding acks_ok_def fields by auto
  qed
  moreover have "handled_ok t"
    unfolding handled_ok_def fields v'(5)
  proof (intro conjI allI ballI impI)
    note h = handled_okD [OF d(7)]
    fix i K
    show "distinct (map fst (handled s))"
      by (rule h(1))
    show "i < next_id s" if "i \<in> fst ` set (handled s)"
      by (rule h(2) [OF that])
    show "frame_at g = Acked \<or> frame_at g = DoneSet"
      if "g \<in> set (frames (loopers t K))" "frame_id g \<in> fst ` set (handled s)" for g
      using frames [OF that(1)] h(3) that(2) by auto
    show "msg_id m \<notin> fst ` set (handled s)" if "m \<in> set (mMessageList (loopers s K))" for m
      by (rule h(4) [OF that])
    show "i < next_id s" "i \<notin> fst ` set (handled s)" "i \<notin> universe (loopers t K)" if "i \<in> set (refused s)"
      using h(5) [OF that, of K] v'(4) [of K] by auto
    show "(c, v) \<in> set (handled s) \<or> c \<in> set (refused s) \<and> v = 0" if "(c, v) \<in> set (answers s)" for c v
      by (rule h(6) [OF that])
  qed
  ultimately have "loop_inv t"
    using top d(9) by (simp add: loop_inv_but_def fields(6))
  then show ?thesis
    by (simp add: t_def)
qed

lemma Wakeup_inv: "loop_inv s \<Longrightarrow> loop_inv (Wakeup S s)"
  by (simp add: Wakeup_def postMessage_inv)

lemma dead_wakeup_inv: "loop_inv s \<Longrightarrow> loop_inv (s\<lparr>dead_wakeup := True\<rparr>)"
  by (rule inv_change [of "{}" s 0 _ "{}"]) (use loop_invD(1,7) handled_okD(4) in auto)

lemma pop_done_inv:
  assumes inv: "loop_inv s" and f: "frames (loopers s L) = f # fs" "frame_at f = DoneSet"
  shows "loop_inv (pop_frame L s)"
proof (rule inv_change [OF inv, of L _ "{}"])
  note d = loop_invD [OF inv]
  have new: "loopers (pop_frame L s) = (loopers s)(L := (loopers s L)\<lparr>frames := fs\<rparr>)"
    by (rule ext) (simp add: pop_frame_def f(1))
  have n: "next_id (pop_frame L s) = next_id s"
    by (simp add: pop_frame_def)
  show "looper_ok (next_id (pop_frame L s)) (loopers (pop_frame L s) L)"
    by (rule top_shrink(1) [OF inv f(1) new n]) simp
  show "msg_id m \<notin> fst ` set (handled s)" if "m \<in> set (mMessageList (loopers (pop_frame L s) L))" for m
    using that handled_okD(4) [OF d(7), of m L] by (simp add: new)
  show "set (waits (loopers (pop_frame L s) L)) = set (waits (loopers s L))"
    "owes (loopers (pop_frame L s) L) \<subseteq> owes (loopers s L) \<union> {}"
    "owes (loopers s L) \<union> {} \<subseteq> owes (loopers (pop_frame L s) L) \<union> set (cancelled (loopers (pop_frame L s) L)) \<union> {}"
    using f by (simp_all add: new waits_def owes_def)
  show "universe (loopers (pop_frame L s) L) \<subseteq> universe (loopers s L) \<union> {}"
    by (auto simp: new universe_def ids_def f(1))
qed (auto simp: pop_frame_def f(1))

lemma dispatch_wake_inv:
  assumes "loop_inv s" "top_point L s = Some DoneSet"
  shows "loop_inv (dispatch_wake L (top_msg L s) s)"
proof -
  obtain f fs where f: "frames (loopers s L) = f # fs" "frame_at f = DoneSet" "top_msg L s = frame_msg f"
    by (rule top_frame [OF assms(2)]) (rule that)
  have "loop_inv (pop_frame L s)"
    by (rule pop_done_inv [OF assms(1) f(1,2)])
  then show ?thesis
    using Wakeup_inv dead_wakeup_inv assms(1)
    by (auto simp: dispatch_wake_def Let_def split: option.splits)
qed

section \<open>Sending and its return\<close>

lemma refused_inv:
  assumes inv: "loop_inv s"
  shows "loop_inv (s\<lparr>next_id := Suc (next_id s), answers := answers s @ [(next_id s, 0)],
    refused := refused s @ [next_id s]\<rparr>)"
proof -
  note d = loop_invD [OF inv]
  note fresh = fresh_next [OF inv]
  let ?s = "s\<lparr>next_id := Suc (next_id s), answers := answers s @ [(next_id s, 0)], refused := refused s @ [next_id s]\<rparr>"
  have "handled_ok ?s"
    unfolding handled_ok_def
  proof (intro conjI allI ballI impI)
    note h = handled_okD [OF d(7)]
    fix i K
    show "distinct (map fst (handled ?s))"
      using h(1) by simp
    show "i < next_id ?s" if "i \<in> fst ` set (handled ?s)"
      using h(2) [of i] that by auto
    show "frame_at g = Acked \<or> frame_at g = DoneSet"
      if "g \<in> set (frames (loopers ?s K))" "frame_id g \<in> fst ` set (handled ?s)" for g
      using h(3) [of g K] that by simp
    show "msg_id m \<notin> fst ` set (handled ?s)" if "m \<in> set (mMessageList (loopers ?s K))" for m
      using h(4) [of m K] that by simp
    show "i < next_id ?s" "i \<notin> fst ` set (handled ?s)" "i \<notin> universe (loopers ?s K)" if "i \<in> set (refused ?s)"
      using h(5) [of i K] that fresh(1) [of K] fresh(3) by (cases "i = next_id s"; simp)+
    show "(c, v) \<in> set (handled ?s) \<or> c \<in> set (refused ?s) \<and> v = 0" if "(c, v) \<in> set (answers ?s)" for c v
      using h(6) [of c v] that by auto
  qed
  moreover have "looper_ok (next_id ?s) (loopers ?s K)" for K
    using looper_ok_mono [OF d(1)] by simp
  moreover have "cells_ok {} ?s"
    using cells_okD [OF d(4)] unfolding cells_ok_def by (auto simp: less_Suc_eq)
  moreover have "acks_ok ?s" "order_ok ?s"
    using d(5,6) by (simp_all add: acks_ok_def order_ok_def)
  ultimately show ?thesis
    using d(2,3,8,9) by (simp add: loop_inv_but_def)
qed

lemma open_unplaced:
  assumes inv: "loop_inv s" and top: "top_point L s = Some Busy"
    and m: "msg_id m = next_id s" "msg_done m = Some (next_id s)"
  shows "unplaced {next_id s} m (open_call L s)"
proof -
  obtain f fs where f: "frames (loopers s L) = f # fs"
    by (rule top_frame [OF top]) (rule that)
  have "universe (loopers (open_call L s) K) = universe (loopers s K)" for K
    using f by (simp add: open_call_def set_top_def universe_def ids_def)
  then show ?thesis
    using fresh_next [OF inv] m by (simp add: unplaced_def msg_ok_def open_call_def)
qed

lemma open_call_alive:
  assumes "loop_inv s" "top_point L s = Some Busy"
  shows "mLooperRunning (loopers s L) \<or> mAttachThread (loopers s L)"
  using life_okD [OF assms(1), of L] assms(2) by (auto simp: life_ok_def top_point_def split: list.splits)

lemma sendMessage_inv:
  assumes inv: "loop_inv s" and top: "top_point L s = Some Busy"
  shows "loop_inv (LooperImpl_sendMessage L T h msg wp lp s)"
proof (cases "mLooperRunning (loopers s T)")
  case False
  then show ?thesis
    using refused_inv [OF inv] by (simp add: LooperImpl_sendMessage_def Let_def)
next
  case True
  let ?m = "\<lparr>msg_id = next_id s, msg_handler = h, msg_code = msg, msg_wp = wp, msg_lp = lp,
    msg_done = Some (next_id s), msg_wait_ack = False, msg_send_looper = None\<rparr>"
  let ?w = "?m\<lparr>msg_wait_ack := True, msg_send_looper := Some L\<rparr>"
  have flags: "mLooperRunning (loopers (open_call L s) K) = mLooperRunning (loopers s K)"
    "mAttachThread (loopers (open_call L s) K) = mAttachThread (loopers s K)" for K
    by (simp_all add: open_call_def set_top_def)
  note opened = open_call_inv [OF inv top]
  show ?thesis
  proof (cases "T = L")
    case True
    have "loop_inv_but ({next_id s} - owed_by ?m) (dispatchMessage L ?m (open_call L s))"
      by (intro dispatchMessage_inv opened open_unplaced [OF inv top])
        (use open_call_alive [OF inv top] flags in simp_all)
    then show ?thesis
      using True \<open>mLooperRunning (loopers s T)\<close>
      by (simp add: LooperImpl_sendMessage_def Let_def open_call_def owed_by_def fun_upd_def)
  next
    case False
    have "loop_inv_but ({next_id s} - owed_by ?w) (push_message T ?w (open_call L s))"
      by (intro push_message_inv opened open_unplaced [OF inv top]) (use True flags in simp_all)
    then show ?thesis
      using False True
      by (simp add: LooperImpl_sendMessage_def sendMessageHelper_def Let_def open_call_def owed_by_def fun_upd_def)
  qed
qed

lemma SendReturn_inv:
  assumes inv: "loop_inv s" and f: "frames (loopers s L) = f # fs" "frame_at f = Waiting c"
    and cell: "cells s c = Some (True, ack)"
  shows "loop_inv (set_top L Busy (s\<lparr>answers := answers s @ [(c, ack)], cells := (cells s)(c := None)\<rparr>))"
proof -
  note d = loop_invD [OF inv]
  let ?base = "s\<lparr>answers := answers s @ [(c, ack)], cells := (cells s)(c := None)\<rparr>" and ?f = "f\<lparr>frame_at := Busy\<rparr>"
  let ?s = "set_top L Busy ?base"
  have fL: "f \<in> set (frames (loopers s L))"
    by (simp add: f(1))
  have new: "loopers ?s = (loopers s)(L := (loopers s L)\<lparr>frames := ?f # fs\<rparr>)"
    using set_top_loopers [of ?base L f fs Busy] f(1) by simp
  have "frame_ok ?f"
    using frame_okD(1) [OF inv fL] by (simp add: frame_ok_def)
  then have top: "looper_ok (next_id ?s) (loopers ?s K)" "apart universe (loopers ?s)" "apart (set \<circ> waits) (loopers ?s)"
    "order_ok ?s" "finite {K. looper_life (loopers ?s K) \<noteq> NotStarted}" for K
    using top_shrink [OF inv f(1) new] by auto
  have v: "owes (loopers ?s K) = owes (loopers s K)" "cancelled (loopers ?s K) = cancelled (loopers s K)"
    "universe (loopers ?s K) = universe (loopers s K)" "mMessageList (loopers ?s K) = mMessageList (loopers s K)" for K
    using f unfolding new by (cases "K = L"; simp add: owes_def universe_def ids_def)+
  have cw: "c \<in> set (waits (loopers s L))"
    by (rule waits_cell(3) [OF inv fL f(2)])
  have w: "set (waits (loopers ?s K)) = set (waits (loopers s K)) - {c}" for K
  proof (cases "K = L")
    case True
    have "distinct (waits (loopers s L))"
      using d(1) [of L] by (simp add: looper_ok_def)
    moreover have "waits (loopers s L) = c # waits (loopers ?s L)"
      using f by (simp add: waits_def new)
    ultimately show ?thesis
      using True by auto
  next
    case False
    then have "c \<notin> set (waits (loopers s K))"
      using d(3) cw unfolding apart_def by auto
    then show ?thesis
      using False by (simp add: new)
  qed
  have no_owe: "c \<notin> owes (loopers s K)" for K
    using cells_okD(2) [OF d(4), of c] cell by auto
  have "cells_ok {} ?s"
    unfolding cells_ok_def v w using cells_okD [OF d(4)] no_owe by (auto split: if_splits)
  moreover have frames: "g \<in> set (frames (loopers s K)) \<or> g = ?f" if "g \<in> set (frames (loopers ?s K))" for g K
    using that f(1) by (auto simp: new split: if_splits)
  have "acks_ok ?s"
    using d(5) frames unfolding acks_ok_def by (fastforce split: if_splits)
  moreover have "handled_ok ?s"
    unfolding handled_ok_def v
  proof (intro conjI allI ballI impI)
    note h = handled_okD [OF d(7)]
    fix i K
    show "distinct (map fst (handled ?s))"
      using h(1) by simp
    show "i < next_id ?s" if "i \<in> fst ` set (handled ?s)"
      using h(2) [of i] that by simp
    show "frame_at g = Acked \<or> frame_at g = DoneSet"
      if "g \<in> set (frames (loopers ?s K))" "frame_id g \<in> fst ` set (handled ?s)" for g
    proof (cases "g = ?f")
      case True
      then have "frame_id f \<in> fst ` set (handled s)"
        using that(2) by simp
      then show ?thesis
        using h(3) [OF fL] f(2) by simp
    next
      case False
      then show ?thesis
        using frames [OF that(1)] h(3) that(2) by simp
    qed
    show "msg_id m \<notin> fst ` set (handled ?s)" if "m \<in> set (mMessageList (loopers s K))" for m
      using h(4) [OF that] by simp
    show "i < next_id ?s" "i \<notin> fst ` set (handled ?s)" "i \<notin> universe (loopers s K)" if "i \<in> set (refused ?s)"
      using h(5) [of i K] that by auto
    show "(c', v) \<in> set (handled ?s) \<or> c' \<in> set (refused ?s) \<and> v = 0" if "(c', v) \<in> set (answers ?s)" for c' v
      using h(6) [of c' v] that cells_okD(4) [OF d(4) cell] by auto
  qed
  ultimately show ?thesis
    using top d(9) by (simp add: loop_inv_but_def)
qed

end
