(* ===== verification/LooperMsgProps.thy ===== *)
theory LooperMsgProps
  imports LooperMsgCalls
begin

text \<open>
  What the message core promises: order, answers, an orderly stop, no deadlock between
  loopers that send to each other; and the two defects that break these promises.
\<close>

section \<open>Every run keeps the invariant\<close>

lemma do_action_inv: "loop_inv s \<Longrightarrow> do_action a s = Some s' \<Longrightarrow> loop_inv s'"
proof (cases a)
  case (SendReturn L)
  assume inv: "loop_inv s" and do: "do_action a s = Some s'"
  from do obtain c ack where c: "top_point L s = Some (Waiting c)" "cells s c = Some (True, ack)"
    "s' = set_top L Busy (s\<lparr>answers := answers s @ [(c, ack)], cells := (cells s)(c := None)\<rparr>)"
    by (auto simp: SendReturn split: option.splits point.splits if_splits bool.splits)
  obtain f fs where "frames (loopers s L) = f # fs" "frame_at f = Waiting c"
    by (rule top_frame [OF c(1)]) (rule that)
  then show "loop_inv s'"
    using SendReturn_inv [OF inv _ _ c(2)] c(3) by simp
qed (auto simp: PostQuitMessage_def split: if_splits
      intro: Start_inv Attach_inv postMessage_inv sendMessage_inv Cancel_inv dispatch_return_inv
        dispatch_done_inv dispatch_wake_inv SingleStep_inv Run_quit_inv Release_inv
        run_bare_inv [OF _ in_loop_alive])

lemma loop_reachable_inv: "loop_reachable s \<Longrightarrow> loop_inv s"
  by (induction rule: loop_reachable.induct) (auto intro: loop_inv_initial do_action_inv)

lemma do_actions_reachable: "loop_reachable s \<Longrightarrow> do_actions as s = Some s' \<Longrightarrow> loop_reachable s'"
  by (induction as arbitrary: s) (auto split: Option.bind_splits intro: loop_reachable.action)

lemmas run_reachable = do_actions_reachable [OF loop_reachable.initial]

section \<open>What was taken is handled\<close>

definition done_inv :: "loop_sys \<Rightarrow> bool" where
  "done_inv s \<longleftrightarrow> (\<forall>L. set (taken (loopers s L)) \<subseteq> fst ` set (handled s) \<union> frame_id ` set (frames (loopers s L)) \<and>
     (\<forall>f\<in>set (frames (loopers s L)). frame_at f = Acked \<or> frame_at f = DoneSet \<longrightarrow> frame_id f \<in> fst ` set (handled s)))"

lemma done_invD:
  "done_inv s \<Longrightarrow> i \<in> set (taken (loopers s L)) \<Longrightarrow> i \<in> fst ` set (handled s) \<or> i \<in> frame_id ` set (frames (loopers s L))"
  "done_inv s \<Longrightarrow> f \<in> set (frames (loopers s L)) \<Longrightarrow> frame_at f = Acked \<or> frame_at f = DoneSet \<Longrightarrow>
    frame_id f \<in> fst ` set (handled s)"
  unfolding done_inv_def by blast+

text \<open>A change of the frames of one looper.\<close>

lemma done_inv_change:
  assumes "done_inv s" "\<And>K. K \<noteq> L \<Longrightarrow> loopers s' K = loopers s K" "set (handled s) \<subseteq> set (handled s')"
    and "set (taken (loopers s' L)) \<subseteq> set (taken (loopers s L)) \<union> frame_id ` set (frames (loopers s' L))"
    and "frame_id ` set (frames (loopers s L)) \<subseteq> frame_id ` set (frames (loopers s' L)) \<union> fst ` set (handled s')"
    and "\<And>f. f \<in> set (frames (loopers s' L)) \<Longrightarrow> frame_at f = Acked \<or> frame_at f = DoneSet \<Longrightarrow>
      f \<in> set (frames (loopers s L)) \<or> frame_id f \<in> fst ` set (handled s')"
  shows "done_inv s'"
  unfolding done_inv_def
proof (intro allI conjI subsetI ballI impI)
  have mono: "fst ` set (handled s) \<subseteq> fst ` set (handled s')"
    using assms(3) by blast
  fix K
  show "i \<in> fst ` set (handled s') \<union> frame_id ` set (frames (loopers s' K))" if "i \<in> set (taken (loopers s' K))" for i
  proof (cases "K = L")
    case True
    then show ?thesis
      using that assms(4,5) done_invD(1) [OF assms(1), of i L] mono by blast
  next
    case False
    then show ?thesis
      using that assms(2) [OF False] done_invD(1) [OF assms(1), of i K] mono by auto
  qed
  show "frame_id f \<in> fst ` set (handled s')"
    if "f \<in> set (frames (loopers s' K))" "frame_at f = Acked \<or> frame_at f = DoneSet" for f
  proof (cases "K = L")
    case True
    then show ?thesis
      using that assms(6) [of f] done_invD(2) [OF assms(1), of f L] mono by blast
  next
    case False
    then show ?thesis
      using that assms(2) [OF False] done_invD(2) [OF assms(1), of f K] mono by auto
  qed
qed

lemma done_inv_same:
  assumes "done_inv s" "handled s' = handled s" "\<And>K. taken (loopers s' K) = taken (loopers s K)"
    "\<And>K. frames (loopers s' K) = frames (loopers s K)"
  shows "done_inv s'"
  using assms by (simp add: done_inv_def)

lemma postMessage_keeps [simp]:
  "handled (snd (LooperImpl_postMessage T h msg wp lp s)) = handled s"
  "taken (loopers (snd (LooperImpl_postMessage T h msg wp lp s)) K) = taken (loopers s K)"
  "frames (loopers (snd (LooperImpl_postMessage T h msg wp lp s)) K) = frames (loopers s K)"
  "looper_life (loopers (snd (LooperImpl_postMessage T h msg wp lp s)) K) = looper_life (loopers s K)"
  "cells (snd (LooperImpl_postMessage T h msg wp lp s)) = cells s"
  "cancelled (loopers (snd (LooperImpl_postMessage T h msg wp lp s)) K) = cancelled (loopers s K)"
  by (simp_all add: LooperImpl_postMessage_def push_message_def Let_def)

lemma OnMessage_keeps [simp]:
  "handled (looper_OnMessage L msg wp s) = handled s"
  "taken (loopers (looper_OnMessage L msg wp s) K) = taken (loopers s K)"
  "frames (loopers (looper_OnMessage L msg wp s) K) = frames (loopers s K)"
  "looper_life (loopers (looper_OnMessage L msg wp s) K) = looper_life (loopers s K)"
  "cells (looper_OnMessage L msg wp s) = cells s"
  "cancelled (loopers (looper_OnMessage L msg wp s) K) = cancelled (loopers s K)"
  by (simp_all add: looper_OnMessage_def OnBMQuit_def Wakeup_def Let_def)

lemma push_frame_keeps [simp]:
  "handled (push_frame L m s) = handled s" "cells (push_frame L m s) = cells s"
  "loopers (push_frame L m s) K = (if K = L then (loopers s L)\<lparr>frames :=
     \<lparr>frame_msg = m, frame_at = Busy, frame_stamp = next_id s\<rparr> # frames (loopers s L)\<rparr> else loopers s K)"
  by (simp_all add: push_frame_def)

lemma OnMessage_other [simp]: "K \<noteq> L \<Longrightarrow> loopers (looper_OnMessage L msg wp s) K = loopers s K"
  by (simp add: looper_OnMessage_def OnBMQuit_def Wakeup_def Let_def postMessage_other(1))

lemma dispatchMessage_keeps [simp]:
  "handled (dispatchMessage L m s) = handled s" "cells (dispatchMessage L m s) = cells s"
  "taken (loopers (dispatchMessage L m s) K) = taken (loopers s K)"
  "frames (loopers (dispatchMessage L m s) K) = (if K = L
     then \<lparr>frame_msg = m, frame_at = Busy, frame_stamp = next_id s\<rparr> # frames (loopers s L) else frames (loopers s K))"
  "looper_life (loopers (dispatchMessage L m s) K) = looper_life (loopers s K)"
  "cancelled (loopers (dispatchMessage L m s) K) = cancelled (loopers s K)"
  by (simp_all add: dispatchMessage_def Let_def)

lemma run_bare_done: "done_inv s \<Longrightarrow> done_inv (run_bare L s)"
  by (rule done_inv_change [of s L]) (auto simp: run_bare_def)

lemma set_top_done:
  assumes "done_inv s" "p \<noteq> Acked" "p \<noteq> DoneSet"
  shows "done_inv (set_top L p s)"
proof (rule done_inv_change [OF assms(1), of L])
  show "frame_id ` set (frames (loopers s L)) \<subseteq>
      frame_id ` set (frames (loopers (set_top L p s) L)) \<union> fst ` set (handled (set_top L p s))"
    by (cases "frames (loopers s L)") (auto simp: set_top_def)
  show "f \<in> set (frames (loopers s L)) \<or> frame_id f \<in> fst ` set (handled (set_top L p s))"
    if "f \<in> set (frames (loopers (set_top L p s) L))" "frame_at f = Acked \<or> frame_at f = DoneSet" for f
    using that assms(2,3) by (cases "frames (loopers s L)") (auto simp: set_top_def)
qed (auto simp: set_top_def)

lemma pop_frame_done:
  assumes "done_inv s" "frames (loopers s L) = f # fs" "frame_id f \<in> fst ` set (handled s)"
  shows "done_inv (pop_frame L s)"
  by (rule done_inv_change [OF assms(1), of L]) (use assms(2,3) in \<open>auto simp: pop_frame_def\<close>)

lemma set_top_acked_done:
  assumes "done_inv s" "frames (loopers s L) = f # fs" "frame_id f \<in> fst ` set (handled s)"
  shows "done_inv (set_top L p s)"
proof (rule done_inv_change [OF assms(1), of L])
  show "g \<in> set (frames (loopers s L)) \<or> frame_id g \<in> fst ` set (handled (set_top L p s))"
    if "g \<in> set (frames (loopers (set_top L p s) L))" for g
  proof -
    have "g = f\<lparr>frame_at := p\<rparr> \<or> g \<in> set fs"
      using that by (simp add: set_top_def assms(2))
    then show ?thesis
      using assms(2,3) by (elim disjE) simp_all
  qed
qed (use assms(2) in \<open>auto simp: set_top_def\<close>)

lemma handled_done:
  assumes "done_inv s"
  shows "done_inv (s\<lparr>handled := handled s @ [x]\<rparr>)" "done_inv (s\<lparr>cells := cs\<rparr>)" "done_inv (s\<lparr>dead_cell := b\<rparr>)"
    "done_inv (s\<lparr>handled := handled s @ [x], cells := cs\<rparr>)" "done_inv (s\<lparr>handled := handled s @ [x], dead_cell := b\<rparr>)"
    "done_inv (s\<lparr>answers := an\<rparr>)" "done_inv (s\<lparr>refused := re\<rparr>)" "done_inv (s\<lparr>next_id := n\<rparr>)" "done_inv (s\<lparr>dead_wakeup := b\<rparr>)"
  using assms unfolding done_inv_def by auto

lemma do_action_done:
  assumes inv: "loop_inv s" and dn: "done_inv s" and do: "do_action a s = Some s'"
  shows "done_inv s'"
proof (cases a)
  case (Start L)
  then show ?thesis
    using do by (auto simp: StartHelper_def split: if_splits intro: done_inv_same [OF dn])
next
  case (Attach L)
  then show ?thesis
    using do by (auto simp: AttachThread_def split: if_splits intro!: run_bare_done done_inv_same [OF dn])
next
  case (Post L T h msg wp lp)
  then show ?thesis
    using do by (auto split: if_splits intro: done_inv_same [OF dn])
next
  case (PostQuit L T c)
  then show ?thesis
    using do dn by (auto simp: PostQuitMessage_def split: if_splits intro: done_inv_same [OF dn])
next
  case (Send L T h msg wp lp)
  have push: "done_inv (push_message T m s1)" if "done_inv s1" for m s1
    by (rule done_inv_same [OF that]) (simp_all add: push_message_def)
  have disp: "done_inv (dispatchMessage L m s1)" if "done_inv s1" for m s1
    by (rule done_inv_change [OF that, of L]) (auto simp: dispatchMessage_def Let_def)
  show ?thesis
    using do Send dn
    by (auto simp: LooperImpl_sendMessage_def sendMessageHelper_def Let_def split: if_splits
        intro!: push disp set_top_done handled_done)
next
  case (Cancel L r h x)
  then show ?thesis
    using do by (auto simp: CancelRunnableInQueue_def split: if_splits intro: done_inv_same [OF dn])
next
  case (Return L ret)
  then have top: "top_point L s = Some Busy" and s': "s' = dispatch_return L (top_msg L s) ret s"
    using do by (auto split: if_splits)
  obtain f fs where f: "frames (loopers s L) = f # fs" "frame_at f = Busy" "top_msg L s = frame_msg f"
    by (rule top_frame [OF top]) (rule that)
  show ?thesis
    unfolding s' dispatch_return_def f(3) Let_def
    using dn by (auto split: option.splits intro!: pop_frame_done [of _ _ f fs] set_top_acked_done [of _ _ f fs]
        handled_done simp: f(1))
next
  case (SetDone L)
  then have top: "top_point L s = Some Acked" and s': "s' = dispatch_done L (top_msg L s) s"
    using do by (auto split: if_splits)
  obtain f fs where f: "frames (loopers s L) = f # fs" "frame_at f = Acked" "top_msg L s = frame_msg f"
    by (rule top_frame [OF top]) (rule that)
  have "frame_id f \<in> fst ` set (handled s)"
    using done_invD(2) [OF dn, of f L] f by simp
  then show ?thesis
    unfolding s' dispatch_done_def f(3) Let_def
    using dn by (auto split: option.splits intro!: pop_frame_done [of _ _ f fs] set_top_acked_done [of _ _ f fs]
        handled_done simp: f(1) image_iff)
next
  case (WakeSender L)
  then have top: "top_point L s = Some DoneSet" and s': "s' = dispatch_wake L (top_msg L s) s"
    using do by (auto split: if_splits)
  obtain f fs where f: "frames (loopers s L) = f # fs" "frame_at f = DoneSet" "top_msg L s = frame_msg f"
    by (rule top_frame [OF top]) (rule that)
  have "frame_id f \<in> fst ` set (handled s)"
    using done_invD(2) [OF dn, of f L] f by simp
  then have "done_inv (pop_frame L s)"
    by (rule pop_frame_done [OF dn f(1)])
  then show ?thesis
    unfolding s' dispatch_wake_def f(3) Let_def Wakeup_def
    using dn by (auto split: option.splits intro: handled_done done_inv_same)
next
  case (SendReturn L)
  then show ?thesis
    using do dn by (auto split: option.splits point.splits bool.splits intro!: set_top_done handled_done)
next
  case (Step L)
  then obtain m ms where m: "mMessageList (loopers s L) = m # ms"
      "s' = dispatchMessage L m (upd_looper L (\<lambda>l. l\<lparr>mMessageList := ms, taken := taken l @ [msg_id m]\<rparr>) s)"
    using do by (auto simp: SingleStep_def getMessage_def split: if_splits list.splits)
  show ?thesis
    unfolding m(2) by (rule done_inv_change [OF dn, of L]) (auto simp: dispatchMessage_def Let_def)
next
  case (Callback L)
  then show ?thesis
    using do dn by (auto split: if_splits intro: run_bare_done)
next
  case (TryQuit L)
  then show ?thesis
    using do dn by (auto simp: Run_quit_def split: if_splits intro: done_inv_same [OF dn])
next
  case (Release L)
  then show ?thesis
    using do by (auto split: if_splits intro: done_inv_same [OF dn])
qed

lemma loop_reachable_done: "loop_reachable s \<Longrightarrow> done_inv s"
proof (induction rule: loop_reachable.induct)
  case initial
  then show ?case
    by (simp add: done_inv_def initial_sys_def new_looper_def)
next
  case (action s a s')
  then show ?case
    using do_action_done loop_reachable_inv by blast
qed

end
