(* ===== verification/LooperMsgLive.thy ===== *)
theory LooperMsgLive
  imports LooperMsgProps
begin

text \<open>
  Loopers that send to each other do not block each other for ever: from every reachable
  state in which no awaited message was erased, letting the handlers that run return brings
  all threads back to their loops, with every call answered.
\<close>

section \<open>Systems with a rank\<close>


section \<open>The steps that finish what has begun\<close>





section \<open>Some thread can move\<close>





section \<open>The work that is left\<close>













section \<open>Finishing steps use it up\<close>







section \<open>Properties\<close>

lemma messages_order:
  assumes "loop_inv s"
  shows "filter (\<lambda>i. i \<notin> set (cancelled (loopers s L))) (accepted (loopers s L)) =
      taken (loopers s L) @ map msg_id (mMessageList (loopers s L))"
    "distinct (accepted (loopers s L))"
  using loop_invD(1) [OF assms, of L] by (simp_all add: looper_ok_def fifo_ok_def)


text \<open>
  C9 Messages are taken in order, and once. What a looper's list accepted, less what was erased
  from it, is what the looper took, in the same order, followed by what is still in the list;
  nothing is accepted twice.
\<close>

theorem messages_fifo:
  assumes "loop_reachable s"
  shows "filter (\<lambda>i. i \<notin> set (cancelled (loopers s L))) (accepted (loopers s L)) =
      taken (loopers s L) @ map msg_id (mMessageList (loopers s L)) \<and> distinct (accepted (loopers s L))"
  using messages_order [OF loop_reachable_inv [OF assms], of L] by blast

text \<open>
  C3 A call gets its own answer. What \<^verbatim>\<open>sendMessage\<close> returns is what the dispatch of its message
  returned, and that message was dispatched to the end once; the only other case is a looper
  that was not running, for which it returns 0. No dispatch writes an answer to a call that is
  gone.
\<close>

theorem send_gets_answer:
  assumes "loop_reachable s"
  shows "\<not> dead_cell s \<and> distinct (map fst (handled s)) \<and> (\<forall>(c, v)\<in>set (answers s).
    if c \<in> set (refused s) then v = 0 \<and> c \<notin> fst ` set (handled s) else map_of (handled s) c = Some v)"
proof -
  note inv = loop_reachable_inv [OF assms]
  note h = handled_okD [OF loop_invD(7) [OF inv]]
  have "if c \<in> set (refused s) then v = 0 \<and> c \<notin> fst ` set (handled s) else map_of (handled s) c = Some v"
    if "(c, v) \<in> set (answers s)" for c v
  proof (cases "c \<in> set (refused s)")
    case True
    then have "c \<notin> fst ` set (handled s)"
      using h(5) by blast
    moreover have "(c, v) \<notin> set (handled s)"
      using calculation imageI [of "(c, v)" "set (handled s)" fst] by auto
    ultimately show ?thesis
      using h(6) [OF that] True by simp
  next
    case False
    then show ?thesis
      using h(6) [OF that] h(1) by simp
  qed
  then show ?thesis
    using loop_invD(9) [OF inv] h(1) by (intro conjI ballI) (simp_all only: split_paired_all prod.case not_False_eq_True)
qed

text \<open>
  C11 A looper stops with its work done. When its loop has ended, every message its list ever
  accepted was handled to the end or erased, none is left, nothing of it is running, and the
  list stays closed: a message posted later is dropped.
\<close>

theorem stopped_looper_drained:
  assumes "loop_reachable s" "looper_life (loopers s L) = Exited \<or> looper_life (loopers s L) = Freed"
  shows "mMessageList (loopers s L) = [] \<and> frames (loopers s L) = [] \<and>
    set (accepted (loopers s L)) \<subseteq> set (cancelled (loopers s L)) \<union> fst ` set (handled s) \<and>
    LooperImpl_postMessage L h msg wp lp s = (0, s)"
proof -
  note inv = loop_reachable_inv [OF assms(1)]
  have stopped: "\<not> mLooperRunning (loopers s L)" "\<not> mAttachThread (loopers s L)"
    using life_okD [OF inv, of L] assms(2) by (auto simp: life_ok_def)
  then have empty: "mMessageList (loopers s L) = []" "frames (loopers s L) = []"
    using life_okD [OF inv, of L] by (simp_all add: life_ok_def)
  moreover have "i \<in> set (cancelled (loopers s L)) \<union> fst ` set (handled s)"
    if "i \<in> set (accepted (loopers s L))" for i
  proof (cases "i \<in> set (cancelled (loopers s L))")
    case False
    with that have "i \<in> set (taken (loopers s L))"
      using arg_cong [OF messages_order(1) [OF inv, of L], of set] empty(1) by auto
    then show ?thesis
      using done_invD(1) [OF loop_reachable_done [OF assms(1)], of i L] empty(2) by simp
  qed simp
  moreover have "LooperImpl_postMessage L h msg wp lp s = (0, s)"
    using stopped by (simp add: LooperImpl_postMessage_def)
  ultimately show ?thesis
    by blast
qed

section \<open>Two defects\<close>

text \<open>What runs a list of actions by rewriting.\<close>

lemmas run_defs = initial_sys_def new_looper_def upd_looper_def push_message_def LooperImpl_postMessage_def Wakeup_def
  PostQuitMessage_def CancelRunnableInQueue_def runnable_matches_def OnBMQuit_def looper_OnMessage_def push_frame_def
  dispatchMessage_def set_top_def pop_frame_def dispatch_return_def dispatch_done_def dispatch_wake_def
  sendMessageHelper_def LooperImpl_sendMessage_def getMessage_def SingleStep_def StartHelper_def Run_quit_def
  bare_message_def run_bare_def AttachThread_def top_point_def top_msg_def in_loop_def Let_def
  BM_NULL_def BM_DESTROY_def BM_QUIT_def BM_POST_RUNNABLE_def

lemma orphan_stays:
  assumes inv: "loop_inv s" and c: "c \<in> set (cancelled (loopers s L))" "cells s c = Some (False, v)"
    and do: "do_action a s = Some s'"
  shows "cells s' c = Some (False, v) \<and> c \<in> set (cancelled (loopers s' L))"
proof -
  have fifo: "fifo_ok (loopers s L)"
    using loop_invD(1) [OF inv, of L] by (simp add: looper_ok_def)
  have no_frame: "frame_id f \<noteq> c" if "f \<in> set (frames (loopers s K))" for f K
  proof
    assume eq: "frame_id f = c"
    have "c \<in> universe (loopers s L)"
      using fifo c(1) by (auto simp: fifo_ok_def universe_def)
    moreover have K: "c \<in> set (ids (loopers s K))"
      using imageI [OF that, of frame_id] eq by (simp add: ids_def)
    moreover from this have "c \<in> universe (loopers s K)"
      by (simp add: universe_def)
    ultimately have "K = L"
      using loop_invD(2) [OF inv] unfolding apart_def by blast
    then show False
      using fifo c(1) K by (auto simp: fifo_ok_def)
  qed
  have top: "msg_done (frame_msg f) \<noteq> Some c" if "frames (loopers s K) = f # fs" for f fs K
  proof -
    have f: "f \<in> set (frames (loopers s K))"
      by (simp add: that)
    show ?thesis
      using frame_okD(3) [OF inv f] no_frame [OF f] by auto
  qed
  have fresh: "c \<noteq> next_id s"
    using fresh_next(4) [OF inv] c(2) by auto
  show ?thesis
  proof (cases a)
    case (Send K T h msg wp lp)
    then show ?thesis
      using do c fresh by (auto simp: LooperImpl_sendMessage_def sendMessageHelper_def push_message_def set_top_def
          Let_def split: if_splits)
  next
    case (Return K ret)
    then show ?thesis
      using do c top [of K]
      by (auto simp: dispatch_return_def top_msg_def top_point_def set_top_def pop_frame_def Let_def
          split: if_splits option.splits list.splits)
  next
    case (SetDone K)
    then show ?thesis
      using do c top [of K]
      by (auto simp: dispatch_done_def top_msg_def top_point_def set_top_def pop_frame_def Let_def
          split: if_splits option.splits list.splits)
  next
    case (WakeSender K)
    then show ?thesis
      using do c by (auto simp: dispatch_wake_def pop_frame_def Wakeup_def Let_def split: if_splits option.splits)
  next
    case (SendReturn K)
    then show ?thesis
      using do c by (auto simp: set_top_def split: if_splits option.splits point.splits bool.splits)
  next
    case (Step K)
    then show ?thesis
      using do c by (auto simp: SingleStep_def getMessage_def split: if_splits list.splits)
  qed (use do c in \<open>auto simp: StartHelper_def AttachThread_def run_bare_def PostQuitMessage_def Run_quit_def
      CancelRunnableInQueue_def split: if_splits\<close>)
qed

text \<open>
  C31 Cancelling a runnable can block its sender for ever. \<^verbatim>\<open>Handler::sendRunnable\<close> sends a
  \<^verbatim>\<open>BM_POST_RUNNABLE\<close>, and \<^verbatim>\<open>CancelRunnableInQueue\<close> erases such a message without answering:
  when a message that a call waits for was erased, the call has not returned, and will not
  have, however long the system runs on.
\<close>

theorem cancelled_send_never_returns:
  assumes "loop_reachable s" "c \<in> set (cancelled (loopers s L))" "cells s c = Some (False, v)"
    and "do_actions as s = Some s'"
  shows "cells s' c = Some (False, v) \<and> (\<exists>K. c \<in> set (waits (loopers s' K)))"
proof -
  have "cells s' c = Some (False, v) \<and> loop_inv s'"
    using loop_reachable_inv [OF assms(1)] assms(2-4)
  proof (induction as arbitrary: s)
    case (Cons a as)
    from Cons.prems(4) obtain t where t: "do_action a s = Some t" "do_actions as t = Some s'"
      by (auto split: Option.bind_splits)
    then show ?case
      using Cons.IH [OF do_action_inv [OF Cons.prems(1) t(1)]] orphan_stays [OF Cons.prems(1-3) t(1)] by blast
  qed simp
  then show ?thesis
    using cells_okD(1) [OF loop_invD(4), of "{}" s' c] by simp
qed

text \<open>
  C32 A late wake-up can reach a looper that is gone. \<^verbatim>\<open>dispatchMessage\<close> sets \<^verbatim>\<open>*mDone\<close> and then
  calls \<^verbatim>\<open>mSendLooper->Wakeup()\<close>; in between, the sender, busy with a message of its own, can see
  the flag, return, quit and be destroyed.
\<close>

theorem wakeup_after_free:
  "\<exists>s. loop_reachable s \<and> dead_wakeup s"
proof -
  have "\<exists>s. do_actions [Start 1, Start 2, Attach 3, Post 3 1 (Some 7) 5 0 0, PostQuit 3 1 0, Step 1,
      Send 1 2 (Some 8) 6 0 0, Step 2, Step 1, Return 1 0, Return 2 9, SetDone 2, SendReturn 1, Return 1 0,
      Step 1, Return 1 0, Step 1, Return 1 0, TryQuit 1, Release 1, WakeSender 2] initial_sys = Some s \<and> dead_wakeup s"
    by (simp add: run_defs)
  then show ?thesis
    using run_reachable by blast
qed

section \<open>Witnesses\<close>

text \<open>Two loopers that send to each other: the second call is made while the first one waits.\<close>

definition cross_sends :: "loop_action list" where
  "cross_sends = [Start 1, Start 2, Attach 3, Post 3 1 (Some 7) 5 0 0, Step 1, Send 1 2 (Some 8) 6 0 0, Step 2,
     Send 2 1 (Some 7) 7 0 0]"

definition cross_done :: "loop_action list" where
  "cross_done = cross_sends @ [Step 1, Return 1 41, SetDone 1, WakeSender 1, SendReturn 2, Return 2 42, SetDone 2, SendReturn 1]"

definition quit_run :: "loop_action list" where
  "quit_run = [Start 1, Attach 3, Post 3 1 (Some 7) 5 0 0, PostQuit 3 1 0, Step 1, Return 1 4, Step 1, Return 1 0,
     Step 1, Return 1 0, Step 1, Return 1 0, TryQuit 1]"

text \<open>Looper 1 sends a runnable to looper 2, which cancels it from within another handler.\<close>

definition cancel_run :: "loop_action list" where
  "cancel_run = [Start 1, Start 2, Attach 3, Post 3 1 (Some 7) 5 0 0, Step 1, Post 3 2 (Some 8) 6 0 0, Step 2,
     Send 1 2 (Some 8) BM_POST_RUNNABLE 40 0, Cancel 2 (\<lambda>_. 4) (Some 8) 4]"


lemma messages_fifo_witness:
  "\<exists>s. do_actions cross_sends initial_sys = Some s \<and> accepted (loopers s 1) = [2, 6] \<and>
     [2, 6] = taken (loopers s 1) @ map msg_id (mMessageList (loopers s 1))"
proof -
  have "\<exists>s. do_actions cross_sends initial_sys = Some s \<and> accepted (loopers s 1) = [2, 6] \<and> cancelled (loopers s 1) = []"
    by (simp add: run_defs cross_sends_def)
  then obtain s where s: "do_actions cross_sends initial_sys = Some s" "accepted (loopers s 1) = [2, 6]"
      "cancelled (loopers s 1) = []"
    by blast
  have "[2, 6] = taken (loopers s 1) @ map msg_id (mMessageList (loopers s 1))"
    using messages_fifo [OF run_reachable [OF s(1)], of 1] unfolding s(2,3) by simp
  with s(1,2) show ?thesis
    by blast
qed

lemma send_gets_answer_witness:
  "\<exists>s. do_actions cross_done initial_sys = Some s \<and> (4, 42) \<in> set (answers s) \<and> map_of (handled s) 4 = Some 42"
proof -
  have "\<exists>s. do_actions cross_done initial_sys = Some s \<and> (4, 42) \<in> set (answers s) \<and> refused s = []"
    by (simp add: run_defs cross_sends_def cross_done_def)
  then obtain s where s: "do_actions cross_done initial_sys = Some s" "(4, 42) \<in> set (answers s)" "refused s = []"
    by blast
  have "map_of (handled s) 4 = Some 42"
    using send_gets_answer [OF run_reachable [OF s(1)]] s(2,3) by fastforce
  with s show ?thesis
    by blast
qed

lemma stopped_looper_drained_witness:
  "\<exists>s. do_actions quit_run initial_sys = Some s \<and> set (accepted (loopers s 1)) \<subseteq> fst ` set (handled s) \<and>
     LooperImpl_postMessage 1 None 0 0 0 s = (0, s)"
proof -
  have "\<exists>s. do_actions quit_run initial_sys = Some s \<and> looper_life (loopers s 1) = Exited \<and>
      cancelled (loopers s 1) = []"
    by (simp add: run_defs quit_run_def)
  then obtain s where s: "do_actions quit_run initial_sys = Some s" "looper_life (loopers s 1) = Exited"
      "cancelled (loopers s 1) = []"
    by blast
  from stopped_looper_drained [OF run_reachable [OF s(1)], of 1 None 0 0 0] s show ?thesis
    by (intro exI [of _ s]) simp
qed

lemma cancelled_send_never_returns_witness:
  "\<exists>s. do_actions cancel_run initial_sys = Some s \<and>
     (\<forall>as s'. do_actions as s = Some s' \<longrightarrow> cells s' 6 = Some (False, 0))"
proof -
  have "\<exists>s. do_actions cancel_run initial_sys = Some s \<and> 6 \<in> set (cancelled (loopers s 2)) \<and>
      cells s 6 = Some (False, 0)"
    by (simp add: run_defs cancel_run_def)
  then obtain s where s: "do_actions cancel_run initial_sys = Some s" "6 \<in> set (cancelled (loopers s 2))"
      "cells s 6 = Some (False, 0)"
    by blast
  from cancelled_send_never_returns [OF run_reachable [OF s(1)] s(2,3)] s(1) show ?thesis
    by blast
qed

end
