(* ===== verification/CoreText.thy ===== *)
theory CoreText
  imports CBundle CoreHex CoreBufferOps "HOL-Library.List_Lexorder"
begin

text \<open>
  Splitting and reading of text in the core library: \<^verbatim>\<open>TextSeparator\<close>
  (\<^verbatim>\<open>src/src/core/string/textseparator.cpp\<close>), the map \<^verbatim>\<open>Bundle\<close> from names to values
  (\<^verbatim>\<open>src/include/core/base/bundle.h\<close>) and \<^verbatim>\<open>TextProtocol\<close>
  (\<^verbatim>\<open>src/src/core/string/textprotocol.cpp\<close>), which reads a bundle from lines of text.

  A \<^verbatim>\<open>std::string\<close> is a list of bytes that may hold a NUL; \<^verbatim>\<open>c_str()\<close> reads it up to there.
\<close>

definition c_string :: "string \<Rightarrow> string" where
  "c_string s = takeWhile (\<lambda>c. c \<noteq> NUL) s"

definition CRLF :: string where "CRLF = [CR, LF]"

section \<open>Splitting\<close>

record TextSeparator =
  mBegin :: "string option"
  mDelimiter :: string

definition new_separator :: "string \<Rightarrow> string \<Rightarrow> TextSeparator" where
  "new_separator text delimiter = \<lparr>mBegin = Some (c_string text), mDelimiter = c_string delimiter\<rparr>"

text \<open>A string of nothing but the character is left alone.\<close>

definition TrimLeft :: "char \<Rightarrow> string \<Rightarrow> string" where
  "TrimLeft ch obj = (if \<exists>c \<in> set obj. c \<noteq> ch then dropWhile (\<lambda>c. c = ch) obj else obj)"

definition TrimRight :: "char \<Rightarrow> string \<Rightarrow> string" where
  "TrimRight ch obj = (if \<exists>c \<in> set obj. c \<noteq> ch then rev (dropWhile (\<lambda>c. c = ch) (rev obj)) else obj)"

definition StringTool_Trim :: "char \<Rightarrow> string \<Rightarrow> string" where
  "StringTool_Trim ch obj = TrimRight ch (TrimLeft ch obj)"

definition GetNext :: "bool \<Rightarrow> TextSeparator \<Rightarrow> int \<times> string \<times> TextSeparator" where
  "GetNext trimTail obj =
     (case mBegin obj of None \<Rightarrow> (-1, [], obj)
      | Some s \<Rightarrow>
        (case strstr s (mDelimiter obj) of
           None \<Rightarrow> (if s = [] then -1 else 0, if trimTail then StringTool_Trim CR s else s, obj\<lparr>mBegin := None\<rparr>)
         | Some k \<Rightarrow>
             (0, if trimTail then StringTool_Trim CR (take k s) else take k s,
              obj\<lparr>mBegin := Some (drop (k + length (mDelimiter obj)) s)\<rparr>)))"

text \<open>With an empty delimiter the loop of \<^verbatim>\<open>Parse\<close> does not end.\<close>

partial_function (option) separator_items :: "TextSeparator \<Rightarrow> string list option" where
  "separator_items obj =
     (let (ret, item, obj) = GetNext False obj
      in if ret \<noteq> 0 then Some []
         else do { items \<leftarrow> separator_items obj; Some (item # items) })"

definition TextSeparator_Parse :: "string \<Rightarrow> string \<Rightarrow> string list option" where
  "TextSeparator_Parse text delimiter = separator_items (new_separator text delimiter)"

section \<open>Bundles\<close>

text \<open>A \<^verbatim>\<open>std::map\<close>: its entries in the order of their names.\<close>

type_synonym field_map = "(string \<times> string) list"

fun CoreBundle_Set :: "string \<Rightarrow> string \<Rightarrow> field_map \<Rightarrow> field_map" where
  "CoreBundle_Set n v [] = [(n, v)]"
| "CoreBundle_Set n v ((m, w) # b) =
     (if n = m then (n, v) # b
      else if n < m then (n, v) # (m, w) # b
      else (m, w) # CoreBundle_Set n v b)"

definition CoreBundle_IsKeyExists :: "field_map \<Rightarrow> string \<Rightarrow> bool" where
  "CoreBundle_IsKeyExists b n \<longleftrightarrow> map_of b n \<noteq> None"

definition CoreBundle_GetString :: "field_map \<Rightarrow> string \<Rightarrow> string \<Rightarrow> string" where
  "CoreBundle_GetString b n dflt = (case map_of b n of None \<Rightarrow> dflt | Some v \<Rightarrow> v)"

definition CoreBundle_GetInt :: "field_map \<Rightarrow> string \<Rightarrow> int \<Rightarrow> int option" where
  "CoreBundle_GetInt b n dflt =
     (if \<not> CoreBundle_IsKeyExists b n then Some dflt
      else let v = CoreBundle_GetString b n []
           in if v = [] then Some dflt else atoi (c_string v))"

definition CoreBundle_GetBool :: "field_map \<Rightarrow> string \<Rightarrow> bool \<Rightarrow> bool option" where
  "CoreBundle_GetBool b n dflt =
     (if \<not> CoreBundle_IsKeyExists b n then Some dflt
      else let v = CoreBundle_GetString b n []
           in if v = [] then Some dflt else map_option (\<lambda>i. i \<noteq> 0) (atoi (c_string v)))"

definition CoreBundle_Remove :: "string \<Rightarrow> field_map \<Rightarrow> field_map" where
  "CoreBundle_Remove n b = filter (\<lambda>(m, v). m \<noteq> n) b"

text \<open>One line of \<^verbatim>\<open>Pack\<close> and of the protocols: \<^verbatim>\<open>"%s=%s\r\n"\<close>.\<close>

definition field_line :: "string \<times> string \<Rightarrow> string" where
  "field_line kv = c_string (fst kv) @ ''='' @ c_string (snd kv) @ CRLF"

definition CoreBundle_Pack :: "field_map \<Rightarrow> string" where
  "CoreBundle_Pack b = concat (map field_line b)"

section \<open>Lines of names and values\<close>

definition split_field :: "char \<Rightarrow> string \<Rightarrow> string \<times> string" where
  "split_field sepChar item =
     (case strstr item [sepChar] of None \<Rightarrow> (item, []) | Some pos \<Rightarrow> (take pos item, drop (pos + 1) item))"

partial_function (option) parse_fields :: "char \<Rightarrow> TextSeparator \<Rightarrow> field_map \<Rightarrow> field_map option" where
  "parse_fields sepChar demux b =
     (let (ret, item, demux) = GetNext False demux
      in if ret \<noteq> 0 then Some b
         else if item = [] then parse_fields sepChar demux b
         else (let (name, v) = split_field sepChar item
               in parse_fields sepChar demux (CoreBundle_Set name v b)))"

definition TextProtocol_Parse :: "string \<Rightarrow> char \<Rightarrow> field_map option" where
  "TextProtocol_Parse sz sepChar = parse_fields sepChar (new_separator sz CRLF) []"

text \<open>
  \<^verbatim>\<open>name\<close> and \<^verbatim>\<open>value\<close> live outside the loop; \<^verbatim>\<open>GetNext\<close> clears them first. The item is
  trimmed and its quotes are removed.
\<close>

partial_function (option) parse_single :: "string \<Rightarrow> TextSeparator \<Rightarrow> field_map \<Rightarrow> field_map option" where
  "parse_single sepItem obj b =
     (let (ret, item, obj) = GetNext False obj
      in if ret \<noteq> 0 then Some b
         else
           (let item = str_replace (StringTool_Trim CHR '' '' item) ''\"'' [];
                (_, name, obj2) = GetNext False (new_separator item sepItem);
                (_, v, _) = GetNext False obj2
            in parse_single sepItem obj (CoreBundle_Set name v b)))"

definition ParseSingleLine :: "string \<Rightarrow> string \<Rightarrow> string \<Rightarrow> field_map option" where
  "ParseSingleLine sz sepItem sepItems = parse_single sepItem (new_separator sz sepItems) []"

section \<open>What splitting computes\<close>

function split_on :: "string \<Rightarrow> string \<Rightarrow> string list" where
  "split_on d s =
     (if d = [] then []
      else case strstr s d of
        None \<Rightarrow> (if s = [] then [] else [s])
      | Some k \<Rightarrow> take k s # split_on d (drop (k + length d) s))"
  by pat_completeness auto
termination
proof (relation "measure (\<lambda>(d, s). length s)")
  fix d s :: string and k
  assume "d \<noteq> []" "strstr s d = Some k"
  then have "k + length d \<le> length s" "0 < length d"
    using strstr_Some_le by auto
  then have "length (drop (k + length d) s) < length s"
    unfolding length_drop by linarith
  then show "((d, drop (k + length d) s), (d, s)) \<in> measure (\<lambda>(d, s). length s)"
    by simp
qed simp

declare split_on.simps [simp del]

lemma GetNext_simps:
  "mBegin obj = Some s \<Longrightarrow> strstr s (mDelimiter obj) = Some k \<Longrightarrow>
     GetNext False obj = (0, take k s, obj\<lparr>mBegin := Some (drop (k + length (mDelimiter obj)) s)\<rparr>)"
  "mBegin obj = Some s \<Longrightarrow> strstr s (mDelimiter obj) = None \<Longrightarrow>
     GetNext False obj = (if s = [] then -1 else 0, s, obj\<lparr>mBegin := None\<rparr>)"
  "mBegin obj = None \<Longrightarrow> GetNext False obj = (-1, [], obj)"
  by (simp_all add: GetNext_def)

lemma separator_items_None: "mBegin obj = None \<Longrightarrow> separator_items obj = Some []"
  by (subst separator_items.simps) (simp add: GetNext_simps)

lemma separator_items_eq:
  "mBegin obj = Some s \<Longrightarrow> mDelimiter obj \<noteq> [] \<Longrightarrow> separator_items obj = Some (split_on (mDelimiter obj) s)"
proof (induction "mDelimiter obj" s arbitrary: obj rule: split_on.induct)
  case (1 s)
  show ?case
  proof (cases "strstr s (mDelimiter obj)")
    case None
    then show ?thesis
      using 1 by (subst separator_items.simps, subst split_on.simps)
        (simp add: GetNext_simps separator_items_None)
  next
    case (Some k)
    let ?o = "obj\<lparr>mBegin := Some (drop (k + length (mDelimiter obj)) s)\<rparr>"
    have "separator_items ?o = Some (split_on (mDelimiter obj) (drop (k + length (mDelimiter obj)) s))"
      using "1.hyps" [of k ?o] 1 Some by simp
    then show ?thesis
      using 1 Some by (subst separator_items.simps, subst split_on.simps) (simp add: GetNext_simps)
  qed
qed

definition add_field :: "char \<Rightarrow> field_map \<Rightarrow> string \<Rightarrow> field_map" where
  "add_field sepChar b item =
     (if item = [] then b else CoreBundle_Set (fst (split_field sepChar item)) (snd (split_field sepChar item)) b)"

lemma parse_fields_None: "mBegin obj = None \<Longrightarrow> parse_fields sepChar obj b = Some b"
  by (subst parse_fields.simps) (simp add: GetNext_simps)

lemma parse_fields_eq:
  "mBegin obj = Some s \<Longrightarrow> mDelimiter obj \<noteq> [] \<Longrightarrow>
    parse_fields sepChar obj b = Some (foldl (add_field sepChar) b (split_on (mDelimiter obj) s))"
proof (induction "mDelimiter obj" s arbitrary: obj b rule: split_on.induct)
  case (1 s)
  show ?case
  proof (cases "strstr s (mDelimiter obj)")
    case None
    then show ?thesis
      using 1 by (subst parse_fields.simps, subst split_on.simps)
        (simp add: GetNext_simps parse_fields_None add_field_def split_def Let_def)
  next
    case (Some k)
    let ?o = "obj\<lparr>mBegin := Some (drop (k + length (mDelimiter obj)) s)\<rparr>"
    have "parse_fields sepChar ?o b' =
        Some (foldl (add_field sepChar) b' (split_on (mDelimiter obj) (drop (k + length (mDelimiter obj)) s)))" for b'
      using "1.hyps" [of k ?o b'] 1 Some by simp
    then show ?thesis
      using 1 Some by (subst parse_fields.simps, subst split_on.simps)
        (simp add: GetNext_simps add_field_def split_def Let_def)
  qed
qed

lemma CRLF_simps [simp]: "CRLF \<noteq> []" "length CRLF = 2" "c_string CRLF = CRLF" "NUL \<notin> set CRLF"
  by (simp_all add: CRLF_def c_string_def)

lemma TextProtocol_Parse_eq:
  "TextProtocol_Parse sz sepChar = Some (foldl (add_field sepChar) [] (split_on CRLF (c_string sz)))"
  unfolding TextProtocol_Parse_def
  by (subst parse_fields_eq [of _ "c_string sz"]) (simp_all add: new_separator_def)

section \<open>Bundles as maps\<close>

definition names_sorted :: "field_map \<Rightarrow> bool" where
  "names_sorted b \<longleftrightarrow> sorted_wrt (\<lambda>x y. fst x < fst y) b"

lemma names_sorted_simps [simp]:
  "names_sorted []" "names_sorted (kv # b) \<longleftrightarrow> (\<forall>x \<in> set b. fst kv < fst x) \<and> names_sorted b"
  by (simp_all add: names_sorted_def)

lemma CoreBundle_Set_names: "x \<in> set (CoreBundle_Set n v b) \<Longrightarrow> x = (n, v) \<or> x \<in> set b"
  by (induction n v b rule: CoreBundle_Set.induct) (auto split: if_splits)

lemma CoreBundle_Set_sorted: "names_sorted b \<Longrightarrow> names_sorted (CoreBundle_Set n v b)"
proof (induction b)
  case (Cons kv b)
  obtain m w where kv: "kv = (m, w)" by (cases kv)
  have "m < fst x" if "x \<in> set (CoreBundle_Set n v b)" "\<not> n < m" "n \<noteq> m" for x
    using CoreBundle_Set_names [OF that(1)] that(2,3) Cons.prems kv by auto
  then show ?case
    using Cons kv by (auto intro: order.strict_trans)
qed simp

lemma CoreBundle_Set_map_of: "map_of (CoreBundle_Set n v b) = (map_of b)(n \<mapsto> v)"
  by (induction n v b rule: CoreBundle_Set.induct) auto

lemma CoreBundle_Set_last:
  "\<forall>x \<in> set b. fst x < n \<Longrightarrow> CoreBundle_Set n v b = b @ [(n, v)]"
  by (induction n v b rule: CoreBundle_Set.induct) auto

lemma foldl_Set_sorted:
  "names_sorted (a @ b) \<Longrightarrow> foldl (\<lambda>b kv. CoreBundle_Set (fst kv) (snd kv) b) a b = a @ b"
proof (induction b arbitrary: a)
  case (Cons kv b)
  have "\<forall>x \<in> set a. fst x < fst kv"
    using Cons.prems by (auto simp: names_sorted_def sorted_wrt_append)
  then show ?case
    using Cons.IH [of "a @ [kv]"] Cons.prems by (simp add: CoreBundle_Set_last)
qed simp

section \<open>A bundle comes back from its lines\<close>

text \<open>What the documentation of the protocols asks of a field.\<close>

definition field_ok :: "string \<times> string \<Rightarrow> bool" where
  "field_ok kv \<longleftrightarrow> NUL \<notin> set (fst kv @ snd kv) \<and> CR \<notin> set (fst kv @ snd kv) \<and> CHR ''='' \<notin> set (fst kv)"

lemma c_string_id [simp]: "NUL \<notin> set s \<Longrightarrow> c_string s = s"
  by (auto simp: c_string_def takeWhile_eq_all_conv)

lemma c_string_no_nul [simp]: "NUL \<notin> set (c_string s)"
  by (auto simp: c_string_def dest: set_takeWhileD)

lemma strstr_char: "c \<notin> set a \<Longrightarrow> strstr (a @ c # r) [c] = Some (length a)"
  by (induction a) auto

lemma strstr_first_char:
  assumes "c \<notin> set a" "prefix (c # p) r"
  shows "strstr (a @ r) (c # p) = Some (length a)"
proof -
  have "strstr r (c # p) = Some 0"
    using assms(2) by (cases r) auto
  then show ?thesis
    using assms(1) by (induction a) auto
qed

lemma strstr_no_char: "c \<notin> set a \<Longrightarrow> strstr a (c # p) = None"
  by (induction a) auto

lemma split_field_ok: "field_ok (n, v) \<Longrightarrow> split_field CHR ''='' (n @ ''='' @ v) = (n, v)"
  by (simp add: split_field_def field_ok_def strstr_char)

lemma split_on_lines:
  assumes "\<forall>l \<in> set ls. CR \<notin> set l"
  shows "split_on CRLF (concat (map (\<lambda>l. l @ CRLF) ls)) = ls"
  using assms
proof (induction ls)
  case (Cons l ls)
  have "strstr (concat (map (\<lambda>l. l @ CRLF) (l # ls))) CRLF = Some (length l)"
    unfolding CRLF_def using Cons.prems by (auto intro: strstr_first_char)
  then show ?case
    using Cons by (subst split_on.simps) simp
qed (simp add: split_on.simps CRLF_def)

definition field_text :: "string \<times> string \<Rightarrow> string" where
  "field_text kv = fst kv @ ''='' @ snd kv"

lemma field_text_ok:
  assumes "field_ok kv"
  shows "field_line kv = field_text kv @ CRLF" "CR \<notin> set (field_text kv)" "NUL \<notin> set (field_text kv)"
    "add_field CHR ''='' b (field_text kv) = CoreBundle_Set (fst kv) (snd kv) b"
  using assms split_field_ok [of "fst kv" "snd kv"]
  by (auto simp: field_text_def field_line_def add_field_def field_ok_def)

lemma foldl_add_fields:
  "\<forall>kv \<in> set b. field_ok kv \<Longrightarrow>
    foldl (add_field CHR ''='') a (map field_text b) = foldl (\<lambda>b kv. CoreBundle_Set (fst kv) (snd kv) b) a b"
  by (induction b arbitrary: a) (simp_all add: field_text_ok)

lemma pack_lines:
  "\<forall>kv \<in> set b. field_ok kv \<Longrightarrow>
    concat (map field_line b) = concat (map (\<lambda>l. l @ CRLF) (map field_text b))"
  by (induction b) (simp_all add: field_text_ok)

lemma pack_no_nul: "NUL \<notin> set (concat (map field_line b))"
  by (auto simp: field_line_def)

text \<open>A bundle that is packed into lines and parsed again is the bundle it was.\<close>

theorem bundle_pack_roundtrip:
  assumes "names_sorted b" "\<forall>kv \<in> set b. field_ok kv"
  shows "TextProtocol_Parse (CoreBundle_Pack b) CHR ''='' = Some b"
proof -
  have "split_on CRLF (c_string (CoreBundle_Pack b)) = map field_text b"
    using assms(2) split_on_lines [of "map field_text b"] pack_no_nul [of b]
    by (auto simp: CoreBundle_Pack_def pack_lines field_text_ok)
  then show ?thesis
    using assms foldl_Set_sorted [of "[]" b] by (simp add: TextProtocol_Parse_eq foldl_add_fields)
qed

lemma bundle_pack_roundtrip_witness:
  "TextProtocol_Parse (CoreBundle_Pack [(''ip'', ''10.0.0.1''), (''name'', ''xwp=1'')]) CHR ''='' =
     Some [(''ip'', ''10.0.0.1''), (''name'', ''xwp=1'')]"
  by (rule bundle_pack_roundtrip) (simp_all add: field_ok_def less_list_code less_char_def)

end
