(* ===== verification/Ctp.thy ===== *)
theory Ctp
  imports CoreText CoreBufferOps "HOL-Library.AList"
begin

text \<open>
  The common text protocol (\<^verbatim>\<open>src/src/core/protocol/ctp/commontextprotocol_impl.cpp\<close>): commands,
  acknowledgements and notifications as lines \<^verbatim>\<open>name=value\<close> that end with an empty line, with a
  body of any bytes behind them. One object both sends and receives.

  The application is a function from the history of its calls to what it does in the last one:
  commands it sends, resets, and the answer to a command. \<^verbatim>\<open>Output\<close> is taken not to call back,
  and a callback not to call \<^verbatim>\<open>Input\<close>, which the lock of the inbox forbids. The lock only
  asserts, and only in a debug build; a callback that resets the object breaks it there, and
  here is given the meaning of the release build.
\<close>

definition CTP_CMD :: string where "CTP_CMD = ''_cmd''"
definition CTP_CMD_SEQ :: string where "CTP_CMD_SEQ = ''_seq''"
definition CTP_CMD_BODY_LENGTH :: string where "CTP_CMD_BODY_LENGTH = ''_bytes''"

datatype ctp_event =
    OnCommandCall string field_map "char list"
  | OnCommandAckCall string field_map field_map "char list"
  | OnNotifyCall string field_map "char list"
  | OutputCall "char list"

datatype ctp_request =
    AskCommand string field_map "char list" bool
  | AskReset

record ctp_reply =
  reply_requests :: "ctp_request list"
  reply_items :: field_map
  reply_body :: "char list"

type_synonym ctp_app = "ctp_event list \<Rightarrow> ctp_reply"

record ctp =
  mCB :: bool
  mInputBody :: CoreBuffer
  mReset :: bool
  mSeq :: int
  mWaitAckItems :: "(int \<times> field_map) list"
  mCtpInbox :: CoreBuffer
  mCtpOutbox :: CoreBuffer
  ctp_trace :: "ctp_event list"

definition CommonTextProtocol_Impl :: "(nat \<Rightarrow> char) \<Rightarrow> ctp option" where
  "CommonTextProtocol_Impl junk = do {
     (_, inbox) \<leftarrow> PrepareBuf junk (16 * 1024) False new_buffer;
     (_, outbox) \<leftarrow> PrepareBuf junk (4 * 1024) False new_buffer;
     Some \<lparr>mCB = False, mInputBody = new_buffer, mReset = False, mSeq = -1, mWaitAckItems = [],
           mCtpInbox = inbox, mCtpOutbox = outbox, ctp_trace = []\<rparr>
   }"

definition SetCB :: "ctp \<Rightarrow> ctp" where
  "SetCB c = c\<lparr>mCB := True\<rparr>"

definition ResetX :: "ctp \<Rightarrow> ctp" where
  "ResetX c = c\<lparr>mCtpInbox := CoreBuffer_clear (mCtpInbox c), mInputBody := CoreBuffer_clear (mInputBody c),
                mCtpOutbox := CoreBuffer_clear (mCtpOutbox c), mReset := True, mSeq := -1, mWaitAckItems := []\<rparr>"

section \<open>Sending\<close>

text \<open>\<^verbatim>\<open>sprintf("%d", i)\<close>.\<close>

definition format_int :: "int \<Rightarrow> string" where
  "format_int i = (if i < 0 then CHR ''-'' # dec (nat (- i)) else dec (nat i))"

text \<open>\<^verbatim>\<open>ByteBuffer::Write(const char*)\<close>.\<close>

definition write_text :: "(nat \<Rightarrow> char) \<Rightarrow> string \<Rightarrow> CoreBuffer \<Rightarrow> CoreBuffer option" where
  "write_text junk s b =
     (let str = c_string s
      in if str = [] then Some b
         else do {
           (_, b) \<leftarrow> CoreBuffer_Write junk (Some str) (int (length str)) b;
           (_, b) \<leftarrow> MakeSureEndWithNull junk b;
           Some b
         })"

text \<open>A body is a buffer that holds these bytes.\<close>

definition body_buffer :: "char list \<Rightarrow> CoreBuffer" where
  "body_buffer xs =
     \<lparr>m_pBuf = Some xs, m_cbBuf = int (length xs), m_cbMaxBuf = int (length xs), m_nDataOff = 0,
      m_nData = int (length xs)\<rparr>"

definition write_message ::
  "(nat \<Rightarrow> char) \<Rightarrow> string \<Rightarrow> char list \<Rightarrow> CoreBuffer \<Rightarrow> CoreBuffer option" where
  "write_message junk header body out = do {
     out \<leftarrow> write_text junk header out;
     (if body \<noteq> [] then map_option snd (CoreBuffer_Append junk (body_buffer body) True out) else Some out)
   }"

definition send_outbox :: "(nat \<Rightarrow> char) \<Rightarrow> CoreBuffer \<Rightarrow> ctp \<Rightarrow> ctp option" where
  "send_outbox junk out c = do {
     (_, out) \<leftarrow> MakeSureEndWithNull junk out;
     bytes \<leftarrow> core_bytes out;
     Some (c\<lparr>mCtpOutbox := CoreBuffer_clear out, ctp_trace := ctp_trace c @ [OutputCall bytes]\<rparr>)
   }"

definition reserved_name :: "field_map \<Rightarrow> bool" where
  "reserved_name b \<longleftrightarrow> CoreBundle_IsKeyExists b CTP_CMD \<or> CoreBundle_IsKeyExists b CTP_CMD_SEQ \<or>
     CoreBundle_IsKeyExists b CTP_CMD_BODY_LENGTH"

definition command_header :: "string \<Rightarrow> bool \<Rightarrow> int \<Rightarrow> field_map \<Rightarrow> char list \<Rightarrow> string" where
  "command_header cmd needAck seq items body =
     CTP_CMD @ ''='' @ c_string cmd @ (if needAck then [] else ''.noAck'') @ CRLF @
     CTP_CMD_SEQ @ ''='' @ format_int seq @ CRLF @
     (if body \<noteq> [] then CTP_CMD_BODY_LENGTH @ ''='' @ dec (length body) @ CRLF else []) @
     concat (map field_line items) @ CRLF"

definition wait_for_ack :: "int \<Rightarrow> field_map \<Rightarrow> (int \<times> field_map) list \<Rightarrow> (int \<times> field_map) list" where
  "wait_for_ack seq items w =
     (let w = AList.update seq items w in if length w > 100 then [] else w)"

definition AddCommandEx ::
  "(nat \<Rightarrow> char) \<Rightarrow> string \<Rightarrow> field_map \<Rightarrow> char list \<Rightarrow> bool \<Rightarrow> ctp \<Rightarrow> (int \<times> ctp) option" where
  "AddCommandEx junk cmd items body needAck c =
     (if \<not> mCB c then Some (-1, c)
      else do {
        seq \<leftarrow> c_int (mSeq c + 1);
        let c = c\<lparr>mSeq := seq\<rparr>;
        (if items \<noteq> [] \<and> reserved_name items then Some (-1, c)
         else do {
           out \<leftarrow> write_message junk (command_header cmd needAck seq items body) body (mCtpOutbox c);
           let c = (if \<not> mReset c \<and> needAck
                    then c\<lparr>mWaitAckItems := wait_for_ack seq items (mWaitAckItems c)\<rparr> else c);
           c \<leftarrow> send_outbox junk out c;
           Some (0, c)
         })
      })"

fun run_requests :: "(nat \<Rightarrow> char) \<Rightarrow> ctp_request list \<Rightarrow> ctp \<Rightarrow> ctp option" where
  "run_requests junk [] c = Some c"
| "run_requests junk (AskCommand cmd items body needAck # rs) c = do {
     (_, c) \<leftarrow> AddCommandEx junk cmd items body needAck c;
     run_requests junk rs c
   }"
| "run_requests junk (AskReset # rs) c = run_requests junk rs (ResetX c)"

section \<open>Callbacks\<close>

definition call_app :: "(nat \<Rightarrow> char) \<Rightarrow> ctp_app \<Rightarrow> ctp_event \<Rightarrow> ctp \<Rightarrow> (ctp_reply \<times> ctp) option" where
  "call_app junk app e c = do {
     let tr = ctp_trace c @ [e];
     c \<leftarrow> run_requests junk (reply_requests (app tr)) (c\<lparr>ctp_trace := tr\<rparr>);
     Some (app tr, c)
   }"

definition ack_header :: "string \<Rightarrow> field_map \<Rightarrow> field_map \<Rightarrow> char list \<Rightarrow> string" where
  "ack_header cmd inputBundle ackBundle ackBody =
     (let seq = CoreBundle_GetString inputBundle ''seq'' []
      in CTP_CMD @ ''='' @ c_string cmd @ ''.Ack'' @ CRLF @
         (if seq \<noteq> [] then CTP_CMD_SEQ @ ''='' @ c_string seq @ CRLF else []) @
         (if ackBody \<noteq> [] then CTP_CMD_BODY_LENGTH @ ''='' @ dec (length ackBody) @ CRLF else []) @
         concat (map field_line (filter (\<lambda>(n, v). n \<noteq> [] \<and> hd n = CHR ''.'') inputBundle)) @
         concat (map field_line ackBundle) @ CRLF)"

definition ctp_OnCommand ::
  "(nat \<Rightarrow> char) \<Rightarrow> ctp_app \<Rightarrow> string \<Rightarrow> field_map \<Rightarrow> ctp \<Rightarrow> ctp option" where
  "ctp_OnCommand junk app cmd inputBundle c =
     (if cmd = [] then Some c
      else do {
        body \<leftarrow> core_bytes (mInputBody c);
        (r, c) \<leftarrow> call_app junk app (OnCommandCall cmd inputBundle body) c;
        out \<leftarrow> write_message junk (ack_header cmd inputBundle (reply_items r) (reply_body r)) (reply_body r)
                 (mCtpOutbox c);
        send_outbox junk out c
      })"

definition ctp_OnCommandAck ::
  "(nat \<Rightarrow> char) \<Rightarrow> ctp_app \<Rightarrow> string \<Rightarrow> field_map \<Rightarrow> ctp \<Rightarrow> ctp option" where
  "ctp_OnCommandAck junk app cmd ackBundle c = do {
     seq \<leftarrow> CoreBundle_GetInt ackBundle CTP_CMD_SEQ (-1);
     let (reqBundle, w) = (case map_of (mWaitAckItems c) seq of
                             None \<Rightarrow> ([], mWaitAckItems c)
                           | Some b \<Rightarrow> (b, AList.delete seq (mWaitAckItems c)));
     body \<leftarrow> core_bytes (mInputBody c);
     map_option snd (call_app junk app (OnCommandAckCall cmd reqBundle ackBundle body) (c\<lparr>mWaitAckItems := w\<rparr>))
   }"

section \<open>Receiving\<close>

definition HEADER_TAIL :: string where "HEADER_TAIL = CRLF @ CRLF"

definition stristr :: "string \<Rightarrow> string \<Rightarrow> nat option" where
  "stristr psz0 psz1 = strstr (map to_lower psz0) (map to_lower psz1)"

definition length_key :: string where "length_key = CRLF @ CTP_CMD_BODY_LENGTH @ ''=''"

text \<open>The length of the body, for the C string at the message and the place of its empty line.\<close>

definition content_length :: "string \<Rightarrow> nat \<Rightarrow> int option" where
  "content_length psz headerTail =
     (case stristr psz length_key of
        None \<Rightarrow> Some 0
      | Some k \<Rightarrow>
          (if k < headerTail then
             (let szValue = drop (k + length length_key) psz
              in case stristr szValue CRLF of None \<Rightarrow> Some 0 | Some _ \<Rightarrow> atoi szValue)
           else Some 0))"

definition ParseHeaderItems :: "string \<Rightarrow> field_map \<Rightarrow> field_map option" where
  "ParseHeaderItems sz b = parse_fields CHR ''='' (new_separator sz CRLF) b"

text \<open>One complete message: the body is stored, and the command, acknowledgement or notification delivered.\<close>

definition handle_message ::
  "(nat \<Rightarrow> char) \<Rightarrow> ctp_app \<Rightarrow> string \<Rightarrow> char list \<Rightarrow> ctp \<Rightarrow> ctp option" where
  "handle_message junk app header body c = do {
     headerItems \<leftarrow> ParseHeaderItems header [];
     (_, b) \<leftarrow> (let b = CoreBuffer_clear (mInputBody c)
                in if body \<noteq> [] then CoreBuffer_Write junk (Some body) (int (length body)) b else Some (0, b));
     let c = c\<lparr>mInputBody := b\<rparr>;
     let item = CoreBundle_GetString headerItems CTP_CMD [];
     (case strstr item ''.Ack'' of
        Some pos \<Rightarrow> ctp_OnCommandAck junk app (take pos item) headerItems c
      | None \<Rightarrow>
          (case strstr item ''.noAck'' of
             Some pos \<Rightarrow>
               (if mCB c then do {
                  body \<leftarrow> core_bytes (mInputBody c);
                  map_option snd (call_app junk app (OnNotifyCall (take pos item) headerItems body) c)
                } else Some c)
           | None \<Rightarrow> ctp_OnCommand junk app item headerItems c))
   }"

text \<open>
  A turn of the loop of \<^verbatim>\<open>ParseInbox\<close>, at the place \<open>ps\<close> of the array, with \<open>cbLeft\<close> bytes left;
  it says whether the loop goes on.
\<close>

definition parse_turn ::
  "(nat \<Rightarrow> char) \<Rightarrow> ctp_app \<Rightarrow> memory \<Rightarrow> int \<Rightarrow> int \<Rightarrow> ctp \<Rightarrow> (bool \<times> int \<times> int \<times> ctp) option" where
  "parse_turn junk app buf ps cbLeft c =
     (if cbLeft \<le> 0 then Some (False, ps, cbLeft, c)
      else do {
        at \<leftarrow> c_size ps;
        psz \<leftarrow> c_str buf at;
        (case strstr psz HEADER_TAIL of
           None \<Rightarrow> Some (False, ps, cbLeft, c)
         | Some t \<Rightarrow> do {
             let headerLength = int t + 4;
             nContentLength \<leftarrow> content_length psz t;
             nEat \<leftarrow> c_int (headerLength + nContentLength);
             (if cbLeft < nEat then Some (False, ps, cbLeft, c)
              else do {
                body \<leftarrow> (if nContentLength > 0 then mem_read buf (at + t + 4) (nat nContentLength) else Some []);
                c \<leftarrow> handle_message junk app (take t psz) body c;
                left \<leftarrow> c_int (cbLeft - nEat);
                Some (True, ps + nEat, left, c)
              })
           })
      })"

partial_function (option) parse_loop ::
  "(nat \<Rightarrow> char) \<Rightarrow> ctp_app \<Rightarrow> memory \<Rightarrow> int \<Rightarrow> int \<Rightarrow> ctp \<Rightarrow> (int \<times> ctp) option" where
  "parse_loop junk app buf ps cbLeft c = do {
     (more, ps, cbLeft, c) \<leftarrow> parse_turn junk app buf ps cbLeft c;
     (if more then parse_loop junk app buf ps cbLeft c else Some (cbLeft, c))
   }"

definition ParseInbox :: "(nat \<Rightarrow> char) \<Rightarrow> ctp_app \<Rightarrow> ctp \<Rightarrow> (int \<times> ctp) option" where
  "ParseInbox junk app c =
     (let dataLen = m_nData (mCtpInbox c)
      in case m_pBuf (mCtpInbox c) of
           None \<Rightarrow> Some (-1, c)
         | Some buf \<Rightarrow>
             (if dataLen \<le> 0 then Some (-1, c)
              else do {
                (cbLeft, c) \<leftarrow> parse_loop junk app buf (m_nDataOff (mCtpInbox c)) dataLen c;
                eat \<leftarrow> c_int (dataLen - cbLeft);
                (if mReset c then Some (0, c\<lparr>mCtpInbox := CoreBuffer_clear (mCtpInbox c)\<rparr>)
                 else if eat > 0 then do {
                   (_, b) \<leftarrow> CoreBuffer_Eat eat (mCtpInbox c);
                   Some (0, c\<lparr>mCtpInbox := b\<rparr>)
                 } else Some (0, c))
              }))"

function input_loop ::
  "(nat \<Rightarrow> char) \<Rightarrow> ctp_app \<Rightarrow> char list \<Rightarrow> int \<Rightarrow> ctp \<Rightarrow> (int \<times> ctp) option" where
  "input_loop junk app d eatBytes c =
     (if d \<noteq> [] \<and> \<not> mReset c then
        (let maxBytes = GetMaxWritableBytes True (mCtpInbox c);
             inputBytes = min (int (length d)) maxBytes
         in if maxBytes \<le> 0 then Some (eatBytes, c)
            else do {
              (ret, b) \<leftarrow> CoreBuffer_Write junk (Some d) inputBytes (mCtpInbox c);
              (if ret \<noteq> inputBytes then Some (eatBytes, c\<lparr>mCtpInbox := b\<rparr>)
               else do {
                 (r, b) \<leftarrow> MakeSureEndWithNull junk b;
                 let c = c\<lparr>mCtpInbox := b\<rparr>;
                 (if r \<noteq> 0 then Some (eatBytes, c)
                  else do {
                    (r, c) \<leftarrow> ParseInbox junk app c;
                    (if r \<noteq> 0 then Some (-1, c)
                     else input_loop junk app (drop (nat inputBytes) d) (eatBytes + inputBytes) c)
                  })
               })
            })
      else Some (eatBytes, c))"
  by pat_completeness auto
termination by (relation "measure (\<lambda>(_, _, d, _, _). length d)") auto

definition ctp_Input :: "(nat \<Rightarrow> char) \<Rightarrow> ctp_app \<Rightarrow> char list \<Rightarrow> ctp \<Rightarrow> (int \<times> ctp) option" where
  "ctp_Input junk app d c =
     (if \<not> mCB c then Some (0, c) else input_loop junk app d 0 (c\<lparr>mReset := False\<rparr>))"

declare input_loop.simps [simp del]

end
