(* ===== verification/CtpParse.thy ===== *)
theory CtpParse
  imports Ctp
begin

text \<open>
  The receiving side of the common text protocol: \<^verbatim>\<open>Input\<close> splits the stream of bytes into
  messages and handles them in order. The reference splits a list of bytes.
\<close>

section \<open>Splitting a stream\<close>

definition message_at :: "char list \<Rightarrow> (string \<times> char list \<times> char list) option" where
  "message_at s =
     (case strstr (c_string s) HEADER_TAIL of None \<Rightarrow> None
      | Some t \<Rightarrow>
        (case content_length (c_string s) t of None \<Rightarrow> None
         | Some n \<Rightarrow>
           (if 0 \<le> n \<and> t + 4 + nat n \<le> length s
            then Some (take t s, take (nat n) (drop (t + 4) s), drop (t + 4 + nat n) s) else None)))"

lemma HEADER_TAIL_simps [simp]: "HEADER_TAIL \<noteq> []" "length HEADER_TAIL = 4" "NUL \<notin> set HEADER_TAIL"
  by (simp_all add: HEADER_TAIL_def)

lemma c_string_prefix: "prefix (c_string s) s"
  unfolding c_string_def by (metis prefix_def takeWhile_dropWhile_id)

lemma c_string_le: "length (c_string s) \<le> length s"
  by (simp add: c_string_def length_takeWhile_le)

lemma take_c_string: "k \<le> length (c_string s) \<Longrightarrow> take k (c_string s) = take k s"
proof -
  assume k: "k \<le> length (c_string s)"
  obtain z where "s = c_string s @ z"
    using c_string_prefix [of s] by (auto simp: prefix_def)
  then have "take k s = take k (c_string s @ z)"
    by (rule arg_cong)
  then show ?thesis
    using k by simp
qed

lemma message_at_less: "message_at s = Some (h, b, r) \<Longrightarrow> length r < length s"
  by (auto simp: message_at_def split: option.splits if_splits)

function split_messages :: "char list \<Rightarrow> (string \<times> char list) list \<times> char list" where
  "split_messages s =
     (case message_at s of None \<Rightarrow> ([], s)
      | Some (h, b, r) \<Rightarrow> (let (ms, rest) = split_messages r in ((h, b) # ms, rest)))"
  by pat_completeness auto
termination by (relation "measure length") (auto dest: message_at_less)

text \<open>
  Every length that a header of the stream gives is a number that a message can have, written
  in the line of the field: \<^verbatim>\<open>atoi\<close> skips line ends, so that behind an empty value it would read
  from the body.
\<close>

definition number_ok :: "string \<Rightarrow> nat \<Rightarrow> bool" where
  "number_ok psz headerTail \<longleftrightarrow>
     (case stristr psz length_key of None \<Rightarrow> True
      | Some k \<Rightarrow> k < headerTail \<longrightarrow>
          (\<exists>c \<in> set (takeWhile (\<lambda>c. c \<noteq> CR) (drop (k + length length_key) psz)). \<not> is_space c))"

function lengths_fine :: "char list \<Rightarrow> bool" where
  "lengths_fine s \<longleftrightarrow>
     (case strstr (c_string s) HEADER_TAIL of None \<Rightarrow> True
      | Some t \<Rightarrow>
        (case content_length (c_string s) t of None \<Rightarrow> False
         | Some n \<Rightarrow> 0 \<le> n \<and> int t + 4 + n < 2 ^ 31 \<and> number_ok (c_string s) t \<and>
             (case message_at s of None \<Rightarrow> True | Some (h, b, r) \<Rightarrow> lengths_fine r)))"
  by pat_completeness auto
termination by (relation "measure length") (auto dest: message_at_less)

declare split_messages.simps [simp del] lengths_fine.simps [simp del]

lemma split_messages_simps:
  "message_at s = None \<Longrightarrow> split_messages s = ([], s)"
  "message_at s = Some (h, b, r) \<Longrightarrow>
     split_messages s = ((h, b) # fst (split_messages r), snd (split_messages r))"
  by (simp_all add: split_messages.simps [of s] split_def Let_def)

lemma lengths_fine_next: "lengths_fine s \<Longrightarrow> message_at s = Some (h, b, r) \<Longrightarrow> lengths_fine r"
  by (auto simp: lengths_fine.simps [of s] message_at_def split: option.splits if_splits)

text \<open>Induction over the messages of a stream.\<close>

lemma messages_induct [case_names step]:
  assumes "\<And>s. (\<And>h b r. message_at s = Some (h, b, r) \<Longrightarrow> P r) \<Longrightarrow> P s"
  shows "P s"
proof (induction "length s" arbitrary: s rule: less_induct)
  case less
  then show ?case
    by (meson assms message_at_less)
qed

lemma split_messages_rest_le: "length (snd (split_messages s)) \<le> length s"
proof (induction s rule: messages_induct)
  case (step s)
  show ?case
  proof (cases "message_at s")
    case (Some m)
    obtain h b r where "m = (h, b, r)" by (cases m)
    then show ?thesis
      using step [of h b r] Some message_at_less [of s h b r] by (simp add: split_messages_simps)
  qed (simp add: split_messages_simps)
qed

lemma split_messages_rest: "message_at (snd (split_messages s)) = None"
proof (induction s rule: messages_induct)
  case (step s)
  show ?case
  proof (cases "message_at s")
    case (Some m)
    obtain h b r where "m = (h, b, r)" by (cases m)
    then show ?thesis
      using step [of h b r] Some by (simp add: split_messages_simps)
  qed (simp add: split_messages_simps)
qed

fun handle_all ::
  "(nat \<Rightarrow> char) \<Rightarrow> ctp_app \<Rightarrow> (string \<times> char list) list \<Rightarrow> ctp \<Rightarrow> ctp option" where
  "handle_all junk app [] c = Some c"
| "handle_all junk app ((h, b) # ms) c = do { c \<leftarrow> handle_message junk app h b c; handle_all junk app ms c }"

lemma handle_all_append:
  "handle_all junk app (ms @ ms') c = do { c \<leftarrow> handle_all junk app ms c; handle_all junk app ms' c }"
  by (induction ms arbitrary: c) (auto split: Option.bind_splits)

section \<open>The loop\<close>

text \<open>The data \<open>s\<close> at \<open>ps\<close> in the array, with a NUL behind them.\<close>

definition text_at :: "memory \<Rightarrow> nat \<Rightarrow> char list \<Rightarrow> bool" where
  "text_at buf ps s \<longleftrightarrow> ps + length s \<le> length buf \<and> take (length s) (drop ps buf) = s \<and>
     (\<forall>k < length s. c_str buf (ps + k) = Some (c_string (drop k s)))"

lemma text_at_drop: "text_at buf ps s \<Longrightarrow> k \<le> length s \<Longrightarrow> text_at buf (ps + k) (drop k s)"
proof -
  assume a: "text_at buf ps s" "k \<le> length s"
  have "drop k s = drop k (take (length s) (drop ps buf))"
    using a(1) by (simp add: text_at_def)
  also have "\<dots> = take (length s - k) (drop (ps + k) buf)"
    by (simp add: drop_take add.commute)
  finally have e: "drop k s = take (length s - k) (drop (ps + k) buf)" .
  have "take (length (drop k s)) (drop (ps + k) buf) = drop k s"
    unfolding length_drop by (rule e [symmetric])
  moreover have "c_str buf (ps + k + j) = Some (c_string (drop j (drop k s)))" if "j < length s - k" for j
  proof -
    have "c_str buf (ps + (k + j)) = Some (c_string (drop (k + j) s))"
      using a that by (simp add: text_at_def)
    then show ?thesis
      by (simp add: add.assoc add.commute [of k])
  qed
  ultimately show "text_at buf (ps + k) (drop k s)"
    using a by (simp add: text_at_def)
qed

lemma text_at_read:
  assumes "text_at buf ps s" "i + n \<le> length s"
  shows "mem_read buf (ps + i) n = Some (take n (drop i s))"
proof -
  have "drop i s = drop i (take (length s) (drop ps buf))"
    using assms(1) by (simp add: text_at_def)
  also have "\<dots> = take (length s - i) (drop (ps + i) buf)"
    by (simp add: drop_take add.commute)
  finally show ?thesis
    using assms by (simp add: mem_read_def text_at_def min_def)
qed

lemma text_at_str: "text_at buf ps s \<Longrightarrow> s \<noteq> [] \<Longrightarrow> c_str buf ps = Some (c_string s)"
  unfolding text_at_def by (metis add.right_neutral drop0 length_greater_0_conv)

lemma parse_turn_stop:
  assumes "text_at buf ps s" "message_at s = None" "lengths_fine s"
  shows "parse_turn junk app buf (int ps) (int (length s)) c = Some (False, int ps, int (length s), c)"
proof (cases "s = []")
  case False
  note str = text_at_str [OF assms(1) False]
  show ?thesis
  proof (cases "strstr (c_string s) HEADER_TAIL")
    case None
    then show ?thesis
      using False by (simp add: parse_turn_def str)
  next
    case (Some t)
    obtain n where n: "content_length (c_string s) t = Some n" "0 \<le> n" "int t + 4 + n < 2 ^ 31"
      using assms(3) Some by (auto simp: lengths_fine.simps [of s] split: option.splits)
    have "\<not> t + 4 + nat n \<le> length s"
      using assms(2) Some n by (auto simp: message_at_def split: if_splits)
    then have "int (length s) < int t + 4 + n"
      using n(2) by linarith
    then show ?thesis
      using False Some n by (simp add: parse_turn_def str c_int_def)
  qed
qed (simp add: parse_turn_def)

lemma parse_turn_message:
  assumes s: "text_at buf ps s" "message_at s = Some (h, b, r)" "lengths_fine s" "length s < 2 ^ 31"
  obtains k where "parse_turn junk app buf (int ps) (int (length s)) c =
      do { c \<leftarrow> handle_message junk app h b c; Some (True, int (ps + k), int (length r), c) }"
    "text_at buf (ps + k) r"
proof -
  have ne: "s \<noteq> []"
    using message_at_less [OF s(2)] by auto
  note str = text_at_str [OF s(1) ne]
  obtain t n where t: "strstr (c_string s) HEADER_TAIL = Some t" "content_length (c_string s) t = Some n" "0 \<le> n"
      "t + 4 + nat n \<le> length s" "h = take t s" "b = take (nat n) (drop (t + 4) s)" "r = drop (t + 4 + nat n) s"
    using s(2) by (auto simp: message_at_def split: option.splits if_splits)
  have fine: "c_int (int t + 4 + n) = Some (int t + 4 + n)" "c_int (int (length s) - (int t + 4 + n)) = Some (int (length r))"
    using t(3,4,7) s(4) by (auto simp: c_int_def of_nat_diff)
  have fits: "\<not> int (length s) < int t + 4 + n" "int ps + (int t + 4 + n) = int (ps + (t + 4 + nat n))"
    using t(3,4) by linarith+
  have h: "take t (c_string s) = h"
    using strstr_Some_le [OF t(1)] by (simp add: take_c_string t(5))
  have body: "(if n > 0 then mem_read buf (ps + t + 4) (nat n) else Some []) = Some b"
    using text_at_read [OF s(1), of "t + 4" "nat n"] t(3,4) by (auto simp: t(6) add.assoc)
  have "parse_turn junk app buf (int ps) (int (length s)) c =
      do { c \<leftarrow> handle_message junk app h b c; Some (True, int (ps + (t + 4 + nat n)), int (length r), c) }"
    using ne t(1,2) fine(1) fine(2) body h by (simp add: parse_turn_def str Let_def fits del: of_nat_add)
  then show thesis
    using text_at_drop [OF s(1) t(4)] t(7) by (intro that [of "t + 4 + nat n"]) simp_all
qed

lemma parse_loop_eq:
  assumes "text_at buf ps s" "lengths_fine s" "length s < 2 ^ 31"
  shows "parse_loop junk app buf (int ps) (int (length s)) c =
    do { c \<leftarrow> handle_all junk app (fst (split_messages s)) c; Some (int (length (snd (split_messages s))), c) }"
  using assms
proof (induction s arbitrary: ps c rule: messages_induct)
  case (step s)
  show ?case
  proof (cases "message_at s")
    case None
    then show ?thesis
      using step.prems by (subst parse_loop.simps) (simp add: parse_turn_stop split_messages_simps)
  next
    case (Some m)
    obtain h b r where m: "message_at s = Some (h, b, r)"
      using Some by (cases m) auto
    obtain k where k: "parse_turn junk app buf (int ps) (int (length s)) c =
        do { c \<leftarrow> handle_message junk app h b c; Some (True, int (ps + k), int (length r), c) }"
      "text_at buf (ps + k) r"
      by (rule parse_turn_message [OF step.prems(1) m step.prems(2,3)])
    have IH: "parse_loop junk app buf (int (ps + k)) (int (length r)) c =
        do { c \<leftarrow> handle_all junk app (fst (split_messages r)) c; Some (int (length (snd (split_messages r))), c) }" for c
      using step.IH [OF m k(2) lengths_fine_next [OF step.prems(2) m]] message_at_less [OF m] step.prems(3) by simp
    show ?thesis
      by (subst parse_loop.simps) (simp add: k(1) IH split_messages_simps(2) [OF m] split: bind_splits del: of_nat_add)
  qed
qed

section \<open>Callbacks and the inbox\<close>

text \<open>The object without its inbox; what handling a message does depends on nothing else.\<close>

definition settled :: "ctp \<Rightarrow> ctp" where
  "settled c = c\<lparr>mCtpInbox := new_buffer\<rparr>"

lemma settled_simps [simp]:
  "mCB (settled c) = mCB c" "mInputBody (settled c) = mInputBody c" "mReset (settled c) = mReset c"
  "mSeq (settled c) = mSeq c" "mWaitAckItems (settled c) = mWaitAckItems c"
  "mCtpOutbox (settled c) = mCtpOutbox c" "ctp_trace (settled c) = ctp_trace c"
  "settled (settled c) = settled c" "settled (c\<lparr>mCtpInbox := b\<rparr>) = settled c"
  "(settled c)\<lparr>mCtpInbox := b\<rparr> = c\<lparr>mCtpInbox := b\<rparr>"
  by (simp_all add: settled_def)

lemma settled_updates:
  "settled (c\<lparr>mInputBody := a\<rparr>) = (settled c)\<lparr>mInputBody := a\<rparr>" "settled (c\<lparr>mSeq := i\<rparr>) = (settled c)\<lparr>mSeq := i\<rparr>"
  "settled (c\<lparr>mWaitAckItems := w\<rparr>) = (settled c)\<lparr>mWaitAckItems := w\<rparr>"
  "settled (c\<lparr>mCtpOutbox := a\<rparr>) = (settled c)\<lparr>mCtpOutbox := a\<rparr>"
  "settled (c\<lparr>ctp_trace := tr\<rparr>) = (settled c)\<lparr>ctp_trace := tr\<rparr>" "settled (c\<lparr>mReset := r\<rparr>) = (settled c)\<lparr>mReset := r\<rparr>"
  by (simp_all add: settled_def)

text \<open>
  A step of the callbacks: it does the same to the settled object, and it leaves the inbox alone
  unless it resets the object.
\<close>

definition inbox_step :: "(ctp \<Rightarrow> ctp option) \<Rightarrow> bool" where
  "inbox_step f \<longleftrightarrow> (\<forall>c. map_option settled (f c) = map_option settled (f (settled c)) \<and>
     (\<forall>c'. f c = Some c' \<longrightarrow> mCB c' = mCB c \<and>
        (mReset c' = mReset c \<and> mCtpInbox c' = mCtpInbox c \<or>
         mReset c' \<and> mCtpInbox c' = CoreBuffer_clear (mCtpInbox c))))"

lemma inbox_stepI:
  assumes "\<And>c. map_option settled (f c) = map_option settled (f (settled c))"
    and "\<And>c c'. f c = Some c' \<Longrightarrow> mCB c' = mCB c \<and> (mReset c' = mReset c \<and> mCtpInbox c' = mCtpInbox c \<or>
      mReset c' \<and> mCtpInbox c' = CoreBuffer_clear (mCtpInbox c))"
  shows "inbox_step f"
  using assms by (simp add: inbox_step_def)

lemma inbox_stepD:
  assumes "inbox_step f"
  shows "map_option settled (f c) = map_option settled (f (settled c))"
    "f c = Some c' \<Longrightarrow> mCB c' = mCB c"
    "f c = Some c' \<Longrightarrow> mReset c' = mReset c \<and> mCtpInbox c' = mCtpInbox c \<or>
      mReset c' \<and> mCtpInbox c' = CoreBuffer_clear (mCtpInbox c)"
  using assms unfolding inbox_step_def by blast+

lemma clear_clear [simp]: "CoreBuffer_clear (CoreBuffer_clear b) = CoreBuffer_clear b"
  by (simp add: CoreBuffer_clear_def)

lemma inbox_step_bind:
  assumes f: "inbox_step f" and g: "\<And>x. inbox_step (g x)"
  shows "inbox_step (\<lambda>c. do { c \<leftarrow> f c; g (p (settled c)) c })"
proof (rule inbox_stepI)
  fix c
  show "map_option settled (f c \<bind> (\<lambda>c. g (p (settled c)) c)) =
      map_option settled (f (settled c) \<bind> (\<lambda>c. g (p (settled c)) c))"
    using inbox_stepD(1) [OF f, of c] inbox_stepD(1) [OF g]
    by (cases "f c"; cases "f (settled c)") (auto, metis)
next
  fix c c'
  assume "f c \<bind> (\<lambda>c. g (p (settled c)) c) = Some c'"
  then obtain c1 where "f c = Some c1" "g (p (settled c1)) c1 = Some c'"
    by (auto simp: bind_eq_Some_conv)
  then show "mCB c' = mCB c \<and> (mReset c' = mReset c \<and> mCtpInbox c' = mCtpInbox c \<or>
      mReset c' \<and> mCtpInbox c' = CoreBuffer_clear (mCtpInbox c))"
    using inbox_stepD(2,3) [OF f, of c c1] inbox_stepD(2,3) [OF g, of "p (settled c1)" c1 c'] by auto
qed

lemma inbox_step_ResetX: "inbox_step (\<lambda>c. Some (ResetX c))"
  by (rule inbox_stepI) (simp_all add: ResetX_def settled_def new_buffer_def CoreBuffer_clear_def)

lemma inbox_step_send: "inbox_step (send_outbox junk out)"
proof (rule inbox_stepI)
  fix c
  show "map_option settled (send_outbox junk out c) = map_option settled (send_outbox junk out (settled c))"
    by (auto simp: send_outbox_def settled_updates split: bind_splits)
qed (auto simp: send_outbox_def bind_eq_Some_conv)

lemma inbox_step_AddCommandEx: "inbox_step (\<lambda>c. map_option snd (AddCommandEx junk cmd items body needAck c))"
proof (rule inbox_stepI)
  fix c
  show "map_option settled (map_option snd (AddCommandEx junk cmd items body needAck c)) =
      map_option settled (map_option snd (AddCommandEx junk cmd items body needAck (settled c)))"
    by (cases "mReset c"; cases needAck)
      (simp_all add: AddCommandEx_def send_outbox_def settled_updates Let_def map_option_bind o_def split_def
        if_distrib [of "map_option _"] cong: if_cong)
next
  fix c c'
  assume a: "map_option snd (AddCommandEx junk cmd items body needAck c) = Some c'"
  have out: "mCB c2 = mCB c1 \<and> mReset c2 = mReset c1 \<and> mCtpInbox c2 = mCtpInbox c1"
    if "send_outbox junk out c1 = Some c2" for out c1 c2
    using that by (auto simp: send_outbox_def bind_eq_Some_conv)
  show "mCB c' = mCB c \<and> (mReset c' = mReset c \<and> mCtpInbox c' = mCtpInbox c \<or>
      mReset c' \<and> mCtpInbox c' = CoreBuffer_clear (mCtpInbox c))"
  proof (cases "mCB c")
    case True
    then obtain seq where seq: "c_int (mSeq c + 1) = Some seq"
      using a by (cases "c_int (mSeq c + 1)") (simp_all add: AddCommandEx_def)
    show ?thesis
    proof (cases "items \<noteq> [] \<and> reserved_name items")
      case True
      then show ?thesis
        using a \<open>mCB c\<close> seq by (auto simp: AddCommandEx_def)
    next
      case False
      then show ?thesis
        using a \<open>mCB c\<close> seq
        by (cases "mReset c"; cases needAck) (auto simp: AddCommandEx_def bind_eq_Some_conv Let_def dest!: out)
    qed
  qed (use a in \<open>simp add: AddCommandEx_def\<close>)
qed

lemma run_requests_step: "inbox_step (run_requests junk rs)"
proof (induction rs)
  case Nil
  then show ?case by (rule inbox_stepI) simp_all
next
  case (Cons r rs)
  show ?case
  proof (cases r)
    case (AskCommand cmd items body needAck)
    have "run_requests junk (r # rs) =
        (\<lambda>c. map_option snd (AddCommandEx junk cmd items body needAck c) \<bind> (\<lambda>c. run_requests junk rs c))"
      by (rule ext) (auto simp: AskCommand split: bind_splits)
    then show ?thesis
      using inbox_step_bind [OF inbox_step_AddCommandEx Cons.IH, of junk cmd items body needAck] by simp
  next
    case AskReset
    have "run_requests junk (r # rs) = (\<lambda>c. Some (ResetX c) \<bind> (\<lambda>c. run_requests junk rs c))"
      by (rule ext) (simp add: AskReset)
    then show ?thesis
      using inbox_step_bind [OF inbox_step_ResetX Cons.IH] by simp
  qed
qed

lemma inbox_step_call_app:
  assumes "\<And>r. inbox_step (g r)"
  shows "inbox_step (\<lambda>c. do { (r, c) \<leftarrow> call_app junk app e c; g r c })"
proof -
  let ?tr = "\<lambda>c. ctp_trace c @ [e]"
  have *: "inbox_step (\<lambda>c. run_requests junk (reply_requests (app tr)) c \<bind> (\<lambda>c. g (app tr) c))" for tr
    using inbox_step_bind [OF run_requests_step assms] .
  have eq: "(do { (r, c) \<leftarrow> call_app junk app e c; g r c }) =
      run_requests junk (reply_requests (app (?tr c))) (c\<lparr>ctp_trace := ?tr c\<rparr>) \<bind> (\<lambda>c'. g (app (?tr c)) c')" for c
    by (simp add: call_app_def Let_def)
  show ?thesis
    unfolding eq
  proof (rule inbox_stepI, goal_cases)
    case (1 c)
    then show ?case
      using inbox_stepD(1) [OF *, of "?tr c" "c\<lparr>ctp_trace := ?tr c\<rparr>"] by (simp add: settled_updates)
  next
    case (2 c c')
    then show ?case
      using inbox_stepD(2,3) [OF *, of "?tr c" "c\<lparr>ctp_trace := ?tr c\<rparr>" c'] by simp
  qed
qed

lemma inbox_step_pre:
  assumes g: "\<And>x. inbox_step (g x)" and p: "\<And>c. p (settled c) = p c"
  shows "inbox_step (\<lambda>c. do { x \<leftarrow> p c; g x c })"
proof (rule inbox_stepI)
  fix c
  show "map_option settled (p c \<bind> (\<lambda>x. g x c)) = map_option settled (p (settled c) \<bind> (\<lambda>x. g x (settled c)))"
    using inbox_stepD(1) [OF g] by (simp add: p map_option_bind o_def)
next
  fix c c'
  assume "p c \<bind> (\<lambda>x. g x c) = Some c'"
  then obtain x where "g x c = Some c'"
    by (auto simp: bind_eq_Some_conv)
  then show "mCB c' = mCB c \<and> (mReset c' = mReset c \<and> mCtpInbox c' = mCtpInbox c \<or>
      mReset c' \<and> mCtpInbox c' = CoreBuffer_clear (mCtpInbox c))"
    using inbox_stepD(2,3) [OF g, of x c c'] by auto
qed

lemma inbox_step_Some: "inbox_step Some"
  by (rule inbox_stepI) simp_all

lemma inbox_step_OnCommand: "inbox_step (ctp_OnCommand junk app cmd items)"
proof (cases "cmd = []")
  case True
  then show ?thesis
    using inbox_step_Some by (simp add: ctp_OnCommand_def [abs_def])
next
  case False
  have reply: "inbox_step (\<lambda>c. do { out \<leftarrow> write_message junk h b (mCtpOutbox c); send_outbox junk out c })" for h b
    by (rule inbox_step_pre) (simp_all add: inbox_step_send)
  have "inbox_step (\<lambda>c. do { body \<leftarrow> core_bytes (mInputBody c);
       (r, c) \<leftarrow> call_app junk app (OnCommandCall cmd items body) c;
       out \<leftarrow> write_message junk (ack_header cmd items (reply_items r) (reply_body r)) (reply_body r) (mCtpOutbox c);
       send_outbox junk out c })"
    by (rule inbox_step_pre, rule inbox_step_call_app, rule reply) simp
  then show ?thesis
    using False by (simp add: ctp_OnCommand_def [abs_def])
qed

lemma inbox_step_upd:
  assumes g: "inbox_step g" and u: "\<And>c. settled (u c) = u (settled c)" "\<And>c. mCB (u c) = mCB c"
    "\<And>c. mReset (u c) = mReset c" "\<And>c. mCtpInbox (u c) = mCtpInbox c"
  shows "inbox_step (\<lambda>c. g (u c))"
proof (rule inbox_stepI)
  fix c
  show "map_option settled (g (u c)) = map_option settled (g (u (settled c)))"
    using inbox_stepD(1) [OF g, of "u c"] by (simp add: u(1))
next
  fix c c'
  assume "g (u c) = Some c'"
  then show "mCB c' = mCB c \<and> (mReset c' = mReset c \<and> mCtpInbox c' = mCtpInbox c \<or>
      mReset c' \<and> mCtpInbox c' = CoreBuffer_clear (mCtpInbox c))"
    using inbox_stepD(2,3) [OF g, of "u c" c'] by (simp add: u)
qed

lemma inbox_step_call: "inbox_step (\<lambda>c. map_option snd (call_app junk app e c))"
proof -
  have "inbox_step (\<lambda>c. do { (r, c) \<leftarrow> call_app junk app e c; Some c })"
    by (rule inbox_step_call_app) (rule inbox_step_Some)
  moreover have "(do { (r, c) \<leftarrow> call_app junk app e c; Some c }) = map_option snd (call_app junk app e c)" for c
    by (cases "call_app junk app e c") auto
  ultimately show ?thesis
    by simp
qed

lemma inbox_step_if:
  assumes f: "inbox_step f" and g: "inbox_step g" and p: "\<And>c. p (settled c) = p c"
  shows "inbox_step (\<lambda>c. if p c then f c else g c)"
proof (rule inbox_stepI)
  fix c
  show "map_option settled (if p c then f c else g c) =
      map_option settled (if p (settled c) then f (settled c) else g (settled c))"
    using inbox_stepD(1) [OF f, of c] inbox_stepD(1) [OF g, of c] by (simp add: p)
next
  fix c c'
  assume "(if p c then f c else g c) = Some c'"
  then show "mCB c' = mCB c \<and> (mReset c' = mReset c \<and> mCtpInbox c' = mCtpInbox c \<or>
      mReset c' \<and> mCtpInbox c' = CoreBuffer_clear (mCtpInbox c))"
    using inbox_stepD(2,3) [OF f, of c c'] inbox_stepD(2,3) [OF g, of c c'] by (simp split: if_split_asm)
qed

lemma inbox_step_OnCommandAck: "inbox_step (ctp_OnCommandAck junk app cmd items)"
proof -
  let ?w = "\<lambda>seq c. case map_of (mWaitAckItems c) seq of None \<Rightarrow> ([], mWaitAckItems c)
      | Some b \<Rightarrow> (b, AList.delete seq (mWaitAckItems c))"
  have call: "inbox_step (\<lambda>c. map_option snd (call_app junk app e (c\<lparr>mWaitAckItems := w\<rparr>)))" for e w
    by (rule inbox_step_upd [OF inbox_step_call]) (simp_all add: settled_updates)
  have "inbox_step (\<lambda>c. do { seq \<leftarrow> CoreBundle_GetInt items CTP_CMD_SEQ (-1);
      x \<leftarrow> Some (?w seq c); body \<leftarrow> core_bytes (mInputBody c);
      map_option snd (call_app junk app (OnCommandAckCall cmd (fst x) items body) (c\<lparr>mWaitAckItems := snd x\<rparr>)) })"
    by (rule inbox_step_pre, rule inbox_step_pre, rule inbox_step_pre, rule call) (simp_all split: option.split)
  then show ?thesis
    by (simp add: ctp_OnCommandAck_def [abs_def] Let_def split_def)
qed

lemma inbox_step_handle: "inbox_step (handle_message junk app h b)"
proof -
  let ?b = "\<lambda>c. if b \<noteq> [] then CoreBuffer_Write junk (Some b) (int (length b)) (CoreBuffer_clear (mInputBody c))
      else Some (0, CoreBuffer_clear (mInputBody c))"
  have notify: "inbox_step (\<lambda>c. if mCB c then do { body \<leftarrow> core_bytes (mInputBody c);
      map_option snd (call_app junk app (OnNotifyCall cmd items body) c) } else Some c)" for cmd items
    by (rule inbox_step_if, rule inbox_step_pre, rule inbox_step_call) (simp_all add: inbox_step_Some)
  have "inbox_step (\<lambda>c. do { headerItems \<leftarrow> ParseHeaderItems h []; x \<leftarrow> ?b c;
      (case strstr (CoreBundle_GetString headerItems CTP_CMD []) ''.Ack'' of
         Some pos \<Rightarrow> ctp_OnCommandAck junk app (take pos (CoreBundle_GetString headerItems CTP_CMD [])) headerItems
       | None \<Rightarrow>
          (case strstr (CoreBundle_GetString headerItems CTP_CMD []) ''.noAck'' of
             Some pos \<Rightarrow> (\<lambda>c. if mCB c then do { body \<leftarrow> core_bytes (mInputBody c);
               map_option snd (call_app junk app (OnNotifyCall
                 (take pos (CoreBundle_GetString headerItems CTP_CMD [])) headerItems body) c) } else Some c)
           | None \<Rightarrow> ctp_OnCommand junk app (CoreBundle_GetString headerItems CTP_CMD []) headerItems))
        (c\<lparr>mInputBody := snd x\<rparr>) })"
    by (rule inbox_step_pre, rule inbox_step_pre, rule inbox_step_upd)
      (simp_all add: settled_updates inbox_step_OnCommandAck inbox_step_OnCommand notify split: option.split)
  then show ?thesis
    by (simp add: handle_message_def [abs_def] Let_def split_def option.case_distrib [of "\<lambda>f. f _"] cong: option.case_cong)
qed

lemma inbox_step_handle_all: "inbox_step (handle_all junk app ms)"
proof (induction ms)
  case (Cons m ms)
  obtain h b where "m = (h, b)" by (cases m)
  then show ?case
    using inbox_step_bind [OF inbox_step_handle Cons.IH, of junk app h b] by simp
qed (auto intro: inbox_stepI)

end
