(* ===== verification/CtpStream.thy ===== *)
theory CtpStream
  imports CtpParse
begin

text \<open>
  \<^verbatim>\<open>Input\<close> as a whole: one call handles the complete messages of what was pending and what is
  new, and the way a stream is cut into calls does not matter.
\<close>

section \<open>One call\<close>

definition inbox_holds :: "nat \<Rightarrow> char list \<Rightarrow> CoreBuffer \<Rightarrow> bool" where
  "inbox_holds cap d b \<longleftrightarrow> core_ok b \<and> m_pBuf b \<noteq> None \<and> core_cap b = cap \<and> core_data b = d"

lemma inbox_holds_clear: "inbox_holds cap d b \<Longrightarrow> inbox_holds cap [] (CoreBuffer_clear b)"
  by (simp add: inbox_holds_def CoreBuffer_clear_spec)

lemma inbox_holds_eat:
  assumes "inbox_holds cap d b" "k \<le> length d"
  obtains b' where "CoreBuffer_Eat (int k) b = Some (0, b')" "inbox_holds cap (drop k d) b'"
proof -
  obtain b' where "CoreBuffer_Eat (int k) b = Some (0, b')" "core_ok b'" "m_pBuf b' \<noteq> None"
    "core_data b' = drop k (core_data b)" "core_cap b' = core_cap b"
    by (rule CoreBuffer_Eat_spec [of b k]) (use assms in \<open>auto simp: inbox_holds_def\<close>)
  then show thesis
    using assms by (intro that [of b']) (simp_all add: inbox_holds_def)
qed

lemma split_messages_drop: "snd (split_messages s) = drop (length s - length (snd (split_messages s))) s"
proof (induction s rule: messages_induct)
  case (step s)
  show ?case
  proof (cases "message_at s")
    case (Some m)
    obtain h b r where m: "message_at s = Some (h, b, r)"
      using Some by (cases m) auto
    obtain k where k: "r = drop k s" "k \<le> length s"
      using m by (auto simp: message_at_def split: option.splits if_splits)
    let ?r = "snd (split_messages r)"
    have le: "length ?r \<le> length r"
      by (rule split_messages_rest_le)
    have "?r = drop (length r - length ?r) (drop k s)"
      using step [OF m] k(1) by simp
    also have "\<dots> = drop (length s - length ?r) s"
      using k le by simp
    finally show ?thesis
      by (simp add: split_messages_simps(2) [OF m])
  qed (simp add: split_messages_simps)
qed

text \<open>The object holds \<open>p\<close> in an inbox of size \<open>cap\<close>, and is \<open>a\<close> otherwise.\<close>

definition ctp_rep :: "nat \<Rightarrow> char list \<Rightarrow> ctp \<Rightarrow> ctp \<Rightarrow> bool" where
  "ctp_rep cap p a c \<longleftrightarrow> inbox_holds cap p (mCtpInbox c) \<and> mCB c \<and> settled c = a"

text \<open>What is left of the data behind the messages.\<close>

definition left_over :: "ctp \<Rightarrow> char list \<Rightarrow> char list" where
  "left_over a s = (if mReset a then [] else snd (split_messages s))"

lemma ParseInbox_spec:
  assumes rep: "ctp_rep cap s a c" "s \<noteq> []" and fine: "lengths_fine s" "length s < 2 ^ 31" and r: "\<not> mReset c"
    and place: "m_pBuf (mCtpInbox c) = Some buf" "m_nDataOff (mCtpInbox c) = int off" "text_at buf off s"
  shows "case handle_all junk app (fst (split_messages s)) a of
      None \<Rightarrow> ParseInbox junk app c = None
    | Some a' \<Rightarrow> \<exists>c'. ParseInbox junk app c = Some (0, c') \<and> ctp_rep cap (left_over a' s) (settled a') c'"
proof -
  let ?ms = "fst (split_messages s)" and ?r = "snd (split_messages s)"
  have in0: "inbox_holds cap s (mCtpInbox c)" and cb: "mCB c" and a: "a = settled c"
    using rep(1) by (simp_all add: ctp_rep_def)
  then have len: "m_nData (mCtpInbox c) = int (length s)"
    by (metis core_length inbox_holds_def)
  note st = inbox_step_handle_all [of junk app ?ms]
  have loop: "parse_loop junk app buf (int off) (int (length s)) c =
      do { c \<leftarrow> handle_all junk app ?ms c; Some (int (length ?r), c) }"
    by (rule parse_loop_eq [OF place(3) fine])
  have run: "map_option settled (handle_all junk app ?ms c) = map_option settled (handle_all junk app ?ms a)"
    using inbox_stepD(1) [OF st, of c] by (simp add: a)
  show ?thesis
  proof (cases "handle_all junk app ?ms a")
    case None
    then show ?thesis
      using run rep(2) loop by (simp add: ParseInbox_def place len)
  next
    case (Some a')
    then obtain c1 where c1: "handle_all junk app ?ms c = Some c1" "settled c1 = settled a'"
      using run by auto
    have flags: "mReset c1 = mReset a'"
      using c1(2) by (metis settled_simps(3))
    have k: "mCB c1" "mReset c1 = mReset c \<and> mCtpInbox c1 = mCtpInbox c \<or>
        mReset c1 \<and> mCtpInbox c1 = CoreBuffer_clear (mCtpInbox c)"
      using inbox_stepD(2,3) [OF st c1(1)] cb by simp_all
    have le: "length ?r \<le> length s"
      by (rule split_messages_rest_le)
    then have eat: "c_int (int (length s) - int (length ?r)) = Some (int (length s - length ?r))"
      using fine(2) by (simp add: c_int_def of_nat_diff)
    show ?thesis
    proof (cases "mReset a'")
      case True
      let ?c = "c1\<lparr>mCtpInbox := CoreBuffer_clear (mCtpInbox c1)\<rparr>"
      have "inbox_holds cap [] (CoreBuffer_clear (mCtpInbox c1))"
        using k(2) inbox_holds_clear [OF in0] by auto
      then have "ctp_rep cap (left_over a' s) (settled a') ?c"
        using True k(1) c1(2) by (simp add: ctp_rep_def left_over_def)
      moreover have "ParseInbox junk app c = Some (0, ?c)"
        using rep(2) loop c1(1) eat True flags by (simp add: ParseInbox_def place len)
      ultimately show ?thesis
        using Some by auto
    next
      case False
      then have same: "mCtpInbox c1 = mCtpInbox c" "\<not> mReset c1"
        using k(2) flags by auto
      obtain b' where b': "CoreBuffer_Eat (int (length s - length ?r)) (mCtpInbox c) = Some (0, b')"
          "inbox_holds cap (drop (length s - length ?r) s) b'"
        by (rule inbox_holds_eat [OF in0, of "length s - length ?r"]) simp
      define c2 where "c2 = (if length ?r < length s then c1\<lparr>mCtpInbox := b'\<rparr> else c1)"
      have "ParseInbox junk app c = Some (0, c2)"
        using rep(2) loop c1(1) eat same b'(1) le by (auto simp: ParseInbox_def place len c2_def)
      moreover have "inbox_holds cap ?r (mCtpInbox c2)"
        using b'(2) split_messages_drop [of s] in0 same le by (auto simp: c2_def)
      then have "ctp_rep cap (left_over a' s) (settled a') c2"
        using False k(1) c1(2) by (simp add: ctp_rep_def left_over_def c2_def)
      ultimately show ?thesis
        using Some by auto
    qed
  qed
qed

lemma inbox_holds_write:
  assumes "inbox_holds cap p b" "length p + length d < cap" "d \<noteq> []"
  obtains b1 b2 buf off where "CoreBuffer_Write junk (Some d) (int (length d)) b = Some (int (length d), b1)"
    "MakeSureEndWithNull junk b1 = Some (0, b2)" "inbox_holds cap (p @ d) b2"
    "m_pBuf b2 = Some buf" "m_nDataOff b2 = int off" "text_at buf off (p @ d)"
proof -
  have ok: "core_ok b" "core_cap b = cap" "core_data b = p"
    using assms(1) by (auto simp: inbox_holds_def)
  have cap: "cap < 2 ^ 31 - 8192"
    using core_cap_bound [OF ok(1)] ok(2) by simp
  obtain b1 where b1: "CoreBuffer_Write junk (Some d) (int (length d)) b =
      Some (int (min (length d) (core_cap b - length (core_data b))), b1)" "core_ok b1"
    "core_data b1 = core_data b @ take (min (length d) (core_cap b - length (core_data b))) d"
    "core_cap b1 = core_cap b" "m_pBuf b1 \<noteq> None"
    by (rule CoreBuffer_Write_spec [OF ok(1), of "length d" d junk]) (use assms cap ok in auto)
  have all: "min (length d) (core_cap b - length (core_data b)) = length d"
    using assms(2) ok by simp
  have d1: "core_data b1 = p @ d" "core_cap b1 = cap"
    using b1(3) [unfolded all] b1(4) ok by simp_all
  obtain b2 where b2: "MakeSureEndWithNull junk b1 = Some (0, b2)" "core_ok b2" "m_pBuf b2 \<noteq> None"
    "core_data b2 = core_data b1" "core_cap b2 = core_cap b1"
    "core_data b1 \<noteq> [] \<Longrightarrow> \<exists>buf off. m_pBuf b2 = Some buf \<and> m_nDataOff b2 = int off \<and>
       (\<forall>k < length (core_data b1). c_str buf (off + k) = Some (takeWhile (\<lambda>c. c \<noteq> NUL) (drop k (core_data b1))))"
    by (rule MakeSureEndWithNull_spec [OF b1(2,5), of junk]) (use assms(2) d1 in auto)
  obtain buf off where bo: "m_pBuf b2 = Some buf" "m_nDataOff b2 = int off"
    "\<forall>k < length (p @ d). c_str buf (off + k) = Some (c_string (drop k (p @ d)))"
    using b2(6) assms(3) by (auto simp: d1(1) c_string_def)
  obtain l where l: "off + l \<le> length buf" "core_data b2 = take l (drop off buf)" "length (core_data b2) = l"
    by (rule core_some [OF b2(2,3)]) (use bo(1,2) in auto)
  have "text_at buf off (p @ d)"
    unfolding text_at_def using l b2(4) d1(1) bo(3) by auto
  then show thesis
    using b1(1) b2 bo d1 by (intro that [of b1 b2 buf off]) (simp_all add: all inbox_holds_def)
qed

lemma input_loop_Nil: "input_loop junk app [] e c = Some (e, c)"
  by (subst input_loop.simps) simp

lemma ctp_Input_spec:
  assumes rep: "ctp_rep cap p a c" and d: "d \<noteq> []" "length p + length d < cap" "lengths_fine (p @ d)"
  shows "case handle_all junk app (fst (split_messages (p @ d))) (a\<lparr>mReset := False\<rparr>) of
      None \<Rightarrow> ctp_Input junk app d c = None
    | Some a' \<Rightarrow> \<exists>c'. ctp_Input junk app d c = Some (int (length d), c') \<and>
        ctp_rep cap (left_over a' (p @ d)) (settled a') c'"
proof -
  have in0: "inbox_holds cap p (mCtpInbox c)" and cb: "mCB c" and a: "settled c = a"
    using rep by (simp_all add: ctp_rep_def)
  obtain b1 b2 buf off where w: "CoreBuffer_Write junk (Some d) (int (length d)) (mCtpInbox c) = Some (int (length d), b1)"
    "MakeSureEndWithNull junk b1 = Some (0, b2)" "inbox_holds cap (p @ d) b2"
    "m_pBuf b2 = Some buf" "m_nDataOff b2 = int off" "text_at buf off (p @ d)"
    by (rule inbox_holds_write [OF in0 d(2,1)])
  let ?c = "c\<lparr>mReset := False, mCtpInbox := b2\<rparr>" and ?a = "a\<lparr>mReset := False\<rparr>"
  have cap: "cap < 2 ^ 31 - 8192"
    using core_cap_bound [of "mCtpInbox c"] in0 by (auto simp: inbox_holds_def)
  have "settled ?c = ?a"
    by (simp add: settled_updates a)
  then have rep2: "ctp_rep cap (p @ d) ?a ?c"
    using w(3) cb by (simp add: ctp_rep_def)
  have P: "case handle_all junk app (fst (split_messages (p @ d))) ?a of
      None \<Rightarrow> ParseInbox junk app ?c = None
    | Some a' \<Rightarrow> \<exists>c'. ParseInbox junk app ?c = Some (0, c') \<and> ctp_rep cap (left_over a' (p @ d)) (settled a') c'"
    by (rule ParseInbox_spec [OF rep2 _ d(3), of buf off]) (use w d cap in auto)
  have room: "min (int (length d)) (GetMaxWritableBytes True (mCtpInbox c)) = int (length d)"
    "\<not> GetMaxWritableBytes True (mCtpInbox c) \<le> 0"
  proof -
    obtain n where "m_nData (mCtpInbox c) = int n" "m_cbMaxBuf (mCtpInbox c) = int cap" "n = length p"
      using in0 by (auto simp: inbox_holds_def elim: core_some)
    then show "min (int (length d)) (GetMaxWritableBytes True (mCtpInbox c)) = int (length d)"
      "\<not> GetMaxWritableBytes True (mCtpInbox c) \<le> 0"
      using d(1,2) by (cases d; auto simp: GetMaxWritableBytes_def)+
  qed
  have go: "ctp_Input junk app d c =
      do { (r, c) \<leftarrow> ParseInbox junk app ?c; (if r \<noteq> 0 then Some (-1, c) else Some (int (length d), c)) }"
    unfolding ctp_Input_def using cb d(1) room w(1,2)
    by (subst input_loop.simps) (cases "ParseInbox junk app ?c", simp_all add: Let_def input_loop_Nil split_def)
  show ?thesis
    using P by (auto simp: go split: option.splits)
qed

text \<open>A settled object stays settled.\<close>

lemma handle_all_settled:
  assumes "settled a = a" "handle_all junk app ms a = Some a'"
  shows "settled a' = a'"
proof -
  have "mCtpInbox a = new_buffer"
    using assms(1) unfolding settled_def by (metis ctp.select_convs(6) ctp.simps(14) ctp.surjective ctp.update_convs(6))
  then have "mCtpInbox a' = new_buffer"
    using inbox_stepD(3) [OF inbox_step_handle_all assms(2)] by (auto simp: CoreBuffer_clear_def new_buffer_def)
  then show ?thesis
    by (simp add: settled_def)
qed

section \<open>Any way to cut the stream\<close>

text \<open>What the first \<open>k\<close> bytes of a text say about its first message does not change when more follows.\<close>

lemma c_string_append: "c_string (s @ x) = (if NUL \<in> set s then c_string s else s @ c_string x)"
  by (induction s) (auto simp: c_string_def)

lemma c_string_more: "\<exists>y. c_string (s @ x) = c_string s @ y"
  by (auto simp: c_string_append)

lemma strstr_c_string_append: "strstr (c_string s) pat = Some t \<Longrightarrow> strstr (c_string (s @ x)) pat = Some t"
  using c_string_more [of s x] strstr_append by metis

lemma lower_simps [simp]:
  "map to_lower CRLF = CRLF" "map to_lower HEADER_TAIL = HEADER_TAIL" "map to_lower length_key = length_key"
  "length length_key = 9"
  by (simp_all add: CRLF_def HEADER_TAIL_def length_key_def CTP_CMD_BODY_LENGTH_def to_lower_def less_eq_char_def)

text \<open>The key of the length cannot reach into the empty line.\<close>

lemma key_before_tail:
  assumes k: "prefix length_key (drop k (map to_lower u))" and t: "prefix HEADER_TAIL (drop t u)" and lt: "k < t"
  shows "k + 9 \<le> t"
proof (rule ccontr)
  assume "\<not> k + 9 \<le> t"
  then have j: "t - k < 9" "0 < t - k"
    using lt by auto
  have "map to_lower u ! t = to_lower CR"
    using t by (auto simp: HEADER_TAIL_def CRLF_def prefix_def) (metis drop_eq_Nil hd_drop_conv_nth linorder_not_less list.distinct(1) list.sel(1) nth_map)
  moreover have "map to_lower u ! (k + (t - k)) = length_key ! (t - k)"
  proof -
    obtain zs where zs: "drop k (map to_lower u) = length_key @ zs"
      using k by (auto simp: prefix_def)
    then have "k \<le> length (map to_lower u)"
      by (metis append_is_Nil_conv drop_all length_0_conv lower_simps(4) nat_le_linear zero_neq_numeral)
    then have "map to_lower u ! (k + (t - k)) = drop k (map to_lower u) ! (t - k)"
      by (simp only: nth_drop)
    then show ?thesis
      using j(1) by (simp add: zs nth_append)
  qed
  moreover have "length_key ! (t - k) \<in> set (tl length_key)"
  proof -
    obtain i where i: "t - k = Suc i" "i < 8"
      using j by (cases "t - k") auto
    then show ?thesis
      using nth_tl [of i length_key] nth_mem [of i "tl length_key"] by simp
  qed
  moreover have "CR \<notin> set (tl length_key)"
    by (simp add: length_key_def CRLF_def CTP_CMD_BODY_LENGTH_def)
  ultimately show False
    using lt by (auto simp: to_lower_def)
qed

lemma digits_val_append: "\<exists>c \<in> set v. \<not> is_digit c \<Longrightarrow> digits_val a (v @ y) = digits_val a v"
  by (induction v arbitrary: a) auto

lemma dropWhile_number:
  assumes "\<exists>c \<in> set (takeWhile (\<lambda>c. c \<noteq> CR) v). \<not> is_space c" "CR \<in> set v"
  obtains c r where "dropWhile is_space v = c # r" "dropWhile is_space (v @ y) = c # r @ y"
    "\<not> is_space c" "c \<noteq> CR" "CR \<in> set r"
proof -
  obtain a b where v: "v = a @ CR # b" "CR \<notin> set a"
    using split_list_first [OF assms(2)] by blast
  have "takeWhile (\<lambda>c. c \<noteq> CR) (a @ CR # b) = a"
    using v(2) by (induction a) auto
  then have "\<exists>c \<in> set a. \<not> is_space c"
    using assms(1) by (simp add: v(1))
  then obtain a1 c a2 where a: "a = a1 @ c # a2" "\<not> is_space c" "\<forall>x \<in> set a1. is_space x"
    using split_list_first_prop [of a "\<lambda>c. \<not> is_space c"] by auto
  then have "dropWhile is_space (a1 @ z) = dropWhile is_space z" for z
    by (simp add: dropWhile_append2)
  then show thesis
    using a v by (intro that [of c "a2 @ CR # b"]) (auto simp: v a)
qed

lemma CR_not_digit: "\<not> is_digit CR"
  by (simp add: is_digit_def less_eq_char_def)

lemma atoi_append:
  assumes "\<exists>c \<in> set (takeWhile (\<lambda>c. c \<noteq> CR) v). \<not> is_space c" "CR \<in> set v"
  shows "atoi (v @ y) = atoi v"
proof -
  obtain c r where d: "dropWhile is_space v = c # r" "dropWhile is_space (v @ y) = c # r @ y" "CR \<in> set r"
    by (rule dropWhile_number [OF assms, of y])
  have "digits_val a (r @ y) = digits_val a r" for a
    using d(3) CR_not_digit by (intro digits_val_append) auto
  then show ?thesis
    by (simp add: atoi_def d)
qed

lemma content_length_append:
  assumes t: "strstr u HEADER_TAIL = Some t" and n: "number_ok (u @ y) t"
  shows "content_length (u @ y) t = content_length u t" "number_ok u t"
proof -
  have tail: "prefix HEADER_TAIL (drop t u)" "t + 4 \<le> length u"
    using strstr_Some_prefix [OF t] strstr_Some_le [OF t] by simp_all
  show "content_length (u @ y) t = content_length u t" "number_ok u t"
  proof -
    have "content_length (u @ y) t = content_length u t \<and> number_ok u t"
    proof (cases "stristr u length_key")
      case None
      have "\<not> k < t" if k: "stristr (u @ y) length_key = Some k" for k
      proof
        assume lt: "k < t"
        have "prefix length_key (drop k (map to_lower (u @ y)))"
          using strstr_Some_prefix [of "map to_lower (u @ y)" length_key k] k by (simp add: stristr_def)
        moreover have "prefix HEADER_TAIL (drop t (u @ y))"
          using tail by (simp add: prefix_prefix)
        ultimately have "k + 9 \<le> t"
          using lt key_before_tail by blast
        then have "prefix length_key (drop k (map to_lower u))"
          using \<open>prefix length_key (drop k (map to_lower (u @ y)))\<close> tail(2)
          by (auto intro: prefix_length_prefix)
        then show False
          using None strstr_None unfolding stristr_def by fastforce
      qed
      then show ?thesis
        using None by (auto simp: content_length_def number_ok_def split: option.split)
    next
      case (Some k)
      then have k: "stristr (u @ y) length_key = Some k"
        using strstr_append [of "map to_lower u" length_key k "map to_lower y"] by (simp add: stristr_def)
      show ?thesis
      proof (cases "k < t")
        case True
        have "k + 9 \<le> t"
          using key_before_tail [OF _ tail(1) True] strstr_Some_prefix [of "map to_lower u" length_key k] Some
          by (simp add: stristr_def)
        then have "drop (t - (k + 9)) (drop (k + 9) u) = drop t u"
          by simp
        let ?v = "drop (k + 9) u"
        have v: "drop (k + 9) (u @ y) = ?v @ y"
          using \<open>k + 9 \<le> t\<close> tail(2) by simp
        have pre: "prefix CRLF (drop (t - (k + 9)) ?v)"
          using tail(1) \<open>k + 9 \<le> t\<close> by (auto simp: HEADER_TAIL_def prefix_def)
        then have "CR \<in> set ?v"
          using set_mono_prefix [OF pre] in_set_dropD [of CR "t - (k + 9)" ?v] by (auto simp: CRLF_def)
        have line: "stristr ?v CRLF \<noteq> None"
          using strstr_None [of "map to_lower ?v" CRLF "t - (k + 9)"] map_mono_prefix [OF pre, of to_lower]
          by (auto simp: stristr_def drop_map)
        then obtain j where "stristr ?v CRLF = Some j" "stristr (?v @ y) CRLF = Some j"
          using strstr_append [of "map to_lower ?v" CRLF _ "map to_lower y"] by (auto simp: stristr_def)
        moreover have "\<exists>c \<in> set (takeWhile (\<lambda>c. c \<noteq> CR) ?v). \<not> is_space c"
          using n k True \<open>CR \<in> set ?v\<close> by (auto simp: number_ok_def v takeWhile_append1)
        ultimately show ?thesis
          using True k Some v atoi_append [of ?v y] \<open>CR \<in> set ?v\<close> by (simp add: content_length_def number_ok_def)
      qed (use k Some in \<open>simp add: content_length_def number_ok_def\<close>)
    qed
    then show "content_length (u @ y) t = content_length u t" "number_ok u t"
      by blast+
  qed
qed

lemma lengths_fine_head:
  assumes "lengths_fine s" "strstr (c_string s) HEADER_TAIL = Some t"
  obtains n where "content_length (c_string s) t = Some n" "0 \<le> n" "int t + 4 + n < 2 ^ 31"
    "number_ok (c_string s) t"
  using assms by (auto simp: lengths_fine.simps [of s] split: option.splits)

lemma message_at_append:
  assumes m: "message_at s = Some (h, b, r)" and fine: "lengths_fine (s @ x)"
  shows "message_at (s @ x) = Some (h, b, r @ x)"
proof -
  obtain t n where t: "strstr (c_string s) HEADER_TAIL = Some t" "content_length (c_string s) t = Some n" "0 \<le> n"
      "t + 4 + nat n \<le> length s" "h = take t s" "b = take (nat n) (drop (t + 4) s)" "r = drop (t + 4 + nat n) s"
    using m by (auto simp: message_at_def split: option.splits if_splits)
  obtain y where y: "c_string (s @ x) = c_string s @ y"
    using c_string_more by blast
  have t': "strstr (c_string (s @ x)) HEADER_TAIL = Some t"
    using t(1) by (rule strstr_c_string_append)
  then have "number_ok (c_string s @ y) t"
    using lengths_fine_head [OF fine] y by metis
  then have "content_length (c_string (s @ x)) t = Some n"
    using content_length_append(1) [OF t(1)] t(2) y by simp
  then show ?thesis
    using t' t by (simp add: message_at_def)
qed

lemma lengths_fine_append: "lengths_fine (s @ x) \<Longrightarrow> lengths_fine s"
proof (induction s rule: messages_induct)
  case (step s)
  show ?case
  proof (cases "strstr (c_string s) HEADER_TAIL")
    case (Some t)
    obtain y where y: "c_string (s @ x) = c_string s @ y"
      using c_string_more by blast
    obtain n where n: "content_length (c_string (s @ x)) t = Some n" "0 \<le> n" "int t + 4 + n < 2 ^ 31"
        "number_ok (c_string (s @ x)) t"
      by (rule lengths_fine_head [OF step.prems strstr_c_string_append [OF Some]])
    have "lengths_fine r" if "message_at s = Some (h, b, r)" for h b r
      using step.IH [OF that] lengths_fine_next [OF step.prems message_at_append [OF that step.prems]] by simp
    moreover have "content_length (c_string s) t = Some n" "number_ok (c_string s) t"
      using n content_length_append [OF Some, of y] y by simp_all
    ultimately show ?thesis
      using Some n(2,3) by (auto simp: lengths_fine.simps [of s] split: option.split)
  qed (simp add: lengths_fine.simps [of s])
qed

lemma split_messages_append:
  assumes "lengths_fine (s @ x)"
  shows "lengths_fine (snd (split_messages s) @ x) \<and> split_messages (s @ x) =
    (fst (split_messages s) @ fst (split_messages (snd (split_messages s) @ x)),
     snd (split_messages (snd (split_messages s) @ x)))"
  using assms
proof (induction s rule: messages_induct)
  case (step s)
  show ?case
  proof (cases "message_at s")
    case None
    then show ?thesis
      using step.prems by (simp add: split_messages_simps)
  next
    case (Some m)
    obtain h b r where m: "message_at s = Some (h, b, r)"
      using Some by (cases m) auto
    note mx = message_at_append [OF m step.prems]
    show ?thesis
      using step.IH [OF m lengths_fine_next [OF step.prems mx]] by (simp add: split_messages_simps m mx)
  qed
qed

text \<open>An application that does not reset the object.\<close>

definition never_resets :: "ctp_app \<Rightarrow> bool" where
  "never_resets app \<longleftrightarrow> (\<forall>tr. AskReset \<notin> set (reply_requests (app tr)))"

lemma send_outbox_reset: "send_outbox junk out c = Some c' \<Longrightarrow> mReset c' = mReset c"
  by (auto simp: send_outbox_def bind_eq_Some_conv)

lemma AddCommandEx_reset: "AddCommandEx junk cmd items body needAck c = Some (r, c') \<Longrightarrow> mReset c' = mReset c"
  by (cases "mReset c"; cases needAck)
    (auto simp: AddCommandEx_def bind_eq_Some_conv Let_def split: if_split_asm dest!: send_outbox_reset)

lemma run_requests_reset:
  "AskReset \<notin> set rs \<Longrightarrow> run_requests junk rs c = Some c' \<Longrightarrow> mReset c' = mReset c"
proof (induction rs arbitrary: c)
  case (Cons r rs)
  then show ?case
    by (cases r) (auto simp: bind_eq_Some_conv dest!: AddCommandEx_reset)
qed simp

lemma call_app_reset:
  "never_resets app \<Longrightarrow> call_app junk app e c = Some (r, c') \<Longrightarrow> mReset c' = mReset c"
  by (auto simp: call_app_def bind_eq_Some_conv Let_def never_resets_def dest!: run_requests_reset)

lemma handle_message_reset:
  assumes app: "never_resets app" and h: "handle_message junk app h b c = Some c'"
  shows "mReset c' = mReset c"
proof -
  note call = call_app_reset [OF app]
  have "mReset c2 = mReset c1" if "ctp_OnCommand junk app cmd items c1 = Some c2" for cmd items c1 c2
    using that by (auto simp: ctp_OnCommand_def bind_eq_Some_conv split: if_split_asm dest!: call send_outbox_reset)
  moreover have "mReset c2 = mReset c1" if "ctp_OnCommandAck junk app cmd items c1 = Some c2" for cmd items c1 c2
    using that by (auto simp: ctp_OnCommandAck_def bind_eq_Some_conv split: option.splits dest!: call)
  ultimately show ?thesis
    using h by (auto simp: handle_message_def bind_eq_Some_conv Let_def split: option.splits if_split_asm dest!: call)
qed

end
