(* ===== verification/CtpFrame.thy ===== *)
theory CtpFrame
  imports CtpStream
begin

text \<open>
  The text of a message of the common text protocol, and how the receiver takes it apart.
\<close>

section \<open>Lines\<close>

text \<open>The lines of a header: no line ends, no NUL, none empty.\<close>

definition line_ok :: "string \<Rightarrow> bool" where
  "line_ok l \<longleftrightarrow> l \<noteq> [] \<and> CR \<notin> set l \<and> NUL \<notin> set l"

definition line_text :: "string list \<Rightarrow> string" where
  "line_text ls = concat (map (\<lambda>l. l @ CRLF) ls)"

lemma line_text_simps [simp]:
  "line_text [] = []" "line_text (l # ls) = l @ CRLF @ line_text ls"
  "line_text (ls @ ls') = line_text ls @ line_text ls'"
  by (simp_all add: line_text_def)

lemma line_text_no_nul: "\<forall>l \<in> set ls. line_ok l \<Longrightarrow> NUL \<notin> set (line_text ls)"
  by (induction ls) (auto simp: line_ok_def)

text \<open>The place of the empty line: the header without the last line end.\<close>

lemma tail_after_line:
  assumes "CR \<notin> set l"
  shows "strstr (l @ CRLF @ r) HEADER_TAIL =
    (if prefix CRLF r then Some (length l) else map_option (\<lambda>k. length l + 2 + k) (strstr r HEADER_TAIL))"
  using assms
proof (induction l)
  case Nil
  then show ?case
    by (cases "strstr r HEADER_TAIL") (auto simp: HEADER_TAIL_def CRLF_def)
next
  case (Cons c l)
  then have "strstr ((c # l) @ CRLF @ r) HEADER_TAIL = map_option Suc (strstr (l @ CRLF @ r) HEADER_TAIL)"
    by (simp add: HEADER_TAIL_def CRLF_def)
  then show ?case
    using Cons by (cases "strstr r HEADER_TAIL") auto
qed

lemma header_tail_place:
  assumes "\<forall>l \<in> set ls. line_ok l" "ls \<noteq> []"
  shows "strstr (line_text ls @ CRLF @ z) HEADER_TAIL = Some (length (line_text ls) - 2)"
  using assms
proof (induction ls)
  case (Cons l ls)
  have l: "CR \<notin> set l"
    using Cons.prems by (simp add: line_ok_def)
  show ?case
  proof (cases ls)
    case Nil
    then show ?thesis
      using tail_after_line [OF l, of "CRLF @ z"] by simp
  next
    case (Cons m ms)
    then have "\<not> prefix CRLF (line_text ls @ CRLF @ z)"
      using Cons.prems by (cases m) (auto simp: line_ok_def CRLF_def)
    moreover have "2 \<le> length (line_text ls)"
      by (simp add: Cons)
    ultimately show ?thesis
      using tail_after_line [OF l, of "line_text ls @ CRLF @ z"] Cons.IH Cons.prems Cons by simp
  qed
qed simp

section \<open>The length of the body\<close>

definition is_length_line :: "string \<Rightarrow> bool" where
  "is_length_line l \<longleftrightarrow> prefix ''_bytes='' (map to_lower l)"

lemma length_key_alt: "length_key = CRLF @ ''_bytes=''"
  by (simp add: length_key_def CTP_CMD_BODY_LENGTH_def)

lemma lower_char [simp]: "to_lower CR = CR" "to_lower LF = LF"
  by (simp_all add: to_lower_def)

lemma to_lower_fixed:
  assumes "to_lower c = x" "(of_char x :: nat) < 97"
  shows "c = x"
proof -
  have "(of_char (to_lower c) :: nat) = of_char x"
    using assms(1) by simp
  then have "(of_char c :: nat) = of_char x"
    using assms(2) by (auto simp: to_lower_def less_eq_char_def split: if_splits)
  then show "c = x"
    by (simp only: of_char_eq_iff)
qed

lemma to_lower_CR: "to_lower c = CR \<longleftrightarrow> c = CR"
  using to_lower_fixed [of c CR] by auto

lemma stristr_key: "stristr s length_key = strstr (map to_lower s) (CRLF @ ''_bytes='')"
  by (simp add: stristr_def length_key_alt [symmetric])

lemma key_after_line:
  assumes "CR \<notin> set l"
  shows "stristr (l @ CRLF @ r) length_key =
    (if prefix ''_bytes='' (map to_lower r) then Some (length l)
     else map_option (\<lambda>k. length l + 2 + k) (stristr r length_key))"
  using assms
proof (induction l)
  case Nil
  then show ?case
    by (cases "strstr (map to_lower r) (CRLF @ ''_bytes='')") (auto simp: stristr_key CRLF_def)
next
  case (Cons c l)
  have "\<not> prefix length_key (to_lower c # map to_lower (l @ CRLF @ r))"
    using Cons.prems to_lower_CR [of c] by (auto simp: length_key_alt CRLF_def)
  then have "stristr ((c # l) @ CRLF @ r) length_key = map_option Suc (stristr (l @ CRLF @ r) length_key)"
    by (simp add: stristr_def)
  then show ?case
    using Cons by (cases "stristr r length_key") auto
qed

lemma length_line_prefix:
  assumes "CR \<notin> set l"
  shows "prefix ''_bytes='' (map to_lower (l @ CRLF @ r)) \<longleftrightarrow> is_length_line l"
proof -
  have *: "prefix p (u @ CR # v) \<longleftrightarrow> prefix p u" if "CR \<notin> set p" for p u v :: string
  proof (insert that, induction p arbitrary: u)
    case (Cons c p)
    then show ?case by (cases u) auto
  qed simp
  show ?thesis
    using * [of "''_bytes=''" "map to_lower l"] by (auto simp: is_length_line_def CRLF_def to_lower_CR)
qed

text \<open>Without a line for it behind the first, the length is not found in the header.\<close>

lemma no_length_found:
  assumes "\<forall>l \<in> set ls. line_ok l" "\<forall>l \<in> set (tl ls). \<not> is_length_line l" "ls \<noteq> []"
    "stristr (line_text ls @ CRLF @ z) length_key = Some k"
  shows "length (line_text ls) - 2 \<le> k"
  using assms
proof (induction ls arbitrary: k)
  case (Cons l ls)
  have l: "CR \<notin> set l"
    using Cons.prems by (simp add: line_ok_def)
  show ?case
  proof (cases ls)
    case Nil
    then show ?thesis
      using Cons.prems(4) key_after_line [OF l, of "CRLF @ z"] by (auto split: if_splits)
  next
    case (Cons m ms)
    have "CR \<notin> set m" "\<not> is_length_line m"
      using Cons.prems Cons by (auto simp: line_ok_def)
    then have "\<not> prefix ''_bytes='' (map to_lower (line_text ls @ CRLF @ z))"
      using length_line_prefix [of m] by (simp add: Cons del: map_append)
    then obtain j where "k = length l + 2 + j" "stristr (line_text ls @ CRLF @ z) length_key = Some j"
      using Cons.prems(4) key_after_line [OF l, of "line_text ls @ CRLF @ z"] by auto
    then show ?thesis
      using Cons.IH [of j] Cons.prems Cons by (auto simp: list.set_sel)
  qed
qed simp

section \<open>Numbers\<close>

lemma digit_char:
  fixes d :: nat
  assumes "d < 10"
  shows "is_digit (char_of (48 + d))" "digit_val (char_of (48 + d)) = int d" "\<not> is_space (char_of (48 + d))"
    "char_of (48 + d) \<notin> {CR, NUL, CHR ''-'', CHR ''+'', CHR ''='', CHR ''.''}"
proof -
  have "d \<in> set [0..<10]"
    using assms by simp
  moreover have "\<forall>d \<in> set [0..<10]. is_digit (char_of (48 + d)) \<and> digit_val (char_of (48 + d)) = int d \<and>
      \<not> is_space (char_of (48 + d)) \<and> char_of (48 + d) \<notin> {CR, NUL, CHR ''-'', CHR ''+'', CHR ''='', CHR ''.''}"
    by code_simp
  ultimately show "is_digit (char_of (48 + d))" "digit_val (char_of (48 + d)) = int d" "\<not> is_space (char_of (48 + d))"
    "char_of (48 + d) \<notin> {CR, NUL, CHR ''-'', CHR ''+'', CHR ''='', CHR ''.''}"
    by blast+
qed

lemma dec_chars: "c \<in> set (dec n) \<Longrightarrow> \<exists>d < 10. c = char_of (48 + d :: nat)"
proof (induction n rule: dec.induct)
  case (1 n)
  show ?case
  proof (cases "n < 10")
    case True
    then show ?thesis
      using 1(2) by (auto simp: dec.simps [of n])
  next
    case False
    then have "c \<in> set (dec (n div 10)) \<or> c = char_of (48 + n mod 10)"
      using 1(2) by (auto simp: dec.simps [of n])
    moreover have "n mod 10 < 10"
      by simp
    ultimately show ?thesis
      using 1(1) [OF False] by blast
  qed
qed

lemma dec_first: obtains d :: nat and r where "dec n = char_of (48 + d) # r" "d < 10"
proof -
  have "dec n \<noteq> []"
    by (simp add: dec.simps [of n])
  then obtain c r where "dec n = c # r"
    by (cases "dec n") auto
  then show thesis
    using dec_chars [of c n] that by auto
qed

lemma digits_val_dec: "digits_val 0 (dec n @ z) = digits_val (int n) z"
proof (induction n arbitrary: z rule: dec.induct)
  case (1 n)
  show ?case
  proof (cases "n < 10")
    case True
    then show ?thesis
      using digit_char [of n] by (simp add: dec.simps [of n])
  next
    case False
    have "digits_val 0 (dec (n div 10) @ char_of (48 + n mod 10) # z) =
        digits_val (int (n div 10)) (char_of (48 + n mod 10) # z)"
      using "1.IH" [OF False] .
    also have "\<dots> = digits_val (int n) z"
      using digit_char [of "n mod 10"] by (simp add: of_nat_div of_nat_mod)
    finally show ?thesis
      using False by (simp add: dec.simps [of n])
  qed
qed

lemma atoi_dec: "n < 2 ^ 31 \<Longrightarrow> atoi (dec n @ CR # z) = Some (int n)"
proof -
  assume n: "n < 2 ^ 31"
  obtain d :: nat and r where d: "dec n = char_of (48 + d) # r" "d < 10"
    by (rule dec_first)
  have "digits_val 0 (dec n @ CR # z) = int n"
    using digits_val_dec [of n "CR # z"] CR_not_digit by simp
  then show ?thesis
    using n digit_char [OF d(2)] by (simp add: atoi_def d(1))
qed

section \<open>Frames\<close>

text \<open>
  What is sent: fields, the length of the body when there is one, more fields, an empty line,
  the body. Commands and acknowledgements differ in the fields.
\<close>

record ctp_frame =
  first_fields :: field_map
  frame_body :: "char list"
  more_fields :: field_map

definition frame_ok :: "ctp_frame \<Rightarrow> bool" where
  "frame_ok m \<longleftrightarrow> first_fields m \<noteq> [] \<and> length (frame_body m) < 2 ^ 30 \<and>
     (\<forall>kv \<in> set (first_fields m) \<union> set (more_fields m).
        field_ok kv \<and> map to_lower (fst kv) \<noteq> CTP_CMD_BODY_LENGTH)"

definition sent_fields :: "ctp_frame \<Rightarrow> field_map" where
  "sent_fields m = first_fields m @
     (if frame_body m \<noteq> [] then [(CTP_CMD_BODY_LENGTH, dec (length (frame_body m)))] else []) @ more_fields m"

definition frame_header :: "ctp_frame \<Rightarrow> string" where
  "frame_header m = line_text (map field_text (sent_fields m))"

definition frame_text :: "ctp_frame \<Rightarrow> char list" where
  "frame_text m = frame_header m @ CRLF @ frame_body m"

lemma dec_clean: "NUL \<notin> set (dec n)" "CR \<notin> set (dec n)"
proof -
  have "c \<notin> {CR, NUL}" if c: "c \<in> set (dec n)" for c
  proof -
    obtain d :: nat where "d < 10" "c = char_of (48 + d)"
      using dec_chars [OF c] by blast
    then show ?thesis
      using digit_char(4) [of d] by auto
  qed
  then show "NUL \<notin> set (dec n)" "CR \<notin> set (dec n)"
    by auto
qed

lemma field_okI:
  "NUL \<notin> set n \<Longrightarrow> CR \<notin> set n \<Longrightarrow> CHR ''='' \<notin> set n \<Longrightarrow> NUL \<notin> set v \<Longrightarrow> CR \<notin> set v \<Longrightarrow> field_ok (n, v)"
  by (simp add: field_ok_def)

lemma sent_fields_ok:
  assumes m: "frame_ok m" and kv: "kv \<in> set (sent_fields m)"
  shows "field_ok kv"
proof -
  have "field_ok (CTP_CMD_BODY_LENGTH, dec (length (frame_body m)))"
    by (rule field_okI) (simp_all add: CTP_CMD_BODY_LENGTH_def dec_clean)
  then show ?thesis
    using m kv by (auto simp: sent_fields_def frame_ok_def split: if_splits)
qed

lemma field_text_line_ok: "field_ok kv \<Longrightarrow> line_ok (field_text kv)"
  by (auto simp: field_ok_def line_ok_def field_text_def)

lemma sent_lines_ok: "frame_ok m \<Longrightarrow> \<forall>l \<in> set (map field_text (sent_fields m)). line_ok l"
  using sent_fields_ok field_text_line_ok by auto

lemma is_length_line_field:
  assumes "CHR ''='' \<notin> set n" "map to_lower n \<noteq> ''_bytes''"
  shows "\<not> is_length_line (field_text (n, v))"
proof
  assume "is_length_line (field_text (n, v))"
  then have p: "prefix (''_bytes'' @ ''='') (map to_lower n @ CHR ''='' # map to_lower v)"
    by (simp add: is_length_line_def field_text_def to_lower_def)
  have n: "CHR ''='' \<notin> set (map to_lower n)"
  proof
    assume "CHR ''='' \<in> set (map to_lower n)"
    then obtain x where "x \<in> set n" "to_lower x = CHR ''=''"
      by auto
    then show False
      using to_lower_fixed [of x "CHR ''=''"] assms(1) by simp
  qed
  have "takeWhile (\<lambda>c. c \<noteq> CHR ''='') (map to_lower n @ CHR ''='' # map to_lower v) = map to_lower n"
    using n by (induction n) auto
  moreover have "takeWhile (\<lambda>c. c \<noteq> CHR ''='') (map to_lower n @ CHR ''='' # map to_lower v) = ''_bytes''"
    using p by (auto simp: prefix_def)
  ultimately show False
    using assms(2) by simp
qed

text \<open>The length of the body is read from the header, whatever follows it.\<close>

definition header_place :: "ctp_frame \<Rightarrow> nat" where
  "header_place m = length (frame_header m) - 2"

lemma not_length_lines:
  assumes "frame_ok m" "kv \<in> set (first_fields m) \<union> set (more_fields m)"
  shows "\<not> is_length_line (field_text kv)"
proof -
  obtain n w where [simp]: "kv = (n, w)" by (cases kv)
  have "field_ok kv \<and> map to_lower (fst kv) \<noteq> CTP_CMD_BODY_LENGTH"
    using assms unfolding frame_ok_def by blast
  then have "CHR ''='' \<notin> set n \<and> map to_lower n \<noteq> ''_bytes''"
    by (simp add: field_ok_def CTP_CMD_BODY_LENGTH_def)
  then show ?thesis
    using is_length_line_field by simp
qed

lemma ball_tl: "\<forall>x \<in> set xs. P x \<Longrightarrow> \<forall>x \<in> set (tl xs). P x"
  by (cases xs) auto

lemma key_after_lines:
  assumes "\<forall>l \<in> set ls. line_ok l" "\<forall>l \<in> set (tl ls). \<not> is_length_line l" "ls \<noteq> []"
    "prefix ''_bytes='' (map to_lower r)"
  shows "stristr (line_text ls @ r) length_key = Some (length (line_text ls) - 2)"
  using assms
proof (induction ls)
  case (Cons l ls)
  have l: "CR \<notin> set l"
    using Cons.prems by (simp add: line_ok_def)
  show ?case
  proof (cases ls)
    case Nil
    then show ?thesis
      using Cons.prems(4) key_after_line [OF l, of r] by simp
  next
    case (Cons m ms)
    have "CR \<notin> set m" "\<not> is_length_line m"
      using Cons.prems Cons by (auto simp: line_ok_def)
    then have "\<not> prefix ''_bytes='' (map to_lower (line_text ls @ r))"
      using length_line_prefix [of m] by (simp add: Cons del: map_append)
    moreover have "stristr (line_text ls @ r) length_key = Some (length (line_text ls) - 2)"
      using Cons.IH Cons.prems Cons by (auto simp: list.set_sel)
    moreover have "2 \<le> length (line_text ls)"
      by (simp add: Cons)
    ultimately show ?thesis
      using key_after_line [OF l, of "line_text ls @ r"] by simp
  qed
qed simp

lemma field_text_bytes: "field_text (CTP_CMD_BODY_LENGTH, w) = ''_bytes='' @ w"
  by (simp add: field_text_def CTP_CMD_BODY_LENGTH_def)

lemma length_field_found:
  assumes v: "atoi v = Some (int n)" "prefix CRLF (drop k v)" "\<exists>c \<in> set (takeWhile (\<lambda>c. c \<noteq> CR) v). \<not> is_space c"
    and s: "stristr s length_key = Some j" "drop (j + 9) s = v" "j < t"
  shows "content_length s t = Some (int n) \<and> number_ok s t"
proof -
  have "prefix CRLF (drop k (map to_lower v))"
    using map_mono_prefix [OF v(2), of to_lower] by (simp add: drop_map)
  then have "stristr v CRLF \<noteq> None"
    using strstr_None by (fastforce simp: stristr_def)
  then show ?thesis
    using v(1,3) s by (auto simp: content_length_def number_ok_def Let_def)
qed

lemma content_length_frame:
  assumes m: "frame_ok m"
  shows "content_length (frame_header m @ CRLF @ z) (header_place m) = Some (int (length (frame_body m)))"
    "number_ok (frame_header m @ CRLF @ z) (header_place m)"
proof -
  let ?s = "frame_header m @ CRLF @ z"
  define f where "f = map field_text (sent_fields m)"
  have ls: "\<forall>l \<in> set f. line_ok l" "f \<noteq> []" and h: "frame_header m = line_text f"
    using sent_lines_ok [OF m] m by (simp_all add: f_def sent_fields_def frame_header_def frame_ok_def)
  have "content_length ?s (header_place m) = Some (int (length (frame_body m))) \<and> number_ok ?s (header_place m)"
  proof (cases "frame_body m = []")
    case True
    have "\<forall>l \<in> set f. \<not> is_length_line l"
      using not_length_lines [OF m] True by (auto simp: f_def sent_fields_def)
    then have "\<forall>l \<in> set (tl f). \<not> is_length_line l"
      by (rule ball_tl)
    then have "header_place m \<le> k" if "stristr ?s length_key = Some k" for k
      using no_length_found [OF ls(1) _ ls(2), of z k] that by (simp add: header_place_def h)
    then show ?thesis
      using True by (auto simp: content_length_def number_ok_def not_less split: option.split)
  next
    case False
    define l1 r where "l1 = map field_text (first_fields m)" and "r = line_text (map field_text (more_fields m))"
    define v where "v = dec (length (frame_body m)) @ CRLF @ r @ CRLF @ z"
    have s: "?s = line_text l1 @ ''_bytes='' @ v"
      using False by (simp add: h f_def sent_fields_def l1_def r_def v_def field_text_bytes)
    have l1: "\<forall>l \<in> set l1. line_ok l" "l1 \<noteq> []" "2 \<le> length (line_text l1)"
      using m ls(1) by (auto simp: f_def sent_fields_def l1_def frame_ok_def neq_Nil_conv)
    have "\<forall>l \<in> set l1. \<not> is_length_line l"
      using not_length_lines [OF m] by (auto simp: l1_def)
    then have "\<forall>l \<in> set (tl l1). \<not> is_length_line l"
      by (rule ball_tl)
    then have key: "stristr ?s length_key = Some (length (line_text l1) - 2)"
      unfolding s using key_after_lines [OF l1(1) _ l1(2), of "''_bytes='' @ v"]
      by (simp add: to_lower_def [of "CHR ''_''"] to_lower_def [of "CHR ''b''"] to_lower_def [of "CHR ''y''"]
          to_lower_def [of "CHR ''t''"] to_lower_def [of "CHR ''e''"] to_lower_def [of "CHR ''s''"] to_lower_def [of "CHR ''=''"])
    have "length (frame_header m) = length (line_text l1) + 9 + length (dec (length (frame_body m))) + length r"
      using False by (simp add: h f_def sent_fields_def l1_def r_def field_text_bytes)
    then have lt: "length (line_text l1) - 2 < header_place m"
      using l1(3) by (simp add: header_place_def)
    have "?s = (line_text l1 @ ''_bytes='') @ v" "length (line_text l1) - 2 + 9 = length (line_text l1 @ ''_bytes='')"
      using l1(3) by (simp_all add: s)
    then have drop: "drop (length (line_text l1) - 2 + 9) ?s = v"
      by (metis append_eq_conv_conj)
    have n: "length (frame_body m) < 2 ^ 31"
      using m by (simp add: frame_ok_def)
    obtain d :: nat and w where "dec (length (frame_body m)) = char_of (48 + d) # w" "d < 10"
      by (rule dec_first)
    then have num: "\<exists>c \<in> set (takeWhile (\<lambda>c. c \<noteq> CR) v). \<not> is_space c"
      using digit_char [of d] by (auto simp: v_def)
    show ?thesis
      by (rule length_field_found [OF _ _ num key drop lt, of _ "length (dec (length (frame_body m)))"])
        (use atoi_dec [OF n] in \<open>simp_all add: v_def CRLF_def\<close>)
  qed
  then show "content_length ?s (header_place m) = Some (int (length (frame_body m)))" "number_ok ?s (header_place m)"
    by blast+
qed

lemma frame_header_no_nul: "frame_ok m \<Longrightarrow> NUL \<notin> set (frame_header m)"
  unfolding frame_header_def by (rule line_text_no_nul) (rule sent_lines_ok)

lemma frame_c_string: "frame_ok m \<Longrightarrow> \<exists>z. c_string (frame_text m @ x) = frame_header m @ CRLF @ z"
  using frame_header_no_nul [of m] by (auto simp: frame_text_def c_string_append)

lemma frame_tail:
  assumes m: "frame_ok m" and z: "c_string (frame_text m @ x) = frame_header m @ CRLF @ z"
  shows "strstr (c_string (frame_text m @ x)) HEADER_TAIL = Some (header_place m)"
  using header_tail_place [OF sent_lines_ok [OF m]] unfolding z
  using m by (auto simp: header_place_def frame_header_def sent_fields_def frame_ok_def)

lemma frame_header_length:
  assumes "frame_ok m"
  shows "2 \<le> length (frame_header m)" "header_place m + 4 = length (frame_header m @ CRLF)"
  using assms by (auto simp: frame_header_def header_place_def sent_fields_def frame_ok_def neq_Nil_conv)

lemma message_at_frame:
  assumes m: "frame_ok m"
  shows "message_at (frame_text m @ x) = Some (take (header_place m) (frame_header m), frame_body m, x)"
proof -
  obtain z where z: "c_string (frame_text m @ x) = frame_header m @ CRLF @ z"
    using frame_c_string [OF m] by blast
  have "frame_text m @ x = (frame_header m @ CRLF) @ frame_body m @ x"
    by (simp add: frame_text_def)
  then have "drop (header_place m + 4) (frame_text m @ x) = frame_body m @ x"
    "drop (header_place m + 4 + length (frame_body m)) (frame_text m @ x) = x"
    "take (header_place m) (frame_text m @ x) = take (header_place m) (frame_header m)"
    "header_place m + 4 + length (frame_body m) \<le> length (frame_text m @ x)"
    unfolding frame_header_length(2) [OF m] by (simp_all add: header_place_def)
  then show ?thesis
    using frame_tail [OF m z] content_length_frame(1) [OF m, of z] z by (simp add: message_at_def)
qed

lemma lengths_fine_frames:
  "\<forall>m \<in> set ms. frame_ok m \<and> length (frame_text m) < 2 ^ 30 \<Longrightarrow> lengths_fine (concat (map frame_text ms))"
proof (induction ms)
  case Nil
  then show ?case
    by (simp add: lengths_fine.simps HEADER_TAIL_def CRLF_def c_string_def)
next
  case (Cons m ms)
  then have m: "frame_ok m"
    by simp
  let ?x = "concat (map frame_text ms)"
  obtain z where z: "c_string (frame_text m @ ?x) = frame_header m @ CRLF @ z"
    using frame_c_string [OF m] by blast
  have "int (header_place m) + 4 + int (length (frame_body m)) < 2 ^ 31"
    using Cons.prems frame_header_length(2) [OF m] by (simp add: frame_text_def)
  then show ?case
    using Cons frame_tail [OF m z] content_length_frame [OF m, of z] z message_at_frame [OF m, of ?x]
    by (simp add: lengths_fine.simps [of "frame_text m @ ?x"])
qed

definition frame_parts :: "ctp_frame \<Rightarrow> string \<times> char list" where
  "frame_parts m = (take (header_place m) (frame_header m), frame_body m)"

lemma split_frames_messages:
  "\<forall>m \<in> set ms. frame_ok m \<Longrightarrow> split_messages (concat (map frame_text ms)) = (map frame_parts ms, [])"
proof (induction ms)
  case Nil
  have "message_at [] = None"
    by (simp add: message_at_def HEADER_TAIL_def CRLF_def c_string_def)
  then show ?case
    by (simp add: split_messages_simps)
next
  case (Cons m ms)
  then show ?case
    using message_at_frame [of m "concat (map frame_text ms)"]
    by (simp add: split_messages_simps frame_parts_def)
qed

section \<open>Reading the header\<close>

lemma split_on_joined:
  assumes "\<forall>l \<in> set ls. line_ok l"
  shows "split_on CRLF (take (length (line_text ls) - 2) (line_text ls)) = ls"
  using assms
proof (induction ls)
  case Nil
  then show ?case
    by (simp add: split_on.simps CRLF_def)
next
  case (Cons l ls)
  have l: "CR \<notin> set l" "l \<noteq> []"
    using Cons.prems by (auto simp: line_ok_def)
  show ?case
  proof (cases ls)
    case Nil
    then show ?thesis
      using l strstr_no_char [OF l(1), of "[LF]"] by (subst split_on.simps) (simp add: CRLF_def)
  next
    case (Cons m ms)
    let ?r = "take (length (line_text ls) - 2) (line_text ls)"
    have "2 \<le> length (line_text ls)"
      by (simp add: Cons)
    then have t: "take (length (line_text (l # ls)) - 2) (line_text (l # ls)) = l @ CRLF @ ?r"
      by simp
    have "strstr (l @ CRLF @ ?r) CRLF = Some (length l)"
      unfolding CRLF_def using l by (auto intro: strstr_first_char)
    then show ?thesis
      using Cons.IH Cons.prems unfolding t by (subst split_on.simps) simp
  qed
qed

definition received_fields :: "ctp_frame \<Rightarrow> field_map" where
  "received_fields m = foldl (\<lambda>b kv. CoreBundle_Set (fst kv) (snd kv) b) [] (sent_fields m)"

lemma ParseHeaderItems_frame:
  assumes m: "frame_ok m"
  shows "ParseHeaderItems (take (header_place m) (frame_header m)) [] = Some (received_fields m)"
proof -
  let ?h = "take (header_place m) (frame_header m)"
  have "NUL \<notin> set ?h"
    using frame_header_no_nul [OF m] by (auto dest: in_set_takeD)
  then have "ParseHeaderItems ?h [] = Some (foldl (add_field CHR ''='') [] (split_on CRLF ?h))"
    unfolding ParseHeaderItems_def by (subst parse_fields_eq [of _ ?h]) (simp_all add: new_separator_def)
  also have "split_on CRLF ?h = map field_text (sent_fields m)"
    using split_on_joined [OF sent_lines_ok [OF m]] by (simp add: frame_header_def header_place_def)
  finally show ?thesis
    using foldl_add_fields sent_fields_ok [OF m] by (simp add: received_fields_def)
qed

end
