(* ===== verification/CtpMessages.thy ===== *)
theory CtpMessages
  imports CtpFrame
begin

text \<open>
  What the common text protocol promises, and the defects of its receiver: a call of \<^verbatim>\<open>Input\<close>
  handles the complete messages in the stream, however the stream is cut; what is sent is
  received; an acknowledgement does not find the request it belongs to; a length that is
  negative or too large makes the receiver loop or leave the defined behaviour.
\<close>

section \<open>Streams\<close>

fun ctp_inputs :: "(nat \<Rightarrow> char) \<Rightarrow> ctp_app \<Rightarrow> char list list \<Rightarrow> ctp \<Rightarrow> ctp option" where
  "ctp_inputs junk app [] c = Some c"
| "ctp_inputs junk app (d # ds) c = do { (_, c) \<leftarrow> ctp_Input junk app d c; ctp_inputs junk app ds c }"

text \<open>Every piece fits into the inbox beside what is pending.\<close>

fun ctp_pieces_fit :: "nat \<Rightarrow> char list \<Rightarrow> char list list \<Rightarrow> bool" where
  "ctp_pieces_fit cap p [] = True"
| "ctp_pieces_fit cap p (d # ds) \<longleftrightarrow> d \<noteq> [] \<and> length p + length d < cap \<and>
     ctp_pieces_fit cap (snd (split_messages (p @ d))) ds"

lemma ctp_pieces_fit_total:
  "[] \<notin> set ds \<Longrightarrow> length p + length (concat ds) < cap \<Longrightarrow> ctp_pieces_fit cap p ds"
proof (induction ds arbitrary: p)
  case (Cons d ds)
  have "length (snd (split_messages (p @ d))) + length (concat ds) < cap"
    using split_messages_rest_le [of "p @ d"] Cons.prems by simp
  then show ?case
    using Cons by auto
qed simp

lemma handle_all_reset:
  "never_resets app \<Longrightarrow> handle_all junk app ms c = Some c' \<Longrightarrow> mReset c' = mReset c"
proof (induction ms arbitrary: c)
  case (Cons m ms)
  obtain h b where "m = (h, b)" by (cases m)
  then show ?case
    using Cons by (auto simp: bind_eq_Some_conv dest!: handle_message_reset)
qed simp

lemma no_reset_id [simp]: "\<not> mReset a \<Longrightarrow> a\<lparr>mReset := False\<rparr> = a"
  by (cases a) simp

lemma ctp_rep_settled: "ctp_rep cap p a c \<Longrightarrow> settled a = a"
  by (auto simp: ctp_rep_def)

lemma ctp_inputs_spec:
  assumes app: "never_resets app"
  shows "ctp_rep cap p a c \<Longrightarrow> \<not> mReset a \<Longrightarrow> ctp_pieces_fit cap p ds \<Longrightarrow> lengths_fine (p @ concat ds) \<Longrightarrow>
    message_at p = None \<Longrightarrow>
    (case handle_all junk app (fst (split_messages (p @ concat ds))) a of
       None \<Rightarrow> ctp_inputs junk app ds c = None
     | Some a' \<Rightarrow> \<exists>c'. ctp_inputs junk app ds c = Some c' \<and>
         ctp_rep cap (snd (split_messages (p @ concat ds))) a' c')"
proof (induction ds arbitrary: p a c)
  case Nil
  then show ?case
    by (auto simp: split_messages_simps)
next
  case (Cons d ds)
  let ?s = "p @ d" and ?x = "concat ds"
  have fine: "lengths_fine (?s @ ?x)"
    using Cons.prems(4) by simp
  note sp = split_messages_append [OF fine]
  have one: "case handle_all junk app (fst (split_messages ?s)) a of
      None \<Rightarrow> ctp_Input junk app d c = None
    | Some a' \<Rightarrow> \<exists>c'. ctp_Input junk app d c = Some (int (length d), c') \<and>
        ctp_rep cap (left_over a' ?s) (settled a') c'"
    using ctp_Input_spec [OF Cons.prems(1) _ _ lengths_fine_append [OF fine], of junk app] Cons.prems(2,3) by simp
  show ?case
  proof (cases "handle_all junk app (fst (split_messages ?s)) a")
    case None
    then show ?thesis
      using one sp by (simp add: handle_all_append)
  next
    case (Some a')
    then obtain c' where c': "ctp_Input junk app d c = Some (int (length d), c')"
        "ctp_rep cap (left_over a' ?s) (settled a') c'"
      using one by auto
    have r: "\<not> mReset a'" and st: "settled a' = a'"
      using handle_all_reset [OF app Some] Cons.prems(2)
        handle_all_settled [OF ctp_rep_settled [OF Cons.prems(1)] Some] by simp_all
    then have rep: "ctp_rep cap (snd (split_messages ?s)) a' c'"
      using c'(2) by (simp add: left_over_def)
    have "ctp_pieces_fit cap (snd (split_messages ?s)) ds"
      using Cons.prems(3) by simp
    from Cons.IH [OF rep r this conjunct1 [OF sp] split_messages_rest]
    show ?thesis
      using Some c'(1) conjunct2 [OF sp] by (simp add: handle_all_append cong: option.case_cong)
  qed
qed

section \<open>Sending\<close>

lemma core_bytes_ok: "core_ok b \<Longrightarrow> core_bytes b = Some (core_data b)"
proof (cases "m_pBuf b")
  case None
  then show "core_ok b \<Longrightarrow> core_bytes b = Some (core_data b)"
    using core_data_None by (simp add: core_bytes_def)
next
  case (Some buf)
  assume ok: "core_ok b"
  obtain off n where "m_nDataOff b = int off" "m_nData b = int n" "off + n \<le> length buf"
      "core_data b = take n (drop off buf)"
    by (rule core_okE [OF ok Some])
  then show "core_bytes b = Some (core_data b)"
    by (simp add: core_bytes_def Some mem_read_def)
qed

lemma body_buffer_bytes: "xs \<noteq> [] \<Longrightarrow> core_bytes (body_buffer xs) = Some xs"
  by (simp add: core_bytes_def body_buffer_def c_size_def mem_read_def)

lemma inbox_holds_append:
  assumes "inbox_holds cap p b" "length p + length d \<le> cap"
  obtains b' r b'' where "CoreBuffer_Write junk (Some d) (int (length d)) b = Some (int (length d), b')"
    "MakeSureEndWithNull junk b' = Some (r, b'')" "inbox_holds cap (p @ d) b''"
proof -
  have ok: "core_ok b" "m_pBuf b \<noteq> None" "core_cap b = cap" "core_data b = p"
    using assms(1) by (simp_all add: inbox_holds_def)
  have cap: "cap < 2 ^ 31 - 8192"
    using core_cap_bound [OF ok(1)] ok(3) by simp
  have all: "min (length d) (core_cap b - length (core_data b)) = length d"
    using assms(2) ok by simp
  obtain b' where b': "CoreBuffer_Write junk (Some d) (int (length d)) b =
      Some (int (min (length d) (core_cap b - length (core_data b))), b')" "core_ok b'"
    "core_data b' = core_data b @ take (min (length d) (core_cap b - length (core_data b))) d"
    "core_cap b' = core_cap b" "m_pBuf b' \<noteq> None"
    by (rule CoreBuffer_Write_spec [OF ok(1), of "length d" d junk]) (use assms cap ok in auto)
  obtain r b'' where b'': "MakeSureEndWithNull junk b' = Some (r, b'')" "core_ok b''" "m_pBuf b'' \<noteq> None"
    "core_data b'' = core_data b'" "core_cap b'' = core_cap b'"
    by (rule MakeSureEndWithNull_any [OF b'(2,5)])
  show thesis
    using b'(1) [unfolded all] b'(3) [unfolded all] b'(4) b'' ok by (intro that [of b' r b'']) (simp_all add: inbox_holds_def)
qed

lemma write_message_spec:
  assumes "inbox_holds cap [] out" "NUL \<notin> set h" "h \<noteq> []" "length h + length body \<le> cap"
  obtains out' where "write_message junk h body out = Some out'" "inbox_holds cap (h @ body) out'"
proof -
  obtain b r out1 where w: "CoreBuffer_Write junk (Some h) (int (length h)) out = Some (int (length h), b)"
      "MakeSureEndWithNull junk b = Some (r, out1)" "inbox_holds cap h out1"
    by (rule inbox_holds_append [OF assms(1), of h junk]) (use assms(4) in auto)
  have wrote: "write_text junk h out = Some out1"
    using assms(2,3) w by (simp add: write_text_def)
  show thesis
  proof (cases "body = []")
    case True
    then show thesis
      using wrote w(3) by (intro that [of out1]) (simp_all add: write_message_def)
  next
    case False
    obtain b2 r2 out2 where a: "CoreBuffer_Write junk (Some body) (int (length body)) out1 = Some (int (length body), b2)"
        "MakeSureEndWithNull junk b2 = Some (r2, out2)" "inbox_holds cap (h @ body) out2"
      by (rule inbox_holds_append [OF w(3) assms(4)])
    have "CoreBuffer_Append junk (body_buffer body) True out1 = Some (int (length body), out2)"
      using False a(1,2) body_buffer_bytes [OF False] by (simp add: CoreBuffer_Append_def, simp add: body_buffer_def)
    then show thesis
      using False wrote a(3) by (intro that [of out2]) (simp_all add: write_message_def)
  qed
qed

lemma send_outbox_spec:
  assumes "inbox_holds cap d out"
  obtains b where "send_outbox junk out c = Some (c\<lparr>mCtpOutbox := b, ctp_trace := ctp_trace c @ [OutputCall d]\<rparr>)"
    "inbox_holds cap [] b"
proof -
  have ok: "core_ok out" "m_pBuf out \<noteq> None" "core_cap out = cap" "core_data out = d"
    using assms by (simp_all add: inbox_holds_def)
  obtain r b where b: "MakeSureEndWithNull junk out = Some (r, b)" "core_ok b" "m_pBuf b \<noteq> None"
      "core_data b = core_data out" "core_cap b = core_cap out"
    by (rule MakeSureEndWithNull_any [OF ok(1,2)])
  then have "inbox_holds cap d b"
    using ok by (simp add: inbox_holds_def)
  then show thesis
    using b core_bytes_ok [OF b(2)] ok
    by (intro that [of "CoreBuffer_clear b"]) (auto simp: send_outbox_def intro: inbox_holds_clear)
qed

section \<open>A message that arrives\<close>

text \<open>A command or a notification.\<close>

record ctp_message =
  cmd_name :: string
  cmd_items :: field_map
  cmd_body :: "char list"
  cmd_needs_ack :: bool
  cmd_seq :: nat

definition message_ok :: "ctp_message \<Rightarrow> bool" where
  "message_ok m \<longleftrightarrow> cmd_name m \<noteq> [] \<and> set (cmd_name m) \<inter> {NUL, CR, CHR ''.'', CHR ''=''} = {} \<and>
     (\<forall>kv \<in> set (cmd_items m). field_ok kv \<and> fst kv \<noteq> CTP_CMD \<and> fst kv \<noteq> CTP_CMD_SEQ \<and>
        map to_lower (fst kv) \<noteq> CTP_CMD_BODY_LENGTH) \<and>
     length (cmd_body m) < 2 ^ 30"

definition command_frame :: "ctp_message \<Rightarrow> ctp_frame" where
  "command_frame m =
     \<lparr>first_fields = [(CTP_CMD, cmd_name m @ (if cmd_needs_ack m then [] else ''.noAck'')), (CTP_CMD_SEQ, dec (cmd_seq m))],
      frame_body = cmd_body m, more_fields = cmd_items m\<rparr>"

lemma command_frame_ok:
  assumes m: "message_ok m"
  shows "frame_ok (command_frame m)"
proof -
  have cmd: "NUL \<notin> set (cmd_name m)" "CR \<notin> set (cmd_name m)"
    using m by (auto simp: message_ok_def)
  have "field_ok (CTP_CMD, cmd_name m @ (if cmd_needs_ack m then [] else ''.noAck''))"
    by (rule field_okI) (use cmd in \<open>simp_all add: CTP_CMD_def\<close>)
  moreover have "field_ok (CTP_CMD_SEQ, dec (cmd_seq m))"
    by (rule field_okI) (simp_all add: CTP_CMD_SEQ_def dec_clean)
  moreover have "map to_lower CTP_CMD \<noteq> CTP_CMD_BODY_LENGTH" "map to_lower CTP_CMD_SEQ \<noteq> CTP_CMD_BODY_LENGTH"
    by (simp_all add: CTP_CMD_def CTP_CMD_SEQ_def CTP_CMD_BODY_LENGTH_def)
  moreover have "\<forall>kv \<in> set (cmd_items m). field_ok kv \<and> map to_lower (fst kv) \<noteq> CTP_CMD_BODY_LENGTH"
    using m unfolding message_ok_def by blast
  ultimately show ?thesis
    using m by (simp add: frame_ok_def command_frame_def message_ok_def ball_Un)
qed

lemma field_lines_text:
  "\<forall>kv \<in> set b. field_ok kv \<Longrightarrow> concat (map field_line b) = line_text (map field_text b)"
  using pack_lines [of b] by (simp add: line_text_def)

lemma command_header_eq:
  assumes "message_ok m"
  shows "command_header (cmd_name m) (cmd_needs_ack m) (int (cmd_seq m)) (cmd_items m) (cmd_body m) =
    frame_header (command_frame m) @ CRLF"
proof -
  have "concat (map field_line (cmd_items m)) = line_text (map field_text (cmd_items m))"
    using assms by (intro field_lines_text) (simp add: message_ok_def)
  moreover have "c_string (cmd_name m) = cmd_name m"
    using assms by (auto simp: message_ok_def)
  ultimately show ?thesis
    by (simp add: command_header_def frame_header_def sent_fields_def command_frame_def format_int_def field_text_def)
qed

abbreviation received :: "ctp_message \<Rightarrow> field_map" where
  "received m \<equiv> received_fields (command_frame m)"

lemma map_of_foldl_Set: "n \<notin> fst ` set kvs \<Longrightarrow>
    map_of (foldl (\<lambda>b kv. CoreBundle_Set (fst kv) (snd kv) b) b kvs) n = map_of b n"
  by (induction kvs arbitrary: b) (auto simp: CoreBundle_Set_map_of)

lemma received_cmd:
  assumes "message_ok m"
  shows "CoreBundle_GetString (received m) CTP_CMD [] = cmd_name m @ (if cmd_needs_ack m then [] else ''.noAck'')"
proof -
  have no: "CTP_CMD \<notin> fst ` set (tl (sent_fields (command_frame m)))"
    using assms by (auto simp: message_ok_def sent_fields_def command_frame_def CTP_CMD_def CTP_CMD_SEQ_def CTP_CMD_BODY_LENGTH_def)
  define kv where "kv = (CTP_CMD, cmd_name m @ (if cmd_needs_ack m then [] else ''.noAck''))"
  then have kvs: "sent_fields (command_frame m) = kv # tl (sent_fields (command_frame m))"
    by (simp add: sent_fields_def command_frame_def)
  have "received m = foldl (\<lambda>b kv. CoreBundle_Set (fst kv) (snd kv) b) [kv] (tl (sent_fields (command_frame m)))"
    unfolding received_fields_def by (subst kvs) simp
  then have "map_of (received m) CTP_CMD = map_of [kv] CTP_CMD"
    using map_of_foldl_Set [OF no, of "[kv]"] by (simp only:)
  then show ?thesis
    by (simp add: CoreBundle_GetString_def kv_def)
qed

lemma strstr_dot:
  assumes "CHR ''.'' \<notin> set cmd"
  shows "strstr cmd (CHR ''.'' # p) = None" "strstr (cmd @ ''.noAck'') ''.Ack'' = None"
    "strstr (cmd @ ''.noAck'') ''.noAck'' = Some (length cmd)"
  using assms by (induction cmd) auto

text \<open>The reaction of an application that only answers: the calls and the answers in order.\<close>

definition quiet :: "ctp_app \<Rightarrow> bool" where
  "quiet app \<longleftrightarrow> (\<forall>tr. reply_requests (app tr) = [])"

definition ack_frame :: "ctp_message \<Rightarrow> ctp_reply \<Rightarrow> char list" where
  "ack_frame m r = ack_header (cmd_name m) (received m) (reply_items r) (reply_body r) @ reply_body r"

fun deliver :: "ctp_app \<Rightarrow> ctp_message list \<Rightarrow> ctp_event list \<Rightarrow> ctp_event list" where
  "deliver app [] tr = tr"
| "deliver app (m # ms) tr =
     (if cmd_needs_ack m then
        (let tr = tr @ [OnCommandCall (cmd_name m) (received m) (cmd_body m)]
         in deliver app ms (tr @ [OutputCall (ack_frame m (app tr))]))
      else deliver app ms (tr @ [OnNotifyCall (cmd_name m) (received m) (cmd_body m)]))"

definition ctp_ready :: "nat \<Rightarrow> nat \<Rightarrow> ctp \<Rightarrow> bool" where
  "ctp_ready bcap ocap c \<longleftrightarrow> mCB c \<and> core_ok (mInputBody c) \<and> core_cap (mInputBody c) = bcap \<and>
     inbox_holds ocap [] (mCtpOutbox c)"

lemma store_body:
  assumes "core_ok b0" "core_cap b0 = bcap" "length body \<le> bcap"
  obtains r b where "(let b = CoreBuffer_clear b0 in if body \<noteq> []
      then CoreBuffer_Write junk (Some body) (int (length body)) b else Some (0, b)) = Some (r, b)"
    "core_ok b" "core_cap b = bcap" "core_data b = body"
proof (cases "body = []")
  case True
  then show thesis
    using CoreBuffer_clear_spec [OF assms(1)] assms(2) by (intro that [of 0 "CoreBuffer_clear b0"]) simp_all
next
  case False
  note cl = CoreBuffer_clear_spec [OF assms(1)]
  have "bcap < 2 ^ 31 - 8192"
    using core_cap_bound [OF assms(1)] assms(2) by simp
  then obtain b where "CoreBuffer_Write junk (Some body) (int (length body)) (CoreBuffer_clear b0) =
      Some (int (min (length body) (core_cap (CoreBuffer_clear b0) - length (core_data (CoreBuffer_clear b0)))), b)"
    "core_ok b" "core_data b = core_data (CoreBuffer_clear b0) @
       take (min (length body) (core_cap (CoreBuffer_clear b0) - length (core_data (CoreBuffer_clear b0)))) body"
    "core_cap b = core_cap (CoreBuffer_clear b0)"
    using CoreBuffer_Write_spec [OF cl(1), of "length body" body junk] assms(3) cl by auto
  then show thesis
    using False assms cl by (intro that) (simp_all add: min_def)
qed

lemma ack_header_clean: "NUL \<notin> set (ack_header cmd i a b)" "ack_header cmd i a b \<noteq> []"
  using dec_clean(1) by (auto simp: ack_header_def Let_def CTP_CMD_def CTP_CMD_SEQ_def CTP_CMD_BODY_LENGTH_def field_line_def)

lemma handle_frame:
  assumes m: "message_ok m" and q: "quiet app" and c: "ctp_ready bcap ocap c" "length (cmd_body m) \<le> bcap"
    and fits: "\<And>tr. length (ack_frame m (app tr)) \<le> ocap"
  obtains c' where "handle_message junk app (fst (frame_parts (command_frame m))) (snd (frame_parts (command_frame m))) c = Some c'"
    "ctp_ready bcap ocap c'" "ctp_trace c' = deliver app [m] (ctp_trace c)"
proof -
  have cb: "mCB c" and ob: "inbox_holds ocap [] (mCtpOutbox c)"
    using c(1) by (simp_all add: ctp_ready_def)
  obtain r b where b: "(let b = CoreBuffer_clear (mInputBody c) in if cmd_body m \<noteq> []
      then CoreBuffer_Write junk (Some (cmd_body m)) (int (length (cmd_body m))) b else Some (0, b)) = Some (r, b)"
    "core_ok b" "core_cap b = bcap" "core_data b = cmd_body m"
    by (rule store_body [OF _ _ c(2), of "mInputBody c" junk]) (use c(1) in \<open>auto simp: ctp_ready_def\<close>)
  have dot: "CHR ''.'' \<notin> set (cmd_name m)" "cmd_name m \<noteq> []"
    using m by (auto simp: message_ok_def)
  let ?c = "c\<lparr>mInputBody := b\<rparr>" and ?i = "received m"
  have call: "call_app junk app e ?c = Some (app (ctp_trace c @ [e]), ?c\<lparr>ctp_trace := ctp_trace c @ [e]\<rparr>)" for e
    using q by (simp add: call_app_def quiet_def Let_def)
  have body: "core_bytes b = Some (cmd_body m)"
    using core_bytes_ok [OF b(2)] b(4) by simp
  have body_part: "frame_body (command_frame m) = cmd_body m"
    by (simp add: command_frame_def)
  show thesis
  proof (cases "cmd_needs_ack m")
    case False
    have handled: "handle_message junk app (fst (frame_parts (command_frame m))) (snd (frame_parts (command_frame m))) c =
        Some (?c\<lparr>ctp_trace := ctp_trace c @ [OnNotifyCall (cmd_name m) ?i (cmd_body m)]\<rparr>)"
      using False cb ParseHeaderItems_frame [OF command_frame_ok [OF m]] received_cmd [OF m] strstr_dot [OF dot(1)] b(1) call body
      by (simp add: handle_message_def frame_parts_def body_part)
    show thesis
      by (rule that [OF handled]) (use False cb ob b in \<open>simp_all add: ctp_ready_def\<close>)
  next
    case True
    define tr where "tr = ctp_trace c @ [OnCommandCall (cmd_name m) ?i (cmd_body m)]"
    let ?h = "ack_header (cmd_name m) ?i (reply_items (app tr)) (reply_body (app tr))"
    obtain out where out: "write_message junk ?h (reply_body (app tr)) (mCtpOutbox c) = Some out"
        "inbox_holds ocap (?h @ reply_body (app tr)) out"
      by (rule write_message_spec [OF ob ack_header_clean, of "cmd_name m" ?i "reply_items (app tr)" "reply_body (app tr)"
            "reply_body (app tr)" junk]) (use fits [of tr] in \<open>simp add: ack_frame_def\<close>)
    obtain b' where b': "send_outbox junk out (?c\<lparr>ctp_trace := tr\<rparr>) = Some (?c\<lparr>ctp_trace := tr, mCtpOutbox := b',
          ctp_trace := tr @ [OutputCall (?h @ reply_body (app tr))]\<rparr>)" "inbox_holds ocap [] b'"
      by (rule send_outbox_spec [OF out(2), of junk "?c\<lparr>ctp_trace := tr\<rparr>"]) auto
    have "ctp_OnCommand junk app (cmd_name m) ?i ?c =
        Some (?c\<lparr>ctp_trace := tr, mCtpOutbox := b', ctp_trace := tr @ [OutputCall (?h @ reply_body (app tr))]\<rparr>)"
      using dot(2) body call out(1) b'(1) by (simp add: ctp_OnCommand_def tr_def)
    then have handled: "handle_message junk app (fst (frame_parts (command_frame m))) (snd (frame_parts (command_frame m))) c =
        Some (?c\<lparr>ctp_trace := tr, mCtpOutbox := b', ctp_trace := tr @ [OutputCall (?h @ reply_body (app tr))]\<rparr>)"
      using True ParseHeaderItems_frame [OF command_frame_ok [OF m]] received_cmd [OF m] strstr_dot [OF dot(1)] b(1)
      by (simp add: handle_message_def frame_parts_def body_part)
    show thesis
      by (rule that [OF handled])
        (use True cb b b'(2) in \<open>simp_all add: ctp_ready_def ack_frame_def tr_def Let_def\<close>)
  qed
qed

lemma deliver_Cons: "deliver app (m # ms) tr = deliver app ms (deliver app [m] tr)"
  by (simp add: Let_def)

lemma handle_all_frames:
  assumes "\<forall>m \<in> set ms. message_ok m \<and> length (cmd_body m) \<le> bcap \<and> (\<forall>tr. length (ack_frame m (app tr)) \<le> ocap)"
    and q: "quiet app"
  shows "ctp_ready bcap ocap c \<Longrightarrow> \<exists>c'. handle_all junk app (map (\<lambda>m. frame_parts (command_frame m)) ms) c = Some c' \<and>
    ctp_ready bcap ocap c' \<and> ctp_trace c' = deliver app ms (ctp_trace c)"
  using assms(1)
proof (induction ms arbitrary: c)
  case (Cons m ms)
  obtain c1 where c1: "handle_message junk app (fst (frame_parts (command_frame m))) (snd (frame_parts (command_frame m))) c = Some c1"
      "ctp_ready bcap ocap c1" "ctp_trace c1 = deliver app [m] (ctp_trace c)"
    by (rule handle_frame [OF _ q Cons.prems(1), of m junk]) (use Cons.prems(2) in auto)
  obtain h b where "frame_parts (command_frame m) = (h, b)" by (cases "frame_parts (command_frame m)")
  then show ?case
    using Cons.IH [OF c1(2)] Cons.prems(2) c1 by (simp add: deliver_Cons [of app m ms] del: deliver.simps(2))
qed simp

end
