(* ===== verification/CtpProps.thy ===== *)
theory CtpProps
  imports CtpMessages
begin

text \<open>
  What the common text protocol promises, and the defects of its receiver.
\<close>

section \<open>Objects as they are created\<close>

lemma PrepareBuf_fresh:
  assumes n: "0 < uint n" "uint n \<le> 16777216"
  obtains r b where "PrepareBuf junk n False new_buffer = Some (r, b)" "inbox_holds 16777216 [] b"
proof -
  have e: "CoreBuffer_clear new_buffer = new_buffer" "CoreBuffer_EmptyEx new_buffer = new_buffer"
    by (simp_all add: new_buffer_def CoreBuffer_clear_def CoreBuffer_EmptyEx_def)
  have "nat (uint n) \<le> nat 16777216" "0 < nat (uint n)"
    using n by (simp_all only: nat_mono zero_less_nat_eq)
  then have un: "0 < unat n" "unat n \<le> 16777216"
    by (simp_all only: unat_eq_nat_uint nat_numeral)
  have "signed_take_bit 31 (uint n) = uint n"
    using n by (intro signed_take_bit_int_eq_self) (auto intro: order.trans [of _ 0])
  then have "sint n = int (unat n)"
    by (simp add: sint_uint)
  then have "GetFreeSize new_buffer < sint n"
    using n(1) by (simp add: GetFreeSize_def new_buffer_def)
  moreover obtain b where "SetBufferSize junk n default_max new_buffer = (0, b)" "core_ok b" "core_data b = []"
      "core_cap b = max (unat n) (unat default_max)" "m_pBuf b \<noteq> None"
    using SetBufferSize_spec [of new_buffer n default_max junk] un by (auto simp: new_buffer_def default_max_def)
  ultimately show thesis
    using un e by (intro that [of 0 b]) (simp_all add: PrepareBuf_def inbox_holds_def default_max_def)
qed

lemma fresh_object:
  obtains c where "CommonTextProtocol_Impl junk = Some c" "inbox_holds 16777216 [] (mCtpInbox c)"
    "inbox_holds 16777216 [] (mCtpOutbox c)" "mInputBody c = new_buffer" "mSeq c = -1" "mWaitAckItems c = []"
    "ctp_trace c = []" "\<not> mReset c"
proof -
  have n: "0 < uint (16 * 1024 :: u32) \<and> uint (16 * 1024 :: u32) \<le> 16777216"
    "0 < uint (4 * 1024 :: u32) \<and> uint (4 * 1024 :: u32) \<le> 16777216"
    by code_simp+
  obtain r b where b: "PrepareBuf junk (16 * 1024) False new_buffer = Some (r, b)" "inbox_holds 16777216 [] b"
    by (rule PrepareBuf_fresh) (use n in blast)+
  obtain r' b' where b': "PrepareBuf junk (4 * 1024) False new_buffer = Some (r', b')" "inbox_holds 16777216 [] b'"
    by (rule PrepareBuf_fresh) (use n in blast)+
  have "CommonTextProtocol_Impl junk = Some \<lparr>mCB = False, mInputBody = new_buffer, mReset = False, mSeq = -1,
      mWaitAckItems = [], mCtpInbox = b, mCtpOutbox = b', ctp_trace = []\<rparr>"
    using b(1) b'(1) by (simp add: CommonTextProtocol_Impl_def)
  then show thesis
    by (rule that) (use b(2) b'(2) in simp_all)
qed

lemma fresh_ready:
  assumes "CommonTextProtocol_Impl junk = Some c"
  shows "ctp_ready 16777216 16777216 (SetCB c)" "ctp_rep 16777216 [] (settled (SetCB c)) (SetCB c)"
    "mSeq c = -1" "ctp_trace c = []" "\<not> mReset c" "mWaitAckItems c = []"
proof -
  have "core_ok new_buffer" "core_cap new_buffer = 16777216"
    by (simp_all add: core_ok_def core_cap_def new_buffer_def)
  then show "ctp_ready 16777216 16777216 (SetCB c)" "ctp_rep 16777216 [] (settled (SetCB c)) (SetCB c)"
    "mSeq c = -1" "ctp_trace c = []" "\<not> mReset c" "mWaitAckItems c = []"
    using assms by (rule_tac fresh_object [of junk]; simp add: ctp_ready_def ctp_rep_def SetCB_def)+
qed

lemma quiet_never_resets: "quiet app \<Longrightarrow> never_resets app"
  by (simp add: quiet_def never_resets_def)

text \<open>An application that answers every command in the same way.\<close>

definition answering :: "field_map \<Rightarrow> char list \<Rightarrow> ctp_app" where
  "answering items body = (\<lambda>tr. \<lparr>reply_requests = [], reply_items = items, reply_body = body\<rparr>)"

lemma answering_simps [simp]:
  "quiet (answering items body)" "reply_items (answering items body tr) = items" "reply_body (answering items body tr) = body"
  by (simp_all add: answering_def quiet_def)

definition sample_stream :: "char list" where
  "sample_stream = ''_cmd=A.noAck'' @ CRLF @ ''_bytes=2'' @ CRLF @ CRLF @ ''hi_cm''"

lemma sample_facts:
  "lengths_fine sample_stream" "length sample_stream = 31"
  "concat [take 20 sample_stream, drop 20 sample_stream] = sample_stream"
  "take 20 sample_stream \<noteq> []" "drop 20 sample_stream \<noteq> []" "message_at [] = None"
  by code_simp+

section \<open>Refinement\<close>

text \<open>
  C15. A call of \<^verbatim>\<open>Input\<close> handles the complete messages in what was pending and what is new, in
  their order, each once, and keeps the rest (or nothing, when a callback has reset the object);
  it is undefined exactly when handling one of the messages is.
\<close>

theorem ctp_input_refines:
  assumes "ctp_rep cap p a c" "d \<noteq> []" "length p + length d < cap" "lengths_fine (p @ d)"
  shows "case handle_all junk app (fst (split_messages (p @ d))) (a\<lparr>mReset := False\<rparr>) of
      None \<Rightarrow> ctp_Input junk app d c = None
    | Some a' \<Rightarrow> \<exists>c'. ctp_Input junk app d c = Some (int (length d), c') \<and>
        ctp_rep cap (left_over a' (p @ d)) (settled a') c'"
  by (rule ctp_Input_spec [OF assms])

lemma ctp_input_refines_witness:
  "\<exists>c. CommonTextProtocol_Impl (\<lambda>_. NUL) = Some c \<and>
    (case handle_all (\<lambda>_. NUL) (answering [] []) (fst (split_messages ([] @ sample_stream)))
        ((settled (SetCB c))\<lparr>mReset := False\<rparr>) of
      None \<Rightarrow> ctp_Input (\<lambda>_. NUL) (answering [] []) sample_stream (SetCB c) = None
    | Some a' \<Rightarrow> \<exists>c'. ctp_Input (\<lambda>_. NUL) (answering [] []) sample_stream (SetCB c) = Some (int (length sample_stream), c') \<and>
        ctp_rep 16777216 (left_over a' ([] @ sample_stream)) (settled a') c')"
proof -
  obtain c where c: "CommonTextProtocol_Impl (\<lambda>_. NUL) = Some c"
    by (rule fresh_object)
  show ?thesis
    by (rule exI [of _ c], rule conjI, rule c, rule ctp_input_refines [OF fresh_ready(2) [OF c]])
      (use sample_facts in auto)
qed

text \<open>
  C10. The way a stream is cut into calls of \<^verbatim>\<open>Input\<close> does not matter: two cuts give the same calls
  of the application, the same answers and the same pending data, as long as no callback resets
  the object and every piece fits.
\<close>

theorem ctp_cuts_irrelevant:
  assumes app: "never_resets app" and c: "ctp_rep cap p a c" "\<not> mReset c" "message_at p = None"
    and fine: "lengths_fine (p @ concat ds)"
    and cuts: "concat ds = concat es" "ctp_pieces_fit cap p ds" "ctp_pieces_fit cap p es"
  shows "map_option (\<lambda>c. (settled c, core_data (mCtpInbox c))) (ctp_inputs junk app ds c) =
         map_option (\<lambda>c. (settled c, core_data (mCtpInbox c))) (ctp_inputs junk app es c)"
proof -
  have a: "\<not> mReset a"
    using c(1,2) by (auto simp: ctp_rep_def)
  have view: "ctp_rep cap q b c' \<Longrightarrow> (settled c', core_data (mCtpInbox c')) = (b, q)" for q b c'
    by (simp add: ctp_rep_def inbox_holds_def)
  show ?thesis
    using ctp_inputs_spec [OF app c(1) a cuts(2) fine c(3), of junk]
      ctp_inputs_spec [OF app c(1) a cuts(3) fine [unfolded cuts(1)] c(3), of junk]
    unfolding cuts(1)
    by (cases "handle_all junk app (fst (split_messages (p @ concat es))) a") (auto dest!: view)
qed

lemma ctp_cuts_irrelevant_witness:
  "\<exists>c. CommonTextProtocol_Impl (\<lambda>_. NUL) = Some c \<and>
    map_option (\<lambda>c. (settled c, core_data (mCtpInbox c)))
      (ctp_inputs (\<lambda>_. NUL) (answering [] []) [take 20 sample_stream, drop 20 sample_stream] (SetCB c)) =
    map_option (\<lambda>c. (settled c, core_data (mCtpInbox c)))
      (ctp_inputs (\<lambda>_. NUL) (answering [] []) [sample_stream] (SetCB c))"
proof -
  obtain c where c: "CommonTextProtocol_Impl (\<lambda>_. NUL) = Some c"
    by (rule fresh_object)
  have fits: "ctp_pieces_fit 16777216 [] [take 20 sample_stream, drop 20 sample_stream]"
    "ctp_pieces_fit 16777216 [] [sample_stream]"
    by (rule ctp_pieces_fit_total; use sample_facts in \<open>auto simp del: append_take_drop_id\<close>)+
  show ?thesis
    by (rule exI [of _ c], rule conjI, rule c,
        rule ctp_cuts_irrelevant [OF quiet_never_resets fresh_ready(2) [OF c] _ _ _ _ fits])
      (use sample_facts fresh_ready(5) [OF c] in \<open>auto simp: SetCB_def\<close>)
qed

section \<open>What is sent is received\<close>

definition ask :: "ctp_message \<Rightarrow> ctp_request" where
  "ask m = AskCommand (cmd_name m) (cmd_items m) (cmd_body m) (cmd_needs_ack m)"

text \<open>The stream of bytes that an object has put out.\<close>

fun output_bytes :: "ctp_event \<Rightarrow> char list" where
  "output_bytes (OutputCall bytes) = bytes"
| "output_bytes e = []"

definition output_stream :: "ctp_event list \<Rightarrow> char list" where
  "output_stream tr = concat (map output_bytes tr)"

lemma AddCommandEx_spec:
  assumes m: "message_ok m" and c: "ctp_ready bcap ocap c" "mSeq c + 1 = int (cmd_seq m)" "cmd_seq m < 2 ^ 31"
    and fits: "length (frame_text (command_frame m)) \<le> ocap"
  obtains c' where "AddCommandEx junk (cmd_name m) (cmd_items m) (cmd_body m) (cmd_needs_ack m) c = Some (0, c')"
    "ctp_ready bcap ocap c'" "mSeq c' = int (cmd_seq m)"
    "ctp_trace c' = ctp_trace c @ [OutputCall (frame_text (command_frame m))]"
proof -
  let ?h = "frame_header (command_frame m) @ CRLF" and ?s = "int (cmd_seq m)"
  have seq: "c_int (mSeq c + 1) = Some ?s"
    using c(2,3) by (simp add: c_int_def)
  have "map to_lower CTP_CMD_BODY_LENGTH = CTP_CMD_BODY_LENGTH"
    by code_simp
  then have "fst kv \<noteq> CTP_CMD \<and> fst kv \<noteq> CTP_CMD_SEQ \<and> fst kv \<noteq> CTP_CMD_BODY_LENGTH" if "kv \<in> set (cmd_items m)" for kv
    using m that unfolding message_ok_def by metis
  then have free: "\<not> reserved_name (cmd_items m)"
    by (force simp: reserved_name_def CoreBundle_IsKeyExists_def map_of_eq_None_iff)
  obtain out where out: "write_message junk ?h (cmd_body m) (mCtpOutbox c) = Some out"
      "inbox_holds ocap (?h @ cmd_body m) out"
    by (rule write_message_spec [of ocap "mCtpOutbox c" ?h "cmd_body m" junk])
      (use c(1) fits frame_header_no_nul [OF command_frame_ok [OF m]] in
        \<open>simp_all add: ctp_ready_def frame_text_def command_frame_def\<close>)
  define w where "w = (if \<not> mReset c \<and> cmd_needs_ack m
    then wait_for_ack ?s (cmd_items m) (mWaitAckItems c) else mWaitAckItems c)"
  let ?c = "c\<lparr>mSeq := ?s, mWaitAckItems := w\<rparr>"
  obtain b where b: "send_outbox junk out ?c =
      Some (?c\<lparr>mCtpOutbox := b, ctp_trace := ctp_trace ?c @ [OutputCall (?h @ cmd_body m)]\<rparr>)" "inbox_holds ocap [] b"
    by (rule send_outbox_spec [OF out(2)])
  have "(if \<not> mReset (c\<lparr>mSeq := ?s\<rparr>) \<and> cmd_needs_ack m then c\<lparr>mSeq := ?s, mWaitAckItems :=
      wait_for_ack ?s (cmd_items m) (mWaitAckItems (c\<lparr>mSeq := ?s\<rparr>))\<rparr> else c\<lparr>mSeq := ?s\<rparr>) = ?c"
    by (simp add: w_def)
  then have "AddCommandEx junk (cmd_name m) (cmd_items m) (cmd_body m) (cmd_needs_ack m) c =
      Some (0, ?c\<lparr>mCtpOutbox := b, ctp_trace := ctp_trace ?c @ [OutputCall (?h @ cmd_body m)]\<rparr>)"
    using c(1) seq free out(1) b(1) command_header_eq [OF m]
    by (simp add: AddCommandEx_def ctp_ready_def Let_def del: append_assoc)
  then show thesis
    by (rule that) (use c(1) b(2) in \<open>simp_all add: ctp_ready_def frame_text_def command_frame_def\<close>)
qed

lemma run_requests_frames:
  assumes "\<forall>m \<in> set ms. message_ok m \<and> length (frame_text (command_frame m)) \<le> ocap"
  shows "ctp_ready bcap ocap c \<Longrightarrow> map cmd_seq ms = [k..<k + length ms] \<Longrightarrow> mSeq c + 1 = int k \<Longrightarrow>
    k + length ms < 2 ^ 31 \<Longrightarrow>
    \<exists>c'. run_requests junk (map ask ms) c = Some c' \<and> ctp_ready bcap ocap c' \<and>
      ctp_trace c' = ctp_trace c @ map (\<lambda>m. OutputCall (frame_text (command_frame m))) ms"
  using assms
proof (induction ms arbitrary: c k)
  case (Cons m ms)
  have k: "cmd_seq m = k" "map cmd_seq ms = [Suc k..<Suc k + length ms]"
    using Cons.prems(2) by (simp_all add: upt_conv_Cons del: upt_Suc)
  obtain c' where c': "AddCommandEx junk (cmd_name m) (cmd_items m) (cmd_body m) (cmd_needs_ack m) c = Some (0, c')"
    "ctp_ready bcap ocap c'" "mSeq c' = int k"
    "ctp_trace c' = ctp_trace c @ [OutputCall (frame_text (command_frame m))]"
    by (rule AddCommandEx_spec [of m bcap ocap c junk]) (use Cons.prems k in auto)
  show ?case
    using Cons.IH [OF c'(2) k(2)] Cons.prems c' by (simp add: ask_def)
qed simp

lemma output_stream_frames:
  "output_stream (map (\<lambda>m. OutputCall (f m)) ms) = concat (map f ms)"
  by (simp add: output_stream_def o_def)

text \<open>
  C5. What one object sends the other receives: commands and notifications that are given to a
  new object come out as a stream of bytes that, cut in any way and put into another new object,
  makes the calls of its application with the names, fields and bodies that were given, in
  their order, each command answered.
\<close>

theorem ctp_send_receive:
  assumes ms: "\<forall>m \<in> set ms. message_ok m \<and> length (frame_text (command_frame m)) \<le> 16777216 \<and>
      (\<forall>tr. length (ack_frame m (app tr)) \<le> 16777216)"
    and seq: "map cmd_seq ms = [0..<length ms]" "length ms < 2 ^ 31"
    and new: "CommonTextProtocol_Impl junk = Some s0" "CommonTextProtocol_Impl junk' = Some r0"
    and app: "quiet app"
  shows "\<exists>s. run_requests junk (map ask ms) (SetCB s0) = Some s \<and>
    output_stream (ctp_trace s) = concat (map (\<lambda>m. frame_text (command_frame m)) ms) \<and>
    (\<forall>ds. concat ds = output_stream (ctp_trace s) \<and> ctp_pieces_fit 16777216 [] ds \<longrightarrow>
      (\<exists>r. ctp_inputs junk' app ds (SetCB r0) = Some r \<and> ctp_trace r = deliver app ms []))"
proof -
  let ?f = "\<lambda>m. frame_text (command_frame m)"
  note s0 = fresh_ready [OF new(1)] and r0 = fresh_ready [OF new(2)]
  obtain s where s: "run_requests junk (map ask ms) (SetCB s0) = Some s"
      "ctp_trace s = ctp_trace (SetCB s0) @ map (\<lambda>m. OutputCall (?f m)) ms"
    using run_requests_frames [of ms 16777216 16777216 "SetCB s0" 0 junk] ms seq s0 by (auto simp: SetCB_def)
  have sent: "output_stream (ctp_trace s) = concat (map ?f ms)"
    using s(2) s0(4) by (simp add: output_stream_frames SetCB_def)
  have ok: "\<forall>m \<in> set (map command_frame ms). frame_ok m \<and> length (frame_text m) < 2 ^ 30"
    using ms command_frame_ok by fastforce
  have fine: "lengths_fine (concat (map ?f ms))" and parts: "split_messages (concat (map ?f ms)) =
      (map (\<lambda>m. frame_parts (command_frame m)) ms, [])"
    using lengths_fine_frames [OF ok] split_frames_messages [of "map command_frame ms"] ok by (simp_all add: o_def)
  have "\<forall>m \<in> set ms. message_ok m \<and> length (cmd_body m) \<le> 16777216 \<and> (\<forall>tr. length (ack_frame m (app tr)) \<le> 16777216)"
    using ms by (auto simp: frame_text_def command_frame_def)
  moreover have "ctp_ready 16777216 16777216 (settled (SetCB r0))" "ctp_trace (settled (SetCB r0)) = []" "\<not> mReset (settled (SetCB r0))"
    using r0 by (simp_all add: ctp_ready_def SetCB_def)
  ultimately obtain a' where a': "handle_all junk' app (map (\<lambda>m. frame_parts (command_frame m)) ms) (settled (SetCB r0)) = Some a'"
      "ctp_trace a' = deliver app ms []" "\<not> mReset (settled (SetCB r0))"
    using handle_all_frames [of ms 16777216 app 16777216 "settled (SetCB r0)" junk'] app by auto
  have "\<exists>r. ctp_inputs junk' app ds (SetCB r0) = Some r \<and> ctp_trace r = deliver app ms []"
    if ds: "concat ds = concat (map ?f ms)" "ctp_pieces_fit 16777216 [] ds" for ds
  proof -
    have "message_at [] = None"
      by (simp add: message_at_def HEADER_TAIL_def CRLF_def c_string_def)
    then obtain r q where r: "ctp_inputs junk' app ds (SetCB r0) = Some r" "ctp_rep 16777216 q a' r"
      using ctp_inputs_spec [OF quiet_never_resets [OF app] r0(2) a'(3) ds(2), of junk'] ds(1) fine parts a'(1) by auto
    then have "ctp_trace r = ctp_trace a'"
      by (auto simp: ctp_rep_def)
    then show ?thesis
      using r(1) a'(2) by simp
  qed
  then show ?thesis
    using s(1) sent by auto
qed

definition sample_message :: ctp_message where
  "sample_message = \<lparr>cmd_name = ''login'', cmd_items = [(''user'', ''eve'')], cmd_body = ''hi'', cmd_needs_ack = True, cmd_seq = 0\<rparr>"

lemma sample_message_facts:
  "message_ok sample_message" "length (frame_text (command_frame sample_message)) = 44"
  "length (ack_frame sample_message (answering [(''ret'', ''0'')] ''ok'' tr)) = 37"
  "map cmd_seq [sample_message] = [0..<1]"
proof -
  have "map to_lower ''user'' \<noteq> CTP_CMD_BODY_LENGTH"
    by code_simp
  then show "message_ok sample_message"
    by (simp add: message_ok_def sample_message_def field_ok_def CTP_CMD_def CTP_CMD_SEQ_def)
  show "length (frame_text (command_frame sample_message)) = 44"
    by code_simp
  show "length (ack_frame sample_message (answering [(''ret'', ''0'')] ''ok'' tr)) = 37"
    unfolding answering_def by code_simp
  show "map cmd_seq [sample_message] = [0..<1]"
    by code_simp
qed

lemma ctp_send_receive_witness:
  "\<exists>s0 s r. CommonTextProtocol_Impl (\<lambda>_. NUL) = Some s0 \<and>
    run_requests (\<lambda>_. NUL) [ask sample_message] (SetCB s0) = Some s \<and>
    ctp_inputs (\<lambda>_. NUL) (answering [(''ret'', ''0'')] ''ok'')
      [take 9 (output_stream (ctp_trace s)), drop 9 (output_stream (ctp_trace s))] (SetCB s0) = Some r \<and>
    ctp_trace r = deliver (answering [(''ret'', ''0'')] ''ok'') [sample_message] []"
proof -
  let ?app = "answering [(''ret'', ''0'')] ''ok''"
  obtain s0 where s0: "CommonTextProtocol_Impl (\<lambda>_. NUL) = Some s0"
    by (rule fresh_object)
  have ms: "\<forall>m \<in> set [sample_message]. message_ok m \<and> length (frame_text (command_frame m)) \<le> 16777216 \<and>
      (\<forall>tr. length (ack_frame m (?app tr)) \<le> 16777216)"
    using sample_message_facts by simp
  obtain s where s: "run_requests (\<lambda>_. NUL) [ask sample_message] (SetCB s0) = Some s"
      "output_stream (ctp_trace s) = frame_text (command_frame sample_message)"
    and all: "\<forall>ds. concat ds = output_stream (ctp_trace s) \<and> ctp_pieces_fit 16777216 [] ds \<longrightarrow>
      (\<exists>r. ctp_inputs (\<lambda>_. NUL) ?app ds (SetCB s0) = Some r \<and> ctp_trace r = deliver ?app [sample_message] [])"
    using ctp_send_receive [OF ms _ _ s0 s0 answering_simps(1)] sample_message_facts(4) by (auto simp del: deliver.simps)
  let ?ds = "[take 9 (output_stream (ctp_trace s)), drop 9 (output_stream (ctp_trace s))]"
  have fit: "ctp_pieces_fit 16777216 [] ?ds"
    by (rule ctp_pieces_fit_total) (use s(2) sample_message_facts(2) in \<open>auto simp flip: length_greater_0_conv\<close>)
  have "concat ?ds = output_stream (ctp_trace s)"
    by simp
  then obtain r where "ctp_inputs (\<lambda>_. NUL) ?app ?ds (SetCB s0) = Some r" "ctp_trace r = deliver ?app [sample_message] []"
    using all fit by blast
  then show ?thesis
    using s0 s(1) by blast
qed

end
