(* ===== verification/CtpAck.thy ===== *)
theory CtpAck
  imports CtpProps
begin

text \<open>
  The defects of the receiver: an acknowledgement does not find the request it belongs to; a
  length that is negative makes the receiver loop, one that is too large leaves the defined
  behaviour.
\<close>

section \<open>Acknowledgements\<close>

definition reply_frame :: "string \<Rightarrow> ctp_reply \<Rightarrow> ctp_frame" where
  "reply_frame cmd r =
     \<lparr>first_fields = [(CTP_CMD, cmd @ ''.Ack'')], frame_body = reply_body r, more_fields = reply_items r\<rparr>"

text \<open>An answer an application may give: no reserved names, clean fields.\<close>

definition reply_ok :: "ctp_reply \<Rightarrow> bool" where
  "reply_ok r \<longleftrightarrow> length (reply_body r) < 2 ^ 30 \<and>
     (\<forall>kv \<in> set (reply_items r). field_ok kv \<and> fst kv \<noteq> CTP_CMD \<and> fst kv \<noteq> CTP_CMD_SEQ \<and>
        map to_lower (fst kv) \<noteq> CTP_CMD_BODY_LENGTH)"

lemma reply_frame_ok:
  assumes "reply_ok r" "set cmd \<inter> {NUL, CR} = {}"
  shows "frame_ok (reply_frame cmd r)"
proof -
  have "field_ok (CTP_CMD, cmd @ ''.Ack'')"
    by (rule field_okI) (use assms(2) in \<open>auto simp: CTP_CMD_def\<close>)
  moreover have "map to_lower CTP_CMD \<noteq> CTP_CMD_BODY_LENGTH"
    by (simp add: CTP_CMD_def CTP_CMD_BODY_LENGTH_def)
  ultimately show ?thesis
    using assms(1) by (auto simp: frame_ok_def reply_frame_def reply_ok_def)
qed

lemma received_names: "kv \<in> set (received_fields m) \<Longrightarrow> kv \<in> set (sent_fields m)"
proof -
  have "kv \<in> set (foldl (\<lambda>b kv. CoreBundle_Set (fst kv) (snd kv) b) b kvs) \<Longrightarrow> kv \<in> set b \<union> set kvs" for b kvs
  proof (induction kvs arbitrary: b)
    case (Cons x kvs)
    have "kv \<in> set (CoreBundle_Set (fst x) (snd x) b) \<union> set kvs"
      using Cons.IH [of "CoreBundle_Set (fst x) (snd x) b"] Cons.prems by simp
    then show ?case
      using CoreBundle_Set_names [of kv "fst x" "snd x" b] by auto
  qed simp
  from this [of "[]" "sent_fields m"] show "kv \<in> set (received_fields m) \<Longrightarrow> kv \<in> set (sent_fields m)"
    by (simp add: received_fields_def)
qed

text \<open>The command has no field of the receiver's own for the answer.\<close>

definition plain_command :: "ctp_message \<Rightarrow> bool" where
  "plain_command m \<longleftrightarrow> message_ok m \<and> cmd_needs_ack m \<and>
     (\<forall>(n, v) \<in> set (cmd_items m). n \<noteq> ''seq'' \<and> (n = [] \<or> hd n \<noteq> CHR ''.''))"

lemma ack_frame_eq:
  assumes m: "plain_command m" and r: "reply_ok r"
  shows "ack_frame m r = frame_text (reply_frame (cmd_name m) r)"
proof -
  have names: "n \<noteq> ''seq'' \<and> (n = [] \<or> hd n \<noteq> CHR ''.'')" if "(n, v) \<in> set (received m)" for n v
    using received_names [OF that] m
    by (auto simp: plain_command_def sent_fields_def command_frame_def CTP_CMD_def CTP_CMD_SEQ_def
        CTP_CMD_BODY_LENGTH_def split: if_splits)
  then have "filter (\<lambda>(n, v). n \<noteq> [] \<and> hd n = CHR ''.'') (received m) = []"
    by (auto simp: filter_empty_conv)
  moreover have "map_of (received m) ''seq'' = None"
    using names by (fastforce simp: map_of_eq_None_iff)
  moreover have "c_string (cmd_name m) = cmd_name m"
    using m by (auto simp: plain_command_def message_ok_def)
  moreover have "concat (map field_line (reply_items r)) = line_text (map field_text (reply_items r))"
    using r by (intro field_lines_text) (simp add: reply_ok_def)
  ultimately show ?thesis
    by (simp add: ack_frame_def ack_header_def CoreBundle_GetString_def frame_text_def frame_header_def sent_fields_def
        reply_frame_def field_text_def)
qed

lemma strstr_ack: "CHR ''.'' \<notin> set cmd \<Longrightarrow> strstr (cmd @ ''.Ack'') ''.Ack'' = Some (length cmd)"
  by (induction cmd) auto

lemma reply_received:
  assumes "reply_ok r"
  shows "map_of (received_fields (reply_frame cmd r)) CTP_CMD = Some (cmd @ ''.Ack'')"
    "map_of (received_fields (reply_frame cmd r)) CTP_CMD_SEQ = None"
proof -
  let ?k = "sent_fields (reply_frame cmd r)"
  have no: "CTP_CMD \<notin> fst ` set (tl ?k)" "CTP_CMD_SEQ \<notin> fst ` set ?k"
    using assms by (auto simp: reply_ok_def sent_fields_def reply_frame_def CTP_CMD_def CTP_CMD_SEQ_def CTP_CMD_BODY_LENGTH_def)
  have k: "?k = (CTP_CMD, cmd @ ''.Ack'') # tl ?k"
    by (simp add: sent_fields_def reply_frame_def)
  have e: "foldl (\<lambda>b kv. CoreBundle_Set (fst kv) (snd kv) b) [] ?k =
      foldl (\<lambda>b kv. CoreBundle_Set (fst kv) (snd kv) b) [(CTP_CMD, cmd @ ''.Ack'')] (tl ?k)"
    by (subst k) simp
  show "map_of (received_fields (reply_frame cmd r)) CTP_CMD = Some (cmd @ ''.Ack'')"
    using map_of_foldl_Set [OF no(1), of "[(CTP_CMD, cmd @ ''.Ack'')]"] by (simp add: received_fields_def e)
  show "map_of (received_fields (reply_frame cmd r)) CTP_CMD_SEQ = None"
    using map_of_foldl_Set [OF no(2), of "[]"] by (simp add: received_fields_def)
qed

lemma handle_reply:
  assumes r: "reply_ok r" "length (reply_body r) \<le> bcap" and c: "ctp_ready bcap ocap c"
    and cmd: "set cmd \<inter> {NUL, CR, CHR ''.''} = {}" and q: "quiet app"
    and w: "\<forall>(k, v) \<in> set (mWaitAckItems c). 0 \<le> k"
  obtains c' where "handle_message junk app (fst (frame_parts (reply_frame cmd r))) (snd (frame_parts (reply_frame cmd r))) c = Some c'"
    "mWaitAckItems c' = mWaitAckItems c"
    "ctp_trace c' = ctp_trace c @ [OnCommandAckCall cmd [] (received_fields (reply_frame cmd r)) (reply_body r)]"
proof -
  let ?m = "reply_frame cmd r"
  have m: "frame_ok ?m"
    by (rule reply_frame_ok [OF r(1)]) (use cmd in auto)
  obtain x b where b: "(let b = CoreBuffer_clear (mInputBody c) in if reply_body r \<noteq> []
      then CoreBuffer_Write junk (Some (reply_body r)) (int (length (reply_body r))) b else Some (0, b)) = Some (x, b)"
    "core_ok b" "core_data b = reply_body r"
    by (rule store_body [OF _ _ r(2), of "mInputBody c" junk]) (use c in \<open>auto simp: ctp_ready_def\<close>)
  have body: "core_bytes b = Some (reply_body r)" "frame_body ?m = reply_body r"
    using core_bytes_ok [OF b(2)] b(3) by (simp_all add: reply_frame_def)
  have none: "map_of (mWaitAckItems c) (-1) = None"
    using w by (auto simp: map_of_eq_None_iff)
  have call: "call_app junk app e c' = Some (app (ctp_trace c' @ [e]), c'\<lparr>ctp_trace := ctp_trace c' @ [e]\<rparr>)" for e c'
    using q by (simp add: call_app_def quiet_def Let_def)
  have "CHR ''.'' \<notin> set cmd"
    using cmd by auto
  then have "handle_message junk app (fst (frame_parts ?m)) (snd (frame_parts ?m)) c =
      Some (c\<lparr>mInputBody := b, mWaitAckItems := mWaitAckItems c,
        ctp_trace := ctp_trace c @ [OnCommandAckCall cmd [] (received_fields ?m) (reply_body r)]\<rparr>)"
    using ParseHeaderItems_frame [OF m] reply_received [OF r(1), of cmd] strstr_ack b(1) body none
    by (simp add: handle_message_def frame_parts_def CoreBundle_GetString_def ctp_OnCommandAck_def
        CoreBundle_GetInt_def call)
  then show thesis
    by (rule that) simp_all
qed

text \<open>
  C23. The answer to a command never finds its request: the receiver of a command copies the
  field \<^verbatim>\<open>seq\<close> into the answer while the sender numbers its commands with \<^verbatim>\<open>_seq\<close>, so the sender
  hands its application an empty request and keeps the request in its table.
\<close>

theorem ctp_ack_finds_no_request:
  assumes m: "plain_command m" and r: "reply_ok r" "length (ack_frame m r) < cap" "length (reply_body r) \<le> bcap"
    and c: "ctp_rep cap [] a c" "ctp_ready bcap ocap c" "\<forall>(k, v) \<in> set (mWaitAckItems c). 0 \<le> k" "cap \<le> 2 ^ 30"
    and app: "quiet app"
  shows "\<exists>c'. ctp_Input junk app (ack_frame m r) c = Some (int (length (ack_frame m r)), c') \<and>
    mWaitAckItems c' = mWaitAckItems c \<and> ctp_trace c' = ctp_trace c @
      [OnCommandAckCall (cmd_name m) [] (received_fields (reply_frame (cmd_name m) r)) (reply_body r)]"
proof -
  let ?m = "reply_frame (cmd_name m) r" and ?a = "a\<lparr>mReset := False\<rparr>"
  have name: "set (cmd_name m) \<inter> {NUL, CR, CHR ''.''} = {}"
    using m by (auto simp: plain_command_def message_ok_def)
  then have ok: "frame_ok ?m"
    by (intro reply_frame_ok [OF r(1)]) auto
  have t: "ack_frame m r = frame_text ?m"
    by (rule ack_frame_eq [OF m r(1)])
  have a: "a = settled c"
    using c(1) by (simp add: ctp_rep_def)
  obtain a' where a': "handle_message junk app (fst (frame_parts ?m)) (snd (frame_parts ?m)) ?a = Some a'"
      "mWaitAckItems a' = mWaitAckItems ?a"
      "ctp_trace a' = ctp_trace ?a @ [OnCommandAckCall (cmd_name m) [] (received_fields ?m) (reply_body r)]"
    by (rule handle_reply [OF r(1,3) _ name app, of ocap ?a junk]) (use a c in \<open>simp_all add: ctp_ready_def\<close>)
  have "handle_all junk app [frame_parts ?m] ?a = Some a'"
    using a'(1) by (cases "frame_parts ?m") simp
  moreover have "split_messages (ack_frame m r) = ([frame_parts ?m], [])"
    using split_frames_messages [of "[?m]"] ok t by simp
  moreover have "ack_frame m r \<noteq> []"
    using frame_header_length(1) [OF ok] by (auto simp: t frame_text_def)
  moreover have "lengths_fine (ack_frame m r)"
    using lengths_fine_frames [of "[?m]"] ok r(2) c(4) t by simp
  ultimately obtain c' where "ctp_Input junk app (ack_frame m r) c = Some (int (length (ack_frame m r)), c')"
      "ctp_rep cap (left_over a' (ack_frame m r)) (settled a') c'"
    using ctp_Input_spec [OF c(1), of "ack_frame m r" junk app] r(2) by auto
  moreover from this(2) have e: "settled c' = settled a'"
    by (simp add: ctp_rep_def)
  moreover have "mWaitAckItems c' = mWaitAckItems a'" "ctp_trace c' = ctp_trace a'"
    using arg_cong [OF e, of mWaitAckItems] arg_cong [OF e, of ctp_trace] by simp_all
  ultimately show ?thesis
    using a' a by auto
qed

lemma ctp_ack_finds_no_request_witness:
  "\<exists>c c'. CommonTextProtocol_Impl (\<lambda>_. NUL) = Some c \<and>
    ctp_Input (\<lambda>_. NUL) (answering [] []) (ack_frame sample_message (answering [(''ret'', ''0'')] ''ok'' []))
      ((SetCB c)\<lparr>mWaitAckItems := [(0, [(''user'', ''eve'')])]\<rparr>) = Some (37, c') \<and>
    mWaitAckItems c' = [(0, [(''user'', ''eve'')])] \<and> ctp_trace c' =
      [OnCommandAckCall ''login'' [] (received_fields (reply_frame ''login'' (answering [(''ret'', ''0'')] ''ok'' []))) ''ok'']"
proof -
  let ?r = "answering [(''ret'', ''0'')] ''ok'' []"
  obtain c where c: "CommonTextProtocol_Impl (\<lambda>_. NUL) = Some c"
    by (rule fresh_object)
  note f = fresh_ready [OF c]
  let ?c = "(SetCB c)\<lparr>mWaitAckItems := [(0, [(''user'', ''eve'')])]\<rparr>"
  have "map to_lower ''ret'' \<noteq> CTP_CMD_BODY_LENGTH"
    by code_simp
  then have r: "reply_ok ?r"
    by (simp add: reply_ok_def field_ok_def CTP_CMD_def CTP_CMD_SEQ_def)
  have m: "plain_command sample_message"
    using sample_message_facts(1) by (simp add: plain_command_def, simp add: sample_message_def)
  have name: "cmd_name sample_message = ''login''"
    by (simp add: sample_message_def)
  have "ctp_rep 16777216 [] (settled ?c) ?c" "ctp_ready 16777216 16777216 ?c" "ctp_trace ?c = []"
    using f by (simp_all add: ctp_rep_def ctp_ready_def SetCB_def)
  then obtain c' where "ctp_Input (\<lambda>_. NUL) (answering [] []) (ack_frame sample_message ?r) ?c = Some (37, c')"
      "mWaitAckItems c' = mWaitAckItems ?c" "ctp_trace c' = ctp_trace ?c @ [OnCommandAckCall ''login'' []
        (received_fields (reply_frame ''login'' ?r)) ''ok'']"
    using ctp_ack_finds_no_request [OF m r, of 16777216 16777216 "settled ?c" ?c 16777216 "answering [] []" "\<lambda>_. NUL"]
      sample_message_facts(3) by (auto simp: name)
  then show ?thesis
    using c \<open>ctp_trace ?c = []\<close> by auto
qed

section \<open>Lengths\<close>

text \<open>The loop of \<^verbatim>\<open>ParseInbox\<close>, for so many turns.\<close>

fun parse_turns ::
  "nat \<Rightarrow> (nat \<Rightarrow> char) \<Rightarrow> ctp_app \<Rightarrow> memory \<Rightarrow> int \<Rightarrow> int \<Rightarrow> ctp \<Rightarrow> (bool \<times> int \<times> int \<times> ctp) option" where
  "parse_turns 0 junk app buf ps cbLeft c = Some (True, ps, cbLeft, c)"
| "parse_turns (Suc n) junk app buf ps cbLeft c = do {
     (more, ps, cbLeft, c) \<leftarrow> parse_turn junk app buf ps cbLeft c;
     (if more then parse_turns n junk app buf ps cbLeft c else Some (False, ps, cbLeft, c))
   }"

text \<open>A notification whose length of the body takes back the length of its header.\<close>

definition stalling_text :: "char list" where
  "stalling_text = ''_cmd=A.noAck'' @ CRLF @ ''_bytes=-28'' @ CRLF @ CRLF"

definition stalling_fields :: field_map where
  "stalling_fields = [(''_bytes'', ''-28''), (''_cmd'', ''A.noAck'')]"

lemma stalling_facts:
  "c_string stalling_text = stalling_text" "length stalling_text = 28" "stalling_text \<noteq> []"
  "strstr stalling_text HEADER_TAIL = Some 24" "content_length stalling_text 24 = Some (-28)"
  "strstr (CoreBundle_GetString stalling_fields CTP_CMD []) ''.Ack'' = None"
  "strstr (CoreBundle_GetString stalling_fields CTP_CMD []) ''.noAck'' = Some 1"
  "take 1 (CoreBundle_GetString stalling_fields CTP_CMD []) = ''A''"
  by code_simp+

lemma stalling_header: "ParseHeaderItems (take 24 stalling_text) [] = Some stalling_fields"
proof -
  let ?h = "take 24 stalling_text"
  have "ParseHeaderItems ?h [] = Some (foldl (add_field CHR ''='') [] (split_on CRLF ?h))"
    unfolding ParseHeaderItems_def by (subst parse_fields_eq [of _ ?h]) (simp_all add: new_separator_def stalling_text_def)
  also have "foldl (add_field CHR ''='') [] (split_on CRLF ?h) = stalling_fields"
    by code_simp
  finally show ?thesis .
qed

lemma stalling_turn:
  assumes t: "text_at buf off stalling_text" and c: "ctp_ready bcap ocap c" and q: "quiet app"
  obtains c' where "parse_turn junk app buf (int off) 28 c = Some (True, int off, 28, c')" "ctp_ready bcap ocap c'"
    "ctp_trace c' = ctp_trace c @ [OnNotifyCall ''A'' stalling_fields []]"
proof -
  have ok: "core_ok (mInputBody c)" "mCB c"
    using c by (simp_all add: ctp_ready_def)
  note cl = CoreBuffer_clear_spec [OF ok(1)]
  let ?c = "c\<lparr>mInputBody := CoreBuffer_clear (mInputBody c), ctp_trace := ctp_trace c @ [OnNotifyCall ''A'' stalling_fields []]\<rparr>"
  have "core_bytes (CoreBuffer_clear (mInputBody c)) = Some []"
    using core_bytes_ok cl by simp
  then have "handle_message junk app (take 24 stalling_text) [] c = Some ?c"
    using ok(2) q stalling_header stalling_facts(6-8)
    by (simp add: handle_message_def call_app_def quiet_def Let_def)
  moreover have "c_str buf off = Some stalling_text"
    using text_at_str [OF t] stalling_facts by simp
  ultimately have "parse_turn junk app buf (int off) 28 c = Some (True, int off, 28, ?c)"
    using stalling_facts by (simp add: parse_turn_def c_size_def c_int_def)
  then show thesis
    by (rule that) (use c cl in \<open>simp_all add: ctp_ready_def\<close>)
qed

lemma stalling_loop:
  assumes t: "text_at buf off stalling_text" and q: "quiet app"
  shows "ctp_ready bcap ocap c \<Longrightarrow> parse_loop junk app buf (int off) 28 c = None"
proof -
  let ?P = "\<lambda>j a b p l c y. (j, a, b, p, l) = (junk, app, buf, int off, 28 :: int) \<longrightarrow> \<not> ctp_ready bcap ocap c"
  have no: "?P junk app buf (int off) 28 c y" if "parse_loop junk app buf (int off) 28 c = Some y" for y
  proof (rule parse_loop.raw_induct [where P = ?P, OF _ that])
    fix f j a b p l and c :: ctp and y
    assume ih: "\<And>j a b p l c y. f j a b p l c = Some y \<Longrightarrow> ?P j a b p l c y"
      and eq: "do { (more, p, l, c) \<leftarrow> parse_turn j a b p l c; if more then f j a b p l c else Some (l, c) } = Some y"
    show "?P j a b p l c y"
    proof (intro impI notI)
      assume e: "(j, a, b, p, l) = (junk, app, buf, int off, 28 :: int)" and r: "ctp_ready bcap ocap c"
      obtain c' where "parse_turn junk app buf (int off) 28 c = Some (True, int off, 28, c')" "ctp_ready bcap ocap c'"
        by (rule stalling_turn [OF t r q])
      then show False
        using ih [of junk app buf "int off" 28 c' y] eq e by simp
    qed
  qed
  then show "ctp_ready bcap ocap c \<Longrightarrow> parse_loop junk app buf (int off) 28 c = None"
    by (cases "parse_loop junk app buf (int off) 28 c") blast+
qed

text \<open>
  C26. A length that takes back the length of its header stops the receiver: every turn of the
  loop delivers the same notification again and leaves the place and the bytes to parse as they
  were, so that the loop of \<^verbatim>\<open>ParseInbox\<close> does not end.
\<close>

theorem ctp_negative_length_loops:
  assumes "text_at buf off stalling_text" "ctp_ready bcap ocap c" "quiet app"
  shows "(\<exists>c'. parse_turns n junk app buf (int off) 28 c = Some (True, int off, 28, c') \<and>
      ctp_trace c' = ctp_trace c @ replicate n (OnNotifyCall ''A'' stalling_fields [])) \<and>
    parse_loop junk app buf (int off) 28 c = None"
proof
  show "\<exists>c'. parse_turns n junk app buf (int off) 28 c = Some (True, int off, 28, c') \<and>
      ctp_trace c' = ctp_trace c @ replicate n (OnNotifyCall ''A'' stalling_fields [])"
    using assms(2)
  proof (induction n arbitrary: c)
    case (Suc n)
    obtain c1 where c1: "parse_turn junk app buf (int off) 28 c = Some (True, int off, 28, c1)" "ctp_ready bcap ocap c1"
        "ctp_trace c1 = ctp_trace c @ [OnNotifyCall ''A'' stalling_fields []]"
      by (rule stalling_turn [OF assms(1) Suc.prems assms(3)])
    show ?case
      using Suc.IH [OF c1(2)] c1 by auto
  qed simp
  show "parse_loop junk app buf (int off) 28 c = None"
    by (rule stalling_loop [OF assms(1,3,2)])
qed

lemma text_at_start:
  assumes "s \<noteq> []" "NUL \<notin> set s"
  shows "text_at (s @ [NUL]) 0 s"
  using assms by (auto simp: text_at_def c_str_def c_string_def takeWhile_tail)

lemma ctp_negative_length_loops_witness:
  "\<exists>c. CommonTextProtocol_Impl (\<lambda>_. NUL) = Some c \<and>
    (\<exists>c'. parse_turns 1000 (\<lambda>_. NUL) (answering [] []) (stalling_text @ [NUL]) (int 0) 28 (SetCB c) = Some (True, int 0, 28, c') \<and>
      ctp_trace c' = ctp_trace (SetCB c) @ replicate 1000 (OnNotifyCall ''A'' stalling_fields [])) \<and>
    parse_loop (\<lambda>_. NUL) (answering [] []) (stalling_text @ [NUL]) (int 0) 28 (SetCB c) = None"
proof -
  obtain c where c: "CommonTextProtocol_Impl (\<lambda>_. NUL) = Some c"
    by (rule fresh_object)
  have "NUL \<notin> set stalling_text"
    by code_simp
  then have "text_at (stalling_text @ [NUL]) 0 stalling_text"
    using stalling_facts(3) by (intro text_at_start)
  from ctp_negative_length_loops [OF this fresh_ready(1) [OF c] answering_simps(1)] c show ?thesis
    by blast
qed

text \<open>
  A length that does not leave room for the header in an \<^verbatim>\<open>int\<close> is not rejected: the sum of
  the two overflows, before it is compared with what has arrived.
\<close>

theorem ctp_length_overflow:
  assumes "text_at buf off s" "s \<noteq> []" "strstr (c_string s) HEADER_TAIL = Some t"
    "content_length (c_string s) t = Some n" "2 ^ 31 \<le> int t + 4 + n"
  shows "parse_turn junk app buf (int off) (int (length s)) c = None"
  using text_at_str [OF assms(1,2)] assms by (simp add: parse_turn_def c_size_def c_int_def)

definition overflowing_text :: "char list" where
  "overflowing_text = ''_cmd=A'' @ CRLF @ ''_bytes=2147483647'' @ CRLF @ CRLF"

lemma ctp_length_overflow_witness:
  "\<exists>c. CommonTextProtocol_Impl (\<lambda>_. NUL) = Some c \<and>
    parse_turn (\<lambda>_. NUL) (answering [] []) (overflowing_text @ [NUL]) (int 0) (int (length overflowing_text)) (SetCB c) = None"
proof -
  obtain c where c: "CommonTextProtocol_Impl (\<lambda>_. NUL) = Some c"
    by (rule fresh_object)
  have f: "NUL \<notin> set overflowing_text" "overflowing_text \<noteq> []"
    "strstr (c_string overflowing_text) HEADER_TAIL = Some 25"
    "content_length (c_string overflowing_text) 25 = Some 2147483647"
    by code_simp+
  show ?thesis
    by (rule exI [of _ c], rule conjI, rule c, rule ctp_length_overflow [OF text_at_start [OF f(2,1)] f(2-4)]) simp
qed

end
