(* ===== verification/CryptCrc.thy ===== *)
theory CryptCrc
  imports SctpTool CoreBuffer
begin

text \<open>
  The checksums of \<^verbatim>\<open>src/projects/libcrypt/src/crc16.cpp\<close>: one with a table, one bit by bit, and the
  functions that put one into a packet and check it there.
\<close>

section \<open>The table\<close>

definition gCrcHigh :: "u8 list" where
  "gCrcHigh =
    [0x00, 0xC1, 0x81, 0x40, 0x01, 0xC0, 0x80, 0x41, 0x01, 0xC0, 0x80, 0x41, 0x00, 0xC1, 0x81, 0x40,
     0x01, 0xC0, 0x80, 0x41, 0x00, 0xC1, 0x81, 0x40, 0x00, 0xC1, 0x81, 0x40, 0x01, 0xC0, 0x80, 0x41,
     0x01, 0xC0, 0x80, 0x41, 0x00, 0xC1, 0x81, 0x40, 0x00, 0xC1, 0x81, 0x40, 0x01, 0xC0, 0x80, 0x41,
     0x00, 0xC1, 0x81, 0x40, 0x01, 0xC0, 0x80, 0x41, 0x01, 0xC0, 0x80, 0x41, 0x00, 0xC1, 0x81, 0x40,
     0x01, 0xC0, 0x80, 0x41, 0x00, 0xC1, 0x81, 0x40, 0x00, 0xC1, 0x81, 0x40, 0x01, 0xC0, 0x80, 0x41,
     0x00, 0xC1, 0x81, 0x40, 0x01, 0xC0, 0x80, 0x41, 0x01, 0xC0, 0x80, 0x41, 0x00, 0xC1, 0x81, 0x40,
     0x00, 0xC1, 0x81, 0x40, 0x01, 0xC0, 0x80, 0x41, 0x01, 0xC0, 0x80, 0x41, 0x00, 0xC1, 0x81, 0x40,
     0x01, 0xC0, 0x80, 0x41, 0x00, 0xC1, 0x81, 0x40, 0x00, 0xC1, 0x81, 0x40, 0x01, 0xC0, 0x80, 0x41,
     0x01, 0xC0, 0x80, 0x41, 0x00, 0xC1, 0x81, 0x40, 0x00, 0xC1, 0x81, 0x40, 0x01, 0xC0, 0x80, 0x41,
     0x00, 0xC1, 0x81, 0x40, 0x01, 0xC0, 0x80, 0x41, 0x01, 0xC0, 0x80, 0x41, 0x00, 0xC1, 0x81, 0x40,
     0x00, 0xC1, 0x81, 0x40, 0x01, 0xC0, 0x80, 0x41, 0x01, 0xC0, 0x80, 0x41, 0x00, 0xC1, 0x81, 0x40,
     0x01, 0xC0, 0x80, 0x41, 0x00, 0xC1, 0x81, 0x40, 0x00, 0xC1, 0x81, 0x40, 0x01, 0xC0, 0x80, 0x41,
     0x00, 0xC1, 0x81, 0x40, 0x01, 0xC0, 0x80, 0x41, 0x01, 0xC0, 0x80, 0x41, 0x00, 0xC1, 0x81, 0x40,
     0x01, 0xC0, 0x80, 0x41, 0x00, 0xC1, 0x81, 0x40, 0x00, 0xC1, 0x81, 0x40, 0x01, 0xC0, 0x80, 0x41,
     0x01, 0xC0, 0x80, 0x41, 0x00, 0xC1, 0x81, 0x40, 0x00, 0xC1, 0x81, 0x40, 0x01, 0xC0, 0x80, 0x41,
     0x00, 0xC1, 0x81, 0x40, 0x01, 0xC0, 0x80, 0x41, 0x01, 0xC0, 0x80, 0x41, 0x00, 0xC1, 0x81, 0x40]"

definition gCrcLow :: "u8 list" where
  "gCrcLow =
    [0x00, 0xC0, 0xC1, 0x01, 0xC3, 0x03, 0x02, 0xC2, 0xC6, 0x06, 0x07, 0xC7, 0x05, 0xC5, 0xC4, 0x04,
     0xCC, 0x0C, 0x0D, 0xCD, 0x0F, 0xCF, 0xCE, 0x0E, 0x0A, 0xCA, 0xCB, 0x0B, 0xC9, 0x09, 0x08, 0xC8,
     0xD8, 0x18, 0x19, 0xD9, 0x1B, 0xDB, 0xDA, 0x1A, 0x1E, 0xDE, 0xDF, 0x1F, 0xDD, 0x1D, 0x1C, 0xDC,
     0x14, 0xD4, 0xD5, 0x15, 0xD7, 0x17, 0x16, 0xD6, 0xD2, 0x12, 0x13, 0xD3, 0x11, 0xD1, 0xD0, 0x10,
     0xF0, 0x30, 0x31, 0xF1, 0x33, 0xF3, 0xF2, 0x32, 0x36, 0xF6, 0xF7, 0x37, 0xF5, 0x35, 0x34, 0xF4,
     0x3C, 0xFC, 0xFD, 0x3D, 0xFF, 0x3F, 0x3E, 0xFE, 0xFA, 0x3A, 0x3B, 0xFB, 0x39, 0xF9, 0xF8, 0x38,
     0x28, 0xE8, 0xE9, 0x29, 0xEB, 0x2B, 0x2A, 0xEA, 0xEE, 0x2E, 0x2F, 0xEF, 0x2D, 0xED, 0xEC, 0x2C,
     0xE4, 0x24, 0x25, 0xE5, 0x27, 0xE7, 0xE6, 0x26, 0x22, 0xE2, 0xE3, 0x23, 0xE1, 0x21, 0x20, 0xE0,
     0xA0, 0x60, 0x61, 0xA1, 0x63, 0xA3, 0xA2, 0x62, 0x66, 0xA6, 0xA7, 0x67, 0xA5, 0x65, 0x64, 0xA4,
     0x6C, 0xAC, 0xAD, 0x6D, 0xAF, 0x6F, 0x6E, 0xAE, 0xAA, 0x6A, 0x6B, 0xAB, 0x69, 0xA9, 0xA8, 0x68,
     0x78, 0xB8, 0xB9, 0x79, 0xBB, 0x7B, 0x7A, 0xBA, 0xBE, 0x7E, 0x7F, 0xBF, 0x7D, 0xBD, 0xBC, 0x7C,
     0xB4, 0x74, 0x75, 0xB5, 0x77, 0xB7, 0xB6, 0x76, 0x72, 0xB2, 0xB3, 0x73, 0xB1, 0x71, 0x70, 0xB0,
     0x50, 0x90, 0x91, 0x51, 0x93, 0x53, 0x52, 0x92, 0x96, 0x56, 0x57, 0x97, 0x55, 0x95, 0x94, 0x54,
     0x9C, 0x5C, 0x5D, 0x9D, 0x5F, 0x9F, 0x9E, 0x5E, 0x5A, 0x9A, 0x9B, 0x5B, 0x99, 0x59, 0x58, 0x98,
     0x88, 0x48, 0x49, 0x89, 0x4B, 0x8B, 0x8A, 0x4A, 0x4E, 0x8E, 0x8F, 0x4F, 0x8D, 0x4D, 0x4C, 0x8C,
     0x44, 0x84, 0x85, 0x45, 0x87, 0x47, 0x46, 0x86, 0x82, 0x42, 0x43, 0x83, 0x41, 0x81, 0x80, 0x40]"

definition crc16_step :: "char \<Rightarrow> u8 \<times> u8 \<Rightarrow> u8 \<times> u8" where
  "crc16_step c s =
     (let (high, low) = s;
          iIndex = unat (low XOR of_char c)
      in (gCrcLow ! iIndex, high XOR gCrcHigh ! iIndex))"

definition crc16_word :: "u8 \<times> u8 \<Rightarrow> u16" where
  "crc16_word s = (case s of (high, low) \<Rightarrow> push_bit 8 (ucast high) OR ucast low)"

definition crc16 :: "memory \<Rightarrow> u16 \<Rightarrow> u16 option" where
  "crc16 pucFrame usLen = do {
     xs \<leftarrow> mem_read pucFrame 0 (unat usLen);
     Some (crc16_word (foldl (\<lambda>s c. crc16_step c s) (0xFF, 0xFF) xs))
   }"

text \<open>The length is an \<^verbatim>\<open>int\<close> here and a \<^verbatim>\<open>USHORT\<close> there.\<close>

definition Crc16_Calc :: "memory \<Rightarrow> int \<Rightarrow> u16 option" where
  "Crc16_Calc data dataBytes = crc16 data (word_of_int dataBytes)"

section \<open>Bit by bit\<close>

text \<open>The loop is that of \<^verbatim>\<open>Crc16Ex\<close> in \<^verbatim>\<open>ccrc.c\<close>.\<close>

definition Crc16_Crc16Ex :: "memory \<Rightarrow> int \<Rightarrow> u16 \<Rightarrow> u16 option" where
  "Crc16_Crc16Ex pData bytes crcInitValue =
     map_option (\<lambda>xs. Crc16Ex xs crcInitValue) (mem_read pData 0 (nat bytes))"

definition CrcMatched :: "memory \<Rightarrow> int \<Rightarrow> bool \<Rightarrow> bool option" where
  "CrcMatched d bytes bigEndian =
     (if bytes \<le> 2 then Some False
      else do {
        crc \<leftarrow> Crc16_Crc16Ex d (bytes - 2) 0xFFFF;
        let b1 = drop_bit 8 crc AND 0xFF;
        let b2 = crc AND 0xFF;
        x \<leftarrow> mem_get d (nat (bytes - 2));
        y \<leftarrow> mem_get d (nat (bytes - 1));
        (if bigEndian then Some (of_char x = b1 \<and> of_char y = b2)
         else Some (of_char x = b2 \<and> of_char y = b1))
      })"

definition byte_char :: "u16 \<Rightarrow> char" where
  "byte_char w = char_of (unat w)"

definition FillCrc :: "memory \<Rightarrow> int \<Rightarrow> (int \<times> memory) option" where
  "FillCrc d bytes =
     (if bytes \<le> 2 then Some (-1, d)
      else do {
        crcValue \<leftarrow> Crc16_Crc16Ex d (bytes - 2) 0xFFFF;
        d \<leftarrow> mem_set d (nat (bytes - 1)) (byte_char (drop_bit 8 crcValue AND 0xFF));
        d \<leftarrow> mem_set d (nat (bytes - 2)) (byte_char (crcValue AND 0xFF));
        Some (0, d)
      })"

section \<open>The table holds the remainders\<close>

lemma crc_bit_odd: "crc_bit v = (if odd v then drop_bit 1 v XOR 0xA001 else drop_bit 1 v)"
  by (simp add: crc_bit_def and_one_eq one_and_eq odd_iff_mod_2_eq_one)

lemma crc_bit_xor: "crc_bit (v XOR w) = crc_bit v XOR crc_bit w"
proof -
  have "odd (v XOR w) \<longleftrightarrow> odd v \<noteq> odd w"
    using bit_xor_iff [of v w 0] by (auto simp: bit_0)
  then show ?thesis
    by (simp only: crc_bit_odd drop_bit_xor) (auto simp: ac_simps)
qed

lemma crc_bits_xor: "(crc_bit ^^ n) (v XOR w) = (crc_bit ^^ n) v XOR (crc_bit ^^ n) w"
  by (induction n) (simp_all add: crc_bit_xor)

lemma crc_bit_push:
  assumes "n < 8"
  shows "crc_bit (push_bit (Suc n) (ucast (h :: u8))) = push_bit n (ucast h)"
proof -
  have "even (push_bit (Suc n) (ucast h :: u16))"
    using bit_push_bit_iff [of "Suc n" "ucast h :: u16" 0] by (simp add: bit_0)
  moreover have "drop_bit 1 (push_bit (Suc n) (ucast h :: u16)) = push_bit n (ucast h)"
  proof (intro bit_word_eqI)
    fix i
    assume "i < LENGTH(16)"
    then show "bit (drop_bit 1 (push_bit (Suc n) (ucast h :: u16))) i = bit (push_bit n (ucast h :: u16)) i"
      using assms bit_imp_le_length [of h "i - n"] by (auto simp: bit_simps simp del: push_bit_Suc)
  qed
  ultimately show ?thesis
    by (simp only: crc_bit_odd if_False not_not if_True simp_thms)
qed

lemma crc_bits_high: "n \<le> 8 \<Longrightarrow> (crc_bit ^^ n) (push_bit n (ucast (h :: u8))) = ucast h"
  by (induction n) (simp_all add: funpow_Suc_right crc_bit_push del: funpow.simps push_bit_Suc)

text \<open>The remainders of all bytes.\<close>

definition crc_remainders :: "u16 list" where
  "crc_remainders = [
      0, 49345, 49537, 320, 49921, 960, 640, 49729, 50689, 1728, 1920, 51009, 1280, 50625, 50305,
      1088, 52225, 3264, 3456, 52545, 3840, 53185, 52865, 3648, 2560, 51905, 52097, 2880, 51457,
      2496, 2176, 51265, 55297, 6336, 6528, 55617, 6912, 56257, 55937, 6720, 7680, 57025, 57217,
      8000, 56577, 7616, 7296, 56385, 5120, 54465, 54657, 5440, 55041, 6080, 5760, 54849, 53761,
      4800, 4992, 54081, 4352, 53697, 53377, 4160, 61441, 12480, 12672, 61761, 13056, 62401, 62081,
      12864, 13824, 63169, 63361, 14144, 62721, 13760, 13440, 62529, 15360, 64705, 64897, 15680,
      65281, 16320, 16000, 65089, 64001, 15040, 15232, 64321, 14592, 63937, 63617, 14400, 10240,
      59585, 59777, 10560, 60161, 11200, 10880, 59969, 60929, 11968, 12160, 61249, 11520, 60865,
      60545, 11328, 58369, 9408, 9600, 58689, 9984, 59329, 59009, 9792, 8704, 58049, 58241, 9024,
      57601, 8640, 8320, 57409, 40961, 24768, 24960, 41281, 25344, 41921, 41601, 25152, 26112,
      42689, 42881, 26432, 42241, 26048, 25728, 42049, 27648, 44225, 44417, 27968, 44801, 28608,
      28288, 44609, 43521, 27328, 27520, 43841, 26880, 43457, 43137, 26688, 30720, 47297, 47489,
      31040, 47873, 31680, 31360, 47681, 48641, 32448, 32640, 48961, 32000, 48577, 48257, 31808,
      46081, 29888, 30080, 46401, 30464, 47041, 46721, 30272, 29184, 45761, 45953, 29504, 45313,
      29120, 28800, 45121, 20480, 37057, 37249, 20800, 37633, 21440, 21120, 37441, 38401, 22208,
      22400, 38721, 21760, 38337, 38017, 21568, 39937, 23744, 23936, 40257, 24320, 40897, 40577,
      24128, 23040, 39617, 39809, 23360, 39169, 22976, 22656, 38977, 34817, 18624, 18816, 35137,
      19200, 35777, 35457, 19008, 19968, 36545, 36737, 20288, 36097, 19904, 19584, 35905, 17408,
      33985, 34177, 17728, 34561, 18368, 18048, 34369, 33281, 17088, 17280, 33601, 16640, 33217,
      32897, 16448]"

lemma crc_remainders: "map (crc_bit ^^ 8) (map word_of_int [0..255]) = crc_remainders"
proof -
  have n: "map word_of_int [0..255] = ([
      0, 1, 2, 3, 4, 5, 6, 7, 8, 9, 10, 11, 12, 13, 14, 15, 16, 17, 18, 19, 20, 21, 22, 23, 24, 25,
      26, 27, 28, 29, 30, 31, 32, 33, 34, 35, 36, 37, 38, 39, 40, 41, 42, 43, 44, 45, 46, 47, 48,
      49, 50, 51, 52, 53, 54, 55, 56, 57, 58, 59, 60, 61, 62, 63, 64, 65, 66, 67, 68, 69, 70, 71,
      72, 73, 74, 75, 76, 77, 78, 79, 80, 81, 82, 83, 84, 85, 86, 87, 88, 89, 90, 91, 92, 93, 94,
      95, 96, 97, 98, 99, 100, 101, 102, 103, 104, 105, 106, 107, 108, 109, 110, 111, 112, 113, 114,
      115, 116, 117, 118, 119, 120, 121, 122, 123, 124, 125, 126, 127, 128, 129, 130, 131, 132, 133,
      134, 135, 136, 137, 138, 139, 140, 141, 142, 143, 144, 145, 146, 147, 148, 149, 150, 151, 152,
      153, 154, 155, 156, 157, 158, 159, 160, 161, 162, 163, 164, 165, 166, 167, 168, 169, 170, 171,
      172, 173, 174, 175, 176, 177, 178, 179, 180, 181, 182, 183, 184, 185, 186, 187, 188, 189, 190,
      191, 192, 193, 194, 195, 196, 197, 198, 199, 200, 201, 202, 203, 204, 205, 206, 207, 208, 209,
      210, 211, 212, 213, 214, 215, 216, 217, 218, 219, 220, 221, 222, 223, 224, 225, 226, 227, 228,
      229, 230, 231, 232, 233, 234, 235, 236, 237, 238, 239, 240, 241, 242, 243, 244, 245, 246, 247,
      248, 249, 250, 251, 252, 253, 254, 255] :: u16 list)"
    by code_simp
  have crc_bits_8: "(crc_bit ^^ 8) w = crc_bit (crc_bit (crc_bit (crc_bit (crc_bit (crc_bit (crc_bit (crc_bit w)))))))" for w
    by (simp add: eval_nat_numeral)
  show ?thesis
    unfolding n by (simp add: crc_bits_8 crc_bit_def crc_remainders_def)
qed

lemma crc_table: "map2 (\<lambda>low high. push_bit 8 (ucast low) XOR ucast high) gCrcLow gCrcHigh = crc_remainders"
  by (simp add: gCrcLow_def gCrcHigh_def crc_remainders_def)

lemma crc_table_lengths: "length gCrcLow = 256" "length gCrcHigh = 256"
  by (simp_all add: gCrcLow_def gCrcHigh_def)

lemma crc_bits_low: "(crc_bit ^^ 8) (ucast (i :: u8)) = push_bit 8 (ucast (gCrcLow ! unat i)) XOR ucast (gCrcHigh ! unat i)"
proof -
  have i: "unat i < 256"
    using unsigned_less [of i] by simp
  then have "0 + int (unat i) \<le> 255"
    by linarith
  from nth_upto [OF this] have "[0..255] ! unat i = int (unat i)"
    by (simp only: add_0)
  then have "map (crc_bit ^^ 8) (map word_of_int [0..255]) ! unat i = (crc_bit ^^ 8) (word_of_int (int (unat i)))"
    using i by (simp del: funpow.simps of_int_of_nat_eq)
  also have "word_of_int (int (unat i)) = (ucast i :: u16)"
    by (simp add: unsigned_of_nat)
  finally have "crc_remainders ! unat i = (crc_bit ^^ 8) (ucast i)"
    by (simp only: crc_remainders)
  moreover have "crc_remainders ! unat i = push_bit 8 (ucast (gCrcLow ! unat i)) XOR ucast (gCrcHigh ! unat i)"
    unfolding crc_table [symmetric] using i by (simp add: crc_table_lengths)
  ultimately show ?thesis
    by (simp only:)
qed

lemma crc16_word_xor: "crc16_word (high, low) = push_bit 8 (ucast high) XOR ucast low"
proof (intro bit_word_eqI)
  fix i
  assume "i < LENGTH(16)"
  then show "bit (crc16_word (high, low)) i = bit (push_bit 8 (ucast high) XOR ucast low :: u16) i"
    using bit_imp_le_length [of low i] by (auto simp: crc16_word_def bit_simps)
qed

lemma of_char_u16: "(of_char c :: u16) = ucast (of_char c :: u8)"
proof -
  have "(ucast (of_char c :: u8) :: u16) = of_nat (unat (of_char c :: u8))"
    by simp
  also have "unat (of_char c :: u8) = of_char c"
    by (cases c; simp add: of_char_def)
  also have "(of_nat (of_char c) :: u16) = of_char c"
    by (cases c) (simp add: of_char_def)
  finally show ?thesis ..
qed

lemma crc16_step_bits: "crc16_word (crc16_step c s) = crc_byte (crc16_word s) c"
proof -
  obtain high low where s: "s = (high, low)" by (cases s)
  have "crc16_word s XOR of_char c = push_bit 8 (ucast high) XOR ucast (low XOR of_char c)"
    by (simp add: s crc16_word_xor of_char_u16 xor.assoc unsigned_xor_eq)
  then show ?thesis
    by (simp only: s crc16_step_def Let_def prod.case crc_byte_def crc_bits_xor crc_bits_high [OF order_refl] crc_bits_low
        crc16_word_xor) (simp only: unsigned_xor_eq ac_simps)
qed

lemma crc16_fold: "crc16_word (foldl (\<lambda>s c. crc16_step c s) s xs) = Crc16Ex xs (crc16_word s)"
  by (induction xs arbitrary: s) (simp_all add: crc16_step_bits)

text \<open>
  C21. The checksum with the table is the one that is computed bit by bit, of as many bytes as the
  length says modulo 65536.
\<close>

theorem crc16_table_is_bitwise:
  "Crc16_Calc data dataBytes = Crc16_Crc16Ex data (dataBytes mod 65536) 0xFFFF"
proof -
  have "crc16_word (0xFF, 0xFF) = 0xFFFF"
    by code_simp
  then show ?thesis
    by (simp add: Crc16_Calc_def crc16_def Crc16_Crc16Ex_def crc16_fold map_conv_bind_option o_def unat_eq_nat_uint
        uint_word_of_int)
qed

section \<open>Packets\<close>

lemma byte_char_of: "w < 256 \<Longrightarrow> (of_char (byte_char w) :: u16) = w"
proof -
  assume "w < 256"
  then have "unat w < 256"
    by (simp add: word_less_nat_alt)
  then have "(of_char (byte_char w) :: nat) = unat w"
    by (simp add: byte_char_def)
  then have "(of_nat (of_char (byte_char w)) :: u16) = w"
    by (metis of_nat_unat ucast_id)
  also have "(of_nat (of_char (byte_char w)) :: u16) = of_char (byte_char w)"
    by (cases "byte_char w") (simp add: of_char_def)
  finally show "(of_char (byte_char w) :: u16) = w" .
qed

lemma byte_below: "(w :: u16) AND 0xFF < 256"
  using word_and_le1 [of w 255] by (simp add: word_le_nat_alt word_less_nat_alt)

lemma bytes_of_word:
  assumes "v AND 0xFF = (w :: u16) AND 0xFF" "drop_bit 8 v AND 0xFF = drop_bit 8 w AND 0xFF"
  shows "v = w"
proof (intro bit_word_eqI)
  fix i
  assume i: "i < LENGTH(16)"
  have m: "(0xFF :: u16) = mask 8"
    by (simp add: mask_eq_exp_minus_1)
  have "bit (v AND 0xFF) i = bit (w AND 0xFF) i" "bit (drop_bit 8 v AND 0xFF) (i - 8) = bit (drop_bit 8 w AND 0xFF) (i - 8)"
    using assms by simp_all
  then show "bit v i = bit w i"
    unfolding m using i by (cases "i < 8") (auto simp: bit_simps)
qed

text \<open>The two bytes behind the data are its checksum.\<close>

definition crc_matches :: "memory \<Rightarrow> nat \<Rightarrow> bool" where
  "crc_matches e n \<longleftrightarrow> of_char (e ! n) = Crc16Ex (take n e) 0xFFFF AND 0xFF \<and>
     of_char (e ! (n + 1)) = drop_bit 8 (Crc16Ex (take n e) 0xFFFF) AND 0xFF"

lemma CrcMatched_packet:
  assumes "2 < bytes" "nat bytes \<le> length e"
  shows "CrcMatched e bytes False = Some (crc_matches e (nat (bytes - 2)))"
proof -
  have "nat (bytes - 1) = nat (bytes - 2) + 1" "nat (bytes - 2) + 2 \<le> length e"
    using assms by auto
  then show ?thesis
    using assms by (simp add: CrcMatched_def Crc16_Crc16Ex_def mem_read_def mem_get_def Let_def crc_matches_def)
qed

lemma FillCrc_packet:
  assumes "2 < bytes" "nat bytes \<le> length d"
  obtains d' where "FillCrc d bytes = Some (0, d')" "length d' = length d" "crc_matches d' (nat (bytes - 2))"
proof -
  define n where "n = nat (bytes - 2)"
  have n: "nat (bytes - 1) = n + 1" "nat (bytes - 2) = n" "n + 2 \<le> length d"
    using assms by (auto simp: n_def)
  define crc where "crc = Crc16Ex (take n d) 0xFFFF"
  define d' where "d' = d[n + 1 := byte_char (drop_bit 8 crc AND 0xFF), n := byte_char (crc AND 0xFF)]"
  have "length d' = length d" "take n d' = take n d" "d' ! n = byte_char (crc AND 0xFF)"
      "d' ! (n + 1) = byte_char (drop_bit 8 crc AND 0xFF)"
    using n by (simp_all add: d'_def)
  moreover have "FillCrc d bytes = Some (0, d')"
    using assms n by (simp add: FillCrc_def Crc16_Crc16Ex_def mem_read_def mem_set_def crc_def d'_def)
  ultimately show thesis
    using that [of d'] by (simp add: crc_matches_def n(2) byte_char_of [OF byte_below] flip: crc_def)
qed

lemma crc_matches_change:
  assumes m: "crc_matches e n" and i: "n + 2 \<le> length e" "i < n + 2" "c \<noteq> e ! i"
  shows "\<not> crc_matches (e[i := c]) n"
proof (cases "i < n")
  case True
  let ?p = "take i (take n e)" and ?s = "drop (Suc i) (take n e)"
  have "take n (e[i := c]) = (take n e)[i := c]"
    by (simp add: take_update_swap)
  also have "\<dots> = ?p @ c # ?s"
    by (rule upd_conv_take_nth_drop) (use True i(1) in simp)
  finally have "take n (e[i := c]) = ?p @ c # ?s" .
  moreover have "take n e = ?p @ e ! i # ?s"
    using True i(1) id_take_nth_drop [of i "take n e"] by simp
  ultimately have "Crc16Ex (take n (e[i := c])) 0xFFFF \<noteq> Crc16Ex (take n e) 0xFFFF"
    using i(3) Crc16Ex_single_byte by metis
  then show ?thesis
    using m True bytes_of_word unfolding crc_matches_def by (metis nth_list_update_neq less_irrefl not_add_less1)
next
  case False
  then have "i = n \<or> i = n + 1"
    using i(2) by linarith
  then show ?thesis
    using m i of_char_u16_inj [of c "e ! i"] by (auto simp: crc_matches_def)
qed

text \<open>
  C22. A packet whose checksum was filled in is accepted, and refused when any one of its bytes is
  changed.
\<close>

theorem crc16_fill_matched:
  assumes "2 < bytes" "nat bytes \<le> length d"
  shows "\<exists>d'. FillCrc d bytes = Some (0, d') \<and> CrcMatched d' bytes False = Some True \<and>
    (\<forall>i < nat bytes. \<forall>c. c \<noteq> d' ! i \<longrightarrow> CrcMatched (d'[i := c]) bytes False = Some False)"
proof -
  obtain d' where d': "FillCrc d bytes = Some (0, d')" "length d' = length d" "crc_matches d' (nat (bytes - 2))"
    by (rule FillCrc_packet [OF assms])
  have "nat (bytes - 2) + 2 = nat bytes"
    using assms(1) by simp
  then have "\<not> crc_matches (d'[i := c]) (nat (bytes - 2))" if "i < nat bytes" "c \<noteq> d' ! i" for i c
    using crc_matches_change [OF d'(3)] that d'(2) assms(2) by simp
  then show ?thesis
    using d' assms CrcMatched_packet [OF assms(1)] by simp
qed

lemma crc16_fill_matched_witness:
  "\<exists>d'. FillCrc ''abcdXY'' 6 = Some (0, d') \<and> CrcMatched d' 6 False = Some True \<and>
    CrcMatched (d'[2 := CHR ''x'']) 6 False = Some False"
proof -
  have fill: "FillCrc ''abcdXY'' 6 = Some (0, ''abcd'' @ [CHR 0x97, CHR 0x1D])"
    by code_simp
  obtain d' where d': "FillCrc ''abcdXY'' 6 = Some (0, d')" "CrcMatched d' 6 False = Some True"
      "\<forall>i < nat 6. \<forall>c. c \<noteq> d' ! i \<longrightarrow> CrcMatched (d'[i := c]) 6 False = Some False"
    using crc16_fill_matched [of 6 "''abcdXY''"] by auto
  have "d' ! 2 = CHR ''c''"
    using d'(1) unfolding fill by auto
  then show ?thesis
    using d' by auto
qed

end
