(* ===== verification/CryptBase64.thy ===== *)
theory CryptBase64
  imports CoreText CoreBufferOps
begin

text \<open>
  Base64 (\<^verbatim>\<open>src/projects/libcrypt/src/base64ex.cpp\<close>): two encoders and a decoder on arrays, and the
  functions on strings and byte buffers over them.
\<close>

section \<open>Encoding\<close>

definition base64_code :: string where
  "base64_code = ''ABCDEFGHIJKLMNOPQRSTUVWXYZabcdefghijklmnopqrstuvwxyz0123456789+/''"

definition base64_char :: "u32 \<Rightarrow> char" where
  "base64_char w = base64_code ! unat (w AND 0x3F)"

text \<open>
  The loop of \<^verbatim>\<open>base64_encode_EX\<close>: what is written so far (\<^verbatim>\<open>i\<close> is its length), \<^verbatim>\<open>n\<close>, \<^verbatim>\<open>bits\<close>, \<^verbatim>\<open>c\<close>.
\<close>

type_synonym encode_state = "string \<times> nat \<times> u32 \<times> int"

definition encode_char :: "int \<Rightarrow> int \<Rightarrow> char \<Rightarrow> encode_state \<Rightarrow> encode_state" where
  "encode_char dest_size columns ch s =
     (let (out, n, bits, c) = s;
          bits = bits + of_char ch;
          n = n + 1
      in if n = 3 then
           (let out = out @ [base64_char (drop_bit 18 bits), base64_char (drop_bit 12 bits),
                             base64_char (drop_bit 6 bits), base64_char bits]
            in if columns > 0 then
                 (let c = c + 4
                  in if c \<ge> columns \<and> int (length out) < dest_size
                     then (out @ [LF], 0, 0, 0) else (out, 0, 0, c))
               else (out, 0, 0, c))
         else (out, n, push_bit 8 bits, c))"

fun encode_loop ::
  "memory \<Rightarrow> int \<Rightarrow> int \<Rightarrow> int \<Rightarrow> encode_state \<Rightarrow> encode_state option" where
  "encode_loop [] src_size dest_size columns s =
     (if src_size \<noteq> 0 \<and> int (length (fst s)) + 4 \<le> dest_size then None else Some s)"
| "encode_loop (ch # src) src_size dest_size columns s =
     (if src_size \<noteq> 0 \<and> int (length (fst s)) + 4 \<le> dest_size
      then encode_loop src (src_size - 1) dest_size columns (encode_char dest_size columns ch s)
      else Some s)"

definition encode_rest :: "int \<Rightarrow> int \<Rightarrow> encode_state \<Rightarrow> string" where
  "encode_rest dest_size columns s =
     (let (out, n, bits, c) = s;
          out = (if n \<noteq> 0 \<and> int (length out) + 4 \<le> dest_size then
                   (if n = 1 then out @ [base64_char (drop_bit 10 bits), base64_char (drop_bit 4 bits)] @ ''==''
                    else out @ [base64_char (drop_bit 18 bits), base64_char (drop_bit 12 bits),
                                base64_char (drop_bit 6 bits)] @ ''='')
                 else out)
      in if columns > 0 \<and> (c \<noteq> 0 \<or> n \<noteq> 0) \<and> int (length out) + 1 < dest_size then out @ [LF] else out)"

text \<open>The bytes that are written, then a NUL if there is room.\<close>

definition write_dest :: "memory \<Rightarrow> int \<Rightarrow> string \<Rightarrow> memory option" where
  "write_dest dest dest_size out = do {
     dest \<leftarrow> memcpy dest 0 out;
     (if int (length out) < dest_size then mem_set dest (length out) NUL else Some dest)
   }"

definition base64_encode_EX ::
  "memory option \<Rightarrow> int \<Rightarrow> memory \<Rightarrow> int \<Rightarrow> int \<Rightarrow> (int \<times> memory) option" where
  "base64_encode_EX src src_size dest dest_size columns =
     (case src of None \<Rightarrow> Some (-1, dest)
      | Some src \<Rightarrow> do {
          s \<leftarrow> encode_loop src src_size dest_size columns ([], 0, 0, 0);
          let out = encode_rest dest_size columns s;
          dest \<leftarrow> write_dest dest dest_size out;
          Some (int (length out), dest)
        })"

text \<open>The array of \<^verbatim>\<open>new BYTE[cbBuf]\<close>, filled with zeros.\<close>

definition base64_buffer_size :: "string \<Rightarrow> int option" where
  "base64_buffer_size szText = map_option (max 100) (c_int (int (length szText) * 3))"

definition Base64_Encode :: "string \<Rightarrow> string option" where
  "Base64_Encode szText =
     (if szText = [] then Some []
      else do {
        cbBuf \<leftarrow> base64_buffer_size szText;
        (ret, pBuf) \<leftarrow> base64_encode_EX (Some szText) (int (length szText)) (replicate (nat cbBuf) NUL) (cbBuf - 1) 0;
        (if ret \<noteq> -1 then c_str pBuf 0 else Some [])
      })"

text \<open>The other encoder works on whole groups.\<close>

definition encode_group :: "u32 \<Rightarrow> u32 \<Rightarrow> u32 \<Rightarrow> string" where
  "encode_group x y z =
     [base64_char (drop_bit 2 x), base64_char (push_bit 4 (x AND 3) OR drop_bit 4 y),
      base64_char (push_bit 2 y OR drop_bit 6 z), base64_char z]"

definition group_at :: "memory \<Rightarrow> nat \<Rightarrow> string option" where
  "group_at orig i = do {
     x \<leftarrow> mem_get orig (3 * i);
     y \<leftarrow> mem_get orig (3 * i + 1);
     z \<leftarrow> mem_get orig (3 * i + 2);
     Some (encode_group (of_char x) (of_char y) (of_char z))
   }"

primrec encode_groups :: "memory \<Rightarrow> nat \<Rightarrow> string option" where
  "encode_groups orig 0 = Some []"
| "encode_groups orig (Suc i) = do {
     out \<leftarrow> encode_groups orig i;
     g \<leftarrow> group_at orig i;
     Some (out @ g)
   }"

definition encode_padding :: "memory \<Rightarrow> nat \<Rightarrow> bool \<Rightarrow> string option" where
  "encode_padding orig i havePadding2 = do {
     x \<leftarrow> map_option of_char (mem_get orig (3 * i));
     (if havePadding2 then do {
        y \<leftarrow> map_option of_char (mem_get orig (3 * i + 1));
        Some ([base64_char (drop_bit 2 x), base64_char (push_bit 4 (x AND 3) OR drop_bit 4 y),
               base64_char (push_bit 2 y)] @ ''='')
      } else Some ([base64_char (drop_bit 2 x), base64_char (push_bit 4 (x AND 3))] @ ''==''))
   }"

definition base64Encode :: "memory option \<Rightarrow> u32 \<Rightarrow> string option option" where
  "base64Encode orig origLength =
     (case orig of None \<Rightarrow> Some None
      | Some orig \<Rightarrow> do {
          let numOrig24BitValues = origLength div 3;
          let havePadding = origLength > numOrig24BitValues * 3;
          let havePadding2 = (origLength = numOrig24BitValues * 3 + 2);
          out \<leftarrow> encode_groups orig (unat numOrig24BitValues);
          pad \<leftarrow> (if havePadding then encode_padding orig (unat numOrig24BitValues) havePadding2 else Some []);
          Some (Some (out @ pad))
        })"

text \<open>\<^verbatim>\<open>Base64::Encode(LPBYTE data, int dataLen)\<close>.\<close>

definition Base64_Encode_data :: "memory option \<Rightarrow> int \<Rightarrow> string option" where
  "Base64_Encode_data data dataLen = do {
     psz \<leftarrow> base64Encode data (word_of_int dataLen);
     Some (case psz of None \<Rightarrow> [] | Some psz \<Rightarrow> c_string psz)
   }"

section \<open>Decoding\<close>

definition base64_6bits :: "int list" where
  "base64_6bits =
    [-2, -3, -3, -3, -3, -3, -3, -3, -3, -1, -1, -1, -1, -1, -3, -3,
     -3, -3, -3, -3, -3, -3, -3, -3, -3, -3, -3, -3, -3, -3, -3, -3,
     -1, -3, -3, -3, -3, -3, -3, -3, -3, -3, -3, 62, -3, -3, -3, 63,
     52, 53, 54, 55, 56, 57, 58, 59, 60, 61, -3, -3, -3, -2, -3, -3,
     -3, 0, 1, 2, 3, 4, 5, 6, 7, 8, 9, 10, 11, 12, 13, 14,
     15, 16, 17, 18, 19, 20, 21, 22, 23, 24, 25, -3, -3, -3, -3, -3,
     -3, 26, 27, 28, 29, 30, 31, 32, 33, 34, 35, 36, 37, 38, 39, 40,
     41, 42, 43, 44, 45, 46, 47, 48, 49, 50, 51, -3, -3, -3, -3, -3,
     -3, -3, -3, -3, -3, -3, -3, -3, -3, -3, -3, -3, -3, -3, -3, -3,
     -3, -3, -3, -3, -3, -3, -3, -3, -3, -3, -3, -3, -3, -3, -3, -3,
     -3, -3, -3, -3, -3, -3, -3, -3, -3, -3, -3, -3, -3, -3, -3, -3,
     -3, -3, -3, -3, -3, -3, -3, -3, -3, -3, -3, -3, -3, -3, -3, -3,
     -3, -3, -3, -3, -3, -3, -3, -3, -3, -3, -3, -3, -3, -3, -3, -3,
     -3, -3, -3, -3, -3, -3, -3, -3, -3, -3, -3, -3, -3, -3, -3, -3,
     -3, -3, -3, -3, -3, -3, -3, -3, -3, -3, -3, -3, -3, -3, -3, -3,
     -3, -3, -3, -3, -3, -3, -3, -3, -3, -3, -3, -3, -3, -3, -3, -3]"

text \<open>
  The loop of \<^verbatim>\<open>base64_decode_EX\<close>: what is written so far, \<^verbatim>\<open>n\<close>, \<^verbatim>\<open>decoded\<close> (below \<open>64 ^ n\<close>). The result is
  \<open>None\<close> where an error is found.
\<close>

type_synonym decode_state = "char list \<times> nat \<times> int"

definition decode_sextet :: "int \<Rightarrow> decode_state \<Rightarrow> decode_state" where
  "decode_sextet bits s =
     (let (out, n, decoded) = s;
          decoded = decoded * 64 + bits;
          n = n + 1
      in if n \<ge> 4 then
           (out @ [char_of (decoded div 2 ^ 16), char_of (decoded div 2 ^ 8), char_of decoded], 0, 0)
         else (out, n, decoded))"

fun decode_loop ::
  "memory \<Rightarrow> int \<Rightarrow> int \<Rightarrow> bool \<Rightarrow> decode_state \<Rightarrow> decode_state option option" where
  "decode_loop [] src_size dest_size ignore_errors s =
     (if src_size \<noteq> 0 \<and> int (length (fst s)) + 3 \<le> dest_size then None else Some (Some s))"
| "decode_loop (ch # src) src_size dest_size ignore_errors s =
     (if src_size \<noteq> 0 \<and> int (length (fst s)) + 3 \<le> dest_size then
        (let bits = base64_6bits ! of_char ch
         in if bits < 0 then
              (if bits = -2 then Some (Some s)
               else if bits = -3 \<and> \<not> ignore_errors then Some None
               else decode_loop src (src_size - 1) dest_size ignore_errors s)
            else decode_loop src (src_size - 1) dest_size ignore_errors (decode_sextet bits s))
      else Some (Some s))"

definition decode_rest :: "int \<Rightarrow> decode_state \<Rightarrow> char list" where
  "decode_rest dest_size s =
     (let (out, n, decoded) = s
      in if n = 3 \<and> int (length out) + 2 \<le> dest_size
         then out @ [char_of (decoded div 2 ^ 10), char_of (decoded div 2 ^ 2)]
         else if n = 2 \<and> int (length out) + 1 \<le> dest_size
         then out @ [char_of (decoded div 2 ^ 4)]
         else out)"

definition base64_decode_EX ::
  "memory option \<Rightarrow> int \<Rightarrow> memory \<Rightarrow> int \<Rightarrow> bool \<Rightarrow> (int \<times> memory) option" where
  "base64_decode_EX src_b64 src_size dest dest_size ignore_errors =
     (case src_b64 of None \<Rightarrow> Some (-1, dest)
      | Some src \<Rightarrow> do {
          s \<leftarrow> decode_loop src src_size dest_size ignore_errors ([], 0, 0);
          (case s of None \<Rightarrow> Some (-1, dest)
           | Some s \<Rightarrow> do {
               let out = decode_rest dest_size s;
               dest \<leftarrow> write_dest dest dest_size out;
               Some (int (length out), dest)
             })
        })"

definition Base64_Decode_text :: "string \<Rightarrow> string option" where
  "Base64_Decode_text szText =
     (if szText = [] then Some []
      else do {
        cbBuf \<leftarrow> base64_buffer_size szText;
        (ret, pBuf) \<leftarrow> base64_decode_EX (Some szText) (int (length szText)) (replicate (nat cbBuf) NUL) (cbBuf - 1) False;
        (if ret \<noteq> -1 then c_str pBuf 0 else Some [])
      })"

text \<open>
  \<^verbatim>\<open>Base64::Decode(string, char*, int, int&)\<close>: the bytes are copied to the front of the array \<open>buf\<close>.
\<close>

definition Base64_Decode_array :: "string \<Rightarrow> memory \<Rightarrow> int \<Rightarrow> (bool \<times> int \<times> memory) option" where
  "Base64_Decode_array szText buf buflen =
     (if szText = [] then Some (False, 0, buf)
      else do {
        cbBuf \<leftarrow> base64_buffer_size szText;
        (ret, pBuf) \<leftarrow> base64_decode_EX (Some szText) (int (length szText)) (replicate (nat cbBuf) NUL) (cbBuf - 1) False;
        (if ret \<noteq> -1 \<and> ret \<le> buflen then do {
           xs \<leftarrow> mem_read pBuf 0 (nat ret);
           buf \<leftarrow> memcpy buf 0 xs;
           Some (True, ret, buf)
         } else Some (False, 0, buf))
      })"

definition Base64_Decode_box ::
  "(nat \<Rightarrow> char) \<Rightarrow> string \<Rightarrow> CoreBuffer \<Rightarrow> (int \<times> CoreBuffer) option" where
  "Base64_Decode_box junk szText box = do {
     cbBuf \<leftarrow> base64_buffer_size szText;
     (_, boxTmp) \<leftarrow> PrepareBuf junk (word_of_int cbBuf) False new_buffer;
     buf \<leftarrow> m_pBuf boxTmp;
     (ok, outLen, buf) \<leftarrow> Base64_Decode_array szText buf (GetTailFreeSize boxTmp - 1);
     (if ok \<and> outLen > 0 then do {
        (_, box) \<leftarrow> CoreBuffer_Write junk (Some buf) outLen box;
        (_, box) \<leftarrow> MakeSureEndWithNull junk box;
        Some (0, box)
      } else Some (-1, box))
   }"

end
