(* ===== verification/CryptTea.thy ===== *)
theory CryptTea
  imports CryptBase64
begin

text \<open>
  The cipher TEA (\<^verbatim>\<open>src/projects/libcrypt/src/tea.cpp\<close>) on blocks, arrays, byte buffers and, through
  Base64, on strings; the user list of the HTTP server keeps its passwords this way.

  \<^verbatim>\<open>ULONG\<close> is \<^verbatim>\<open>unsigned long\<close>: 32 bits on Windows and on 32-bit systems, 64 bits on other 64-bit
  systems. Its width is the type variable of \<^typ>\<open>'w word\<close>; the bytes of a word are in the order of
  a little-endian machine.
\<close>

section \<open>Words in arrays\<close>

fun le_word :: "char list \<Rightarrow> 'w::len word" where
  "le_word [] = 0"
| "le_word (c # cs) = of_char c OR push_bit 8 (le_word cs)"

fun le_bytes :: "nat \<Rightarrow> 'w::len word \<Rightarrow> char list" where
  "le_bytes 0 w = []"
| "le_bytes (Suc n) w = char_of (unat w) # le_bytes n (drop_bit 8 w)"

definition ulong_size :: "'w::len itself \<Rightarrow> nat" where
  "ulong_size ULONG = LENGTH('w) div 8"

definition load_ulong :: "memory \<Rightarrow> nat \<Rightarrow> 'w::len word option" where
  "load_ulong m i = map_option le_word (mem_read m i (ulong_size TYPE('w)))"

definition store_ulong :: "memory \<Rightarrow> nat \<Rightarrow> 'w::len word \<Rightarrow> memory option" where
  "store_ulong m i w = memcpy m i (le_bytes (ulong_size TYPE('w)) w)"

section \<open>The cipher\<close>

record tea =
  m_key :: memory
  m_round :: int

definition Tea :: "int \<Rightarrow> tea" where
  "Tea round = \<lparr>m_key = replicate 16 NUL, m_round = round\<rparr>"

definition Tea_SetPassword :: "string \<Rightarrow> tea \<Rightarrow> tea" where
  "Tea_SetPassword pszPassword t =
     (let s = take 15 (c_string pszPassword) in t\<lparr>m_key := s @ replicate (16 - length s) NUL\<rparr>)"

type_synonym 'w tea_keys = "'w word \<times> 'w word \<times> 'w word \<times> 'w word"

definition tea_keys :: "tea \<Rightarrow> 'w::len tea_keys option" where
  "tea_keys t = do {
     let n = ulong_size TYPE('w);
     a \<leftarrow> load_ulong (m_key t) 0;
     b \<leftarrow> load_ulong (m_key t) n;
     c \<leftarrow> load_ulong (m_key t) (2 * n);
     d \<leftarrow> load_ulong (m_key t) (3 * n);
     Some (a, b, c, d)
   }"

definition tea_delta :: "'w::len word" where
  "tea_delta = 0x12345678 + 0x8C032341"

definition tea_mix :: "'w::len word \<Rightarrow> 'w word \<Rightarrow> 'w word \<Rightarrow> 'w word \<Rightarrow> 'w word" where
  "tea_mix z sum0 a b = (push_bit 4 z + a) XOR (z + sum0) XOR (drop_bit 5 z + b)"

fun encrypt_rounds :: "nat \<Rightarrow> 'w::len tea_keys \<Rightarrow> 'w word \<Rightarrow> 'w word \<Rightarrow> 'w word \<Rightarrow> 'w word \<times> 'w word" where
  "encrypt_rounds 0 k sum0 y z = (y, z)"
| "encrypt_rounds (Suc round) (a, b, c, d) sum0 y z =
     (let sum0 = sum0 + tea_delta;
          y = y + tea_mix z sum0 a b;
          z = z + tea_mix y sum0 c d
      in encrypt_rounds round (a, b, c, d) sum0 y z)"

fun decrypt_rounds :: "nat \<Rightarrow> 'w::len tea_keys \<Rightarrow> 'w word \<Rightarrow> 'w word \<Rightarrow> 'w word \<Rightarrow> 'w word \<times> 'w word" where
  "decrypt_rounds 0 k sum0 y z = (y, z)"
| "decrypt_rounds (Suc round) (a, b, c, d) sum0 y z =
     (let z = z - tea_mix y sum0 c d;
          y = y - tea_mix z sum0 a b
      in decrypt_rounds round (a, b, c, d) (sum0 - tea_delta) y z)"

definition decrypt_sum :: "int \<Rightarrow> 'w::len word" where
  "decrypt_sum round =
     (if round = 32 then 0x56789abc + 0x70769C64
      else if round = 16 then 0xabcdabcd + 0x37A9EFC3
      else tea_delta * word_of_int round)"

text \<open>
  With a negative number of rounds the counter runs down until it overflows, which is undefined.
  The type argument stands for \<^verbatim>\<open>ULONG\<close>.
\<close>

definition tea_Encrypt :: "'w::len itself \<Rightarrow> tea \<Rightarrow> memory \<Rightarrow> nat \<Rightarrow> memory \<Rightarrow> nat \<Rightarrow> memory option" where
  "tea_Encrypt ULONG t src i dst j = do {
     let n = ulong_size ULONG;
     k \<leftarrow> tea_keys t;
     y \<leftarrow> load_ulong src i;
     z \<leftarrow> load_ulong src (i + n);
     round \<leftarrow> c_size (m_round t);
     let (y, z) = encrypt_rounds round (k :: 'w tea_keys) 0 y z;
     dst \<leftarrow> store_ulong dst j y;
     store_ulong dst (j + n) z
   }"

definition tea_Decrypt :: "'w::len itself \<Rightarrow> tea \<Rightarrow> memory \<Rightarrow> nat \<Rightarrow> memory \<Rightarrow> nat \<Rightarrow> memory option" where
  "tea_Decrypt ULONG t src i dst j = do {
     let n = ulong_size ULONG;
     k \<leftarrow> tea_keys t;
     y \<leftarrow> load_ulong src i;
     z \<leftarrow> load_ulong src (i + n);
     round \<leftarrow> c_size (m_round t);
     let (y, z) = decrypt_rounds round (k :: 'w tea_keys) (decrypt_sum (m_round t)) y z;
     dst \<leftarrow> store_ulong dst j y;
     store_ulong dst (j + n) z
   }"

section \<open>Arrays\<close>

definition tea_GetEncodeLength :: "int \<Rightarrow> int option" where
  "tea_GetEncodeLength cbData =
     (if cbData \<le> 0 then Some 0 else do { n \<leftarrow> c_int (cbData + 8); Some (n div 8 * 8) })"

text \<open>The loop over whole blocks, for both directions: where it has come to, and what is left.\<close>

function tea_blocks ::
  "(memory \<Rightarrow> nat \<Rightarrow> memory \<Rightarrow> nat \<Rightarrow> memory option) \<Rightarrow> memory \<Rightarrow> nat \<Rightarrow> memory \<Rightarrow> nat \<Rightarrow> nat \<Rightarrow>
   (nat \<times> memory \<times> nat \<times> nat) option" where
  "tea_blocks crypt src psrc dst pdst left =
     (if left \<ge> 8 then do {
        dst \<leftarrow> crypt src psrc dst pdst;
        tea_blocks crypt src (psrc + 8) dst (pdst + 8) (left - 8)
      } else Some (psrc, dst, pdst, left))"
  by pat_completeness auto
termination by (relation "measure (\<lambda>(_, _, _, _, _, left). left)") auto

declare tea_blocks.simps [simp del]

text \<open>The bytes of the padding that are not set have any value.\<close>

definition tea_padding :: "(nat \<Rightarrow> char) \<Rightarrow> memory \<Rightarrow> nat \<Rightarrow> nat \<Rightarrow> memory option" where
  "tea_padding junk src psrc left = do {
     xs \<leftarrow> mem_read src psrc left;
     padding \<leftarrow> memcpy (new_bytes junk 8) 0 xs;
     mem_set padding 7 (char_of (8 - left))
   }"

definition tea_Encode ::
  "'w::len itself \<Rightarrow> (nat \<Rightarrow> char) \<Rightarrow> tea \<Rightarrow> memory \<Rightarrow> nat \<Rightarrow> int \<Rightarrow> memory \<Rightarrow> nat \<Rightarrow> int \<Rightarrow> (int \<times> memory) option" where
  "tea_Encode ULONG junk t src pData cbData dst pEnc cbEnc =
     (if cbData \<le> 0 then Some (0, dst)
      else do {
        n \<leftarrow> tea_GetEncodeLength cbData;
        (if cbEnc < n then Some (0, dst)
         else do {
           (psrc, dst, pdst, left) \<leftarrow> tea_blocks (tea_Encrypt ULONG t) src pData dst pEnc (nat cbData);
           padding \<leftarrow> tea_padding junk src psrc left;
           dst \<leftarrow> tea_Encrypt ULONG t padding 0 dst pdst;
           Some (int (pdst - pEnc) + 8, dst)
         })
      })"

definition tea_Decode ::
  "'w::len itself \<Rightarrow> tea \<Rightarrow> memory \<Rightarrow> nat \<Rightarrow> int \<Rightarrow> memory \<Rightarrow> nat \<Rightarrow> int \<Rightarrow> (int \<times> memory) option" where
  "tea_Decode ULONG t src pEnc cbEnc dst pData cbData =
     (if cbData < cbEnc \<or> cbEnc \<le> 0 \<or> cbEnc mod 8 \<noteq> 0 then Some (0, dst)
      else do {
        (_, dst, pdst, _) \<leftarrow> tea_blocks (tea_Decrypt ULONG t) src pEnc dst pData (nat cbEnc);
        c \<leftarrow> mem_get dst (pdst - 1);
        Some (int (pdst - pData) - of_char c, dst)
      })"

section \<open>Buffers and strings\<close>

text \<open>\<^verbatim>\<open>GetDataPointer\<close>, \<^verbatim>\<open>GetNewDataPointer\<close>: an array and a place; without an array nothing can be accessed.\<close>

definition buffer_array :: "CoreBuffer \<Rightarrow> memory" where
  "buffer_array b = (case m_pBuf b of None \<Rightarrow> [] | Some buf \<Rightarrow> buf)"

definition set_array :: "memory \<Rightarrow> CoreBuffer \<Rightarrow> CoreBuffer" where
  "set_array xs b = b\<lparr>m_pBuf := map_option (\<lambda>_. xs) (m_pBuf b)\<rparr>"

definition Tea_Encode_box ::
  "'w::len itself \<Rightarrow> (nat \<Rightarrow> char) \<Rightarrow> tea \<Rightarrow> CoreBuffer \<Rightarrow> CoreBuffer \<Rightarrow> CoreBuffer option" where
  "Tea_Encode_box ULONG junk t inbox outbox = do {
     let outbox = CoreBuffer_clear outbox;
     pData \<leftarrow> c_size (m_nDataOff inbox);
     let cbData = m_nData inbox;
     cbLen \<leftarrow> tea_GetEncodeLength cbData;
     (_, outbox) \<leftarrow> PrepareBuf junk (word_of_int cbLen) False outbox;
     pEnc \<leftarrow> c_size (m_nDataOff outbox + m_nData outbox);
     (_, dst) \<leftarrow> tea_Encode ULONG junk t (buffer_array inbox) pData cbData (buffer_array outbox) pEnc cbLen;
     map_option snd (WriteDirect cbLen (set_array dst outbox))
   }"

definition Tea_Decode_box ::
  "'w::len itself \<Rightarrow> (nat \<Rightarrow> char) \<Rightarrow> tea \<Rightarrow> CoreBuffer \<Rightarrow> CoreBuffer \<Rightarrow> CoreBuffer option" where
  "Tea_Decode_box ULONG junk t inbox outbox = do {
     let outbox = CoreBuffer_clear outbox;
     pEnc \<leftarrow> c_size (m_nDataOff inbox);
     let cbData = m_nData inbox;
     (_, outbox) \<leftarrow> PrepareBuf junk (word_of_int cbData) False outbox;
     pData \<leftarrow> c_size (m_nDataOff outbox + m_nData outbox);
     (ret, dst) \<leftarrow> tea_Decode ULONG t (buffer_array inbox) pEnc cbData (buffer_array outbox) pData cbData;
     map_option snd (WriteDirect ret (set_array dst outbox))
   }"

text \<open>\<^verbatim>\<open>ByteBuffer::Write(const std::string&)\<close>.\<close>

definition write_std_string :: "(nat \<Rightarrow> char) \<Rightarrow> string \<Rightarrow> CoreBuffer \<Rightarrow> CoreBuffer option" where
  "write_std_string junk str b = do {
     (_, b) \<leftarrow> CoreBuffer_Write junk (Some str) (int (length str)) b;
     map_option snd (MakeSureEndWithNull junk b)
   }"

definition data_pointer :: "CoreBuffer \<Rightarrow> memory option option" where
  "data_pointer b =
     (case m_pBuf b of None \<Rightarrow> Some None
      | Some buf \<Rightarrow> do { off \<leftarrow> c_size (m_nDataOff b); Some (Some (drop off buf)) })"

definition EncodeTextWithBase64 :: "'w::len itself \<Rightarrow> (nat \<Rightarrow> char) \<Rightarrow> tea \<Rightarrow> string \<Rightarrow> string option" where
  "EncodeTextWithBase64 ULONG junk t plainText = do {
     inbox \<leftarrow> write_std_string junk plainText new_buffer;
     outbox \<leftarrow> Tea_Encode_box ULONG junk t inbox new_buffer;
     p \<leftarrow> data_pointer outbox;
     Base64_Encode_data p (m_nData outbox)
   }"

text \<open>A string made from a null pointer is undefined.\<close>

definition DecodeTextWithBase64 :: "'w::len itself \<Rightarrow> (nat \<Rightarrow> char) \<Rightarrow> tea \<Rightarrow> string \<Rightarrow> string option" where
  "DecodeTextWithBase64 ULONG junk t cryptText = do {
     (_, box) \<leftarrow> Base64_Decode_box junk cryptText new_buffer;
     outbox \<leftarrow> Tea_Decode_box ULONG junk t box new_buffer;
     (_, outbox) \<leftarrow> MakeSureEndWithNull junk outbox;
     p \<leftarrow> data_pointer outbox;
     buf \<leftarrow> p;
     c_str buf 0
   }"

end
