(* ===== verification/CryptTeaOk.thy ===== *)
theory CryptTeaOk
  imports CryptTea
begin

text \<open>
  The cipher is undone where \<^verbatim>\<open>ULONG\<close> has 32 bits, on words, blocks and arrays.
\<close>

section \<open>Words and bytes\<close>

lemma of_char_word: "(of_char c :: 'w::len word) = of_nat (of_char c)"
  by (cases c) (simp add: of_char_def)

lemma of_char_low: "(of_char (char_of (unat w)) :: 'w::len word) = take_bit 8 w"
proof -
  have "(of_char (char_of (unat w)) :: 'w word) = of_nat (take_bit 8 (unat w))"
    by (simp add: of_char_word take_bit_nat_def)
  also have "\<dots> = take_bit 8 w"
    by (simp add: unsigned_take_bit_eq [symmetric])
  finally show ?thesis .
qed

lemma of_char_nat: "take_bit 8 (of_char c :: nat) = of_char c"
proof -
  have "(of_char c :: nat) < 2 ^ 8"
    by (cases c; simp add: of_char_def)
  then show ?thesis
    by (rule take_bit_nat_eq_self)
qed

lemma of_char_take: "take_bit 8 (of_char c :: 'w::len word) = of_char c"
  by (simp only: of_char_word take_bit_of_nat of_char_nat)

lemma of_char_bit: "bit (of_char c :: 'w::len word) n \<Longrightarrow> n < 8"
  by (metis bit_take_bit_iff of_char_take)

lemma le_word_bit: "bit (le_word bs :: 'w::len word) n \<Longrightarrow> n < 8 * length bs"
proof (induction bs arbitrary: n)
  case (Cons c bs)
  then have "n < 8 \<or> 8 \<le> n \<and> bit (le_word bs :: 'w word) (n - 8)"
    by (auto simp: bit_simps dest: of_char_bit)
  then show ?case
    using Cons.IH [of "n - 8"] by auto
qed simp

lemma le_bytes_length [simp]: "length (le_bytes n w) = n"
  by (induction n arbitrary: w) auto

lemma le_word_bytes: "le_word (le_bytes n w) = take_bit (8 * n) w"
proof (induction n arbitrary: w)
  case (Suc n)
  show ?case
    by (intro bit_word_eqI) (auto simp: Suc.IH of_char_low bit_simps)
qed simp

lemma le_bytes_word: "8 * length bs \<le> LENGTH('w::len) \<Longrightarrow> le_bytes (length bs) (le_word bs :: 'w word) = bs"
proof (induction bs)
  case (Cons c bs)
  let ?w = "le_word bs :: 'w word"
  have "drop_bit 8 (of_char c OR push_bit 8 ?w) = ?w"
    using Cons.prems by (intro bit_word_eqI) (auto simp: bit_simps dest: of_char_bit le_word_bit)
  moreover have "char_of (unat (of_char c OR push_bit 8 ?w)) = c"
  proof -
    have "take_bit 8 (of_char c OR push_bit 8 ?w) = take_bit 8 (of_char c)"
      by (intro bit_word_eqI) (auto simp: bit_simps)
    then have "take_bit 8 (unat (of_char c OR push_bit 8 ?w)) = unat (of_char c :: 'w word)"
      by (simp only: of_char_take flip: unsigned_take_bit_eq)
    also have "\<dots> = take_bit LENGTH('w) (of_char c)"
      by (simp add: of_char_word unat_of_nat take_bit_nat_def)
    also have "\<dots> = of_char c"
      using Cons.prems of_char_nat [of c] by (metis take_bit_take_bit min.absorb2 min.commute length_Cons mult_le_mono2
          le_trans le_add1 mult_Suc_right)
    finally have "char_of (take_bit 8 (unat (of_char c OR push_bit 8 ?w))) = c"
      by simp
    moreover have "char_of (take_bit 8 (unat (of_char c OR push_bit 8 ?w))) = char_of (unat (of_char c OR push_bit 8 ?w))"
      by (rule char_of_take_bit_eq) simp
    ultimately show ?thesis
      by (simp only:)
  qed
  ultimately show ?case
    using Cons by simp
qed simp

section \<open>Rounds\<close>

lemma encrypt_rounds_end:
  "encrypt_rounds (Suc n) (a, b, c, d) s y z =
    (let (y, z) = encrypt_rounds n (a, b, c, d) s y z;
         s = s + of_nat (Suc n) * tea_delta;
         y = y + tea_mix z s a b;
         z = z + tea_mix y s c d
     in (y, z))"
proof (induction n arbitrary: s y z)
  case (Suc n)
  define y1 z1 where "y1 = y + tea_mix z (s + tea_delta) a b" and "z1 = z + tea_mix y1 (s + tea_delta) c d"
  have step: "encrypt_rounds (Suc m) (a, b, c, d) s y z = encrypt_rounds m (a, b, c, d) (s + tea_delta) y1 z1" for m
    by (simp add: y1_def z1_def Let_def)
  have "s + tea_delta + of_nat (Suc n) * tea_delta = s + of_nat (Suc (Suc n)) * tea_delta"
    by (simp add: algebra_simps)
  then show ?case
    unfolding step [of "Suc n"] Suc.IH [of "s + tea_delta" y1 z1] step [of n] by (simp only:)
qed simp

lemma decrypt_encrypt_rounds:
  "encrypt_rounds n k s y z = (y', z') \<Longrightarrow> decrypt_rounds n k (s + of_nat n * tea_delta) y' z' = (y, z)"
proof (induction n arbitrary: y' z')
  case (Suc n)
  obtain a b c d where k: "k = (a, b, c, d)" by (cases k)
  obtain y1 z1 where e: "encrypt_rounds n (a, b, c, d) s y z = (y1, z1)"
    by (cases "encrypt_rounds n (a, b, c, d) s y z")
  define s' where "s' = s + of_nat (Suc n) * tea_delta"
  have r: "y' = y1 + tea_mix z1 s' a b" "z' = z1 + tea_mix y' s' c d"
    using Suc.prems unfolding k encrypt_rounds_end e s'_def by (auto simp: Let_def)
  have "s' - tea_delta = s + of_nat n * tea_delta"
    by (simp add: s'_def algebra_simps)
  then show ?case
    using Suc.IH [unfolded k, OF e] r unfolding k s'_def [symmetric] by (simp add: Let_def)
qed simp

lemma decrypt_sum_32: "decrypt_sum (int n) = (of_nat n * tea_delta :: u32)"
proof -
  consider "n = 32" | "n = 16" | "n \<noteq> 32 \<and> n \<noteq> 16"
    by blast
  then show ?thesis
    by cases (simp_all add: decrypt_sum_def tea_delta_def mult.commute)
qed

section \<open>Blocks\<close>

definition crypt_block :: "(u32 \<Rightarrow> u32 \<Rightarrow> u32 \<times> u32) \<Rightarrow> char list \<Rightarrow> char list" where
  "crypt_block f bs = (let (y, z) = f (le_word (take 4 bs)) (le_word (drop 4 bs)) in le_bytes 4 y @ le_bytes 4 z)"

lemma crypt_block_length [simp]: "length (crypt_block f bs) = 8"
  by (simp add: crypt_block_def split_def Let_def)

lemma crypt_block_inverse:
  assumes "\<And>y z y' z'. f y z = (y', z') \<Longrightarrow> g y' z' = (y, z)" "length bs = 8"
  shows "crypt_block g (crypt_block f bs) = bs"
proof -
  obtain y z where f: "f (le_word (take 4 bs)) (le_word (drop 4 bs)) = (y, z)"
    by (cases "f (le_word (take 4 bs)) (le_word (drop 4 bs))")
  have w: "le_word (le_bytes 4 w) = w" for w :: u32
    unfolding le_word_bytes by (intro bit_word_eqI) (simp add: bit_simps)
  have "le_bytes 4 (le_word (take 4 bs) :: u32) = take 4 bs" "le_bytes 4 (le_word (drop 4 bs) :: u32) = drop 4 bs"
    using le_bytes_word [of "take 4 bs", where 'w = 32] le_bytes_word [of "drop 4 bs", where 'w = 32] assms(2) by simp_all
  then show ?thesis
    using f assms(1) [OF f] w by (simp add: crypt_block_def)
qed

definition key_words :: "tea \<Rightarrow> 32 tea_keys" where
  "key_words t = (le_word (take 4 (m_key t)), le_word (take 4 (drop 4 (m_key t))),
     le_word (take 4 (drop 8 (m_key t))), le_word (take 4 (drop 12 (m_key t))))"

definition enc_block :: "tea \<Rightarrow> char list \<Rightarrow> char list" where
  "enc_block t = crypt_block (encrypt_rounds (nat (m_round t)) (key_words t) 0)"

definition dec_block :: "tea \<Rightarrow> char list \<Rightarrow> char list" where
  "dec_block t = crypt_block (decrypt_rounds (nat (m_round t)) (key_words t) (decrypt_sum (m_round t)))"

text \<open>An object that can be used: the key has 16 bytes, the rounds are not negative.\<close>

definition tea_ok :: "tea \<Rightarrow> bool" where
  "tea_ok t \<longleftrightarrow> length (m_key t) = 16 \<and> 0 \<le> m_round t"

lemma tea_ok_new: "0 \<le> r \<Longrightarrow> tea_ok (Tea_SetPassword p (Tea r))"
  by (simp add: tea_ok_def Tea_def Tea_SetPassword_def Let_def)

lemma dec_enc_block:
  assumes "tea_ok t" "length bs = 8"
  shows "dec_block t (enc_block t bs) = bs"
proof -
  have "int (nat (m_round t)) = m_round t"
    using assms(1) by (simp add: tea_ok_def)
  then have sum0: "decrypt_sum (m_round t) = (of_nat (nat (m_round t)) * tea_delta :: u32)"
    using decrypt_sum_32 [of "nat (m_round t)"] by (simp only:)
  show ?thesis
    unfolding dec_block_def enc_block_def
  proof (rule crypt_block_inverse [OF _ assms(2)])
    fix y z y' z' :: u32
    assume "encrypt_rounds (nat (m_round t)) (key_words t) 0 y z = (y', z')"
    from decrypt_encrypt_rounds [OF this]
    show "decrypt_rounds (nat (m_round t)) (key_words t) (decrypt_sum (m_round t)) y' z' = (y, z)"
      by (simp only: sum0 add_0)
  qed
qed

lemma tea_keys_32: "tea_ok t \<Longrightarrow> tea_keys t = Some (key_words t)"
  by (simp add: tea_keys_def load_ulong_def ulong_size_def mem_read_def tea_ok_def key_words_def)

lemma memcpy_twice:
  "length xs = n \<Longrightarrow> i + n + length ys \<le> length m \<Longrightarrow> do { m \<leftarrow> memcpy m i xs; memcpy m (i + n) ys } = memcpy m i (xs @ ys)"
  by (auto simp: memcpy_def min_def ac_simps)

lemma tea_Encrypt_32:
  assumes "tea_ok t" "i + 8 \<le> length src" "j + 8 \<le> length dst"
  shows "tea_Encrypt TYPE(32) t src i dst j = memcpy dst j (enc_block t (take 8 (drop i src)))"
proof -
  have "c_size (m_round t) = Some (nat (m_round t))"
    using assms(1) by (simp add: c_size_def tea_ok_def)
  moreover have "take 4 (drop (i + 4) src) = drop 4 (take 8 (drop i src))"
    by (simp add: drop_take add.commute)
  ultimately show ?thesis
    using assms memcpy_twice [of _ 4 j _ dst]
    by (simp add: tea_Encrypt_def tea_keys_32 ulong_size_def load_ulong_def store_ulong_def mem_read_def enc_block_def
        crypt_block_def split_def Let_def)
qed

lemma tea_Decrypt_32:
  assumes "tea_ok t" "i + 8 \<le> length src" "j + 8 \<le> length dst"
  shows "tea_Decrypt TYPE(32) t src i dst j = memcpy dst j (dec_block t (take 8 (drop i src)))"
proof -
  have "c_size (m_round t) = Some (nat (m_round t))"
    using assms(1) by (simp add: c_size_def tea_ok_def)
  moreover have "take 4 (drop (i + 4) src) = drop 4 (take 8 (drop i src))"
    by (simp add: drop_take add.commute)
  ultimately show ?thesis
    using assms memcpy_twice [of _ 4 j _ dst]
    by (simp add: tea_Decrypt_def tea_keys_32 ulong_size_def load_ulong_def store_ulong_def mem_read_def dec_block_def
        crypt_block_def split_def Let_def)
qed

section \<open>Arrays\<close>

fun map_blocks :: "(char list \<Rightarrow> char list) \<Rightarrow> char list \<Rightarrow> char list" where
  "map_blocks f xs = (if length xs < 8 then [] else f (take 8 xs) @ map_blocks f (drop 8 xs))"

declare map_blocks.simps [simp del]

lemma map_blocks_length: "(\<And>bs. length (f bs) = 8) \<Longrightarrow> length (map_blocks f xs) = length xs div 8 * 8"
proof (induction f xs rule: map_blocks.induct)
  case (1 f xs)
  show ?case
  proof (cases "length xs < 8")
    case False
    then have "length xs div 8 = Suc ((length xs - 8) div 8)"
      by (simp add: le_div_geq)
    then show ?thesis
      using 1 False by (simp add: map_blocks.simps [of f xs])
  qed (simp add: map_blocks.simps)
qed

lemma map_blocks_inverse:
  assumes "\<And>bs. length bs = 8 \<Longrightarrow> g (f bs) = bs" "\<And>bs. length (f bs) = 8" "length xs mod 8 = 0"
  shows "map_blocks g (map_blocks f xs) = xs"
  using assms(3)
proof (induction "length xs" arbitrary: xs rule: less_induct)
  case less
  show ?case
  proof (cases "length xs < 8")
    case True
    then show ?thesis
      using less.prems by (simp add: map_blocks.simps)
  next
    case False
    then have "map_blocks g (map_blocks f (drop 8 xs)) = drop 8 xs"
      using less.prems by (intro less.hyps) (auto simp: le_mod_geq)
    moreover have "map_blocks f xs = f (take 8 xs) @ map_blocks f (drop 8 xs)"
      using False by (subst map_blocks.simps) simp
    ultimately show ?thesis
      using False assms(1) [of "take 8 xs"] assms(2) [of "take 8 xs"] by (subst map_blocks.simps) simp
  qed
qed

lemma tea_blocks_spec:
  assumes crypt: "\<And>i dst j. i + 8 \<le> length src \<Longrightarrow> j + 8 \<le> length dst \<Longrightarrow>
      crypt src i dst j = memcpy dst j (f (take 8 (drop i src)))"
    and f: "\<And>bs. length (f bs) = 8"
  shows "i + left \<le> length src \<Longrightarrow> j + left \<le> length dst \<Longrightarrow>
    tea_blocks crypt src i dst j left = Some (i + left div 8 * 8,
      take j dst @ map_blocks f (take left (drop i src)) @ drop (j + left div 8 * 8) dst, j + left div 8 * 8, left mod 8)"
proof (induction left arbitrary: i dst j rule: less_induct)
  case (less left)
  show ?case
  proof (cases "left < 8")
    case True
    then show ?thesis
      using less.prems by (simp add: tea_blocks.simps [of crypt src i] map_blocks.simps)
  next
    case False
    let ?b = "f (take 8 (drop i src))"
    let ?d = "take j dst @ ?b @ drop (j + 8) dst"
    have step: "crypt src i dst j = Some ?d"
      using crypt [of i j dst] less.prems False f by (simp add: memcpy_def)
    have div: "left div 8 = Suc ((left - 8) div 8)" "left mod 8 = (left - 8) mod 8"
      using False by (simp_all add: le_div_geq le_mod_geq)
    have len: "length (take j dst) = j" "length ?b = 8" "length ?d = length dst"
      using less.prems False f by simp_all
    have d: "take (j + 8) ?d = take j dst @ ?b"
      using len by simp
    have r: "drop (j + 8 + (left - 8) div 8 * 8) ?d = drop (j + left div 8 * 8) dst"
      using len div(1) by (simp add: ac_simps)
    have "take left (drop i src) = take 8 (drop i src) @ take (left - 8) (drop (i + 8) src)"
      using False less.prems by (metis add.commute drop_drop le_add_diff_inverse not_less take_add)
    moreover have "length (take 8 (drop i src)) = 8"
      using False less.prems by simp
    ultimately have m: "map_blocks f (take left (drop i src)) = ?b @ map_blocks f (take (left - 8) (drop (i + 8) src))"
      using False less.prems by (subst map_blocks.simps) simp
    have IH: "tea_blocks crypt src (i + 8) ?d (j + 8) (left - 8) = Some (i + 8 + (left - 8) div 8 * 8,
        take (j + 8) ?d @ map_blocks f (take (left - 8) (drop (i + 8) src)) @ drop (j + 8 + (left - 8) div 8 * 8) ?d,
        j + 8 + (left - 8) div 8 * 8, (left - 8) mod 8)"
      using False less.prems len by (intro less.IH) auto
    show ?thesis
      using False step IH unfolding d r m div by (subst tea_blocks.simps) simp
  qed
qed

end
