(* ===== verification/CryptBase64Ok.thy ===== *)
theory CryptBase64Ok
  imports CryptBase64
begin

text \<open>
  What Base64 computes: the two encoders agree, and the decoder undoes them.
\<close>

section \<open>The encoded text\<close>

fun b64 :: "char list \<Rightarrow> string" where
  "b64 [] = []"
| "b64 [x] = [base64_char (drop_bit 2 (of_char x)), base64_char (push_bit 4 (of_char x AND 3))] @ ''==''"
| "b64 [x, y] = [base64_char (drop_bit 2 (of_char x)), base64_char (push_bit 4 (of_char x AND 3) OR drop_bit 4 (of_char y)),
     base64_char (push_bit 2 (of_char y))] @ ''=''"
| "b64 (x # y # z # r) = encode_group (of_char x) (of_char y) (of_char z) @ b64 r"

lemma length_b64: "length (b64 d) = (length d + 2) div 3 * 4"
proof (induction d rule: b64.induct)
  case (4 x y z r)
  have "(length (x # y # z # r) + 2) div 3 = Suc ((length r + 2) div 3)"
    by simp
  then show ?case
    using 4 by (simp add: encode_group_def)
qed simp_all

lemma of_char_bits: "bit (of_char c :: u32) n \<Longrightarrow> n < 8"
proof -
  have "unat (of_char c :: u32) < 2 ^ 8"
    by (cases c) (simp add: of_char_def)
  then have "take_bit 8 (of_char c :: u32) = of_char c"
    by (simp add: word_unat_eq_iff unsigned_take_bit_eq take_bit_nat_eq_self)
  then show "bit (of_char c :: u32) n \<Longrightarrow> n < 8"
    by (metis bit_take_bit_iff)
qed

lemma mask_6: "(0x3F :: u32) = mask 6"
  by (simp add: mask_eq_exp_minus_1)

lemma base64_char_eqI:
  assumes "\<And>n. n < 6 \<Longrightarrow> bit v n = bit w n"
  shows "base64_char v = base64_char w"
proof -
  have "v AND 0x3F = w AND 0x3F"
    unfolding mask_6 using assms by (intro bit_word_eqI) (auto simp: bit_simps)
  then show ?thesis
    by (simp add: base64_char_def)
qed

lemma mask_2: "(3 :: u32) = mask 2"
  by (simp add: mask_eq_exp_minus_1)

text \<open>The bits of one, two and three bytes.\<close>

lemma bits_add:
  "push_bit 8 v + of_char c = push_bit 8 v OR (of_char c :: u32)"
  by (rule disjunctive_add) (auto simp: bit_simps dest: of_char_bits)

lemma group_chars:
  fixes a b c :: char
  defines "x \<equiv> of_char a :: u32" and "y \<equiv> of_char b" and "z \<equiv> of_char c"
  shows "base64_char (drop_bit 18 (push_bit 8 (push_bit 8 x + y) + z)) = base64_char (drop_bit 2 x)"
    "base64_char (drop_bit 12 (push_bit 8 (push_bit 8 x + y) + z)) = base64_char (push_bit 4 (x AND 3) OR drop_bit 4 y)"
    "base64_char (drop_bit 6 (push_bit 8 (push_bit 8 x + y) + z)) = base64_char (push_bit 2 y OR drop_bit 6 z)"
    "base64_char (push_bit 8 (push_bit 8 x + y) + z) = base64_char z"
    "base64_char (drop_bit 18 (push_bit 8 (push_bit 8 x + y))) = base64_char (drop_bit 2 x)"
    "base64_char (drop_bit 12 (push_bit 8 (push_bit 8 x + y))) = base64_char (push_bit 4 (x AND 3) OR drop_bit 4 y)"
    "base64_char (drop_bit 6 (push_bit 8 (push_bit 8 x + y))) = base64_char (push_bit 2 y)"
    "base64_char (drop_bit 10 (push_bit 8 x)) = base64_char (drop_bit 2 x)"
    "base64_char (drop_bit 4 (push_bit 8 x)) = base64_char (push_bit 4 (x AND 3))"
  unfolding x_def y_def z_def bits_add mask_2
  by (rule base64_char_eqI; auto simp: bit_simps dest: of_char_bits)+

section \<open>Encoding\<close>

lemma encode_loop_stop: "encode_loop src 0 ds 0 s = Some s"
  by (cases src) auto

lemma encode_loop_b64:
  assumes "int (length out) + int (length (b64 d)) \<le> ds"
  shows "\<exists>s. encode_loop (d @ e) (int (length d)) ds 0 (out, 0, 0, 0) = Some s \<and> encode_rest ds 0 s = out @ b64 d"
  using assms
proof (induction d arbitrary: out rule: b64.induct)
  case 1
  then show ?case
    by (simp add: encode_loop_stop encode_rest_def)
next
  case (2 x)
  then show ?case
    using group_chars(8,9) [of x] by (simp add: encode_loop_stop encode_rest_def encode_char_def)
next
  case (3 x y)
  then show ?case
    using group_chars(5-7) [of x y] by (simp add: encode_loop_stop encode_rest_def encode_char_def)
next
  case (4 x y z r)
  then show ?case
    using group_chars(1-4) [of x y z] "4.IH" [of "out @ encode_group (of_char x) (of_char y) (of_char z)"]
    by (simp add: encode_char_def encode_group_def split_def)
qed

lemma b64_no_nul: "NUL \<notin> set (b64 d)"
proof -
  have "\<forall>k \<in> set [0..<64]. base64_code ! k \<noteq> NUL"
    by code_simp
  moreover have "unat (w AND 0x3F) < 64" for w :: u32
    using word_and_le1 [of w 63] by (simp add: word_le_nat_alt)
  ultimately have "base64_char w \<noteq> NUL" for w
    by (simp add: base64_char_def)
  then show ?thesis
    by (induction d rule: b64.induct) (auto simp: encode_group_def eq_commute [of NUL])
qed

lemma write_dest_spec:
  assumes "int (length out) < n" "n \<le> int (length dest)"
  shows "write_dest dest n out = Some (out @ NUL # drop (length out + 1) dest)"
proof -
  have "dest = take (length out) dest @ dest ! length out # drop (length out + 1) dest"
    using assms id_take_nth_drop [of "length out" dest] by simp
  then have "drop (length out) dest = dest ! length out # drop (length out + 1) dest"
    using assms by (simp add: Cons_nth_drop_Suc)
  then show ?thesis
    using assms by (simp add: write_dest_def memcpy_def mem_set_def)
qed

lemma base64_encode_EX_spec:
  assumes "int (length (b64 d)) < n" "n \<le> int (length dest)"
  shows "base64_encode_EX (Some d) (int (length d)) dest n 0 =
    Some (int (length (b64 d)), b64 d @ NUL # drop (length (b64 d) + 1) dest)"
proof -
  obtain s where "encode_loop d (int (length d)) n 0 ([], 0, 0, 0) = Some s" "encode_rest n 0 s = b64 d"
    using encode_loop_b64 [of "[]" d n "[]"] assms(1) by auto
  then show ?thesis
    using write_dest_spec [OF assms] by (simp add: base64_encode_EX_def Let_def)
qed

lemma c_str_front: "NUL \<notin> set s \<Longrightarrow> c_str (s @ NUL # r) 0 = Some s"
  by (induction s) (auto simp: c_str_def)

lemma buffer_size_room:
  assumes "int (length s) * 3 < 2 ^ 31"
  obtains n where "base64_buffer_size s = Some n" "n = max 100 (int (length s) * 3)"
  using assms by (simp add: base64_buffer_size_def c_int_def)

lemma Base64_Encode_b64:
  assumes "int (length d) * 3 < 2 ^ 31"
  shows "Base64_Encode d = Some (b64 d)"
proof (cases "d = []")
  case False
  obtain n where n: "base64_buffer_size d = Some n" "n = max 100 (int (length d) * 3)"
    by (rule buffer_size_room [OF assms])
  have "int (length (b64 d)) < n - 1"
    using False unfolding length_b64 n(2) by (cases d) auto
  then show ?thesis
    using False n base64_encode_EX_spec [of d "n - 1" "replicate (nat n) NUL"] c_str_front [OF b64_no_nul]
    by (simp add: Base64_Encode_def)
qed (simp add: Base64_Encode_def)

lemma b64_append_group:
  "length d = 3 * k \<Longrightarrow> b64 (d @ e) = b64 d @ b64 e"
proof (induction d arbitrary: k rule: b64.induct)
  case (4 x y z r)
  then show ?case
    by (cases k) auto
next
  case (3 x y)
  then have "2 = 3 * k"
    by simp
  then have False
    by presburger
  then show ?case ..
qed auto

lemma encode_groups_b64:
  "3 * k \<le> length d \<Longrightarrow> encode_groups d k = Some (b64 (take (3 * k) d))"
proof (induction k)
  case (Suc k)
  have "take (3 * Suc k) d = take (3 * k) d @ [d ! (3 * k), d ! (3 * k + 1), d ! (3 * k + 2)]"
    using Suc.prems by (simp add: numeral_3_eq_3 take_Suc_conv_app_nth)
  then show ?case
    using Suc b64_append_group [of "take (3 * k) d" k]
    by (simp add: group_at_def mem_get_def)
qed simp

lemma base64Encode_b64:
  assumes "length d < 2 ^ 31"
  shows "base64Encode (Some d) (word_of_int (int (length d))) = Some (Some (b64 d))"
proof -
  define k where "k = length d div 3"
  have len: "length d = 3 * k + length d mod 3" "length d mod 3 < 3"
    by (simp_all add: k_def)
  let ?w = "word_of_int (int (length d)) :: u32"
  have small: "x < 2 ^ 31 \<Longrightarrow> x mod 2 ^ LENGTH(32) = x" for x :: nat
    by simp
  have w: "unat ?w = length d"
    using assms by (simp add: unat_of_nat)
  then have q: "unat (?w div 3) = k"
    by (simp add: unat_div k_def)
  then have "unat (?w div 3 * 3) = 3 * k"
    using small [of "3 * k"] len(1) assms by (simp add: unat_word_ariths)
  then have gt: "?w > ?w div 3 * 3 \<longleftrightarrow> length d > 3 * k"
    and two: "?w = ?w div 3 * 3 + 2 \<longleftrightarrow> length d = 3 * k + 2"
    using small [of "3 * k + 2"] w len(1) assms by (simp_all add: word_less_nat_alt word_unat_eq_iff unat_word_ariths(1))
  have d: "b64 d = b64 (take (3 * k) d) @ b64 (drop (3 * k) d)"
    using b64_append_group [of "take (3 * k) d" k "drop (3 * k) d"] len(1) by simp
  consider "length d = 3 * k" | "length d = 3 * k + 1" | "length d = 3 * k + 2"
    using len by linarith
  then show ?thesis
  proof cases
    case 1
    then show ?thesis
      using gt q by (simp add: base64Encode_def Let_def encode_groups_b64)
  next
    case 2
    then have "drop (3 * k) d = [d ! (3 * k)]"
      by (intro nth_equalityI) auto
    then show ?thesis
      using gt two q 2 by (simp add: base64Encode_def Let_def encode_groups_b64 d encode_padding_def mem_get_def)
  next
    case 3
    then have "drop (3 * k) d = [d ! (3 * k), d ! (3 * k + 1)]"
      by (simp flip: Cons_nth_drop_Suc)
    then show ?thesis
      using gt two q 3 by (simp add: base64Encode_def Let_def encode_groups_b64 d encode_padding_def mem_get_def)
  qed
qed

lemma Base64_Encode_data_b64: "length d < 2 ^ 31 \<Longrightarrow> Base64_Encode_data (Some d) (int (length d)) = Some (b64 d)"
  using base64Encode_b64 b64_no_nul by (simp add: Base64_Encode_data_def)

section \<open>Decoding\<close>

lemma sextet_back:
  assumes "k < 64"
  shows "base64_6bits ! of_char (base64_code ! k) = int k"
proof -
  have "map (\<lambda>c. base64_6bits ! of_char c) base64_code = map int [0..<64]"
    by code_simp
  then have "map (\<lambda>c. base64_6bits ! of_char c) base64_code ! k = map int [0..<64] ! k"
    by simp
  moreover have "length base64_code = 64"
    by (simp add: base64_code_def)
  ultimately show ?thesis
    using assms by simp
qed

definition sextet :: "u32 \<Rightarrow> int" where
  "sextet w = uint w mod 64"

lemma base64_char_back: "base64_6bits ! of_char (base64_char w) = sextet w"
proof -
  have "w AND 0x3F = take_bit 6 w"
    by (simp add: mask_6 take_bit_eq_mask)
  then have "unat (w AND 0x3F) = unat w mod 64"
    by (simp add: unsigned_take_bit_eq take_bit_nat_def)
  then show ?thesis
    using sextet_back [of "unat w mod 64"] by (simp add: base64_char_def sextet_def zmod_int)
qed

lemma sextet_range: "0 \<le> sextet w" "sextet w < 64"
  by (simp_all add: sextet_def)

lemma decode_loop_char:
  assumes "0 < n" "int (length (fst s)) + 3 \<le> ds"
  shows "decode_loop (base64_char w # src) n ds False s = decode_loop src (n - 1) ds False (decode_sextet (sextet w) s)"
  using assms sextet_range [of w] by (simp add: base64_char_back Let_def)

lemma byte_uint: "uint (of_char c :: u32) = of_char c" "0 \<le> (of_char c :: int)" "(of_char c :: int) < 256"
  by (cases c; simp add: of_char_def; fail)+

lemma sextet_sums:
  fixes X Y Z :: int
  shows "0 \<le> Y \<Longrightarrow> Y < 256 \<Longrightarrow> (X mod 4 * 16 + Y div 16) mod 64 = X mod 4 * 16 + Y div 16"
    "0 \<le> Z \<Longrightarrow> Z < 256 \<Longrightarrow> (Y * 4 + Z div 64) mod 64 = Y mod 16 * 4 + Z div 64"
    "X mod 4 * 16 mod 64 = X mod 4 * 16" "Y * 4 mod 64 = Y mod 16 * 4"
    "(X div 4 * 64 + X mod 4 * 16) div 16 = X"
proof -
  have m: "0 \<le> X mod 4" "X mod 4 < 4" "0 \<le> Y mod 16" "Y mod 16 < 16"
    by simp_all
  show "(X mod 4 * 16 + Y div 16) mod 64 = X mod 4 * 16 + Y div 16" if "0 \<le> Y" "Y < 256"
  proof -
    have "0 \<le> Y div 16" "Y div 16 < 16"
      using that by linarith+
    then show ?thesis
      using m by (intro mod_pos_pos_trivial) linarith+
  qed
  have y: "Y * 4 = Y mod 16 * 4 + 64 * (Y div 16)"
    using mult_div_mod_eq [of 16 Y] by linarith
  show "(Y * 4 + Z div 64) mod 64 = Y mod 16 * 4 + Z div 64" if "0 \<le> Z" "Z < 256"
  proof -
    have "0 \<le> Z div 64" "Z div 64 < 4"
      using that by linarith+
    then have "(Y mod 16 * 4 + Z div 64) mod 64 = Y mod 16 * 4 + Z div 64"
      using m by (intro mod_pos_pos_trivial) linarith+
    moreover have "Y * 4 + Z div 64 = (Y mod 16 * 4 + Z div 64) + 64 * (Y div 16)"
      using y by linarith
    ultimately show ?thesis
      by (simp only: mod_mult_self2)
  qed
  show "X mod 4 * 16 mod 64 = X mod 4 * 16"
    using m by (intro mod_pos_pos_trivial) linarith+
  show "Y * 4 mod 64 = Y mod 16 * 4"
    unfolding y using m by (simp only: mod_mult_self2) (intro mod_pos_pos_trivial; linarith)
  have "X div 4 * 64 + X mod 4 * 16 = X * 16"
    using mult_div_mod_eq [of 4 X] by linarith
  then show "(X div 4 * 64 + X mod 4 * 16) div 16 = X"
    by simp
qed

lemma sextets_join:
  fixes X Y Z :: int
  shows "(X div 4 * 64 + (X mod 4 * 16 + Y div 16)) * 64 + Y mod 16 * 4 = X * 1024 + Y * 4" (is ?a)
    "((X div 4 * 64 + (X mod 4 * 16 + Y div 16)) * 64 + (Y mod 16 * 4 + Z div 64)) * 64 + Z mod 64 =
      X * 65536 + Y * 256 + Z" (is ?b)
proof -
  have e: "4 * (X div 4) + X mod 4 = X" "16 * (Y div 16) + Y mod 16 = Y" "64 * (Z div 64) + Z mod 64 = Z"
    by (rule mult_div_mod_eq)+
  have a: "(p * 64 + (q * 16 + r)) * 64 + t * 4 = (4 * p + q) * 1024 + (16 * r + t) * 4" for p q r t :: int
    by (simp add: algebra_simps)
  have b: "((p * 64 + (q * 16 + r)) * 64 + (t * 4 + u)) * 64 + v =
      (4 * p + q) * 65536 + (16 * r + t) * 256 + (64 * u + v)" for p q r t u v :: int
    by (simp add: algebra_simps)
  show ?a ?b
    unfolding a b e by (rule refl)+
qed

text \<open>The values of the characters of a group.\<close>

lemma group_sextets:
  fixes a b c :: char
  defines "x \<equiv> of_char a :: u32" and "y \<equiv> of_char b" and "z \<equiv> of_char c"
  shows "sextet (drop_bit 2 x) = of_char a div 4"
    "sextet (push_bit 4 (x AND 3) OR drop_bit 4 y) = of_char a mod 4 * 16 + of_char b div 16"
    "sextet (push_bit 2 y OR drop_bit 6 z) = of_char b mod 16 * 4 + of_char c div 64"
    "sextet z = of_char c mod 64"
    "sextet (push_bit 4 (x AND 3)) = of_char a mod 4 * 16"
    "sextet (push_bit 2 y) = of_char b mod 16 * 4"
proof -
  have r: "uint x = of_char a" "uint y = of_char b" "uint z = of_char c"
    "uint x < 256" "uint y < 256" "uint z < 256" "0 \<le> uint x" "0 \<le> uint y" "0 \<le> uint z"
    unfolding x_def y_def z_def using byte_uint by simp_all
  have low: "uint (x AND 3) = uint x mod 4"
    by (simp add: mask_2 take_bit_eq_mask [symmetric] unsigned_take_bit_eq take_bit_int_def)
  have up: "uint (push_bit n w) = uint w * 2 ^ n" if "uint w * 2 ^ n < 2 ^ 32" for w :: u32 and n
  proof -
    have "uint (push_bit n w) = take_bit 32 (push_bit n (uint w))"
      by (simp add: unsigned_push_bit_eq)
    also have "\<dots> = uint w * 2 ^ n"
      using that by (simp add: push_bit_eq_mult take_bit_int_eq_self)
    finally show ?thesis .
  qed
  have down: "uint (drop_bit n w) = uint w div 2 ^ n" for w :: u32 and n
  proof -
    have "take_bit 32 (uint w) = uint w"
      using uint_bounded [of w] by (simp add: take_bit_int_eq_self)
    moreover have "uint (drop_bit n w) = drop_bit n (take_bit 32 (uint w))"
      by (simp add: unsigned_drop_bit_eq)
    ultimately show ?thesis
      by (simp only: drop_bit_eq_div)
  qed
  have x4: "uint (push_bit 4 (x AND 3)) = uint x mod 4 * 16"
    using up [of "x AND 3" 4] low by simp
  have y2: "uint (push_bit 2 y) = uint y * 4"
    using up [of y 2] r by simp
  have or1: "push_bit 4 (x AND 3) OR drop_bit 4 y = push_bit 4 (x AND 3) + drop_bit 4 y"
    unfolding y_def by (rule disjunctive_add [symmetric]) (auto simp: bit_simps dest: of_char_bits)
  have or2: "push_bit 2 y OR drop_bit 6 z = push_bit 2 y + drop_bit 6 z"
    unfolding z_def by (rule disjunctive_add [symmetric]) (auto simp: bit_simps dest: of_char_bits)
  have plus: "uint (v + w) = uint v + uint w" if "uint v + uint w < 2 ^ 32" for v w :: u32
    using that by (simp add: uint_word_ariths)
  show "sextet (drop_bit 2 x) = of_char a div 4" "sextet z = of_char c mod 64"
    using r down [of 2 x] by (simp_all add: sextet_def)
  have "uint (push_bit 4 (x AND 3) + drop_bit 4 y) = uint x mod 4 * 16 + uint y div 16"
    using plus [of "push_bit 4 (x AND 3)" "drop_bit 4 y"] r x4 down [of 4 y] by simp
  then show "sextet (push_bit 4 (x AND 3) OR drop_bit 4 y) = of_char a mod 4 * 16 + of_char b div 16"
    unfolding or1 sextet_def r(1,2) [symmetric] using sextet_sums(1) [of "uint y" "uint x"] r by (simp only:)
  have "uint (push_bit 2 y + drop_bit 6 z) = uint y * 4 + uint z div 64"
    using plus [of "push_bit 2 y" "drop_bit 6 z"] r y2 down [of 6 z] by simp
  then show "sextet (push_bit 2 y OR drop_bit 6 z) = of_char b mod 16 * 4 + of_char c div 64"
    unfolding or2 sextet_def r(2,3) [symmetric] using sextet_sums(2) [of "uint z" "uint y"] r by (simp only:)
  show "sextet (push_bit 4 (x AND 3)) = of_char a mod 4 * 16" "sextet (push_bit 2 y) = of_char b mod 16 * 4"
    unfolding sextet_def x4 y2 r(1,2) by (simp_all only: sextet_sums)
qed

lemma char_of_low: "char_of (n * 256 + of_char c :: int) = c"
proof -
  have "char_of (n * 256 + of_char c :: int) = char_of (take_bit 8 (n * 256 + of_char c))"
    by (rule char_of_take_bit_eq [symmetric]) simp
  also have "take_bit 8 (n * 256 + of_char c) = of_char c"
    using byte_uint(2,3) [of c] by (simp add: take_bit_int_def)
  finally show ?thesis
    by simp
qed

lemma decode_sextets:
  "decode_sextet v (out, 0, 0) = (out, 1, v)"
  "decode_sextet v (out, 1, d) = (out, 2, d * 64 + v)"
  "decode_sextet v (out, 2, d) = (out, 3, d * 64 + v)"
  by (simp_all add: decode_sextet_def)

lemma decode_group:
  fixes a b c :: char
  shows "decode_sextet (of_char c mod 64) (out, 3, ((of_char a div 4 * 64 + (of_char a mod 4 * 16 + of_char b div 16)) * 64 +
      (of_char b mod 16 * 4 + of_char c div 64))) = (out @ [a, b, c], 0, 0)"
proof -
  let ?x = "of_char a :: int" and ?y = "of_char b :: int" and ?z = "of_char c :: int"
  have "(?x * 65536 + ?y * 256 + ?z) div 2 ^ 16 = ?x" "(?x * 65536 + ?y * 256 + ?z) div 2 ^ 8 = ?x * 256 + ?y"
    using byte_uint(2,3) [of b] byte_uint(2,3) [of c] by simp_all
  moreover have "char_of (?x * 256 + ?y) = b" "char_of (?x * 65536 + ?y * 256 + ?z) = c"
    using char_of_low [of ?x b] char_of_low [of "?x * 256 + ?y" c] by (simp_all add: algebra_simps)
  ultimately show ?thesis
    unfolding decode_sextet_def prod.case Let_def sextets_join(2) by (simp del: power_numeral)
qed

lemma padding_ends: "base64_6bits ! of_char CHR ''='' = -2"
  by code_simp

lemma decode_loop_end: "decode_loop (CHR ''='' # src) n ds False s = Some (Some s)"
  using padding_ends by simp

lemmas decode_chars = decode_loop_char decode_loop_end group_sextets [simplified]

lemma decode_loop_b64:
  assumes "int (length out) + int (length d) + 3 \<le> ds"
  shows "\<exists>s. decode_loop (b64 d) (int (length (b64 d))) ds False (out, 0, 0) = Some (Some s) \<and> decode_rest ds s = out @ d"
  using assms
proof (induction d arbitrary: out rule: b64.induct)
  case 1
  then show ?case
    by (simp add: decode_rest_def)
next
  case (2 x)
  show ?case
    using 2 sextet_sums(5) [of "of_char x"]
    by (simp add: decode_chars decode_sextets [simplified] decode_rest_def del: decode_loop.simps(2))
next
  case (3 x y)
  let ?x = "of_char x :: int" and ?y = "of_char y :: int"
  let ?s = "(out, 3, (?x div 4 * 64 + (?x mod 4 * 16 + ?y div 16)) * 64 + ?y mod 16 * 4)"
  have "(?x * 1024 + ?y * 4) div 2 ^ 10 = ?x" "(?x * 1024 + ?y * 4) div 2 ^ 2 = ?x * 256 + ?y"
    using byte_uint(2,3) [of y] by simp_all
  then have "decode_rest ds ?s = out @ [x, y]"
    unfolding decode_rest_def prod.case Let_def sextets_join(1)
    using 3 char_of_low [of "of_char x" y] by (simp del: power_numeral)
  moreover have "decode_loop (b64 [x, y]) (int (length (b64 [x, y]))) ds False (out, 0, 0) = Some (Some ?s)"
    using 3 by (simp add: decode_chars decode_sextets [simplified] del: decode_loop.simps(2))
  ultimately show ?case
    by blast
next
  case (4 x y z r)
  have "int (length (out @ [x, y, z])) + int (length r) + 3 \<le> ds"
    using "4.prems" by simp
  note IH = "4.IH" [OF this]
  have "decode_loop (encode_group (of_char x) (of_char y) (of_char z) @ b64 r) (4 + int (length (b64 r))) ds False (out, 0, 0) =
      decode_loop (b64 r) (int (length (b64 r))) ds False (out @ [x, y, z], 0, 0)"
    using "4.prems" decode_group [of z out x y]
    by (simp add: encode_group_def decode_chars decode_sextets [simplified] del: decode_loop.simps(2))
  then show ?case
    using IH by (simp add: encode_group_def del: decode_loop.simps(2))
qed

lemma base64_decode_EX_spec:
  assumes "int (length d) + 3 \<le> n" "n \<le> int (length dest)"
  shows "base64_decode_EX (Some (b64 d)) (int (length (b64 d))) dest n False =
    Some (int (length d), d @ NUL # drop (length d + 1) dest)"
proof -
  obtain s where "decode_loop (b64 d) (int (length (b64 d))) n False ([], 0, 0) = Some (Some s)" "decode_rest n s = d"
    using decode_loop_b64 [of "[]" d n] assms(1) by auto
  then show ?thesis
    using write_dest_spec [of d n dest] assms by (simp add: base64_decode_EX_def Let_def)
qed

text \<open>The array of the decoder has room for three bytes more than there are.\<close>

lemma b64_buffer_size:
  assumes "length d < 2 ^ 28" "d \<noteq> []"
  obtains n where "base64_buffer_size (b64 d) = Some n" "int (length d) + 3 \<le> n - 1" "n < 2 ^ 31 - 8192" "0 < n"
    "b64 d \<noteq> []"
proof -
  have len: "length (b64 d) = (length d + 2) div 3 * 4"
    by (rule length_b64)
  then have le: "length d \<le> length (b64 d)" "length (b64 d) * 3 \<le> (length d + 2) * 4" "4 \<le> length (b64 d)"
    using assms(2) by (cases d; simp; linarith)+
  then obtain n where n: "base64_buffer_size (b64 d) = Some n" "n = max 100 (int (length (b64 d)) * 3)"
    using buffer_size_room [of "b64 d"] assms by auto
  show thesis
    by (rule that [OF n(1)]) (use n(2) le assms in auto)
qed

lemma Base64_Decode_array_b64:
  assumes d: "length d < 2 ^ 28" "d \<noteq> []" and buf: "length d \<le> length buf" "int (length d) \<le> buflen"
  shows "Base64_Decode_array (b64 d) buf buflen = Some (True, int (length d), d @ drop (length d) buf)"
proof -
  obtain n where n: "base64_buffer_size (b64 d) = Some n" "int (length d) + 3 \<le> n - 1" "0 < n" "b64 d \<noteq> []"
    by (rule b64_buffer_size [OF d])
  then show ?thesis
    using base64_decode_EX_spec [of d "n - 1" "replicate (nat n) NUL"] buf
    by (simp add: Base64_Decode_array_def mem_read_def memcpy_def)
qed

text \<open>Decoded text ends at its first NUL.\<close>

lemma Base64_Decode_text_b64:
  assumes d: "length d < 2 ^ 28"
  shows "Base64_Decode_text (b64 d) = Some (c_string d)"
proof (cases "d = []")
  case False
  obtain n where n: "base64_buffer_size (b64 d) = Some n" "int (length d) + 3 \<le> n - 1" "0 < n" "b64 d \<noteq> []"
    by (rule b64_buffer_size [OF d False])
  have "c_str (d @ NUL # r) 0 = Some (c_string d)" for r
    by (induction d) (auto simp: c_str_def c_string_def)
  then show ?thesis
    using n base64_decode_EX_spec [of d "n - 1" "replicate (nat n) NUL"]
    by (simp add: Base64_Decode_text_def)
qed (simp add: Base64_Decode_text_def c_string_def)

end
