(* ===== verification/CryptBase64Props.thy ===== *)
theory CryptBase64Props
  imports CryptBase64Ok
begin

text \<open>
  Base64 on byte buffers, and its properties.
\<close>

lemma size_word:
  assumes "0 < n" "n < 2 ^ 31"
  shows "uint (word_of_int n :: u32) = n"
  using assms by (simp add: uint_word_of_int)

lemma Base64_Decode_box_spec:
  assumes d: "length d < 2 ^ 28" "d \<noteq> []" and box: "core_ok box" "length (core_data box) + length d \<le> core_cap box"
  obtains box' where "Base64_Decode_box junk (b64 d) box = Some (0, box')" "core_ok box'" "m_pBuf box' \<noteq> None"
    "core_data box' = core_data box @ d" "core_cap box' = core_cap box"
proof -
  obtain n where n: "base64_buffer_size (b64 d) = Some n" "int (length d) + 3 \<le> n - 1" "n < 2 ^ 31 - 8192" "0 < n"
    by (rule b64_buffer_size [OF d])
  let ?w = "word_of_int n :: u32"
  have w: "uint ?w = n"
    using n(3,4) by (intro size_word) auto
  then have r: "0 < uint ?w" "uint ?w < 2 ^ 31 - 8192"
    using n(3,4) by simp_all
  obtain t buf where t: "PrepareBuf junk ?w False new_buffer = Some (0, t)" "m_pBuf t = Some buf" "length buf = unat ?w"
      "m_nDataOff t = 0" "m_nData t = 0" "m_cbBuf t = int (length buf)"
    by (rule PrepareBuf_new [OF r])
  have len: "int (length buf) = n"
    using t(3) w by simp
  then have array: "Base64_Decode_array (b64 d) buf (GetTailFreeSize t - 1) =
      Some (True, int (length d), d @ drop (length d) buf)"
    using n(2) t(4-6) by (intro Base64_Decode_array_b64 [OF d]) (simp_all add: GetTailFreeSize_def)
  have cap: "core_cap box < 2 ^ 31 - 8192"
    by (rule core_cap_bound [OF box(1)])
  have fits: "min (length d) (core_cap box - length (core_data box)) = length d"
    using box(2) by simp
  obtain b where b: "CoreBuffer_Write junk (Some (d @ drop (length d) buf)) (int (length d)) box = Some (int (length d), b)"
      "core_ok b" "core_data b = core_data box @ d" "core_cap b = core_cap box" "m_pBuf b \<noteq> None"
    by (rule CoreBuffer_Write_spec [OF box(1), of "length d" "d @ drop (length d) buf" junk])
      (use cap box(2) d(2) fits in auto)
  obtain x b' where b': "MakeSureEndWithNull junk b = Some (x, b')" "core_ok b'" "m_pBuf b' \<noteq> None"
      "core_data b' = core_data b" "core_cap b' = core_cap b"
    by (rule MakeSureEndWithNull_any [OF b(2,5)])
  show thesis
    by (rule that [of b']) (use n(1) t(1,2) array b b' d(2) in \<open>simp_all add: Base64_Decode_box_def\<close>)
qed

text \<open>
  The two encoders agree: the one that shifts bytes into a word and writes four characters
  whenever three bytes are in, and the one that computes the groups from the array and pads
  what is left.
\<close>

theorem base64_encoders_agree:
  assumes "int (length d) * 3 < 2 ^ 31"
  shows "Base64_Encode d = Base64_Encode_data (Some d) (int (length d))"
proof -
  have "length d < 2 ^ 31"
    using assms by simp
  then show ?thesis
    using Base64_Encode_b64 [OF assms] Base64_Encode_data_b64 by simp
qed

lemma base64_encoders_agree_witness: "Base64_Encode ''abcd'' = Base64_Encode_data (Some ''abcd'') 4"
  using base64_encoders_agree [of "''abcd''"] by simp

text \<open>
  C20. What was encoded is decoded: the bytes are appended to a buffer that has room for them,
  NULs included; decoded into a string they end at the first NUL.
\<close>

theorem base64_roundtrip:
  assumes "d \<noteq> []" "length d < 2 ^ 28" "core_ok box" "length (core_data box) + length d \<le> core_cap box"
  shows "\<exists>t box'. Base64_Encode_data (Some d) (int (length d)) = Some t \<and>
    Base64_Decode_box junk t box = Some (0, box') \<and> core_ok box' \<and> core_data box' = core_data box @ d \<and>
    Base64_Decode_text t = Some (c_string d)"
proof -
  obtain box' where "Base64_Decode_box junk (b64 d) box = Some (0, box')" "core_ok box'"
      "core_data box' = core_data box @ d"
    by (rule Base64_Decode_box_spec [OF assms(2,1,3,4)])
  moreover have "length d < 2 ^ 31"
    using assms(2) by simp
  ultimately show ?thesis
    using Base64_Encode_data_b64 Base64_Decode_text_b64 [OF assms(2)] by blast
qed

lemma base64_roundtrip_witness:
  "\<exists>t box'. Base64_Encode_data (Some (''ab'' @ [NUL] @ ''c'')) 4 = Some t \<and>
    Base64_Decode_box (\<lambda>_. NUL) t new_buffer = Some (0, box') \<and> core_ok box' \<and>
    core_data box' = ''ab'' @ [NUL] @ ''c'' \<and> Base64_Decode_text t = Some ''ab''"
proof -
  have "core_ok new_buffer" "core_cap new_buffer = 16777216" "core_data new_buffer = []"
    by (simp_all add: core_ok_def core_cap_def core_data_def new_buffer_def)
  then show ?thesis
    using base64_roundtrip [of "''ab'' @ [NUL] @ ''c''" new_buffer "\<lambda>_. NUL"] by (simp add: c_string_def)
qed

end
