(* ===== verification/CryptTeaProps.thy ===== *)
theory CryptTeaProps
  imports CryptTeaOk CryptBase64Props
begin

text \<open>
  What is encoded is decoded, as buffers and as text, where \<^verbatim>\<open>ULONG\<close> has 32 bits; and what fails:
  64 bits, text without a cipher, padding that was not checked.
\<close>

section \<open>Arrays\<close>

definition tea_padded :: "(nat \<Rightarrow> char) \<Rightarrow> char list \<Rightarrow> char list" where
  "tea_padded junk d = d @ map junk [length d mod 8..<7] @ [char_of (8 - length d mod 8)]"

lemma split_length: obtains q l :: nat where "n = q * 8 + l" "l < 8" "n div 8 = q" "n mod 8 = l" "n - q * 8 = l"
  by (rule that [of "n div 8" "n mod 8"]) (simp_all add: minus_div_mult_eq_mod)

lemma tea_padded_length: "length (tea_padded junk d) = (length d div 8 + 1) * 8"
proof -
  obtain q l :: nat where n: "length d = q * 8 + l" "l < 8" "length d div 8 = q" "length d mod 8 = l"
    by (rule split_length [of "length d"])
  have "length (tea_padded junk d) = length d + (7 - l) + 1"
    by (simp add: tea_padded_def n(4))
  also have "\<dots> = (q + 1) * 8"
    using n(1,2) by (simp add: algebra_simps)
  finally show ?thesis
    by (simp only: n(3))
qed

definition tea_cipher :: "(nat \<Rightarrow> char) \<Rightarrow> tea \<Rightarrow> char list \<Rightarrow> char list" where
  "tea_cipher junk t d = map_blocks (enc_block t) (tea_padded junk d)"

lemma enc_block_length [simp]: "length (enc_block t bs) = 8"
  by (simp add: enc_block_def)

lemma dec_block_length [simp]: "length (dec_block t bs) = 8"
  by (simp add: dec_block_def)

lemma tea_cipher_length: "length (tea_cipher junk t d) = (length d div 8 + 1) * 8"
  by (simp add: tea_cipher_def map_blocks_length tea_padded_length)

lemma map_blocks_append:
  "length xs mod 8 = 0 \<Longrightarrow> map_blocks f (xs @ ys) = map_blocks f xs @ map_blocks f ys"
proof (induction "length xs" arbitrary: xs rule: less_induct)
  case less
  show ?case
  proof (cases "length xs < 8")
    case True
    then show ?thesis
      using less.prems by (simp add: map_blocks.simps [of f "[]"])
  next
    case False
    then have "map_blocks f (drop 8 xs @ ys) = map_blocks f (drop 8 xs) @ map_blocks f ys"
      using less.prems by (intro less.hyps) (auto simp: le_mod_geq)
    then show ?thesis
      using False by (simp add: map_blocks.simps [of f "xs @ ys"] map_blocks.simps [of f xs])
  qed
qed

lemma map_blocks_one: "length b = 8 \<Longrightarrow> map_blocks f b = f b"
  by (simp add: map_blocks.simps [of f b] map_blocks.simps [of f "[]"])

lemma map_blocks_whole: "map_blocks f (take (length d div 8 * 8) d) = map_blocks f d"
proof -
  have r: "map_blocks f (drop (length d div 8 * 8) d) = []"
    by (subst map_blocks.simps) (simp add: minus_div_mult_eq_mod)
  have "map_blocks f (take (length d div 8 * 8) d @ drop (length d div 8 * 8) d) =
      map_blocks f (take (length d div 8 * 8) d) @ map_blocks f (drop (length d div 8 * 8) d)"
    by (rule map_blocks_append) (simp add: min_absorb2 div_times_less_eq_dividend)
  then show ?thesis
    using r by simp
qed

lemma encode_length:
  assumes "0 < n" "n + 8 < 2 ^ 31"
  shows "tea_GetEncodeLength (int n) = Some (int ((n div 8 + 1) * 8))"
proof -
  have "(int n + 8) div 8 = int (n div 8) + 1"
    by (simp add: zdiv_int)
  then show ?thesis
    using assms by (simp add: tea_GetEncodeLength_def c_int_def)
qed

lemma tea_Encode_32:
  assumes t: "tea_ok t" and src: "i + length d \<le> length src" "take (length d) (drop i src) = d" "d \<noteq> []"
    and dst: "length dst = (length d div 8 + 1) * 8" and small: "length d + 8 < 2 ^ 31"
  shows "tea_Encode TYPE(32) junk t src i (int (length d)) dst 0 (int (length dst)) =
    Some (int (length dst), tea_cipher junk t d)"
proof -
  obtain k l :: nat where n: "length d = k * 8 + l" "l < 8" "length d div 8 = k" "length d mod 8 = l"
    "length d - k * 8 = l"
    by (rule split_length [of "length d"])
  let ?q = "k * 8"
  have dlen: "length dst = ?q + 8"
    using dst n(3) by simp
  then have room: "0 + length d \<le> length dst"
    using n by linarith
  have blocks: "tea_blocks (tea_Encrypt TYPE(32) t) src i dst 0 (length d) =
      Some (i + ?q, map_blocks (enc_block t) d @ drop ?q dst, ?q, l)"
    using tea_blocks_spec [of src "tea_Encrypt TYPE(32) t" "enc_block t" i "length d" 0 dst, OF tea_Encrypt_32 [OF t]]
      src room n(3,4) by simp
  let ?pad = "drop ?q d @ map junk [l..<7] @ [char_of (8 - l)]"
  have l: "length (drop ?q d) = l"
    using n(5) by simp
  have pad: "tea_padding junk src (i + ?q) l = Some ?pad"
  proof -
    have "drop ?q (take (length d) (drop i src)) = take (length d - ?q) (drop (i + ?q) src)"
      by (simp add: drop_take add.commute)
    then have "mem_read src (i + ?q) l = Some (drop ?q d)"
      unfolding src(2) n(5) using src(1) n(1) by (simp add: mem_read_def)
    moreover have "memcpy (new_bytes junk 8) 0 (drop ?q d) = Some (drop ?q d @ map junk [l..<8])"
      using l n(2) by (simp add: memcpy_def new_bytes_def drop_map)
    moreover have "[l..<8] = [l..<7] @ [7]"
      using n(2) upt_Suc_append [of l 7] by simp
    ultimately show ?thesis
      using l n(2) by (simp add: tea_padding_def mem_set_def list_update_append)
  qed
  have plen: "length ?pad = 8"
    using l n(2) by simp
  have mlen: "length (map_blocks (enc_block t) d) = ?q"
    by (simp add: map_blocks_length n(3))
  have "tea_Encrypt TYPE(32) t ?pad 0 (map_blocks (enc_block t) d @ drop ?q dst) ?q =
      memcpy (map_blocks (enc_block t) d @ drop ?q dst) ?q (enc_block t ?pad)"
    using tea_Encrypt_32 [OF t, of 0 ?pad ?q "map_blocks (enc_block t) d @ drop ?q dst"] plen mlen dlen by simp
  also have "\<dots> = Some (map_blocks (enc_block t) d @ enc_block t ?pad)"
    using mlen dlen by (simp add: memcpy_def)
  also have "map_blocks (enc_block t) d @ enc_block t ?pad = tea_cipher junk t d"
  proof -
    have "tea_padded junk d = take ?q d @ ?pad"
      by (simp add: tea_padded_def n(4))
    moreover have "length (take ?q d) mod 8 = 0"
      using n(1) by simp
    moreover have "map_blocks (enc_block t) (take ?q d) = map_blocks (enc_block t) d"
      using map_blocks_whole [of "enc_block t" d] by (simp only: n(3))
    ultimately show ?thesis
      using map_blocks_append [of "take ?q d" "enc_block t" ?pad] map_blocks_one [OF plen]
      by (simp add: tea_cipher_def)
  qed
  finally have last: "tea_Encrypt TYPE(32) t ?pad 0 (map_blocks (enc_block t) d @ drop ?q dst) ?q =
      Some (tea_cipher junk t d)" .
  have "tea_GetEncodeLength (int (length d)) = Some (int (?q + 8))"
    using encode_length [of "length d"] src(3) small n(3) by simp
  then show ?thesis
    using blocks pad last src(3) dlen by (simp add: tea_Encode_def)
qed

lemma tea_Decode_32:
  assumes t: "tea_ok t" and src: "i + length c \<le> length src" "take (length c) (drop i src) = c"
    and c: "c \<noteq> []" "length c mod 8 = 0" and dst: "length dst = length c"
  shows "tea_Decode TYPE(32) t src i (int (length c)) dst 0 (int (length c)) =
    Some (int (length c) - of_char (last (map_blocks (dec_block t) c)), map_blocks (dec_block t) c)"
proof -
  let ?d = "map_blocks (dec_block t) c"
  have q: "length c div 8 * 8 = length c"
    using c(2) by (metis add.right_neutral div_mult_mod_eq)
  have len: "length ?d = length c"
    using q by (simp add: map_blocks_length)
  have "tea_blocks (tea_Decrypt TYPE(32) t) src i dst 0 (length c) = Some (i + length c, ?d, length c, 0)"
    using tea_blocks_spec [of src "tea_Decrypt TYPE(32) t" "dec_block t" i "length c" 0 dst, OF tea_Decrypt_32 [OF t]]
      src dst c(2) q by simp
  moreover have "mem_get ?d (length c - 1) = Some (last ?d)"
  proof -
    have "?d \<noteq> []"
      using c(1) len by auto
    then show ?thesis
      using c(1) len by (simp add: mem_get_def last_conv_nth)
  qed
  moreover have "int (length c) mod 8 = 0"
    using c(2) zmod_int [of "length c" 8] by simp
  ultimately show ?thesis
    using c(1) by (simp add: tea_Decode_def)
qed

section \<open>Buffers\<close>

lemma buffer_data:
  assumes "core_ok b" "core_data b = d" "d \<noteq> []"
  obtains buf off where "m_pBuf b = Some buf" "buffer_array b = buf" "c_size (m_nDataOff b) = Some off" "m_nData b = int (length d)"
    "off + length d \<le> length buf" "take (length d) (drop off buf) = d"
proof -
  obtain buf where p: "m_pBuf b = Some buf"
    using assms(2,3) by (cases "m_pBuf b") (auto simp: core_data_def)
  obtain off n where "m_nDataOff b = int off" "m_nData b = int n" "off + n \<le> length buf"
      "core_data b = take n (drop off buf)" "length (core_data b) = n"
    by (rule core_okE [OF assms(1) p])
  then show thesis
    using p assms(2) by (intro that [of buf off]) (simp_all add: buffer_array_def c_size_def)
qed

text \<open>A fresh buffer of the right size that an array of results is put into.\<close>

definition takes_array :: "nat \<Rightarrow> CoreBuffer \<Rightarrow> bool" where
  "takes_array n b \<longleftrightarrow> (\<forall>dst k. length dst = n \<and> k \<le> n \<longrightarrow>
     (\<exists>b'. WriteDirect (int k) (set_array dst b) = Some (0, b') \<and> core_ok b' \<and> core_data b' = take k dst \<and>
        m_pBuf b' = Some dst \<and> m_nDataOff b' = 0 \<and> m_nData b' = int k \<and> core_cap b' = max n 16777216))"

lemma fresh_box:
  assumes n: "0 < n" "n < 2 ^ 31 - 8192"
  obtains b where "PrepareBuf junk (word_of_int (int n)) False (CoreBuffer_clear new_buffer) = Some (0, b)"
    "m_nDataOff b = 0" "m_nData b = 0" "length (buffer_array b) = n" "takes_array n b"
proof -
  let ?w = "word_of_int (int n) :: u32"
  have w: "uint ?w = int n"
    using n by (intro size_word) simp_all
  then have un: "unat ?w = n"
    by (simp add: unat_eq_nat_uint)
  have r: "0 < uint ?w" "uint ?w < 2 ^ 31 - 8192"
    unfolding w using n by simp_all
  have clear: "CoreBuffer_clear new_buffer = new_buffer"
    by (simp add: CoreBuffer_clear_def new_buffer_def)
  obtain b buf where b: "PrepareBuf junk ?w False new_buffer = Some (0, b)" "core_ok b" "core_cap b = max (unat ?w) 16777216"
      "m_pBuf b = Some buf" "length buf = unat ?w" "m_nDataOff b = 0" "m_nData b = 0" "m_cbBuf b = int (length buf)"
    by (rule PrepareBuf_new [OF r])
  have f: "length buf = n" "m_cbBuf b = int n" "core_cap b = max n 16777216"
    using b(3,5,8) unfolding un by simp_all
  have "\<exists>b'. WriteDirect (int k) (set_array dst b) = Some (0, b') \<and> core_ok b' \<and>
       core_data b' = take k dst \<and> m_pBuf b' = Some dst \<and> m_nDataOff b' = 0 \<and> m_nData b' = int k \<and>
       core_cap b' = max n 16777216" if "length dst = n" "k \<le> n" for dst k
    using b(2,4,6,7) f that n
    by (simp add: WriteDirect_def set_array_def c_int_def core_ok_def core_data_def core_cap_def)
  then have "takes_array n b"
    by (simp add: takes_array_def)
  then show thesis
    using that [of b] b(1,4,6,7) f(1) clear by (simp add: buffer_array_def)
qed

lemma Tea_Encode_box_32:
  assumes t: "tea_ok t" and inbox: "core_ok inbox" "core_data inbox = d" "d \<noteq> []" "length d < 2 ^ 30"
  obtains b where "Tea_Encode_box TYPE(32) junk t inbox new_buffer = Some b" "core_ok b"
    "core_data b = tea_cipher junk t d" "m_pBuf b = Some (tea_cipher junk t d)" "m_nDataOff b = 0"
    "m_nData b = int (length (tea_cipher junk t d))"
proof -
  obtain buf off where i: "m_pBuf inbox = Some buf" "buffer_array inbox = buf" "c_size (m_nDataOff inbox) = Some off"
      "m_nData inbox = int (length d)" "off + length d \<le> length buf" "take (length d) (drop off buf) = d"
    by (rule buffer_data [OF inbox(1-3)])
  let ?n = "(length d div 8 + 1) * 8" and ?c = "tea_cipher junk t d"
  have n: "0 < ?n" "?n < 2 ^ 31 - 8192" "?n \<le> length d + 8"
    using inbox(4) div_times_less_eq_dividend [of "length d" 8] by simp_all
  obtain b0 where b0: "PrepareBuf junk (word_of_int (int ?n)) False (CoreBuffer_clear new_buffer) = Some (0, b0)"
      "m_nDataOff b0 = 0" "m_nData b0 = 0" "length (buffer_array b0) = ?n" "takes_array ?n b0"
    by (rule fresh_box [OF n(1,2), of junk])
  have len: "length ?c = ?n"
    by (rule tea_cipher_length)
  have len_d: "tea_GetEncodeLength (int (length d)) = Some (int ?n)"
    using encode_length [of "length d"] inbox(3,4) by simp
  have enc: "tea_Encode TYPE(32) junk t buf off (int (length d)) (buffer_array b0) 0 (int ?n) = Some (int ?n, ?c)"
    using tea_Encode_32 [OF t i(5,6) inbox(3), of "buffer_array b0" junk] b0(4) inbox(4) by simp
  obtain b where b: "WriteDirect (int ?n) (set_array ?c b0) = Some (0, b)" "core_ok b" "core_data b = take ?n ?c"
      "m_pBuf b = Some ?c" "m_nDataOff b = 0" "m_nData b = int ?n"
    using b0(5) len unfolding takes_array_def by blast
  have "Tea_Encode_box TYPE(32) junk t inbox new_buffer = Some b"
    unfolding Tea_Encode_box_def Let_def i(3,4) len_d using b0 enc b(1) i(2)
    by (simp add: c_size_def del: mult_Suc mult_Suc_right)
  then show thesis
    by (rule that) (use b len in simp_all)
qed

lemma Tea_Decode_box_32:
  assumes t: "tea_ok t" and inbox: "core_ok inbox" "core_data inbox = tea_cipher junk t d" "length d < 2 ^ 30"
  obtains b where "Tea_Decode_box TYPE(32) junk' t inbox new_buffer = Some b" "core_ok b" "m_pBuf b \<noteq> None"
    "core_data b = d" "length d < core_cap b"
proof -
  let ?c = "tea_cipher junk t d"
  have len: "length ?c = (length d div 8 + 1) * 8"
    by (rule tea_cipher_length)
  then have c: "?c \<noteq> []" "length ?c mod 8 = 0"
    by auto
  obtain buf off where i: "m_pBuf inbox = Some buf" "buffer_array inbox = buf" "c_size (m_nDataOff inbox) = Some off"
      "m_nData inbox = int (length ?c)" "off + length ?c \<le> length buf" "take (length ?c) (drop off buf) = ?c"
    by (rule buffer_data [OF inbox(1,2) c(1)])
  have n: "0 < length ?c" "length ?c < 2 ^ 31 - 8192" "length d < length ?c"
    unfolding len using inbox(3) div_times_less_eq_dividend [of "length d" 8] dividend_less_div_times [of 8 "length d"]
    by simp_all
  obtain b0 where b0: "PrepareBuf junk' (word_of_int (int (length ?c))) False (CoreBuffer_clear new_buffer) = Some (0, b0)"
      "m_nDataOff b0 = 0" "m_nData b0 = 0" "length (buffer_array b0) = length ?c" "takes_array (length ?c) b0"
    by (rule fresh_box [OF n(1,2), of junk'])
  have plain: "map_blocks (dec_block t) ?c = tea_padded junk d"
    unfolding tea_cipher_def by (rule map_blocks_inverse) (simp_all add: dec_enc_block [OF t] tea_padded_length)
  have "(of_char (last (tea_padded junk d)) :: int) = int (8 - length d mod 8)"
  proof -
    have "(of_char c :: int) = int (of_char c)" for c
      by (cases c) (simp add: of_char_def)
    moreover have "(8 - length d mod 8) mod 256 = 8 - length d mod 8"
      by (rule mod_less) simp
    moreover have "last (tea_padded junk d) = char_of (8 - length d mod 8)"
      by (simp add: tea_padded_def)
    ultimately show ?thesis
      by (simp only: of_char_of)
  qed
  moreover have "int (length ?c) - int (8 - length d mod 8) = int (length d)"
  proof -
    obtain q l :: nat where n: "length d = q * 8 + l" "l < 8" "length d div 8 = q" "length d mod 8 = l"
      by (rule split_length [of "length d"])
    then show ?thesis
      unfolding len n(3,4) by simp
  qed
  ultimately have dec: "tea_Decode TYPE(32) t buf off (int (length ?c)) (buffer_array b0) 0 (int (length ?c)) =
      Some (int (length d), tea_padded junk d)"
    using tea_Decode_32 [OF t i(5,6) c b0(4)] plain by simp
  have plen: "length (tea_padded junk d) = length ?c"
    by (simp add: len tea_padded_length)
  obtain b where b: "WriteDirect (int (length d)) (set_array (tea_padded junk d) b0) = Some (0, b)" "core_ok b"
      "core_data b = take (length d) (tea_padded junk d)" "m_pBuf b = Some (tea_padded junk d)" "core_cap b = max (length ?c) 16777216"
    using b0(5) plen less_imp_le [OF n(3)] unfolding takes_array_def by blast
  have "Tea_Decode_box TYPE(32) junk' t inbox new_buffer = Some b"
    unfolding Tea_Decode_box_def Let_def i(3,4) using b0 dec b(1) i(2) by (simp add: c_size_def)
  then show thesis
    by (rule that) (use b n(3) in \<open>simp_all add: tea_padded_def\<close>)
qed

section \<open>Text\<close>

lemma write_std_string_spec:
  assumes "s \<noteq> []" "length s \<le> 16777216"
  obtains b where "write_std_string junk s new_buffer = Some b" "core_ok b" "core_data b = s"
proof -
  have new: "core_ok new_buffer" "core_data new_buffer = []" "core_cap new_buffer = 16777216"
    by (simp_all add: core_ok_def core_data_def core_cap_def new_buffer_def)
  obtain b where b: "CoreBuffer_Write junk (Some s) (int (length s)) new_buffer = Some (int (length s), b)" "core_ok b"
      "core_data b = s" "m_pBuf b \<noteq> None"
    by (rule CoreBuffer_Write_spec [OF new(1), of "length s" s junk]) (use assms new in \<open>auto simp: new_buffer_def\<close>)
  obtain x b' where "MakeSureEndWithNull junk b = Some (x, b')" "core_ok b'" "core_data b' = core_data b"
    by (rule MakeSureEndWithNull_any [OF b(2,4)])
  then show thesis
    using b by (intro that [of b']) (simp_all add: write_std_string_def)
qed

lemma EncodeText_32:
  assumes t: "tea_ok t" and s: "s \<noteq> []" "length s \<le> 16777208"
  shows "EncodeTextWithBase64 TYPE(32) junk t s = Some (b64 (tea_cipher junk t s))"
proof -
  obtain b where b: "write_std_string junk s new_buffer = Some b" "core_ok b" "core_data b = s"
    by (rule write_std_string_spec [OF s(1)]) (use s(2) in simp)
  obtain c where c: "Tea_Encode_box TYPE(32) junk t b new_buffer = Some c"
      "m_pBuf c = Some (tea_cipher junk t s)" "m_nDataOff c = 0" "m_nData c = int (length (tea_cipher junk t s))"
    by (rule Tea_Encode_box_32 [OF t b(2,3) s(1), of junk]) (use s(2) in simp)
  have "length (tea_cipher junk t s) < 2 ^ 31"
    using s(2) div_times_less_eq_dividend [of "length s" 8] by (simp add: tea_cipher_length)
  then show ?thesis
    using b(1) c Base64_Encode_data_b64 by (simp add: EncodeTextWithBase64_def data_pointer_def c_size_def)
qed

lemma c_str_drop: "c_str (drop off buf) 0 = c_str buf off"
  by (simp add: c_str_def)

lemma DecodeText_32:
  assumes t: "tea_ok t" and s: "s \<noteq> []" "length s \<le> 16777208" "NUL \<notin> set s"
  shows "DecodeTextWithBase64 TYPE(32) junk' t (b64 (tea_cipher junk t s)) = Some s"
proof -
  let ?c = "tea_cipher junk t s"
  have new: "core_ok new_buffer" "core_data new_buffer = []" "core_cap new_buffer = 16777216"
    by (simp_all add: core_ok_def core_data_def core_cap_def new_buffer_def)
  have len: "length ?c \<le> 16777216" "?c \<noteq> []"
    using s(2) div_times_less_eq_dividend [of "length s" 8] tea_cipher_length [of junk t s] by auto
  obtain box where box: "Base64_Decode_box junk' (b64 ?c) new_buffer = Some (0, box)" "core_ok box"
      "core_data box = core_data new_buffer @ ?c"
    by (rule Base64_Decode_box_spec [OF _ len(2) new(1), of junk']) (use len(1) new in simp_all)
  obtain b where b: "Tea_Decode_box TYPE(32) junk' t box new_buffer = Some b" "core_ok b" "m_pBuf b \<noteq> None"
      "core_data b = s" "length s < core_cap b"
    by (rule Tea_Decode_box_32 [OF t box(2), of junk s junk']) (use box(3) new(2) s(2) in simp_all)
  obtain b' where b': "MakeSureEndWithNull junk' b = Some (0, b')"
    and at: "core_data b \<noteq> [] \<Longrightarrow> \<exists>buf off. m_pBuf b' = Some buf \<and> m_nDataOff b' = int off \<and>
       (\<forall>k < length (core_data b). c_str buf (off + k) = Some (takeWhile (\<lambda>c. c \<noteq> NUL) (drop k (core_data b))))"
    by (rule MakeSureEndWithNull_spec [OF b(2,3), of junk']) (use b(4,5) in auto)
  obtain buf off where p: "m_pBuf b' = Some buf" "m_nDataOff b' = int off"
      "\<forall>k < length s. c_str buf (off + k) = Some (takeWhile (\<lambda>c. c \<noteq> NUL) (drop k s))"
    using at [unfolded b(4), OF s(1)] by (elim exE conjE) (rule that)
  have "takeWhile (\<lambda>c. c \<noteq> NUL) s = s"
    using s(3) by (auto simp: takeWhile_eq_all_conv)
  then have "c_str buf off = Some s"
    using p(3) [rule_format, of 0] s(1) by simp
  then show ?thesis
    using box(1) b(1) b' p(1,2) by (simp add: DecodeTextWithBase64_def data_pointer_def c_size_def c_str_drop)
qed

text \<open>
  C19. Where \<^verbatim>\<open>ULONG\<close> has 32 bits, text that was encrypted and written as Base64 is read back, with
  any password, any number of rounds and whatever the padding and the memory hold.
\<close>

theorem tea_text_roundtrip:
  assumes "s \<noteq> []" "length s \<le> 16777208" "NUL \<notin> set s" "0 \<le> round"
  shows "\<exists>e. EncodeTextWithBase64 TYPE(32) junk (Tea_SetPassword password (Tea round)) s = Some e \<and>
    DecodeTextWithBase64 TYPE(32) junk' (Tea_SetPassword password (Tea round)) e = Some s"
  using EncodeText_32 [OF tea_ok_new [OF assms(4)] assms(1,2)] DecodeText_32 [OF tea_ok_new [OF assms(4)] assms(1-3)]
  by blast

lemma tea_text_roundtrip_witness:
  "\<exists>e. EncodeTextWithBase64 TYPE(32) (\<lambda>_. NUL) (Tea_SetPassword ''device.password'' (Tea 16)) ''secret'' = Some e \<and>
    DecodeTextWithBase64 TYPE(32) (\<lambda>_. CR) (Tea_SetPassword ''device.password'' (Tea 16)) e = Some ''secret''"
  by (rule tea_text_roundtrip) simp_all

text \<open>
  An empty text is not read back: it is encrypted to nothing, and nothing is decrypted to a
  null pointer, from which a string is made. The same happens to any text that is not Base64.
\<close>

theorem tea_empty_text_crashes:
  "EncodeTextWithBase64 ULONG junk t [] = Some [] \<and> DecodeTextWithBase64 ULONG junk t [] = None \<and>
   DecodeTextWithBase64 ULONG junk t ''*'' = None"
proof -
  have prep: "PrepareBuf junk 0 False new_buffer = Some (0, new_buffer)"
    by (simp add: PrepareBuf_def CoreBuffer_clear_def new_buffer_def GetFreeSize_def)
  have clear: "CoreBuffer_clear new_buffer = new_buffer" "set_array xs new_buffer = new_buffer" "m_pBuf new_buffer = None"
    "m_nDataOff new_buffer = 0" "m_nData new_buffer = 0" "WriteDirect 0 new_buffer = Some (0, new_buffer)" for xs
    by (simp_all add: CoreBuffer_clear_def new_buffer_def set_array_def WriteDirect_def c_int_def)
  have wrote: "write_std_string junk [] new_buffer = Some new_buffer"
    by (simp add: write_std_string_def CoreBuffer_Write_def MakeSureEndWithNull_def clear)
  have enc: "EncodeTextWithBase64 ULONG junk t [] = Some []"
    by (simp add: EncodeTextWithBase64_def wrote Tea_Encode_box_def clear c_size_def tea_GetEncodeLength_def prep
        tea_Encode_def data_pointer_def Base64_Encode_data_def base64Encode_def)
  have dec: "DecodeTextWithBase64 ULONG junk t e = None" if "Base64_Decode_box junk e new_buffer = Some (-1, new_buffer)" for e
    using that by (simp add: DecodeTextWithBase64_def Tea_Decode_box_def clear c_size_def prep tea_Decode_def
        MakeSureEndWithNull_def data_pointer_def)
  have r: "0 < uint (100 :: u32)" "uint (100 :: u32) < 2 ^ 31 - 8192"
    by simp_all
  obtain b buf where b: "PrepareBuf junk 100 False new_buffer = Some (0, b)" "m_pBuf b = Some buf"
    by (rule PrepareBuf_new [OF r])
  have "Base64_Decode_box junk [] new_buffer = Some (-1, new_buffer)"
    using b by (simp add: Base64_Decode_box_def base64_buffer_size_def c_int_def Base64_Decode_array_def)
  moreover have "Base64_Decode_box junk ''*'' new_buffer = Some (-1, new_buffer)"
  proof -
    have "base64_decode_EX (Some ''*'') 1 dest 99 False = Some (-1, dest)" for dest
      by (simp add: base64_decode_EX_def base64_6bits_def)
    then show ?thesis
      using b by (simp add: Base64_Decode_box_def base64_buffer_size_def c_int_def Base64_Decode_array_def)
  qed
  ultimately show ?thesis
    using enc dec by blast
qed

text \<open>
  C24. Where \<^verbatim>\<open>ULONG\<close> has 64 bits every block reads its key from behind the 16 bytes of the object, and
  the constant that decryption with 16 rounds starts from is not the one that encryption ends with.
\<close>

theorem tea_undefined_on_64_bits:
  "tea_Encrypt TYPE(64) (Tea_SetPassword password (Tea round)) src i dst j = None \<and>
   tea_Decrypt TYPE(64) (Tea_SetPassword password (Tea round)) src i dst j = None \<and>
   (decrypt_sum 16 :: u64) \<noteq> 16 * tea_delta"
proof -
  have "tea_keys (Tea_SetPassword password (Tea round)) = (None :: 64 tea_keys option)"
    by (simp add: tea_keys_def load_ulong_def ulong_size_def mem_read_def Tea_SetPassword_def Tea_def Let_def)
  moreover have "(decrypt_sum 16 :: u64) \<noteq> 16 * tea_delta"
    by (simp add: decrypt_sum_def tea_delta_def)
  ultimately show ?thesis
    by (simp add: tea_Encrypt_def tea_Decrypt_def)
qed

text \<open>
  C25. The number of padding bytes is not checked: a cipher that does not come from \<^verbatim>\<open>Encode\<close>, and
  whose plain block ends with a byte above 8, gives a buffer with a negative amount of data.
\<close>

theorem tea_padding_not_checked:
  assumes t: "tea_ok t" and inbox: "core_ok inbox" "core_data inbox = enc_block t bs"
    and bs: "length bs = 8" "8 < (of_char (last bs) :: int)"
  shows "\<exists>b. Tea_Decode_box TYPE(32) junk t inbox new_buffer = Some b \<and> m_nData b = 8 - of_char (last bs) \<and>
    m_nData b < 0 \<and> \<not> core_ok b"
proof -
  let ?c = "enc_block t bs"
  have c: "?c \<noteq> []" "length ?c mod 8 = 0"
    using enc_block_length [of t bs] by (metis list.size(3) zero_neq_numeral, simp)
  obtain buf off where i: "m_pBuf inbox = Some buf" "buffer_array inbox = buf" "c_size (m_nDataOff inbox) = Some off"
      "m_nData inbox = int (length ?c)" "off + length ?c \<le> length buf" "take (length ?c) (drop off buf) = ?c"
    by (rule buffer_data [OF inbox c(1)])
  have clear: "CoreBuffer_clear new_buffer = new_buffer"
    by (simp add: CoreBuffer_clear_def new_buffer_def)
  have r: "0 < uint (8 :: u32)" "uint (8 :: u32) < 2 ^ 31 - 8192"
    by simp_all
  obtain b0 dst where b0: "PrepareBuf junk 8 False new_buffer = Some (0, b0)" "m_pBuf b0 = Some dst" "length dst = unat (8 :: u32)"
      "m_nDataOff b0 = 0" "m_nData b0 = 0" "m_cbBuf b0 = int (length dst)"
    by (rule PrepareBuf_new [OF r])
  have "map_blocks (dec_block t) ?c = bs"
    using map_blocks_one [of ?c "dec_block t"] dec_enc_block [OF t bs(1)] by simp
  then have dec: "tea_Decode TYPE(32) t buf off 8 dst 0 8 = Some (8 - of_char (last bs), bs)"
    using tea_Decode_32 [OF t i(5,6) c, of dst] b0(3) by simp
  have "(of_char (last bs) :: int) < 256"
    by (rule byte_uint(3))
  then have "WriteDirect (8 - of_char (last bs)) (set_array bs b0) =
      Some (0, set_array bs b0\<lparr>m_nData := 8 - of_char (last bs)\<rparr>)"
    using b0(3-6) bs by (simp add: WriteDirect_def set_array_def c_int_def)
  then have "Tea_Decode_box TYPE(32) junk t inbox new_buffer = Some (set_array bs b0\<lparr>m_nData := 8 - of_char (last bs)\<rparr>)"
    unfolding Tea_Decode_box_def Let_def clear i(3,4) using b0 dec i(2) by (simp add: c_size_def buffer_array_def)
  then show ?thesis
    using bs(2) b0(2) by (simp add: core_ok_def set_array_def)
qed

definition box_of :: "char list \<Rightarrow> CoreBuffer" where
  "box_of xs = \<lparr>m_pBuf = Some xs, m_cbBuf = int (length xs), m_cbMaxBuf = int (length xs), m_nDataOff = 0,
     m_nData = int (length xs)\<rparr>"

lemma tea_padding_not_checked_witness:
  "\<exists>b. Tea_Decode_box TYPE(32) (\<lambda>_. NUL) (Tea 16) (box_of (enc_block (Tea 16) (replicate 8 CHR 0xFF))) new_buffer = Some b \<and>
    m_nData b = 8 - of_char (last (replicate 8 CHR 0xFF)) \<and> m_nData b < 0 \<and> \<not> core_ok b"
proof -
  let ?c = "enc_block (Tea 16) (replicate 8 CHR 0xFF)"
  have t: "tea_ok (Tea 16)"
    by (simp add: tea_ok_def Tea_def)
  have box: "core_ok (box_of ?c)" "core_data (box_of ?c) = ?c"
    using enc_block_length [of "Tea 16" "replicate 8 CHR 0xFF"]
    by (simp_all add: box_of_def core_ok_def core_data_def del: enc_block_length)
  show ?thesis
    by (rule tea_padding_not_checked [OF t box]) code_simp+
qed

end
