(* ===== verification/Spec2Isabelle.thy ===== *)
theory Spec2Isabelle
  imports SctpLink WepollPortProps WepollReflock TimerProps CoreHex CoreBcd LooperMsgLive CtpAck CryptCrc CryptTeaProps
begin

text \<open>
  CoreLooper is a C++ framework of message loops: a looper is a thread that waits for sockets,
  timers and messages, and calls the handlers they belong to. This development models the
  parts of it that have a logic of their own, below \<^verbatim>\<open>src/src\<close> where nothing else is said:

  \<^item> the message core of the loopers (\<^verbatim>\<open>core/looper/looperimpl.cpp\<close>, \<^verbatim>\<open>arch/linux/looper_linux.cpp\<close>):
    lists of messages, \<^verbatim>\<open>postMessage\<close>, \<^verbatim>\<open>sendMessage\<close> with its nested loop, the end of \<^verbatim>\<open>Run\<close>;
  \<^item> the timers of a looper (\<^verbatim>\<open>core/looper/timermanager.cpp\<close> and the timer parts of
    \<^verbatim>\<open>handlerinternaldata.cpp\<close>, \<^verbatim>\<open>handler.cpp\<close>, \<^verbatim>\<open>looperimpl.cpp\<close>): five wheels of spokes;
  \<^item> wepoll (\<^verbatim>\<open>arch/windows/wepoll/wepoll.c\<close>): the implementation of epoll that the loopers wait
    with on Windows, with its red-black trees, queues, poll groups, reference lock and the
    life of a socket between the application and the driver;
  \<^item> the SCTP text protocol (\<^verbatim>\<open>core/protocol/sctp\<close>) that handlers speak over serial lines and
    sockets: byte buffer, field bundle, checksum, sender and receiver;
  \<^item> the common text protocol CTP (\<^verbatim>\<open>core/protocol/ctp\<close>), in which objects send each other
    commands, answers and notifications over a stream;
  \<^item> the byte buffer of the core library and its text and number encodings (\<^verbatim>\<open>core/base\<close>,
    \<^verbatim>\<open>core/string\<close>);
  \<^item> the checksum, Base64 and the cipher TEA of libcrypt (\<^verbatim>\<open>src/projects/libcrypt\<close>), with which the
    HTTP server keeps its passwords.

  The parts meet in the looper: it runs the timers that are due, waits in \<^verbatim>\<open>epoll_wait\<close> for the
  time \<^verbatim>\<open>GetMinIdleTime\<close> answers, and dispatches the messages in its list; a handler that is
  called reads its socket into a byte buffer and feeds a protocol object.

  Conventions. A C integer is a word of its width, or an \<^verbatim>\<open>int\<close> with an explicit range check
  where signed overflow would be undefined. The result type \<^verbatim>\<open>option\<close> is undefined behaviour
  (an access outside an array, a null or freed object) or a failed assertion where it is
  \<^verbatim>\<open>None\<close>; error codes are values. Pointers into shared structures are addresses of an explicit
  heap. Whatever the program does not determine is an argument: the bytes of fresh memory,
  the answers of the operating system, the clock, what application handlers do.

  \<^bold>\<open>Prelude\<close>: integer types, C memory and strings, the C library functions used.

  \<^bold>\<open>SCTP.\<close> \<^verbatim>\<open>CByteBuffer\<close> (\<^verbatim>\<open>cbytebuffer.c\<close>), \<^verbatim>\<open>CBundle\<close> (\<^verbatim>\<open>cbundle.c\<close>), \<^verbatim>\<open>SctpTool\<close> (\<^verbatim>\<open>ccrc.c\<close>,
  \<^verbatim>\<open>tool.c\<close>), \<^verbatim>\<open>Sctp\<close> (\<^verbatim>\<open>csctp.c\<close>: \<^verbatim>\<open>SCTP_CreateOutboxData\<close>, \<^verbatim>\<open>SCTP_InputData\<close> and what they call),
  \<^verbatim>\<open>SctpObject\<close> (\<^verbatim>\<open>sctp.cpp\<close>). \<^verbatim>\<open>SctpSender\<close> describes the text of a frame as a function of its
  fields, \<^verbatim>\<open>SctpReceiver\<close> gives a parser on strings and shows that the receiver computes it,
  \<^verbatim>\<open>SctpLink\<close> puts them together: frames come back unchanged, also split and among noise, a
  damaged byte is refused.

  \<^bold>\<open>Timers.\<close> \<^verbatim>\<open>TimerWheel\<close> holds the state (wheels, nodes, handlers) and the operations on
  lists and spokes, \<^verbatim>\<open>TimerLoop\<close> the loop (\<^verbatim>\<open>CheckTimer\<close>, \<^verbatim>\<open>Cascade\<close>, \<^verbatim>\<open>OnTimer\<close>,
  \<^verbatim>\<open>GetMinIdleTime\<close>), where a callback is an arbitrary list of requests to set and kill timers.
  \<^verbatim>\<open>TimerInv\<close> states the invariant, \<^verbatim>\<open>TimerTime\<close> the arithmetic of 32-bit ticks, \<^verbatim>\<open>TimerOps\<close>,
  \<^verbatim>\<open>TimerReq\<close>, \<^verbatim>\<open>TimerTurn\<close>, \<^verbatim>\<open>TimerRun\<close> carry it through the operations; \<^verbatim>\<open>TimerRounds\<close> and
  \<^verbatim>\<open>TimerProps\<close> hold what follows: no dangling node, every due timer called once, none late.
  The bound: intervals and the distance of clock readings stay below half of the 32-bit range,
  as the code's signed comparison of ticks needs.

  \<^bold>\<open>wepoll.\<close> \<^verbatim>\<open>WepollErr\<close>, \<^verbatim>\<open>WepollEvents\<close> (error codes, event masks), \<^verbatim>\<open>WepollQueue\<close> (intrusive
  queues), \<^verbatim>\<open>WepollTree\<close> with \<^verbatim>\<open>WepollTreeRep\<close>, \<^verbatim>\<open>WepollTreeAdd\<close>, \<^verbatim>\<open>WepollTreeDel\<close>, \<^verbatim>\<open>WepollTreeMap\<close>
  (red-black trees on a heap, as finite maps), \<^verbatim>\<open>WepollReflock\<close> (the reference lock and every
  interleaving of its users), \<^verbatim>\<open>WepollPort\<close> (poll groups, sockets, requests, ports: the
  \<^verbatim>\<open>sock_*\<close>, \<^verbatim>\<open>poll_group_*\<close> and \<^verbatim>\<open>port_*\<close> functions), \<^verbatim>\<open>WepollGroups\<close>, \<^verbatim>\<open>WepollSocks\<close>,
  \<^verbatim>\<open>WepollSockOps\<close>, \<^verbatim>\<open>WepollPortInv\<close>, \<^verbatim>\<open>WepollPortWait\<close>, \<^verbatim>\<open>WepollPortEnd\<close> (the invariant and what
  each operation does) and \<^verbatim>\<open>WepollPortProps\<close> (the properties). The loops of the tree take
  fuel, one unit per turn; the theorems show that the height of the tree is enough. The
  answers of the system and the actions of other threads while the lock is released are
  arguments, restricted only to what the system documents.

  \<^bold>\<open>Core buffer.\<close> \<^verbatim>\<open>CoreBuffer\<close>, \<^verbatim>\<open>CoreBufferOps\<close> (\<^verbatim>\<open>bytebuffer.cpp\<close>: a bounded queue of bytes with a
  line reader), \<^verbatim>\<open>CoreHex\<close> (\<^verbatim>\<open>bytetool.cpp\<close>: hexadecimal text into a buffer, over an interface
  for byte sinks), \<^verbatim>\<open>CoreBcd\<close> (\<^verbatim>\<open>bcdtool.cpp\<close>).

  \<^bold>\<open>CTP.\<close> \<^verbatim>\<open>CoreText\<close> (\<^verbatim>\<open>textseparator.cpp\<close>, \<^verbatim>\<open>textprotocol.cpp\<close>, \<^verbatim>\<open>bundle.h\<close>: splitting of text and
  the map \<^verbatim>\<open>Bundle\<close>), \<^verbatim>\<open>Ctp\<close> (\<^verbatim>\<open>commontextprotocol_impl.cpp\<close>, on the core buffer). \<^verbatim>\<open>CtpParse\<close> gives a
  splitter of lists of bytes into messages and shows that the loop over the inbox computes it,
  \<^verbatim>\<open>CtpStream\<close> carries it to \<^verbatim>\<open>Input\<close> and shows that messages do not depend on what follows
  them; \<^verbatim>\<open>CtpFrame\<close> describes the text of a message as a function of its fields and body,
  \<^verbatim>\<open>CtpMessages\<close> the sender and what one message does at the receiver, \<^verbatim>\<open>CtpProps\<close> and \<^verbatim>\<open>CtpAck\<close>
  hold the theorems. Bounds: the pieces of a stream fit into the inbox of 16 MB beside what is
  pending, and lengths in headers are numbers that leave room in an \<^verbatim>\<open>int\<close>; what happens
  otherwise is shown too. The loops over messages may not end (they do not for a negative
  length), so they are partial functions.

  \<^bold>\<open>libcrypt.\<close> \<^verbatim>\<open>CryptCrc\<close> (\<^verbatim>\<open>crc16.cpp\<close>: the checksum with a table, the one bit by bit, packets),
  \<^verbatim>\<open>CryptBase64\<close> (\<^verbatim>\<open>base64ex.cpp\<close>) with \<^verbatim>\<open>CryptBase64Ok\<close> (the text as a function of the bytes, which
  both encoders compute and the decoder undoes) and \<^verbatim>\<open>CryptBase64Props\<close>, \<^verbatim>\<open>CryptTea\<close> (\<^verbatim>\<open>tea.cpp\<close>) with
  \<^verbatim>\<open>CryptTeaOk\<close> (a round is undone, so are blocks and arrays) and \<^verbatim>\<open>CryptTeaProps\<close> (buffers and
  text). The width of \<^verbatim>\<open>unsigned long\<close> is a type variable of the cipher: it is correct at 32 bits
  and undefined at 64. Bounds: data for Base64 below 2^28 bytes, text for the cipher up to
  16777208 bytes, the capacity of a buffer less the padding.

  \<^bold>\<open>Looper messages.\<close> \<^verbatim>\<open>LooperMsg\<close> models all loopers of a process as one step function
  over actions of threads, so that every interleaving of every behaviour of the handlers is a
  run. \<^verbatim>\<open>LooperMsgInv\<close>, \<^verbatim>\<open>LooperMsgCalls\<close>, \<^verbatim>\<open>LooperMsgProps\<close>: the invariant (where a message
  can be, which calls wait for which message, the order of nested dispatches).
  \<^verbatim>\<open>LooperMsgLive\<close>: order, answers, an orderly stop, and the absence of deadlocks, through an
  interface for systems that can always move and whose work shrinks.

  Not modelled: the tree of handlers and the collection of destroyed handlers, which live in
  C++ destructors and virtual calls of application classes; the entry points of wepoll and its
  handle table, which forward to the parts above; the second version of the CTP object; AES,
  MD5, HMAC, digest authentication and the mail encoder of libcrypt; sockets, files, logs and
  the glue to Android, iOS and Windows, which are calls of the system; the libraries on top
  (HTTP, XML, database) and third-party code (wolfSSL, mbedTLS, zltoolkit, ArduinoJson).
\<close>

end
